(* ===== verification/Prelude.thy ===== *)
theory Prelude
  imports Main "HOL-Library.List_Lexorder" "HOL-Library.Char_ord" "HOL-Library.Sublist"
    "HOL-Library.Multiset"
begin

text \<open>
  Shared vocabulary of the development: the Python values that cross the program's
  interfaces, the exceptions its functions raise, the result type in which a raise is the
  left injection, and the dictionary and sorted-set operations the components share.

  A Python \<^verbatim>\<open>str\<close> is represented by its UTF-8 encoding (a \<^typ>\<open>char list\<close>, one
  \<^typ>\<open>char\<close> per byte): equality, concatenation and code-point order of strings are
  equality, concatenation and lexicographic order of the encodings. Lone surrogates, which
  have no encoding and make \<^verbatim>\<open>str.encode\<close> raise, are outside the model. A \<^verbatim>\<open>bytes\<close> object is a
  \<^typ>\<open>char list\<close> too. A \<^verbatim>\<open>float\<close> is carried as the text \<^verbatim>\<open>float.__repr__\<close> gives it, which
  determines it.
\<close>

named_theorems result_simps \<open>inversion of results, for simp and auto\<close>

section \<open>Exceptions and results\<close>

datatype exn = ValueError | TypeError | KeyError | IndexError | PermissionError
  | StopIteration | RuntimeError | AttributeError | OSError | StructError

type_synonym 'a result = "exn + 'a"

definition bind_r :: "'a result \<Rightarrow> ('a \<Rightarrow> 'b result) \<Rightarrow> 'b result" where
  "bind_r m f = (case m of Inl e \<Rightarrow> Inl e | Inr x \<Rightarrow> f x)"

text \<open>\<^verbatim>\<open>if bad: raise e\<close> followed by the rest of the body.\<close>

definition guard_r :: "bool \<Rightarrow> exn \<Rightarrow> 'a result \<Rightarrow> 'a result" where
  "guard_r ok e rest = (if ok then rest else Inl e)"

fun map_r :: "('a \<Rightarrow> 'b result) \<Rightarrow> 'a list \<Rightarrow> 'b list result" where
  "map_r f [] = Inr []"
| "map_r f (x # xs) = bind_r (f x) (\<lambda>y. bind_r (map_r f xs) (\<lambda>ys. Inr (y # ys)))"

primrec fold_r :: "('a \<Rightarrow> 'b \<Rightarrow> 'a result) \<Rightarrow> 'a \<Rightarrow> 'b list \<Rightarrow> 'a result" where
  "fold_r f a [] = Inr a"
| "fold_r f a (x # xs) = bind_r (f a x) (\<lambda>b. fold_r f b xs)"

lemma bind_r_simps [simp]:
  "bind_r (Inl e) f = Inl e" "bind_r (Inr x) f = f x"
  by (simp_all add: bind_r_def)

lemma guard_r_simps [simp]:
  "guard_r True e r = r" "guard_r False e r = Inl e"
  by (simp_all add: guard_r_def)

lemma bind_r_Inr [result_simps]: "bind_r m f = Inr y \<longleftrightarrow> (\<exists>x. m = Inr x \<and> f x = Inr y)"
  by (cases m) auto

lemma bind_r_Inl [result_simps]:
  "bind_r m f = Inl e \<longleftrightarrow> m = Inl e \<or> (\<exists>x. m = Inr x \<and> f x = Inl e)"
  by (cases m) auto

lemma guard_r_Inr [result_simps]: "guard_r ok e r = Inr y \<longleftrightarrow> ok \<and> r = Inr y"
  by (cases ok) auto

lemma guard_r_Inl [result_simps]: "guard_r ok e r = Inl d \<longleftrightarrow> (\<not> ok \<and> d = e) \<or> (ok \<and> r = Inl d)"
  by (cases ok) auto

lemma guard_guard: "guard_r a e (guard_r b e r) = guard_r (a \<and> b) e r"
  by (cases a) auto

lemma bind_r_assoc: "bind_r (bind_r m f) g = bind_r m (\<lambda>x. bind_r (f x) g)"
  by (cases m) auto

lemma bind_r_cong [fundef_cong]:
  "m = m' \<Longrightarrow> (\<And>x. m' = Inr x \<Longrightarrow> f x = f' x) \<Longrightarrow> bind_r m f = bind_r m' f'"
  by (cases m') auto

lemma guard_r_cong [fundef_cong]:
  "ok = ok' \<Longrightarrow> (ok' \<Longrightarrow> r = r') \<Longrightarrow> guard_r ok e r = guard_r ok' e r'"
  by (cases ok') auto

lemma map_r_cong [fundef_cong]:
  "xs = ys \<Longrightarrow> (\<And>x. x \<in> set ys \<Longrightarrow> f x = g x) \<Longrightarrow> map_r f xs = map_r g ys"
proof (induction ys arbitrary: xs)
  case (Cons y ys)
  then have "map_r f ys = map_r g ys" by auto
  with Cons.prems show ?case by auto
qed simp

lemma map_r_Inr: "map_r f xs = Inr ys \<longleftrightarrow> list_all2 (\<lambda>x y. f x = Inr y) xs ys"
  by (induction xs arbitrary: ys) (auto simp: result_simps list_all2_Cons1)

lemma map_r_total: "(\<And>x. x \<in> set xs \<Longrightarrow> f x = Inr (g x)) \<Longrightarrow> map_r f xs = Inr (map g xs)"
  by (induction xs) auto

lemma map_r_each: "map_r f xs = Inr ys \<Longrightarrow> x \<in> set xs \<Longrightarrow> \<exists>y \<in> set ys. f x = Inr y"
  by (induction xs arbitrary: ys) (auto simp: bind_r_Inr)

lemma map_r_length: "map_r f xs = Inr ys \<Longrightarrow> length ys = length xs"
  by (auto simp: map_r_Inr dest: list_all2_lengthD)

lemma map_r_id: "map_r f xs = Inr ys \<Longrightarrow> (\<And>x y. f x = Inr y \<Longrightarrow> y = g x) \<Longrightarrow> ys = map g xs"
  by (induction xs arbitrary: ys) (auto simp: result_simps)

section \<open>Python values\<close>

datatype pv = PNone | PBool bool | PInt int | PFloat string | PStr string
  | PList "pv list" | PDict "(string \<times> pv) list"

fun is_str :: "pv \<Rightarrow> bool" where
  "is_str (PStr s) = True"
| "is_str v = False"

fun is_list :: "pv \<Rightarrow> bool" where
  "is_list (PList xs) = True"
| "is_list v = False"

fun is_dict :: "pv \<Rightarrow> bool" where
  "is_dict (PDict d) = True"
| "is_dict v = False"

fun list_of :: "pv \<Rightarrow> pv list" where
  "list_of (PList xs) = xs"
| "list_of v = []"

fun dict_of :: "pv \<Rightarrow> (string \<times> pv) list" where
  "dict_of (PDict d) = d"
| "dict_of v = []"

fun str_of :: "pv \<Rightarrow> string" where
  "str_of (PStr s) = s"
| "str_of v = []"

lemma is_str_conv [simp]: "is_str v \<longleftrightarrow> (\<exists>s. v = PStr s)"
  by (cases v) auto

lemma is_list_conv [simp]: "is_list v \<longleftrightarrow> (\<exists>xs. v = PList xs)"
  by (cases v) auto

lemma is_dict_conv [simp]: "is_dict v \<longleftrightarrow> (\<exists>d. v = PDict d)"
  by (cases v) auto

lemma map_PStr_eq [simp]: "map PStr xs = map PStr ys \<longleftrightarrow> xs = ys"
  by (simp add: inj_map_eq_map inj_on_def)

lemma case_PList_Inr [result_simps]:
  "(case v of PList xs \<Rightarrow> f xs | _ \<Rightarrow> Inl e) = Inr y \<longleftrightarrow> (\<exists>xs. v = PList xs \<and> f xs = Inr y)"
  by (cases v) auto

lemma case_PDict_Inr [result_simps]:
  "(case v of PDict d \<Rightarrow> f d | _ \<Rightarrow> Inl e) = Inr y \<longleftrightarrow> (\<exists>d. v = PDict d \<and> f d = Inr y)"
  by (cases v) auto

lemma case_PStr_Inr [result_simps]:
  "(case v of PStr s \<Rightarrow> f s | _ \<Rightarrow> Inl e) = Inr y \<longleftrightarrow> (\<exists>s. v = PStr s \<and> f s = Inr y)"
  by (cases v) auto

lemma case_option_Inr [result_simps]:
  "(case x of None \<Rightarrow> Inl e | Some z \<Rightarrow> f z) = Inr y \<longleftrightarrow> (\<exists>z. x = Some z \<and> f z = Inr y)"
  by (cases x) auto

text \<open>Subscripting \<^verbatim>\<open>d[k]\<close> raises KeyError; \<^verbatim>\<open>d.get(k, default)\<close> does not.\<close>

definition dget :: "(string \<times> pv) list \<Rightarrow> string \<Rightarrow> pv result" where
  "dget d k = (case map_of d k of None \<Rightarrow> Inl KeyError | Some v \<Rightarrow> Inr v)"

definition dget_or :: "(string \<times> pv) list \<Rightarrow> string \<Rightarrow> pv \<Rightarrow> pv" where
  "dget_or d k v = (case map_of d k of None \<Rightarrow> v | Some w \<Rightarrow> w)"

text \<open>\<^verbatim>\<open>{**d, k: v}\<close>: an existing key keeps its place, a new one goes last.\<close>

fun dset :: "('k \<times> 'v) list \<Rightarrow> 'k \<Rightarrow> 'v \<Rightarrow> ('k \<times> 'v) list" where
  "dset [] k v = [(k, v)]"
| "dset ((k', w) # d) k v = (if k = k' then (k, v) # d else (k', w) # dset d k v)"

definition dpop :: "('k \<times> 'v) list \<Rightarrow> 'k \<Rightarrow> ('k \<times> 'v) list" where
  "dpop d k = filter (\<lambda>p. fst p \<noteq> k) d"

definition keys_are :: "(string \<times> pv) list \<Rightarrow> string list \<Rightarrow> bool" where
  "keys_are d ks \<longleftrightarrow> set (map fst d) = set ks"

lemma dget_Inr [result_simps]: "dget d k = Inr v \<longleftrightarrow> map_of d k = Some v"
  by (auto simp: dget_def split: option.splits)

lemma map_of_dset [simp]: "map_of (dset d k v) = (map_of d)(k \<mapsto> v)"
  by (induction d k v rule: dset.induct) (auto simp: fun_eq_iff)

lemma set_map_fst_dset [simp]: "fst ` set (dset d k v) = insert k (fst ` set d)"
  by (induction d k v rule: dset.induct) auto

lemma distinct_dset: "distinct (map fst d) \<Longrightarrow> distinct (map fst (dset d k v))"
proof (induction d k v rule: dset.induct)
  case (2 k' w d k v)
  then show ?case by (auto simp flip: image_set)
qed simp

lemma map_of_dpop [simp]: "map_of (dpop d k) = (map_of d)(k := None)"
  by (induction d) (auto simp: dpop_def fun_eq_iff)

lemma distinct_dpop: "distinct (map fst d) \<Longrightarrow> distinct (map fst (dpop d k))"
  by (auto simp: dpop_def distinct_map_filter)

section \<open>Sorted lists of distinct elements\<close>

text \<open>\<^verbatim>\<open>sorted(set(xs))\<close>, and \<^verbatim>\<open>sorted(xs, key=f)\<close>, which is stable.\<close>

definition sorted_set :: "'a::linorder list \<Rightarrow> 'a list" where
  "sorted_set xs = sort (remdups xs)"

lemma set_sorted_set [simp]: "set (sorted_set xs) = set xs"
  by (simp add: sorted_set_def)

lemma sorted_sorted_set [simp]: "sorted (sorted_set xs)"
  by (simp add: sorted_set_def)

lemma distinct_sorted_set [simp]: "distinct (sorted_set xs)"
  by (simp add: sorted_set_def)

lemma sorted_set_eqI: "set xs = set ys \<Longrightarrow> sorted_set xs = sorted_set ys"
  by (rule sorted_distinct_set_unique) auto

lemma sorted_set_eq_iff: "sorted_set xs = sorted_set ys \<longleftrightarrow> set xs = set ys"
  by (metis set_sorted_set sorted_set_eqI)

lemma length_sorted_set: "length (sorted_set xs) = length xs \<longleftrightarrow> distinct xs"
  by (simp add: sorted_set_def card_distinct distinct_card flip: length_remdups_card_conv)

lemma sorted_set_idem [simp]: "sorted_set (sorted_set xs) = sorted_set xs"
  by (rule sorted_set_eqI) simp

section \<open>Sums of lists\<close>

lemma sum_list_replaced:
  assumes "i < length xs"
  shows "sum_list (map f (xs[i := z])) - sum_list (map f xs) = f z - (f (xs ! i) :: int)"
proof -
  have "sum_list (map f xs) = sum_list (map f (take i xs)) + f (xs ! i) + sum_list (map f (drop (Suc i) xs))"
    using arg_cong [OF id_take_nth_drop [OF assms], of "\<lambda>ys. sum_list (map f ys)"] by simp
  then show ?thesis using assms by (simp add: upd_conv_take_nth_drop)
qed

lemma map_r_source: "map_r f xs = Inr ys \<Longrightarrow> y \<in> set ys \<Longrightarrow> \<exists>x \<in> set xs. f x = Inr y"
  by (induction xs arbitrary: ys) (auto simp: bind_r_Inr)

section \<open>Substrings\<close>

definition has_char :: "char \<Rightarrow> string \<Rightarrow> bool" where
  "has_char c s \<longleftrightarrow> c \<in> set s"

section \<open>Chains that only narrow\<close>

text \<open>
  The contract of a delegation: a relation \<open>within\<close> that is reflexive and transitive and along
  which whatever the narrower side allows, the wider side allows. Along a chain whose every
  step narrows, the last element allows no more than any earlier one.
\<close>

locale narrowing =
  fixes within :: "'r \<Rightarrow> 'r \<Rightarrow> bool"
    and allows :: "'r \<Rightarrow> 'q \<Rightarrow> bool"
  assumes within_refl: "within r r"
    and within_trans: "within a b \<Longrightarrow> within b c \<Longrightarrow> within a c"
    and within_allows: "within a b \<Longrightarrow> allows a q \<Longrightarrow> allows b q"
begin

lemma chain_within:
  assumes "\<And>k. Suc k < length rs \<Longrightarrow> within (rs ! Suc k) (rs ! k)" "i \<le> j" "j < length rs"
  shows "within (rs ! j) (rs ! i)"
  using assms(2,3)
proof (induction rule: dec_induct)
  case base
  show ?case by (rule within_refl)
next
  case (step n)
  then show ?case using assms(1) [of n] within_trans by simp
qed

lemma chain_allows:
  assumes "\<And>k. Suc k < length rs \<Longrightarrow> within (rs ! Suc k) (rs ! k)" "i \<le> j" "j < length rs" "allows (rs ! j) q"
  shows "allows (rs ! i) q"
  using chain_within [OF assms(1-3)] assms(4) by (rule within_allows)

end

end
