(* ===== verification/Sha256.thy ===== *)
theory Sha256
  imports Prelude "HOL-Library.Word"
begin

unbundle bit_operations_syntax

text \<open>
  The hash functions of the standard library the program calls: SHA-256 (FIPS 180-4) behind
  \<^verbatim>\<open>hashlib.sha256(data).hexdigest()\<close>, HMAC-SHA-256 (RFC 2104) behind
  \<^verbatim>\<open>hmac.new(key, data, hashlib.sha256).hexdigest()\<close>, and \<^verbatim>\<open>bytes.hex\<close> / \<^verbatim>\<open>bytes.fromhex\<close>. Nothing
  in the development relies on SHA-256 being injective: a result that needs two inputs not
  to collide says so for the inputs the program hashes.
\<close>

section \<open>SHA-256\<close>

type_synonym w32 = "32 word"

definition sha_k :: "w32 list" where
  "sha_k = [
    1116352408, 1899447441, 3049323471, 3921009573, 961987163, 1508970993, 2453635748, 2870763221,
    3624381080, 310598401, 607225278, 1426881987, 1925078388, 2162078206, 2614888103, 3248222580,
    3835390401, 4022224774, 264347078, 604807628, 770255983, 1249150122, 1555081692, 1996064986,
    2554220882, 2821834349, 2952996808, 3210313671, 3336571891, 3584528711, 113926993, 338241895,
    666307205, 773529912, 1294757372, 1396182291, 1695183700, 1986661051, 2177026350, 2456956037,
    2730485921, 2820302411, 3259730800, 3345764771, 3516065817, 3600352804, 4094571909, 275423344,
    430227734, 506948616, 659060556, 883997877, 958139571, 1322822218, 1537002063, 1747873779,
    1955562222, 2024104815, 2227730452, 2361852424, 2428436474, 2756734187, 3204031479, 3329325298]"

definition sha_init :: "w32 list" where
  "sha_init = [1779033703, 3144134277, 1013904242, 2773480762, 1359893119, 2600822924, 528734635, 1541459225]"

definition sha_s0 :: "w32 \<Rightarrow> w32" where
  "sha_s0 x = word_rotr 7 x XOR word_rotr 18 x XOR drop_bit 3 x"

definition sha_s1 :: "w32 \<Rightarrow> w32" where
  "sha_s1 x = word_rotr 17 x XOR word_rotr 19 x XOR drop_bit 10 x"

definition sha_S0 :: "w32 \<Rightarrow> w32" where
  "sha_S0 x = word_rotr 2 x XOR word_rotr 13 x XOR word_rotr 22 x"

definition sha_S1 :: "w32 \<Rightarrow> w32" where
  "sha_S1 x = word_rotr 6 x XOR word_rotr 11 x XOR word_rotr 25 x"

fun sha_expand :: "nat \<Rightarrow> w32 list \<Rightarrow> w32 list" where
  "sha_expand 0 w = w"
| "sha_expand (Suc n) w =
     (let t = length w in
      sha_expand n (w @ [sha_s1 (w ! (t - 2)) + w ! (t - 7) + sha_s0 (w ! (t - 15)) + w ! (t - 16)]))"

fun sha_round :: "w32 \<times> w32 \<Rightarrow> w32 list \<Rightarrow> w32 list" where
  "sha_round (k, w) [a, b, c, d, e, f, g, h] =
     (let t1 = h + sha_S1 e + ((e AND f) XOR (NOT e AND g)) + k + w;
          t2 = sha_S0 a + ((a AND b) XOR (a AND c) XOR (b AND c))
      in [t1 + t2, a, b, c, d + t1, e, f, g])"
| "sha_round kw s = s"

definition sha_block :: "w32 list \<Rightarrow> w32 list \<Rightarrow> w32 list" where
  "sha_block h w = map2 (+) h (fold sha_round (zip sha_k (sha_expand 48 w)) h)"

definition be_word :: "string \<Rightarrow> w32" where
  "be_word cs = fold (\<lambda>c acc. push_bit 8 acc OR of_nat (of_char c)) cs 0"

fun chunks :: "nat \<Rightarrow> 'a list \<Rightarrow> 'a list list" where
  "chunks n xs = (if n = 0 \<or> xs = [] then [] else take n xs # chunks n (drop n xs))"

declare chunks.simps [simp del]

definition be_bytes :: "nat \<Rightarrow> nat \<Rightarrow> string" where
  "be_bytes len n = map (\<lambda>i. char_of (n div 256 ^ (len - 1 - i))) [0..<len]"

definition sha_pad :: "string \<Rightarrow> string" where
  "sha_pad m = m @ [char_of (128 :: nat)] @ replicate ((119 - length m mod 64) mod 64) (char_of (0 :: nat))
     @ be_bytes 8 (8 * length m)"

definition sha256 :: "string \<Rightarrow> string" where
  "sha256 m =
     concat (map (\<lambda>w. be_bytes 4 (unat w))
       (fold (\<lambda>b h. sha_block h (map be_word (chunks 4 b))) (chunks 64 (sha_pad m)) sha_init))"

section \<open>Hexadecimal text\<close>

definition hex_digit :: "nat \<Rightarrow> char" where
  "hex_digit n = (if n < 10 then char_of (48 + n) else char_of (87 + n))"

definition hex :: "string \<Rightarrow> string" where
  "hex bs = concat (map (\<lambda>c. [hex_digit (of_char c div 16), hex_digit (of_char c mod 16)]) bs)"

definition unhex_digit :: "char \<Rightarrow> nat option" where
  "unhex_digit c =
     (let n = of_char c in
      if 48 \<le> n \<and> n < 58 then Some (n - 48)
      else if 97 \<le> n \<and> n < 103 then Some (n - 87)
      else if 65 \<le> n \<and> n < 71 then Some (n - 55) else None)"

text \<open>\<^verbatim>\<open>bytes.fromhex\<close> on text without white space (it skips white space between bytes).\<close>

fun unhex :: "string \<Rightarrow> string option" where
  "unhex [] = Some []"
| "unhex [c] = None"
| "unhex (c # d # cs) =
     (case (unhex_digit c, unhex_digit d, unhex cs) of
        (Some x, Some y, Some bs) \<Rightarrow> Some (char_of (16 * x + y) # bs)
      | _ \<Rightarrow> None)"

definition is_hex_char :: "char \<Rightarrow> bool" where
  "is_hex_char c \<longleftrightarrow> (let n = (of_char c :: nat) in (48 \<le> n \<and> n < 58) \<or> (97 \<le> n \<and> n < 103))"

text \<open>The regular expression \<^verbatim>\<open>[0-9a-f]{64}\<close>.\<close>

definition is_hash :: "string \<Rightarrow> bool" where
  "is_hash s \<longleftrightarrow> length s = 64 \<and> list_all is_hex_char s"

definition sha256_hex :: "string \<Rightarrow> string" where
  "sha256_hex m = hex (sha256 m)"

section \<open>HMAC\<close>

definition xor_pad :: "nat \<Rightarrow> string \<Rightarrow> string" where
  "xor_pad p k = map (\<lambda>c. char_of ((of_char c :: nat) XOR p)) (k @ replicate (64 - length k) (char_of (0 :: nat)))"

definition hmac_key :: "string \<Rightarrow> string" where
  "hmac_key k = (if length k > 64 then sha256 k else k)"

definition hmac_sha256 :: "string \<Rightarrow> string \<Rightarrow> string" where
  "hmac_sha256 k m = sha256 (xor_pad 92 (hmac_key k) @ sha256 (xor_pad 54 (hmac_key k) @ m))"

definition hmac_hex :: "string \<Rightarrow> string \<Rightarrow> string" where
  "hmac_hex k m = hex (hmac_sha256 k m)"


section \<open>Sizes and alphabets\<close>

lemma length_be_bytes [simp]: "length (be_bytes n k) = n"
  by (simp add: be_bytes_def)

lemma length_sha_round [simp]: "length (sha_round kw s) = length s"
  by (cases "(kw, s)" rule: sha_round.cases) (auto simp: Let_def)

lemma length_fold_sha_round [simp]: "length (fold sha_round kws s) = length s"
  by (induction kws arbitrary: s) auto

lemma length_sha_block [simp]: "length (sha_block h w) = length h"
  by (simp add: sha_block_def)

lemma length_fold_sha_block:
  "length (fold (\<lambda>b h. sha_block h (map be_word (chunks 4 b))) bs h) = length h"
  by (induction bs arbitrary: h) auto

lemma length_concat_be_bytes: "length (concat (map (\<lambda>w. be_bytes 4 (unat w)) ws)) = 4 * length ws"
  by (induction ws) auto

lemma length_sha256 [simp]: "length (sha256 m) = 32"
  by (simp add: sha256_def length_concat_be_bytes length_fold_sha_block sha_init_def)

lemma length_hmac_sha256 [simp]: "length (hmac_sha256 k m) = 32"
  by (simp add: hmac_sha256_def)

lemma of_char_lt: "(of_char c :: nat) < 256"
  using nat_of_char_less_256 [of c] by simp

lemma of_char_of_small: "n < 256 \<Longrightarrow> (of_char (char_of (n :: nat)) :: nat) = n"
  by (simp add: of_char_of)

lemma hex_digit_range: "n < 16 \<Longrightarrow> is_hex_char (hex_digit n)"
  by (auto simp: hex_digit_def is_hex_char_def of_char_of_small Let_def)

lemma length_hex [simp]: "length (hex bs) = 2 * length bs"
  by (induction bs) (auto simp: hex_def)

lemma hex_chars: "list_all is_hex_char (hex bs)"
proof -
  have "of_char c div 16 < (16 :: nat)" for c :: char
    using of_char_lt [of c] by (simp add: less_mult_imp_div_less)
  then show ?thesis
    by (induction bs) (auto simp: hex_def hex_digit_range)
qed

lemma is_hash_hex [simp]: "length bs = 32 \<Longrightarrow> is_hash (hex bs)"
  by (simp add: is_hash_def hex_chars)

lemma is_hash_sha256_hex [simp]: "is_hash (sha256_hex m)"
  by (simp add: sha256_hex_def)

lemma is_hash_hmac_hex [simp]: "is_hash (hmac_hex k m)"
  by (simp add: hmac_hex_def)

lemma is_hash_length: "is_hash s \<Longrightarrow> length s = 64"
  by (simp add: is_hash_def)

lemma is_hash_not_Nil [simp]: "is_hash s \<Longrightarrow> s \<noteq> []"
  by (auto simp: is_hash_def)

section \<open>Hexadecimal text is a faithful encoding\<close>

lemma unhex_hex_digit: "n < 16 \<Longrightarrow> unhex_digit (hex_digit n) = Some n"
  by (auto simp: unhex_digit_def hex_digit_def of_char_of_small Let_def)

lemma unhex_hex [simp]: "unhex (hex bs) = Some bs"
proof (induction bs)
  case Nil
  show ?case by (simp add: hex_def)
next
  case (Cons c bs)
  have "of_char c div 16 < (16 :: nat)"
    using of_char_lt [of c] by (simp add: less_mult_imp_div_less)
  moreover have "hex (c # bs) = hex_digit (of_char c div 16) # hex_digit (of_char c mod 16) # hex bs"
    by (simp add: hex_def)
  ultimately show ?case
    using Cons.IH by (simp add: unhex_hex_digit)
qed

lemma hex_eq_iff [simp]: "hex a = hex b \<longleftrightarrow> a = b"
  by (metis option.inject unhex_hex)

lemma hex_digit_unhex: "is_hex_char c \<Longrightarrow> \<exists>n < 16. unhex_digit c = Some n \<and> hex_digit n = c"
  by (auto simp: is_hex_char_def unhex_digit_def hex_digit_def Let_def)

lemma hex_unhex:
  assumes "list_all is_hex_char s" "even (length s)"
  shows "\<exists>bs. unhex s = Some bs \<and> hex bs = s \<and> length s = 2 * length bs"
  using assms
proof (induction s rule: unhex.induct)
  case 1
  then show ?case by (simp add: hex_def)
next
  case (2 c)
  then show ?case by simp
next
  case (3 c d cs)
  obtain x where x: "x < 16" "unhex_digit c = Some x" "hex_digit x = c"
    using hex_digit_unhex [of c] "3.prems" by auto
  obtain y where y: "y < 16" "unhex_digit d = Some y" "hex_digit y = d"
    using hex_digit_unhex [of d] "3.prems" by auto
  obtain bs where bs: "unhex cs = Some bs" "hex bs = cs" "length cs = 2 * length bs"
    using 3 by auto
  have "16 * x + y < 256" using x y by simp
  then have "hex (char_of (16 * x + y) # bs) = c # d # cs"
    using x y bs by (simp add: hex_def of_char_of_small)
  then show ?case using x y bs by simp
qed

lemma is_hash_unhex: "is_hash s \<Longrightarrow> \<exists>bs. unhex s = Some bs \<and> hex bs = s \<and> length bs = 32"
  using hex_unhex [of s] by (auto simp: is_hash_def)

definition unhex_bytes :: "string \<Rightarrow> string" where
  "unhex_bytes s = (case unhex s of Some bs \<Rightarrow> bs | None \<Rightarrow> [])"

lemma hex_unhex_bytes [simp]: "is_hash s \<Longrightarrow> hex (unhex_bytes s) = s"
  using is_hash_unhex [of s] by (auto simp: unhex_bytes_def)

lemma unhex_bytes_hex [simp]: "unhex_bytes (hex bs) = bs"
  by (simp add: unhex_bytes_def)

lemma length_unhex_bytes [simp]: "is_hash s \<Longrightarrow> length (unhex_bytes s) = 32"
  using is_hash_unhex [of s] by (auto simp: unhex_bytes_def)

lemma unhex_bytes_inj: "is_hash s \<Longrightarrow> is_hash t \<Longrightarrow> unhex_bytes s = unhex_bytes t \<Longrightarrow> s = t"
  by (metis hex_unhex_bytes)

lemma unhex_pair_inj:
  assumes "is_hash a" "is_hash b" "is_hash c" "is_hash d"
    and "unhex_bytes a @ unhex_bytes b = unhex_bytes c @ unhex_bytes d"
  shows "a = c \<and> b = d"
  using assms by (auto intro: unhex_bytes_inj simp: append_eq_append_conv)

end
