(* ===== verification/Frontier.thy ===== *)
theory Frontier
  imports Sha256
begin

text \<open>
  The canonical envelope of \<^verbatim>\<open>unimem/frontier_protocol.py\<close>: the bounded tree check, the
  canonical JSON encoding behind \<^verbatim>\<open>wire\<close> (compact, keys sorted, text left unescaped), the
  digest, and the field validators every protocol of the program uses. The lemmas show that
  the encoding is unambiguous: values with equal encodings are equal up to the order in
  which a dictionary lists its keys, so that a digest names one record.
\<close>

section \<open>Constants and field validators\<close>

definition MAX_BYTES :: nat where
  "MAX_BYTES = 1048576"

definition MAX_ROWS :: nat where
  "MAX_ROWS = 100000"

text \<open>\<^verbatim>\<open>len(s)\<close> counts code points: the bytes of the encoding that are not continuation bytes.\<close>

definition py_len :: "string \<Rightarrow> nat" where
  "py_len s = length (filter (\<lambda>c. \<not> (128 \<le> (of_char c :: nat) \<and> (of_char c :: nat) < 192)) s)"

definition NUL :: char where
  "NUL = char_of (0 :: nat)"

lemma NUL_char: "NUL = CHR 0x00"
  by (simp add: NUL_def char_of_def)

definition fp_text :: "pv \<Rightarrow> nat \<Rightarrow> string result" where
  "fp_text value maximum =
     (case value of
        PStr s \<Rightarrow>
          guard_r (s \<noteq> [] \<and> \<not> maximum < py_len s \<and> \<not> maximum < length s \<and> NUL \<notin> set s) ValueError (Inr s)
      | _ \<Rightarrow> Inl ValueError)"

definition fp_count :: "pv \<Rightarrow> int \<Rightarrow> int \<Rightarrow> int result" where
  "fp_count value low high =
     (case value of
        PInt n \<Rightarrow> guard_r (low \<le> n \<and> n \<le> high) ValueError (Inr n)
      | _ \<Rightarrow> Inl ValueError)"

text \<open>The same check where the argument is a Python \<^verbatim>\<open>int\<close> by construction, such as a length.\<close>

definition count_int :: "int \<Rightarrow> int \<Rightarrow> int \<Rightarrow> int result" where
  "count_int n low high = fp_count (PInt n) low high"

text \<open>The hook that refuses an object whose pairs repeat a key.\<close>

fun unique_object :: "(string \<times> pv) list \<Rightarrow> (string \<times> pv) list \<Rightarrow> (string \<times> pv) list result" where
  "unique_object acc [] = Inr acc"
| "unique_object acc ((k, v) # ps) =
     guard_r (map_of acc k = None) ValueError (unique_object (acc @ [(k, v)]) ps)"

section \<open>The bounded tree check\<close>

fun nat_bits :: "nat \<Rightarrow> nat" where
  "nat_bits n = (if n = 0 then 0 else Suc (nat_bits (n div 2)))"

declare nat_bits.simps [simp del]

definition bit_length :: "int \<Rightarrow> nat" where
  "bit_length i = nat_bits (nat \<bar>i\<bar>)"

primrec nodes :: "pv \<Rightarrow> nat" where
  "nodes PNone = 1"
| "nodes (PBool b) = 1"
| "nodes (PInt i) = 1"
| "nodes (PFloat f) = 1"
| "nodes (PStr s) = 1"
| "nodes (PList xs) = Suc (sum_list (map nodes xs))"
| "nodes (PDict d) = Suc (sum_list (map snd (map (map_prod id nodes) d)))"

definition finite_text :: "string \<Rightarrow> bool" where
  "finite_text s \<longleftrightarrow> s \<noteq> ''nan'' \<and> s \<noteq> ''inf'' \<and> s \<noteq> ''-inf''"

definition item_bytes :: "pv \<Rightarrow> nat" where
  "item_bytes v =
     (case v of PStr s \<Rightarrow> py_len s | PInt i \<Rightarrow> (bit_length i - 1) * 3 div 10 | _ \<Rightarrow> 0)"

text \<open>
  The loop of \<^verbatim>\<open>validate_json_tree\<close>: the work list (its last element first here), the nodes
  visited and the lower bound on the encoded size.
\<close>

function validate_loop :: "(pv \<times> nat) list \<Rightarrow> nat \<Rightarrow> nat \<Rightarrow> unit result" where
  "validate_loop [] visited minimum = Inr ()"
| "validate_loop ((item, depth) # pending) visited minimum =
     (let visited = visited + 1;
          minimum = minimum + 1 + item_bytes item
      in guard_r (\<not> MAX_BYTES < minimum) ValueError
        (guard_r (\<not> (64 < depth \<or> 200000 < visited)) ValueError
          (case item of
             PDict d \<Rightarrow>
               guard_r (\<not> 200000 < visited + length pending + length d) ValueError
                 (guard_r (\<forall>k \<in> set (map fst d). \<not> MAX_BYTES < py_len k) ValueError
                   (let minimum = minimum + sum_list (map (py_len \<circ> fst) d)
                    in guard_r (\<not> MAX_BYTES < minimum) ValueError
                      (validate_loop (rev (map (\<lambda>p. (snd p, depth + 1)) d) @ pending) visited minimum)))
           | PList xs \<Rightarrow>
               guard_r (\<not> 200000 < visited + length pending + length xs) ValueError
                 (validate_loop (rev (map (\<lambda>x. (x, depth + 1)) xs) @ pending) visited minimum)
           | PStr s \<Rightarrow> guard_r (\<not> MAX_BYTES < py_len s) ValueError (validate_loop pending visited minimum)
           | PFloat f \<Rightarrow> guard_r (finite_text f) ValueError (validate_loop pending visited minimum)
           | _ \<Rightarrow> validate_loop pending visited minimum)))"
  by pat_completeness auto
termination
  by (relation "measure (\<lambda>(ps, _, _). sum_list (map (nodes \<circ> fst) ps))")
    (auto simp: comp_def rev_map [symmetric] sum_list_rev split_def)

declare validate_loop.simps(2) [simp del]

definition validate_json_tree :: "pv \<Rightarrow> unit result" where
  "validate_json_tree value = validate_loop [(value, 0)] 0 0"

section \<open>Canonical JSON text\<close>

fun show_nat :: "nat \<Rightarrow> string" where
  "show_nat n = (if n < 10 then [char_of (48 + n)] else show_nat (n div 10) @ [char_of (48 + n mod 10)])"

declare show_nat.simps [simp del]

definition show_int :: "int \<Rightarrow> string" where
  "show_int i = (if i < 0 then ''-'' @ show_nat (nat (- i)) else show_nat (nat i))"

abbreviation QUOTE :: char where
  "QUOTE \<equiv> CHR 0x22"

abbreviation BACKSLASH :: char where
  "BACKSLASH \<equiv> CHR 0x5C"

definition esc :: "char \<Rightarrow> string" where
  "esc c =
     (let n = (of_char c :: nat) in
      if n = 34 then [BACKSLASH, QUOTE]
      else if n = 92 then [BACKSLASH, BACKSLASH]
      else if n = 8 then [BACKSLASH, CHR ''b'']
      else if n = 12 then [BACKSLASH, CHR ''f'']
      else if n = 10 then [BACKSLASH, CHR ''n'']
      else if n = 13 then [BACKSLASH, CHR ''r'']
      else if n = 9 then [BACKSLASH, CHR ''t'']
      else if n < 32 then BACKSLASH # ''u00'' @ [hex_digit (n div 16), hex_digit (n mod 16)]
      else [c])"

definition quote :: "string \<Rightarrow> string" where
  "quote s = QUOTE # concat (map esc s) @ [QUOTE]"

fun comma :: "string list \<Rightarrow> string" where
  "comma [] = []"
| "comma [x] = x"
| "comma (x # y # zs) = x @ '','' @ comma (y # zs)"

definition member_text :: "string \<times> string \<Rightarrow> string" where
  "member_text p = quote (fst p) @ '':'' @ snd p"

text \<open>
  \<^verbatim>\<open>json.dumps(value, sort_keys=True, separators=(",", ":"), ensure_ascii=False)\<close>, encoded.
\<close>

primrec dumps :: "pv \<Rightarrow> string" where
  "dumps PNone = ''null''"
| "dumps (PBool b) = (if b then ''true'' else ''false'')"
| "dumps (PInt i) = show_int i"
| "dumps (PFloat f) = f"
| "dumps (PStr s) = quote s"
| "dumps (PList xs) = ''['' @ comma (map dumps xs) @ '']''"
| "dumps (PDict d) =
     ''{'' @ comma (map member_text (sort_key fst (map (map_prod id dumps) d))) @ ''}''"

primrec all_finite :: "pv \<Rightarrow> bool" where
  "all_finite PNone = True"
| "all_finite (PBool b) = True"
| "all_finite (PInt i) = True"
| "all_finite (PFloat f) = finite_text f"
| "all_finite (PStr s) = True"
| "all_finite (PList xs) = list_all id (map all_finite xs)"
| "all_finite (PDict d) = list_all snd (map (map_prod id all_finite) d)"

text \<open>With \<^verbatim>\<open>allow_nan=False\<close> a non-finite float raises.\<close>

definition json_bytes :: "pv \<Rightarrow> string result" where
  "json_bytes v = guard_r (all_finite v) ValueError (Inr (dumps v))"

definition wire :: "pv \<Rightarrow> string result" where
  "wire value =
     bind_r (validate_json_tree value) (\<lambda>_.
     bind_r (json_bytes value) (\<lambda>encoded.
       guard_r (\<not> MAX_BYTES < length encoded) ValueError (Inr encoded)))"

definition digest :: "pv \<Rightarrow> string result" where
  "digest value = bind_r (wire value) (\<lambda>b. Inr (sha256_hex b))"

text \<open>
  \<^verbatim>\<open>value == n\<close> for a Python \<^verbatim>\<open>int\<close> of less than 16 digits: a boolean equals 0 or 1, and a float equals
  the integer its text denotes.
\<close>

definition num_eq :: "pv \<Rightarrow> int \<Rightarrow> bool" where
  "num_eq v n = (case v of
     PInt i \<Rightarrow> i = n
   | PBool b \<Rightarrow> (if b then 1 else 0) = n
   | PFloat f \<Rightarrow> f = show_int n @ ''.0'' \<or> (n = 0 \<and> f = ''-0.0'')
   | _ \<Rightarrow> False)"

section \<open>What the tree check admits\<close>

primrec depth :: "pv \<Rightarrow> nat" where
  "depth PNone = 0"
| "depth (PBool b) = 0"
| "depth (PInt i) = 0"
| "depth (PFloat f) = 0"
| "depth (PStr s) = 0"
| "depth (PList xs) = foldr max (map Suc (map depth xs)) 0"
| "depth (PDict d) = foldr max (map Suc (map snd (map (map_prod id depth) d))) 0"

fun children :: "pv \<Rightarrow> pv list" where
  "children (PList xs) = xs"
| "children (PDict d) = map snd d"
| "children v = []"

lemma foldr_max_le: "k + foldr max xs (0 :: nat) \<le> n \<longleftrightarrow> k \<le> n \<and> (\<forall>x \<in> set xs. k + x \<le> n)"
  by (induction xs) (auto simp: max_def)

lemma nodes_children: "nodes v = Suc (sum_list (map nodes (children v)))"
  by (cases v) (auto simp: comp_def)

lemma depth_children: "k \<le> n \<Longrightarrow> (\<forall>c \<in> set (children v). Suc k + depth c \<le> n) \<Longrightarrow> k + depth v \<le> n"
  by (cases v) (auto simp: foldr_max_le comp_def)

text \<open>The lower bound the loop accumulates, for a whole tree.\<close>

fun key_bytes :: "pv \<Rightarrow> nat" where
  "key_bytes (PDict d) = sum_list (map (py_len \<circ> fst) d)"
| "key_bytes v = 0"

primrec tree_bytes :: "pv \<Rightarrow> nat" where
  "tree_bytes PNone = 1"
| "tree_bytes (PBool b) = 1"
| "tree_bytes (PInt i) = 1 + item_bytes (PInt i)"
| "tree_bytes (PFloat f) = 1"
| "tree_bytes (PStr s) = 1 + py_len s"
| "tree_bytes (PList xs) = 1 + sum_list (map tree_bytes xs)"
| "tree_bytes (PDict d) = 1 + sum_list (map (py_len \<circ> fst) d) + sum_list (map snd (map (map_prod id tree_bytes) d))"

lemma tree_bytes_children:
  "tree_bytes v = 1 + item_bytes v + key_bytes v + sum_list (map tree_bytes (children v))"
  by (cases v) (auto simp: comp_def item_bytes_def)

abbreviation stack_nodes :: "(pv \<times> nat) list \<Rightarrow> nat" where
  "stack_nodes ps \<equiv> sum_list (map (nodes \<circ> fst) ps)"

abbreviation stack_bytes :: "(pv \<times> nat) list \<Rightarrow> nat" where
  "stack_bytes ps \<equiv> sum_list (map (tree_bytes \<circ> fst) ps)"

definition push_children :: "pv \<Rightarrow> nat \<Rightarrow> (pv \<times> nat) list \<Rightarrow> (pv \<times> nat) list" where
  "push_children item dep pending = rev (map (\<lambda>x. (x, dep + 1)) (children item)) @ pending"

lemma stack_push_children:
  "stack_nodes ((item, dep) # pending) = Suc (stack_nodes (push_children item dep pending))"
  "stack_bytes ((item, dep) # pending)
     = 1 + item_bytes item + key_bytes item + stack_bytes (push_children item dep pending)"
  by (simp_all add: push_children_def comp_def nodes_children [of item] tree_bytes_children [of item]
      rev_map [symmetric] sum_list_rev)

lemma validate_loop_step:
  assumes "validate_loop ((item, dep) # pending) visited minimum = Inr ()"
  shows "dep \<le> 64" "visited < 200000" "\<forall>f. item = PFloat f \<longrightarrow> finite_text f"
    "minimum + 1 + item_bytes item + key_bytes item \<le> MAX_BYTES"
    "validate_loop (push_children item dep pending) (visited + 1)
       (minimum + 1 + item_bytes item + key_bytes item) = Inr ()"
  using assms by (auto simp: validate_loop.simps(2) Let_def result_simps comp_def push_children_def split: pv.splits)

lemma all_finite_children:
  "all_finite v \<longleftrightarrow> (\<forall>f. v = PFloat f \<longrightarrow> finite_text f) \<and> (\<forall>c \<in> set (children v). all_finite c)"
  by (cases v) (auto simp: list_all_iff)

lemma depth_child: "c \<in> set (children v) \<Longrightarrow> Suc (depth c) \<le> depth v"
  using foldr_max_le [of 0 _ "depth v"] by (cases v) (force simp: comp_def)+

lemma validate_loop_sound:
  "validate_loop ps visited minimum = Inr () \<Longrightarrow> visited \<le> 200000 \<Longrightarrow> minimum \<le> MAX_BYTES \<Longrightarrow>
     (\<forall>p \<in> set ps. all_finite (fst p) \<and> snd p + depth (fst p) \<le> 64)
     \<and> visited + stack_nodes ps \<le> 200000 \<and> minimum + stack_bytes ps \<le> MAX_BYTES"
proof (induction "stack_nodes ps" arbitrary: ps visited minimum rule: less_induct)
  case less
  show ?case
  proof (cases ps)
    case Nil
    with less.prems show ?thesis by simp
  next
    case (Cons p pending)
    obtain item dep where p: "p = (item, dep)" by (cases p)
    note step = validate_loop_step [OF less.prems(1) [unfolded Cons p]]
    note size = stack_push_children [of item dep pending]
    let ?next = "push_children item dep pending"
    have IH: "\<forall>q \<in> set ?next. all_finite (fst q) \<and> snd q + depth (fst q) \<le> 64"
      "visited + 1 + stack_nodes ?next \<le> 200000"
      "minimum + 1 + item_bytes item + key_bytes item + stack_bytes ?next \<le> MAX_BYTES"
      using less.hyps [OF _ step(5)] size step(2,4) by (simp_all add: Cons p)
    from IH(1) have "all_finite item" using step(3) all_finite_children [of item]
      by (auto simp: ball_Un push_children_def)
    moreover from IH(1) have "dep + depth item \<le> 64" using step(1)
      by (intro depth_children) (auto simp: ball_Un push_children_def)
    ultimately show ?thesis using IH size by (auto simp: Cons p push_children_def)
  qed
qed

lemma validate_loop_unfold:
  assumes "dep \<le> 64" "visited + 1 + length (children item) + length pending \<le> 200000"
    and "\<forall>f. item = PFloat f \<longrightarrow> finite_text f"
    and "minimum + 1 + item_bytes item + key_bytes item \<le> MAX_BYTES"
  shows "validate_loop ((item, dep) # pending) visited minimum
    = validate_loop (push_children item dep pending) (visited + 1)
        (minimum + 1 + item_bytes item + key_bytes item)"
proof -
  have "\<forall>k \<in> set (map fst d). py_len k \<le> MAX_BYTES" if "item = PDict d" for d
    using assms(4) that member_le_sum_list [of _ "map (py_len \<circ> fst) d"] by fastforce
  then show ?thesis
    using assms
    by (cases item) (auto simp: validate_loop.simps(2) Let_def push_children_def item_bytes_def comp_def guard_r_def)
qed

lemma validate_loop_Cons:
  "validate_loop ((item, dep) # pending) visited minimum = Inl ValueError
   \<or> validate_loop ((item, dep) # pending) visited minimum
      = validate_loop (push_children item dep pending) (visited + 1)
          (minimum + 1 + item_bytes item + key_bytes item)" (is "?L = _ \<or> ?L = ?R")
proof -
  have "\<exists>ok. ?L = guard_r ok ValueError ?R"
    unfolding validate_loop.simps(2) Let_def guard_guard
    by (cases item) (simp_all only: pv.case guard_guard push_children_def children.simps key_bytes.simps
        list.map rev.simps append_Nil add_0_right map_map comp_def, blast+)
  then show ?thesis by (auto simp: guard_r_def split: if_splits)
qed

lemma length_le_stack_nodes: "length ps \<le> stack_nodes ps"
proof (induction ps)
  case (Cons p ps)
  moreover have "1 \<le> nodes (fst p)" by (subst nodes_children) simp
  ultimately show ?case by simp
qed simp

lemma validate_loop_complete:
  "\<forall>p \<in> set ps. all_finite (fst p) \<and> snd p + depth (fst p) \<le> 64 \<Longrightarrow>
     visited + stack_nodes ps \<le> 200000 \<Longrightarrow> minimum + stack_bytes ps \<le> MAX_BYTES \<Longrightarrow>
     validate_loop ps visited minimum = Inr ()"
proof (induction "stack_nodes ps" arbitrary: ps visited minimum rule: less_induct)
  case less
  show ?case
  proof (cases ps)
    case (Cons p pending)
    obtain item dep where p: "p = (item, dep)" by (cases p)
    note size = stack_push_children [of item dep pending]
    let ?next = "push_children item dep pending"
    have "length ?next \<le> stack_nodes ?next" by (rule length_le_stack_nodes)
    then have "visited + 1 + length (children item) + length pending \<le> 200000"
      using less.prems(2) size by (simp add: Cons p push_children_def)
    then have "validate_loop ps visited minimum
        = validate_loop ?next (visited + 1) (minimum + 1 + item_bytes item + key_bytes item)"
      unfolding Cons p using less.prems size all_finite_children [of item]
      by (intro validate_loop_unfold) (auto simp: Cons p)
    also have "\<dots> = Inr ()"
    proof (rule less.hyps)
      show "\<forall>q \<in> set ?next. all_finite (fst q) \<and> snd q + depth (fst q) \<le> 64"
        using less.prems(1) all_finite_children [of item] depth_child [of _ item]
        by (fastforce simp: Cons p push_children_def)
    qed (use less.prems size in \<open>simp_all add: Cons p\<close>)
    finally show ?thesis .
  qed simp
qed

definition tree_ok :: "pv \<Rightarrow> bool" where
  "tree_ok v \<longleftrightarrow> all_finite v \<and> depth v \<le> 64 \<and> nodes v \<le> 200000 \<and> tree_bytes v \<le> MAX_BYTES"

lemma validate_json_tree_iff: "validate_json_tree v = Inr () \<longleftrightarrow> tree_ok v"
proof
  assume "validate_json_tree v = Inr ()"
  from validate_loop_sound [OF this [unfolded validate_json_tree_def]] show "tree_ok v"
    by (simp add: tree_ok_def)
next
  assume "tree_ok v"
  then show "validate_json_tree v = Inr ()"
    unfolding validate_json_tree_def by (intro validate_loop_complete) (simp_all add: tree_ok_def)
qed

lemma validate_loop_error: "validate_loop ps visited minimum = Inl e \<Longrightarrow> e = ValueError"
proof (induction "stack_nodes ps" arbitrary: ps visited minimum rule: less_induct)
  case less
  show ?case
  proof (cases ps)
    case (Cons p pending)
    obtain item dep where p: "p = (item, dep)" by (cases p)
    from validate_loop_Cons [of item dep pending visited minimum]
    show ?thesis
    proof
      assume "validate_loop ((item, dep) # pending) visited minimum = Inl ValueError"
      then show ?thesis using less.prems unfolding Cons p by simp
    next
      assume "validate_loop ((item, dep) # pending) visited minimum
        = validate_loop (push_children item dep pending) (visited + 1) (minimum + 1 + item_bytes item + key_bytes item)"
      then show ?thesis
        using less.hyps less.prems stack_push_children(1) [of item dep pending] unfolding Cons p by auto
    qed
  qed (use less.prems in simp)
qed

lemma validate_json_tree_cases: "validate_json_tree v = (if tree_ok v then Inr () else Inl ValueError)"
  using validate_json_tree_iff [of v] validate_loop_error [of "[(v, 0)]" 0 0]
  by (cases "validate_json_tree v") (auto simp: validate_json_tree_def)

section \<open>Canonical forms and well-formed values\<close>

primrec canon :: "pv \<Rightarrow> pv" where
  "canon PNone = PNone"
| "canon (PBool b) = PBool b"
| "canon (PInt i) = PInt i"
| "canon (PFloat f) = PFloat f"
| "canon (PStr s) = PStr s"
| "canon (PList xs) = PList (map canon xs)"
| "canon (PDict d) = PDict (sort_key fst (map (map_prod id canon) d))"

text \<open>\<^verbatim>\<open>float.__repr__\<close> of a finite float: digits, with a point or an exponent.\<close>

definition num_char :: "char \<Rightarrow> bool" where
  "num_char c \<longleftrightarrow> (let n = (of_char c :: nat) in (48 \<le> n \<and> n < 58) \<or> n \<in> {43, 45, 46, 101})"

definition int_char :: "char \<Rightarrow> bool" where
  "int_char c \<longleftrightarrow> (let n = (of_char c :: nat) in (48 \<le> n \<and> n < 58) \<or> n = 45)"

definition float_text :: "string \<Rightarrow> bool" where
  "float_text s \<longleftrightarrow> s \<noteq> [] \<and> int_char (hd s) \<and> list_all num_char s \<and> \<not> list_all int_char s"

text \<open>A value a Python program can hold: the keys of every dictionary are distinct.\<close>

primrec wf_pv :: "pv \<Rightarrow> bool" where
  "wf_pv PNone = True"
| "wf_pv (PBool b) = True"
| "wf_pv (PInt i) = True"
| "wf_pv (PFloat f) = (float_text f \<or> \<not> finite_text f)"
| "wf_pv (PStr s) = True"
| "wf_pv (PList xs) = list_all id (map wf_pv xs)"
| "wf_pv (PDict d) = (distinct (map fst d) \<and> list_all snd (map (map_prod id wf_pv) d))"

text \<open>The encoding of a value whose keys are in order already.\<close>

primrec enc :: "pv \<Rightarrow> string" where
  "enc PNone = ''null''"
| "enc (PBool b) = (if b then ''true'' else ''false'')"
| "enc (PInt i) = show_int i"
| "enc (PFloat f) = f"
| "enc (PStr s) = quote s"
| "enc (PList xs) = ''['' @ comma (map enc xs) @ '']''"
| "enc (PDict d) = ''{'' @ comma (map member_text (map (map_prod id enc) d)) @ ''}''"

lemma sort_key_map_prod:
  "sort_key fst (map (map_prod id f) d) = map (map_prod id f) (sort_key fst d)"
proof -
  have *: "insort_key fst (map_prod id f p) (map (map_prod id f) xs) = map (map_prod id f) (insort_key fst p xs)"
    for p xs by (induction xs) auto
  show ?thesis by (induction d) (simp_all only: list.map sort_key_simps *)
qed

lemma map_map_prod_cong:
  "(\<And>k v. (k, v) \<in> set d \<Longrightarrow> f v = g v) \<Longrightarrow> map (map_prod id f) d = map (map_prod id g) d"
  by (auto intro: map_cong)

lemma dumps_canon: "dumps v = enc (canon v)"
proof (induction v)
  case (PDict d)
  then have "map (map_prod id dumps) (sort_key fst d) = map (map_prod id enc) (map (map_prod id canon) (sort_key fst d))"
    by (auto intro!: map_cong)
  then show ?case by (simp only: dumps.simps canon.simps enc.simps sort_key_map_prod)
qed (simp_all cong: map_cong)

section \<open>The encoding is unambiguous\<close>

definition delim :: "string \<Rightarrow> bool" where
  "delim r \<longleftrightarrow> r = [] \<or> hd r \<in> {CHR '','', CHR '']'', CHR ''}''}"

lemma delim_simps [simp]:
  "delim []" "delim (CHR '','' # r)" "delim (CHR '']'' # r)" "delim (CHR ''}'' # r)"
  by (simp_all add: delim_def)

lemma delim_not_num: "delim r \<Longrightarrow> r = [] \<or> \<not> num_char (hd r)"
  by (auto simp: delim_def num_char_def)

lemma num_prefix:
  assumes "list_all num_char a" "list_all num_char b" "delim r" "delim r'" "a @ r = b @ r'"
  shows "a = b \<and> r = r'"
proof -
  have tw: "takeWhile num_char (x @ s) = x" if "list_all num_char x" "delim s" for x s
    using that delim_not_num [of s] by (cases s; induction x) auto
  from tw [OF assms(1,3)] tw [OF assms(2,4)] assms(5) have "a = b" by simp
  with assms(5) show ?thesis by simp
qed

lemma show_nat_digits: "list_all int_char (show_nat n) \<and> show_nat n \<noteq> [] \<and> CHR ''-'' \<notin> set (show_nat n)"
proof (induction n rule: show_nat.induct)
  case (1 n)
  have d: "int_char (char_of (48 + m)) \<and> CHR ''-'' \<noteq> char_of (48 + m)" if "m < 10" for m :: nat
    using that by (auto simp: int_char_def Let_def of_char_of_small
        dest: arg_cong [where f = "of_char :: char \<Rightarrow> nat"])
  show ?case
    using 1 d [of n] d [of "n mod 10"] by (cases "n < 10") (auto simp: show_nat.simps [of n])
qed

lemma show_nat_eq_iff [simp]: "show_nat m = show_nat n \<longleftrightarrow> m = n"
proof
  assume "show_nat m = show_nat n"
  then show "m = n"
  proof (induction m arbitrary: n rule: show_nat.induct)
    case (1 m)
    have ne: "show_nat k \<noteq> []" for k using show_nat_digits by blast
    have c: "i = j" if "char_of (48 + i) = (char_of (48 + j) :: char)" "i < 10" "j < 10" for i j :: nat
      using arg_cong [OF that(1), of "of_char :: char \<Rightarrow> nat"] that(2,3) by (simp add: of_char_of_small)
    show ?case
    proof (cases "m < 10 \<or> n < 10")
      case True
      with "1.prems" ne [of "m div 10"] ne [of "n div 10"] c [of m n] show ?thesis
        by (auto simp: show_nat.simps [of m] show_nat.simps [of n] split: if_splits)
    next
      case False
      with "1.prems" have "show_nat (m div 10) = show_nat (n div 10)"
        "char_of (48 + m mod 10) = char_of (48 + n mod 10)"
        by (simp_all add: show_nat.simps [of m] show_nat.simps [of n])
      with False "1.IH" c [of "m mod 10" "n mod 10"] have "m div 10 = n div 10" "m mod 10 = n mod 10"
        by simp_all
      then show ?thesis by (metis div_mult_mod_eq)
    qed
  qed
qed simp

lemma show_int_chars: "list_all int_char (show_int i)" "show_int i \<noteq> []"
  using show_nat_digits by (auto simp: show_int_def int_char_def)

lemma show_int_eq_iff [simp]: "show_int i = show_int j \<longleftrightarrow> i = j"
proof -
  have m: "CHR ''-'' # xs \<noteq> show_nat k" for xs k
    using show_nat_digits [of k] by (metis list.set_intros(1))
  show ?thesis
    using m m [THEN not_sym] by (auto simp: show_int_def)
qed

lemma int_char_num: "list_all int_char s \<Longrightarrow> list_all num_char s"
  by (auto simp: list_all_iff int_char_def num_char_def Let_def)

fun unesc :: "string \<Rightarrow> (char \<times> string) option" where
  "unesc [] = None"
| "unesc (c # r) =
     (if c \<noteq> BACKSLASH then Some (c, r)
      else case r of
        [] \<Rightarrow> None
      | d # r' \<Rightarrow>
          if d = CHR ''u'' then
            (case r' of
               _ # _ # h # l # rest \<Rightarrow>
                 (case (unhex_digit h, unhex_digit l) of
                    (Some x, Some y) \<Rightarrow> Some (char_of (16 * x + y), rest)
                  | _ \<Rightarrow> None)
             | _ \<Rightarrow> None)
          else if d = CHR ''b'' then Some (char_of (8 :: nat), r')
          else if d = CHR ''f'' then Some (char_of (12 :: nat), r')
          else if d = CHR ''n'' then Some (char_of (10 :: nat), r')
          else if d = CHR ''r'' then Some (char_of (13 :: nat), r')
          else if d = CHR ''t'' then Some (char_of (9 :: nat), r')
          else Some (d, r'))"

lemma char_eq_of_char: "(of_char c :: nat) = n \<Longrightarrow> c = char_of n"
  by auto

lemma char_of_quote: "char_of (34 :: nat) = QUOTE" "char_of (92 :: nat) = BACKSLASH"
  by (simp_all add: char_of_eq_iff)

lemma unesc_esc: "unesc (esc c @ r) = Some (c, r)"
proof -
  have small: "unesc (BACKSLASH # ''u00'' @ [hex_digit (n div 16), hex_digit (n mod 16)] @ r) = Some (char_of n, r)"
    if "n < 32" for n :: nat
    using that by (simp add: unhex_hex_digit)
  consider "(of_char c :: nat) \<in> {34, 92, 8, 12, 10, 13, 9}" | "(of_char c :: nat) \<notin> {34, 92, 8, 12, 10, 13, 9}" "(of_char c :: nat) < 32"
    | "(of_char c :: nat) \<notin> {34, 92, 8, 12, 10, 13, 9}" "\<not> (of_char c :: nat) < 32" by blast
  then show ?thesis
  proof cases
    case 1
    then show ?thesis by (auto dest!: char_eq_of_char simp: esc_def char_of_quote)
  next
    case 2
    then show ?thesis using small [of "of_char c"] by (simp add: esc_def Let_def)
  next
    case 3
    then have "c \<noteq> BACKSLASH" by auto
    with 3 show ?thesis by (simp add: esc_def Let_def)
  qed
qed

lemma esc_prefix: "esc c @ x = esc d @ y \<Longrightarrow> c = d \<and> x = y"
  by (metis option.inject prod.inject unesc_esc)

lemma esc_start: "\<exists>e es. esc c = e # es \<and> e \<noteq> QUOTE"
proof (cases "(of_char c :: nat) = 34")
  case False
  then have "c \<noteq> QUOTE" by auto
  then show ?thesis by (simp add: esc_def Let_def)
qed (simp add: esc_def)

lemma quoted_prefix:
  "concat (map esc s) @ QUOTE # r = concat (map esc t) @ QUOTE # r' \<Longrightarrow> s = t \<and> r = r'"
proof (induction s arbitrary: t)
  case Nil
  then show ?case using esc_start [of "hd t"] by (cases t) auto
next
  case (Cons c s)
  show ?case
  proof (cases t)
    case Nil
    with Cons.prems esc_start [of c] show ?thesis by auto
  next
    case (Cons d t')
    with Cons.prems have "esc c @ (concat (map esc s) @ QUOTE # r) = esc d @ (concat (map esc t') @ QUOTE # r')"
      by simp
    with esc_prefix have "c = d" "concat (map esc s) @ QUOTE # r = concat (map esc t') @ QUOTE # r'"
      by blast+
    with Cons.IH [of t'] Cons show ?thesis by simp
  qed
qed

lemma quote_prefix: "quote s @ r = quote t @ r' \<Longrightarrow> s = t \<and> r = r'"
  using quoted_prefix [of s r t r'] by (simp add: quote_def)


lemma comma_Cons: "xs \<noteq> [] \<Longrightarrow> comma (x # xs) = x @ '','' @ comma xs"
  by (cases xs) auto

text \<open>
  A sequence of elements, each decodable when followed by a delimiter, is decodable when
  followed by its closing bracket.
\<close>

lemma comma_prefix:
  assumes decode: "\<And>x y r r'. x \<in> set xs \<Longrightarrow> y \<in> set ys \<Longrightarrow> delim r \<Longrightarrow> delim r' \<Longrightarrow>
      f x @ r = f y @ r' \<Longrightarrow> x = y \<and> r = r'"
    and start: "\<And>x. x \<in> set xs \<union> set ys \<Longrightarrow> f x \<noteq> [] \<and> \<not> delim (f x)"
    and close: "close = CHR '']'' \<or> close = CHR ''}''"
    and eq: "comma (map f xs) @ close # r = comma (map f ys) @ close # r'"
  shows "xs = ys \<and> r = r'"
  using decode start eq
proof (induction xs arbitrary: ys)
  case Nil
  then show ?case
  proof (cases ys)
    case (Cons y ys')
    have "f y = hd (f y) # tl (f y)" "\<not> delim (f y)" using Nil Cons by auto
    then have "hd (comma (map f ys) @ close # r') \<noteq> close"
      using Cons close by (cases ys') (auto simp: delim_def intro: hd_append2)
    with Nil show ?thesis by (metis append_Nil comma.simps(1) list.sel(1) list.simps(8))
  qed simp
next
  case (Cons x xs)
  have ys: "ys \<noteq> []"
  proof
    assume "ys = []"
    moreover have "f x = hd (f x) # tl (f x)" "\<not> delim (f x)" using Cons.prems(2) [of x] by auto
    ultimately show False
      using Cons.prems(3) close by (cases xs) (auto simp: delim_def neq_Nil_conv)
  qed
  then obtain y ys' where ys': "ys = y # ys'" by (cases ys) auto
  define tx where "tx = (if xs = [] then close # r else '','' @ comma (map f xs) @ close # r)"
  define ty where "ty = (if ys' = [] then close # r' else '','' @ comma (map f ys') @ close # r')"
  have "f x @ tx = f y @ ty"
    using Cons.prems(3) by (auto simp: ys' tx_def ty_def comma_Cons)
  moreover have "delim tx" "delim ty" using close by (auto simp: tx_def ty_def)
  ultimately have "x = y" "tx = ty" using Cons.prems(1) [of x y] ys' by auto
  moreover from \<open>tx = ty\<close> have "comma (map f xs) @ close # r = comma (map f ys') @ close # r'"
    using close by (auto simp: tx_def ty_def split: if_splits)
  then have "xs = ys' \<and> r = r'"
    using Cons.prems(1,2) ys' by (intro Cons.IH) auto
  ultimately show ?case by (simp add: ys')
qed


definition first_kind :: "char \<Rightarrow> char" where
  "first_kind c = (if int_char c then CHR ''0'' else c)"

fun kind :: "pv \<Rightarrow> char" where
  "kind PNone = CHR ''n''"
| "kind (PBool b) = (if b then CHR ''t'' else CHR ''f'')"
| "kind (PInt i) = CHR ''0''"
| "kind (PFloat f) = CHR ''0''"
| "kind (PStr s) = QUOTE"
| "kind (PList xs) = CHR ''[''"
| "kind (PDict d) = CHR ''{''"

lemma enc_start:
  assumes "wf_pv v" "all_finite v"
  shows "enc v \<noteq> [] \<and> first_kind (hd (enc v)) = kind v"
proof (cases v)
  case (PInt i)
  then show ?thesis using show_int_chars [of i] by (cases "show_int i") (auto simp: first_kind_def)
next
  case (PFloat f)
  then show ?thesis using assms by (auto simp: float_text_def first_kind_def)
qed (auto simp: first_kind_def int_char_def quote_def Let_def)

lemma kind_not_delim: "kind v \<notin> {CHR '','', CHR '']'', CHR ''}''}"
  by (cases v) auto

lemma enc_not_delim: "wf_pv v \<Longrightarrow> all_finite v \<Longrightarrow> enc v \<noteq> [] \<and> \<not> delim (enc v)"
  using enc_start [of v] kind_not_delim [of v]
  by (auto simp: delim_def first_kind_def int_char_def Let_def split: if_splits)

lemma enc_same_kind:
  assumes "wf_pv v" "all_finite v" "wf_pv w" "all_finite w" "enc v @ r = enc w @ r'"
  shows "kind v = kind w"
  using assms enc_start [of v] enc_start [of w] by (metis hd_append2)

lemma member_prefix:
  assumes "\<And>r r'. delim r \<Longrightarrow> delim r' \<Longrightarrow> enc v @ r = enc w @ r' \<Longrightarrow> v = w \<and> r = r'"
    and "delim r" "delim r'" "member_text (k, enc v) @ r = member_text (l, enc w) @ r'"
  shows "k = l \<and> v = w \<and> r = r'"
  using quote_prefix [of k "'':'' @ enc v @ r" l "'':'' @ enc w @ r'"] assms by (simp add: member_text_def)

lemma member_not_delim: "member_text p \<noteq> [] \<and> \<not> delim (member_text p)"
  by (simp add: member_text_def quote_def delim_def)

lemma members_prefix:
  assumes IH: "\<And>p q r r'. p \<in> set d \<Longrightarrow> q \<in> set e \<Longrightarrow> delim r \<Longrightarrow> delim r' \<Longrightarrow>
      enc (snd p) @ r = enc (snd q) @ r' \<Longrightarrow> snd p = snd q \<and> r = r'"
    and eq: "enc (PDict d) @ r = enc (PDict e) @ r'"
  shows "d = e \<and> r = r'"
proof (rule comma_prefix [where f = "\<lambda>p. member_text (fst p, enc (snd p))" and close = "CHR ''}''"])
  show "comma (map (\<lambda>p. member_text (fst p, enc (snd p))) d) @ CHR ''}'' # r
        = comma (map (\<lambda>p. member_text (fst p, enc (snd p))) e) @ CHR ''}'' # r'"
    using eq by (simp add: comp_def map_prod_def split_def)
  show "p = q \<and> s = s'"
    if "p \<in> set d" "q \<in> set e" "delim s" "delim s'"
      "member_text (fst p, enc (snd p)) @ s = member_text (fst q, enc (snd q)) @ s'" for p q s s'
    using member_prefix [OF IH [OF that(1,2)] that(3-5)] by (cases p; cases q) simp
qed (simp_all add: member_not_delim)

lemma elements_prefix:
  assumes IH: "\<And>x y r r'. x \<in> set xs \<Longrightarrow> y \<in> set ys \<Longrightarrow> delim r \<Longrightarrow> delim r' \<Longrightarrow>
      enc x @ r = enc y @ r' \<Longrightarrow> x = y \<and> r = r'"
    and ok: "\<forall>x \<in> set xs \<union> set ys. wf_pv x \<and> all_finite x"
    and eq: "enc (PList xs) @ r = enc (PList ys) @ r'"
  shows "xs = ys \<and> r = r'"
proof (rule comma_prefix [where f = enc and close = "CHR '']''"])
  show "comma (map enc xs) @ CHR '']'' # r = comma (map enc ys) @ CHR '']'' # r'"
    using eq by simp
  show "enc x \<noteq> [] \<and> \<not> delim (enc x)" if "x \<in> set xs \<union> set ys" for x
    using ok that enc_not_delim by blast
qed (simp_all add: IH)

lemma enc_prefix:
  "wf_pv v \<Longrightarrow> all_finite v \<Longrightarrow> wf_pv w \<Longrightarrow> all_finite w \<Longrightarrow> delim r \<Longrightarrow> delim r' \<Longrightarrow>
     enc v @ r = enc w @ r' \<Longrightarrow> v = w \<and> r = r'"
proof (induction v arbitrary: w r r')
  case PNone
  with enc_same_kind [OF PNone(1-4,7)] show ?case by (cases w) (auto split: if_splits)
next
  case (PBool b)
  with enc_same_kind [OF PBool(1-4,7)] show ?case by (cases w) (auto split: if_splits)
next
  case (PInt i)
  note num = num_prefix [OF int_char_num [OF show_int_chars(1)] _ PInt(5,6)]
  show ?case
  proof (cases w)
    case (PInt j)
    with num [of "show_int j" i] PInt.prems show ?thesis
      by (auto simp: int_char_num [OF show_int_chars(1)])
  next
    case (PFloat f)
    with num [of f i] PInt.prems show_int_chars [of i] show ?thesis by (auto simp: float_text_def)
  qed (use enc_same_kind [OF PInt(1-4,7)] in \<open>auto split: if_splits\<close>)
next
  case (PFloat f)
  then have f: "list_all num_char f" "\<not> list_all int_char f" by (auto simp: float_text_def)
  note num = num_prefix [OF f(1) _ PFloat(5,6)]
  show ?case
  proof (cases w)
    case (PInt j)
    with num [of "show_int j"] PFloat.prems f show_int_chars [of j] show ?thesis
      by (auto simp: int_char_num [OF show_int_chars(1)])
  next
    case (PFloat g)
    with num [of g] PFloat.prems show ?thesis by (auto simp: float_text_def)
  qed (use enc_same_kind [OF PFloat(1-4,7)] in \<open>auto split: if_splits\<close>)
next
  case (PStr s)
  with enc_same_kind [OF PStr(1-4,7)] show ?case by (cases w) (auto dest: quote_prefix split: if_splits)
next
  case (PList xs)
  from enc_same_kind [OF PList.prems(1-4,7)] obtain ys where w: "w = PList ys"
    by (cases w) (auto split: if_splits)
  with PList.prems have ok: "\<forall>x \<in> set xs \<union> set ys. wf_pv x \<and> all_finite x"
    by (simp add: list_all_iff ball_Un)
  have "xs = ys \<and> r = r'"
    by (rule elements_prefix [OF PList.IH ok PList.prems(7) [unfolded w]]) (use ok in simp_all)
  then show ?case by (simp add: w)
next
  case (PDict d)
  from enc_same_kind [OF PDict.prems(1-4,7)] obtain e where w: "w = PDict e"
    by (cases w) (auto split: if_splits)
  with PDict.prems have ok: "\<forall>p \<in> set d \<union> set e. wf_pv (snd p) \<and> all_finite (snd p)"
    by (simp add: list_all_iff ball_Un)
  have mem: "snd p \<in> Basic_BNFs.snds p" for p :: "string \<times> pv" by (cases p) simp
  have "d = e \<and> r = r'"
    by (rule members_prefix [OF PDict.IH [OF _ mem] PDict.prems(7) [unfolded w]]) (use ok in simp_all)
  then show ?case by (simp add: w)
qed


section \<open>Values up to the order of keys\<close>

lemma canon_dict: "canon (PDict d) = PDict (map (map_prod id canon) (sort_key fst d))"
  by (simp add: sort_key_map_prod)

lemma sum_list_sort_key: "sum_list (map f (sort_key g xs)) = (sum_list (map f xs) :: nat)"
  by (metis mset_map mset_sort sum_mset_sum_list)

lemma foldr_max_Max: "foldr max xs (0 :: nat) = Max (insert 0 (set xs))"
  by (induction xs) (auto simp: Max_insert2 max.left_commute insert_commute [of 0])

lemma wf_canon: "wf_pv v \<Longrightarrow> wf_pv (canon v)"
proof (induction v)
  case (PDict d)
  then have "\<forall>p \<in> set d. wf_pv (canon (snd p))"
    by (auto simp: list_all_iff)
  moreover have "distinct (map fst (sort_key fst d))"
    using PDict.prems by (simp add: distinct_map)
  ultimately show ?case
    by (auto simp: canon_dict list_all_iff simp del: canon.simps)
qed (auto simp: list_all_iff)

lemma all_finite_canon: "all_finite (canon v) = all_finite v"
proof (induction v)
  case (PDict d)
  then show ?case by (auto simp: canon_dict list_all_iff simp del: canon.simps)
qed (auto simp: list_all_iff)

lemma nodes_canon: "nodes (canon v) = nodes v"
proof (induction v)
  case (PDict d)
  then have "map (\<lambda>p. nodes (canon (snd p))) d = map (\<lambda>p. nodes (snd p)) d"
    by (auto intro: map_cong)
  then show ?case
    by (simp only: canon_dict nodes.simps map_map comp_def snd_map_prod sum_list_sort_key)
qed (simp_all add: comp_def cong: map_cong)

lemma tree_bytes_canon: "tree_bytes (canon v) = tree_bytes v"
proof (induction v)
  case (PDict d)
  then have "map (\<lambda>p. tree_bytes (canon (snd p))) d = map (\<lambda>p. tree_bytes (snd p)) d"
    by (auto intro: map_cong)
  then show ?case
    by (simp only: canon_dict tree_bytes.simps map_map comp_def snd_map_prod fst_map_prod id_apply sum_list_sort_key)
qed (simp_all add: comp_def cong: map_cong)

lemma depth_canon: "depth (canon v) = depth v"
proof (induction v)
  case (PDict d)
  then have "map (\<lambda>p. Suc (depth (canon (snd p)))) d = map (\<lambda>p. Suc (depth (snd p))) d"
    by (auto intro: map_cong)
  moreover have "foldr max (map f (sort_key fst d)) 0 = foldr max (map f d) (0 :: nat)" for f
    by (simp add: foldr_max_Max)
  ultimately show ?case
    by (simp only: canon_dict depth.simps map_map comp_def snd_map_prod)
qed (simp_all add: comp_def cong: map_cong)

lemma canon_canon [simp]: "canon (canon v) = canon v"
proof (induction v)
  case (PDict d)
  then have "map (map_prod id canon \<circ> map_prod id canon) (sort_key fst d) = map (map_prod id canon) (sort_key fst d)"
    by (auto intro!: map_cong)
  then show ?case
    by (simp only: canon_dict sort_key_map_prod map_map) (simp add: sort_key_id_if_sorted)
qed simp_all

lemma tree_ok_canon: "tree_ok (canon v) = tree_ok v"
  by (simp add: tree_ok_def all_finite_canon nodes_canon tree_bytes_canon depth_canon)

lemma dumps_eq_iff:
  assumes "wf_pv v" "all_finite v" "wf_pv w" "all_finite w"
  shows "dumps v = dumps w \<longleftrightarrow> canon v = canon w"
  using assms enc_prefix [of "canon v" "canon w" "[]" "[]"]
  by (auto simp: dumps_canon wf_canon all_finite_canon)

section \<open>The canonical encoding and the digest\<close>

lemma wire_cases:
  "wire v = (if tree_ok v \<and> length (dumps v) \<le> MAX_BYTES then Inr (dumps v) else Inl ValueError)"
  by (simp add: wire_def json_bytes_def validate_json_tree_cases guard_r_def tree_ok_def not_less)

lemma wire_Inr: "wire v = Inr b \<longleftrightarrow> tree_ok v \<and> length (dumps v) \<le> MAX_BYTES \<and> b = dumps v"
  by (auto simp: wire_cases)

lemma wire_canon: "wire (canon v) = wire v"
  by (simp add: wire_cases dumps_canon tree_ok_canon)

text \<open>
  The contract of an encoding that is hashed: equal encodings come from the same value.
  Every hash of the program commits to its argument through such an encoding; the client's
  lemma turns equal hashes into the same value unless the two encodings collide.
\<close>

locale committed_encoding =
  fixes encode :: "'a \<Rightarrow> string result"
    and valid :: "'a \<Rightarrow> bool"
    and same :: "'a \<Rightarrow> 'a \<Rightarrow> bool"
  assumes decodable: "valid x \<Longrightarrow> valid y \<Longrightarrow> encode x = Inr b \<Longrightarrow> encode y = Inr b \<Longrightarrow> same x y"
begin

lemma hash_binds:
  assumes "valid x" "valid y" "encode x = Inr b" "encode y = Inr c"
    and "sha256_hex b = sha256_hex c" "inj_on sha256 {b, c}"
  shows "same x y"
proof -
  from assms(5) have "sha256 b = sha256 c" by (simp add: sha256_hex_def)
  with assms(6) have "b = c" by (rule inj_onD) simp_all
  with assms(1-4) show ?thesis using decodable by blast
qed

end

definition same_value :: "pv \<Rightarrow> pv \<Rightarrow> bool" where
  "same_value v w \<longleftrightarrow> canon v = canon w"

interpretation wire_code: committed_encoding wire wf_pv same_value
proof unfold_locales
  fix v w b
  assume "wf_pv v" "wf_pv w" "wire v = Inr b" "wire w = Inr b"
  then show "same_value v w"
    using dumps_eq_iff [of v w] by (simp add: wire_Inr same_value_def tree_ok_def)
qed

lemma digest_Inr: "digest v = Inr h \<longleftrightarrow> (\<exists>b. wire v = Inr b \<and> h = sha256_hex b)"
  by (auto simp: digest_def result_simps)

lemma digest_is_hash: "digest v = Inr h \<Longrightarrow> is_hash h"
  by (auto simp: digest_Inr)

lemma digest_binds:
  assumes "wf_pv v" "wf_pv w" "digest v = Inr h" "digest w = Inr h" "inj_on sha256 {dumps v, dumps w}"
  shows "same_value v w"
  using assms by (auto simp: digest_Inr wire_Inr intro: wire_code.hash_binds)

lemma wf_lookup: "wf_pv (PDict d) \<Longrightarrow> map_of d k = Some v \<Longrightarrow> wf_pv v"
  by (drule map_of_SomeD) (force simp: list_all_iff)

lemma wf_element: "wf_pv (PList xs) \<Longrightarrow> x \<in> set xs \<Longrightarrow> wf_pv x"
  by (auto simp: list_all_iff)

lemma wf_keys: "wf_pv (PDict d) \<Longrightarrow> distinct (map fst d)"
  by simp

section \<open>Validators\<close>

lemma fp_text_Inr [result_simps]:
  "fp_text v m = Inr s \<longleftrightarrow> v = PStr s \<and> s \<noteq> [] \<and> py_len s \<le> m \<and> length s \<le> m \<and> NUL \<notin> set s"
  by (auto simp: fp_text_def guard_r_Inr not_less split: pv.splits)

lemma fp_text_Inl [result_simps]: "fp_text v m = Inl e \<longleftrightarrow> e = ValueError \<and> (\<forall>s. fp_text v m \<noteq> Inr s)"
  by (auto simp: fp_text_def guard_r_def split: pv.splits)

lemma fp_count_Inr [result_simps]: "fp_count v lo hi = Inr n \<longleftrightarrow> v = PInt n \<and> lo \<le> n \<and> n \<le> hi"
  by (auto simp: fp_count_def guard_r_Inr split: pv.splits)

lemma count_int_Inr [result_simps]: "count_int n lo hi = Inr m \<longleftrightarrow> m = n \<and> lo \<le> n \<and> n \<le> hi"
  by (auto simp: count_int_def fp_count_Inr)

lemma py_len_le: "py_len s \<le> length s"
  by (simp add: py_len_def)

section \<open>The size of an encoding\<close>

text \<open>The length of the canonical text, without sorting: what a size limit bounds.\<close>

primrec text_length :: "pv \<Rightarrow> nat" where
  "text_length PNone = 4"
| "text_length (PBool b) = (if b then 4 else 5)"
| "text_length (PInt i) = length (show_int i)"
| "text_length (PFloat f) = length f"
| "text_length (PStr s) = length (quote s)"
| "text_length (PList xs) = 2 + (length xs - 1) + sum_list (map text_length xs)"
| "text_length (PDict d) =
     2 + (length d - 1) + sum_list (map (\<lambda>p. length (quote (fst p)) + 1 + snd p) (map (map_prod id text_length) d))"

lemma length_comma: "length (comma xs) = (length xs - 1) + sum_list (map length xs)"
  by (induction xs rule: comma.induct) auto

lemma length_dumps: "length (dumps v) = text_length v"
proof (induction v)
  case (PList xs)
  then show ?case by (simp add: length_comma comp_def cong: map_cong)
next
  case (PDict d)
  have "sum_list (map length (map member_text (sort_key fst (map (map_prod id dumps) d))))
      = sum_list (map (\<lambda>p. length (member_text p)) (map (map_prod id dumps) d))"
    by (simp only: map_map comp_def sum_list_sort_key)
  moreover have "map (\<lambda>p. length (member_text p)) (map (map_prod id dumps) d)
      = map (\<lambda>p. length (quote (fst p)) + 1 + text_length (snd p)) d"
    using PDict by (auto simp: member_text_def)
  then have "sum_list (map (\<lambda>p. length (member_text p)) (map (map_prod id dumps) d))
      = sum_list (map (\<lambda>p. length (quote (fst p)) + 1 + text_length (snd p)) d)" by (simp only:)
  ultimately show ?case by (simp add: length_comma comp_def)
qed auto

lemma length_quote: "length (quote s) = 2 + sum_list (map (\<lambda>c. length (esc c)) s)"
  by (simp add: quote_def length_concat comp_def)

lemma length_quote_simps:
  "length (quote []) = 2" "length (quote (c # s)) = length (esc c) + length (quote s)"
  by (simp_all add: length_quote)

lemma py_len_simps:
  "py_len [] = 0" "py_len (c # s) = (if 128 \<le> (of_char c :: nat) \<and> (of_char c :: nat) < 192 then 0 else 1) + py_len s"
  by (simp_all add: py_len_def)

lemma length_quote_hash: "is_hash s \<Longrightarrow> length (quote s) = 66"
proof -
  assume "is_hash s"
  then have "length (esc c) = 1" if "c \<in> set s" for c
    using that by (auto simp: is_hash_def list_all_iff is_hex_char_def esc_def Let_def)
  then have e: "map (\<lambda>c. length (esc c)) s = map (\<lambda>_. 1) s" by auto
  show ?thesis unfolding length_quote e using is_hash_length [OF \<open>is_hash s\<close>] by (simp add: sum_list_triv)
qed

lemma py_len_hash: "is_hash s \<Longrightarrow> py_len s = 64"
proof -
  assume "is_hash s"
  then have "filter (\<lambda>c. \<not> (128 \<le> (of_char c :: nat) \<and> (of_char c :: nat) < 192)) s = s"
    by (auto simp: is_hash_def list_all_iff is_hex_char_def Let_def intro!: filter_True)
  then show ?thesis using is_hash_length [OF \<open>is_hash s\<close>] by (simp add: py_len_def)
qed

section \<open>Properties\<close>

text \<open>
  C1: The bounded tree check is exact. \<open>validate_json_tree\<close> returns normally exactly on the
  values whose floats are finite, whose nesting is at most 64, whose node count is at most
  200000 and whose minimal encoded size is at most the byte limit, whatever order the work
  list visits them in; on every other value it raises ValueError, and it always ends.
\<close>

theorem validate_json_tree_exact:
  "validate_json_tree v =
     (if all_finite v \<and> depth v \<le> 64 \<and> nodes v \<le> 200000 \<and> tree_bytes v \<le> MAX_BYTES
      then Inr () else Inl ValueError)"
  by (simp add: validate_json_tree_cases tree_ok_def)

text \<open>
  C2: The canonical encoding is unambiguous and complete: two well-formed values that \<open>wire\<close>
  accepts have the same bytes exactly when they are the same value up to the order in which
  dictionaries list their keys, at every depth.
\<close>

theorem wire_unambiguous:
  assumes "wf_pv v" "wf_pv w" "wire v = Inr a" "wire w = Inr b"
  shows "a = b \<longleftrightarrow> canon v = canon w"
  using assms dumps_eq_iff [of v w] by (simp add: wire_Inr tree_ok_def)

theorem wire_unambiguous_witness:
  "wire (PDict [(''b'', PBool True), (''a'', PNone)]) = wire (PDict [(''a'', PNone), (''b'', PBool True)])"
proof -
  let ?v = "PDict [(''b'', PBool True), (''a'', PNone)]" and ?w = "PDict [(''a'', PNone), (''b'', PBool True)]"
  have ok: "wf_pv ?v" "wf_pv ?w" by (simp_all add: list_all_iff)
  have w: "wire ?v = Inr (dumps ?v)" "wire ?w = Inr (dumps ?w)"
    by (simp_all add: wire_cases tree_ok_def MAX_BYTES_def member_text_def quote_def esc_def Let_def py_len_def)
  have "canon ?v = canon ?w" by simp
  with wire_unambiguous [OF ok w] w show ?thesis by simp
qed

text \<open>
  A digest names one record: if two well-formed values have the same digest, they are the
  same value up to the order of dictionary keys, unless SHA-256 collides on exactly their two
  canonical encodings.
\<close>

theorem digest_names_value:
  assumes "wf_pv v" "wf_pv w" "digest v = Inr h" "digest w = Inr h" "inj_on sha256 {dumps v, dumps w}"
  shows "canon v = canon w"
  using digest_binds [OF assms] by (simp add: same_value_def)

theorem digest_names_value_witness:
  "canon (PList [PBool True, PStr ''x'']) = canon (PList [PBool True, PStr ''x''])"
proof -
  let ?v = "PList [PBool True, PStr ''x'']"
  have "wf_pv ?v" by (simp add: list_all_iff)
  moreover have "wire ?v = Inr (dumps ?v)"
    by (simp add: wire_cases tree_ok_def MAX_BYTES_def quote_def esc_def Let_def py_len_def)
  then have "digest ?v = Inr (sha256_hex (dumps ?v))" by (simp add: digest_def)
  ultimately show ?thesis
    using digest_names_value [of ?v ?v "sha256_hex (dumps ?v)"] by simp
qed

end
