(* ===== verification/Origin.thy ===== *)
theory Origin
  imports Frontier
begin

text \<open>
  Origin receipts, \<^verbatim>\<open>unimem/origin.py\<close>: a record is bound to a principal, an organization and an
  authority by an HMAC-SHA-256 or Ed25519 signature over the canonical bytes of the envelope.
  HMAC is computed; Ed25519 is a third-party package and enters as the two functions of
  \<open>ed25519\<close>, with their correctness as a named hypothesis. The lemmas show that a bound
  receipt verifies, that verification pins every field of the principal, and that
  corroboration counts configured organizations.
\<close>

section \<open>Values compared and printed\<close>

text \<open>
  \<^verbatim>\<open>str(v).encode()\<close> compared with a text of 64 hexadecimal digits: only a string or an
  integer prints so.
\<close>

definition prints_as :: "pv \<Rightarrow> string \<Rightarrow> bool" where
  "prints_as v s = (case v of PStr t \<Rightarrow> t = s | PInt i \<Rightarrow> show_int i = s | _ \<Rightarrow> False)"

text \<open>\<^verbatim>\<open>base64.b64encode\<close>, and \<^verbatim>\<open>b64decode(\<dots>, validate=True)\<close>, where \<open>None\<close> is its error.\<close>

definition b64_alphabet :: string where
  "b64_alphabet = ''ABCDEFGHIJKLMNOPQRSTUVWXYZabcdefghijklmnopqrstuvwxyz0123456789+/''"

definition b64_char :: "nat \<Rightarrow> char" where
  "b64_char n = b64_alphabet ! n"

fun index_of :: "'a \<Rightarrow> 'a list \<Rightarrow> nat option" where
  "index_of x [] = None"
| "index_of x (y # ys) = (if x = y then Some 0 else map_option Suc (index_of x ys))"

definition b64_value :: "char \<Rightarrow> nat option" where
  "b64_value c = index_of c b64_alphabet"

definition b64_group :: "nat \<Rightarrow> string" where
  "b64_group n = [b64_char (n div 64 div 64 div 64), b64_char (n div 64 div 64 mod 64), b64_char (n div 64 mod 64), b64_char (n mod 64)]"

fun b64encode :: "string \<Rightarrow> string" where
  "b64encode [] = []"
| "b64encode [a] = take 2 (b64_group (of_char a * 256 * 256)) @ ''==''"
| "b64encode [a, b] = take 3 (b64_group ((of_char a * 256 + of_char b) * 256)) @ ''=''"
| "b64encode (a # b # c # r) = b64_group ((of_char a * 256 + of_char b) * 256 + of_char c) @ b64encode r"

definition b64_number :: "char list \<Rightarrow> nat option" where
  "b64_number cs = foldl (\<lambda>acc c. case (acc, b64_value c) of (Some n, Some v) \<Rightarrow> Some (64 * n + v) | _ \<Rightarrow> None) (Some 0) cs"

definition b64_bytes :: "nat \<Rightarrow> string" where
  "b64_bytes n = [char_of (n div 256 div 256), char_of (n div 256 mod 256), char_of (n mod 256)]"

fun b64decode :: "string \<Rightarrow> string option" where
  "b64decode [] = Some []"
| "b64decode (w # x # y # z # r) =
     (if r = [] \<and> z = CHR ''='' then
        (if y = CHR ''='' then map_option (\<lambda>n. take 1 (b64_bytes (n * 64 * 64))) (b64_number [w, x])
         else map_option (\<lambda>n. take 2 (b64_bytes (n * 64))) (b64_number [w, x, y]))
      else case (b64_number [w, x, y, z], b64decode r) of
             (Some n, Some bs) \<Rightarrow> Some (b64_bytes n @ bs)
           | _ \<Rightarrow> None)"
| "b64decode cs = None"

section \<open>Receipts\<close>

record principal =
  pr_id :: string
  pr_organization :: string
  pr_authority :: string
  pr_key :: string
  pr_algorithm :: string
  pr_public_key :: string

text \<open>The third-party package: \<open>ed_sign key message\<close> and \<open>ed_verify public signature message\<close>.\<close>

record ed25519 =
  ed_sign :: "string \<Rightarrow> string \<Rightarrow> string"
  ed_verify :: "string \<Rightarrow> string \<Rightarrow> string \<Rightarrow> bool"

text \<open>
  The unsigned envelope. Unless the caller has detached the record already, a copy re-read
  from the canonical bytes is stored: the same value with its keys in sorted order.
\<close>

definition origin_body :: "bool \<Rightarrow> (string \<times> pv) list \<Rightarrow> principal \<Rightarrow> string \<Rightarrow> (string \<times> pv) list" where
  "origin_body detached rec p b =
     [(''record'', if detached then PDict rec else canon (PDict rec)), (''principal'', PStr (pr_id p)), (''organization'', PStr (pr_organization p)),
      (''authority'', PStr (pr_authority p)), (''digest'', PStr (sha256_hex b))]"

definition origin_bind :: "ed25519 \<Rightarrow> bool \<Rightarrow> (string \<times> pv) list \<Rightarrow> principal \<Rightarrow> (string \<times> pv) list result" where
  "origin_bind ed detached rec p =
     guard_r (\<not> length (pr_key p) < 32) ValueError
       (bind_r (json_bytes (PDict rec)) (\<lambda>b.
          let body = origin_body detached rec p b in
          if pr_algorithm p = ''ed25519'' then
            (let body = body @ [(''algorithm'', PStr ''ed25519'')] in
             bind_r (json_bytes (PDict body)) (\<lambda>m.
               Inr (body @ [(''signature'', PStr (b64encode (ed_sign ed (pr_key p) m)))])))
          else guard_r (pr_algorithm p = ''hmac-sha256'') ValueError
            (bind_r (json_bytes (PDict body)) (\<lambda>m.
               Inr (body @ [(''signature'', PStr (hmac_hex (pr_key p) m))])))))"

definition origin_signature_valid :: "ed25519 \<Rightarrow> (string \<times> pv) list \<Rightarrow> principal \<Rightarrow> bool result" where
  "origin_signature_valid ed receipt p =
     (let body = dpop receipt ''signature'' in
      if pr_algorithm p = ''ed25519'' then
        Inr (case (map_of receipt ''signature'', json_bytes (PDict body)) of
               (Some (PStr s), Inr m) \<Rightarrow>
                 (case b64decode s of None \<Rightarrow> False | Some sig \<Rightarrow> ed_verify ed (pr_public_key p) sig m)
             | _ \<Rightarrow> False)
      else bind_r (json_bytes (PDict body)) (\<lambda>m.
           bind_r (dget receipt ''signature'') (\<lambda>s. Inr (prints_as s (hmac_hex (pr_key p) m)))))"

definition is_pstr :: "pv \<Rightarrow> string \<Rightarrow> bool" where
  "is_pstr v s = (v = PStr s)"

text \<open>The checks against the principal that the receipt names.\<close>

definition origin_check :: "ed25519 \<Rightarrow> (string \<times> pv) list \<Rightarrow> principal \<Rightarrow> string option \<Rightarrow> bool result" where
  "origin_check ed receipt p authority =
     (if \<not> is_pstr (dget_or receipt ''algorithm'' (PStr ''hmac-sha256'')) (pr_algorithm p) then Inr False
      else bind_r (origin_signature_valid ed receipt p) (\<lambda>valid.
        if \<not> valid then Inr False
        else bind_r (dget receipt ''organization'') (\<lambda>org.
          if \<not> is_pstr org (pr_organization p) then Inr False
          else bind_r (dget receipt ''authority'') (\<lambda>auth.
            if \<not> is_pstr auth (pr_authority p) then Inr False
            else if \<not> (authority = None \<or> authority = Some (pr_authority p)) then Inr False
            else bind_r (dget receipt ''digest'') (\<lambda>d.
                 bind_r (dget receipt ''record'') (\<lambda>r.
                 bind_r (json_bytes r) (\<lambda>b. Inr (is_pstr d (sha256_hex b)))))))))"

definition origin_verify_body ::
  "ed25519 \<Rightarrow> (string \<times> pv) list \<Rightarrow> (string \<times> principal) list \<Rightarrow> string option \<Rightarrow> bool result" where
  "origin_verify_body ed receipt principals authority =
     bind_r (dget receipt ''principal'') (\<lambda>pid.
     bind_r (case pid of PStr s \<Rightarrow> (case map_of principals s of None \<Rightarrow> Inl KeyError | Some p \<Rightarrow> Inr p)
             | PList _ \<Rightarrow> Inl TypeError | PDict _ \<Rightarrow> Inl TypeError | _ \<Rightarrow> Inl KeyError) (\<lambda>p.
       origin_check ed receipt p authority))"

definition origin_verify ::
  "ed25519 \<Rightarrow> (string \<times> pv) list \<Rightarrow> (string \<times> principal) list \<Rightarrow> string option \<Rightarrow> bool" where
  "origin_verify ed receipt principals authority =
     (case origin_verify_body ed receipt principals authority of Inr b \<Rightarrow> b | Inl _ \<Rightarrow> False)"

text \<open>
  \<^verbatim>\<open>len({r["organization"] for r in receipts if ...})\<close>: a verified receipt has the field, and
  its value is a string.
\<close>

definition corroboration :: "ed25519 \<Rightarrow> (string \<times> pv) list list \<Rightarrow> (string \<times> principal) list \<Rightarrow> string \<Rightarrow> nat" where
  "corroboration ed receipts principals dig =
     length (remdups (map (\<lambda>r. str_of (dget_or r ''organization'' PNone))
       (filter (\<lambda>r. is_pstr (dget_or r ''digest'' PNone) dig \<and> origin_verify ed r principals None) receipts)))"


section \<open>Base64 round trip\<close>

lemma index_of_nth: "distinct xs \<Longrightarrow> n < length xs \<Longrightarrow> index_of (xs ! n) xs = Some n"
proof (induction xs arbitrary: n)
  case (Cons x xs)
  then show ?case by (cases n) auto
qed simp

lemma b64_alphabet_facts: "length b64_alphabet = 64" "distinct b64_alphabet" "CHR ''='' \<notin> set b64_alphabet"
  by (simp_all add: b64_alphabet_def)

lemma b64_value_char [simp]: "n < 64 \<Longrightarrow> b64_value (b64_char n) = Some n"
  by (simp add: b64_value_def b64_char_def index_of_nth b64_alphabet_facts)

lemma b64_char_not_pad [simp]: "n < 64 \<Longrightarrow> b64_char n \<noteq> CHR ''=''"
  using nth_mem [of n b64_alphabet] b64_alphabet_facts unfolding b64_char_def by metis

lemma b64_bytes_of: "b64_bytes ((of_char a * 256 + of_char b) * 256 + of_char c) = [a, b, c]"
proof -
  have e: "(x * 256 + y) div 256 = x" "(x * 256 + y) mod 256 = y" if "y < 256" for x y :: nat
    using that by simp_all
  note e = e [OF of_char_lt]
  show ?thesis unfolding b64_bytes_def e by simp
qed

text \<open>The number the digits of a group denote.\<close>

lemma b64_number_snoc:
  assumes "b64_number cs = Some (n div 64)"
  shows "b64_number (cs @ [b64_char (n mod 64)]) = Some n"
proof -
  have "64 * (n div 64) + n mod 64 = n" by simp
  then show ?thesis using assms by (simp add: b64_number_def)
qed

lemma b64_number_group:
  assumes "n < 64 * 64 * 64 * 64"
  shows "b64_number (take 1 (b64_group n)) = Some (n div 64 div 64 div 64)"
    "b64_number (take 2 (b64_group n)) = Some (n div 64 div 64)"
    "b64_number (take 3 (b64_group n)) = Some (n div 64)"
    "b64_number (b64_group n) = Some n"
    "n div 64 div 64 div 64 < 64"
proof -
  show lt: "n div 64 div 64 div 64 < 64"
    using assms by (simp add: less_mult_imp_div_less mult.commute)
  then show 1: "b64_number (take 1 (b64_group n)) = Some (n div 64 div 64 div 64)"
    by (simp add: b64_group_def b64_number_def)
  from b64_number_snoc [OF this] show 2: "b64_number (take 2 (b64_group n)) = Some (n div 64 div 64)"
    by (simp add: b64_group_def numeral_2_eq_2)
  from b64_number_snoc [OF this] show 3: "b64_number (take 3 (b64_group n)) = Some (n div 64)"
    by (simp add: b64_group_def numeral_2_eq_2 numeral_3_eq_3)
  from b64_number_snoc [OF this] show "b64_number (b64_group n) = Some n"
    by (simp add: b64_group_def numeral_3_eq_3)
qed

lemma b64_roundtrip: "b64decode (b64encode s) = Some s"
proof (induction s rule: b64encode.induct)
  case (2 a)
  define n where "n = (of_char a :: nat) * 256 * 256"
  have n: "n < 64 * 64 * 64 * 64" "n div 64 div 64 * 64 * 64 = n" using of_char_lt [of a] by (simp_all add: n_def)
  have "b64_bytes n = [a, CHR 0x00, CHR 0x00]"
    using b64_bytes_of [of a "CHR 0x00" "CHR 0x00"] by (simp add: n_def)
  then show ?case
    using b64_number_group [OF n(1)] n
    unfolding b64encode.simps n_def [symmetric] by (simp add: b64_group_def numeral_2_eq_2)
next
  case (3 a b)
  define n where "n = ((of_char a :: nat) * 256 + of_char b) * 256"
  have "(of_char a :: nat) < 256" "(of_char b :: nat) < 256" by (rule of_char_lt)+
  then have "(of_char a :: nat) * 256 + of_char b < 65536" by linarith
  then have n: "n < 64 * 64 * 64 * 64" by (simp add: n_def)
  have m: "n div 64 * 64 = n" by (simp add: n_def)
  have "b64_bytes n = [a, b, CHR 0x00]"
    using b64_bytes_of [of a b "CHR 0x00"] by (simp add: n_def)
  then show ?case
    using b64_number_group [OF n] m
    unfolding b64encode.simps n_def [symmetric] by (simp add: b64_group_def numeral_3_eq_3 numeral_2_eq_2)
next
  case (4 a b c r)
  define n where "n = ((of_char a :: nat) * 256 + of_char b) * 256 + of_char c"
  have lt: "(of_char a :: nat) < 256" "(of_char b :: nat) < 256" "(of_char c :: nat) < 256" by (rule of_char_lt)+
  define q where "q = (of_char a :: nat) * 256 + of_char b"
  have "q < 65536" unfolding q_def using lt by linarith
  then have "q * 256 + of_char c < 16777216" using lt(3) by linarith
  then have n: "n < 64 * 64 * 64 * 64" by (simp add: n_def q_def)
  have "b64_bytes n = [a, b, c]" unfolding n_def by (rule b64_bytes_of)
  then show ?case
    using b64_number_group(4) [OF n] 4
    unfolding b64encode.simps n_def [symmetric] by (simp add: b64_group_def)
qed simp


section \<open>Signing and verifying\<close>

lemma json_bytes_Inr [result_simps]: "json_bytes v = Inr b \<longleftrightarrow> all_finite v \<and> b = dumps v"
  by (auto simp: json_bytes_def result_simps)

lemma json_bytes_canon [simp]: "json_bytes (canon v) = json_bytes v"
  by (simp add: json_bytes_def all_finite_canon dumps_canon)

lemma finite_record [simp]: "all_finite (if c then v else canon v) = all_finite v"
  "json_bytes (if c then v else canon v) = json_bytes v"
  by (simp_all add: all_finite_canon)

text \<open>What an accepted receipt shows about its principal.\<close>

lemma origin_verify_pins:
  assumes "origin_verify ed receipt principals authority"
  shows "\<exists>p r. map_of receipt ''principal'' \<noteq> None
    \<and> map_of principals (str_of (the (map_of receipt ''principal''))) = Some p
    \<and> map_of receipt ''organization'' = Some (PStr (pr_organization p))
    \<and> map_of receipt ''authority'' = Some (PStr (pr_authority p))
    \<and> (authority = None \<or> authority = Some (pr_authority p))
    \<and> dget_or receipt ''algorithm'' (PStr ''hmac-sha256'') = PStr (pr_algorithm p)
    \<and> origin_signature_valid ed receipt p = Inr True
    \<and> map_of receipt ''record'' = Some r \<and> all_finite r
    \<and> map_of receipt ''digest'' = Some (PStr (sha256_hex (dumps r)))"
  using assms
  unfolding origin_verify_def origin_verify_body_def origin_check_def
  by (auto simp: result_simps is_pstr_def split: sum.splits if_splits pv.splits option.splits)

text \<open>The third-party contract: what the private key signs, the pinned public key accepts.\<close>

definition ed_correct :: "ed25519 \<Rightarrow> principal \<Rightarrow> bool" where
  "ed_correct ed p \<longleftrightarrow>
     (pr_algorithm p = ''ed25519'' \<longrightarrow> (\<forall>m. ed_verify ed (pr_public_key p) (ed_sign ed (pr_key p) m) m))"

lemma origin_bind_Inr:
  assumes "origin_bind ed detached rec p = Inr receipt"
  shows "32 \<le> length (pr_key p)" "all_finite (PDict rec)" "pr_algorithm p \<in> {''ed25519'', ''hmac-sha256''}"
    "\<exists>body sig. receipt = body @ [(''signature'', PStr sig)]
      \<and> body = origin_body detached rec p (dumps (PDict rec))
          @ (if pr_algorithm p = ''ed25519'' then [(''algorithm'', PStr ''ed25519'')] else [])
      \<and> json_bytes (PDict body) = Inr (dumps (PDict body))
      \<and> sig = (if pr_algorithm p = ''ed25519'' then b64encode (ed_sign ed (pr_key p) (dumps (PDict body)))
               else hmac_hex (pr_key p) (dumps (PDict body)))"
  using assms unfolding origin_bind_def Let_def
  by (auto simp: result_simps json_bytes_def split: if_splits)

lemma origin_bind_ok:
  assumes "32 \<le> length (pr_key p)" "all_finite (PDict rec)" "pr_algorithm p \<in> {''ed25519'', ''hmac-sha256''}"
  shows "\<exists>receipt. origin_bind ed detached rec p = Inr receipt"
  using assms unfolding origin_bind_def Let_def
  by (auto simp: json_bytes_def origin_body_def all_finite_canon simp del: canon.simps)

text \<open>The verifying side may hold only the public key: the two principals need agree only on what the algorithm uses.\<close>

definition key_pair :: "ed25519 \<Rightarrow> principal \<Rightarrow> principal \<Rightarrow> bool" where
  "key_pair ed p q \<longleftrightarrow> pr_algorithm q = pr_algorithm p \<and> pr_organization q = pr_organization p \<and> pr_authority q = pr_authority p
     \<and> (if pr_algorithm p = ''ed25519'' then \<forall>m. ed_verify ed (pr_public_key q) (ed_sign ed (pr_key p) m) m else pr_key q = pr_key p)"

lemma bound_receipt_fields:
  assumes "origin_bind ed detached rec p = Inr receipt"
  shows "map_of receipt ''principal'' = Some (PStr (pr_id p))" "map_of receipt ''organization'' = Some (PStr (pr_organization p))"
    "map_of receipt ''authority'' = Some (PStr (pr_authority p))" "map_of receipt ''digest'' = Some (PStr (sha256_hex (dumps (PDict rec))))"
    "map_of receipt ''record'' = Some (if detached then PDict rec else canon (PDict rec))"
    "dget_or receipt ''algorithm'' (PStr ''hmac-sha256'') = PStr (pr_algorithm p)"
proof -
  from origin_bind_Inr(3,4) [OF assms] obtain sig where
    alg: "pr_algorithm p \<in> {''ed25519'', ''hmac-sha256''}" and
    r: "receipt = (origin_body detached rec p (dumps (PDict rec))
      @ (if pr_algorithm p = ''ed25519'' then [(''algorithm'', PStr ''ed25519'')] else [])) @ [(''signature'', PStr sig)]" by blast
  show "map_of receipt ''principal'' = Some (PStr (pr_id p))" "map_of receipt ''organization'' = Some (PStr (pr_organization p))"
    "map_of receipt ''authority'' = Some (PStr (pr_authority p))" "map_of receipt ''digest'' = Some (PStr (sha256_hex (dumps (PDict rec))))"
    "map_of receipt ''record'' = Some (if detached then PDict rec else canon (PDict rec))"
    unfolding r by (simp_all add: origin_body_def)
  show "dget_or receipt ''algorithm'' (PStr ''hmac-sha256'') = PStr (pr_algorithm p)"
    using alg unfolding r by (auto simp: dget_or_def origin_body_def)
qed

lemma bound_receipt_checks:
  assumes "origin_bind ed detached rec p = Inr receipt" "key_pair ed p q" "authority = None \<or> authority = Some (pr_authority p)"
  shows "origin_check ed receipt q authority = Inr True"
proof -
  note b = origin_bind_Inr [OF assms(1)]
  from b(4) obtain body sig where r: "receipt = body @ [(''signature'', PStr sig)]"
    "body = origin_body detached rec p (dumps (PDict rec))
      @ (if pr_algorithm p = ''ed25519'' then [(''algorithm'', PStr ''ed25519'')] else [])"
    "json_bytes (PDict body) = Inr (dumps (PDict body))"
    "sig = (if pr_algorithm p = ''ed25519'' then b64encode (ed_sign ed (pr_key p) (dumps (PDict body)))
               else hmac_hex (pr_key p) (dumps (PDict body)))"
    by blast
  have pop: "dpop receipt ''signature'' = body"
    unfolding r(1,2) by (simp add: dpop_def origin_body_def)
  have sig: "map_of receipt ''signature'' = Some (PStr sig)"
    unfolding r(1,2) by (simp add: origin_body_def)
  have valid: "origin_signature_valid ed receipt q = Inr True"
    using assms(2) r(3,4) pop sig
    by (auto simp: origin_signature_valid_def key_pair_def b64_roundtrip dget_def prints_as_def split: if_splits)
  have "json_bytes (if detached then PDict rec else canon (PDict rec)) = Inr (dumps (PDict rec))"
    using b(2) by (simp only: finite_record) (simp add: json_bytes_def)
  then show ?thesis
    using assms(2,3) valid bound_receipt_fields [OF assms(1)]
    by (auto simp: origin_check_def is_pstr_def dget_def key_pair_def)
qed

lemma bound_receipt_verifies:
  assumes "origin_bind ed detached rec p = Inr receipt" "ed_correct ed p" "map_of principals (pr_id p) = Some p"
    and "authority = None \<or> authority = Some (pr_authority p)"
  shows "origin_verify ed receipt principals authority"
proof -
  have "key_pair ed p p" using assms(2) by (simp add: key_pair_def ed_correct_def)
  from bound_receipt_checks [OF assms(1) this assms(4)] assms(3) bound_receipt_fields(1) [OF assms(1)] show ?thesis
    by (simp add: origin_verify_def origin_verify_body_def dget_def)
qed

text \<open>A signature authenticates one envelope: equal HMACs come from equal bytes unless they collide.\<close>

lemma hmac_signature_binds:
  assumes "origin_signature_valid ed r p = Inr True" "origin_signature_valid ed s p = Inr True"
    and "pr_algorithm p \<noteq> ''ed25519''" "map_of r ''signature'' = Some (PStr sig)" "map_of s ''signature'' = Some (PStr sig)"
    and "wf_pv (PDict (dpop r ''signature''))" "wf_pv (PDict (dpop s ''signature''))"
    and "inj_on (hmac_sha256 (pr_key p)) {dumps (PDict (dpop r ''signature'')), dumps (PDict (dpop s ''signature''))}"
  shows "canon (PDict (dpop r ''signature'')) = canon (PDict (dpop s ''signature''))"
proof -
  let ?r = "PDict (dpop r ''signature'')" and ?s = "PDict (dpop s ''signature'')"
  from assms(1-5) have f: "all_finite ?r" "all_finite ?s" "hmac_hex (pr_key p) (dumps ?r) = hmac_hex (pr_key p) (dumps ?s)"
    by (auto simp: origin_signature_valid_def Let_def result_simps prints_as_def)
  then have "hmac_sha256 (pr_key p) (dumps ?r) = hmac_sha256 (pr_key p) (dumps ?s)" by (simp add: hmac_hex_def)
  with assms(8) have "dumps ?r = dumps ?s" by (rule inj_onD) simp_all
  then show ?thesis using dumps_eq_iff [OF assms(6) f(1) assms(7) f(2)] by simp
qed

section \<open>Corroboration\<close>

definition vouches :: "ed25519 \<Rightarrow> (string \<times> principal) list \<Rightarrow> string \<Rightarrow> (string \<times> pv) list \<Rightarrow> bool" where
  "vouches ed principals dig r \<longleftrightarrow> map_of r ''digest'' = Some (PStr dig) \<and> origin_verify ed r principals None"

lemma vouches_filter:
  "is_pstr (dget_or r ''digest'' PNone) dig \<and> origin_verify ed r principals None \<longleftrightarrow> vouches ed principals dig r"
  by (auto simp: vouches_def is_pstr_def dget_or_def split: option.splits)

lemma corroboration_card:
  "corroboration ed receipts principals dig
     = card ((\<lambda>r. str_of (dget_or r ''organization'' PNone)) ` {r \<in> set receipts. vouches ed principals dig r})"
  unfolding corroboration_def vouches_filter by (simp add: length_remdups_card_conv)

lemma vouching_organization:
  assumes "vouches ed principals dig r"
  shows "str_of (dget_or r ''organization'' PNone) \<in> pr_organization ` snd ` set principals"
proof -
  from assms have "origin_verify ed r principals None" by (simp add: vouches_def)
  from origin_verify_pins [OF this] obtain p where
    "map_of principals (str_of (the (map_of r ''principal''))) = Some p" "map_of r ''organization'' = Some (PStr (pr_organization p))"
    by blast
  then show ?thesis by (force simp: dget_or_def dest: map_of_SomeD)
qed

section \<open>Properties\<close>

text \<open>
  Binding then verifying round trips: with a key of at least 32 bytes, finite data and a
  supported algorithm, \<open>bind\<close> returns a receipt, and \<open>verify\<close> accepts it for a configuration that
  lists the principal, with or without a required authority, for HMAC and for Ed25519 alike.
\<close>

theorem bind_verify_roundtrip:
  assumes "32 \<le> length (pr_key p)" "all_finite (PDict rec)" "pr_algorithm p \<in> {''ed25519'', ''hmac-sha256''}"
    and "ed_correct ed p" "map_of principals (pr_id p) = Some p"
    and "authority = None \<or> authority = Some (pr_authority p)"
  shows "\<exists>receipt. origin_bind ed detached rec p = Inr receipt \<and> origin_verify ed receipt principals authority"
  using origin_bind_ok [OF assms(1-3)] bound_receipt_verifies [OF _ assms(4-6)] by blast

definition sample_principal :: "string \<Rightarrow> principal" where
  "sample_principal alg = \<lparr>pr_id = ''alice'', pr_organization = ''acme'', pr_authority = ''user'',
     pr_key = replicate 32 (CHR ''k''), pr_algorithm = alg, pr_public_key = []\<rparr>"

text \<open>A concrete package for instances: a signature is the message, and verification compares.\<close>

definition echo_ed25519 :: ed25519 where
  "echo_ed25519 = \<lparr>ed_sign = (\<lambda>key m. m), ed_verify = (\<lambda>public sig m. sig = m)\<rparr>"

theorem bind_verify_roundtrip_witness:
  "\<exists>receipt. origin_bind echo_ed25519 True [(''id'', PStr ''f1'')] (sample_principal ''ed25519'') = Inr receipt
    \<and> origin_verify echo_ed25519 receipt [(''alice'', sample_principal ''ed25519'')] (Some ''user'')"
  by (rule bind_verify_roundtrip) (simp_all add: sample_principal_def ed_correct_def echo_ed25519_def)



text \<open>
  Corroboration cannot be inflated: the count is the number of distinct organizations that
  vouch for the digest, each of them an organization of a configured principal, so it depends
  only on the set of receipts and never exceeds the number of configured organizations, however
  many receipts or self-created identities are presented.
\<close>

theorem corroboration_counts_organizations:
  "corroboration ed receipts principals dig
     = card ((\<lambda>r. str_of (dget_or r ''organization'' PNone)) ` {r \<in> set receipts. vouches ed principals dig r})
   \<and> (\<lambda>r. str_of (dget_or r ''organization'' PNone)) ` {r \<in> set receipts. vouches ed principals dig r}
       \<subseteq> pr_organization ` snd ` set principals
   \<and> corroboration ed receipts principals dig \<le> card (pr_organization ` snd ` set principals)"
proof -
  let ?orgs = "(\<lambda>r. str_of (dget_or r ''organization'' PNone)) ` {r \<in> set receipts. vouches ed principals dig r}"
  have sub: "?orgs \<subseteq> pr_organization ` snd ` set principals" using vouching_organization by blast
  then have "card ?orgs \<le> card (pr_organization ` snd ` set principals)" by (rule card_mono [rotated]) simp
  with sub show ?thesis by (simp add: corroboration_card)
qed

end
