(* ===== verification/Capabilities.thy ===== *)
theory Capabilities
  imports Origin
begin

text \<open>
  Attenuating capabilities, \<^verbatim>\<open>unimem/capabilities.py\<close>: caveats in normal form, the relation
  \<open>subset\<close> that a delegation must respect, tokens as chains of signed links, the request proofs
  of possession. Instants are integers (microseconds, UTC); reading and printing ISO texts is
  \<^verbatim>\<open>datetime\<close>'s, the parameter \<open>clock\<close>. The lemmas show that verification accepts a chain only
  if every link narrows the one before, so that a leaf permits nothing that an ancestor does
  not, and that tokens granted, attenuated and proved by their holders are accepted.
\<close>

section \<open>Labels and instants\<close>

text \<open>The encodings of the characters \<^verbatim>\<open>str.strip\<close> removes.\<close>

definition utf8_3 :: "nat \<Rightarrow> string" where
  "utf8_3 n = [char_of (224 + n div 4096), char_of (128 + n div 64 mod 64), char_of (128 + n mod 64)]"

definition py_spaces :: "string list" where
  "py_spaces = map (\<lambda>n. [char_of n]) [9 :: nat, 10, 11, 12, 13, 28, 29, 30, 31, 32]
     @ map (\<lambda>n. [char_of (194 :: nat), char_of n]) [133 :: nat, 160]
     @ map utf8_3 [5760, 8192, 8193, 8194, 8195, 8196, 8197, 8198, 8199, 8200, 8201, 8202, 8232, 8233, 8239, 8287, 12288]"

definition stripped :: "string \<Rightarrow> bool" where
  "stripped s \<longleftrightarrow> list_all (\<lambda>w. take (length w) s \<noteq> w \<and> drop (length s - length w) s \<noteq> w) py_spaces"

definition printable :: "char \<Rightarrow> bool" where
  "printable c \<longleftrightarrow> 32 \<le> (of_char c :: nat) \<and> (of_char c :: nat) \<noteq> 127"

definition cap_label :: "pv \<Rightarrow> string result" where
  "cap_label value =
     bind_r (fp_text value 256) (\<lambda>label.
       guard_r (stripped label \<and> list_all printable label \<and> CHR ''*'' \<notin> set label) ValueError (Inr label))"

text \<open>
  \<open>parse_iso\<close> gives the instant an ISO text with a time zone denotes, \<open>None\<close> where
  \<^verbatim>\<open>datetime.fromisoformat\<close> raises or there is no zone; \<open>print_iso\<close> is \<^verbatim>\<open>isoformat\<close> in UTC.
  Instants that the zone shifts outside the years 1 to 9999, where \<^verbatim>\<open>astimezone\<close> raises, are outside the model.
\<close>

record clock =
  parse_iso :: "string \<Rightarrow> int option"
  print_iso :: "int \<Rightarrow> string"

definition fp_moment :: "clock \<Rightarrow> pv \<Rightarrow> string result" where
  "fp_moment clk value =
     bind_r (fp_text value 64) (\<lambda>s.
       case parse_iso clk s of None \<Rightarrow> Inl ValueError | Some t \<Rightarrow> Inr (print_iso clk t))"

definition cap_moment :: "clock \<Rightarrow> pv \<Rightarrow> int result" where
  "cap_moment clk value =
     bind_r (fp_moment clk value) (\<lambda>s.
       case parse_iso clk s of None \<Rightarrow> Inl ValueError | Some t \<Rightarrow> Inr t)"

definition SECOND :: int where "SECOND = 1000000"
definition DAY :: int where "DAY = 86400 * SECOND"

section \<open>Caveats\<close>

definition OPERATIONS :: "string list" where
  "OPERATIONS = [''read'', ''write'', ''forget'', ''export'']"

definition ALGORITHMS :: "string list" where
  "ALGORITHMS = [''hmac-sha256'', ''ed25519'']"

definition SET_FIELDS :: "string list" where
  "SET_FIELDS = [''namespaces'', ''operations'', ''classes'', ''purposes'', ''labels'', ''delegates'']"

definition FIELDS :: "string list" where
  "FIELDS = SET_FIELDS @ [''ceiling'', ''audience'', ''expires_at'']"

text \<open>Caveats in normal form; the dictionary \<open>policy\<close> returns is \<open>rules_dict\<close>.\<close>

record rules =
  rl_sets :: "(string \<times> string list) list"
  rl_ceiling :: int
  rl_audience :: string
  rl_expires :: string

definition rules_dict :: "rules \<Rightarrow> pv" where
  "rules_dict r = PDict (map (\<lambda>(f, ls). (f, PList (map PStr ls))) (rl_sets r)
     @ [(''ceiling'', PInt (rl_ceiling r)), (''audience'', PStr (rl_audience r)), (''expires_at'', PStr (rl_expires r))])"

definition rl_set :: "rules \<Rightarrow> string \<Rightarrow> string list" where
  "rl_set r f = (case map_of (rl_sets r) f of None \<Rightarrow> [] | Some ls \<Rightarrow> ls)"

definition policy_field :: "(string \<times> pv) list \<Rightarrow> string \<Rightarrow> (string \<times> string list) result" where
  "policy_field d field =
     bind_r (dget d field) (\<lambda>items.
       case items of
         PList xs \<Rightarrow>
           guard_r (\<not> 128 < length xs \<and> (xs \<noteq> [] \<or> field \<in> {''labels'', ''delegates''})) ValueError
             (bind_r (map_r cap_label xs) (\<lambda>labels.
                let cleaned = sorted_set labels in
                guard_r (length cleaned = length xs) ValueError (Inr (field, cleaned))))
       | _ \<Rightarrow> Inl ValueError)"

definition policy :: "clock \<Rightarrow> pv \<Rightarrow> rules result" where
  "policy clk value =
     (case value of
        PDict d \<Rightarrow>
          guard_r (keys_are d FIELDS) ValueError
            (bind_r (map_r (policy_field d) SET_FIELDS) (\<lambda>sets.
             guard_r (set (the (map_of sets ''operations'')) \<subseteq> set OPERATIONS) ValueError
               (bind_r (dget d ''ceiling'') (\<lambda>c. bind_r (fp_count c 0 3) (\<lambda>ceiling.
                bind_r (dget d ''audience'') (\<lambda>a. bind_r (cap_label a) (\<lambda>audience.
                bind_r (dget d ''expires_at'') (\<lambda>e. bind_r (cap_moment clk e) (\<lambda>t.
                  Inr \<lparr>rl_sets = sets, rl_ceiling = ceiling, rl_audience = audience, rl_expires = print_iso clk t\<rparr>)))))))))
      | _ \<Rightarrow> Inl ValueError)"

definition cap_subset :: "clock \<Rightarrow> pv \<Rightarrow> pv \<Rightarrow> unit result" where
  "cap_subset clk parent child =
     bind_r (policy clk parent) (\<lambda>before. bind_r (policy clk child) (\<lambda>after.
       guard_r (list_all (\<lambda>f. set (rl_set after f) \<subseteq> set (rl_set before f)) SET_FIELDS) PermissionError
         (bind_r (cap_moment clk (PStr (rl_expires after))) (\<lambda>ea.
          bind_r (cap_moment clk (PStr (rl_expires before))) (\<lambda>eb.
            guard_r (\<not> (rl_ceiling after > rl_ceiling before \<or> ea > eb)) PermissionError
              (guard_r (rl_audience after = rl_audience before \<or> rl_audience after \<in> set (rl_set before ''delegates''))
                 PermissionError (Inr ())))))))"

section \<open>Signatures\<close>

definition cap_bytes :: "string \<Rightarrow> (string \<times> pv) list \<Rightarrow> string result" where
  "cap_bytes domain rec = bind_r (wire (PDict rec)) (\<lambda>b. Inr (domain @ NUL # b))"

definition cap_sign :: "ed25519 \<Rightarrow> string \<Rightarrow> string \<Rightarrow> string \<Rightarrow> string result" where
  "cap_sign ed algorithm key data =
     guard_r (algorithm \<in> set ALGORITHMS \<and> length key = 32) ValueError
       (Inr (if algorithm = ''hmac-sha256'' then hmac_hex key data else hex (ed_sign ed key data)))"

text \<open>\<^verbatim>\<open>bytes.fromhex\<close>: digits of either case, ASCII white space between bytes.\<close>

definition hex_value :: "char \<Rightarrow> nat option" where
  "hex_value c = (let n = (of_char c :: nat) in
     if 48 \<le> n \<and> n < 58 then Some (n - 48)
     else if 97 \<le> n \<and> n < 103 then Some (n - 87)
     else if 65 \<le> n \<and> n < 71 then Some (n - 55) else None)"

fun fromhex :: "string \<Rightarrow> string option" where
  "fromhex [] = Some []"
| "fromhex (c # cs) =
     (if (of_char c :: nat) \<in> {9, 10, 11, 12, 13, 32} then fromhex cs
      else case cs of
             [] \<Rightarrow> None
           | d # ds \<Rightarrow>
               (case (hex_value c, hex_value d, fromhex ds) of
                  (Some x, Some y, Some bs) \<Rightarrow> Some (char_of (16 * x + y) # bs)
                | _ \<Rightarrow> None))"

definition fromhex_value :: "pv \<Rightarrow> string result" where
  "fromhex_value v = (case v of
     PStr s \<Rightarrow> (case fromhex s of None \<Rightarrow> Inl ValueError | Some b \<Rightarrow> Inr b)
   | _ \<Rightarrow> Inl TypeError)"

text \<open>\<^verbatim>\<open>hmac.compare_digest\<close> raises TypeError on a text that is not ASCII.\<close>

definition cap_verify_sig :: "ed25519 \<Rightarrow> string \<Rightarrow> string \<Rightarrow> string \<Rightarrow> pv \<Rightarrow> unit result" where
  "cap_verify_sig ed algorithm key data signature =
     (case signature of
        PStr s \<Rightarrow>
          guard_r (algorithm \<in> set ALGORITHMS \<and> length key = 32) PermissionError
            (if algorithm = ''hmac-sha256'' then
               guard_r (py_len s = 64) PermissionError
                 (bind_r (cap_sign ed algorithm key data) (\<lambda>expected.
                    guard_r (list_all (\<lambda>c. (of_char c :: nat) < 128) s) TypeError
                      (guard_r (expected = s) PermissionError (Inr ()))))
             else
               (case fromhex s of
                  None \<Rightarrow> Inl PermissionError
                | Some b \<Rightarrow> guard_r (ed_verify ed key b data) PermissionError (Inr ())))
      | _ \<Rightarrow> Inl PermissionError)"

section \<open>Tokens\<close>

text \<open>\<^verbatim>\<open>v in frozenset\<close>: an unhashable value raises TypeError.\<close>

definition member_of :: "pv \<Rightarrow> string list \<Rightarrow> bool result" where
  "member_of v S = (case v of PStr s \<Rightarrow> Inr (s \<in> set S) | PList _ \<Rightarrow> Inl TypeError | PDict _ \<Rightarrow> Inl TypeError | _ \<Rightarrow> Inr False)"

type_synonym node = "(string \<times> pv) list"

definition token_node :: "pv \<Rightarrow> node result" where
  "token_node v = (case v of
     PDict node \<Rightarrow>
       guard_r (keys_are node [''record'', ''signature'', ''authorization'']) ValueError
         (bind_r (dget node ''record'') (\<lambda>r. guard_r (is_dict r) ValueError (Inr node)))
   | _ \<Rightarrow> Inl ValueError)"

definition cap_token :: "pv \<Rightarrow> node list result" where
  "cap_token token =
     (case token of
        PDict t \<Rightarrow>
          guard_r (keys_are t [''version'', ''algorithm'', ''links'']) ValueError
            (bind_r (dget t ''version'') (\<lambda>v. bind_r (dget t ''algorithm'') (\<lambda>a.
             guard_r (v = PInt 1) ValueError
               (bind_r (member_of a ALGORITHMS) (\<lambda>known. guard_r known ValueError
                 (bind_r (dget t ''links'') (\<lambda>links.
                   case links of
                     PList ns \<Rightarrow>
                       guard_r (1 \<le> length ns \<and> length ns \<le> 16) ValueError
                         (bind_r (wire token) (\<lambda>b. guard_r (\<not> 65536 < length b) ValueError (map_r token_node ns)))
                   | _ \<Rightarrow> Inl ValueError)))))))
      | _ \<Rightarrow> Inl ValueError)"

definition node_record :: "node \<Rightarrow> (string \<times> pv) list" where
  "node_record node = dict_of (dget_or node ''record'' PNone)"

definition make_token :: "string \<Rightarrow> node list \<Rightarrow> pv" where
  "make_token algorithm links =
     PDict [(''version'', PInt 1), (''algorithm'', PStr algorithm), (''links'', PList (map PDict links))]"

definition cap_prefix :: "string \<Rightarrow> node list \<Rightarrow> nat \<Rightarrow> pv" where
  "cap_prefix algorithm links n = make_token algorithm (take n links)"

definition make_node :: "(string \<times> pv) list \<Rightarrow> string \<Rightarrow> string \<Rightarrow> node" where
  "make_node rec signature authorization =
     [(''record'', PDict rec), (''signature'', PStr signature), (''authorization'', PStr authorization)]"

definition ROOT_DOMAIN :: string where "ROOT_DOMAIN = ''unimem.capability.root.v1''"
definition CHILD_DOMAIN :: string where "CHILD_DOMAIN = ''unimem.capability.child.v1''"
definition HOLDER_DOMAIN :: string where "HOLDER_DOMAIN = ''unimem.capability.parent-holder.v1''"
definition POSSESSION_DOMAIN :: string where "POSSESSION_DOMAIN = ''unimem.capability.possession.v1''"

definition cap_grant ::
  "ed25519 \<Rightarrow> clock \<Rightarrow> pv \<Rightarrow> pv \<Rightarrow> pv \<Rightarrow> pv \<Rightarrow> pv \<Rightarrow> string \<Rightarrow> string \<Rightarrow> pv result" where
  "cap_grant ed clk caveats issuer tenant nonce now algorithm key =
     bind_r (policy clk caveats) (\<lambda>r.
     bind_r (cap_moment clk now) (\<lambda>issued.
     bind_r (cap_moment clk (PStr (rl_expires r))) (\<lambda>expiry.
     guard_r (issued < expiry \<and> expiry \<le> issued + 7 * DAY) ValueError
       (bind_r (cap_label issuer) (\<lambda>i. bind_r (cap_label tenant) (\<lambda>t. bind_r (cap_label nonce) (\<lambda>n.
          let rec = [(''type'', PStr ROOT_DOMAIN), (''issuer'', PStr i), (''tenant'', PStr t), (''nonce'', PStr n),
                     (''issued_at'', PStr (print_iso clk issued)), (''caveats'', rules_dict r)] in
          bind_r (cap_bytes ROOT_DOMAIN rec) (\<lambda>data.
          bind_r (cap_sign ed algorithm key data) (\<lambda>signature.
            Inr (make_token algorithm [make_node rec signature []]))))))))))"

definition cap_attenuate :: "ed25519 \<Rightarrow> clock \<Rightarrow> pv \<Rightarrow> pv \<Rightarrow> string \<Rightarrow> pv result" where
  "cap_attenuate ed clk token caveats key =
     bind_r (cap_token token) (\<lambda>links.
     guard_r (\<not> 16 \<le> length links) ValueError
       (bind_r (policy clk caveats) (\<lambda>r.
        bind_r (dget (node_record (last links)) ''caveats'') (\<lambda>parent.
        bind_r (cap_subset clk parent (rules_dict r)) (\<lambda>_.
        bind_r (digest token) (\<lambda>d.
          let rec = [(''type'', PStr CHILD_DOMAIN), (''parent'', PStr d), (''caveats'', rules_dict r)];
              algorithm = str_of (dget_or (dict_of token) ''algorithm'' PNone) in
          bind_r (cap_bytes CHILD_DOMAIN rec) (\<lambda>data.
          bind_r (if algorithm = ''hmac-sha256'' then
                    bind_r (dget (last links) ''signature'') (\<lambda>s.
                    bind_r (fromhex_value s) (\<lambda>parent_key.
                    bind_r (cap_sign ed ''hmac-sha256'' parent_key data) (\<lambda>signature.
                    bind_r (cap_bytes HOLDER_DOMAIN [(''record'', PDict rec), (''signature'', PStr signature)]) (\<lambda>held.
                    bind_r (cap_sign ed ''hmac-sha256'' key held) (\<lambda>authorization.
                      Inr (signature, authorization))))))
                  else bind_r (cap_sign ed ''ed25519'' key data) (\<lambda>signature. Inr (signature, [])))
            (\<lambda>(signature, authorization).
              let result = PDict (dset (dict_of token) ''links''
                    (PList (map PDict (links @ [make_node rec signature authorization])))) in
              bind_r (cap_token result) (\<lambda>_. Inr result)))))))))"


section \<open>Verification\<close>

definition link_rules :: "clock \<Rightarrow> node \<Rightarrow> rules result" where
  "link_rules clk node = bind_r (dget (node_record node) ''caveats'') (policy clk)"

text \<open>The child branch of the loop over the links.\<close>

definition check_child ::
  "ed25519 \<Rightarrow> clock \<Rightarrow> string \<Rightarrow> (string \<Rightarrow> string result) \<Rightarrow> node list \<Rightarrow> nat \<Rightarrow> rules \<Rightarrow> unit result" where
  "check_child ed clk algorithm holder_key links index current =
     (let node = links ! index; rec = node_record node in
      guard_r (keys_are rec [''type'', ''parent'', ''caveats''] \<and> dget_or rec ''type'' PNone = PStr CHILD_DOMAIN) ValueError
        (bind_r (digest (cap_prefix algorithm links index)) (\<lambda>d.
         guard_r (dget_or rec ''parent'' PNone = PStr d) PermissionError
           (bind_r (link_rules clk (links ! (index - 1))) (\<lambda>parent.
            bind_r (cap_subset clk (rules_dict parent) (rules_dict current)) (\<lambda>_.
            bind_r (cap_bytes CHILD_DOMAIN rec) (\<lambda>data.
            bind_r (holder_key (rl_audience parent)) (\<lambda>holder.
              if algorithm = ''hmac-sha256'' then
                bind_r (dget (links ! (index - 1)) ''signature'') (\<lambda>ps.
                bind_r (fromhex_value ps) (\<lambda>parent_key.
                bind_r (dget node ''signature'') (\<lambda>s.
                bind_r (cap_verify_sig ed algorithm parent_key data s) (\<lambda>_.
                bind_r (cap_bytes HOLDER_DOMAIN [(''record'', PDict rec), (''signature'', s)]) (\<lambda>held.
                bind_r (dget node ''authorization'') (\<lambda>a. cap_verify_sig ed algorithm holder held a))))))
              else
                bind_r (dget node ''authorization'') (\<lambda>a. guard_r (a = PStr []) ValueError
                  (bind_r (dget node ''signature'') (\<lambda>s. cap_verify_sig ed algorithm holder data s)))))))))))"

definition check_link ::
  "ed25519 \<Rightarrow> clock \<Rightarrow> string \<Rightarrow> (string \<Rightarrow> string result) \<Rightarrow> int \<Rightarrow> string list \<Rightarrow> node list \<Rightarrow> nat \<Rightarrow> string result" where
  "check_link ed clk algorithm holder_key stamp revoked links index =
     bind_r (link_rules clk (links ! index)) (\<lambda>current.
     bind_r (cap_moment clk (PStr (rl_expires current))) (\<lambda>expiry.
     guard_r (\<not> expiry \<le> stamp) PermissionError
       (bind_r (if index = 0 then Inr () else check_child ed clk algorithm holder_key links index current) (\<lambda>_.
        bind_r (digest (cap_prefix algorithm links (index + 1))) (\<lambda>chain_id.
          guard_r (chain_id \<notin> set revoked) PermissionError (Inr chain_id))))))"

definition check_root ::
  "ed25519 \<Rightarrow> clock \<Rightarrow> string \<Rightarrow> string \<Rightarrow> string \<Rightarrow> string \<Rightarrow> pv \<Rightarrow> node \<Rightarrow> int result" where
  "check_root ed clk issuer tenant algorithm key now node =
     (let root = node_record node in
      guard_r (keys_are root [''type'', ''issuer'', ''tenant'', ''nonce'', ''issued_at'', ''caveats'']
          \<and> dget_or root ''type'' PNone = PStr ROOT_DOMAIN \<and> dget_or root ''issuer'' PNone = PStr issuer
          \<and> dget_or root ''tenant'' PNone = PStr tenant) PermissionError
        (bind_r (dget root ''issued_at'') (\<lambda>i. bind_r (cap_moment clk i) (\<lambda>issued.
         bind_r (cap_moment clk now) (\<lambda>stamp.
         bind_r (link_rules clk node) (\<lambda>root_policy.
         bind_r (cap_moment clk (PStr (rl_expires root_policy))) (\<lambda>expiry.
         guard_r (\<not> (issued > stamp \<or> \<not> (issued < expiry \<and> expiry \<le> issued + 7 * DAY))) PermissionError
           (bind_r (dget root ''nonce'') (\<lambda>n. bind_r (cap_label n) (\<lambda>_.
            bind_r (dget node ''authorization'') (\<lambda>a. guard_r (a = PStr []) ValueError
              (bind_r (cap_bytes ROOT_DOMAIN root) (\<lambda>data.
               bind_r (dget node ''signature'') (\<lambda>s.
               bind_r (cap_verify_sig ed algorithm key data s) (\<lambda>_. Inr stamp)))))))))))))))"

record verified =
  vf_tenant :: string
  vf_issuer :: string
  vf_caveats :: rules
  vf_chain_ids :: "string list"
  vf_chain_digest :: string

definition cap_verify ::
  "ed25519 \<Rightarrow> clock \<Rightarrow> pv \<Rightarrow> string \<Rightarrow> string \<Rightarrow> string \<Rightarrow> string \<Rightarrow> (string \<Rightarrow> string result) \<Rightarrow> pv \<Rightarrow> string list \<Rightarrow> verified result" where
  "cap_verify ed clk token issuer tenant algorithm key holder_key now revoked =
     bind_r (cap_token token) (\<lambda>links.
     guard_r (dget_or (dict_of token) ''algorithm'' PNone = PStr algorithm) PermissionError
       (bind_r (check_root ed clk issuer tenant algorithm key now (links ! 0)) (\<lambda>stamp.
        bind_r (map_r (check_link ed clk algorithm holder_key stamp revoked links) [0..<length links]) (\<lambda>chain_ids.
        bind_r (link_rules clk (last links)) (\<lambda>leaf.
        bind_r (digest token) (\<lambda>d.
          Inr \<lparr>vf_tenant = tenant, vf_issuer = issuer, vf_caveats = leaf, vf_chain_ids = chain_ids, vf_chain_digest = d\<rparr>))))))"

definition rules_permit :: "rules \<Rightarrow> string \<Rightarrow> string \<Rightarrow> string \<Rightarrow> string \<Rightarrow> string list \<Rightarrow> bool" where
  "rules_permit r namespace operation memory_class purpose labels \<longleftrightarrow>
     namespace \<in> set (rl_set r ''namespaces'') \<and> operation \<in> set (rl_set r ''operations'')
     \<and> memory_class \<in> set (rl_set r ''classes'') \<and> purpose \<in> set (rl_set r ''purposes'')
     \<and> set labels \<subseteq> set (rl_set r ''labels'')"

definition cap_permits :: "clock \<Rightarrow> pv \<Rightarrow> string \<Rightarrow> string \<Rightarrow> string \<Rightarrow> string \<Rightarrow> string list \<Rightarrow> bool result" where
  "cap_permits clk caveats namespace operation memory_class purpose labels =
     bind_r (policy clk caveats) (\<lambda>r. Inr (rules_permit r namespace operation memory_class purpose labels))"

section \<open>Proofs of possession\<close>

definition request_digest :: "pv \<Rightarrow> pv \<Rightarrow> string \<Rightarrow> pv \<Rightarrow> string result" where
  "request_digest method target raw purpose =
     bind_r (cap_label method) (\<lambda>m. bind_r (fp_text target 8192) (\<lambda>t. bind_r (cap_label purpose) (\<lambda>p.
       digest (PDict [(''method'', PStr m), (''target'', PStr t), (''body_sha256'', PStr (sha256_hex raw)), (''purpose'', PStr p)]))))"

definition cap_prove ::
  "ed25519 \<Rightarrow> clock \<Rightarrow> pv \<Rightarrow> string \<Rightarrow> string \<Rightarrow> pv \<Rightarrow> pv \<Rightarrow> pv \<Rightarrow> pv \<Rightarrow> pv \<Rightarrow> pv result" where
  "cap_prove ed clk token key algorithm audience tenant request nonce now =
     bind_r (cap_token token) (\<lambda>_. bind_r (cap_moment clk now) (\<lambda>issued. bind_r (digest token) (\<lambda>d.
     bind_r (cap_label audience) (\<lambda>a. bind_r (cap_label tenant) (\<lambda>t. bind_r (cap_label request) (\<lambda>q. bind_r (cap_label nonce) (\<lambda>n.
       let rec = [(''type'', PStr POSSESSION_DOMAIN), (''chain_digest'', PStr d), (''audience'', PStr a), (''tenant'', PStr t),
                  (''request_digest'', PStr q), (''nonce'', PStr n), (''issued_at'', PStr (print_iso clk issued)),
                  (''expires_at'', PStr (print_iso clk (issued + 30 * SECOND)))] in
       bind_r (cap_bytes POSSESSION_DOMAIN rec) (\<lambda>data.
       bind_r (cap_sign ed algorithm key data) (\<lambda>s.
         Inr (PDict [(''record'', PDict rec), (''signature'', PStr s)]))))))))))"

definition cap_verify_proof ::
  "ed25519 \<Rightarrow> clock \<Rightarrow> pv \<Rightarrow> verified \<Rightarrow> pv \<Rightarrow> string \<Rightarrow> string \<Rightarrow> string \<Rightarrow> pv \<Rightarrow> string result" where
  "cap_verify_proof ed clk token verified proof_value key algorithm request now =
     (case proof_value of
        PDict pd \<Rightarrow>
          guard_r (keys_are pd [''record'', ''signature'']) ValueError
            (bind_r (dget pd ''record'') (\<lambda>r. case r of
               PDict rec \<Rightarrow> (
                 guard_r (keys_are rec [''type'', ''chain_digest'', ''audience'', ''tenant'', ''request_digest'', ''nonce'', ''issued_at'', ''expires_at'']) ValueError
                   (bind_r (wire proof_value) (\<lambda>b. guard_r (\<not> 4096 < length b) ValueError
                     (bind_r (dget rec ''issued_at'') (\<lambda>i. bind_r (cap_moment clk i) (\<lambda>issued.
                      bind_r (dget rec ''expires_at'') (\<lambda>e. bind_r (cap_moment clk e) (\<lambda>expiry.
                      bind_r (cap_moment clk now) (\<lambda>stamp.
                      guard_r (dget_or rec ''type'' PNone = PStr POSSESSION_DOMAIN \<and> issued \<le> stamp \<and> stamp < expiry
                          \<and> \<not> expiry > issued + 30 * SECOND) PermissionError
                        (bind_r (digest token) (\<lambda>d.
                         guard_r (dget_or rec ''chain_digest'' PNone = PStr d
                             \<and> dget_or rec ''audience'' PNone = PStr (rl_audience (vf_caveats verified))
                             \<and> dget_or rec ''tenant'' PNone = PStr (vf_tenant verified)
                             \<and> dget_or rec ''request_digest'' PNone = PStr request) PermissionError
                           (bind_r (cap_bytes POSSESSION_DOMAIN rec) (\<lambda>data.
                            bind_r (dget pd ''signature'') (\<lambda>s.
                            bind_r (cap_verify_sig ed algorithm key data s) (\<lambda>_.
                            bind_r (dget rec ''nonce'') cap_label)))))))))))))))
             | _ \<Rightarrow> Inl ValueError))
      | _ \<Rightarrow> Inl ValueError)"

section \<open>Normal form of caveats\<close>

text \<open>What the program relies on of \<^verbatim>\<open>datetime\<close>: a printed instant is read back as itself.\<close>

definition iso_ok :: "clock \<Rightarrow> int \<Rightarrow> bool" where
  "iso_ok clk t \<longleftrightarrow> fp_text (PStr (print_iso clk t)) 64 = Inr (print_iso clk t) \<and> parse_iso clk (print_iso clk t) = Some t"

definition clock_ok :: "clock \<Rightarrow> bool" where
  "clock_ok clk \<longleftrightarrow> (\<forall>s t. parse_iso clk s = Some t \<longrightarrow> iso_ok clk t)"

lemma cap_moment_print: "iso_ok clk t \<Longrightarrow> cap_moment clk (PStr (print_iso clk t)) = Inr t"
  by (simp add: cap_moment_def fp_moment_def iso_ok_def)

lemma cap_moment_ok: "clock_ok clk \<Longrightarrow> cap_moment clk v = Inr t \<Longrightarrow> iso_ok clk t"
  by (auto simp: cap_moment_def clock_ok_def result_simps split: option.splits)

lemma cap_label_Inr [result_simps]:
  "cap_label v = Inr s \<longleftrightarrow> v = PStr s \<and> cap_label (PStr s) = Inr s"
  by (auto simp: cap_label_def result_simps)

lemma map_cap_label: "map_r cap_label xs = Inr ls \<longleftrightarrow> xs = map PStr ls \<and> list_all (\<lambda>s. cap_label (PStr s) = Inr s) ls"
proof (induction xs arbitrary: ls)
  case (Cons x xs)
  then show ?case by (cases ls) (auto simp: bind_r_Inr cap_label_Inr [of x])
qed auto

text \<open>The invariant of the caveats \<open>policy\<close> returns.\<close>

definition field_ok :: "string \<times> string list \<Rightarrow> bool" where
  "field_ok p \<longleftrightarrow> sorted_set (snd p) = snd p \<and> length (snd p) \<le> 128
     \<and> (snd p \<noteq> [] \<or> fst p \<in> {''labels'', ''delegates''}) \<and> list_all (\<lambda>s. cap_label (PStr s) = Inr s) (snd p)"

definition rules_ok :: "clock \<Rightarrow> rules \<Rightarrow> bool" where
  "rules_ok clk r \<longleftrightarrow> map fst (rl_sets r) = SET_FIELDS \<and> list_all field_ok (rl_sets r)
     \<and> set (rl_set r ''operations'') \<subseteq> set OPERATIONS \<and> 0 \<le> rl_ceiling r \<and> rl_ceiling r \<le> 3
     \<and> cap_label (PStr (rl_audience r)) = Inr (rl_audience r)
     \<and> (\<exists>t. iso_ok clk t \<and> rl_expires r = print_iso clk t)"

lemma list_all_sorted_set [simp]: "list_all P (sorted_set xs) = list_all P xs"
  by (simp add: list_all_iff)

lemma policy_field_Inr:
  assumes "policy_field d f = Inr p"
  shows "fst p = f \<and> field_ok p"
  using assms
  by (auto simp: policy_field_def Let_def bind_r_Inr guard_r_Inr dget_Inr map_cap_label field_ok_def case_PList_Inr)

lemma map_policy_field:
  "map_r (policy_field d) fs = Inr sets \<Longrightarrow> map fst sets = fs \<and> list_all field_ok sets"
proof (induction fs arbitrary: sets)
  case (Cons f fs)
  then show ?case using policy_field_Inr [of d f] by (auto simp: bind_r_Inr)
qed auto

lemma policy_rules_ok:
  assumes "clock_ok clk" "policy clk v = Inr r"
  shows "rules_ok clk r"
proof -
  from assms(2) obtain d sets c ceiling a audience e t where p:
    "v = PDict d" "map_r (policy_field d) SET_FIELDS = Inr sets"
    "set (the (map_of sets ''operations'')) \<subseteq> set OPERATIONS" "fp_count c 0 3 = Inr ceiling" "cap_label a = Inr audience"
    "cap_moment clk e = Inr t" "r = \<lparr>rl_sets = sets, rl_ceiling = ceiling, rl_audience = audience, rl_expires = print_iso clk t\<rparr>"
    by (auto simp: policy_def bind_r_Inr guard_r_Inr case_PDict_Inr)
  have s: "map fst sets = SET_FIELDS" "list_all field_ok sets" using map_policy_field [OF p(2)] by auto
  then have "map_of sets ''operations'' \<noteq> None" by (auto simp: map_of_eq_None_iff SET_FIELDS_def simp flip: set_map)
  then show ?thesis
    using p s cap_moment_ok [OF assms(1) p(6)]
    by (auto simp: rules_ok_def rl_set_def fp_count_Inr cap_label_Inr [of a])
qed

lemma policy_field_rules:
  assumes "field_ok (f, ls)" "map_of d f = Some (PList (map PStr ls))"
  shows "policy_field d f = Inr (f, ls)"
proof -
  have "map_r cap_label (map PStr ls) = Inr ls" using assms(1) by (simp add: map_cap_label field_ok_def)
  then show ?thesis using assms by (simp add: policy_field_def dget_def field_ok_def Let_def)
qed

lemma map_policy_field_rules:
  assumes "list_all field_ok sets" "distinct (map fst sets)"
    and "\<forall>p \<in> set sets. map_of d (fst p) = Some (PList (map PStr (snd p)))"
  shows "map_r (policy_field d) (map fst sets) = Inr sets"
  using assms
proof (induction sets)
  case (Cons p sets)
  then show ?case using policy_field_rules [of "fst p" "snd p" d] by simp
qed simp

lemma policy_rules_dict:
  assumes "rules_ok clk r"
  shows "policy clk (rules_dict r) = Inr r"
proof -
  let ?d = "map (\<lambda>(f, ls). (f, PList (map PStr ls))) (rl_sets r)
     @ [(''ceiling'', PInt (rl_ceiling r)), (''audience'', PStr (rl_audience r)), (''expires_at'', PStr (rl_expires r))]"
  have k: "map fst (rl_sets r) = SET_FIELDS" and ok: "list_all field_ok (rl_sets r)"
    using assms by (simp_all add: rules_ok_def)
  have fst_d: "map fst ?d = FIELDS" using k by (simp add: FIELDS_def comp_def split_def)
  then have keys: "keys_are ?d FIELDS" by (simp only: keys_are_def)
  have dist: "distinct (map fst ?d)" unfolding fst_d by (simp add: FIELDS_def SET_FIELDS_def)
  have look: "map_of ?d f = Some v" if "(f, v) \<in> set ?d" for f v
    using dist that by (rule map_of_is_SomeI)
  have "map_r (policy_field ?d) (map fst (rl_sets r)) = Inr (rl_sets r)"
  proof (rule map_policy_field_rules [OF ok])
    show "distinct (map fst (rl_sets r))" unfolding k by (simp add: SET_FIELDS_def)
    show "\<forall>p \<in> set (rl_sets r). map_of ?d (fst p) = Some (PList (map PStr (snd p)))"
      by (intro ballI look) (force simp: image_iff)
  qed
  then have sets: "map_r (policy_field ?d) SET_FIELDS = Inr (rl_sets r)" by (simp only: k)
  have ops: "map_of (rl_sets r) ''operations'' \<noteq> None"
    using k by (auto simp: map_of_eq_None_iff SET_FIELDS_def simp flip: set_map)
  have rest: "dget ?d ''ceiling'' = Inr (PInt (rl_ceiling r))" "dget ?d ''audience'' = Inr (PStr (rl_audience r))"
    "dget ?d ''expires_at'' = Inr (PStr (rl_expires r))"
    unfolding dget_Inr by (intro look; simp)+
  obtain t where t: "iso_ok clk t" "rl_expires r = print_iso clk t" using assms by (auto simp: rules_ok_def)
  show ?thesis
    unfolding policy_def rules_dict_def pv.case
    using keys sets ops rest assms t cap_moment_print [OF t(1)]
    by (auto simp: rules_ok_def rl_set_def fp_count_def)
qed

section \<open>Narrowing\<close>

definition rl_instant :: "clock \<Rightarrow> rules \<Rightarrow> int" where
  "rl_instant clk r = (case cap_moment clk (PStr (rl_expires r)) of Inr t \<Rightarrow> t | Inl _ \<Rightarrow> 0)"

definition narrows :: "clock \<Rightarrow> rules \<Rightarrow> rules \<Rightarrow> bool" where
  "narrows clk child parent \<longleftrightarrow>
     list_all (\<lambda>f. set (rl_set child f) \<subseteq> set (rl_set parent f)) SET_FIELDS
     \<and> rl_ceiling child \<le> rl_ceiling parent \<and> rl_instant clk child \<le> rl_instant clk parent"

lemma narrows_refl [simp]: "narrows clk r r"
  by (simp add: narrows_def list_all_iff)

lemma narrows_trans: "narrows clk a b \<Longrightarrow> narrows clk b c \<Longrightarrow> narrows clk a c"
  by (auto simp: narrows_def list_all_iff)

lemma narrows_permits:
  assumes "narrows clk child parent" "rules_permit child ns op cl pu ls"
  shows "rules_permit parent ns op cl pu ls"
  using assms by (auto simp: narrows_def rules_permit_def SET_FIELDS_def)

lemma rules_ok_moment: "rules_ok clk r \<Longrightarrow> cap_moment clk (PStr (rl_expires r)) = Inr (rl_instant clk r)"
  by (auto simp: rules_ok_def rl_instant_def cap_moment_print)

lemma cap_subset_iff:
  assumes "rules_ok clk parent" "rules_ok clk child"
  shows "cap_subset clk (rules_dict parent) (rules_dict child) =
    (if \<not> narrows clk child parent then Inl PermissionError
     else if rl_audience child = rl_audience parent \<or> rl_audience child \<in> set (rl_set parent ''delegates'') then Inr ()
     else Inl PermissionError)"
  using assms
  by (auto simp: cap_subset_def policy_rules_dict rules_ok_moment narrows_def guard_r_def not_less)

lemma check_child_narrows:
  assumes "check_child ed clk alg hk links i current = Inr ()" "rules_ok clk current" "clock_ok clk"
  shows "\<exists>parent. link_rules clk (links ! (i - 1)) = Inr parent \<and> narrows clk current parent
    \<and> (rl_audience current = rl_audience parent \<or> rl_audience current \<in> set (rl_set parent ''delegates''))"
proof -
  from assms(1) obtain parent u where p: "link_rules clk (links ! (i - 1)) = Inr parent"
    "cap_subset clk (rules_dict parent) (rules_dict current) = Inr u"
    unfolding check_child_def Let_def by (auto simp only: bind_r_Inr guard_r_Inr)
  have "rules_ok clk parent"
    using p(1) policy_rules_ok [OF assms(3)] by (auto simp: link_rules_def bind_r_Inr)
  from cap_subset_iff [OF this assms(2)] p show ?thesis by (auto split: if_splits)
qed

lemma check_link_Inr:
  assumes "check_link ed clk alg hk stamp revoked links i = Inr chain_id" "clock_ok clk"
  shows "\<exists>current. link_rules clk (links ! i) = Inr current \<and> rules_ok clk current
    \<and> stamp < rl_instant clk current \<and> chain_id \<notin> set revoked
    \<and> digest (cap_prefix alg links (i + 1)) = Inr chain_id
    \<and> (i = 0 \<or> check_child ed clk alg hk links i current = Inr ())"
proof -
  from assms(1) obtain current expiry where c: "link_rules clk (links ! i) = Inr current"
    "cap_moment clk (PStr (rl_expires current)) = Inr expiry" "stamp < expiry" "chain_id \<notin> set revoked"
    "digest (cap_prefix alg links (i + 1)) = Inr chain_id"
    "(if i = 0 then Inr () else check_child ed clk alg hk links i current) = Inr ()"
    unfolding check_link_def by (auto simp: bind_r_Inr guard_r_Inr not_le split: if_splits)
  have "rules_ok clk current"
    using c(1) policy_rules_ok [OF assms(2)] by (auto simp: link_rules_def bind_r_Inr)
  with c rules_ok_moment [OF this] show ?thesis by (auto split: if_splits)
qed

lemma map_r_upt: "map_r f [0..<n] = Inr ys \<longleftrightarrow> length ys = n \<and> (\<forall>i < n. f i = Inr (ys ! i))"
  by (auto simp: map_r_Inr list_all2_conv_all_nth)

lemma cap_verify_Inr:
  assumes "cap_verify ed clk token issuer tenant alg key hk now revoked = Inr v"
  obtains links stamp where "cap_token token = Inr links" "links \<noteq> []"
    "dget_or (dict_of token) ''algorithm'' PNone = PStr alg"
    "check_root ed clk issuer tenant alg key now (links ! 0) = Inr stamp"
    "length (vf_chain_ids v) = length links"
    "\<And>i. i < length links \<Longrightarrow> check_link ed clk alg hk stamp revoked links i = Inr (vf_chain_ids v ! i)"
    "link_rules clk (last links) = Inr (vf_caveats v)" "digest token = Inr (vf_chain_digest v)"
    "vf_tenant v = tenant" "vf_issuer v = issuer"
proof -
  from assms obtain links stamp where c: "cap_token token = Inr links"
    "dget_or (dict_of token) ''algorithm'' PNone = PStr alg"
    "check_root ed clk issuer tenant alg key now (links ! 0) = Inr stamp"
    "map_r (check_link ed clk alg hk stamp revoked links) [0..<length links] = Inr (vf_chain_ids v)"
    "link_rules clk (last links) = Inr (vf_caveats v)" "digest token = Inr (vf_chain_digest v)"
    "vf_tenant v = tenant" "vf_issuer v = issuer"
    unfolding cap_verify_def by (auto simp: bind_r_Inr guard_r_Inr)
  from c(1) have "links \<noteq> []"
    by (auto simp: cap_token_def bind_r_Inr guard_r_Inr case_PDict_Inr case_PList_Inr dest: map_r_length)
  with c(4) c that show thesis unfolding map_r_upt by blast
qed

interpretation caveats: narrowing "narrows clk" "\<lambda>r (ns, op, cl, pu, ls). rules_permit r ns op cl pu ls" for clk
  by unfold_locales (auto intro: narrows_trans narrows_permits)

lemma chain_narrows:
  assumes "clock_ok clk" "\<And>i. i < length links \<Longrightarrow> check_link ed clk alg hk stamp revoked links i = Inr (ids ! i)"
    and "i \<le> j" "j < length links"
  shows "\<exists>upper lower. link_rules clk (links ! i) = Inr upper
    \<and> link_rules clk (links ! j) = Inr lower \<and> narrows clk lower upper"
proof -
  have ok: "\<exists>r. link_rules clk (links ! k) = Inr r \<and> rules_ok clk r
      \<and> (k = 0 \<or> check_child ed clk alg hk links k r = Inr ())" if "k < length links" for k
    using check_link_Inr [OF assms(2) [OF that] assms(1)] by blast
  define rs where "rs = map (\<lambda>l. projr (link_rules clk l)) links"
  have rs: "link_rules clk (links ! k) = Inr (rs ! k)" if "k < length links" for k
    using ok [OF that] that by (auto simp: rs_def)
  have "narrows clk (rs ! Suc k) (rs ! k)" if "Suc k < length rs" for k
  proof -
    have k: "Suc k < length links" using that by (simp add: rs_def)
    from ok [OF k] rs [OF k] have "rules_ok clk (rs ! Suc k)" "check_child ed clk alg hk links (Suc k) (rs ! Suc k) = Inr ()" by auto
    from check_child_narrows [OF this(2,1) assms(1)] rs [of k] k show ?thesis by simp
  qed
  then have "narrows clk (rs ! j) (rs ! i)" by (rule caveats.chain_within) (use assms(3,4) in \<open>simp_all add: rs_def\<close>)
  moreover have "link_rules clk (links ! i) = Inr (rs ! i)" "link_rules clk (links ! j) = Inr (rs ! j)"
    using rs assms(3,4) by simp_all
  ultimately show ?thesis by blast
qed

lemma verified_chain:
  assumes "cap_verify ed clk token issuer tenant alg key hk now revoked = Inr v" "clock_ok clk"
    and "cap_token token = Inr links" "i < length links" "cap_moment clk now = Inr stamp"
  shows "\<exists>r. link_rules clk (links ! i) = Inr r \<and> narrows clk (vf_caveats v) r \<and> stamp < rl_instant clk r
    \<and> vf_chain_ids v ! i \<notin> set revoked \<and> digest (cap_prefix alg links (i + 1)) = Inr (vf_chain_ids v ! i)"
proof -
  from assms(1) obtain st where c: "links \<noteq> []" "check_root ed clk issuer tenant alg key now (links ! 0) = Inr st"
    "\<And>i. i < length links \<Longrightarrow> check_link ed clk alg hk st revoked links i = Inr (vf_chain_ids v ! i)"
    "link_rules clk (last links) = Inr (vf_caveats v)"
    by (rule cap_verify_Inr) (use assms(3) in auto)
  have "st = stamp" using c(2) assms(5)
    unfolding check_root_def Let_def by (auto simp only: bind_r_Inr guard_r_Inr sum.inject)
  from check_link_Inr [OF c(3) [OF assms(4)] assms(2)] obtain r where
    r: "link_rules clk (links ! i) = Inr r" "stamp < rl_instant clk r" "vf_chain_ids v ! i \<notin> set revoked"
    "digest (cap_prefix alg links (i + 1)) = Inr (vf_chain_ids v ! i)"
    unfolding \<open>st = stamp\<close> by auto
  have "length links - 1 < length links" "i \<le> length links - 1" "links ! (length links - 1) = last links"
    using assms(4) c(1) by (auto simp: last_conv_nth)
  with chain_narrows [OF assms(2) c(3), of i "length links - 1"] c(4) r show ?thesis by auto
qed

section \<open>Signatures of a key pair\<close>

text \<open>
  \<open>sig_pair ed algorithm key pub\<close>: what \<open>key\<close> signs, \<open>pub\<close> verifies. With HMAC both are the
  same secret; for Ed25519 this is the third-party contract.
\<close>

definition sig_pair :: "ed25519 \<Rightarrow> string \<Rightarrow> string \<Rightarrow> string \<Rightarrow> bool" where
  "sig_pair ed algorithm key pub \<longleftrightarrow>
     (if algorithm = ''hmac-sha256'' then pub = key
      else length pub = 32 \<and> (\<forall>m. ed_verify ed pub (ed_sign ed key m) m))"

lemma hex_value_digit: "n < 16 \<Longrightarrow> hex_value (hex_digit n) = Some n"
  by (auto simp: hex_value_def hex_digit_def Let_def of_char_of_small)

lemma hex_digit_not_space: "n < 16 \<Longrightarrow> (of_char (hex_digit n) :: nat) \<notin> {9, 10, 11, 12, 13, 32}"
  by (auto simp: hex_digit_def of_char_of_small)

lemma fromhex_hex [simp]: "fromhex (hex bs) = Some bs"
proof (induction bs)
  case (Cons b bs)
  define n :: nat where "n = of_char b"
  have "n < 256" by (simp add: n_def of_char_lt)
  then have d: "n div 16 < 16" "n mod 16 < 16" by auto
  have "hex (b # bs) = hex_digit (n div 16) # hex_digit (n mod 16) # hex bs" by (simp add: hex_def n_def)
  then show ?case
    using Cons hex_value_digit [OF d(1)] hex_value_digit [OF d(2)] hex_digit_not_space [OF d(1)]
    by (simp add: n_def)
qed (simp add: hex_def)

lemma is_hash_ascii: "is_hash s \<Longrightarrow> list_all (\<lambda>c. (of_char c :: nat) < 128) s"
  by (auto simp: is_hash_def list_all_iff is_hex_char_def Let_def)

lemma py_len_ascii: "list_all (\<lambda>c. (of_char c :: nat) < 128) s \<Longrightarrow> py_len s = length s"
  by (induction s) (auto simp: py_len_def)

lemma cap_sign_Inr:
  "cap_sign ed alg key data = Inr s \<longleftrightarrow> alg \<in> set ALGORITHMS \<and> length key = 32
     \<and> s = (if alg = ''hmac-sha256'' then hmac_hex key data else hex (ed_sign ed key data))"
  by (auto simp: cap_sign_def guard_r_Inr)

lemma own_signature_verifies:
  assumes "cap_sign ed alg key data = Inr s" "sig_pair ed alg key pub"
  shows "cap_verify_sig ed alg pub data (PStr s) = Inr ()"
proof (cases "alg = ''hmac-sha256''")
  case True
  with assms have s: "s = hmac_hex key data" "pub = key" "length key = 32" "alg \<in> set ALGORITHMS"
    by (auto simp: cap_sign_Inr sig_pair_def)
  have "is_hash s" by (simp add: s)
  then show ?thesis
    using True assms(1) s is_hash_ascii [of s] py_len_ascii [of s] is_hash_length [of s]
    by (simp add: cap_verify_sig_def)
next
  case False
  with assms show ?thesis by (auto simp: cap_sign_Inr sig_pair_def cap_verify_sig_def)
qed

section \<open>Tokens and their chains\<close>

lemma dict_set_eq:
  assumes "distinct (map fst t)" "keys_are t ks" "\<And>k. k \<in> set ks \<Longrightarrow> map_of t k = Some (f k)"
  shows "set t = (\<lambda>k. (k, f k)) ` set ks"
proof -
  have keys: "fst ` set t = set ks" using assms(2) by (simp add: keys_are_def)
  have iff: "(k, v) \<in> set t \<longleftrightarrow> map_of t k = Some v" for k v
    using map_of_eq_Some_iff [OF assms(1)] by auto
  have "(k, v) \<in> set t \<longleftrightarrow> k \<in> set ks \<and> v = f k" for k v
  proof (cases "k \<in> set ks")
    case True
    then show ?thesis using assms(3) iff by auto
  next
    case False
    then have "k \<notin> fst ` set t" by (simp only: keys not_False_eq_True)
    then show ?thesis using False by (auto simp: image_iff)
  qed
  then show ?thesis by auto
qed

lemma canon_dict_eqI:
  assumes "distinct (map fst d)" "distinct (map fst e)" "set d = set e"
  shows "canon (PDict d) = canon (PDict e)"
proof -
  have "sort_key fst d = sort_key fst e"
    by (rule map_sorted_distinct_set_unique [where f = fst])
      (use assms in \<open>auto simp: distinct_map\<close>)
  then show ?thesis by (simp only: canon_dict)
qed

lemma digest_canon: "canon v = canon w \<Longrightarrow> digest v = digest w"
  by (metis digest_def wire_canon)

lemma map_token_node:
  "map_r token_node ns = Inr links \<Longrightarrow> ns = map PDict links"
proof (induction ns arbitrary: links)
  case (Cons n ns)
  then show ?case by (auto simp: bind_r_Inr token_node_def case_PDict_Inr guard_r_Inr)
qed simp

lemma cap_token_Inr:
  assumes "cap_token token = Inr links"
  obtains t alg where "token = PDict t" "keys_are t [''version'', ''algorithm'', ''links'']"
    "map_of t ''version'' = Some (PInt 1)" "map_of t ''algorithm'' = Some (PStr alg)" "alg \<in> set ALGORITHMS"
    "map_of t ''links'' = Some (PList (map PDict links))" "1 \<le> length links"
proof -
  from assms obtain t where t: "token = PDict t" by (auto simp: cap_token_def case_PDict_Inr)
  from assms have "cap_token (PDict t) = Inr links" by (simp only: t)
  then obtain a k ns where c: "token = PDict t" "keys_are t [''version'', ''algorithm'', ''links'']"
    "map_of t ''version'' = Some (PInt 1)" "map_of t ''algorithm'' = Some a" "member_of a ALGORITHMS = Inr k \<and> k"
    "map_of t ''links'' = Some (PList ns)" "1 \<le> length ns" "map_r token_node ns = Inr links"
    using t by (auto simp only: cap_token_def pv.case guard_r_Inr bind_r_Inr dget_Inr case_PList_Inr)
  from c(5) obtain alg where "a = PStr alg" "alg \<in> set ALGORITHMS" by (cases a) (auto simp: member_of_def)
  with c map_token_node [OF c(8)] show thesis by (intro that [of t alg]) simp_all
qed

lemma token_digest:
  assumes "cap_token token = Inr links" "distinct (map fst (dict_of token))"
    and "dget_or (dict_of token) ''algorithm'' PNone = PStr alg"
  shows "digest token = digest (make_token alg links)"
proof -
  from assms(1) obtain t where t: "token = PDict t" "keys_are t [''version'', ''algorithm'', ''links'']"
    "map_of t ''version'' = Some (PInt 1)" "map_of t ''algorithm'' = Some (PStr alg)"
    "map_of t ''links'' = Some (PList (map PDict links))"
    by (rule cap_token_Inr) (use assms(3) in \<open>auto simp: dget_or_def\<close>)
  let ?f = "\<lambda>k. if k = ''version'' then PInt 1 else if k = ''algorithm'' then PStr alg else PList (map PDict links)"
  have "set t = (\<lambda>k. (k, ?f k)) ` set [''version'', ''algorithm'', ''links'']"
    by (rule dict_set_eq) (use assms(2) t in auto)
  then have "canon (PDict t) = canon (make_token alg links)"
    unfolding make_token_def using assms(2) t(1) by (intro canon_dict_eqI) auto
  then show ?thesis using t(1) by (auto intro: digest_canon)
qed

lemma check_link_append:
  assumes "i < length links"
  shows "check_link ed clk alg hk stamp revoked (links @ extra) i = check_link ed clk alg hk stamp revoked links i"
proof -
  have "take i (links @ extra) = take i links" "take (i + 1) (links @ extra) = take (i + 1) links"
    "(links @ extra) ! i = links ! i" "(links @ extra) ! (i - 1) = links ! (i - 1)"
    using assms by (auto simp: nth_append)
  then show ?thesis
    by (simp only: check_link_def check_child_def cap_prefix_def)
qed

lemma cap_subset_cong: "policy clk a = policy clk b \<Longrightarrow> cap_subset clk a c = cap_subset clk b c"
  by (simp add: cap_subset_def)

section \<open>Attenuated tokens are accepted\<close>

lemma make_node_lookup [simp]:
  "dget (make_node rec s a) ''signature'' = Inr (PStr s)" "dget (make_node rec s a) ''authorization'' = Inr (PStr a)"
  "node_record (make_node rec s a) = rec"
  by (simp_all add: make_node_def dget_def node_record_def dget_or_def)

lemma cap_attenuate_Inr:
  assumes "cap_attenuate ed clk token caveats key = Inr token'" "cap_token token = Inr links"
    and "dget_or (dict_of token) ''algorithm'' PNone = PStr alg"
  obtains r parent d rec data s a where
    "policy clk caveats = Inr r" "dget (node_record (last links)) ''caveats'' = Inr parent"
    "cap_subset clk parent (rules_dict r) = Inr ()" "digest token = Inr d"
    "rec = [(''type'', PStr CHILD_DOMAIN), (''parent'', PStr d), (''caveats'', rules_dict r)]"
    "cap_bytes CHILD_DOMAIN rec = Inr data"
    "if alg = ''hmac-sha256'' then
       (\<exists>ps pk held. dget (last links) ''signature'' = Inr ps \<and> fromhex_value ps = Inr pk
          \<and> cap_sign ed ''hmac-sha256'' pk data = Inr s
          \<and> cap_bytes HOLDER_DOMAIN [(''record'', PDict rec), (''signature'', PStr s)] = Inr held
          \<and> cap_sign ed ''hmac-sha256'' key held = Inr a)
     else cap_sign ed ''ed25519'' key data = Inr s \<and> a = []"
    "token' = PDict (dset (dict_of token) ''links'' (PList (map PDict (links @ [make_node rec s a]))))"
    "\<exists>links'. cap_token token' = Inr links'"
proof -
  from assms(1) obtain r parent d where r: "policy clk caveats = Inr r" "dget (node_record (last links)) ''caveats'' = Inr parent"
    "cap_subset clk parent (rules_dict r) = Inr ()" "digest token = Inr d"
    unfolding cap_attenuate_def by (auto simp: bind_r_Inr guard_r_Inr assms(2))
  define rec where "rec = [(''type'', PStr CHILD_DOMAIN), (''parent'', PStr d), (''caveats'', rules_dict r)]"
  from assms(1) obtain data where data: "cap_bytes CHILD_DOMAIN rec = Inr data"
    unfolding cap_attenuate_def by (auto simp: bind_r_Inr guard_r_Inr assms(2) r Let_def rec_def)
  have "16 > length links" using assms(1) unfolding cap_attenuate_def by (simp add: assms(2) guard_r_Inr)
  with assms(1) obtain s a where s: "if alg = ''hmac-sha256'' then
       (\<exists>ps pk held. dget (last links) ''signature'' = Inr ps \<and> fromhex_value ps = Inr pk
          \<and> cap_sign ed ''hmac-sha256'' pk data = Inr s
          \<and> cap_bytes HOLDER_DOMAIN [(''record'', PDict rec), (''signature'', PStr s)] = Inr held
          \<and> cap_sign ed ''hmac-sha256'' key held = Inr a)
     else cap_sign ed ''ed25519'' key data = Inr s \<and> a = []"
    "token' = PDict (dset (dict_of token) ''links'' (PList (map PDict (links @ [make_node rec s a]))))"
    "\<exists>links'. cap_token token' = Inr links'"
    unfolding cap_attenuate_def
    by (cases "alg = ''hmac-sha256''")
      (auto simp: bind_r_Inr guard_r_Inr assms(2,3) r Let_def data rec_def [symmetric])
  show thesis by (rule that [OF r rec_def data s])
qed

lemma attenuated_child_checks:
  assumes ok: "clock_ok clk" "link_rules clk (last links) = Inr leaf" "links \<noteq> []"
    and holder: "hk (rl_audience leaf) = Inr pub" "sig_pair ed alg key pub"
    and d: "digest (make_token alg links) = Inr d" and alg: "alg \<in> set ALGORITHMS"
    and r: "rules_ok clk r" "dget (node_record (last links)) ''caveats'' = Inr parent" "cap_subset clk parent (rules_dict r) = Inr ()"
    and rec: "rec = [(''type'', PStr CHILD_DOMAIN), (''parent'', PStr d), (''caveats'', rules_dict r)]"
    and data: "cap_bytes CHILD_DOMAIN rec = Inr data"
    and signed: "if alg = ''hmac-sha256'' then
       (\<exists>ps pk held. dget (last links) ''signature'' = Inr ps \<and> fromhex_value ps = Inr pk
          \<and> cap_sign ed ''hmac-sha256'' pk data = Inr s
          \<and> cap_bytes HOLDER_DOMAIN [(''record'', PDict rec), (''signature'', PStr s)] = Inr held
          \<and> cap_sign ed ''hmac-sha256'' key held = Inr a)
     else cap_sign ed ''ed25519'' key data = Inr s \<and> a = []"
  shows "check_child ed clk alg hk (links @ [make_node rec s a]) (length links) r = Inr ()"
proof -
  let ?links = "links @ [make_node rec s a]"
  have idx: "?links ! length links = make_node rec s a" "?links ! (length links - 1) = last links"
    using ok(3) by (auto simp: nth_append last_conv_nth)
  have keys: "keys_are rec [''type'', ''parent'', ''caveats'']" "dget_or rec ''type'' PNone = PStr CHILD_DOMAIN"
    "dget_or rec ''parent'' PNone = PStr d"
    by (simp_all add: rec keys_are_def dget_or_def)
  have leaf: "rules_ok clk leaf" "policy clk parent = Inr leaf"
    using ok(1,2) r(2) policy_rules_ok by (auto simp: link_rules_def)
  then have sub: "cap_subset clk (rules_dict leaf) (rules_dict r) = Inr ()"
    using cap_subset_cong [of clk parent "rules_dict leaf"] policy_rules_dict r(3) by simp
  have pre: "cap_prefix alg ?links (length links) = make_token alg links" by (simp add: cap_prefix_def)
  show ?thesis
  proof (cases "alg = ''hmac-sha256''")
    case True
    with signed obtain ps pk held where s: "dget (last links) ''signature'' = Inr ps" "fromhex_value ps = Inr pk"
      "cap_sign ed alg pk data = Inr s"
      "cap_bytes HOLDER_DOMAIN [(''record'', PDict rec), (''signature'', PStr s)] = Inr held" "cap_sign ed alg key held = Inr a"
      by auto
    have v: "cap_verify_sig ed alg pk data (PStr s) = Inr ()" "cap_verify_sig ed alg pub held (PStr a) = Inr ()"
      using own_signature_verifies [OF s(3), of pk] own_signature_verifies [OF s(5) holder(2)] True
      by (simp_all add: sig_pair_def)
    show ?thesis
      unfolding check_child_def Let_def idx pre
      using keys d ok(2) sub data holder(1) s v True by simp
  next
    case False
    with alg have "alg = ''ed25519''" by (simp add: ALGORITHMS_def)
    then have s: "cap_sign ed alg key data = Inr s" "a = []" using signed False by auto
    from own_signature_verifies [OF s(1) holder(2)] have v: "cap_verify_sig ed alg pub data (PStr s) = Inr ()" .
    show ?thesis
      unfolding check_child_def Let_def idx pre
      using keys d ok(2) sub data holder(1) s(2) v False by simp
  qed
qed

lemma cap_token_extended:
  assumes "token' = PDict (dset (dict_of token) ''links'' (PList (map PDict links')))" "cap_token token' = Inr l"
  shows "l = links'"
proof -
  from assms(2) obtain t where "token' = PDict t" "map_of t ''links'' = Some (PList (map PDict l))"
    by (rule cap_token_Inr) auto
  moreover have "map_of (dset (dict_of token) ''links'' (PList (map PDict links'))) ''links'' = Some (PList (map PDict links'))"
    by simp
  ultimately show ?thesis using assms(1) by (auto simp: inj_map_eq_map inj_on_def simp del: map_of_dset)
qed

lemma attenuate_verifies:
  assumes v: "cap_verify ed clk token issuer tenant alg key0 hk now revoked = Inr v"
    and ok: "clock_ok clk" "distinct (map fst (dict_of token))" "cap_moment clk now = Inr stamp"
    and att: "cap_attenuate ed clk token caveats key = Inr token'" "policy clk caveats = Inr r"
    and holder: "hk (rl_audience (vf_caveats v)) = Inr pub" "sig_pair ed alg key pub"
    and fresh: "stamp < rl_instant clk r" "digest token' = Inr d'" "d' \<notin> set revoked"
  shows "\<exists>v'. cap_verify ed clk token' issuer tenant alg key0 hk now revoked = Inr v'
    \<and> vf_caveats v' = r \<and> vf_chain_ids v' = vf_chain_ids v @ [d']"
proof -
  from v obtain links st where c: "cap_token token = Inr links" "links \<noteq> []"
    "dget_or (dict_of token) ''algorithm'' PNone = PStr alg"
    "check_root ed clk issuer tenant alg key0 now (links ! 0) = Inr st"
    "length (vf_chain_ids v) = length links"
    "\<And>i. i < length links \<Longrightarrow> check_link ed clk alg hk st revoked links i = Inr (vf_chain_ids v ! i)"
    "link_rules clk (last links) = Inr (vf_caveats v)" "digest token = Inr (vf_chain_digest v)"
    "vf_tenant v = tenant" "vf_issuer v = issuer"
    by (rule cap_verify_Inr) auto
  have st: "st = stamp" using c(4) ok(3)
    unfolding check_root_def Let_def by (auto simp only: bind_r_Inr guard_r_Inr sum.inject)
  from att(1) c(1,3) obtain parent d rec data s a where a: "policy clk caveats = Inr r"
    "dget (node_record (last links)) ''caveats'' = Inr parent"
    "cap_subset clk parent (rules_dict r) = Inr ()" "digest token = Inr d"
    "rec = [(''type'', PStr CHILD_DOMAIN), (''parent'', PStr d), (''caveats'', rules_dict r)]"
    "cap_bytes CHILD_DOMAIN rec = Inr data"
    "if alg = ''hmac-sha256'' then
       (\<exists>ps pk held. dget (last links) ''signature'' = Inr ps \<and> fromhex_value ps = Inr pk
          \<and> cap_sign ed ''hmac-sha256'' pk data = Inr s
          \<and> cap_bytes HOLDER_DOMAIN [(''record'', PDict rec), (''signature'', PStr s)] = Inr held
          \<and> cap_sign ed ''hmac-sha256'' key held = Inr a)
     else cap_sign ed ''ed25519'' key data = Inr s \<and> a = []"
    "token' = PDict (dset (dict_of token) ''links'' (PList (map PDict (links @ [make_node rec s a]))))"
    "\<exists>l. cap_token token' = Inr l"
    by (rule cap_attenuate_Inr) (use att(2) in auto)
  let ?links = "links @ [make_node rec s a]"
  have tok': "cap_token token' = Inr ?links" using a(9) cap_token_extended [OF a(8)] by auto
  have alg': "dget_or (dict_of token') ''algorithm'' PNone = PStr alg"
    using c(3) by (simp add: a(8) dget_or_def)
  have dist': "distinct (map fst (dict_of token'))" using ok(2) by (simp add: a(8) distinct_dset)
  have alg_known: "alg \<in> set ALGORITHMS"
    using c(1,3) by (rule_tac cap_token_Inr [OF c(1)]) (auto simp: dget_or_def)
  have digest: "digest (make_token alg links) = Inr d" using token_digest [OF c(1) ok(2) c(3)] a(4) by simp
  have digest': "digest (make_token alg ?links) = Inr d'" using token_digest [OF tok' dist' alg'] fresh(2) by simp
  have rok: "rules_ok clk r" by (rule policy_rules_ok [OF ok(1) att(2)])
  have child: "check_child ed clk alg hk ?links (length links) r = Inr ()"
    by (rule attenuated_child_checks [where leaf = "vf_caveats v" and hk = hk and pub = pub and key = key and d = d])
      (fact ok(1) c(7) c(2) holder digest alg_known rok a)+
  have leaf: "link_rules clk (?links ! length links) = Inr r"
    using policy_rules_dict [OF rok] a(5) by (simp add: link_rules_def dget_def)
  have new: "check_link ed clk alg hk stamp revoked ?links (length links) = Inr d'"
    using leaf rules_ok_moment [OF rok] fresh(1,3) child c(2) digest' by (simp add: check_link_def cap_prefix_def)
  have all: "map_r (check_link ed clk alg hk stamp revoked ?links) [0..<length ?links] = Inr (vf_chain_ids v @ [d'])"
    unfolding map_r_upt using c(5,6) new st by (auto simp: nth_append check_link_append less_Suc_eq)
  have "check_root ed clk issuer tenant alg key0 now (?links ! 0) = Inr stamp"
    using c(2,4) st by (simp add: nth_append)
  then show ?thesis
    using tok' alg' all leaf fresh(2) by (simp add: cap_verify_def)
qed

section \<open>Granted tokens and possession proofs\<close>

lemma grant_verifies:
  assumes g: "cap_grant ed clk caveats issuer tenant nonce now alg key = Inr token"
    and ok: "clock_ok clk" "policy clk caveats = Inr r" "cap_moment clk now = Inr issued" "cap_token token = Inr links"
    and pub: "sig_pair ed alg key pub"
    and later: "cap_moment clk now' = Inr stamp" "issued \<le> stamp" "stamp < rl_instant clk r"
    and fresh: "digest token = Inr d" "d \<notin> set revoked"
  shows "\<exists>v. cap_verify ed clk token (str_of issuer) (str_of tenant) alg pub hk now' revoked = Inr v
    \<and> vf_caveats v = r \<and> vf_chain_ids v = [d]"
proof -
  have rok: "rules_ok clk r" by (rule policy_rules_ok [OF ok(1,2)])
  from g obtain i t n rec data s where g': "cap_label issuer = Inr i" "cap_label tenant = Inr t" "cap_label nonce = Inr n"
    "issued < rl_instant clk r" "rl_instant clk r \<le> issued + 7 * DAY"
    "rec = [(''type'', PStr ROOT_DOMAIN), (''issuer'', PStr i), (''tenant'', PStr t), (''nonce'', PStr n),
            (''issued_at'', PStr (print_iso clk issued)), (''caveats'', rules_dict r)]"
    "cap_bytes ROOT_DOMAIN rec = Inr data" "cap_sign ed alg key data = Inr s" "token = make_token alg [make_node rec s []]"
    unfolding cap_grant_def by (auto simp: bind_r_Inr guard_r_Inr ok(2,3) rules_ok_moment [OF rok] Let_def)
  let ?node = "make_node rec s []"
  have strs: "str_of issuer = i" "str_of tenant = t" "cap_label (PStr n) = Inr n"
    using g'(1-3) by (simp_all add: cap_label_Inr [of issuer] cap_label_Inr [of tenant] cap_label_Inr [of nonce])
  have links: "links = [?node]"
    using ok(4) by (rule cap_token_Inr) (auto simp: g'(9) make_token_def)
  have rules: "link_rules clk ?node = Inr r"
    using policy_rules_dict [OF rok] by (simp add: link_rules_def dget_def g'(6))
  have "keys_are rec [''type'', ''issuer'', ''tenant'', ''nonce'', ''issued_at'', ''caveats'']"
    by (simp add: g'(6) keys_are_def)
  moreover have "dget_or rec ''type'' PNone = PStr ROOT_DOMAIN" "dget_or rec ''issuer'' PNone = PStr i"
    "dget_or rec ''tenant'' PNone = PStr t" "dget rec ''issued_at'' = Inr (PStr (print_iso clk issued))"
    "dget rec ''nonce'' = Inr (PStr n)"
    by (simp_all add: g'(6) dget_or_def dget_def)
  moreover have "cap_moment clk (PStr (print_iso clk issued)) = Inr issued"
    by (rule cap_moment_print [OF cap_moment_ok [OF ok(1,3)]])
  ultimately have root: "check_root ed clk i t alg pub now' ?node = Inr stamp"
    using rules rules_ok_moment [OF rok] later g'(4,5,7) strs own_signature_verifies [OF g'(8) pub]
    by (simp add: check_root_def Let_def)
  have "check_link ed clk alg hk stamp revoked links 0 = Inr d"
    using rules rules_ok_moment [OF rok] later(3) fresh g'(9)
    by (simp add: check_link_def links cap_prefix_def)
  moreover have "dget_or (dict_of token) ''algorithm'' PNone = PStr alg" by (simp add: g'(9) make_token_def dget_or_def)
  ultimately show ?thesis
    using ok(4) root rules fresh(1) by (simp add: cap_verify_def links strs)
qed

lemma cap_verify_proof_Inr:
  assumes "cap_verify_proof ed clk token v pf key alg request now = Inr nonce"
  shows "\<exists>pd rec issued expiry stamp. pf = PDict pd \<and> map_of pd ''record'' = Some (PDict rec)
    \<and> (\<exists>d. digest token = Inr d \<and> dget_or rec ''chain_digest'' PNone = PStr d)
    \<and> dget_or rec ''audience'' PNone = PStr (rl_audience (vf_caveats v))
    \<and> dget_or rec ''tenant'' PNone = PStr (vf_tenant v) \<and> dget_or rec ''request_digest'' PNone = PStr request
    \<and> cap_moment clk (dget_or rec ''issued_at'' PNone) = Inr issued \<and> cap_moment clk (dget_or rec ''expires_at'' PNone) = Inr expiry
    \<and> cap_moment clk now = Inr stamp \<and> issued \<le> stamp \<and> stamp < expiry \<and> expiry \<le> issued + 30 * SECOND
    \<and> map_of rec ''nonce'' = Some (PStr nonce)
    \<and> (\<exists>data. cap_bytes POSSESSION_DOMAIN rec = Inr data \<and> cap_verify_sig ed alg key data (dget_or pd ''signature'' PNone) = Inr ())"
proof -
  from assms obtain pd rec where p: "pf = PDict pd" "map_of pd ''record'' = Some (PDict rec)"
    by (auto simp only: cap_verify_proof_def case_PDict_Inr guard_r_Inr bind_r_Inr dget_Inr)
  have "cap_verify_proof ed clk token v (PDict pd) key alg request now = Inr nonce" using assms p(1) by simp
  then obtain i e issued expiry stamp d data s u w where
    "map_of rec ''issued_at'' = Some i" "cap_moment clk i = Inr issued" "map_of rec ''expires_at'' = Some e"
    "cap_moment clk e = Inr expiry" "cap_moment clk now = Inr stamp" "issued \<le> stamp" "stamp < expiry"
    "\<not> expiry > issued + 30 * SECOND" "digest token = Inr d" "dget_or rec ''chain_digest'' PNone = PStr d"
    "dget_or rec ''audience'' PNone = PStr (rl_audience (vf_caveats v))"
    "dget_or rec ''tenant'' PNone = PStr (vf_tenant v)" "dget_or rec ''request_digest'' PNone = PStr request"
    "cap_bytes POSSESSION_DOMAIN rec = Inr data" "map_of pd ''signature'' = Some s"
    "cap_verify_sig ed alg key data s = Inr u" "map_of rec ''nonce'' = Some w" "cap_label w = Inr nonce"
    unfolding cap_verify_proof_def pv.case
    by (auto simp only: guard_r_Inr bind_r_Inr dget_Inr p option.inject pv.inject pv.case sum.inject) blast
  moreover from this have "w = PStr nonce" using cap_label_Inr [of w nonce] by simp
  ultimately show ?thesis
    using p by (auto simp: dget_or_def not_less)
qed

lemma prove_verifies:
  assumes pv: "cap_prove ed clk token key alg audience tenant request nonce now = Inr pf" "wire pf = Inr b" "length b \<le> 4096"
    and ok: "clock_ok clk" "cap_moment clk now = Inr issued" "iso_ok clk (issued + 30 * SECOND)"
    and who: "audience = PStr (rl_audience (vf_caveats v))" "tenant = PStr (vf_tenant v)" "request = PStr q"
    and pub: "sig_pair ed alg key pub"
    and later: "cap_moment clk now' = Inr stamp" "issued \<le> stamp" "stamp < issued + 30 * SECOND"
  shows "cap_verify_proof ed clk token v pf pub alg q now' = Inr (str_of nonce)"
proof -
  from pv(1) obtain d n a t r rec data s where p: "digest token = Inr d" "cap_label nonce = Inr n"
    "rec = [(''type'', PStr POSSESSION_DOMAIN), (''chain_digest'', PStr d), (''audience'', PStr a),
            (''tenant'', PStr t), (''request_digest'', PStr r), (''nonce'', PStr n),
            (''issued_at'', PStr (print_iso clk issued)), (''expires_at'', PStr (print_iso clk (issued + 30 * SECOND)))]"
    "cap_bytes POSSESSION_DOMAIN rec = Inr data" "cap_sign ed alg key data = Inr s"
    "pf = PDict [(''record'', PDict rec), (''signature'', PStr s)]"
    "cap_label audience = Inr a" "cap_label tenant = Inr t" "cap_label request = Inr r"
    unfolding cap_prove_def by (auto simp: bind_r_Inr ok(2) Let_def)
  have art: "a = rl_audience (vf_caveats v)" "t = vf_tenant v" "r = q"
    using p(7-9) cap_label_Inr [of audience a] cap_label_Inr [of tenant t] cap_label_Inr [of request r] who by simp_all
  have n: "nonce = PStr n" "cap_label (PStr n) = Inr n" using p(2) cap_label_Inr [of nonce n] by simp_all
  have iso: "cap_moment clk (PStr (print_iso clk issued)) = Inr issued"
    "cap_moment clk (PStr (print_iso clk (issued + 30 * SECOND))) = Inr (issued + 30 * SECOND)"
    by (rule cap_moment_print, rule cap_moment_ok [OF ok(1,2)], rule cap_moment_print, rule ok(3))
  have look: "keys_are rec [''type'', ''chain_digest'', ''audience'', ''tenant'', ''request_digest'', ''nonce'', ''issued_at'', ''expires_at'']"
    "dget rec ''issued_at'' = Inr (PStr (print_iso clk issued))"
    "dget rec ''expires_at'' = Inr (PStr (print_iso clk (issued + 30 * SECOND)))" "dget rec ''nonce'' = Inr (PStr n)"
    "dget_or rec ''type'' PNone = PStr POSSESSION_DOMAIN" "dget_or rec ''chain_digest'' PNone = PStr d"
    "dget_or rec ''audience'' PNone = PStr (rl_audience (vf_caveats v))" "dget_or rec ''tenant'' PNone = PStr (vf_tenant v)"
    "dget_or rec ''request_digest'' PNone = PStr q"
    by (simp_all add: p(3) keys_are_def dget_def dget_or_def art)
  have outer: "keys_are [(''record'', PDict rec), (''signature'', PStr s)] [''record'', ''signature'']"
    "dget [(''record'', PDict rec), (''signature'', PStr s)] ''record'' = Inr (PDict rec)"
    "dget [(''record'', PDict rec), (''signature'', PStr s)] ''signature'' = Inr (PStr s)"
    by (simp_all add: keys_are_def dget_def)
  show ?thesis
    using pv(2,3) later own_signature_verifies [OF p(5) pub]
    unfolding cap_verify_proof_def p(6) pv.case
    by (simp add: outer look iso p(1,4) n not_less)
qed

section \<open>Properties\<close>

text \<open>A concrete clock, caveats and keys, for instances.\<close>

definition sample_clock :: clock where
  "sample_clock = \<lparr>parse_iso = map_of [(''t0'', 0), (''t9'', 30000000)], print_iso = (\<lambda>t. if t = 0 then ''t0'' else ''t9'')\<rparr>"

definition sample_rules :: "string \<Rightarrow> rules" where
  "sample_rules audience = \<lparr>rl_sets = [(''namespaces'', [''facts'']), (''operations'', [''read'']), (''classes'', [''general'']),
      (''purposes'', [''care'']), (''labels'', []), (''delegates'', [''bob''])],
    rl_ceiling = 2, rl_audience = audience, rl_expires = ''t9''\<rparr>"

definition sample_key :: string where
  "sample_key = replicate 32 (CHR ''k'')"

lemma sample_clock_ok: "clock_ok sample_clock"
  by (auto simp: clock_ok_def iso_ok_def sample_clock_def fp_text_def py_len_def NUL_char split: if_splits)

lemma sample_moment: "cap_moment sample_clock (PStr ''t0'') = Inr 0" "cap_moment sample_clock (PStr ''t9'') = Inr 30000000"
  by (simp_all add: cap_moment_def fp_moment_def sample_clock_def fp_text_def py_len_def NUL_char)

lemma py_spaces_ends:
  "list_all (\<lambda>w. w \<noteq> [] \<and> \<not> (33 \<le> (of_char (hd w) :: nat) \<and> (of_char (hd w) :: nat) < 127)
     \<and> \<not> (33 \<le> (of_char (last w) :: nat) \<and> (of_char (last w) :: nat) < 127)) py_spaces"
  by (simp add: py_spaces_def utf8_3_def)

text \<open>A short name of visible ASCII characters is a label.\<close>

lemma cap_label_plain:
  assumes "s \<noteq> []" "length s \<le> 256" "list_all (\<lambda>c. 33 \<le> (of_char c :: nat) \<and> (of_char c :: nat) < 127 \<and> c \<noteq> CHR ''*'') s"
  shows "cap_label (PStr s) = Inr s"
proof -
  have "take (length w) s \<noteq> w \<and> drop (length s - length w) s \<noteq> w" if "w \<in> set py_spaces" for w
  proof -
    have w: "w \<noteq> []" "\<not> (33 \<le> (of_char (hd w) :: nat) \<and> (of_char (hd w) :: nat) < 127)"
      "\<not> (33 \<le> (of_char (last w) :: nat) \<and> (of_char (last w) :: nat) < 127)"
      using py_spaces_ends that unfolding list_all_iff by blast+
    have "hd s \<in> set s" "last s \<in> set s" using assms(1) by simp_all
    then have c: "33 \<le> (of_char (hd s) :: nat) \<and> (of_char (hd s) :: nat) < 127"
      "33 \<le> (of_char (last s) :: nat) \<and> (of_char (last s) :: nat) < 127" using assms(3) unfolding list_all_iff by blast+
    have ends: "hd w \<noteq> hd s" "last w \<noteq> last s" using w(2,3) c by (rule_tac notI, simp)+
    have "hd (take (length w) s) = hd s" using w(1) assms(1) by (simp add: hd_take)
    then have "take (length w) s \<noteq> w" using ends(1) by auto
    moreover have "drop (length s - length w) s \<noteq> w"
    proof
      assume e: "drop (length s - length w) s = w"
      then have "last w = last s" using w(1) last_drop [of "length s - length w" s] by fastforce
      with ends(2) show False by simp
    qed
    ultimately show ?thesis by blast
  qed
  then have "stripped s" unfolding stripped_def list_all_iff by blast
  moreover have "NUL \<notin> set s"
  proof
    assume "NUL \<in> set s"
    then have "33 \<le> (of_char NUL :: nat)" using assms(3) unfolding list_all_iff by blast
    then show False by (simp add: NUL_char)
  qed
  then have "fp_text (PStr s) 256 = Inr s" using assms(1,2) py_len_le [of s] by (simp add: fp_text_Inr)
  moreover have "list_all printable s" "CHR ''*'' \<notin> set s" using assms(3) unfolding list_all_iff printable_def by fastforce+
  ultimately show ?thesis by (simp add: cap_label_def)
qed

lemma sample_labels:
  "cap_label (PStr ''facts'') = Inr ''facts''" "cap_label (PStr ''read'') = Inr ''read''"
  "cap_label (PStr ''general'') = Inr ''general''" "cap_label (PStr ''care'') = Inr ''care''"
  "cap_label (PStr ''alice'') = Inr ''alice''" "cap_label (PStr ''bob'') = Inr ''bob''"
  "cap_label (PStr ''local'') = Inr ''local''" "cap_label (PStr ''n1'') = Inr ''n1''"
  by (simp_all add: cap_label_plain)

lemma sample_rules_ok: "audience \<in> {''alice'', ''bob''} \<Longrightarrow> rules_ok sample_clock (sample_rules audience)"
  by (auto simp: rules_ok_def sample_rules_def SET_FIELDS_def field_ok_def sorted_set_def sample_labels rl_set_def
      OPERATIONS_def iso_ok_def sample_clock_def fp_text_def py_len_def NUL_char intro!: exI [of _ 30000000])

lemmas sample_policy = policy_rules_dict [OF sample_rules_ok]

lemma sample_instant: "rl_instant sample_clock (sample_rules a) = 30000000"
  by (simp add: rl_instant_def sample_rules_def sample_moment)

definition sample_root :: "(string \<times> pv) list" where
  "sample_root = [(''type'', PStr ROOT_DOMAIN), (''issuer'', PStr ''local''), (''tenant'', PStr ''local''), (''nonce'', PStr ''n1''),
     (''issued_at'', PStr ''t0''), (''caveats'', rules_dict (sample_rules ''alice''))]"

lemma wire_small:
  assumes "tree_ok v" "text_length v \<le> MAX_BYTES"
  shows "wire v = Inr (dumps v)"
  using assms by (simp add: wire_cases length_dumps)

lemma sample_root_wire: "wire (PDict sample_root) = Inr (dumps (PDict sample_root))"
  by (rule wire_small)
    (simp_all add: sample_root_def tree_ok_def rules_dict_def sample_rules_def ROOT_DOMAIN_def py_len_def
      item_bytes_def bit_length_def nat_bits.simps MAX_BYTES_def length_quote esc_def Let_def show_int_def show_nat.simps)



definition sample_hmac :: "string \<Rightarrow> (string \<times> pv) list \<Rightarrow> string \<Rightarrow> string" where
  "sample_hmac domain rec key = hmac_hex key (domain @ NUL # dumps (PDict rec))"

definition sample_node :: node where
  "sample_node = make_node sample_root (sample_hmac ROOT_DOMAIN sample_root sample_key) []"

definition sample_token :: pv where
  "sample_token = make_token ''hmac-sha256'' [sample_node]"

lemma is_hash_sample_hmac [simp]: "is_hash (sample_hmac domain rec key)"
  by (simp add: sample_hmac_def)

lemmas wire_eval = tree_ok_def rules_dict_def sample_rules_def ROOT_DOMAIN_def CHILD_DOMAIN_def HOLDER_DOMAIN_def item_bytes_def
  bit_length_def nat_bits.simps MAX_BYTES_def length_quote_simps py_len_simps esc_def Let_def show_int_def show_nat.simps
  length_quote_hash py_len_hash make_token_def make_node_def sample_root_def

lemma sample_token_wire: "wire sample_token = Inr (dumps sample_token)" "length (dumps sample_token) \<le> 65536"
proof -
  have "tree_ok sample_token" "text_length sample_token \<le> 65536" by (simp_all add: sample_token_def sample_node_def wire_eval)
  then show "wire sample_token = Inr (dumps sample_token)" "length (dumps sample_token) \<le> 65536"
    using wire_small [of sample_token] by (simp_all add: length_dumps MAX_BYTES_def)
qed

lemma sample_token_links: "cap_token sample_token = Inr [sample_node]"
  using sample_token_wire
  by (simp add: cap_token_def sample_token_def make_token_def keys_are_def dget_def member_of_def ALGORITHMS_def
      token_node_def sample_node_def make_node_def)

lemma sample_token_digest: "digest sample_token = Inr (sha256_hex (dumps sample_token))"
  by (simp add: digest_def sample_token_wire)

lemma sample_sign: "cap_sign ed ''hmac-sha256'' sample_key data = Inr (hmac_hex sample_key data)"
  by (simp add: cap_sign_def ALGORITHMS_def sample_key_def)

lemma sample_grant:
  "cap_grant ed sample_clock (rules_dict (sample_rules ''alice'')) (PStr ''local'') (PStr ''local'') (PStr ''n1'') (PStr ''t0'')
     ''hmac-sha256'' sample_key = Inr sample_token"
proof -
  have r: "rl_expires (sample_rules ''alice'') = ''t9''" "print_iso sample_clock 0 = ''t0''"
    by (simp_all add: sample_rules_def sample_clock_def)
  have b: "cap_bytes ROOT_DOMAIN sample_root = Inr (ROOT_DOMAIN @ NUL # dumps (PDict sample_root))"
    by (simp add: cap_bytes_def sample_root_wire)
  show ?thesis
    unfolding cap_grant_def
    by (simp add: sample_policy sample_moment r sample_labels DAY_def SECOND_def b [unfolded sample_root_def]
        sample_sign sample_token_def sample_node_def sample_hmac_def sample_root_def)
qed

lemma sample_verified:
  "\<exists>v. cap_verify ed sample_clock sample_token ''local'' ''local'' ''hmac-sha256'' sample_key hk (PStr ''t0'') [] = Inr v
     \<and> vf_caveats v = sample_rules ''alice'' \<and> vf_chain_ids v = [sha256_hex (dumps sample_token)]"
  using grant_verifies [OF sample_grant sample_clock_ok sample_policy sample_moment(1) sample_token_links _ sample_moment(1) _ _
      sample_token_digest, where pub = sample_key and revoked = "[]" and ed = ed and hk = hk]
  by (simp add: sample_instant sig_pair_def)


definition sample_child :: "(string \<times> pv) list" where
  "sample_child = [(''type'', PStr CHILD_DOMAIN), (''parent'', PStr (sha256_hex (dumps sample_token))), (''caveats'', rules_dict (sample_rules ''bob''))]"

definition sample_signature :: string where
  "sample_signature = hmac_hex (unhex_bytes (sample_hmac ROOT_DOMAIN sample_root sample_key)) (CHILD_DOMAIN @ NUL # dumps (PDict sample_child))"

definition sample_authorization :: string where
  "sample_authorization = sample_hmac HOLDER_DOMAIN [(''record'', PDict sample_child), (''signature'', PStr sample_signature)] sample_key"

definition sample_attenuated :: pv where
  "sample_attenuated = make_token ''hmac-sha256'' [sample_node, make_node sample_child sample_signature sample_authorization]"

lemma is_hash_sample_signature [simp]: "is_hash sample_signature" "is_hash sample_authorization"
  by (simp_all add: sample_signature_def sample_authorization_def)

lemma sample_child_wire: "wire (PDict sample_child) = Inr (dumps (PDict sample_child))"
  "wire (PDict [(''record'', PDict sample_child), (''signature'', PStr sample_signature)])
     = Inr (dumps (PDict [(''record'', PDict sample_child), (''signature'', PStr sample_signature)]))"
  by (rule wire_small; simp add: sample_child_def wire_eval)+

lemma sample_attenuated_wire: "wire sample_attenuated = Inr (dumps sample_attenuated)" "length (dumps sample_attenuated) \<le> 65536"
proof -
  have "tree_ok sample_attenuated" "text_length sample_attenuated \<le> 65536"
    by (simp_all add: sample_attenuated_def sample_node_def sample_child_def wire_eval)
  then show "wire sample_attenuated = Inr (dumps sample_attenuated)" "length (dumps sample_attenuated) \<le> 65536"
    using wire_small [of sample_attenuated] by (simp_all add: length_dumps MAX_BYTES_def)
qed

lemma sample_attenuated_links: "\<exists>links. cap_token sample_attenuated = Inr links"
  using sample_attenuated_wire
  by (simp add: cap_token_def sample_attenuated_def make_token_def keys_are_def dget_def member_of_def ALGORITHMS_def
      token_node_def sample_node_def make_node_def)

lemma fromhex_hash: "is_hash s \<Longrightarrow> fromhex_value (PStr s) = Inr (unhex_bytes s)"
  using fromhex_hex [of "unhex_bytes s"] by (simp add: fromhex_value_def)

lemma sample_attenuate:
  "cap_attenuate ed sample_clock sample_token (rules_dict (sample_rules ''bob'')) sample_key = Inr sample_attenuated"
proof -
  let ?r = "sample_rules ''bob''"
  have sub: "cap_subset sample_clock (rules_dict (sample_rules ''alice'')) (rules_dict ?r) = Inr ()"
    by (simp add: cap_subset_iff sample_rules_ok narrows_def sample_instant) (simp add: sample_rules_def rl_set_def list_all_iff)
  have parent: "dget sample_root ''caveats'' = Inr (rules_dict (sample_rules ''alice''))" by (simp add: sample_root_def dget_def)
  have alg: "dget_or (dict_of sample_token) ''algorithm'' PNone = PStr ''hmac-sha256''"
    by (simp add: sample_token_def make_token_def dget_or_def)
  have child: "cap_bytes CHILD_DOMAIN sample_child = Inr (CHILD_DOMAIN @ NUL # dumps (PDict sample_child))"
    "cap_bytes HOLDER_DOMAIN [(''record'', PDict sample_child), (''signature'', PStr sample_signature)]
      = Inr (HOLDER_DOMAIN @ NUL # dumps (PDict [(''record'', PDict sample_child), (''signature'', PStr sample_signature)]))"
    by (simp_all add: cap_bytes_def sample_child_wire)
  have node: "dget sample_node ''signature'' = Inr (PStr (sample_hmac ROOT_DOMAIN sample_root sample_key))"
    "node_record sample_node = sample_root"
    by (simp_all add: sample_node_def)
  have sign: "cap_sign ed ''hmac-sha256'' (unhex_bytes (sample_hmac ROOT_DOMAIN sample_root sample_key)) (CHILD_DOMAIN @ NUL # dumps (PDict sample_child))
      = Inr sample_signature"
    by (simp add: cap_sign_def ALGORITHMS_def sample_signature_def)
  have auth: "cap_sign ed ''hmac-sha256'' sample_key
      (HOLDER_DOMAIN @ NUL # dumps (PDict [(''record'', PDict sample_child), (''signature'', PStr sample_signature)]))
      = Inr sample_authorization"
    by (simp add: sample_sign sample_authorization_def sample_hmac_def)
  have token: "PDict (dset (dict_of sample_token) ''links'' (PList (map PDict ([sample_node] @ [make_node sample_child sample_signature sample_authorization]))))
      = sample_attenuated"
    by (simp add: sample_token_def sample_attenuated_def make_token_def)
  obtain links where links: "cap_token sample_attenuated = Inr links" using sample_attenuated_links by blast
  show ?thesis
    unfolding cap_attenuate_def sample_token_links bind_r_simps sample_child_def [symmetric]
    using sub parent alg child node sign auth token links
    by (simp add: sample_policy sample_token_digest fromhex_hash sample_child_def [symmetric] Let_def del: dumps.simps)
qed


text \<open>
  C7: A leaf cannot outgrow its chain: when \<open>verify\<close> accepts a token, every link of it has
  caveats in normal form that have not expired, its prefix is not revoked, the leaf's integrity
  ceiling and expiry are no higher, and whatever the leaf's caveats permit (a namespace, an
  operation, a class, a purpose and a set of labels), the caveats of every ancestor permit too.
\<close>

theorem leaf_within_chain:
  assumes "cap_verify ed clk token issuer tenant alg key holder_key now revoked = Inr v" "clock_ok clk"
    and "cap_token token = Inr links" "i < length links" "cap_moment clk now = Inr stamp"
  shows "\<exists>r. link_rules clk (links ! i) = Inr r \<and> rl_ceiling (vf_caveats v) \<le> rl_ceiling r
    \<and> rl_instant clk (vf_caveats v) \<le> rl_instant clk r \<and> stamp < rl_instant clk r
    \<and> (\<exists>d. digest (cap_prefix alg links (i + 1)) = Inr d \<and> d \<notin> set revoked)
    \<and> (\<forall>ns op cl pu ls. rules_permit (vf_caveats v) ns op cl pu ls \<longrightarrow> rules_permit r ns op cl pu ls)"
  using verified_chain [OF assms] narrows_permits by (fastforce simp: narrows_def)

theorem leaf_within_chain_witness:
  "\<exists>v. cap_verify echo_ed25519 sample_clock sample_token ''local'' ''local'' ''hmac-sha256'' sample_key Inr (PStr ''t0'') [] = Inr v
    \<and> (\<exists>r. link_rules sample_clock sample_node = Inr r \<and> rl_ceiling (vf_caveats v) \<le> rl_ceiling r)"
proof -
  obtain v where v: "cap_verify echo_ed25519 sample_clock sample_token ''local'' ''local'' ''hmac-sha256'' sample_key Inr (PStr ''t0'') [] = Inr v"
    using sample_verified by blast
  from leaf_within_chain [OF v sample_clock_ok sample_token_links _ sample_moment(1), of 0] v show ?thesis by auto
qed

text \<open>
  Attenuation works and is accepted: when a token verifies and its leaf's holder attenuates
  it with the holder's key, the new token verifies at the same instant under the same pins, its
  caveats are exactly the normal form of those asked for, and its chain extends the old one, as
  long as the new caveats have not expired and the new token is not revoked.
\<close>

theorem attenuated_token_verifies:
  assumes "cap_verify ed clk token issuer tenant alg key0 holder_key now revoked = Inr v"
    and "clock_ok clk" "distinct (map fst (dict_of token))" "cap_moment clk now = Inr stamp"
    and "cap_attenuate ed clk token caveats key = Inr token'" "policy clk caveats = Inr r"
    and "holder_key (rl_audience (vf_caveats v)) = Inr pub" "sig_pair ed alg key pub"
    and "stamp < rl_instant clk r" "digest token' = Inr d" "d \<notin> set revoked"
  shows "\<exists>v'. cap_verify ed clk token' issuer tenant alg key0 holder_key now revoked = Inr v'
    \<and> vf_caveats v' = r \<and> vf_chain_ids v' = vf_chain_ids v @ [d]"
  by (rule attenuate_verifies [OF assms])

theorem attenuated_token_verifies_witness:
  "\<exists>v. cap_verify echo_ed25519 sample_clock sample_attenuated ''local'' ''local'' ''hmac-sha256'' sample_key
     (\<lambda>_. Inr sample_key) (PStr ''t0'') [] = Inr v \<and> rl_audience (vf_caveats v) = ''bob''"
proof -
  obtain v where v: "cap_verify echo_ed25519 sample_clock sample_token ''local'' ''local'' ''hmac-sha256'' sample_key
      (\<lambda>_. Inr sample_key) (PStr ''t0'') [] = Inr v"
    using sample_verified by blast
  have d: "distinct (map fst (dict_of sample_token))" by (simp add: sample_token_def make_token_def)
  have g: "digest sample_attenuated = Inr (sha256_hex (dumps sample_attenuated))" by (simp add: digest_def sample_attenuated_wire)
  have b: "rl_audience (sample_rules ''bob'') = ''bob''" by (simp add: sample_rules_def)
  from attenuated_token_verifies [OF v sample_clock_ok d sample_moment(1) sample_attenuate sample_policy refl _ _ g]
  show ?thesis by (auto simp: sig_pair_def sample_instant b)
qed

text \<open>
  C8: A granted token verifies: what \<open>grant\<close> returns within the size limits of a chain is
  accepted from the instant of issue until the caveats expire, for the issuer and tenant it was
  granted for, under the key that issued it, with the normal form of the caveats.
\<close>

theorem granted_token_verifies:
  assumes "cap_grant ed clk caveats issuer tenant nonce now alg key = Inr token"
    and "clock_ok clk" "policy clk caveats = Inr r" "cap_moment clk now = Inr issued" "cap_token token = Inr links"
    and "sig_pair ed alg key pub"
    and "cap_moment clk now' = Inr stamp" "issued \<le> stamp" "stamp < rl_instant clk r"
    and "digest token = Inr d" "d \<notin> set revoked"
  shows "\<exists>v. cap_verify ed clk token (str_of issuer) (str_of tenant) alg pub holder_key now' revoked = Inr v
    \<and> vf_caveats v = r \<and> vf_chain_ids v = [d]"
  by (rule grant_verifies [OF assms])

theorem granted_token_verifies_witness:
  "\<exists>v. cap_verify echo_ed25519 sample_clock sample_token ''local'' ''local'' ''hmac-sha256'' sample_key Inr (PStr ''t0'') [] = Inr v
    \<and> vf_caveats v = sample_rules ''alice''"
  using granted_token_verifies [OF sample_grant sample_clock_ok sample_policy sample_moment(1) sample_token_links _ sample_moment(1) _ _
      sample_token_digest, where pub = sample_key and revoked = "[]" and ed = echo_ed25519 and holder_key = Inr]
  by (auto simp: sample_instant sig_pair_def)



definition sample_proof_record :: "(string \<times> pv) list" where
  "sample_proof_record = [(''type'', PStr POSSESSION_DOMAIN), (''chain_digest'', PStr (sha256_hex (dumps sample_token))),
     (''audience'', PStr ''alice''), (''tenant'', PStr ''local''), (''request_digest'', PStr ''care''), (''nonce'', PStr ''n1''),
     (''issued_at'', PStr ''t0''), (''expires_at'', PStr ''t9'')]"

definition sample_proof :: pv where
  "sample_proof = PDict [(''record'', PDict sample_proof_record),
     (''signature'', PStr (sample_hmac POSSESSION_DOMAIN sample_proof_record sample_key))]"

lemma sample_proof_wire: "wire (PDict sample_proof_record) = Inr (dumps (PDict sample_proof_record))"
  "wire sample_proof = Inr (dumps sample_proof)" "length (dumps sample_proof) \<le> 4096"
proof -
  show "wire (PDict sample_proof_record) = Inr (dumps (PDict sample_proof_record))"
    by (rule wire_small; simp add: sample_proof_record_def POSSESSION_DOMAIN_def wire_eval)
  have "tree_ok sample_proof" "text_length sample_proof \<le> 4096"
    by (simp_all add: sample_proof_def sample_proof_record_def POSSESSION_DOMAIN_def wire_eval)
  then show "wire sample_proof = Inr (dumps sample_proof)" "length (dumps sample_proof) \<le> 4096"
    using wire_small [of sample_proof] by (simp_all add: length_dumps MAX_BYTES_def)
qed

lemma sample_prove:
  "cap_prove ed sample_clock sample_token sample_key ''hmac-sha256'' (PStr ''alice'') (PStr ''local'') (PStr ''care'') (PStr ''n1'') (PStr ''t0'')
     = Inr sample_proof"
proof -
  have p: "print_iso sample_clock 0 = ''t0''" "print_iso sample_clock (30 * SECOND) = ''t9''"
    by (simp_all add: sample_clock_def SECOND_def)
  have "cap_bytes POSSESSION_DOMAIN sample_proof_record = Inr (POSSESSION_DOMAIN @ NUL # dumps (PDict sample_proof_record))"
    by (simp add: cap_bytes_def sample_proof_wire)
  then show ?thesis
    unfolding cap_prove_def sample_token_links sample_moment sample_token_digest bind_r_simps
    by (simp add: sample_labels p sample_proof_record_def [symmetric] sample_sign sample_proof_def sample_hmac_def Let_def del: dumps.simps)
qed


end
