(* ===== verification/Policy.thy ===== *)
theory Policy
  imports Capabilities
begin

text \<open>
  Finite authorization policies, \<^verbatim>\<open>unimem/policy_proof.py\<close>: validation into a normal form,
  the decision \<open>allows_norm\<close> (closed domain, deny overrides), and the exhaustive comparison
  \<open>difference\<close> of two policies. The lemmas show that the decision does not depend on the order of
  the rules, and that the comparison, which enumerates a finite product, decides whether any
  request whatever is newly allowed.
\<close>

section \<open>Normal form\<close>

definition MAX_TUPLES :: int where
  "MAX_TUPLES = 65536"

definition ACTIONS :: "string list" where
  "ACTIONS = [''read'', ''write'', ''recall'', ''export'']"

definition AXES :: "string list" where
  "AXES = [''principals'', ''actions'', ''memory_classes'', ''label_sets'', ''purposes'']"

record subject =
  sj_id :: string
  sj_class :: string
  sj_attributes :: "(string \<times> string) list"

record fdomain =
  fd_principals :: "subject list"
  fd_actions :: "string list"
  fd_memory_classes :: "string list"
  fd_label_sets :: "string list list"
  fd_purposes :: "string list"

text \<open>A rule keeps only the selectors it has, as the dictionary of the source does.\<close>

record prule =
  ru_id :: string
  ru_effect :: string
  ru_selectors :: "(string \<times> string list) list"
  ru_required :: "string list option"
  ru_forbidden :: "string list option"
  ru_attributes :: "(string \<times> string list) list option"

record fpolicy =
  po_domain :: fdomain
  po_rules :: "prule list"

definition names :: "pv \<Rightarrow> int \<Rightarrow> bool \<Rightarrow> string list result" where
  "names values maximum allow_empty =
     (case values of
        PList vs \<Rightarrow>
          bind_r (count_int (int (length vs)) (if allow_empty then 0 else 1) maximum) (\<lambda>_.
          bind_r (map_r (\<lambda>v. fp_text v 128) vs) (\<lambda>result.
            guard_r (length (remdups result) = length result) ValueError (Inr (sort result))))
      | _ \<Rightarrow> Inl ValueError)"

definition subject_of :: "pv \<Rightarrow> subject result" where
  "subject_of v =
     (case v of
        PDict p \<Rightarrow>
          guard_r (keys_are p [''id'', ''class'', ''attributes'']) ValueError
            (bind_r (dget p ''attributes'') (\<lambda>a. case a of
               PDict attrs \<Rightarrow> (
                 bind_r (count_int (int (length attrs)) 0 8) (\<lambda>_.
                 bind_r (map_r (\<lambda>(k, w). bind_r (fp_text (PStr k) 64) (\<lambda>k'. bind_r (fp_text w 128) (\<lambda>w'. Inr (k', w')))) attrs) (\<lambda>vals.
                 bind_r (dget p ''id'') (\<lambda>i. bind_r (fp_text i 128) (\<lambda>identity.
                 bind_r (dget p ''class'') (\<lambda>c. bind_r (fp_text c 64) (\<lambda>cls.
                   Inr \<lparr>sj_id = identity, sj_class = cls, sj_attributes = sort_key fst vals\<rparr>)))))))
             | _ \<Rightarrow> Inl ValueError))
      | _ \<Rightarrow> Inl ValueError)"

definition product_size :: "nat list \<Rightarrow> int result" where
  "product_size ls = count_int (int (prod_list ls)) 1 MAX_TUPLES"

definition domain_bound :: "fdomain \<Rightarrow> int result" where
  "domain_bound d = product_size [length (fd_principals d), length (fd_actions d), length (fd_memory_classes d),
     length (fd_label_sets d), length (fd_purposes d)]"

definition domain_of :: "pv \<Rightarrow> (fdomain \<times> subject list \<times> string list) result" where
  "domain_of v =
     (case v of
        PDict source \<Rightarrow> (
          guard_r (keys_are source AXES) ValueError (
          bind_r (dget source ''principals'') (\<lambda>ps. guard_r (is_list ps) ValueError (
          bind_r (count_int (int (length (list_of ps))) 1 32) (\<lambda>_.
          bind_r (map_r subject_of (list_of ps)) (\<lambda>normalized.
          guard_r (length (remdups (map sj_id normalized)) = length normalized) ValueError (
          bind_r (dget source ''actions'') (\<lambda>a. bind_r (names a 4 False) (\<lambda>actions.
          bind_r (dget source ''memory_classes'') (\<lambda>m. bind_r (names m 32 False) (\<lambda>classes.
          bind_r (dget source ''purposes'') (\<lambda>u. bind_r (names u 32 False) (\<lambda>purposes.
          guard_r (set actions \<subseteq> set ACTIONS) ValueError (
          bind_r (dget source ''label_sets'') (\<lambda>l. guard_r (is_list l) ValueError (
          bind_r (count_int (int (length (list_of l))) 1 64) (\<lambda>_.
          bind_r (map_r (\<lambda>x. names x 32 True) (list_of l)) (\<lambda>labels.
          guard_r (length (remdups labels) = length labels) ValueError (
          let dm = \<lparr>fd_principals = sort_key sj_id normalized, fd_actions = actions, fd_memory_classes = classes,
                     fd_label_sets = sort labels, fd_purposes = purposes\<rparr> in
          bind_r (domain_bound dm) (\<lambda>_.
            Inr (dm, normalized, concat labels)))))))))))))))))))))
      | _ \<Rightarrow> Inl ValueError)"

definition SELECTORS :: "string list" where
  "SELECTORS = [''principals'', ''principal_classes'', ''actions'', ''memory_classes'', ''purposes'']"

definition available :: "fdomain \<Rightarrow> subject list \<Rightarrow> string \<Rightarrow> string list" where
  "available dm normalized key =
     (if key = ''principals'' then map sj_id normalized
      else if key = ''principal_classes'' then map sj_class normalized
      else if key = ''actions'' then fd_actions dm
      else if key = ''memory_classes'' then fd_memory_classes dm
      else fd_purposes dm)"

text \<open>A field of a rule that may be absent: present, its names must be among those available.\<close>

definition selector_of :: "(string \<times> pv) list \<Rightarrow> string \<Rightarrow> int \<Rightarrow> string list \<Rightarrow> string list option result" where
  "selector_of rule key maximum declared =
     (case map_of rule key of
        None \<Rightarrow> Inr None
      | Some v \<Rightarrow> bind_r (names v maximum True) (\<lambda>ns. guard_r (set ns \<subseteq> set declared) ValueError (Inr (Some ns))))"

definition rule_of :: "fdomain \<Rightarrow> subject list \<Rightarrow> string list \<Rightarrow> pv \<Rightarrow> prule result" where
  "rule_of dm normalized label_names v =
     (case v of
        PDict rule \<Rightarrow> (
          guard_r (''id'' \<in> set (map fst rule) \<and> ''effect'' \<in> set (map fst rule)
              \<and> set (map fst rule) \<subseteq> set ([''id'', ''effect''] @ SELECTORS @ [''attributes'', ''required_labels'', ''forbidden_labels'']))
            ValueError (
          bind_r (dget rule ''id'') (\<lambda>i. bind_r (fp_text i 128) (\<lambda>identity.
          bind_r (dget rule ''effect'') (\<lambda>e. guard_r (e = PStr ''allow'' \<or> e = PStr ''deny'') ValueError (
          bind_r (map_r (\<lambda>key. bind_r (selector_of rule key 64 (available dm normalized key)) (\<lambda>s. Inr (key, s))) SELECTORS) (\<lambda>sels.
          bind_r (selector_of rule ''required_labels'' 32 label_names) (\<lambda>required.
          bind_r (selector_of rule ''forbidden_labels'' 32 label_names) (\<lambda>forbidden.
          bind_r (case map_of rule ''attributes'' of
                    None \<Rightarrow> Inr None
                  | Some a \<Rightarrow>
                      guard_r (is_dict a \<and> set (map fst (dict_of a)) \<subseteq> set (concat (map (map fst \<circ> sj_attributes) normalized))) ValueError
                        (bind_r (map_r (\<lambda>(k, w). bind_r (names w 32 True) (\<lambda>ns. Inr (k, ns))) (sort_key fst (dict_of a))) (\<lambda>attrs.
                           Inr (Some attrs)))) (\<lambda>attrs.
            Inr \<lparr>ru_id = identity, ru_effect = str_of e,
                 ru_selectors = [(k, ns). (k, Some ns) \<leftarrow> sels], ru_required = required, ru_forbidden = forbidden,
                 ru_attributes = attrs\<rparr>))))))))))
      | _ \<Rightarrow> Inl ValueError)"

text \<open>The loop over the rules, which also refuses a repeated identity.\<close>

fun rules_of :: "fdomain \<Rightarrow> subject list \<Rightarrow> string list \<Rightarrow> string list \<Rightarrow> pv list \<Rightarrow> prule list result" where
  "rules_of dm normalized label_names seen [] = Inr []"
| "rules_of dm normalized label_names seen (v # vs) =
     bind_r (rule_of dm normalized label_names v) (\<lambda>r.
     guard_r (ru_id r \<notin> set seen) ValueError
       (bind_r (rules_of dm normalized label_names (ru_id r # seen) vs) (\<lambda>rs. Inr (r # rs))))"

definition normalize :: "(string \<times> pv) list \<Rightarrow> fpolicy result" where
  "normalize pol =
     bind_r (wire (PDict pol)) (\<lambda>_.
     guard_r (keys_are pol [''version'', ''domain'', ''rules''] \<and> map_of pol ''version'' = Some (PInt 1)) ValueError (
     bind_r (dget pol ''domain'') (\<lambda>source.
     bind_r (domain_of source) (\<lambda>(dm, normalized, label_names).
     bind_r (dget pol ''rules'') (\<lambda>rules. guard_r (is_list rules) ValueError (
     bind_r (count_int (int (length (list_of rules))) 0 128) (\<lambda>_.
     bind_r (rules_of dm normalized label_names [] (list_of rules)) (\<lambda>result.
       Inr \<lparr>po_domain = dm, po_rules = sort_key ru_id result\<rparr>))))))))"

section \<open>Decisions\<close>

definition find_subject :: "fdomain \<Rightarrow> string \<Rightarrow> subject option" where
  "find_subject dm who = List.find (\<lambda>s. sj_id s = who) (fd_principals dm)"

definition rule_applies :: "prule \<Rightarrow> subject \<Rightarrow> string \<Rightarrow> string \<Rightarrow> string \<Rightarrow> string list \<Rightarrow> string \<Rightarrow> bool" where
  "rule_applies rule subject who action memory_class labels purpose \<longleftrightarrow>
     list_all (\<lambda>(key, value). case map_of (ru_selectors rule) key of None \<Rightarrow> True | Some vs \<Rightarrow> value \<in> set vs)
       [(''principals'', who), (''principal_classes'', sj_class subject), (''actions'', action),
        (''memory_classes'', memory_class), (''purposes'', purpose)]
     \<and> set (case ru_required rule of None \<Rightarrow> [] | Some ls \<Rightarrow> ls) \<subseteq> set labels
     \<and> set (case ru_forbidden rule of None \<Rightarrow> [] | Some ls \<Rightarrow> ls) \<inter> set labels = {}
     \<and> list_all (\<lambda>(key, vs). case map_of (sj_attributes subject) key of None \<Rightarrow> False | Some a \<Rightarrow> a \<in> set vs)
         (case ru_attributes rule of None \<Rightarrow> [] | Some as \<Rightarrow> as)"

fun allows_loop :: "bool \<Rightarrow> subject \<Rightarrow> string \<Rightarrow> string \<Rightarrow> string \<Rightarrow> string list \<Rightarrow> string \<Rightarrow> prule list \<Rightarrow> bool" where
  "allows_loop allowed subject who action memory_class labels purpose [] = allowed"
| "allows_loop allowed subject who action memory_class labels purpose (rule # rules) =
     (if \<not> rule_applies rule subject who action memory_class labels purpose
      then allows_loop allowed subject who action memory_class labels purpose rules
      else if ru_effect rule = ''deny'' then False
      else allows_loop True subject who action memory_class labels purpose rules)"

definition allows_norm :: "fpolicy \<Rightarrow> string \<Rightarrow> string \<Rightarrow> string \<Rightarrow> string list \<Rightarrow> string \<Rightarrow> bool" where
  "allows_norm pol who action memory_class labels purpose =
     (let dm = po_domain pol in
      case find_subject dm who of
        None \<Rightarrow> False
      | Some subject \<Rightarrow>
          if action \<notin> set (fd_actions dm) \<or> memory_class \<notin> set (fd_memory_classes dm)
             \<or> purpose \<notin> set (fd_purposes dm) \<or> labels \<notin> set (fd_label_sets dm) then False
          else allows_loop False subject who action memory_class labels purpose (po_rules pol))"

definition allows :: "(string \<times> pv) list \<Rightarrow> string \<Rightarrow> string \<Rightarrow> string \<Rightarrow> pv list \<Rightarrow> string \<Rightarrow> bool result" where
  "allows pol who action memory_class labels purpose =
     bind_r (normalize pol) (\<lambda>n. bind_r (names (PList labels) 32 True) (\<lambda>ls.
       Inr (allows_norm n who action memory_class ls purpose)))"

definition deny :: "pv \<Rightarrow> fpolicy result" where
  "deny dm = normalize [(''version'', PInt 1), (''domain'', dm), (''rules'', PList [])]"

section \<open>The change analysis\<close>

type_synonym request = "string \<times> string \<times> string \<times> string list \<times> string"

definition allows_request :: "fpolicy \<Rightarrow> request \<Rightarrow> bool" where
  "allows_request pol q = (case q of (who, action, memory_class, labels, purpose) \<Rightarrow>
     allows_norm pol who action memory_class labels purpose)"

text \<open>\<^verbatim>\<open>itertools.product\<close> over the five axes, the last one fastest.\<close>

definition requests :: "string list \<Rightarrow> string list \<Rightarrow> string list \<Rightarrow> string list list \<Rightarrow> string list \<Rightarrow> request list" where
  "requests ps as ms ls us = List.product ps (List.product as (List.product ms (List.product ls us)))"

definition request_row :: "request \<Rightarrow> pv" where
  "request_row q = (case q of (who, action, memory_class, labels, purpose) \<Rightarrow>
     PDict [(''principal'', PStr who), (''action'', PStr action), (''memory_class'', PStr memory_class),
            (''labels'', PList (map PStr labels)), (''purpose'', PStr purpose)])"

definition subject_pv :: "subject \<Rightarrow> pv" where
  "subject_pv s = PDict [(''id'', PStr (sj_id s)), (''class'', PStr (sj_class s)),
     (''attributes'', PDict (map (\<lambda>(k, v). (k, PStr v)) (sj_attributes s)))]"

definition strs :: "string list \<Rightarrow> pv" where
  "strs ls = PList (map PStr ls)"

definition rule_pv :: "prule \<Rightarrow> pv" where
  "rule_pv r = PDict ([(''id'', PStr (ru_id r)), (''effect'', PStr (ru_effect r))]
     @ map (\<lambda>(k, ns). (k, strs ns)) (ru_selectors r)
     @ (case ru_required r of None \<Rightarrow> [] | Some ls \<Rightarrow> [(''required_labels'', strs ls)])
     @ (case ru_forbidden r of None \<Rightarrow> [] | Some ls \<Rightarrow> [(''forbidden_labels'', strs ls)])
     @ (case ru_attributes r of None \<Rightarrow> [] | Some as \<Rightarrow> [(''attributes'', PDict (map (\<lambda>(k, ns). (k, strs ns)) as))]))"

definition domain_pv :: "fdomain \<Rightarrow> pv" where
  "domain_pv d = PDict [(''principals'', PList (map subject_pv (fd_principals d))), (''actions'', strs (fd_actions d)),
     (''memory_classes'', strs (fd_memory_classes d)), (''purposes'', strs (fd_purposes d)),
     (''label_sets'', PList (map strs (fd_label_sets d)))]"

definition policy_pv :: "fpolicy \<Rightarrow> pv" where
  "policy_pv p = PDict [(''version'', PInt 1), (''domain'', domain_pv (po_domain p)), (''rules'', PList (map rule_pv (po_rules p)))]"

record change =
  ch_old_hash :: string
  ch_new_hash :: string
  ch_domain_hash :: string
  ch_tuples_checked :: int
  ch_widening_count :: nat
  ch_narrowing_count :: nat
  ch_no_widening :: bool
  ch_added :: "request list"
  ch_removed :: "request list"
  ch_widening_digest :: string
  ch_narrowing_digest :: string
  ch_truncated :: bool

definition rows_digest :: "request list \<Rightarrow> string result" where
  "rows_digest qs = bind_r (map_r (\<lambda>q. wire (request_row q)) qs) (\<lambda>bs. Inr (sha256_hex (concat (map (\<lambda>b. b @ [CHR 0x0A]) bs))))"

definition policy_difference :: "fpolicy \<Rightarrow> fpolicy \<Rightarrow> change result" where
  "policy_difference before after =
     (let left = po_domain before; right = po_domain after;
          actions = sorted_set (fd_actions left @ fd_actions right);
          classes = sorted_set (fd_memory_classes left @ fd_memory_classes right);
          purposes = sorted_set (fd_purposes left @ fd_purposes right);
          principals = sorted_set (map sj_id (fd_principals left @ fd_principals right));
          label_sets = sorted_set (fd_label_sets left @ fd_label_sets right) in
      bind_r (product_size [length principals, length actions, length classes, length label_sets, length purposes]) (\<lambda>count.
        let changed = filter (\<lambda>q. allows_request before q \<noteq> allows_request after q)
                        (requests principals actions classes label_sets purposes);
            added = filter (allows_request after) changed;
            removed = filter (\<lambda>q. \<not> allows_request after q) changed in
        bind_r (rows_digest added) (\<lambda>widening. bind_r (rows_digest removed) (\<lambda>narrowing.
        bind_r (digest (policy_pv before)) (\<lambda>old_hash. bind_r (digest (policy_pv after)) (\<lambda>new_hash.
        bind_r (digest (PDict [(''actions'', strs actions), (''memory_classes'', strs classes), (''purposes'', strs purposes),
                               (''principals'', strs principals), (''label_sets'', PList (map strs label_sets))])) (\<lambda>domain_hash.
          Inr \<lparr>ch_old_hash = old_hash, ch_new_hash = new_hash, ch_domain_hash = domain_hash, ch_tuples_checked = count,
               ch_widening_count = length added, ch_narrowing_count = length removed, ch_no_widening = (length added = 0),
               ch_added = take 64 added, ch_removed = take 64 removed, ch_widening_digest = widening,
               ch_narrowing_digest = narrowing,
               ch_truncated = (length added > length (take 64 added) \<or> length removed > length (take 64 removed))\<rparr>)))))))"

definition difference :: "(string \<times> pv) list \<Rightarrow> (string \<times> pv) list \<Rightarrow> change result" where
  "difference old new =
     bind_r (normalize old) (\<lambda>before. bind_r (normalize new) (\<lambda>after. policy_difference before after))"


section \<open>Decisions do not depend on the order of rules\<close>

lemma allows_loop_iff:
  "allows_loop allowed subject who action cls labels purpose rules \<longleftrightarrow>
     (\<forall>r \<in> set rules. rule_applies r subject who action cls labels purpose \<longrightarrow> ru_effect r \<noteq> ''deny'')
     \<and> (allowed \<or> (\<exists>r \<in> set rules. rule_applies r subject who action cls labels purpose))"
  by (induction rules arbitrary: allowed) auto

definition in_domain :: "fdomain \<Rightarrow> request \<Rightarrow> bool" where
  "in_domain d q = (case q of (who, action, cls, labels, purpose) \<Rightarrow>
     who \<in> sj_id ` set (fd_principals d) \<and> action \<in> set (fd_actions d) \<and> cls \<in> set (fd_memory_classes d)
     \<and> labels \<in> set (fd_label_sets d) \<and> purpose \<in> set (fd_purposes d))"

lemma find_subject_Some: "find_subject d who = Some s \<Longrightarrow> s \<in> set (fd_principals d) \<and> sj_id s = who"
  by (auto simp: find_subject_def find_Some_iff)

lemma allows_in_domain: "allows_request pol q \<Longrightarrow> in_domain (po_domain pol) q"
  by (cases q) (auto simp: allows_request_def allows_norm_def in_domain_def Let_def dest: find_subject_Some
      split: option.splits if_splits)

section \<open>The enumeration is complete\<close>

definition joint_requests :: "fpolicy \<Rightarrow> fpolicy \<Rightarrow> request list" where
  "joint_requests before after =
     (let left = po_domain before; right = po_domain after in
      requests (sorted_set (map sj_id (fd_principals left @ fd_principals right)))
        (sorted_set (fd_actions left @ fd_actions right)) (sorted_set (fd_memory_classes left @ fd_memory_classes right))
        (sorted_set (fd_label_sets left @ fd_label_sets right)) (sorted_set (fd_purposes left @ fd_purposes right)))"

lemma distinct_joint: "distinct (joint_requests before after)"
  by (simp add: joint_requests_def Let_def requests_def distinct_product)

lemma joint_complete:
  "allows_request before q \<or> allows_request after q \<Longrightarrow> q \<in> set (joint_requests before after)"
  using allows_in_domain [of before q] allows_in_domain [of after q]
  by (cases q) (auto simp: joint_requests_def Let_def requests_def in_domain_def)

lemma policy_difference_Inr:
  assumes "policy_difference before after = Inr c"
  defines "gained \<equiv> {q. allows_request after q \<and> \<not> allows_request before q}"
    and "lost \<equiv> {q. allows_request before q \<and> \<not> allows_request after q}"
  shows "ch_widening_count c = card gained" "ch_narrowing_count c = card lost" "finite gained" "finite lost"
    "ch_no_widening c \<longleftrightarrow> gained = {}" "set (ch_added c) \<subseteq> gained" "set (ch_removed c) \<subseteq> lost"
    "ch_tuples_checked c = int (length (joint_requests before after))"
    "\<not> ch_truncated c \<longleftrightarrow> set (ch_added c) = gained \<and> set (ch_removed c) = lost"
    "digest (policy_pv before) = Inr (ch_old_hash c)" "digest (policy_pv after) = Inr (ch_new_hash c)"
proof -
  define changed where "changed = filter (\<lambda>q. allows_request before q \<noteq> allows_request after q) (joint_requests before after)"
  define added where "added = filter (allows_request after) changed"
  define removed where "removed = filter (\<lambda>q. \<not> allows_request after q) changed"
  define ls where "ls = [length (sorted_set (map sj_id (fd_principals (po_domain before) @ fd_principals (po_domain after)))),
    length (sorted_set (fd_actions (po_domain before) @ fd_actions (po_domain after))),
    length (sorted_set (fd_memory_classes (po_domain before) @ fd_memory_classes (po_domain after))),
    length (sorted_set (fd_label_sets (po_domain before) @ fd_label_sets (po_domain after))),
    length (sorted_set (fd_purposes (po_domain before) @ fd_purposes (po_domain after)))]"
  from assms(1) obtain n w k oh nh dh where r: "product_size ls = Inr n" "digest (policy_pv before) = Inr oh" "digest (policy_pv after) = Inr nh"
    "c = \<lparr>ch_old_hash = oh, ch_new_hash = nh, ch_domain_hash = dh, ch_tuples_checked = n,
               ch_widening_count = length added, ch_narrowing_count = length removed, ch_no_widening = (length added = 0),
               ch_added = take 64 added, ch_removed = take 64 removed, ch_widening_digest = w,
               ch_narrowing_digest = k,
               ch_truncated = (length added > length (take 64 added) \<or> length removed > length (take 64 removed))\<rparr>"
    unfolding policy_difference_def added_def removed_def changed_def joint_requests_def ls_def Let_def
    by (auto simp only: bind_r_Inr sum.inject)
  have "n = int (length (joint_requests before after))"
    using r(1) by (auto simp: product_size_def count_int_Inr joint_requests_def Let_def requests_def ls_def)
  with r have c: "ch_widening_count c = length added" "ch_narrowing_count c = length removed" "ch_no_widening c \<longleftrightarrow> added = []"
    "ch_added c = take 64 added" "ch_removed c = take 64 removed" "ch_tuples_checked c = int (length (joint_requests before after))"
    "ch_truncated c \<longleftrightarrow> length added > length (take 64 added) \<or> length removed > length (take 64 removed)"
    "digest (policy_pv before) = Inr (ch_old_hash c)" "digest (policy_pv after) = Inr (ch_new_hash c)"
    by simp_all
  have d: "distinct added" "distinct removed" by (simp_all add: added_def removed_def changed_def distinct_joint)
  have s: "set added = gained" "set removed = lost"
    using joint_complete [of before _ after] by (auto simp: added_def removed_def changed_def gained_def lost_def)
  show "ch_widening_count c = card gained" "ch_narrowing_count c = card lost"
    using c d s distinct_card by metis+
  show "finite gained" "finite lost" using s by (metis List.finite_set)+
  show "ch_no_widening c \<longleftrightarrow> gained = {}" using c(3) s(1) by auto
  show "set (ch_added c) \<subseteq> gained" "set (ch_removed c) \<subseteq> lost"
    using c(4,5) s set_take_subset by metis+
  have full: "\<not> length xs > length (take 64 xs) \<longleftrightarrow> set (take 64 xs) = set xs" if "distinct xs" for xs :: "request list"
  proof
    assume "set (take 64 xs) = set xs"
    then have "length (take 64 xs) = length xs" using distinct_card [OF that] distinct_card [OF distinct_take [OF that]] by metis
    then show "\<not> length xs > length (take 64 xs)" by simp
  qed (simp add: not_less)
  show "\<not> ch_truncated c \<longleftrightarrow> set (ch_added c) = gained \<and> set (ch_removed c) = lost"
    using full [OF d(1)] full [OF d(2)] c(4,5,7) s by auto
  show "ch_tuples_checked c = int (length (joint_requests before after))"
    "digest (policy_pv before) = Inr (ch_old_hash c)" "digest (policy_pv after) = Inr (ch_new_hash c)"
    by (rule c)+
qed


section \<open>Reviewed changes of the active policy\<close>

text \<open>
  \<^verbatim>\<open>unimem/policy_io.py\<close>: the journal of activations, the check of a change certificate and
  the activation itself. Signature and anchor checks are those of the signing and log
  components, passed as \<open>verify_signed\<close> and \<open>verify_anchor\<close>; \<open>now\<close> is the current instant as text,
  and \<open>stored\<close> the content store of proposed policies.
\<close>

record activation =
  av_generation :: pv
  av_policy :: "(string \<times> pv) list"
  av_policy_hash :: string

record active_policy =
  ap_policy :: fpolicy
  ap_hash :: string
  ap_generation :: nat

text \<open>\<open>None\<close>: no activation journal, the store is not managed.\<close>

definition active :: "activation list option \<Rightarrow> active_policy option result" where
  "active journal =
     (case journal of
        None \<Rightarrow> Inr None
      | Some rows \<Rightarrow>
          guard_r (rows \<noteq> []) PermissionError
            (bind_r (normalize (av_policy (last rows))) (\<lambda>p.
             bind_r (digest (policy_pv p)) (\<lambda>h.
               guard_r (h = av_policy_hash (last rows) \<and> num_eq (av_generation (last rows)) (int (length rows))) PermissionError
                 (Inr (Some \<lparr>ap_policy = p, ap_hash = h, ap_generation = length rows\<rparr>))))))"

definition change_pv :: "change \<Rightarrow> pv" where
  "change_pv c = PDict [(''old_hash'', PStr (ch_old_hash c)), (''new_hash'', PStr (ch_new_hash c)),
     (''domain_hash'', PStr (ch_domain_hash c)), (''tuples_checked'', PInt (ch_tuples_checked c)),
     (''widening_count'', PInt (int (ch_widening_count c))), (''narrowing_count'', PInt (int (ch_narrowing_count c))),
     (''no_widening'', PBool (ch_no_widening c)), (''added'', PList (map request_row (ch_added c))),
     (''removed'', PList (map request_row (ch_removed c))), (''widening_digest'', PStr (ch_widening_digest c)),
     (''narrowing_digest'', PStr (ch_narrowing_digest c)), (''witnesses_truncated'', PBool (ch_truncated c)),
     (''classification'', PStr ''sound and complete exhaustive check over the declared closed finite domain''),
     (''bound'', PInt MAX_TUPLES),
     (''assumptions'', strs [''undeclared principal/action/class/label set/purpose is denied'',
        ''principal attributes are operator-owned and bound to authenticated identities'',
        ''deny overrides allow; declarative v1 grammar only'',
        ''external relationship services and future undeclared domains are not proved''])]"

definition sub :: "pv \<Rightarrow> string \<Rightarrow> pv result" where
  "sub v k = (case v of PDict d \<Rightarrow> dget d k | _ \<Rightarrow> Inl TypeError)"

definition get_field :: "pv \<Rightarrow> string \<Rightarrow> pv" where
  "get_field v k = dget_or (dict_of v) k PNone"

definition before_policy :: "active_policy option \<Rightarrow> (string \<times> pv) list \<Rightarrow> fpolicy result" where
  "before_policy current proposed =
     (case current of Some a \<Rightarrow> Inr (ap_policy a) | None \<Rightarrow> bind_r (dget proposed ''domain'') deny)"

definition generation_of :: "active_policy option \<Rightarrow> nat" where
  "generation_of current = (case current of Some a \<Rightarrow> ap_generation a | None \<Rightarrow> 0)"

definition lifetime_ok :: "clock \<Rightarrow> pv \<Rightarrow> string \<Rightarrow> bool result" where
  "lifetime_ok clk body now =
     bind_r (sub body ''issued_at'') (\<lambda>i. bind_r (fp_moment clk i) (\<lambda>issued.
       if \<not> issued \<le> now then Inr False
       else bind_r (sub body ''expires_at'') (\<lambda>e. bind_r (fp_moment clk e) (\<lambda>expires. Inr (now < expires)))))"

definition anchored :: "(pv \<Rightarrow> bool) \<Rightarrow> pv \<Rightarrow> string \<Rightarrow> string \<Rightarrow> pv \<Rightarrow> bool result" where
  "anchored verify_anchor anchor event field signed_row =
     (if \<not> verify_anchor anchor then Inr False
      else bind_r (sub anchor ''statement'') (\<lambda>s. bind_r (sub s ''record'') (\<lambda>r. bind_r (sub r ''event'') (\<lambda>e.
        if e \<noteq> PStr event then Inr False
        else bind_r (sub r ''statement'') (\<lambda>st. bind_r (digest signed_row) (\<lambda>d. Inr (get_field st field = PStr d)))))))"

definition check_certificate ::
  "clock \<Rightarrow> (pv \<Rightarrow> bool) \<Rightarrow> (pv \<Rightarrow> bool) \<Rightarrow> (string \<Rightarrow> (string \<times> pv) list result) \<Rightarrow> activation list option \<Rightarrow> string \<Rightarrow> pv
     \<Rightarrow> (pv \<times> (string \<times> pv) list \<times> change) result" where
  "check_certificate clk verify_signed verify_anchor stored journal now certificate =
     bind_r (wire certificate) (\<lambda>_.
     bind_r (sub certificate ''certificate'') (\<lambda>signed_row. bind_r (sub certificate ''anchor'') (\<lambda>anchor.
       let body = dget_or (dict_of signed_row) ''record'' (PDict []) in
       guard_r (verify_signed signed_row \<and> get_field signed_row ''authority'' = PStr ''operator''
           \<and> get_field body ''type'' = PStr ''unimem.policy.change'' \<and> num_eq (get_field body ''version'') 1) PermissionError (
       bind_r (anchored verify_anchor anchor ''memory-policy-change'' ''certificate_digest'' signed_row) (\<lambda>a. guard_r a PermissionError (
       bind_r (lifetime_ok clk body now) (\<lambda>l. guard_r l PermissionError (
       bind_r (sub body ''difference'') (\<lambda>diff. bind_r (sub diff ''new_hash'') (\<lambda>new_hash.
       bind_r (stored (str_of new_hash)) (\<lambda>proposed.
       bind_r (active journal) (\<lambda>current.
       bind_r (before_policy current proposed) (\<lambda>before.
       bind_r (sub body ''generation'') (\<lambda>g.
       guard_r (num_eq g (int (generation_of current))) PermissionError (
       bind_r (difference (dict_of (policy_pv before)) proposed) (\<lambda>change.
       guard_r (same_value (change_pv change) diff) PermissionError (
         Inr (body, proposed, change))))))))))))))))))"

definition check_review ::
  "clock \<Rightarrow> (pv \<Rightarrow> bool) \<Rightarrow> (pv \<Rightarrow> bool) \<Rightarrow> string \<Rightarrow> pv \<Rightarrow> pv \<Rightarrow> pv \<Rightarrow> unit result" where
  "check_review clk verify_signed verify_anchor now certificate body review =
     bind_r (wire review) (\<lambda>_.
     bind_r (sub review ''receipt'') (\<lambda>signed_row. bind_r (sub review ''anchor'') (\<lambda>anchor. bind_r (sub signed_row ''record'') (\<lambda>receipt.
       guard_r (verify_signed signed_row \<and> get_field signed_row ''authority'' = PStr ''operator''
           \<and> get_field receipt ''type'' = PStr ''unimem.policy.widening-review'' \<and> num_eq (get_field receipt ''version'') 1) PermissionError (
       bind_r (anchored verify_anchor anchor ''memory-policy-review'' ''review_digest'' signed_row) (\<lambda>a. guard_r a PermissionError (
       bind_r (sub receipt ''certificate_digest'') (\<lambda>cd. bind_r (sub certificate ''certificate'') (\<lambda>cert. bind_r (digest cert) (\<lambda>d.
       guard_r (cd = PStr d) PermissionError (
       bind_r (sub body ''difference'') (\<lambda>diff.
       bind_r (sub receipt ''old_hash'') (\<lambda>oh. bind_r (sub receipt ''new_hash'') (\<lambda>nh.
       guard_r (oh = get_field diff ''old_hash'' \<and> nh = get_field diff ''new_hash'') PermissionError (
       bind_r (sub receipt ''generation'') (\<lambda>g. guard_r (g = get_field body ''generation'') PermissionError (
       bind_r (lifetime_ok clk receipt now) (\<lambda>l. guard_r l PermissionError (Inr ())))))))))))))))))))"

text \<open>The activation appends one row to the journal; its generation is the number of rows.\<close>

definition activate ::
  "clock \<Rightarrow> (pv \<Rightarrow> bool) \<Rightarrow> (pv \<Rightarrow> bool) \<Rightarrow> (string \<Rightarrow> (string \<times> pv) list result) \<Rightarrow> activation list option \<Rightarrow> string \<Rightarrow> pv
     \<Rightarrow> pv option \<Rightarrow> activation list result" where
  "activate clk verify_signed verify_anchor stored journal now certificate review =
     bind_r (check_certificate clk verify_signed verify_anchor stored journal now certificate) (\<lambda>(body, proposed, change).
     bind_r (if ch_no_widening change then Inr ()
             else case review of
                    None \<Rightarrow> Inl PermissionError
                  | Some r \<Rightarrow> check_review clk verify_signed verify_anchor now certificate body r) (\<lambda>_.
     bind_r (active journal) (\<lambda>current.
       Inr ((case journal of None \<Rightarrow> [] | Some rows \<Rightarrow> rows)
         @ [\<lparr>av_generation = PInt (int (generation_of current) + 1), av_policy = proposed,
             av_policy_hash = ch_new_hash change\<rparr>]))))"

section \<open>The normal form is a fixed point\<close>

definition text_ok :: "nat \<Rightarrow> string \<Rightarrow> bool" where
  "text_ok m s \<longleftrightarrow> fp_text (PStr s) m = Inr s"

definition names_ok :: "int \<Rightarrow> bool \<Rightarrow> string list \<Rightarrow> bool" where
  "names_ok mx e ns \<longleftrightarrow> sorted ns \<and> distinct ns \<and> (if e then 0 else 1) \<le> int (length ns) \<and> int (length ns) \<le> mx
     \<and> list_all (text_ok 128) ns"

lemma fp_text_ok: "fp_text v m = Inr s \<longleftrightarrow> v = PStr s \<and> text_ok m s"
  by (auto simp: text_ok_def fp_text_Inr)

lemma map_fp_text: "map_r (\<lambda>v. fp_text v m) vs = Inr ss \<longleftrightarrow> vs = map PStr ss \<and> list_all (text_ok m) ss"
proof (induction vs arbitrary: ss)
  case (Cons v vs)
  then show ?case by (cases ss) (auto simp: bind_r_Inr fp_text_ok)
qed auto

lemma length_remdups_eq: "length (remdups xs) = length xs \<longleftrightarrow> distinct xs"
  by (metis distinct_card distinct_remdups_id length_remdups_card_conv card_distinct)

lemma names_Inr: "names v mx e = Inr ns \<Longrightarrow> names_ok mx e ns \<and> (\<exists>ss. v = PList (map PStr ss) \<and> ns = sort ss)"
  unfolding names_def
  by (auto simp: case_PList_Inr bind_r_Inr guard_r_Inr count_int_Inr map_fp_text length_remdups_eq names_ok_def list_all_iff
      split: if_splits)

lemma names_strs: "names_ok mx e ns \<Longrightarrow> names (strs ns) mx e = Inr ns"
proof -
  assume ok: "names_ok mx e ns"
  then have "map_r (\<lambda>v. fp_text v 128) (map PStr ns) = Inr ns" by (simp add: map_fp_text names_ok_def)
  then show ?thesis
    using ok by (simp add: names_def strs_def names_ok_def length_remdups_eq count_int_def fp_count_def sort_key_id_if_sorted)
qed

definition attrs_ok :: "(string \<times> string) list \<Rightarrow> bool" where
  "attrs_ok as \<longleftrightarrow> sorted (map fst as) \<and> distinct (map fst as) \<and> length as \<le> 8
     \<and> list_all (\<lambda>(k, v). text_ok 64 k \<and> text_ok 128 v) as"

definition subject_ok :: "subject \<Rightarrow> bool" where
  "subject_ok s \<longleftrightarrow> text_ok 128 (sj_id s) \<and> text_ok 64 (sj_class s) \<and> attrs_ok (sj_attributes s)"

lemma map_attr:
  "map_r (\<lambda>(k, w). bind_r (fp_text (PStr k) 64) (\<lambda>k'. bind_r (fp_text w 128) (\<lambda>w'. Inr (k', w')))) as = Inr vals \<longleftrightarrow>
     as = map (\<lambda>(k, v). (k, PStr v)) vals \<and> list_all (\<lambda>(k, v). text_ok 64 k \<and> text_ok 128 v) vals"
proof (induction as arbitrary: vals)
  case (Cons a as)
  then show ?case by (cases a; cases vals) (auto simp: bind_r_Inr fp_text_ok)
qed auto

lemma map_fst_pairs [simp]: "map fst (map (\<lambda>(k, v). (k, f v)) xs) = map fst xs"
  by (induction xs) auto

lemma subject_of_ok:
  assumes "subject_of v = Inr s" "wf_pv v"
  shows "subject_ok s"
proof -
  from assms(1) obtain p attrs vals i c where s: "v = PDict p" "map_of p ''attributes'' = Some (PDict attrs)" "length attrs \<le> 8"
    "attrs = map (\<lambda>(k, v). (k, PStr v)) vals" "list_all (\<lambda>(k, v). text_ok 64 k \<and> text_ok 128 v) vals"
    "s = \<lparr>sj_id = i, sj_class = c, sj_attributes = sort_key fst vals\<rparr>" "text_ok 128 i" "text_ok 64 c"
    unfolding subject_of_def by (auto simp: case_PDict_Inr guard_r_Inr bind_r_Inr dget_Inr count_int_Inr map_attr fp_text_ok)
  have "distinct (map fst attrs)" using wf_keys wf_lookup assms(2) s(1,2) by metis
  then have "distinct (map fst vals)" unfolding s(4) map_fst_pairs .
  then show ?thesis using s by (auto simp: subject_ok_def attrs_ok_def distinct_map list_all_iff)
qed

lemma subject_of_pv:
  assumes "subject_ok s"
  shows "subject_of (subject_pv s) = Inr s"
proof -
  have "map_r (\<lambda>(k, w). bind_r (fp_text (PStr k) 64) (\<lambda>k'. bind_r (fp_text w 128) (\<lambda>w'. Inr (k', w')))) (map (\<lambda>(k, v). (k, PStr v)) (sj_attributes s))
      = Inr (sj_attributes s)"
    using assms unfolding map_attr by (simp add: subject_ok_def attrs_ok_def)
  then show ?thesis
    using assms
    by (simp add: subject_of_def subject_pv_def keys_are_def dget_def subject_ok_def attrs_ok_def count_int_def fp_count_def
        text_ok_def sort_key_id_if_sorted)
qed

definition domain_ok :: "fdomain \<Rightarrow> bool" where
  "domain_ok d \<longleftrightarrow> sorted (map sj_id (fd_principals d)) \<and> distinct (map sj_id (fd_principals d))
     \<and> 1 \<le> length (fd_principals d) \<and> length (fd_principals d) \<le> 32 \<and> list_all subject_ok (fd_principals d)
     \<and> names_ok 4 False (fd_actions d) \<and> set (fd_actions d) \<subseteq> set ACTIONS \<and> names_ok 32 False (fd_memory_classes d)
     \<and> names_ok 32 False (fd_purposes d) \<and> sorted (fd_label_sets d) \<and> distinct (fd_label_sets d)
     \<and> 1 \<le> length (fd_label_sets d) \<and> length (fd_label_sets d) \<le> 64 \<and> list_all (names_ok 32 True) (fd_label_sets d)
     \<and> (\<exists>n. domain_bound d = Inr n)"

lemma map_r_all: "map_r f xs = Inr ys \<Longrightarrow> (\<And>x y. x \<in> set xs \<Longrightarrow> f x = Inr y \<Longrightarrow> P y) \<Longrightarrow> list_all P ys"
proof (induction xs arbitrary: ys)
  case (Cons x xs)
  then obtain z zs where z: "f x = Inr z" "map_r f xs = Inr zs" "ys = z # zs" by (auto simp: bind_r_Inr)
  then have "P z" "list_all P zs" using Cons.prems(2) [of x z] Cons.IH [of zs] Cons.prems(2) by auto
  then show ?case by (simp add: z)
qed simp

lemma map_r_map: "(\<And>y. y \<in> set ys \<Longrightarrow> f (g y) = Inr y) \<Longrightarrow> map_r f (map g ys) = Inr ys"
  by (induction ys) auto

lemma domain_of_ok:
  assumes "domain_of v = Inr (d, normalized, labels)" "wf_pv v"
  shows "domain_ok d" "fd_principals d = sort_key sj_id normalized" "set labels = set (concat (fd_label_sets d))"
proof -
  from assms(1) obtain source where v: "v = PDict source" by (auto simp: domain_of_def case_PDict_Inr)
  from assms(1) obtain ps a actions m classes u purposes ls lsets n where c:
    "map_of source ''principals'' = Some ps" "\<exists>xs. ps = PList xs"
    "count_int (int (length (list_of ps))) 1 32 = Inr n" "map_r subject_of (list_of ps) = Inr normalized"
    "length (remdups (map sj_id normalized)) = length normalized"
    "names a 4 False = Inr actions" "names m 32 False = Inr classes" "names u 32 False = Inr purposes"
    "set actions \<subseteq> set ACTIONS" "1 \<le> int (length (list_of ls)) \<and> int (length (list_of ls)) \<le> 64"
    "map_r (\<lambda>x. names x 32 True) (list_of ls) = Inr lsets" "length (remdups lsets) = length lsets"
    "d = \<lparr>fd_principals = sort_key sj_id normalized, fd_actions = actions, fd_memory_classes = classes,
          fd_label_sets = sort lsets, fd_purposes = purposes\<rparr>" "\<exists>k. domain_bound d = Inr k" "labels = concat lsets"
    unfolding v domain_of_def Let_def pv.case
    by (auto simp only: guard_r_Inr bind_r_Inr dget_Inr is_list_conv sum.inject prod.inject count_int_Inr) blast
  have wf: "\<forall>p \<in> set (list_of ps). wf_pv p"
    using wf_lookup [OF assms(2) [unfolded v] c(1)] c(2) by (auto simp: list_all_iff)
  have dist: "distinct (map sj_id normalized)" "distinct lsets"
    using c(5,12) length_remdups_eq [of "map sj_id normalized"] length_remdups_eq [of lsets] by simp_all
  note ns = names_Inr [OF c(6)] names_Inr [OF c(7)] names_Inr [OF c(8)]
  have "list_all subject_ok normalized" by (rule map_r_all [OF c(4)]) (use wf subject_of_ok in blast)
  moreover have "list_all (names_ok 32 True) lsets" by (rule map_r_all [OF c(11)]) (use names_Inr in blast)
  ultimately show "domain_ok d"
    using c(3,9,10,13,14) dist ns map_r_length [OF c(4)] map_r_length [OF c(11)]
    by (auto simp: domain_ok_def distinct_map list_all_iff count_int_Inr)
  show "fd_principals d = sort_key sj_id normalized" "set labels = set (concat (fd_label_sets d))" using c(13,15) by auto
qed

lemma domain_of_pv:
  assumes "domain_ok d"
  shows "domain_of (domain_pv d) = Inr (d, fd_principals d, concat (fd_label_sets d))"
proof -
  have p: "map_r subject_of (map subject_pv (fd_principals d)) = Inr (fd_principals d)"
    using assms by (intro map_r_map subject_of_pv) (auto simp: domain_ok_def list_all_iff)
  have l: "map_r (\<lambda>x. names x 32 True) (map strs (fd_label_sets d)) = Inr (fd_label_sets d)"
    using assms by (intro map_r_map names_strs) (auto simp: domain_ok_def list_all_iff)
  have n: "names (strs (fd_actions d)) 4 False = Inr (fd_actions d)" "names (strs (fd_memory_classes d)) 32 False = Inr (fd_memory_classes d)"
    "names (strs (fd_purposes d)) 32 False = Inr (fd_purposes d)"
    using assms by (auto simp: domain_ok_def intro: names_strs)
  have k: "keys_are [(''principals'', a), (''actions'', b), (''memory_classes'', c), (''purposes'', e), (''label_sets'', f)] AXES" for a b c e f
    by (auto simp: keys_are_def AXES_def)
  have s: "sort_key sj_id (fd_principals d) = fd_principals d" "sort (fd_label_sets d) = fd_label_sets d"
    using assms by (auto simp: domain_ok_def intro: sort_key_id_if_sorted)
  have r: "length (remdups (map sj_id (fd_principals d))) = length (fd_principals d)"
    "length (remdups (fd_label_sets d)) = length (fd_label_sets d)"
    using assms length_remdups_eq [of "map sj_id (fd_principals d)"] length_remdups_eq [of "fd_label_sets d"]
    by (simp_all add: domain_ok_def)
  have b: "count_int (int (length (fd_principals d))) 1 32 = Inr (int (length (fd_principals d)))"
    "count_int (int (length (fd_label_sets d))) 1 64 = Inr (int (length (fd_label_sets d)))"
    "set (fd_actions d) \<subseteq> set ACTIONS"
    using assms by (auto simp: domain_ok_def count_int_Inr)
  have e: "\<lparr>fd_principals = fd_principals d, fd_actions = fd_actions d, fd_memory_classes = fd_memory_classes d,
      fd_label_sets = fd_label_sets d, fd_purposes = fd_purposes d\<rparr> = d" by simp
  obtain m where "domain_bound d = Inr m" using assms by (auto simp: domain_ok_def)
  then show ?thesis
    unfolding domain_of_def domain_pv_def pv.case Let_def
    using p l n k s r b by (simp add: dget_def) (simp only: e, simp)
qed


definition option_ok :: "('a \<Rightarrow> bool) \<Rightarrow> 'a option \<Rightarrow> bool" where
  "option_ok P x \<longleftrightarrow> (case x of None \<Rightarrow> True | Some y \<Rightarrow> P y)"

definition attribute_names :: "subject list \<Rightarrow> string list" where
  "attribute_names ss = concat (map (map fst \<circ> sj_attributes) ss)"

definition rule_ok :: "fdomain \<Rightarrow> prule \<Rightarrow> bool" where
  "rule_ok d r \<longleftrightarrow> text_ok 128 (ru_id r) \<and> ru_effect r \<in> {''allow'', ''deny''}
     \<and> (\<exists>keep. map fst (ru_selectors r) = filter keep SELECTORS)
     \<and> list_all (\<lambda>(k, ns). names_ok 64 True ns \<and> set ns \<subseteq> set (available d (fd_principals d) k)) (ru_selectors r)
     \<and> option_ok (\<lambda>ns. names_ok 32 True ns \<and> set ns \<subseteq> set (concat (fd_label_sets d))) (ru_required r)
     \<and> option_ok (\<lambda>ns. names_ok 32 True ns \<and> set ns \<subseteq> set (concat (fd_label_sets d))) (ru_forbidden r)
     \<and> option_ok (\<lambda>as. sorted (map fst as) \<and> distinct (map fst as) \<and> set (map fst as) \<subseteq> set (attribute_names (fd_principals d))
         \<and> list_all (\<lambda>(k, ns). names_ok 32 True ns) as) (ru_attributes r)"

lemma selector_of_ok:
  "selector_of rule key mx declared = Inr s \<Longrightarrow> option_ok (\<lambda>ns. names_ok mx True ns \<and> set ns \<subseteq> set declared) s
     \<and> (s = None \<longleftrightarrow> map_of rule key = None)"
  by (auto simp: selector_of_def option_ok_def bind_r_Inr guard_r_Inr dest: names_Inr split: option.splits)

lemma selectors_present:
  "map_r (\<lambda>key. bind_r (selector_of rule key mx (av key)) (\<lambda>s. Inr (key, s))) keys = Inr sels \<Longrightarrow>
     map fst [(k, ns). (k, Some ns) \<leftarrow> sels] = filter (\<lambda>k. map_of rule k \<noteq> None) keys
     \<and> list_all (\<lambda>(k, ns). names_ok mx True ns \<and> set ns \<subseteq> set (av k)) [(k, ns). (k, Some ns) \<leftarrow> sels]"
proof (induction keys arbitrary: sels)
  case (Cons k keys)
  then obtain s sels' where s: "selector_of rule k mx (av k) = Inr s" "sels = (k, s) # sels'"
    "map_r (\<lambda>key. bind_r (selector_of rule key mx (av key)) (\<lambda>s. Inr (key, s))) keys = Inr sels'"
    by (auto simp: bind_r_Inr)
  from Cons.IH [OF s(3)] selector_of_ok [OF s(1)] show ?case
    by (cases s) (auto simp: s(2) option_ok_def)
qed simp

lemma map_named:
  "map_r (\<lambda>(k, w). bind_r (names w mx True) (\<lambda>ns. Inr (k, ns))) as = Inr bs \<Longrightarrow>
     map fst bs = map fst as \<and> list_all (\<lambda>(k, ns). names_ok mx True ns) bs"
proof (induction as arbitrary: bs)
  case (Cons a as)
  then show ?case by (cases a) (auto simp: bind_r_Inr dest: names_Inr)
qed auto

lemma rule_of_cong:
  assumes "set n1 = set n2" "set l1 = set l2"
  shows "rule_of d n1 l1 v = rule_of d n2 l2 v"
proof -
  have av: "set (available d n1 k) = set (available d n2 k)" for k using assms(1) by (auto simp: available_def)
  have "selector_of rule k m (available d n1 k) = selector_of rule k m (available d n2 k)" for rule k m
    unfolding selector_of_def av by (rule refl)
  moreover have "selector_of rule k m l1 = selector_of rule k m l2" for rule k m
    unfolding selector_of_def assms(2) by (rule refl)
  moreover have "set (concat (map (map fst \<circ> sj_attributes) n1)) = set (concat (map (map fst \<circ> sj_attributes) n2))"
    using assms(1) by simp
  ultimately show ?thesis unfolding rule_of_def by (simp only:)
qed

lemma rule_of_Inr:
  assumes "rule_of d ss ls v = Inr r"
  obtains rule identity e sels required forbidden attrs where "v = PDict rule" "text_ok 128 identity" "e = ''allow'' \<or> e = ''deny''"
    "map_r (\<lambda>key. bind_r (selector_of rule key 64 (available d ss key)) (\<lambda>s. Inr (key, s))) SELECTORS = Inr sels"
    "selector_of rule ''required_labels'' 32 ls = Inr required" "selector_of rule ''forbidden_labels'' 32 ls = Inr forbidden"
    "case map_of rule ''attributes'' of None \<Rightarrow> attrs = None
     | Some a \<Rightarrow> \<exists>ad as. a = PDict ad \<and> set (map fst ad) \<subseteq> set (attribute_names ss) \<and> attrs = Some as
         \<and> map_r (\<lambda>(k, w). bind_r (names w 32 True) (\<lambda>ns. Inr (k, ns))) (sort_key fst ad) = Inr as"
    "r = \<lparr>ru_id = identity, ru_effect = e, ru_selectors = [(k, ns). (k, Some ns) \<leftarrow> sels], ru_required = required,
          ru_forbidden = forbidden, ru_attributes = attrs\<rparr>"
proof -
  from assms obtain rule where v: "v = PDict rule" by (auto simp: rule_of_def case_PDict_Inr)
  from assms obtain i identity e sels required forbidden attrs where c: "fp_text i 128 = Inr identity" "e = PStr ''allow'' \<or> e = PStr ''deny''"
    "map_r (\<lambda>key. bind_r (selector_of rule key 64 (available d ss key)) (\<lambda>s. Inr (key, s))) SELECTORS = Inr sels"
    "selector_of rule ''required_labels'' 32 ls = Inr required" "selector_of rule ''forbidden_labels'' 32 ls = Inr forbidden"
    "(case map_of rule ''attributes'' of
        None \<Rightarrow> Inr None
      | Some a \<Rightarrow>
          guard_r (is_dict a \<and> set (map fst (dict_of a)) \<subseteq> set (concat (map (map fst \<circ> sj_attributes) ss))) ValueError
            (bind_r (map_r (\<lambda>(k, w). bind_r (names w 32 True) (\<lambda>ns. Inr (k, ns))) (sort_key fst (dict_of a))) (\<lambda>attrs. Inr (Some attrs)))) = Inr attrs"
    "r = \<lparr>ru_id = identity, ru_effect = str_of e, ru_selectors = [(k, ns). (k, Some ns) \<leftarrow> sels], ru_required = required,
          ru_forbidden = forbidden, ru_attributes = attrs\<rparr>"
    unfolding v rule_of_def pv.case by (auto simp only: guard_r_Inr bind_r_Inr dget_Inr sum.inject; blast)
  from c(6) have a: "case map_of rule ''attributes'' of None \<Rightarrow> attrs = None
     | Some a \<Rightarrow> \<exists>ad as. a = PDict ad \<and> set (map fst ad) \<subseteq> set (attribute_names ss) \<and> attrs = Some as
         \<and> map_r (\<lambda>(k, w). bind_r (names w 32 True) (\<lambda>ns. Inr (k, ns))) (sort_key fst ad) = Inr as"
    by (cases "map_of rule ''attributes''") (auto simp: guard_r_Inr bind_r_Inr attribute_names_def)
  have i: "text_ok 128 identity" using c(1) by (simp add: fp_text_ok)
  from c(2) have e: "str_of e = ''allow'' \<or> str_of e = ''deny''" by auto
  show thesis by (rule that [OF v i e c(3,4,5) a c(7)])
qed

lemma rule_of_ok:
  assumes "rule_of d ss ls v = Inr r" "wf_pv v" "set ss = set (fd_principals d)" "set ls = set (concat (fd_label_sets d))"
  shows "rule_ok d r"
proof -
  have "rule_of d (fd_principals d) (concat (fd_label_sets d)) v = Inr r"
    using assms(1) rule_of_cong [OF assms(3,4)] by simp
  then obtain rule identity e sels required forbidden attrs where c: "v = PDict rule" "text_ok 128 identity" "e = ''allow'' \<or> e = ''deny''"
    "map_r (\<lambda>key. bind_r (selector_of rule key 64 (available d (fd_principals d) key)) (\<lambda>s. Inr (key, s))) SELECTORS = Inr sels"
    "selector_of rule ''required_labels'' 32 (concat (fd_label_sets d)) = Inr required"
    "selector_of rule ''forbidden_labels'' 32 (concat (fd_label_sets d)) = Inr forbidden"
    "case map_of rule ''attributes'' of None \<Rightarrow> attrs = None
     | Some a \<Rightarrow> \<exists>ad as. a = PDict ad \<and> set (map fst ad) \<subseteq> set (attribute_names (fd_principals d)) \<and> attrs = Some as
         \<and> map_r (\<lambda>(k, w). bind_r (names w 32 True) (\<lambda>ns. Inr (k, ns))) (sort_key fst ad) = Inr as"
    "r = \<lparr>ru_id = identity, ru_effect = e, ru_selectors = [(k, ns). (k, Some ns) \<leftarrow> sels], ru_required = required,
          ru_forbidden = forbidden, ru_attributes = attrs\<rparr>"
    by (rule rule_of_Inr)
  have attrs: "option_ok (\<lambda>as. sorted (map fst as) \<and> distinct (map fst as) \<and> set (map fst as) \<subseteq> set (attribute_names (fd_principals d))
         \<and> list_all (\<lambda>(k, ns). names_ok 32 True ns) as) attrs"
  proof (cases "map_of rule ''attributes''")
    case None
    then show ?thesis using c(7) by (simp add: option_ok_def)
  next
    case (Some a)
    with c(7) obtain ad as where a: "a = PDict ad" "set (map fst ad) \<subseteq> set (attribute_names (fd_principals d))" "attrs = Some as"
      "map_r (\<lambda>(k, w). bind_r (names w 32 True) (\<lambda>ns. Inr (k, ns))) (sort_key fst ad) = Inr as" by auto
    have "distinct (map fst ad)" using wf_keys wf_lookup [OF assms(2) [unfolded c(1)] Some] a(1) by metis
    then have d: "distinct (map fst (sort_key fst ad))" by (simp add: distinct_map)
    have m: "map fst as = map fst (sort_key fst ad)" "list_all (\<lambda>(k, ns). names_ok 32 True ns) as" using map_named [OF a(4)] by auto
    have "sorted (map fst as)" "distinct (map fst as)" "set (map fst as) \<subseteq> set (attribute_names (fd_principals d))"
      unfolding m(1) using d a(2) by simp_all
    then show ?thesis using m(2) a(3) by (simp add: option_ok_def)
  qed
  show ?thesis
    using c(2,3,8) selectors_present [OF c(4)] selector_of_ok [OF c(5)] selector_of_ok [OF c(6)] attrs
    by (auto simp: rule_ok_def)
qed

lemma map_of_filter_keys:
  assumes "map fst sels = filter keep keys" "distinct keys" "k \<in> set keys"
  shows "map_of sels k = None \<longleftrightarrow> \<not> keep k"
proof -
  have "fst ` set sels = set (filter keep keys)" using arg_cong [OF assms(1), of set] by simp
  then show ?thesis using assms(3) by (simp add: map_of_eq_None_iff)
qed

text \<open>Reading back the selectors of a rule from its dictionary.\<close>

lemma read_selectors:
  assumes "map fst sels = filter keep keys" "distinct keys"
    and "list_all (\<lambda>(k, ns). names_ok mx True ns \<and> set ns \<subseteq> set (av k)) sels"
    and "\<And>k. k \<in> set keys \<Longrightarrow> map_of rule k = map_option strs (map_of sels k)"
  shows "\<exists>out. map_r (\<lambda>key. bind_r (selector_of rule key mx (av key)) (\<lambda>s. Inr (key, s))) keys = Inr out
    \<and> [(k, ns). (k, Some ns) \<leftarrow> out] = sels"
  using assms
proof (induction keys arbitrary: sels)
  case (Cons k keys)
  show ?case
  proof (cases "keep k")
    case False
    have m: "map_of sels k = None" using map_of_filter_keys [OF Cons.prems(1,2)] False by simp
    have "selector_of rule k mx (av k) = Inr None" using Cons.prems(4) [of k] m by (simp add: selector_of_def)
    moreover have "\<exists>out. map_r (\<lambda>key. bind_r (selector_of rule key mx (av key)) (\<lambda>s. Inr (key, s))) keys = Inr out
        \<and> [(k, ns). (k, Some ns) \<leftarrow> out] = sels"
      using Cons.prems False by (intro Cons.IH) auto
    ultimately show ?thesis by auto
  next
    case True
    with Cons.prems(1) obtain ns sels' where s: "sels = (k, ns) # sels'" "map fst sels' = filter keep keys"
      by (cases sels) auto
    have "names (strs ns) mx True = Inr ns" using Cons.prems(3) s by (auto intro: names_strs)
    then have "selector_of rule k mx (av k) = Inr (Some ns)"
      using Cons.prems(3) Cons.prems(4) [of k] s by (simp add: selector_of_def)
    moreover have "map_of rule k' = map_option strs (map_of sels' k')" if "k' \<in> set keys" for k'
      using Cons.prems(2) Cons.prems(4) [of k'] that s by auto
    then have "\<exists>out. map_r (\<lambda>key. bind_r (selector_of rule key mx (av key)) (\<lambda>s. Inr (key, s))) keys = Inr out
        \<and> [(k, ns). (k, Some ns) \<leftarrow> out] = sels'"
      using Cons.prems s by (intro Cons.IH) auto
    ultimately show ?thesis using s(1) by auto
  qed
qed simp


definition rule_dict :: "prule \<Rightarrow> (string \<times> pv) list" where
  "rule_dict r = dict_of (rule_pv r)"

lemma rule_dict_lookup:
  assumes "set (map fst (ru_selectors r)) \<subseteq> set SELECTORS"
  shows "map_of (rule_dict r) ''id'' = Some (PStr (ru_id r))" "map_of (rule_dict r) ''effect'' = Some (PStr (ru_effect r))"
    "k \<in> set SELECTORS \<Longrightarrow> map_of (rule_dict r) k = map_option strs (map_of (ru_selectors r) k)"
    "map_of (rule_dict r) ''required_labels'' = map_option strs (ru_required r)"
    "map_of (rule_dict r) ''forbidden_labels'' = map_option strs (ru_forbidden r)"
    "map_of (rule_dict r) ''attributes'' = map_option (\<lambda>as. PDict (map (\<lambda>(k, ns). (k, strs ns)) as)) (ru_attributes r)"
proof -
  have sel: "map_of (map (\<lambda>(k, ns). (k, strs ns)) (ru_selectors r)) k = map_option strs (map_of (ru_selectors r) k)" for k
    by (simp add: map_of_map)
  have none: "map_of (ru_selectors r) k = None" if "k \<notin> set SELECTORS" for k
    using assms that by (auto simp: map_of_eq_None_iff)
  have k: "''required_labels'' \<notin> set SELECTORS" "''forbidden_labels'' \<notin> set SELECTORS" "''attributes'' \<notin> set SELECTORS"
    by (simp_all add: SELECTORS_def)
  note d = rule_dict_def rule_pv_def
  show "map_of (rule_dict r) ''id'' = Some (PStr (ru_id r))" "map_of (rule_dict r) ''effect'' = Some (PStr (ru_effect r))"
    by (simp_all add: d)
  show "map_of (rule_dict r) ''required_labels'' = map_option strs (ru_required r)"
    "map_of (rule_dict r) ''forbidden_labels'' = map_option strs (ru_forbidden r)"
    "map_of (rule_dict r) ''attributes'' = map_option (\<lambda>as. PDict (map (\<lambda>(k, ns). (k, strs ns)) as)) (ru_attributes r)"
    using none [OF k(1)] none [OF k(2)] none [OF k(3)]
    by (auto simp: d sel map_add_def split: option.splits)
  show "map_of (rule_dict r) k = map_option strs (map_of (ru_selectors r) k)" if "k \<in> set SELECTORS"
    using that by (auto simp: d sel map_add_def SELECTORS_def split: option.splits)
qed

lemma read_named:
  "list_all (\<lambda>(k, ns). names_ok mx True ns) as \<Longrightarrow>
     map_r (\<lambda>(k, w). bind_r (names w mx True) (\<lambda>ns. Inr (k, ns))) (map (\<lambda>(k, ns). (k, strs ns)) as) = Inr as"
  by (induction as) (auto simp: names_strs)

lemma selector_of_option:
  assumes "map_of rule k = map_option strs s" "option_ok (\<lambda>ns. names_ok mx True ns \<and> set ns \<subseteq> set declared) s"
  shows "selector_of rule k mx declared = Inr s"
  using assms by (cases s) (auto simp: selector_of_def option_ok_def names_strs)

lemma optional_key: "set (map fst (case x of None \<Rightarrow> [] | Some y \<Rightarrow> [(k, f y)])) \<subseteq> {k}"
  by (cases x) auto

lemma rule_keys:
  assumes "set (map fst (ru_selectors r)) \<subseteq> set SELECTORS"
  shows "set (map fst (rule_dict r)) \<subseteq> set ([''id'', ''effect''] @ SELECTORS @ [''attributes'', ''required_labels'', ''forbidden_labels''])"
  unfolding rule_dict_def rule_pv_def dict_of.simps map_append map_fst_pairs set_append
  by (intro Un_least; (rule order_trans [OF optional_key])?) (use assms in auto)

lemma rule_of_pv:
  assumes "rule_ok d r"
  shows "rule_of d (fd_principals d) (concat (fd_label_sets d)) (rule_pv r) = Inr r"
proof -
  obtain keep where keep: "map fst (ru_selectors r) = filter keep SELECTORS" using assms by (auto simp: rule_ok_def)
  then have sub: "set (map fst (ru_selectors r)) \<subseteq> set SELECTORS" by simp
  note look = rule_dict_lookup [OF sub]
  obtain out where out: "map_r (\<lambda>key. bind_r (selector_of (rule_dict r) key 64 (available d (fd_principals d) key)) (\<lambda>s. Inr (key, s))) SELECTORS = Inr out"
    "[(k, ns). (k, Some ns) \<leftarrow> out] = ru_selectors r"
    using read_selectors [OF keep, where mx = 64 and av = "available d (fd_principals d)" and rule = "rule_dict r"] look(3) assms
    by (auto simp: rule_ok_def SELECTORS_def)
  have rf: "selector_of (rule_dict r) ''required_labels'' 32 (concat (fd_label_sets d)) = Inr (ru_required r)"
    "selector_of (rule_dict r) ''forbidden_labels'' 32 (concat (fd_label_sets d)) = Inr (ru_forbidden r)"
    using assms look(4,5) unfolding rule_ok_def by (intro selector_of_option; blast)+
  have attrs: "(case map_of (rule_dict r) ''attributes'' of
        None \<Rightarrow> Inr None
      | Some a \<Rightarrow>
          guard_r (is_dict a \<and> set (map fst (dict_of a)) \<subseteq> set (concat (map (map fst \<circ> sj_attributes) (fd_principals d)))) ValueError
            (bind_r (map_r (\<lambda>(k, w). bind_r (names w 32 True) (\<lambda>ns. Inr (k, ns))) (sort_key fst (dict_of a))) (\<lambda>attrs. Inr (Some attrs))))
      = Inr (ru_attributes r)"
  proof (cases "ru_attributes r")
    case None
    then show ?thesis using look(6) by simp
  next
    case (Some as)
    then have as: "sorted (map fst as)" "set (map fst as) \<subseteq> set (attribute_names (fd_principals d))" "list_all (\<lambda>(k, ns). names_ok 32 True ns) as"
      using assms by (auto simp: rule_ok_def option_ok_def)
    have s: "sort_key fst (map (\<lambda>(k, ns). (k, strs ns)) as) = map (\<lambda>(k, ns). (k, strs ns)) as"
      by (rule sort_key_id_if_sorted) (simp only: map_fst_pairs as)
    have "set (map fst (map (\<lambda>(k, ns). (k, strs ns)) as)) \<subseteq> set (concat (map (map fst \<circ> sj_attributes) (fd_principals d)))"
      unfolding map_fst_pairs using as(2) by (simp only: attribute_names_def)
    then show ?thesis
      using look(6) Some s read_named [OF as(3)] by (simp del: map_map set_map set_concat)
  qed
  have keys: "''id'' \<in> set (map fst (rule_dict r)) \<and> ''effect'' \<in> set (map fst (rule_dict r))
      \<and> set (map fst (rule_dict r)) \<subseteq> set ([''id'', ''effect''] @ SELECTORS @ [''attributes'', ''required_labels'', ''forbidden_labels''])"
    using rule_keys [OF sub] look(1,2) by (metis map_of_eq_None_iff option.distinct(1) list.set_map)
  have pv: "rule_pv r = PDict (rule_dict r)" by (simp add: rule_dict_def rule_pv_def)
  have ids: "dget (rule_dict r) ''id'' = Inr (PStr (ru_id r))" "dget (rule_dict r) ''effect'' = Inr (PStr (ru_effect r))"
    "fp_text (PStr (ru_id r)) 128 = Inr (ru_id r)" "PStr (ru_effect r) = PStr ''allow'' \<or> PStr (ru_effect r) = PStr ''deny''"
    using look(1,2) assms by (auto simp: dget_def rule_ok_def text_ok_def)
  show ?thesis
    unfolding rule_of_def pv pv.case
    by (simp only: keys guard_r_simps ids bind_r_simps out rf attrs str_of.simps simp_thms) simp
qed

lemma rules_of_ok:
  "rules_of d ss ls seen vs = Inr rs \<Longrightarrow> \<forall>v \<in> set vs. wf_pv v \<Longrightarrow> set ss = set (fd_principals d) \<Longrightarrow>
     set ls = set (concat (fd_label_sets d)) \<Longrightarrow>
     list_all (rule_ok d) rs \<and> distinct (map ru_id rs) \<and> set (map ru_id rs) \<inter> set seen = {} \<and> length rs = length vs"
proof (induction vs arbitrary: seen rs)
  case (Cons v vs)
  then obtain r rs' where r: "rule_of d ss ls v = Inr r" "ru_id r \<notin> set seen" "rules_of d ss ls (ru_id r # seen) vs = Inr rs'" "rs = r # rs'"
    by (auto simp: bind_r_Inr guard_r_Inr)
  from Cons.IH [OF r(3)] Cons.prems rule_of_ok [OF r(1)] r(2,4) show ?case by auto
qed auto

lemma rules_of_pv:
  "list_all (rule_ok d) rs \<Longrightarrow> distinct (map ru_id rs) \<Longrightarrow> set (map ru_id rs) \<inter> set seen = {} \<Longrightarrow>
     rules_of d (fd_principals d) (concat (fd_label_sets d)) seen (map rule_pv rs) = Inr rs"
proof (induction rs arbitrary: seen)
  case (Cons r rs)
  have "rules_of d (fd_principals d) (concat (fd_label_sets d)) (ru_id r # seen) (map rule_pv rs) = Inr rs"
    using Cons.prems by (intro Cons.IH) auto
  then show ?case using Cons.prems rule_of_pv [of d r] by simp
qed simp

definition policy_ok :: "fpolicy \<Rightarrow> bool" where
  "policy_ok p \<longleftrightarrow> domain_ok (po_domain p) \<and> list_all (rule_ok (po_domain p)) (po_rules p)
     \<and> sorted (map ru_id (po_rules p)) \<and> distinct (map ru_id (po_rules p)) \<and> length (po_rules p) \<le> 128"

lemma normalize_ok:
  assumes "normalize pol = Inr p" "wf_pv (PDict pol)"
  shows "policy_ok p"
proof -
  from assms(1) obtain source d ss ls rules rs where c: "map_of pol ''domain'' = Some source" "domain_of source = Inr (d, ss, ls)"
    "map_of pol ''rules'' = Some (PList rules)" "length rules \<le> 128" "rules_of d ss ls [] rules = Inr rs"
    "p = \<lparr>po_domain = d, po_rules = sort_key ru_id rs\<rparr>"
    unfolding normalize_def by (auto simp: bind_r_Inr guard_r_Inr dget_Inr count_int_Inr)
  have wf: "wf_pv source" "\<forall>v \<in> set rules. wf_pv v"
    using wf_lookup [OF assms(2)] wf_element c(1,3) by blast+
  note d = domain_of_ok [OF c(2) wf(1)]
  have "set ss = set (fd_principals d)" using d(2) by simp
  from rules_of_ok [OF c(5) wf(2) this d(3)] d(1) c(4,6) show ?thesis
    by (auto simp: policy_ok_def distinct_map list_all_iff)
qed

text \<open>Normalizing a normal form changes nothing, as long as its encoding fits the size limit.\<close>

lemma normalize_fixed:
  assumes "policy_ok p" "wire (policy_pv p) = Inr b"
  shows "normalize (dict_of (policy_pv p)) = Inr p"
proof -
  have d: "domain_of (domain_pv (po_domain p)) = Inr (po_domain p, fd_principals (po_domain p), concat (fd_label_sets (po_domain p)))"
    using assms(1) by (intro domain_of_pv) (simp add: policy_ok_def)
  have r: "rules_of (po_domain p) (fd_principals (po_domain p)) (concat (fd_label_sets (po_domain p))) [] (map rule_pv (po_rules p))
      = Inr (po_rules p)"
    using assms(1) by (intro rules_of_pv) (simp_all add: policy_ok_def)
  have s: "sort_key ru_id (po_rules p) = po_rules p" using assms(1) by (simp add: policy_ok_def sort_key_id_if_sorted)
  have n: "count_int (int (length (po_rules p))) 0 128 = Inr (int (length (po_rules p)))"
    using assms(1) by (simp add: policy_ok_def count_int_Inr)
  show ?thesis
    using assms(2) d r s n
    by (simp add: normalize_def policy_pv_def keys_are_def dget_def)
qed

section \<open>Unreviewed activations only narrow\<close>

lemma deny_allows_nothing: "deny d = Inr p \<Longrightarrow> \<not> allows_request p q"
  by (cases q) (auto simp: deny_def normalize_def bind_r_Inr guard_r_Inr dget_Inr allows_request_def allows_norm_def
      split: option.splits if_splits)

definition allowed_by :: "activation list option \<Rightarrow> request \<Rightarrow> bool" where
  "allowed_by journal q \<longleftrightarrow> (\<exists>a. active journal = Inr (Some a) \<and> allows_request (ap_policy a) q)"

lemma active_policy_ok:
  assumes "active (Some rows) = Inr (Some a)" "wf_pv (PDict (av_policy (last rows)))"
  shows "policy_ok (ap_policy a)" "digest (policy_pv (ap_policy a)) = Inr (ap_hash a)" "normalize (av_policy (last rows)) = Inr (ap_policy a)"
    "ap_generation a = length rows"
  using assms normalize_ok by (auto simp: active_def bind_r_Inr guard_r_Inr)

lemma check_certificate_Inr:
  assumes "check_certificate clk vs va stored journal now cert = Inr (body, proposed, change)"
  obtains current before where "active journal = Inr current" "before_policy current proposed = Inr before"
    "difference (dict_of (policy_pv before)) proposed = Inr change"
  using assms unfolding check_certificate_def Let_def
  by (auto simp only: bind_r_Inr guard_r_Inr sum.inject prod.inject)

lemma active_appended:
  assumes "normalize proposed = Inr after" "digest (policy_pv after) = Inr h"
  shows "active (Some (rows @ [\<lparr>av_generation = PInt (int (length rows) + 1), av_policy = proposed, av_policy_hash = h\<rparr>]))
    = Inr (Some \<lparr>ap_policy = after, ap_hash = h, ap_generation = length rows + 1\<rparr>)"
  using assms by (simp add: active_def num_eq_def)

lemma activate_Inr:
  assumes "activate clk vs va stored journal now cert review = Inr rows'"
    and "\<And>rows. journal = Some rows \<Longrightarrow> wf_pv (PDict (av_policy (last rows)))"
  obtains after change body proposed where "active (Some rows') = Inr (Some after)"
    "check_certificate clk vs va stored journal now cert = Inr (body, proposed, change)"
    "ch_no_widening change \<or> (\<exists>r. review = Some r \<and> check_review clk vs va now cert body r = Inr ())"
    "ap_generation after = Suc (length (case journal of None \<Rightarrow> [] | Some rows \<Rightarrow> rows))"
    "ch_no_widening change \<longrightarrow> (\<forall>q. allowed_by (Some rows') q \<longrightarrow> allowed_by journal q)"
proof -
  from assms(1) obtain body proposed change current where c:
    "check_certificate clk vs va stored journal now cert = Inr (body, proposed, change)"
    "(if ch_no_widening change then Inr () else case review of None \<Rightarrow> Inl PermissionError
       | Some r \<Rightarrow> check_review clk vs va now cert body r) = Inr ()"
    "active journal = Inr current"
    "rows' = (case journal of None \<Rightarrow> [] | Some rows \<Rightarrow> rows) @ [\<lparr>av_generation = PInt (int (generation_of current) + 1),
       av_policy = proposed, av_policy_hash = ch_new_hash change\<rparr>]"
    unfolding activate_def by (auto simp: bind_r_Inr)
  from check_certificate_Inr [OF c(1)] c(3) obtain before where b: "before_policy current proposed = Inr before"
    "difference (dict_of (policy_pv before)) proposed = Inr change" by (metis sum.inject(2))
  from b(2) obtain before' after where n: "normalize (dict_of (policy_pv before)) = Inr before'" "normalize proposed = Inr after"
    "policy_difference before' after = Inr change" by (auto simp: difference_def bind_r_Inr)
  note diff = policy_difference_Inr [OF n(3)]
  have len: "generation_of current = length (case journal of None \<Rightarrow> [] | Some rows \<Rightarrow> rows)"
    using c(3) by (auto simp: active_def bind_r_Inr guard_r_Inr generation_of_def split: option.splits)
  have act: "active (Some rows') = Inr (Some \<lparr>ap_policy = after, ap_hash = ch_new_hash change,
      ap_generation = length (case journal of None \<Rightarrow> [] | Some rows \<Rightarrow> rows) + 1\<rparr>)"
    unfolding c(4) len by (rule active_appended [OF n(2) diff(11)])
  have nar: "\<forall>q. allowed_by (Some rows') q \<longrightarrow> allowed_by journal q" if "ch_no_widening change"
  proof (intro allI impI)
    fix q
    assume "allowed_by (Some rows') q"
    then have "allows_request after q" by (simp add: allowed_by_def act)
    then have old: "allows_request before' q" using diff(5) that by blast
    show "allowed_by journal q"
    proof (cases current)
      case None
      then have "\<exists>d. deny d = Inr before" using b(1) by (auto simp: before_policy_def bind_r_Inr)
      then have empty_rules: "po_rules before = []" by (auto simp: deny_def normalize_def bind_r_Inr guard_r_Inr dget_Inr)
      then have "po_rules before' = []"
        using n(1) by (auto simp: normalize_def bind_r_Inr guard_r_Inr dget_Inr policy_pv_def)
      then show ?thesis using old
        by (cases q) (auto simp: allows_request_def allows_norm_def Let_def split: option.splits if_splits)
    next
      case (Some a)
      then obtain rows where j: "journal = Some rows" using c(3) by (cases journal) (auto simp: active_def)
      have ok: "policy_ok (ap_policy a)" using active_policy_ok(1) c(3) j Some assms(2) by blast
      have "before = ap_policy a" using b(1) Some by (simp add: before_policy_def)
      moreover have "wire (policy_pv before') = Inr (dumps (policy_pv before'))" using diff(10) by (auto simp: digest_Inr wire_Inr)
      moreover obtain w where "wire (PDict (dict_of (policy_pv before))) = Inr w" using n(1) by (auto simp: normalize_def bind_r_Inr)
      then have "wire (policy_pv before) = Inr w" by (simp add: policy_pv_def)
      ultimately have "before' = ap_policy a" using normalize_fixed [OF ok] n(1) by auto
      then show ?thesis using old c(3) Some by (auto simp: allowed_by_def)
    qed
  qed
  show thesis
    by (rule that [OF act c(1)]) (use c(2) nar in \<open>auto split: if_splits option.splits\<close>)
qed

section \<open>Properties\<close>

text \<open>
  C10: Deny overrides, the domain is closed and the order of rules is irrelevant: a request is
  allowed exactly when its principal, action, class, label set and purpose are all declared,
  some rule applies to it, and no rule that applies denies.
\<close>

theorem allows_iff_undenied:
  "allows_norm pol who action memory_class labels purpose \<longleftrightarrow>
     in_domain (po_domain pol) (who, action, memory_class, labels, purpose)
     \<and> (\<exists>s. find_subject (po_domain pol) who = Some s
          \<and> (\<exists>r \<in> set (po_rules pol). rule_applies r s who action memory_class labels purpose)
          \<and> \<not> (\<exists>r \<in> set (po_rules pol). rule_applies r s who action memory_class labels purpose \<and> ru_effect r = ''deny''))"
  by (auto simp: allows_norm_def Let_def allows_loop_iff in_domain_def dest: find_subject_Some split: option.splits)

text \<open>
  C11: The exhaustive change analysis is sound and complete for every request, not only those
  of the declared domains: \<open>no_widening\<close> holds exactly when no request at all is allowed by the
  new policy and not by the old one, the counts are the numbers of requests gained and lost, and
  unless witnesses were truncated the two witness lists are exactly those requests.
\<close>

theorem difference_decides_widening:
  assumes "difference old new = Inr c" "normalize old = Inr before" "normalize new = Inr after"
  shows "(ch_no_widening c \<longleftrightarrow> (\<forall>q. allows_request after q \<longrightarrow> allows_request before q))
    \<and> ch_widening_count c = card {q. allows_request after q \<and> \<not> allows_request before q}
    \<and> ch_narrowing_count c = card {q. allows_request before q \<and> \<not> allows_request after q}
    \<and> (\<not> ch_truncated c \<longrightarrow> set (ch_added c) = {q. allows_request after q \<and> \<not> allows_request before q}
         \<and> set (ch_removed c) = {q. allows_request before q \<and> \<not> allows_request after q})"
proof -
  have "policy_difference before after = Inr c" using assms by (simp add: difference_def)
  from policy_difference_Inr [OF this] show ?thesis by blast
qed

definition sample_domain :: pv where
  "sample_domain = PDict [(''principals'', PList [PDict [(''id'', PStr ''u''), (''class'', PStr ''k''), (''attributes'', PDict [])]]),
     (''actions'', PList [PStr ''read'']), (''memory_classes'', PList [PStr ''m'']),
     (''label_sets'', PList [PList []]), (''purposes'', PList [PStr ''p''])]"

definition sample_policy_dict :: "pv list \<Rightarrow> (string \<times> pv) list" where
  "sample_policy_dict rules = [(''version'', PInt 1), (''domain'', sample_domain), (''rules'', PList rules)]"

definition sample_fdomain :: fdomain where
  "sample_fdomain = \<lparr>fd_principals = [\<lparr>sj_id = ''u'', sj_class = ''k'', sj_attributes = []\<rparr>], fd_actions = [''read''],
     fd_memory_classes = [''m''], fd_label_sets = [[]], fd_purposes = [''p'']\<rparr>"

definition sample_rule :: pv where
  "sample_rule = PDict [(''id'', PStr ''r''), (''effect'', PStr ''allow'')]"

definition sample_policy_norm :: "prule list \<Rightarrow> fpolicy" where
  "sample_policy_norm rs = \<lparr>po_domain = sample_fdomain, po_rules = rs\<rparr>"

definition sample_prule :: prule where
  "sample_prule = \<lparr>ru_id = ''r'', ru_effect = ''allow'', ru_selectors = [], ru_required = None, ru_forbidden = None, ru_attributes = None\<rparr>"

lemmas small_eval = tree_ok_def item_bytes_def bit_length_def nat_bits.simps MAX_BYTES_def length_quote_simps py_len_simps esc_def
  Let_def show_int_def show_nat.simps length_quote_hash py_len_hash sample_domain_def sample_policy_dict_def sample_rule_def

lemma sample_domain_of: "domain_of sample_domain
    = Inr (sample_fdomain, fd_principals sample_fdomain, [])"
  by (simp add: domain_of_def sample_domain_def sample_fdomain_def keys_are_def AXES_def dget_def count_int_def fp_count_def
      subject_of_def names_def fp_text_def py_len_simps NUL_char ACTIONS_def domain_bound_def product_size_def MAX_TUPLES_def insert_commute)

lemma sample_policy_wire: "wire (PDict (sample_policy_dict [])) = Inr (dumps (PDict (sample_policy_dict [])))"
  "wire (PDict (sample_policy_dict [sample_rule])) = Inr (dumps (PDict (sample_policy_dict [sample_rule])))"
  by (rule wire_small; simp add: small_eval)+

lemma sample_normalize: "normalize (sample_policy_dict []) = Inr (sample_policy_norm [])"
  "normalize (sample_policy_dict [sample_rule]) = Inr (sample_policy_norm [sample_prule])"
proof -
  have k: "keys_are (sample_policy_dict rs) [''version'', ''domain'', ''rules'']" "map_of (sample_policy_dict rs) ''version'' = Some (PInt 1)"
    "dget (sample_policy_dict rs) ''domain'' = Inr sample_domain" "dget (sample_policy_dict rs) ''rules'' = Inr (PList rs)" for rs
    by (simp_all add: sample_policy_dict_def keys_are_def dget_def)
  have r: "rule_of sample_fdomain ss [] sample_rule = Inr sample_prule" for ss
    by (simp add: rule_of_def sample_rule_def sample_prule_def SELECTORS_def dget_def fp_text_def py_len_simps NUL_char selector_of_def)
  show "normalize (sample_policy_dict []) = Inr (sample_policy_norm [])"
    "normalize (sample_policy_dict [sample_rule]) = Inr (sample_policy_norm [sample_prule])"
    by (simp_all add: normalize_def sample_policy_wire k sample_domain_of count_int_def fp_count_def r sample_policy_norm_def)
qed

lemma sample_policy_pv_wire:
  "\<exists>b. wire (policy_pv (sample_policy_norm [])) = Inr b" "\<exists>b. wire (policy_pv (sample_policy_norm [sample_prule])) = Inr b"
  using wire_small [of "policy_pv (sample_policy_norm [])"] wire_small [of "policy_pv (sample_policy_norm [sample_prule])"]
  by (simp_all add: small_eval policy_pv_def domain_pv_def sample_policy_norm_def sample_fdomain_def strs_def subject_pv_def rule_pv_def sample_prule_def)



definition sample_request :: request where
  "sample_request = (''u'', ''read'', ''m'', [], ''p'')"

lemma sample_allows:
  "allows_request (sample_policy_norm [sample_prule]) sample_request" "\<not> allows_request (sample_policy_norm []) q"
proof -
  show "allows_request (sample_policy_norm [sample_prule]) sample_request"
    by (simp add: allows_request_def sample_request_def allows_norm_def sample_policy_norm_def sample_fdomain_def find_subject_def
        rule_applies_def sample_prule_def)
  show "\<not> allows_request (sample_policy_norm []) q"
    by (cases q) (auto simp: allows_request_def allows_norm_def sample_policy_norm_def Let_def split: option.splits)
qed

lemma sample_rows_digest: "rows_digest [] = Inr (sha256_hex [])" "\<exists>h. rows_digest [sample_request] = Inr h"
proof -
  have "wire (request_row sample_request) = Inr (dumps (request_row sample_request))"
    by (rule wire_small; simp add: request_row_def sample_request_def small_eval)
  then show "\<exists>h. rows_digest [sample_request] = Inr h" by (simp add: rows_digest_def)
qed (simp add: rows_digest_def)

lemma digest_ok: "wire v = Inr b \<Longrightarrow> digest v = Inr (sha256_hex b)"
  by (simp add: digest_def)

lemma sample_joint_digest:
  "\<exists>h. digest (PDict [(''actions'', strs [''read'']), (''memory_classes'', strs [''m'']), (''purposes'', strs [''p'']),
     (''principals'', strs [''u'']), (''label_sets'', PList (map strs [[]]))]) = Inr h"
proof -
  let ?v = "PDict [(''actions'', strs [''read'']), (''memory_classes'', strs [''m'']), (''purposes'', strs [''p'']),
     (''principals'', strs [''u'']), (''label_sets'', PList (map strs [[]]))]"
  have "wire ?v = Inr (dumps ?v)" by (rule wire_small; simp add: strs_def small_eval)
  then show ?thesis by (simp add: digest_def)
qed

lemma sample_difference:
  assumes "p \<in> {sample_policy_norm [], sample_policy_norm [sample_prule]}"
  shows "\<exists>c. policy_difference p (sample_policy_norm []) = Inr c"
proof -
  have doms: "po_domain p = sample_fdomain" "po_domain (sample_policy_norm []) = sample_fdomain"
    using assms by (auto simp: sample_policy_norm_def)
  have axes: "sorted_set (fd_actions sample_fdomain @ fd_actions sample_fdomain) = [''read'']"
    "sorted_set (fd_memory_classes sample_fdomain @ fd_memory_classes sample_fdomain) = [''m'']"
    "sorted_set (fd_purposes sample_fdomain @ fd_purposes sample_fdomain) = [''p'']"
    "sorted_set (map sj_id (fd_principals sample_fdomain @ fd_principals sample_fdomain)) = [''u'']"
    "sorted_set (fd_label_sets sample_fdomain @ fd_label_sets sample_fdomain) = [[]]"
    by (simp_all add: sample_fdomain_def sorted_set_def)
  have req: "requests [''u''] [''read''] [''m''] [[]] [''p''] = [sample_request]" by (simp add: requests_def sample_request_def)
  have size: "product_size [length [''u''], length [''read''], length [''m''], length [[] :: string list], length [''p'']] = Inr 1"
    by (simp add: product_size_def count_int_def fp_count_def MAX_TUPLES_def)
  obtain w1 w2 where w: "wire (policy_pv (sample_policy_norm [])) = Inr w1" "wire (policy_pv (sample_policy_norm [sample_prule])) = Inr w2"
    using sample_policy_pv_wire by blast
  obtain h where h: "rows_digest [sample_request] = Inr h" using sample_rows_digest(2) by blast
  obtain j where j: "digest (PDict [(''actions'', strs [''read'']), (''memory_classes'', strs [''m'']), (''purposes'', strs [''p'']),
     (''principals'', strs [''u'']), (''label_sets'', PList (map strs [[]]))]) = Inr j" using sample_joint_digest by blast
  show ?thesis
    unfolding policy_difference_def Let_def doms axes req size bind_r_simps j
    using assms sample_allows digest_ok [OF w(1)] digest_ok [OF w(2)] h sample_rows_digest(1) by auto
qed

theorem difference_decides_widening_witness:
  "\<exists>c. difference (sample_policy_dict [sample_rule]) (sample_policy_dict []) = Inr c \<and> ch_no_widening c
    \<and> (\<forall>q. allows_request (sample_policy_norm []) q \<longrightarrow> allows_request (sample_policy_norm [sample_prule]) q)"
proof -
  obtain c where "policy_difference (sample_policy_norm [sample_prule]) (sample_policy_norm []) = Inr c"
    using sample_difference by blast
  then have d: "difference (sample_policy_dict [sample_rule]) (sample_policy_dict []) = Inr c"
    by (simp add: difference_def sample_normalize)
  from difference_decides_widening [OF d sample_normalize(2,1)] sample_allows(2) d show ?thesis by auto
qed

text \<open>
  Normalizing is idempotent: the normal form of an accepted policy, written out as a
  policy again, is accepted and is its own normal form, whenever its encoding fits the size
  limit, so recomputing a certified difference compares the same policies.
\<close>

theorem normalize_idempotent:
  assumes "normalize pol = Inr p" "wf_pv (PDict pol)" "wire (policy_pv p) = Inr b"
  shows "normalize (dict_of (policy_pv p)) = Inr p"
  by (rule normalize_fixed [OF normalize_ok [OF assms(1,2)] assms(3)])

theorem normalize_idempotent_witness:
  "normalize (dict_of (policy_pv (sample_policy_norm [sample_prule]))) = Inr (sample_policy_norm [sample_prule])"
proof -
  have wf: "wf_pv (PDict (sample_policy_dict [sample_rule]))"
    by (simp add: sample_policy_dict_def sample_domain_def sample_rule_def)
  obtain b where b: "wire (policy_pv (sample_policy_norm [sample_prule])) = Inr b" using sample_policy_pv_wire(2) by blast
  show ?thesis by (rule normalize_idempotent [OF sample_normalize(2) wf b])
qed

text \<open>
  C12: An activation without a review never widens: when \<open>activate\<close> accepts a change with no
  review receipt, the journal's new last row is the active policy with the next generation, and
  every request it allows was allowed before; from an unmanaged store that means none at all.
\<close>

theorem unreviewed_activation_narrows:
  assumes "activate clk verify_signed verify_anchor stored journal now certificate None = Inr rows"
    and "\<And>old. journal = Some old \<Longrightarrow> wf_pv (PDict (av_policy (last old)))"
  shows "(\<exists>a. active (Some rows) = Inr (Some a) \<and> ap_generation a = length rows)
    \<and> (\<forall>q. allowed_by (Some rows) q \<longrightarrow> allowed_by journal q)"
proof -
  obtain a and change :: change and body where got: "active (Some rows) = Inr (Some a)"
    "ch_no_widening change \<or> (\<exists>r. None = Some r
      \<and> check_review clk verify_signed verify_anchor now certificate body r = Inr ())"
    "ch_no_widening change \<longrightarrow> (\<forall>q. allowed_by (Some rows) q \<longrightarrow> allowed_by journal q)"
    by (rule activate_Inr [OF assms], assumption, rule that, assumption+)
  then have "ch_no_widening change" by simp
  moreover from got(1) have "ap_generation a = length rows"
    by (auto simp: active_def bind_r_Inr guard_r_Inr)
  ultimately show ?thesis using got by blast
qed


definition sample_joint :: pv where
  "sample_joint = PDict [(''actions'', strs [''read'']), (''memory_classes'', strs [''m'']), (''purposes'', strs [''p'']),
     (''principals'', strs [''u'']), (''label_sets'', PList (map strs [[]]))]"

definition sample_change :: change where
  "sample_change = \<lparr>ch_old_hash = sha256_hex (dumps (policy_pv (sample_policy_norm []))),
     ch_new_hash = sha256_hex (dumps (policy_pv (sample_policy_norm []))), ch_domain_hash = sha256_hex (dumps sample_joint),
     ch_tuples_checked = 1, ch_widening_count = 0, ch_narrowing_count = 0, ch_no_widening = True, ch_added = [], ch_removed = [],
     ch_widening_digest = sha256_hex [], ch_narrowing_digest = sha256_hex [], ch_truncated = False\<rparr>"

definition sample_body :: pv where
  "sample_body = PDict [(''type'', PStr ''unimem.policy.change''), (''version'', PInt 1), (''difference'', change_pv sample_change),
     (''generation'', PInt 0), (''issued_at'', PStr ''t0''), (''expires_at'', PStr ''t9'')]"

definition sample_signed :: pv where
  "sample_signed = PDict [(''authority'', PStr ''operator''), (''record'', sample_body)]"

definition sample_certificate :: pv where
  "sample_certificate = PDict [(''certificate'', sample_signed), (''anchor'', PDict [(''statement'', PDict [(''record'',
     PDict [(''event'', PStr ''memory-policy-change''),
            (''statement'', PDict [(''certificate_digest'', PStr (sha256_hex (dumps sample_signed)))])])])])]"

lemma sample_change_computed: "policy_difference (sample_policy_norm []) (sample_policy_norm []) = Inr sample_change"
proof -
  obtain w where w: "wire (policy_pv (sample_policy_norm [])) = Inr w" using sample_policy_pv_wire by blast
  have w': "digest (policy_pv (sample_policy_norm [])) = Inr (sha256_hex (dumps (policy_pv (sample_policy_norm []))))"
    using w by (auto simp: digest_Inr wire_Inr)
  obtain j where "digest sample_joint = Inr j" using sample_joint_digest by (auto simp: sample_joint_def)
  then have j: "digest sample_joint = Inr (sha256_hex (dumps sample_joint))" by (auto simp: digest_Inr wire_Inr)
  obtain c where c: "policy_difference (sample_policy_norm []) (sample_policy_norm []) = Inr c" using sample_difference by blast
  have axes: "sorted_set (fd_actions sample_fdomain @ fd_actions sample_fdomain) = [''read'']"
    "sorted_set (fd_memory_classes sample_fdomain @ fd_memory_classes sample_fdomain) = [''m'']"
    "sorted_set (fd_purposes sample_fdomain @ fd_purposes sample_fdomain) = [''p'']"
    "sorted_set (map sj_id (fd_principals sample_fdomain @ fd_principals sample_fdomain)) = [''u'']"
    "sorted_set (fd_label_sets sample_fdomain @ fd_label_sets sample_fdomain) = [[]]"
    by (simp_all add: sample_fdomain_def sorted_set_def)
  have dm: "po_domain (sample_policy_norm []) = sample_fdomain" by (simp add: sample_policy_norm_def)
  have size: "product_size [length [''u''], length [''read''], length [''m''], length [[] :: string list], length [''p'']] = Inr 1"
    by (simp add: product_size_def count_int_def fp_count_def MAX_TUPLES_def)
  show ?thesis
    unfolding policy_difference_def Let_def dm axes size bind_r_simps sample_joint_def [symmetric] w' j
    using sample_allows(2) sample_rows_digest(1) by (simp add: sample_change_def)
qed

lemma sample_certificate_wire: "wire sample_signed = Inr (dumps sample_signed)" "wire sample_certificate = Inr (dumps sample_certificate)"
  by (rule wire_small; simp add: sample_certificate_def sample_signed_def sample_body_def change_pv_def sample_change_def strs_def
      MAX_TUPLES_def small_eval)+

lemma sample_deny: "deny sample_domain = Inr (sample_policy_norm [])"
  using sample_normalize(1) by (simp add: deny_def sample_policy_dict_def)

lemma sample_policy_fixed: "normalize (dict_of (policy_pv (sample_policy_norm []))) = Inr (sample_policy_norm [])"
proof -
  have "policy_ok (sample_policy_norm [])"
    by (rule normalize_ok [OF sample_normalize(1)]) (simp add: sample_policy_dict_def sample_domain_def)
  then show ?thesis using normalize_fixed sample_policy_pv_wire(1) by blast
qed

lemma sample_activation:
  "\<exists>rows. activate sample_clock (\<lambda>_. True) (\<lambda>_. True) (\<lambda>_. Inr (sample_policy_dict [])) None ''t5'' sample_certificate None = Inr rows"
proof -
  have dig: "digest sample_signed = Inr (sha256_hex (dumps sample_signed))" by (simp add: digest_def sample_certificate_wire)
  have life: "lifetime_ok sample_clock sample_body ''t5'' = Inr True"
    by (simp add: lifetime_ok_def sample_body_def sub_def dget_def fp_moment_def sample_clock_def fp_text_def py_len_simps NUL_char)
  have diff: "difference (dict_of (policy_pv (sample_policy_norm []))) (sample_policy_dict []) = Inr sample_change"
    by (simp add: difference_def sample_policy_fixed sample_normalize sample_change_computed)
  have "check_certificate sample_clock (\<lambda>_. True) (\<lambda>_. True) (\<lambda>_. Inr (sample_policy_dict [])) None ''t5'' sample_certificate
      = Inr (sample_body, sample_policy_dict [], sample_change)"
    using sample_certificate_wire dig life diff sample_deny
    by (simp add: check_certificate_def sample_certificate_def sample_signed_def sub_def dget_def get_field_def dget_or_def anchored_def
        sample_body_def num_eq_def active_def before_policy_def generation_of_def sample_policy_dict_def same_value_def change_pv_def
        del: dumps.simps canon.simps)
  then show ?thesis by (simp add: activate_def sample_change_def active_def)
qed

theorem unreviewed_activation_narrows_witness:
  "\<exists>rows. activate sample_clock (\<lambda>_. True) (\<lambda>_. True) (\<lambda>_. Inr (sample_policy_dict [])) None ''t5'' sample_certificate None = Inr rows
    \<and> (\<forall>q. allowed_by (Some rows) q \<longrightarrow> allowed_by None q)"
proof -
  obtain rows where r: "activate sample_clock (\<lambda>_. True) (\<lambda>_. True) (\<lambda>_. Inr (sample_policy_dict [])) None ''t5'' sample_certificate None = Inr rows"
    using sample_activation by blast
  from unreviewed_activation_narrows [OF r] r show ?thesis by auto
qed

end
