(* ===== verification/Media.thy ===== *)
theory Media
  imports Prelude "HOL-Library.Word"
begin

unbundle bit_operations_syntax

text \<open>
  Reading foreign files, \<^verbatim>\<open>unimem/ingest/multimodal.py\<close>: the headers of image and audio
  containers, the strings of a PDF and the splitting of extracted text into bounded chunks. A \<^verbatim>\<open>bytes\<close>
  object is a list of 8-bit words, and a \<^verbatim>\<open>str\<close> is here a list of code points, because these
  functions index into it. A duration, a quotient of integers in floating point, is kept as the
  pair of its operands.
\<close>

section \<open>Bytes and slices\<close>

type_synonym byte = "8 word"
type_synonym ustr = "nat list"

definition slice :: "'a list \<Rightarrow> nat \<Rightarrow> nat \<Rightarrow> 'a list" where
  "slice xs i j = take (j - i) (drop i xs)"

definition lit :: "string \<Rightarrow> byte list" where
  "lit s = map (\<lambda>c. word_of_nat (of_char c)) s"

definition ulit :: "string \<Rightarrow> ustr" where
  "ulit s = map of_char s"

text \<open>\<^verbatim>\<open>int.from_bytes(b, "big")\<close> and the unsigned codes of \<^verbatim>\<open>struct\<close>, whose lengths are the callers'.\<close>

definition from_be :: "byte list \<Rightarrow> nat" where
  "from_be b = foldl (\<lambda>n x. n * 256 + unat x) 0 b"

definition from_le :: "byte list \<Rightarrow> nat" where
  "from_le b = from_be (rev b)"

definition from_le_signed :: "byte list \<Rightarrow> int" where
  "from_le_signed b = (let n = int (from_le b); w = 2 ^ (8 * length b) in if 2 * n \<ge> w then n - w else n)"

lemma length_slice: "length (slice xs i j) = min (j - i) (length xs - i)"
  by (simp add: slice_def)

lemma slice_full: "j \<le> length xs \<Longrightarrow> length (slice xs i j) = j - i"
  by (simp add: slice_def)

section \<open>Images\<close>

record png_info =
  png_width :: "nat option"
  png_height :: "nat option"
  png_fields :: "(nat \<times> nat \<times> nat \<times> nat \<times> nat) option"

text \<open>\<open>png_fields\<close>: bit depth, colour type, compression, filter and interlace, once IHDR is read.\<close>

definition png_signature :: "byte list" where
  "png_signature = [137, 80, 78, 71, 13, 10, 26, 10]"

definition read_ihdr :: "byte list \<Rightarrow> png_info result" where
  "read_ihdr c =
     guard_r (length c = 13) StructError
       (Inr \<lparr>png_width = Some (from_be (slice c 0 4)), png_height = Some (from_be (slice c 4 8)),
             png_fields = Some (unat (c ! 8), unat (c ! 9), unat (c ! 10), unat (c ! 11), unat (c ! 12))\<rparr>)"

function png_loop :: "byte list \<Rightarrow> nat \<Rightarrow> png_info result" where
  "png_loop data offset =
     (if offset + 8 \<le> length data then
        (let len = from_be (slice data offset (offset + 4));
             ctype = slice data (offset + 4) (offset + 8);
             chunk_data = slice data (offset + 8) (offset + 8 + len);
             next = offset + 8 + len + 4 in
         if ctype = lit ''IHDR'' \<and> len \<ge> 13 then read_ihdr (take 13 chunk_data)
         else if ctype = lit ''IEND'' \<or> next > length data
         then Inr \<lparr>png_width = None, png_height = None, png_fields = None\<rparr>
         else png_loop data next)
      else Inr \<lparr>png_width = None, png_height = None, png_fields = None\<rparr>)"
  by pat_completeness auto
termination by (relation "measure (\<lambda>(data, offset). length data - offset)") (auto simp: Let_def)

declare png_loop.simps [simp del]

definition parse_png :: "byte list \<Rightarrow> png_info result" where
  "parse_png data = guard_r (take 8 data = png_signature) ValueError (png_loop data 8)"

record jpeg_info =
  jp_width :: "nat option"
  jp_height :: "nat option"
  jp_jfif :: "string option"
  jp_exif :: bool
  jp_segments :: "string list"
  jp_sof :: "(string \<times> nat) option"

fun digits :: "nat \<Rightarrow> string" where
  "digits n = (if n < 10 then [char_of (48 + n)] else digits (n div 10) @ [char_of (48 + n mod 10)])"

declare digits.simps [simp del]

definition SOF_MARKERS :: "nat list" where
  "SOF_MARKERS = [0xC0, 0xC1, 0xC2, 0xC3, 0xC5, 0xC6, 0xC7, 0xC9, 0xCA, 0xCB, 0xCD, 0xCE, 0xCF]"

text \<open>The inner loop over fill bytes.\<close>

function skip_fill :: "byte list \<Rightarrow> nat \<Rightarrow> nat" where
  "skip_fill data pos = (if pos < length data \<and> data ! pos = 0xFF then skip_fill data (pos + 1) else pos)"
  by pat_completeness auto
termination by (relation "measure (\<lambda>(data, pos). length data - pos)") auto

declare skip_fill.simps [simp del]

lemma skip_fill_ge: "pos \<le> skip_fill data pos"
proof (induction data pos rule: skip_fill.induct)
  case (1 data pos)
  then show ?case by (subst skip_fill.simps) auto
qed

text \<open>One segment: what it adds to the description, and whether the search stops there.\<close>

definition jpeg_segment :: "nat \<Rightarrow> byte list \<Rightarrow> jpeg_info \<Rightarrow> jpeg_info \<times> bool" where
  "jpeg_segment marker seg info =
     (if marker = 0xE0 \<and> take 5 seg = lit ''JFIF'' @ [0] then
        (info \<lparr>jp_jfif := Some (if length seg > 6 then digits (unat (seg ! 5)) @ ''.'' @ digits (unat (seg ! 6)) else ''present''),
               jp_segments := jp_segments info @ [''APP0/JFIF'']\<rparr>, False)
      else if marker = 0xE1 then
        (info \<lparr>jp_segments := jp_segments info @ [''APP1''],
               jp_exif := (jp_exif info \<or> take 6 seg = lit ''Exif'' @ [0, 0])\<rparr>, False)
      else if 0xE0 \<le> marker \<and> marker \<le> 0xEF then
        (info \<lparr>jp_segments := jp_segments info @ [''APP'' @ digits (marker - 0xE0)]\<rparr>, False)
      else if marker \<in> set SOF_MARKERS \<and> length seg \<ge> 5 then
        (info \<lparr>jp_height := Some (from_be (slice seg 1 3)), jp_width := Some (from_be (slice seg 3 5)),
               jp_sof := Some (''SOF'' @ digits (marker - 0xC0), unat (seg ! 0))\<rparr>, True)
      else (info, False))"

function jpeg_loop :: "byte list \<Rightarrow> nat \<Rightarrow> jpeg_info \<Rightarrow> jpeg_info" where
  "jpeg_loop data pos info =
     (if \<not> pos + 4 \<le> length data then info
      else if data ! pos \<noteq> 0xFF then jpeg_loop data (pos + 1) info
      else
        (let p = skip_fill data pos in
         if p \<ge> length data then info
         else
           (let marker = unat (data ! p); q = p + 1 in
            if marker = 0xD9 then info
            else if marker = 0x01 \<or> (0xD0 \<le> marker \<and> marker \<le> 0xD7) then jpeg_loop data q info
            else if q + 2 > length data then info
            else
              (let seg_len = from_be (slice data q (q + 2)) in
               if seg_len < 2 then info
               else
                 (let (info', stop) = jpeg_segment marker (slice data (q + 2) (q + seg_len)) info in
                  if stop then info' else jpeg_loop data (q + seg_len) info')))))"
  by pat_completeness auto
termination
proof (relation "measure (\<lambda>(data, pos, info). length data - pos)", goal_cases)
  case (3 data pos info p marker q)
  then show ?case using skip_fill_ge [of pos data] by auto
next
  case (4 data pos info p marker q seg_len x info' stop)
  then show ?case using skip_fill_ge [of pos data] by auto
qed auto

declare jpeg_loop.simps [simp del]

definition parse_jpeg :: "byte list \<Rightarrow> jpeg_info result" where
  "parse_jpeg data = guard_r (take 2 data = [0xFF, 0xD8]) ValueError
     (Inr (jpeg_loop data 2 \<lparr>jp_width = None, jp_height = None, jp_jfif = None, jp_exif = False,
                             jp_segments = [], jp_sof = None\<rparr>))"

section \<open>Audio\<close>

definition WAV_FORMAT_NAMES :: "nat \<Rightarrow> string" where
  "WAV_FORMAT_NAMES f = (if f = 1 then ''PCM'' else if f = 3 then ''IEEE float'' else if f = 6 then ''A-law''
     else if f = 7 then ''mu-law'' else if f = 0xFFFE then ''WAVE_FORMAT_EXTENSIBLE'' else ''format '' @ digits f)"

record wav_info =
  wav_format :: nat
  wav_fmt :: "(nat \<times> nat \<times> nat \<times> nat) option"
  wav_data_size :: "nat option"

text \<open>\<open>wav_fmt\<close>: channels, sample rate, byte rate and bits of the last fmt chunk.\<close>

function wav_loop :: "byte list \<Rightarrow> nat \<Rightarrow> wav_info \<Rightarrow> wav_info" where
  "wav_loop data pos st =
     (if pos + 8 \<le> length data then
        (let cid = slice data pos (pos + 4);
             sz = from_le (slice data (pos + 4) (pos + 8));
             body_off = pos + 8;
             avail = length data - body_off;
             st' = (if cid = lit ''fmt '' \<and> avail \<ge> 16 then
                      st \<lparr>wav_format := from_le (slice data body_off (body_off + 2)),
                          wav_fmt := Some (from_le (slice data (body_off + 2) (body_off + 4)),
                             from_le (slice data (body_off + 4) (body_off + 8)),
                             from_le (slice data (body_off + 8) (body_off + 12)),
                             from_le (slice data (body_off + 14) (body_off + 16)))\<rparr>
                    else if cid = lit ''data'' \<and> wav_data_size st = None then st \<lparr>wav_data_size := Some (min sz avail)\<rparr>
                    else st) in
         wav_loop data (body_off + sz + (sz AND 1)) st')
      else st)"
  by pat_completeness auto
termination by (relation "measure (\<lambda>(data, pos, st). length data - pos)") (auto simp: Let_def)

declare wav_loop.simps [simp del]

record wav =
  wv_format :: string
  wv_channels :: nat
  wv_sample_rate :: nat
  wv_bits :: nat
  wv_byte_rate :: nat
  wv_data_size :: "nat option"
  wv_duration :: "(nat \<times> nat) option"

definition parse_wav :: "byte list \<Rightarrow> wav result" where
  "parse_wav data =
     guard_r (length data \<ge> 12 \<and> slice data 0 4 = lit ''RIFF'' \<and> slice data 8 12 = lit ''WAVE'') ValueError
       (let st = wav_loop data 12 \<lparr>wav_format = 1, wav_fmt = None, wav_data_size = None\<rparr> in
        case wav_fmt st of
          None \<Rightarrow> Inl ValueError
        | Some (channels, sample_rate, byte_rate, bits) \<Rightarrow>
            Inr \<lparr>wv_format = WAV_FORMAT_NAMES (wav_format st), wv_channels = channels, wv_sample_rate = sample_rate,
                 wv_bits = bits, wv_byte_rate = byte_rate, wv_data_size = wav_data_size st,
                 wv_duration = (case wav_data_size st of
                     None \<Rightarrow> None | Some d \<Rightarrow> if byte_rate = 0 then None else Some (d, byte_rate))\<rparr>)"


definition MPEG_BITRATES :: "nat \<Rightarrow> nat \<Rightarrow> nat list" where
  "MPEG_BITRATES vkey layer =
     (if vkey = 1 then
        (if layer = 1 then [0, 32, 64, 96, 128, 160, 192, 224, 256, 288, 320, 352, 384, 416, 448, 0]
         else if layer = 2 then [0, 32, 48, 56, 64, 80, 96, 112, 128, 160, 192, 224, 256, 320, 384, 0]
         else [0, 32, 40, 48, 56, 64, 80, 96, 112, 128, 160, 192, 224, 256, 320, 0])
      else
        (if layer = 1 then [0, 32, 48, 56, 64, 80, 96, 112, 128, 144, 160, 176, 192, 224, 256, 0]
         else [0, 8, 16, 24, 32, 40, 48, 56, 64, 80, 96, 112, 128, 144, 160, 0]))"

text \<open>The entries that the source has as \<^verbatim>\<open>None\<close> are 0 here: both count as no bit rate.\<close>

record mpeg_header =
  mh_version :: string
  mh_layer :: string
  mh_bitrate :: nat
  mh_sample_rate :: nat
  mh_padding :: nat
  mh_mode :: string
  mh_frame_len :: nat

definition mpeg_header_at :: "byte list \<Rightarrow> nat \<Rightarrow> mpeg_header option" where
  "mpeg_header_at data pos =
     (if pos + 4 > length data then None
      else
        let b0 = data ! pos; b1 = data ! (pos + 1); b2 = data ! (pos + 2); b3 = data ! (pos + 3) in
        if b0 \<noteq> 0xFF \<or> (b1 AND 0xE0) \<noteq> 0xE0 then None
        else
          let ver = unat (drop_bit 3 b1 AND 0x03); layer_bits = unat (drop_bit 1 b1 AND 0x03);
              br_idx = unat (drop_bit 4 b2 AND 0x0F); sr_idx = unat (drop_bit 2 b2 AND 0x03);
              padding = unat (drop_bit 1 b2 AND 0x01) in
          if ver = 1 \<or> layer_bits = 0 \<or> br_idx = 0 \<or> br_idx = 15 \<or> sr_idx = 3 then None
          else
            let layer = 4 - layer_bits;
                vkey = (if ver = 3 then 1 else 2);
                sample_rate = (if ver = 3 then [44100, 48000, 32000] else if ver = 2 then [22050, 24000, 16000]
                               else [11025, 12000, 8000]) ! sr_idx;
                bitrate = MPEG_BITRATES vkey layer ! br_idx in
            if bitrate = 0 then None
            else
              let frame_len = (if layer = 1 then (12 * bitrate * 1000 div sample_rate + padding) * 4
                               else if layer = 2 \<or> vkey = 1 then 144 * bitrate * 1000 div sample_rate + padding
                               else 72 * bitrate * 1000 div sample_rate + padding) in
              if frame_len < 4 then None
              else Some \<lparr>mh_version = (if ver = 3 then ''MPEG-1'' else if ver = 2 then ''MPEG-2'' else ''MPEG-2.5''),
                         mh_layer = (if layer = 1 then ''Layer I'' else if layer = 2 then ''Layer II'' else ''Layer III''),
                         mh_bitrate = bitrate, mh_sample_rate = sample_rate, mh_padding = padding,
                         mh_mode = [''stereo'', ''joint stereo'', ''dual channel'', ''mono''] ! unat (drop_bit 6 b3 AND 0x03),
                         mh_frame_len = frame_len\<rparr>)"

record mp3 =
  m3_header :: mpeg_header
  m3_first_frame_at :: nat
  m3_next_frame_verified :: bool
  m3_audio_bytes :: int
  m3_duration :: "int \<times> nat"

fun first_frame :: "byte list \<Rightarrow> nat list \<Rightarrow> (nat \<times> mpeg_header) option" where
  "first_frame data [] = None"
| "first_frame data (pos # rest) =
     (case mpeg_header_at data pos of Some h \<Rightarrow> Some (pos, h) | None \<Rightarrow> first_frame data rest)"

definition id3_offset :: "byte list \<Rightarrow> nat" where
  "id3_offset data =
     (if take 3 data = lit ''ID3'' \<and> length data \<ge> 10 then
        min (length data) (10 + (unat (data ! 6) * 2 ^ 21 + unat (data ! 7) * 2 ^ 14 + unat (data ! 8) * 2 ^ 7 + unat (data ! 9)))
      else 0)"

definition parse_mp3 :: "byte list \<Rightarrow> mp3 result" where
  "parse_mp3 data =
     (let offset = id3_offset data in
      case first_frame data [offset ..< min (length data - 4) (offset + 1048576)] of
        None \<Rightarrow> Inl ValueError
      | Some (frame_at, info) \<Rightarrow>
          let nxt = frame_at + mh_frame_len info;
              verified = (nxt + 4 \<le> length data
                \<and> (case mpeg_header_at data nxt of
                     None \<Rightarrow> False
                   | Some h \<Rightarrow> mh_bitrate h = mh_bitrate info \<and> mh_sample_rate h = mh_sample_rate info));
              tagged = (length data \<ge> 128 \<and> slice data (length data - 128) (length data - 125) = lit ''TAG'');
              audio_bytes = int (length data) - int frame_at - (if tagged then 128 else 0) in
          Inr \<lparr>m3_header = info, m3_first_frame_at = frame_at, m3_next_frame_verified = verified,
               m3_audio_bytes = audio_bytes, m3_duration = (audio_bytes * 8, mh_bitrate info * 1000)\<rparr>)"

record ogg =
  og_pages :: nat
  og_serials :: "nat list"
  og_max_granule :: int
  og_bos :: bool
  og_eos :: bool

text \<open>\<open>og_serials\<close> holds the serials in order of appearance until the result is sorted.\<close>

function ogg_loop :: "byte list \<Rightarrow> nat \<Rightarrow> ogg \<Rightarrow> ogg" where
  "ogg_loop data pos st =
     (if \<not> pos + 27 \<le> length data then st
      else if slice data pos (pos + 4) \<noteq> lit ''OggS'' then st
      else
        (let htype = data ! (pos + 5);
             granule = from_le_signed (slice data (pos + 6) (pos + 14));
             serial = from_le (slice data (pos + 14) (pos + 18));
             seg_count = unat (data ! (pos + 26)) in
         if pos + 27 + seg_count > length data then st
         else
           (let payload = sum_list (map unat (slice data (pos + 27) (pos + 27 + seg_count)));
                st' = st \<lparr>og_pages := og_pages st + 1, og_serials := og_serials st @ [serial],
                          og_max_granule := max (og_max_granule st) granule,
                          og_bos := (og_bos st \<or> htype AND 0x02 \<noteq> 0), og_eos := (og_eos st \<or> htype AND 0x04 \<noteq> 0)\<rparr>;
                pos' = pos + 27 + seg_count + payload in
            if pos' \<ge> length data then st' else ogg_loop data pos' st')))"
  by pat_completeness auto
termination by (relation "measure (\<lambda>(data, pos, st). length data - pos)") (auto simp: Let_def)

declare ogg_loop.simps [simp del]

definition parse_ogg :: "byte list \<Rightarrow> ogg result" where
  "parse_ogg data =
     guard_r (length data \<ge> 27 \<and> slice data 0 4 = lit ''OggS'') ValueError
       (let st = ogg_loop data 0 \<lparr>og_pages = 0, og_serials = [], og_max_granule = - 1, og_bos = False, og_eos = False\<rparr> in
        guard_r (og_pages st \<noteq> 0) ValueError (Inr (st \<lparr>og_serials := sorted_set (og_serials st)\<rparr>)))"

definition FLAC_BLOCK_NAMES :: "nat \<Rightarrow> string" where
  "FLAC_BLOCK_NAMES t =
     (if t < 7 then [''STREAMINFO'', ''PADDING'', ''APPLICATION'', ''SEEKTABLE'', ''VORBIS_COMMENT'', ''CUESHEET'', ''PICTURE''] ! t
      else ''BLOCK'' @ digits t)"

record flac_stream =
  fl_sample_rate :: nat
  fl_channels :: nat
  fl_bits :: nat
  fl_total_samples :: nat
  fl_min_block :: nat
  fl_max_block :: nat

definition read_streaminfo :: "byte list \<Rightarrow> flac_stream result" where
  "read_streaminfo body =
     (let packed = from_be (slice body 10 18);
          sample_rate = drop_bit 44 packed AND 0xFFFFF in
      guard_r (sample_rate \<noteq> 0) ValueError
        (Inr \<lparr>fl_sample_rate = sample_rate, fl_channels = (drop_bit 41 packed AND 0x7) + 1,
              fl_bits = (drop_bit 36 packed AND 0x1F) + 1, fl_total_samples = packed AND 0xFFFFFFFFF,
              fl_min_block = from_be (slice body 0 2), fl_max_block = from_be (slice body 2 4)\<rparr>))"

function flac_loop :: "byte list \<Rightarrow> nat \<Rightarrow> string list \<Rightarrow> flac_stream option \<Rightarrow> (string list \<times> flac_stream option) result" where
  "flac_loop data pos blocks streaminfo =
     (if pos + 4 > length data then Inl ValueError
      else
        (let b0 = data ! pos;
             is_last = (b0 AND 0x80 \<noteq> 0);
             btype = unat (b0 AND 0x7F);
             len = from_be (slice data (pos + 1) (pos + 4));
             body = slice data (pos + 4) (pos + 4 + len) in
         if length body < len then Inl ValueError
         else
           bind_r (if btype = 0 then guard_r (len \<ge> 34) ValueError (bind_r (read_streaminfo body) (\<lambda>s. Inr (Some s)))
                   else Inr streaminfo) (\<lambda>info.
             let blocks' = blocks @ [FLAC_BLOCK_NAMES btype] in
             if is_last then Inr (blocks', info) else flac_loop data (pos + 4 + len) blocks' info)))"
  by pat_completeness auto
termination by (relation "measure (\<lambda>(data, pos, blocks, info). length data - pos)") (auto simp: Let_def)

declare flac_loop.simps [simp del]

definition parse_flac :: "byte list \<Rightarrow> (flac_stream \<times> string list) result" where
  "parse_flac data =
     guard_r (take 4 data = lit ''fLaC'') ValueError
       (bind_r (flac_loop data 4 [] None) (\<lambda>(blocks, info).
          case info of None \<Rightarrow> Inl ValueError | Some s \<Rightarrow> Inr (s, blocks)))"

section \<open>Text\<close>

definition is_space :: "nat \<Rightarrow> bool" where
  "is_space c \<longleftrightarrow> (9 \<le> c \<and> c \<le> 13) \<or> (28 \<le> c \<and> c \<le> 32) \<or> c = 0x85 \<or> c = 0xA0 \<or> c = 0x1680
     \<or> (0x2000 \<le> c \<and> c \<le> 0x200A) \<or> c = 0x2028 \<or> c = 0x2029 \<or> c = 0x202F \<or> c = 0x205F \<or> c = 0x3000"

definition ustrip :: "ustr \<Rightarrow> ustr" where
  "ustrip s = rev (dropWhile is_space (rev (dropWhile is_space s)))"

text \<open>\<^verbatim>\<open>s.split()\<close>: the maximal runs of other characters.\<close>

fun words_from :: "ustr \<Rightarrow> ustr \<Rightarrow> ustr list" where
  "words_from acc [] = (if acc = [] then [] else [acc])"
| "words_from acc (c # s) =
     (if is_space c then (if acc = [] then words_from [] s else acc # words_from [] s) else words_from (acc @ [c]) s)"

definition split_words :: "ustr \<Rightarrow> ustr list" where
  "split_words s = words_from [] s"

fun join :: "'a list \<Rightarrow> 'a list list \<Rightarrow> 'a list" where
  "join sep [] = []"
| "join sep [w] = w"
| "join sep (w # v # ws) = w @ sep @ join sep (v # ws)"

definition MAX_MM_CHUNK :: nat where
  "MAX_MM_CHUNK = 2000"

text \<open>\<^verbatim>\<open>text.rfind(" ", lo, hi)\<close>, \<open>None\<close> for \<^verbatim>\<open>-1\<close>.\<close>

definition rfind_space :: "ustr \<Rightarrow> nat \<Rightarrow> nat \<Rightarrow> nat option" where
  "rfind_space s lo hi = (case filter (\<lambda>i. s ! i = 32) (rev [lo ..< min hi (length s)]) of [] \<Rightarrow> None | i # _ \<Rightarrow> Some i)"

definition block_end :: "ustr \<Rightarrow> nat \<Rightarrow> nat" where
  "block_end s start =
     (let stop = min (start + MAX_MM_CHUNK) (length s) in
      if stop < length s then
        (case rfind_space s start (stop + 1) of Some sp \<Rightarrow> if sp > start then sp else stop | None \<Rightarrow> stop)
      else stop)"

lemma rfind_space_Some:
  assumes "rfind_space s lo hi = Some i"
  shows "lo \<le> i \<and> i < hi \<and> i < length s \<and> s ! i = 32"
proof -
  have "i \<in> set (filter (\<lambda>i. s ! i = 32) (rev [lo ..< min hi (length s)]))"
    using assms unfolding rfind_space_def by (metis (lifting) list.case(1) list.case(2) list.exhaust list.set_intros(1) option.distinct(1) option.inject)
  then show ?thesis by auto
qed

lemma block_end_bounds:
  assumes "start < length s"
  shows "start < block_end s start" "block_end s start \<le> length s" "block_end s start \<le> start + MAX_MM_CHUNK"
  using assms by (auto simp: block_end_def Let_def MAX_MM_CHUNK_def split: option.splits dest!: rfind_space_Some)

function split_loop :: "ustr \<Rightarrow> nat \<Rightarrow> ustr list" where
  "split_loop s start =
     (if start < length s then
        (let stop = block_end s start;
             next = (if stop < length s \<and> s ! stop = 32 then stop + 1 else stop) in
         slice s start stop # split_loop s next)
      else [])"
  by pat_completeness auto
termination
proof (relation "measure (\<lambda>(s, start). length s - start)", goal_cases)
  case (2 s start stop nxt)
  then show ?case using block_end_bounds(1) [of start s] by auto
qed simp

declare split_loop.simps [simp del]

definition split_bounded :: "ustr \<Rightarrow> ustr list" where
  "split_bounded s =
     (let t = ustrip s in if t = [] then [] else split_loop (join [32] (split_words t)) 0)"

text \<open>The strings of a PDF content stream: \<open>opened\<close> is the place of the last unmatched parenthesis.\<close>

function pdf_tokens :: "ustr \<Rightarrow> nat \<Rightarrow> nat option \<Rightarrow> ustr list" where
  "pdf_tokens region position opened =
     (if position < length region then
        (let c = region ! position in
         if c = 92 then pdf_tokens region (position + 2) opened
         else if c = 40 then pdf_tokens region (position + 1) (Some position)
         else case opened of
                Some start \<Rightarrow>
                  if c = 41 then slice region start (position + 1) # pdf_tokens region (position + 1) None
                  else pdf_tokens region (position + 1) opened
              | None \<Rightarrow> pdf_tokens region (position + 1) opened)
      else [])"
  by pat_completeness auto
termination by (relation "measure (\<lambda>(region, position, opened). length region - position)") auto

declare pdf_tokens.simps [simp del]

definition pdf_string_tokens :: "ustr \<Rightarrow> ustr list" where
  "pdf_string_tokens region = pdf_tokens region 0 None"

definition octal :: "nat \<Rightarrow> bool" where
  "octal c \<longleftrightarrow> 48 \<le> c \<and> c \<le> 55"

definition pdf_escape :: "nat \<Rightarrow> nat option" where
  "pdf_escape c = map_of [(110, 10), (114, 13), (116, 9), (98, 8), (102, 12), (40, 40), (41, 41), (92, 92)] c"

text \<open>The loop over the inner text, as recursion over what is left of it.\<close>

function unescape_loop :: "ustr \<Rightarrow> ustr" where
  "unescape_loop [] = []"
| "unescape_loop [c] = [c]"
| "unescape_loop (c # nxt # rest) =
     (if c = 92 then
        (case pdf_escape nxt of
           Some e \<Rightarrow> e # unescape_loop rest
         | None \<Rightarrow>
             if octal nxt then
               (let ds = takeWhile octal (take 3 (nxt # rest)) in
                foldl (\<lambda>n d. n * 8 + (d - 48)) 0 ds # unescape_loop (drop (length ds) (nxt # rest)))
             else nxt # unescape_loop rest)
      else c # unescape_loop (nxt # rest))"
  by pat_completeness auto
termination by (relation "measure length") (auto simp: Let_def)

definition unescape_pdf_string :: "ustr \<Rightarrow> ustr" where
  "unescape_pdf_string token = unescape_loop (slice token 1 (length token - 1))"


section \<open>Splitting loses nothing\<close>

lemma words_from_chars:
  "list_all (\<lambda>c. \<not> is_space c) acc
   \<Longrightarrow> concat (words_from acc s) = acc @ filter (\<lambda>c. \<not> is_space c) s"
  by (induction acc s rule: words_from.induct) (auto simp: list_all_iff)

lemma concat_split_words: "concat (split_words s) = filter (\<lambda>c. \<not> is_space c) s"
  by (simp add: split_words_def words_from_chars)

lemma words_from_nonempty: "w \<in> set (words_from acc s) \<Longrightarrow> w \<noteq> []"
  by (induction acc s rule: words_from.induct) (auto split: if_splits)

lemma is_space_32 [simp]: "is_space 32"
  by (simp add: is_space_def)

lemma words_from_no_space:
  "list_all (\<lambda>c. \<not> is_space c) acc \<Longrightarrow> w \<in> set (words_from acc s) \<Longrightarrow> list_all (\<lambda>c. \<not> is_space c) w"
  by (induction acc s rule: words_from.induct) (auto split: if_splits)

lemma filter_join: "\<not> P sep \<Longrightarrow> filter P (join [sep] ws) = filter P (concat ws)"
  by (induction "[sep]" ws rule: join.induct) auto

lemma filter_weaken: "(\<And>c. P c \<Longrightarrow> Q c) \<Longrightarrow> filter P (filter Q xs) = filter P xs"
  by (induction xs) auto

lemma filter_dropWhile_not: "filter (\<lambda>c. \<not> P c) (dropWhile P xs) = filter (\<lambda>c. \<not> P c) xs"
  by (induction xs) auto

lemma filter_ustrip: "filter (\<lambda>c. \<not> is_space c) (ustrip s) = filter (\<lambda>c. \<not> is_space c) s"
  by (simp add: ustrip_def filter_dropWhile_not flip: rev_filter)

lemma slice_drop: "i \<le> j \<Longrightarrow> j \<le> length s \<Longrightarrow> slice s i j @ drop j s = drop i s"
  unfolding slice_def by (metis append_take_drop_id drop_drop le_add_diff_inverse2)

lemma split_loop_chars:
  "filter (\<lambda>c. c \<noteq> 32) (concat (split_loop s start)) = filter (\<lambda>c. c \<noteq> 32) (drop start s)"
proof (induction s start rule: split_loop.induct)
  case (1 s start)
  show ?case
  proof (cases "start < length s")
    case True
    let ?stop = "block_end s start"
    let ?next = "if ?stop < length s \<and> s ! ?stop = 32 then ?stop + 1 else ?stop"
    have rest: "filter (\<lambda>c. c \<noteq> 32) (drop ?next s) = filter (\<lambda>c. c \<noteq> 32) (drop ?stop s)"
      by (auto simp flip: Cons_nth_drop_Suc)
    have "filter (\<lambda>c. c \<noteq> 32) (concat (split_loop s start))
        = filter (\<lambda>c. c \<noteq> 32) (slice s start ?stop) @ filter (\<lambda>c. c \<noteq> 32) (drop ?next s)"
      using 1 True by (subst split_loop.simps) (simp add: Let_def)
    also have "\<dots> = filter (\<lambda>c. c \<noteq> 32) (slice s start ?stop @ drop ?stop s)" by (simp add: rest)
    finally show ?thesis using block_end_bounds [OF True] by (simp add: slice_drop)
  qed (subst split_loop.simps, simp)
qed

lemma split_loop_sizes:
  "b \<in> set (split_loop s start) \<Longrightarrow> b \<noteq> [] \<and> length b \<le> MAX_MM_CHUNK"
proof (induction s start rule: split_loop.induct)
  case (1 s start)
  show ?case
  proof (cases "start < length s")
    case True
    with 1 block_end_bounds [OF True] show ?thesis
      by (auto simp: Let_def slice_def split_loop.simps [of s start])
  qed (use 1 in \<open>simp add: split_loop.simps [of s start]\<close>)
qed

lemma space_only_32:
  assumes "\<And>w. w \<in> set ws \<Longrightarrow> list_all (\<lambda>c. \<not> is_space c) w" "c \<in> set (join [32] ws)" "is_space c"
  shows "c = 32"
  using assms by (induction "[32 :: nat]" ws rule: join.induct) (auto simp: list_all_iff)


section \<open>PDF strings round trip\<close>

text \<open>How a PDF writer escapes a string: a backslash before parentheses and backslashes.\<close>

definition pdf_quote :: "ustr \<Rightarrow> ustr" where
  "pdf_quote s = concat (map (\<lambda>c. if c = 40 \<or> c = 41 \<or> c = 92 then [92, c] else [c]) s)"

definition pdf_literal :: "ustr \<Rightarrow> ustr" where
  "pdf_literal s = 40 # pdf_quote s @ [41]"

lemma pdf_quote_Cons: "pdf_quote (c # s) = (if c = 40 \<or> c = 41 \<or> c = 92 then [92, c] else [c]) @ pdf_quote s"
  by (simp add: pdf_quote_def)

lemma unescape_plain: "c \<noteq> 92 \<Longrightarrow> unescape_loop (c # s) = c # unescape_loop s"
  by (cases s) auto

lemma unescape_quote: "unescape_loop (pdf_quote s) = s"
  by (induction s) (auto simp: pdf_quote_Cons unescape_plain pdf_escape_def, simp add: pdf_quote_def)

lemma tokens_quote:
  assumes "length pre = pos" "start \<le> pos"
  shows "pdf_tokens (pre @ pdf_quote s @ [41] @ post) pos (Some start)
    = slice (pre @ pdf_quote s @ [41]) start (pos + length (pdf_quote s) + 1)
      # pdf_tokens (pre @ pdf_quote s @ [41] @ post) (pos + length (pdf_quote s) + 1) None"
  using assms
proof (induction s arbitrary: pre pos)
  case Nil
  then show ?case by (subst pdf_tokens.simps) (simp add: pdf_quote_def nth_append slice_def)
next
  case (Cons c s)
  show ?case
  proof (cases "c = 40 \<or> c = 41 \<or> c = 92")
    case True
    with Cons.prems Cons.IH [of "pre @ [92, c]" "pos + 2"] show ?thesis
      by (subst pdf_tokens.simps) (simp add: pdf_quote_Cons nth_append)
  next
    case False
    with Cons.prems Cons.IH [of "pre @ [c]" "pos + 1"] show ?thesis
      by (subst pdf_tokens.simps) (simp add: pdf_quote_Cons nth_append)
  qed
qed

lemma tokens_done: "length region \<le> pos \<Longrightarrow> pdf_tokens region pos opened = []"
  by (subst pdf_tokens.simps) simp

text \<open>
  PDF strings survive extraction: the scanner finds exactly one string in a literal written
  with every parenthesis and backslash escaped, and unescaping it gives the text back.
\<close>

theorem pdf_string_roundtrip:
  "pdf_string_tokens (pdf_literal s) = [pdf_literal s] \<and> unescape_pdf_string (pdf_literal s) = s"
proof
  have "pdf_string_tokens (pdf_literal s) = pdf_tokens (pdf_literal s) 1 (Some 0)"
    unfolding pdf_string_tokens_def by (subst pdf_tokens.simps) (simp add: pdf_literal_def)
  also have "\<dots> = [pdf_literal s]"
    using tokens_quote [of "[40]" 1 0 s "[]"]
    by (simp add: pdf_literal_def tokens_done slice_def)
  finally show "pdf_string_tokens (pdf_literal s) = [pdf_literal s]" .
  show "unescape_pdf_string (pdf_literal s) = s"
    by (simp add: unescape_pdf_string_def pdf_literal_def slice_def unescape_quote)
qed


section \<open>FLAC metadata round trips\<close>

text \<open>The layout of the format: big-endian fields, a block header of flag, type and length.\<close>

fun to_be :: "nat \<Rightarrow> nat \<Rightarrow> byte list" where
  "to_be 0 n = []"
| "to_be (Suc k) n = to_be k (n div 256) @ [word_of_nat (n mod 256)]"

definition flac_packed :: "flac_stream \<Rightarrow> nat" where
  "flac_packed s = ((fl_sample_rate s * 2 ^ 3 + (fl_channels s - 1)) * 2 ^ 5 + (fl_bits s - 1)) * 2 ^ 36 + fl_total_samples s"

definition streaminfo_body :: "flac_stream \<Rightarrow> byte list \<Rightarrow> byte list \<Rightarrow> byte list" where
  "streaminfo_body s frames md5 = to_be 2 (fl_min_block s) @ to_be 2 (fl_max_block s) @ frames @ to_be 8 (flac_packed s) @ md5"

definition flac_flag :: "bool \<Rightarrow> nat \<Rightarrow> byte" where
  "flac_flag is_last t = word_of_nat ((if is_last then 128 else 0) + t)"

definition flac_block :: "bool \<Rightarrow> nat \<Rightarrow> byte list \<Rightarrow> byte list" where
  "flac_block is_last t body = flac_flag is_last t # to_be 3 (length body) @ body"

fun flac_blocks :: "(nat \<times> byte list) list \<Rightarrow> byte list" where
  "flac_blocks [] = []"
| "flac_blocks [(t, body)] = flac_block True t body"
| "flac_blocks ((t, body) # b # bs) = flac_block False t body @ flac_blocks (b # bs)"

definition flac_stream_ok :: "flac_stream \<Rightarrow> bool" where
  "flac_stream_ok s \<longleftrightarrow> 0 < fl_sample_rate s \<and> fl_sample_rate s < 2 ^ 20 \<and> 1 \<le> fl_channels s \<and> fl_channels s \<le> 8
     \<and> 1 \<le> fl_bits s \<and> fl_bits s \<le> 32 \<and> fl_total_samples s < 2 ^ 36 \<and> fl_min_block s < 2 ^ 16 \<and> fl_max_block s < 2 ^ 16"

definition other_block_ok :: "nat \<times> byte list \<Rightarrow> bool" where
  "other_block_ok b \<longleftrightarrow> 0 < fst b \<and> fst b < 128 \<and> length (snd b) < 2 ^ 24"

lemma length_to_be [simp]: "length (to_be k n) = k"
  by (induction k arbitrary: n) auto

lemma from_be_append: "from_be (a @ [b]) = from_be a * 256 + unat b"
  by (simp add: from_be_def)

lemma from_be_to_be: "n < 256 ^ k \<Longrightarrow> from_be (to_be k n) = n"
proof (induction k arbitrary: n)
  case 0
  then show ?case by (simp add: from_be_def)
next
  case (Suc k)
  have "n div 256 < 256 ^ k" using Suc.prems by (simp add: less_mult_imp_div_less)
  then have "from_be (to_be k (n div 256)) = n div 256" by (rule Suc.IH)
  then show ?case by (simp add: from_be_append unat_of_nat)
qed

lemma and_mask: "(n :: nat) AND (2 ^ k - 1) = n mod 2 ^ k"
  by (simp add: take_bit_eq_mask mask_eq_exp_minus_1 flip: take_bit_eq_mod)

lemma and_masks:
  "(n :: nat) AND 0xFFFFF = n mod 2 ^ 20" "n AND 0x7 = n mod 2 ^ 3" "n AND 0x1F = n mod 2 ^ 5" "n AND 0xFFFFFFFFF = n mod 2 ^ 36"
  using and_mask [of n 20] and_mask [of n 3] and_mask [of n 5] and_mask [of n 36] by simp_all

lemma unpack_low:
  fixes x y m :: nat
  assumes "y < m"
  shows "(x * m + y) div m = x" "(x * m + y) mod m = y"
  using assms by simp_all

lemma read_streaminfo_body:
  assumes "flac_stream_ok s" "length frames = 6"
  shows "read_streaminfo (streaminfo_body s frames md5) = Inr s"
proof -
  let ?p = "flac_packed s"
  have lt: "fl_total_samples s < 2 ^ 36" "fl_bits s - 1 < 2 ^ 5" "fl_channels s - 1 < 2 ^ 3"
    using assms(1) by (auto simp: flac_stream_ok_def)
  have low: "?p div 2 ^ 36 = (fl_sample_rate s * 2 ^ 3 + (fl_channels s - 1)) * 2 ^ 5 + (fl_bits s - 1)"
    "?p mod 2 ^ 36 = fl_total_samples s"
    unfolding flac_packed_def by (simp_all only: unpack_low [OF lt(1)])
  have split: "?p div 2 ^ 41 = ?p div 2 ^ 36 div 2 ^ 5" "?p div 2 ^ 44 = ?p div 2 ^ 36 div 2 ^ 5 div 2 ^ 3"
    by (simp_all flip: div_mult2_eq)
  have mid: "?p div 2 ^ 41 = fl_sample_rate s * 2 ^ 3 + (fl_channels s - 1)" "?p div 2 ^ 36 mod 2 ^ 5 = fl_bits s - 1"
    by (simp_all only: split low unpack_low [OF lt(2)])
  have high: "?p div 2 ^ 44 = fl_sample_rate s" "?p div 2 ^ 41 mod 2 ^ 3 = fl_channels s - 1"
    by (simp_all only: split low unpack_low [OF lt(2)] unpack_low [OF lt(3)])
  have "((r * 2 ^ 3 + c) * 2 ^ 5 + b) * 2 ^ 36 + n < 256 ^ 8"
    if "r < 2 ^ 20" "c < 2 ^ 3" "b < 2 ^ 5" "n < 2 ^ 36" for r c b n :: nat using that by simp
  then have "?p < 256 ^ 8" using assms(1) lt by (simp only: flac_packed_def flac_stream_ok_def)
  note fields = high(1) high(2) mid(2) low(2) this
  have slices: "slice (streaminfo_body s frames md5) 10 18 = to_be 8 ?p"
    "slice (streaminfo_body s frames md5) 0 2 = to_be 2 (fl_min_block s)"
    "slice (streaminfo_body s frames md5) 2 4 = to_be 2 (fl_max_block s)"
    using assms(2) by (simp_all add: streaminfo_body_def slice_def)
  have small: "from_be (to_be 8 ?p) = ?p" "from_be (to_be 2 (fl_min_block s)) = fl_min_block s"
    "from_be (to_be 2 (fl_max_block s)) = fl_max_block s"
    using fields(5) assms(1) by (simp_all add: from_be_to_be flac_stream_ok_def)
  show ?thesis
    unfolding read_streaminfo_def slices small Let_def and_masks drop_bit_eq_div
    using assms(1) fields by (simp add: flac_stream_ok_def)
qed


lemma flac_header:
  assumes "t < 128"
  shows "unat (flac_flag b t AND 0x7F) = t" "flac_flag b t AND 0x80 \<noteq> 0 \<longleftrightarrow> b"
proof -
  let ?w = "flac_flag b t"
  have small: "unat (word_of_nat n :: byte) = n" if "n < 256" for n using that by (simp add: unat_of_nat)
  have val: "unat ?w = (if b then 128 else 0) + t"
    unfolding flac_flag_def by (rule small) (use assms in simp)
  have "unat (?w AND 0x7F) = unat ?w AND 0x7F" by (simp add: unsigned_and_eq)
  also have "\<dots> = unat ?w mod 2 ^ 7" using and_mask [of "unat ?w" 7] by simp
  finally show "unat (?w AND 0x7F) = t" using assms by (simp add: val)
  have "?w AND 0x80 \<noteq> 0 \<longleftrightarrow> bit ?w 7" using and_exp_eq_0_iff_not_bit [of ?w 7] by simp
  also have "\<dots> \<longleftrightarrow> odd (unat ?w div 2 ^ 7)" 
    using bit_unsigned_iff [where 'a = nat, of ?w 7] by (simp add: bit_iff_odd)
  also have "unat ?w div 2 ^ 7 = of_bool b" using assms by (simp add: val div_nat_eqI)
  also have "odd (of_bool b :: nat) \<longleftrightarrow> b" by simp
  finally show "?w AND 0x80 \<noteq> 0 \<longleftrightarrow> b" .
qed

lemma flac_step:
  assumes "t < 128" "length body < 2 ^ 24"
  shows "flac_loop (pre @ flac_block b t body @ post) (length pre) names info =
     bind_r (if t = 0 then guard_r (34 \<le> length body) ValueError (bind_r (read_streaminfo body) (\<lambda>s. Inr (Some s)))
             else Inr info) (\<lambda>i.
       if b then Inr (names @ [FLAC_BLOCK_NAMES t], i)
       else flac_loop ((pre @ flac_block b t body) @ post) (length (pre @ flac_block b t body)) (names @ [FLAC_BLOCK_NAMES t]) i)"
proof -
  let ?d = "pre @ flac_block b t body @ post"
  have len: "slice ?d (length pre + 1) (length pre + 4) = to_be 3 (length body)"
    "slice ?d (length pre + 4) (length pre + 4 + length body) = body"
    by (simp_all add: slice_def flac_block_def)
  have flag: "?d ! length pre = flac_flag b t" by (simp add: flac_block_def)
  have size: "\<not> length pre + 4 > length ?d" "length (pre @ flac_block b t body) = length pre + 4 + length body"
    by (simp_all add: flac_block_def)
  have "from_be (to_be 3 (length body)) = length body" using assms(2) by (simp add: from_be_to_be)
  then show ?thesis
    by (subst flac_loop.simps)
      (simp only: Let_def flag len flac_header [OF assms(1)] size append_assoc if_False less_irrefl)
qed

lemma flac_loop_others:
  assumes "list_all other_block_ok bs" "bs \<noteq> []"
  shows "flac_loop (pre @ flac_blocks bs @ post) (length pre) names info
    = Inr (names @ map (FLAC_BLOCK_NAMES \<circ> fst) bs, info)"
  using assms
proof (induction bs arbitrary: pre names rule: flac_blocks.induct)
  case (2 t body)
  then show ?case by (simp add: flac_step other_block_ok_def)
next
  case (3 t body b bs)
  then show ?case
    using 3(1) [of "pre @ flac_block False t body" "names @ [FLAC_BLOCK_NAMES t]"]
    by (simp add: flac_step other_block_ok_def)
qed simp

text \<open>
  FLAC headers are read back: for a stream laid out as the format prescribes, the marker, a
  STREAMINFO block and any further metadata blocks followed by audio, \<open>parse_flac\<close> returns the
  stream parameters that were packed and the names of all blocks in order.
\<close>

theorem flac_roundtrip:
  assumes "flac_stream_ok s" "length frames = 6" "length md5 = 16" "list_all other_block_ok bs"
  shows "parse_flac (lit ''fLaC'' @ flac_blocks ((0, streaminfo_body s frames md5) # bs) @ audio)
    = Inr (s, ''STREAMINFO'' # map (FLAC_BLOCK_NAMES \<circ> fst) bs)"
proof -
  let ?body = "streaminfo_body s frames md5"
  have len: "length ?body = 34" using assms(2,3) by (simp add: streaminfo_body_def)
  have marker: "length (lit ''fLaC'') = 4" "take 4 (lit ''fLaC'' @ xs) = lit ''fLaC''" for xs by (simp_all add: lit_def)
  have name: "FLAC_BLOCK_NAMES 0 = ''STREAMINFO''" by (simp add: FLAC_BLOCK_NAMES_def)
  note step = flac_step [of 0 ?body "lit ''fLaC''", unfolded marker]
  have "flac_loop (lit ''fLaC'' @ flac_blocks ((0, ?body) # bs) @ audio) 4 [] None
      = Inr (''STREAMINFO'' # map (FLAC_BLOCK_NAMES \<circ> fst) bs, Some s)"
  proof (cases bs)
    case Nil
    then show ?thesis by (simp add: step len read_streaminfo_body [OF assms(1,2)] name)
  next
    case (Cons b bs')
    then show ?thesis
      using flac_loop_others [OF assms(4), of "lit ''fLaC'' @ flac_block False 0 ?body" audio "[''STREAMINFO'']" "Some s"]
      by (simp add: step len read_streaminfo_body [OF assms(1,2)] name marker)
  qed
  then show ?thesis by (simp add: parse_flac_def marker)
qed

definition sample_flac :: flac_stream where
  "sample_flac = \<lparr>fl_sample_rate = 44100, fl_channels = 2, fl_bits = 16, fl_total_samples = 441000,
     fl_min_block = 4096, fl_max_block = 4096\<rparr>"

theorem flac_roundtrip_witness:
  "parse_flac (lit ''fLaC'' @ flac_blocks ((0, streaminfo_body sample_flac (replicate 6 0) (replicate 16 0)) # [(1, [0, 0])]) @ [7])
    = Inr (sample_flac, [''STREAMINFO'', ''PADDING''])"
  using flac_roundtrip [of sample_flac "replicate 6 0" "replicate 16 0" "[(1, [0, 0])]" "[7]"]
  by (simp add: flac_stream_ok_def sample_flac_def other_block_ok_def FLAC_BLOCK_NAMES_def del: flac_blocks.simps)

text \<open>
  A PNG file that ends after its signature is accepted without dimensions: no error is raised
  for a header that cannot be read.
\<close>

lemma png_signature_alone:
  "parse_png png_signature = Inr \<lparr>png_width = None, png_height = None, png_fields = None\<rparr>"
  by (simp add: parse_png_def png_signature_def png_loop.simps)

end
