(* ===== verification/SqlGuard.thy ===== *)
theory SqlGuard
  imports Media
begin

text \<open>
  The guard on generated SQL, \<^verbatim>\<open>unimem/sql_guard.py\<close>: stripping fences and comments, the scanner
  that blanks comments and masks quoted text, and the two authorizers that SQLite consults during
  execution. The keyword tests of \<^verbatim>\<open>validate_select\<close> and \<^verbatim>\<open>ensure_limit\<close> use Unicode-aware regular
  expressions and are not modelled. A text is a list of code points, as in \<open>Media\<close>.
\<close>

section \<open>The scanner\<close>

definition MAX_SQL_BYTES :: nat where
  "MAX_SQL_BYTES = 64 * 1024"

definition starts_at :: "ustr \<Rightarrow> ustr \<Rightarrow> nat \<Rightarrow> bool" where
  "starts_at s pat i \<longleftrightarrow> slice s i (i + length pat) = pat"

text \<open>\<^verbatim>\<open>s.find(pat, lo)\<close>, \<open>None\<close> for \<^verbatim>\<open>-1\<close>.\<close>

definition find_from :: "ustr \<Rightarrow> ustr \<Rightarrow> nat \<Rightarrow> nat option" where
  "find_from s pat lo = List.find (starts_at s pat) [lo ..< length s]"

text \<open>\<^verbatim>\<open>xs[i:j] = " " * (j - i)\<close>\<close>

definition blank :: "ustr \<Rightarrow> nat \<Rightarrow> nat \<Rightarrow> ustr" where
  "blank xs i j = take i xs @ replicate (j - i) 32 @ drop j xs"

function scan_quote :: "ustr \<Rightarrow> nat \<Rightarrow> nat \<Rightarrow> nat option" where
  "scan_quote sql quote i =
     (if i < length sql then
        if sql ! i = quote then
          if quote \<noteq> 93 \<and> i + 1 < length sql \<and> sql ! (i + 1) = quote then scan_quote sql quote (i + 2)
          else Some (i + 1)
        else scan_quote sql quote (i + 1)
      else None)"
  by pat_completeness auto
termination by (relation "measure (\<lambda>(sql, quote, i). length sql - i)") auto

declare scan_quote.simps [simp del]

text \<open>The length of a quoted text after its opening character, with doubled quotes kept.\<close>

fun quote_len :: "nat \<Rightarrow> ustr \<Rightarrow> nat option" where
  "quote_len q [] = None"
| "quote_len q (c # s) =
     (if c = q then
        if q \<noteq> 93 \<and> s \<noteq> [] \<and> hd s = q then map_option (\<lambda>n. n + 2) (quote_len q (tl s)) else Some 1
      else map_option Suc (quote_len q s))"

lemma quote_len_bounds: "quote_len q s = Some n \<Longrightarrow> 1 \<le> n \<and> n \<le> length s"
proof (induction q s arbitrary: n rule: quote_len.induct)
  case (2 q c s)
  then show ?case by (cases s) (fastforce split: if_splits)+
qed simp

lemma scan_quote_list: "scan_quote sql q i = map_option (\<lambda>n. i + n) (quote_len q (drop i sql))"
proof (induction sql q i rule: scan_quote.induct)
  case (1 sql q i)
  show ?case
  proof (cases "i < length sql")
    case True
    then have d: "drop i sql = sql ! i # drop (Suc i) sql" by (simp add: Cons_nth_drop_Suc)
    have h: "drop (Suc i) sql \<noteq> [] \<and> hd (drop (Suc i) sql) = q \<longleftrightarrow> i + 1 < length sql \<and> sql ! (i + 1) = q"
      by (auto simp: hd_drop_conv_nth)
    have tl: "tl (drop (Suc i) sql) = drop (i + 2) sql" by (simp add: tl_drop drop_Suc)
    show ?thesis
      unfolding d quote_len.simps h tl
      using 1 True by (subst scan_quote.simps) (auto simp: option.map_comp comp_def)
  qed (simp add: scan_quote.simps)
qed

lemma scan_quote_gt: "scan_quote sql quote i = Some j \<Longrightarrow> i < j \<and> j \<le> length sql"
  by (auto simp: scan_quote_list dest!: quote_len_bounds)

lemma find_from_ge: "find_from s pat lo = Some e \<Longrightarrow> lo \<le> e \<and> e < length s"
  unfolding find_from_def by (auto simp: find_Some_iff)

definition is_quote :: "nat \<Rightarrow> bool" where
  "is_quote c \<longleftrightarrow> c = 39 \<or> c = 34 \<or> c = 96 \<or> c = 91"

definition closing :: "nat \<Rightarrow> nat" where
  "closing c = (if c = 91 then 93 else c)"

text \<open>The scanner's loop. \<^verbatim>\<open>SqlGuardError\<close> is a \<^verbatim>\<open>ValueError\<close>.\<close>

function scan_loop :: "ustr \<Rightarrow> nat \<Rightarrow> ustr \<Rightarrow> ustr \<Rightarrow> (ustr \<times> ustr) result" where
  "scan_loop sql i chars masked =
     (if i < length sql then
        if starts_at sql [45, 45] i then
          (let stop = (case find_from sql [10] (i + 2) of None \<Rightarrow> length sql | Some e \<Rightarrow> e) in
           scan_loop sql stop (blank chars i stop) (blank masked i stop))
        else if starts_at sql [47, 42] i then
          (case find_from sql [42, 47] (i + 2) of
             None \<Rightarrow> Inl ValueError
           | Some e \<Rightarrow> scan_loop sql (e + 2) (blank chars i (e + 2)) (blank masked i (e + 2)))
        else if is_quote (sql ! i) then
          (case scan_quote sql (closing (sql ! i)) (i + 1) of
             None \<Rightarrow> Inl ValueError
           | Some j \<Rightarrow> scan_loop sql j chars (blank masked i j))
        else scan_loop sql (i + 1) chars masked
      else Inr (chars, masked))"
  by pat_completeness auto
termination
  by (relation "measure (\<lambda>(sql, i, chars, masked). length sql - i)")
    (auto split: option.splits dest: find_from_ge scan_quote_gt)

declare scan_loop.simps [simp del]

definition scan_sql :: "ustr \<Rightarrow> (ustr \<times> ustr) result" where
  "scan_sql sql = scan_loop sql 0 sql sql"

definition mask_string_literals :: "ustr \<Rightarrow> ustr result" where
  "mask_string_literals sql = bind_r (scan_sql sql) (\<lambda>(c, m). Inr m)"

section \<open>Stripping\<close>

definition is_letter :: "nat \<Rightarrow> bool" where
  "is_letter c \<longleftrightarrow> (65 \<le> c \<and> c \<le> 90) \<or> (97 \<le> c \<and> c \<le> 122)"

definition FENCE :: ustr where
  "FENCE = [96, 96, 96]"

text \<open>
  The substitution of \<^verbatim>\<open>_FENCE_RE\<close> on a stripped text: an opening fence with its language tag and
  the white space after it, then a closing fence with the white space before it.
\<close>

definition drop_fences :: "ustr \<Rightarrow> ustr" where
  "drop_fences s =
     (let r = (if take 3 s = FENCE then dropWhile is_space (dropWhile is_letter (drop 3 s)) else s) in
      if length r \<ge> 3 \<and> drop (length r - 3) r = FENCE then rev (dropWhile is_space (rev (take (length r - 3) r))) else r)"

definition utf8_size :: "ustr \<Rightarrow> nat" where
  "utf8_size s = sum_list (map (\<lambda>c. if c < 128 then 1 else if c < 2048 then 2 else if c < 65536 then 3 else 4) s)"

definition rstrip :: "ustr \<Rightarrow> ustr" where
  "rstrip s = rev (dropWhile is_space (rev s))"

definition strip_sql :: "ustr option \<Rightarrow> ustr result" where
  "strip_sql sql =
     (case sql of
        None \<Rightarrow> Inl ValueError
      | Some s \<Rightarrow>
          guard_r (utf8_size s \<le> MAX_SQL_BYTES) ValueError
            (bind_r (scan_sql (ustrip (drop_fences (ustrip s)))) (\<lambda>(cleaned, m).
               let c = ustrip cleaned in
               Inr (if c \<noteq> [] \<and> last c = 59 then rstrip (butlast c) else c))))"

section \<open>The authorizers\<close>

datatype sqlite_action = SQLITE_READ | SQLITE_FUNCTION | SQLITE_SELECT | SQLITE_RECURSIVE | SQLITE_OTHER nat

datatype sqlite_answer = SQLITE_OK | SQLITE_DENY

text \<open>\<open>lower\<close> is \<^verbatim>\<open>str.lower\<close>; an argument SQLite leaves out is the empty text.\<close>

definition read_only_authorizer :: "(string \<Rightarrow> string) \<Rightarrow> sqlite_action \<Rightarrow> string \<Rightarrow> string \<Rightarrow> sqlite_answer" where
  "read_only_authorizer lower action arg1 arg2 =
     (if action = SQLITE_READ then
        (if take 7 (lower arg1) = ''pragma_'' then SQLITE_DENY else SQLITE_OK)
      else if action = SQLITE_FUNCTION then
        (if lower (if arg2 \<noteq> [] then arg2 else arg1) \<in> {''load_extension'', ''readfile'', ''writefile'', ''eval''}
         then SQLITE_DENY else SQLITE_OK)
      else if action \<in> {SQLITE_SELECT, SQLITE_RECURSIVE} then SQLITE_OK
      else SQLITE_DENY)"

definition LEGACY_SAFE_FUNCTIONS :: "string list" where
  "LEGACY_SAFE_FUNCTIONS = [''count'', ''sum'', ''avg'', ''min'', ''max'', ''total'', ''length'', ''typeof'',
     ''abs'', ''round'', ''coalesce'', ''ifnull'', ''nullif'', ''instr'', ''unicode'']"

definition legacy_authorizer :: "(string \<Rightarrow> string) \<Rightarrow> sqlite_action \<Rightarrow> string \<Rightarrow> string \<Rightarrow> sqlite_answer" where
  "legacy_authorizer lower action arg1 arg2 =
     (if action = SQLITE_FUNCTION \<and> lower (if arg2 \<noteq> [] then arg2 else arg1) \<notin> set LEGACY_SAFE_FUNCTIONS
      then SQLITE_DENY
      else read_only_authorizer lower action arg1 arg2)"

section \<open>The scanner as recursion over the text\<close>

fun comment_len :: "ustr \<Rightarrow> nat option" where
  "comment_len [] = None"
| "comment_len (c # s) = (if c = 42 \<and> s \<noteq> [] \<and> hd s = 47 then Some 2 else map_option Suc (comment_len s))"

definition region :: "ustr \<Rightarrow> (nat \<times> bool) option" where
  "region s =
     (if take 2 s = [45, 45] then Some (2 + length (takeWhile (\<lambda>c. c \<noteq> 10) (drop 2 s)), True)
      else if take 2 s = [47, 42] then map_option (\<lambda>n. (n + 2, True)) (comment_len (drop 2 s))
      else if s \<noteq> [] \<and> is_quote (hd s) then map_option (\<lambda>n. (n + 1, False)) (quote_len (closing (hd s)) (tl s))
      else Some (0, False))"

lemma comment_len_bounds: "comment_len s = Some n \<Longrightarrow> 2 \<le> n \<and> n \<le> length s"
proof (induction s arbitrary: n)
  case (Cons c s)
  then show ?case by (cases s) (auto split: if_splits)
qed simp


function scan_list :: "ustr \<Rightarrow> (ustr \<times> ustr) result" where
  "scan_list s =
     (if s = [] then Inr ([], [])
      else case region s of
        None \<Rightarrow> Inl ValueError
      | Some (n, comment) \<Rightarrow>
          if n = 0 then bind_r (scan_list (tl s)) (\<lambda>(a, b). Inr (hd s # a, hd s # b))
          else bind_r (scan_list (drop n s)) (\<lambda>(a, b).
            Inr ((if comment then replicate n 32 else take n s) @ a, replicate n 32 @ b)))"
  by pat_completeness auto
termination by (relation "measure length") auto

declare scan_list.simps [simp del]

lemma starts_at_drop: "starts_at sql pat i \<longleftrightarrow> take (length pat) (drop i sql) = pat"
  by (simp add: starts_at_def slice_def)

lemma starts_at_2: "starts_at sql [x, y] i \<longleftrightarrow> take 2 (drop i sql) = [x, y]"
  by (simp add: starts_at_drop numeral_2_eq_2)

lemma find_from_Cons: "find_from s pat lo = (if lo < length s then if starts_at s pat lo then Some lo else find_from s pat (Suc lo) else None)"
  by (simp add: find_from_def upt_conv_Cons)

lemma find_newline:
  "lo \<le> length s \<Longrightarrow> (case find_from s [10] lo of None \<Rightarrow> length s | Some e \<Rightarrow> e) = lo + length (takeWhile (\<lambda>c. c \<noteq> 10) (drop lo s))"
proof (induction "length s - lo" arbitrary: lo)
  case 0
  then show ?case by (simp add: find_from_Cons)
next
  case (Suc n)
  then have "drop lo s = s ! lo # drop (Suc lo) s" by (simp add: Cons_nth_drop_Suc)
  with Suc show ?case by (subst find_from_Cons) (simp add: starts_at_drop)
qed

lemma find_comment:
  "find_from s [42, 47] lo = map_option (\<lambda>n. lo + n - 2) (comment_len (drop lo s))"
proof (induction "length s - lo" arbitrary: lo)
  case 0
  then show ?case by (simp add: find_from_Cons)
next
  case (Suc n)
  then have d: "drop lo s = s ! lo # drop (Suc lo) s" by (simp add: Cons_nth_drop_Suc)
  have t: "starts_at s [42, 47] lo \<longleftrightarrow> s ! lo = 42 \<and> drop (Suc lo) s \<noteq> [] \<and> hd (drop (Suc lo) s) = 47"
    by (cases "drop (Suc lo) s") (auto simp: starts_at_drop d)
  have "find_from s [42, 47] (Suc lo) = map_option (\<lambda>n. Suc lo + n - 2) (comment_len (drop (Suc lo) s))"
    using Suc by simp
  then show ?case
    using Suc(2) by (subst find_from_Cons) (auto simp: d t option.map_comp comp_def)
qed


lemma blank_simps:
  assumes "i \<le> j" "j \<le> length xs"
  shows "length (blank xs i j) = length xs" "drop j (blank xs i j) = drop j xs"
    "take j (blank xs i j) = take i xs @ replicate (j - i) 32"
  using assms by (auto simp: blank_def)

lemma take_split: "i \<le> j \<Longrightarrow> take j xs = take i xs @ take (j - i) (drop i xs)"
  by (metis le_add_diff_inverse take_add)

lemma scan_list_region:
  assumes "s \<noteq> []" "region s = Some (n, c)" "n \<noteq> 0"
  shows "scan_list s = bind_r (scan_list (drop n s)) (\<lambda>(a, b). Inr ((if c then replicate n 32 else take n s) @ a, replicate n 32 @ b))"
  using assms by (subst scan_list.simps) simp

definition in_step :: "ustr \<Rightarrow> nat \<Rightarrow> ustr \<Rightarrow> bool" where
  "in_step sql i xs \<longleftrightarrow> length xs = length sql \<and> drop i xs = drop i sql"

lemma in_step_later: "in_step sql i xs \<Longrightarrow> in_step sql (i + n) xs"
  unfolding in_step_def by (metis drop_drop add.commute)

lemma in_step_blank: "in_step sql i xs \<Longrightarrow> i + n \<le> length sql \<Longrightarrow> in_step sql (i + n) (blank xs i (i + n))"
  using in_step_later [of sql i xs n] by (simp add: in_step_def blank_simps)

definition glue :: "ustr \<Rightarrow> ustr \<Rightarrow> nat \<Rightarrow> (ustr \<times> ustr) \<Rightarrow> (ustr \<times> ustr) result" where
  "glue chars masked i p = Inr (take i chars @ fst p, take i masked @ snd p)"

text \<open>A region skipped by the loop is a region of the recursion.\<close>

lemma scan_jump:
  assumes "in_step sql i chars" "in_step sql i masked" "region (drop i sql) = Some (n, c)" "n \<noteq> 0" "i < length sql" "i + n \<le> length sql"
    and "chars' = (if c then blank chars i (i + n) else chars)"
    and "in_step sql (i + n) chars' \<Longrightarrow> in_step sql (i + n) (blank masked i (i + n)) \<Longrightarrow>
      scan_loop sql (i + n) chars' (blank masked i (i + n))
        = bind_r (scan_list (drop (i + n) sql)) (glue chars' (blank masked i (i + n)) (i + n))"
  shows "scan_loop sql (i + n) chars' (blank masked i (i + n)) = bind_r (scan_list (drop i sql)) (glue chars masked i)"
proof -
  have steps: "in_step sql (i + n) chars'" "in_step sql (i + n) (blank masked i (i + n))"
    using assms(1,2,6,7) by (auto intro: in_step_blank in_step_later)
  have ne: "drop i sql \<noteq> []" using assms(5) by simp
  have "take (i + n) chars' = take i chars @ (if c then replicate n 32 else take n (drop i sql))"
    using assms(1,6,7) take_split [of i "i + n" chars] by (auto simp: blank_simps in_step_def)
  moreover have "take (i + n) (blank masked i (i + n)) = take i masked @ replicate n 32"
    using assms(2,6) by (simp add: blank_simps in_step_def)
  ultimately have "glue chars' (blank masked i (i + n)) (i + n) = (\<lambda>p. Inr (take i chars @ (if c then replicate n 32 else take n (drop i sql)) @ fst p,
      take i masked @ replicate n 32 @ snd p))"
    by (simp add: fun_eq_iff glue_def)
  then show ?thesis
    unfolding assms(8) [OF steps] scan_list_region [OF ne assms(3,4)]
    by (simp add: bind_r_assoc glue_def case_prod_beta add.commute)
qed

lemma scan_loop_list:
  assumes "in_step sql i chars" "in_step sql i masked"
  shows "scan_loop sql i chars masked = bind_r (scan_list (drop i sql)) (glue chars masked i)"
  using assms
proof (induction sql i chars masked rule: scan_loop.induct)
  case (1 sql i chars masked)
  let ?s = "drop i sql"
  note IH = 1(1-4) and inv = 1(5,6)
  show ?case
  proof (cases "i < length sql")
    case False
    with inv show ?thesis by (simp add: scan_loop.simps scan_list.simps glue_def in_step_def)
  next
    case True
    then have ne: "?s \<noteq> []" and hd: "hd ?s = sql ! i" and tl: "tl ?s = drop (i + 1) sql"
      by (simp_all add: hd_drop_conv_nth tl_drop drop_Suc)
    consider (line) "starts_at sql [45, 45] i"
      | (block) "\<not> starts_at sql [45, 45] i" "starts_at sql [47, 42] i"
      | (quote) "\<not> starts_at sql [45, 45] i" "\<not> starts_at sql [47, 42] i" "is_quote (sql ! i)"
      | (plain) "\<not> starts_at sql [45, 45] i" "\<not> starts_at sql [47, 42] i" "\<not> is_quote (sql ! i)" by blast
    then show ?thesis
    proof cases
      case line
      let ?n = "2 + length (takeWhile (\<lambda>c. c \<noteq> 10) (drop 2 ?s))"
      have i2: "i + 2 \<le> length sql" using line by (auto simp: starts_at_2 dest!: arg_cong [of _ _ length])
      have stop: "(case find_from sql [10] (i + 2) of None \<Rightarrow> length sql | Some e \<Rightarrow> e) = i + ?n"
        using find_newline [OF i2] by (simp add: drop_drop add.commute)
      have n: "i + ?n \<le> length sql" using i2 length_takeWhile_le [of "\<lambda>c. c \<noteq> 10" "drop 2 ?s"] by simp
      have reg: "region ?s = Some (?n, True)" using line by (simp add: region_def starts_at_2)
      have "scan_loop sql i chars masked = scan_loop sql (i + ?n) (blank chars i (i + ?n)) (blank masked i (i + ?n))"
        by (subst scan_loop.simps) (simp only: True line if_True Let_def stop)
      also have "\<dots> = bind_r (scan_list ?s) (glue chars masked i)"
        by (rule scan_jump [OF inv reg _ True n]) (use IH(1) [OF True line refl, unfolded stop] in auto)
      finally show ?thesis .
    next
      case block
      have com: "find_from sql [42, 47] (i + 2) = map_option (\<lambda>n. i + n) (comment_len (drop 2 ?s))"
        by (simp add: find_comment drop_drop add.commute)
      show ?thesis
      proof (cases "comment_len (drop 2 ?s)")
        case None
        then have "region ?s = None" using block by (simp add: region_def starts_at_2)
        with None block True com ne show ?thesis by (simp add: scan_loop.simps scan_list.simps)
      next
        case (Some n)
        then have reg: "region ?s = Some (n + 2, True)" using block by (simp add: region_def starts_at_2)
        have n: "i + (n + 2) \<le> length sql" using comment_len_bounds [OF Some] by auto
        have found: "find_from sql [42, 47] (i + 2) = Some (i + n)" unfolding com Some by simp
        have "scan_loop sql i chars masked = scan_loop sql (i + (n + 2)) (blank chars i (i + (n + 2))) (blank masked i (i + (n + 2)))"
          by (subst scan_loop.simps) (simp only: True block if_True if_False found option.case add.assoc)
        also have "\<dots> = bind_r (scan_list ?s) (glue chars masked i)"
          by (rule scan_jump [OF inv reg _ True n]) (use IH(2) [OF True block found] in \<open>auto simp: add.assoc\<close>)
        finally show ?thesis .
      qed
    next
      case quote
      show ?thesis
      proof (cases "quote_len (closing (sql ! i)) (tl ?s)")
        case None
        then have "region ?s = None" using quote ne hd by (simp add: region_def starts_at_2)
        with None quote True ne tl show ?thesis by (simp add: scan_loop.simps scan_list.simps scan_quote_list)
      next
        case (Some n)
        then have reg: "region ?s = Some (n + 1, False)" using quote ne hd by (simp add: region_def starts_at_2)
        have n: "i + (n + 1) \<le> length sql" using quote_len_bounds [OF Some] True by auto
        have found: "scan_quote sql (closing (sql ! i)) (i + 1) = Some (i + (n + 1))"
          using Some by (simp add: scan_quote_list tl)
        have "scan_loop sql i chars masked = scan_loop sql (i + (n + 1)) chars (blank masked i (i + (n + 1)))"
          by (subst scan_loop.simps) (simp only: True quote if_True if_False found option.case)
        also have "\<dots> = bind_r (scan_list ?s) (glue chars masked i)"
          by (rule scan_jump [OF inv reg _ True n]) (use IH(3) [OF True quote found] in auto)
        finally show ?thesis .
      qed
    next
      case plain
      then have reg: "region ?s = Some (0, False)" using ne hd by (simp add: region_def starts_at_2)
      have cut: "take (i + 1) xs = take i xs @ [sql ! i]" if "in_step sql i xs" for xs
      proof -
        have "xs ! i = sql ! i" using that True unfolding in_step_def by (metis hd_drop_conv_nth)
        then show ?thesis using that True by (simp add: take_Suc_conv_app_nth in_step_def)
      qed
      have "scan_list ?s = bind_r (scan_list (drop (i + 1) sql)) (\<lambda>(a, b). Inr (sql ! i # a, sql ! i # b))"
        using ne reg by (subst scan_list.simps) (simp add: hd tl)
      moreover have "scan_loop sql i chars masked = scan_loop sql (i + 1) chars masked"
        by (subst scan_loop.simps) (simp only: True plain if_True if_False)
      ultimately show ?thesis
        using IH(4) [OF True plain in_step_later in_step_later, OF inv]
        by (simp add: cut [OF inv(1), simplified] cut [OF inv(2), simplified] bind_r_assoc case_prod_beta glue_def)
    qed
  qed
qed

lemma scan_sql_list: "scan_sql s = scan_list s"
proof -
  have "scan_sql s = bind_r (scan_list s) (glue s s 0)"
    unfolding scan_sql_def by (subst scan_loop_list) (simp_all add: in_step_def)
  then show ?thesis by (cases "scan_list s") (auto simp: glue_def)
qed


section \<open>Scanning again finds nothing new\<close>

lemma take_2: "take 2 s = [x, y] \<longleftrightarrow> s \<noteq> [] \<and> hd s = x \<and> tl s \<noteq> [] \<and> hd (tl s) = y"
  by (cases s; cases "tl s") (auto simp: numeral_2_eq_2)

lemma take_1: "take (Suc 0) r = [x] \<longleftrightarrow> r \<noteq> [] \<and> hd r = x"
  by (cases r) auto

definition opens :: "nat \<Rightarrow> ustr \<Rightarrow> bool" where
  "opens c r \<longleftrightarrow> is_quote c \<or> (r \<noteq> [] \<and> (c = 45 \<and> hd r = 45 \<or> c = 47 \<and> hd r = 42))"

lemma region_plain: "\<not> opens c r \<Longrightarrow> region (c # r) = Some (0, False)"
  by (auto simp: region_def opens_def take_2 take_1)

lemma region_zero: "region (c # r) = Some (0, x) \<Longrightarrow> \<not> opens c r"
  by (auto simp: region_def opens_def take_2 take_1 split: if_splits)

lemma scan_list_plain:
  "\<not> opens c r \<Longrightarrow> scan_list (c # r) = bind_r (scan_list r) (\<lambda>(a, b). Inr (c # a, c # b))"
  by (subst scan_list.simps) (simp add: region_plain)

lemma opens_32 [simp]: "\<not> opens 32 r"
  by (simp add: opens_def is_quote_def)

lemma scan_list_spaces:
  "scan_list (replicate n 32 @ s) = bind_r (scan_list s) (\<lambda>(a, b). Inr (replicate n 32 @ a, replicate n 32 @ b))"
  by (induction n) (auto simp: scan_list_plain bind_r_assoc bind_r_def split: sum.splits)

lemma scan_list_Inr:
  assumes "scan_list s = Inr (a, b)" "s \<noteq> []"
  obtains (plain) c r a' b' where "s = c # r" "\<not> opens c r" "scan_list r = Inr (a', b')" "a = c # a'" "b = c # b'"
  | (skip) n comment a' b' where "region s = Some (n, comment)" "n \<noteq> 0" "scan_list (drop n s) = Inr (a', b')"
      "a = (if comment then replicate n 32 else take n s) @ a'" "b = replicate n 32 @ b'"
proof -
  from assms obtain n comment where reg: "region s = Some (n, comment)"
    by (subst (asm) scan_list.simps) (auto split: option.splits)
  show ?thesis
  proof (cases n)
    case 0
    with assms reg have "bind_r (scan_list (tl s)) (\<lambda>(a, b). Inr (hd s # a, hd s # b)) = Inr (a, b)"
      by (subst (asm) scan_list.simps) simp
    moreover have "\<not> opens (hd s) (tl s)" using region_zero [of "hd s" "tl s"] reg 0 assms(2) by simp
    ultimately show ?thesis using assms(2) by (auto simp: bind_r_Inr intro!: plain [of "hd s" "tl s"])
  next
    case (Suc m)
    with assms(1) scan_list_region [OF assms(2) reg] show ?thesis
      by (auto simp: bind_r_Inr intro!: skip [OF reg])
  qed
qed

lemma region_bounds: "region s = Some (n, c) \<Longrightarrow> n \<le> length s"
  using length_takeWhile_le [of "\<lambda>c. c \<noteq> 10" "drop 2 s"]
  by (cases s) (auto simp: region_def take_2 split: if_splits dest!: comment_len_bounds quote_len_bounds
      dest: arg_cong [of _ _ length] simp: Suc_le_eq)

lemma scan_list_shape:
  "scan_list s = Inr (a, b) \<Longrightarrow> length a = length s \<and> length b = length s
     \<and> (s \<noteq> [] \<longrightarrow> hd a \<in> {hd s, 32} \<and> hd b \<in> {hd s, 32})"
proof (induction s arbitrary: a b rule: length_induct)
  case (1 s)
  show ?case
  proof (cases "s = []")
    case True
    with 1(2) show ?thesis by (simp add: scan_list.simps)
  next
    case False
    from 1(2) False show ?thesis
    proof (cases rule: scan_list_Inr)
      case (plain c r a' b')
      have "length a' = length r \<and> length b' = length r" using 1(1) plain(1,3) by (metis length_Cons lessI)
      with plain show ?thesis by simp
    next
      case (skip n comment a' b')
      then have n: "n \<le> length s" by (simp add: region_bounds)
      have "length a' = length (drop n s)" "length b' = length (drop n s)"
        using 1(1) skip(2,3) False by (metis diff_less length_drop length_greater_0_conv neq0_conv)+
      then show ?thesis using skip n False by (cases n; cases s) auto
    qed
  qed
qed

lemma quote_len_stop: "quote_len q r = Some n \<Longrightarrow> q \<noteq> 93 \<Longrightarrow> drop n r = [] \<or> hd (drop n r) \<noteq> q"
proof (induction q r arbitrary: n rule: quote_len.induct)
  case (2 q c s)
  then show ?case by (cases s) (auto split: if_splits)
qed simp

lemma quote_len_prefix:
  "quote_len q r = Some n \<Longrightarrow> q = 93 \<or> a = [] \<or> hd a \<noteq> q \<Longrightarrow> quote_len q (take n r @ a) = Some n"
proof (induction q r arbitrary: n rule: quote_len.induct)
  case (2 q c s)
  show ?case
  proof (cases "c = q \<and> q \<noteq> 93 \<and> s \<noteq> [] \<and> hd s = q")
    case True
    with 2(3) obtain m where m: "quote_len q (tl s) = Some m" "n = m + 2" by auto
    have "quote_len q (take m (tl s) @ a) = Some m" using 2(1) True m(1) 2(4) by blast
    moreover obtain s' where "s = q # s'" using True by (cases s) auto
    ultimately show ?thesis using True m(2) by simp
  next
    case False
    show ?thesis
    proof (cases "c = q")
      case True
      with False 2(3) have "n = 1" by (auto split: if_splits)
      with True 2(4) show ?thesis by auto
    next
      case neq: False
      with 2(3) obtain m where "quote_len q s = Some m" "n = Suc m" by auto
      with 2(2) [OF neq] 2(4) neq show ?thesis by auto
    qed
  qed
qed simp

lemma region_quoted:
  assumes "region s = Some (n, False)" "n \<noteq> 0" "a = [] \<or> drop n s \<noteq> [] \<and> hd a \<in> {hd (drop n s), 32}"
  shows "region (take n s @ a) = Some (n, False)"
proof -
  from assms(1,2) obtain c r m where s: "s = c # r" "is_quote c" "quote_len (closing c) r = Some m" "n = m + 1"
    by (cases s) (auto simp: region_def split: if_splits)
  have "closing c = 93 \<or> a = [] \<or> hd a \<noteq> closing c"
    using quote_len_stop [OF s(3)] assms(3) s by (auto simp: closing_def is_quote_def split: if_splits)
  from quote_len_prefix [OF s(3) this] show ?thesis
    using s by (auto simp: region_def take_2 is_quote_def)
qed

lemma scan_list_again:
  "scan_list s = Inr (a, b) \<Longrightarrow> scan_list a = Inr (a, b) \<and> scan_list b = Inr (b, b)"
proof (induction s arbitrary: a b rule: length_induct)
  case (1 s)
  show ?case
  proof (cases "s = []")
    case True
    with 1(2) show ?thesis by (simp add: scan_list.simps)
  next
    case False
    from 1(2) False show ?thesis
    proof (cases rule: scan_list_Inr)
      case (plain c r a' b')
      have "length r < length s" by (simp add: plain)
      with 1(1) plain(3) have ih: "scan_list a' = Inr (a', b')" "scan_list b' = Inr (b', b')" by blast+
      have "\<not> opens c a'" "\<not> opens c b'"
        using scan_list_shape [OF plain(3)] plain(2) by (auto simp: opens_def)
      with ih show ?thesis by (simp add: plain scan_list_plain)
    next
      case (skip n comment a' b')
      have "length (drop n s) < length s" using skip(2) False by simp
      with 1(1) skip(3) have ih: "scan_list a' = Inr (a', b')" "scan_list b' = Inr (b', b')" by blast+
      have b: "scan_list b = Inr (b, b)" by (simp add: skip(5) scan_list_spaces ih)
      show ?thesis
      proof (cases comment)
        case True
        with b show ?thesis by (simp add: skip(4,5) scan_list_spaces ih)
      next
        case com: False
        have len: "length a' = length (drop n s)" "drop n s \<noteq> [] \<longrightarrow> hd a' \<in> {hd (drop n s), 32}"
          using scan_list_shape [OF skip(3)] by auto
        then have reg: "region (take n s @ a') = Some (n, False)"
          using skip(1,2) com by (intro region_quoted) auto
        have n: "n \<le> length s" using skip(1) by (rule region_bounds)
        have ne: "take n s @ a' \<noteq> []" using False skip(2) n by simp
        show ?thesis
          using b com n by (simp add: skip(4,5) scan_list_region [OF ne reg skip(2)] ih)
      qed
    qed
  qed
qed

text \<open>
  The scanner's two texts keep every offset, and scanning again changes nothing: the cleaned
  text has the same mask, and the mask itself holds no comment and no quoted text. A separator or a
  keyword found in the mask is therefore outside every literal and comment of the query.
\<close>

theorem scan_sql_stable:
  assumes "scan_sql sql = Inr (cleaned, masked)"
  shows "length cleaned = length sql \<and> length masked = length sql
    \<and> scan_sql cleaned = Inr (cleaned, masked) \<and> scan_sql masked = Inr (masked, masked)"
  using assms scan_list_shape scan_list_again unfolding scan_sql_list by blast

definition sample_sql :: ustr where
  "sample_sql = ulit ''a--b''"

theorem scan_sql_stable_witness:
  "scan_sql sample_sql = Inr (ulit ''a   '', ulit ''a   '')
    \<and> scan_sql (ulit ''a   '') = Inr (ulit ''a   '', ulit ''a   '')"
proof -
  have scan: "scan_sql sample_sql = Inr (ulit ''a   '', ulit ''a   '')"
    by (simp add: scan_sql_list sample_sql_def ulit_def scan_list.simps region_def is_quote_def numeral_3_eq_3)
  with scan_sql_stable [OF scan] show ?thesis by simp
qed

end
