(* ===== verification/Runtime.thy ===== *)
theory Runtime
  imports Complex_Main Prelude
begin

text \<open>
  Calls to unreliable providers and shared caches: \<^verbatim>\<open>unimem/retry.py\<close>, \<^verbatim>\<open>unimem/circuit_breaker.py\<close>,
  \<^verbatim>\<open>unimem/overload.py\<close> and \<^verbatim>\<open>unimem/runtime_cache.py\<close>. Every critical section under a lock is one
  operation on the component's record, and threads interleave between them: a call in flight is a
  ticket held by the environment. Times and delays are rational numbers of seconds (the rounding of
  floating-point arithmetic is not modelled), and the clock's reading is an argument.
\<close>

section \<open>Retries\<close>

definition MAX_RETRIES :: int where "MAX_RETRIES = 4"
definition MAX_WAIT_SECONDS :: rat where "MAX_WAIT_SECONDS = 60"

text \<open>What \<^verbatim>\<open>float(value)\<close>, or the HTTP date's distance from now, is for a header text.\<close>

datatype delay = NotANumber | Infinite | Seconds rat

definition retry_after_seconds :: "(string \<Rightarrow> delay) \<Rightarrow> rat \<Rightarrow> string option \<Rightarrow> nat \<Rightarrow> rat" where
  "retry_after_seconds delay_of jitter value attempt =
     (let backoff = min MAX_WAIT_SECONDS (2 ^ (attempt - 1) * (1 + jitter * (1 / 4))) in
      case value of
        None \<Rightarrow> backoff
      | Some v \<Rightarrow>
          if v = [] then backoff
          else case delay_of v of
                 NotANumber \<Rightarrow> backoff
               | Infinite \<Rightarrow> MAX_WAIT_SECONDS
               | Seconds d \<Rightarrow> if d > 0 then min d MAX_WAIT_SECONDS else backoff)"

text \<open>
  Failures as the classifier sees them: an HTTP status with its Retry-After header if there are
  headers, a transport failure with its reason, or any other exception.
\<close>

datatype reason = ConnectionRefused | NameResolution | OtherReason

datatype failure = HTTPError int "string option" | URLError reason | TransportError reason | OtherError

definition is_retryable :: "failure \<Rightarrow> bool \<Rightarrow> bool \<times> string option" where
  "is_retryable exc idempotent =
     (case exc of
        HTTPError code hint \<Rightarrow>
          if code = 429 then (True, hint)
          else if 500 \<le> code \<and> code < 600 then (idempotent, hint)
          else (False, None)
      | URLError r \<Rightarrow> (idempotent \<or> r \<in> {ConnectionRefused, NameResolution}, None)
      | TransportError r \<Rightarrow> (idempotent \<or> r \<in> {ConnectionRefused, NameResolution}, None)
      | OtherError \<Rightarrow> (False, None))"

text \<open>
  The loop: \<open>fn k\<close> is what the \<open>k\<close>-th call does, \<open>jit k\<close> the random number drawn after it. The
  result carries the trace of waits, one per repeated call.
\<close>

record 'a attempt_log =
  al_result :: "'a option"
  al_error :: "failure option"
  al_calls :: nat
  al_waits :: "rat list"

function retry_loop ::
  "(nat \<Rightarrow> failure + 'a) \<Rightarrow> (string \<Rightarrow> delay) \<Rightarrow> (nat \<Rightarrow> rat) \<Rightarrow> bool \<Rightarrow> nat \<Rightarrow> nat \<Rightarrow> rat list \<Rightarrow> 'a attempt_log" where
  "retry_loop fn delay_of jit idempotent attempts attempt waits =
     (case fn attempt of
        Inr v \<Rightarrow> \<lparr>al_result = Some v, al_error = None, al_calls = attempt, al_waits = waits\<rparr>
      | Inl exc \<Rightarrow>
          (let (retry, hint) = is_retryable exc idempotent in
           if \<not> retry \<or> attempt \<ge> attempts
           then \<lparr>al_result = None, al_error = Some exc, al_calls = attempt, al_waits = waits\<rparr>
           else retry_loop fn delay_of jit idempotent attempts (attempt + 1)
                  (waits @ [retry_after_seconds delay_of (jit attempt) hint attempt])))"
  by pat_completeness auto
termination by (relation "measure (\<lambda>(fn, d, j, i, attempts, attempt, w). attempts - attempt)") auto

declare retry_loop.simps [simp del]

definition call_with_retries ::
  "(nat \<Rightarrow> failure + 'a) \<Rightarrow> (string \<Rightarrow> delay) \<Rightarrow> (nat \<Rightarrow> rat) \<Rightarrow> int \<Rightarrow> bool \<Rightarrow> 'a attempt_log" where
  "call_with_retries fn delay_of jit max_retries idempotent =
     retry_loop fn delay_of jit idempotent (nat (max 1 max_retries)) 1 []"

section \<open>The circuit breaker\<close>

record breaker =
  cb_threshold :: int
  cb_recovery :: rat
  cb_failures :: int
  cb_generation :: nat
  cb_opened :: "rat option"
  cb_probe :: bool

definition breaker_init :: "int \<Rightarrow> rat \<Rightarrow> breaker result" where
  "breaker_init threshold recovery =
     guard_r (\<not> (threshold < 1 \<or> recovery \<le> 0)) ValueError
       (Inr \<lparr>cb_threshold = threshold, cb_recovery = recovery, cb_failures = 0, cb_generation = 0,
             cb_opened = None, cb_probe = False\<rparr>)"

text \<open>What a call keeps between its critical sections: whether it is a probe, and its generation.\<close>

record ticket =
  tk_probe :: bool
  tk_generation :: nat

datatype admission = CircuitOpenError rat | Admitted ticket

definition breaker_enter :: "rat \<Rightarrow> breaker \<Rightarrow> admission \<times> breaker" where
  "breaker_enter now cb =
     (case cb_opened cb of
        None \<Rightarrow> (Admitted \<lparr>tk_probe = False, tk_generation = cb_generation cb\<rparr>, cb)
      | Some opened \<Rightarrow>
          (let remaining = cb_recovery cb - (now - opened) in
           if remaining > 0 \<or> cb_probe cb then (CircuitOpenError (max 0 remaining), cb)
           else (Admitted \<lparr>tk_probe = True, tk_generation = cb_generation cb\<rparr>, cb \<lparr>cb_probe := True\<rparr>)))"

text \<open>
  How the guarded call ended: its result, a transient failure, another \<^verbatim>\<open>Exception\<close>, a
  \<^verbatim>\<open>BaseException\<close> such as a cancellation, or a failure of the classifier itself.
\<close>

datatype outcome = Success | Transient | Permanent | Cancelled | ClassifierFailed

definition breaker_exit :: "rat \<Rightarrow> ticket \<Rightarrow> outcome \<Rightarrow> breaker \<Rightarrow> breaker" where
  "breaker_exit now tk result cb =
     (if cb_generation cb \<noteq> tk_generation tk then cb
      else
        case result of
          ClassifierFailed \<Rightarrow> (if tk_probe tk then cb \<lparr>cb_probe := False\<rparr> else cb)
        | Transient \<Rightarrow>
            (let cb1 = (if tk_probe tk then cb \<lparr>cb_probe := False\<rparr> else cb);
                 cb2 = cb1 \<lparr>cb_failures := cb_failures cb1 + 1\<rparr> in
             if tk_probe tk \<or> cb_failures cb2 \<ge> cb_threshold cb2
             then cb2 \<lparr>cb_opened := Some now, cb_generation := cb_generation cb2 + 1\<rparr>
             else cb2)
        | Permanent \<Rightarrow>
            (let cb1 = (if tk_probe tk then cb \<lparr>cb_probe := False\<rparr> else cb);
                 cb2 = cb1 \<lparr>cb_failures := 0\<rparr> in
             if tk_probe tk then cb2 \<lparr>cb_opened := None, cb_generation := cb_generation cb2 + 1\<rparr> else cb2)
        | Cancelled \<Rightarrow> (if tk_probe tk then cb \<lparr>cb_probe := False\<rparr> else cb)
        | Success \<Rightarrow>
            (let cb1 = cb \<lparr>cb_failures := 0\<rparr> in
             if tk_probe tk
             then cb1 \<lparr>cb_probe := False, cb_opened := None, cb_generation := cb_generation cb1 + 1\<rparr>
             else cb1))"

text \<open>The breaker together with the tickets of the calls in flight; any of them may end next.\<close>

type_synonym circuit = "breaker \<times> ticket list"

inductive circuit_step :: "circuit \<Rightarrow> circuit \<Rightarrow> bool" where
  admit: "breaker_enter now cb = (Admitted tk, cb') \<Longrightarrow> circuit_step (cb, tks) (cb', tk # tks)"
| refuse: "breaker_enter now cb = (CircuitOpenError r, cb') \<Longrightarrow> circuit_step (cb, tks) (cb', tks)"
| finish: "tk \<in> set tks \<Longrightarrow> circuit_step (cb, tks) (breaker_exit now tk result cb, remove1 tk tks)"

inductive circuit_reach :: "int \<Rightarrow> rat \<Rightarrow> circuit \<Rightarrow> bool" for threshold recovery where
  start: "breaker_init threshold recovery = Inr cb \<Longrightarrow> circuit_reach threshold recovery (cb, [])"
| step: "circuit_reach threshold recovery c \<Longrightarrow> circuit_step c c' \<Longrightarrow> circuit_reach threshold recovery c'"

section \<open>Provider cooldown\<close>

record error_node =
  en_code :: "int option"
  en_status_code :: "int option"
  en_meta_status :: "int option"
  en_headers :: "(string \<times> string) list"
  en_meta_headers :: "(string \<times> string) list"
  en_cause :: "nat option"

text \<open>An attribute that is missing, and a number that is 0, are false in Python's \<^verbatim>\<open>or\<close>.\<close>

definition py_or :: "int option \<Rightarrow> int option \<Rightarrow> int option" where
  "py_or a b = (case a of Some x \<Rightarrow> if x = 0 then b else Some x | None \<Rightarrow> b)"

definition en_status :: "error_node \<Rightarrow> int option" where
  "en_status e = py_or (py_or (en_code e) (en_status_code e)) (en_meta_status e)"

definition en_hint :: "error_node \<Rightarrow> string option" where
  "en_hint e =
     (let headers = (if en_headers e \<noteq> [] then en_headers e else en_meta_headers e) in
      case map_of headers ''Retry-After'' of Some v \<Rightarrow> Some v | None \<Rightarrow> map_of headers ''retry-after'')"

record overload =
  ov_until :: rat
  ov_failures :: nat

definition overload_init :: overload where
  "overload_init = \<lparr>ov_until = 0, ov_failures = 0\<rparr>"

text \<open>\<open>Some d\<close>: \<^verbatim>\<open>Overloaded\<close> is raised, with the delay cut to the range 0 to 60.\<close>

definition overload_admit :: "rat \<Rightarrow> overload \<Rightarrow> rat option" where
  "overload_admit now ov =
     (let delay = ov_until ov - now in if delay > 0 then Some (max 0 (min 60 delay)) else None)"

text \<open>
  The walk along \<^verbatim>\<open>__cause__\<close>, over the exceptions by identity: it stops at a cycle, and at the
  first one with an overload status.
\<close>

function overload_cause :: "(nat \<times> error_node) list \<Rightarrow> nat option \<Rightarrow> nat list \<Rightarrow> error_node option" where
  "overload_cause heap None seen = None"
| "overload_cause heap (Some e) seen =
     (if e \<in> set seen then None
      else case map_of heap e of
             None \<Rightarrow> None
           | Some n \<Rightarrow>
               if en_status n \<in> {Some 429, Some 503, Some 529} then Some n
               else overload_cause heap (en_cause n) (e # seen))"
  by pat_completeness auto
termination
proof (relation "measure (\<lambda>(heap, e, seen). card (fst ` set heap - set seen))", goal_cases)
  case (2 heap e seen n)
  then have "e \<in> fst ` set heap" by (auto dest: map_of_SomeD intro: rev_image_eqI)
  with 2 have "fst ` set heap - set (e # seen) \<subset> fst ` set heap - set seen" by auto
  then show ?case by (simp only: in_measure split, intro psubset_card_mono) simp
qed simp

definition overload_on_error ::
  "(string \<Rightarrow> delay) \<Rightarrow> rat \<Rightarrow> rat \<Rightarrow> (nat \<times> error_node) list \<Rightarrow> nat option \<Rightarrow> overload \<Rightarrow> overload" where
  "overload_on_error delay_of jitter now heap error ov =
     (case overload_cause heap error [] of
        None \<Rightarrow> ov
      | Some n \<Rightarrow>
          (let failures = min 6 (ov_failures ov + 1);
               delay = retry_after_seconds delay_of jitter (en_hint n) failures in
           \<lparr>ov_until = max (ov_until ov) (now + delay), ov_failures = failures\<rparr>))"

definition overload_on_success :: "rat \<Rightarrow> overload \<Rightarrow> overload" where
  "overload_on_success now ov = (if now \<ge> ov_until ov then ov \<lparr>ov_failures := 0\<rparr> else ov)"


section \<open>The single-flight cache\<close>

text \<open>
  \<open>rc_entries\<close> is the \<^verbatim>\<open>OrderedDict\<close>, oldest first: expiry, value and size of each key. A flight is
  named by a number, its object identity, the next of which is \<open>rc_fresh\<close>; \<open>rc_results\<close> holds the
  fields of the flights that are ready. An absent \<open>rc_next_expiry\<close> is infinity.
\<close>

record ('k, 'v) cache =
  rc_max_entries :: int
  rc_max_bytes :: int
  rc_ttl :: rat
  rc_entries :: "('k \<times> (rat \<times> 'v \<times> int)) list"
  rc_flights :: "('k \<times> nat) list"
  rc_bytes_used :: int
  rc_next_expiry :: "rat option"
  rc_hits :: nat
  rc_misses :: nat
  rc_coalesced :: nat
  rc_evictions :: nat
  rc_fresh :: nat
  rc_results :: "(nat \<times> 'v result) list"

definition cache_init :: "int \<Rightarrow> int \<Rightarrow> rat \<Rightarrow> ('k, 'v) cache result" where
  "cache_init max_entries max_bytes ttl =
     guard_r (\<not> (max_entries < 0 \<or> max_bytes < 0 \<or> ttl < 0)) ValueError
       (Inr \<lparr>rc_max_entries = max_entries, rc_max_bytes = max_bytes, rc_ttl = ttl, rc_entries = [], rc_flights = [],
             rc_bytes_used = 0, rc_next_expiry = None, rc_hits = 0, rc_misses = 0, rc_coalesced = 0, rc_evictions = 0,
             rc_fresh = 0, rc_results = []\<rparr>)"

definition cache_clear :: "('k, 'v) cache \<Rightarrow> ('k, 'v) cache" where
  "cache_clear c = c \<lparr>rc_entries := [], rc_flights := [], rc_bytes_used := 0\<rparr>"

definition cache_drop :: "'k \<Rightarrow> ('k, 'v) cache \<Rightarrow> ('k, 'v) cache" where
  "cache_drop key c =
     (case map_of (rc_entries c) key of
        None \<Rightarrow> c
      | Some (expiry, value, sz) \<Rightarrow>
          c \<lparr>rc_entries := dpop (rc_entries c) key, rc_bytes_used := rc_bytes_used c - sz\<rparr>)"

definition cache_invalidate :: "'k \<Rightarrow> ('k, 'v) cache \<Rightarrow> ('k, 'v) cache" where
  "cache_invalidate key c = (let c' = cache_drop key c in c' \<lparr>rc_flights := dpop (rc_flights c') key\<rparr>)"

definition cache_stats :: "('k, 'v) cache \<Rightarrow> nat \<times> int \<times> nat \<times> nat \<times> nat \<times> nat" where
  "cache_stats c = (length (rc_entries c), rc_bytes_used c, rc_hits c, rc_misses c, rc_coalesced c, rc_evictions c)"

definition move_to_end :: "'k \<Rightarrow> ('k \<times> 'e) list \<Rightarrow> ('k \<times> 'e) list" where
  "move_to_end key es = (case map_of es key of None \<Rightarrow> es | Some e \<Rightarrow> dpop es key @ [(key, e)])"

definition cache_peek :: "rat \<Rightarrow> 'k \<Rightarrow> ('k, 'v) cache \<Rightarrow> 'v option \<times> ('k, 'v) cache" where
  "cache_peek now key c =
     (case map_of (rc_entries c) key of
        None \<Rightarrow> (None, c)
      | Some (expiry, value, sz) \<Rightarrow>
          if now \<ge> expiry then (None, cache_drop key c)
          else (Some value, c \<lparr>rc_entries := move_to_end key (rc_entries c)\<rparr>))"

text \<open>\<open>get_or_load\<close>, first critical section: a hit, the duty to load, or a flight to wait for.\<close>

datatype 'v lookup = Hit 'v | Owner nat | Waiter nat

definition cache_lookup :: "rat \<Rightarrow> 'k \<Rightarrow> ('k, 'v) cache \<Rightarrow> 'v lookup \<times> ('k, 'v) cache" where
  "cache_lookup now key c =
     (case map_of (rc_entries c) key of
        Some (expiry, value, sz) \<Rightarrow>
          if now < expiry
          then (Hit value, c \<lparr>rc_entries := move_to_end key (rc_entries c), rc_hits := rc_hits c + 1\<rparr>)
          else
            (let c1 = cache_drop key c in
             case map_of (rc_flights c1) key of
               None \<Rightarrow> (Owner (rc_fresh c1), c1 \<lparr>rc_flights := dset (rc_flights c1) key (rc_fresh c1),
                          rc_misses := rc_misses c1 + 1, rc_fresh := rc_fresh c1 + 1\<rparr>)
             | Some f \<Rightarrow> (Waiter f, c1 \<lparr>rc_coalesced := rc_coalesced c1 + 1\<rparr>))
      | None \<Rightarrow>
          case map_of (rc_flights c) key of
            None \<Rightarrow> (Owner (rc_fresh c), c \<lparr>rc_flights := dset (rc_flights c) key (rc_fresh c),
                       rc_misses := rc_misses c + 1, rc_fresh := rc_fresh c + 1\<rparr>)
          | Some f \<Rightarrow> (Waiter f, c \<lparr>rc_coalesced := rc_coalesced c + 1\<rparr>))"

definition min_expiry :: "rat option \<Rightarrow> rat \<Rightarrow> rat option" where
  "min_expiry e t = Some (case e of None \<Rightarrow> t | Some x \<Rightarrow> min x t)"

definition cache_sweep :: "rat \<Rightarrow> ('k, 'v) cache \<Rightarrow> ('k, 'v) cache" where
  "cache_sweep now c =
     (if (case rc_next_expiry c of None \<Rightarrow> False | Some e \<Rightarrow> now \<ge> e) then
        (let live = filter (\<lambda>(k, e, v, s). \<not> e \<le> now) (rc_entries c);
             dead = filter (\<lambda>(k, e, v, s). e \<le> now) (rc_entries c) in
         c \<lparr>rc_entries := live, rc_bytes_used := rc_bytes_used c - sum_list (map (\<lambda>(k, e, v, s). s) dead),
            rc_next_expiry := foldl (\<lambda>m (k, e, v, s). min_expiry m e) None live\<rparr>)
      else c)"

fun cache_evict :: "int \<Rightarrow> int \<Rightarrow> int \<Rightarrow> ('k \<times> (rat \<times> 'v \<times> int)) list \<Rightarrow> int \<Rightarrow> nat
    \<Rightarrow> ('k \<times> (rat \<times> 'v \<times> int)) list \<times> int \<times> nat" where
  "cache_evict max_entries max_bytes sz [] bytes_used evictions = ([], bytes_used, evictions)"
| "cache_evict max_entries max_bytes sz ((k, e, v, s) # es) bytes_used evictions =
     (if int (length ((k, e, v, s) # es)) \<ge> max_entries \<or> bytes_used + sz > max_bytes
      then cache_evict max_entries max_bytes sz es (bytes_used - s) (evictions + 1)
      else ((k, e, v, s) # es, bytes_used, evictions))"

definition cache_store :: "rat \<Rightarrow> 'k \<Rightarrow> 'v \<Rightarrow> int \<Rightarrow> ('k, 'v) cache \<Rightarrow> ('k, 'v) cache" where
  "cache_store now key value sz c =
     (let c1 = cache_sweep now c;
          (es, used, evs) = cache_evict (rc_max_entries c1) (rc_max_bytes c1) sz (rc_entries c1) (rc_bytes_used c1) (rc_evictions c1) in
      c1 \<lparr>rc_entries := dset es key (now + rc_ttl c1, value, sz), rc_evictions := evs,
          rc_next_expiry := min_expiry (rc_next_expiry c1) (now + rc_ttl c1), rc_bytes_used := used + sz\<rparr>)"

text \<open>The owner's second critical section; \<open>weight\<close> is what \<open>weigh\<close> gave, which may be negative.\<close>

definition cache_publish :: "rat \<Rightarrow> 'k \<Rightarrow> nat \<Rightarrow> 'v \<Rightarrow> int \<Rightarrow> ('k, 'v) cache \<Rightarrow> ('k, 'v) cache" where
  "cache_publish now key flight value weight c =
     (let sz = max 0 weight;
          c1 = (if map_of (rc_flights c) key = Some flight then
                  (let c0 = (if rc_max_entries c \<noteq> 0 \<and> rc_ttl c \<noteq> 0 \<and> sz \<le> rc_max_bytes c
                             then cache_store now key value sz c else c) in
                   c0 \<lparr>rc_flights := dpop (rc_flights c0) key\<rparr>)
                else c) in
      c1 \<lparr>rc_results := dset (rc_results c1) flight (Inr value)\<rparr>)"

definition cache_fail :: "'k \<Rightarrow> nat \<Rightarrow> exn \<Rightarrow> ('k, 'v) cache \<Rightarrow> ('k, 'v) cache" where
  "cache_fail key flight error c =
     (let c1 = (if map_of (rc_flights c) key = Some flight then c \<lparr>rc_flights := dpop (rc_flights c) key\<rparr> else c) in
      c1 \<lparr>rc_results := dset (rc_results c1) flight (Inl error)\<rparr>)"

text \<open>A waiter returns when its flight is ready: its value, or its owner's exception raised again.\<close>

definition cache_wait :: "nat \<Rightarrow> ('k, 'v) cache \<Rightarrow> 'v result option" where
  "cache_wait flight c = map_of (rc_results c) flight"

text \<open>Interleavings: the cache with the owners that are loading.\<close>

type_synonym ('k, 'v) cache_state = "('k, 'v) cache \<times> ('k \<times> nat) list"

inductive cache_step :: "('k, 'v) cache_state \<Rightarrow> ('k, 'v) cache_state \<Rightarrow> bool" where
  load: "cache_lookup now key c = (Owner f, c') \<Longrightarrow> cache_step (c, owners) (c', (key, f) # owners)"
| found: "cache_lookup now key c = (r, c') \<Longrightarrow> (\<And>f. r \<noteq> Owner f) \<Longrightarrow> cache_step (c, owners) (c', owners)"
| publish: "(key, f) \<in> set owners \<Longrightarrow>
    cache_step (c, owners) (cache_publish now key f value weight c, remove1 (key, f) owners)"
| fail: "(key, f) \<in> set owners \<Longrightarrow> cache_step (c, owners) (cache_fail key f error c, remove1 (key, f) owners)"
| peek: "cache_step (c, owners) (snd (cache_peek now key c), owners)"
| clear: "cache_step (c, owners) (cache_clear c, owners)"
| invalidate: "cache_step (c, owners) (cache_invalidate key c, owners)"

inductive cache_reach :: "int \<Rightarrow> int \<Rightarrow> rat \<Rightarrow> ('k, 'v) cache_state \<Rightarrow> bool" for max_entries max_bytes ttl where
  start: "cache_init max_entries max_bytes ttl = Inr c \<Longrightarrow> cache_reach max_entries max_bytes ttl (c, [])"
| step: "cache_reach max_entries max_bytes ttl s \<Longrightarrow> cache_step s s' \<Longrightarrow> cache_reach max_entries max_bytes ttl s'"


section \<open>Retries are bounded and never repeat an ambiguous write\<close>

lemma retry_after_bounds:
  assumes "0 \<le> jitter"
  shows "0 < retry_after_seconds delay_of jitter value attempt \<and> retry_after_seconds delay_of jitter value attempt \<le> MAX_WAIT_SECONDS"
proof -
  have "0 < (2 :: rat) ^ (attempt - 1) * (1 + jitter * (1 / 4))"
    using assms by (intro mult_pos_pos) (auto intro: add_pos_nonneg)
  then show ?thesis
    by (auto simp: retry_after_seconds_def Let_def MAX_WAIT_SECONDS_def split: option.splits delay.splits)
qed

definition log_ok :: "(nat \<Rightarrow> failure + 'a) \<Rightarrow> bool \<Rightarrow> nat \<Rightarrow> 'a attempt_log \<Rightarrow> bool" where
  "log_ok fn idempotent attempts r \<longleftrightarrow>
     1 \<le> al_calls r \<and> al_calls r \<le> attempts \<and> length (al_waits r) = al_calls r - 1
     \<and> (\<forall>w \<in> set (al_waits r). 0 < w \<and> w \<le> MAX_WAIT_SECONDS)
     \<and> (\<forall>k. 1 \<le> k \<and> k < al_calls r \<longrightarrow> (\<exists>e. fn k = Inl e \<and> fst (is_retryable e idempotent)))
     \<and> (case fn (al_calls r) of
          Inr v \<Rightarrow> al_result r = Some v \<and> al_error r = None
        | Inl e \<Rightarrow> al_result r = None \<and> al_error r = Some e
            \<and> (fst (is_retryable e idempotent) \<longrightarrow> al_calls r = attempts))"

lemma retry_loop_ok:
  assumes "1 \<le> attempt" "attempt \<le> attempts" "\<And>k. 0 \<le> jit k"
    and "length waits = attempt - 1" "\<forall>w \<in> set waits. 0 < w \<and> w \<le> MAX_WAIT_SECONDS"
    and "\<forall>k. 1 \<le> k \<and> k < attempt \<longrightarrow> (\<exists>e. fn k = Inl e \<and> fst (is_retryable e idempotent))"
  shows "log_ok fn idempotent attempts (retry_loop fn delay_of jit idempotent attempts attempt waits)"
  using assms
proof (induction fn delay_of jit idempotent attempts attempt waits rule: retry_loop.induct)
  case (1 fn delay_of jit idempotent attempts attempt waits)
  show ?case
  proof (cases "fn attempt")
    case (Inr v)
    with 1(2-) show ?thesis by (subst retry_loop.simps) (simp add: log_ok_def)
  next
    case (Inl e)
    obtain retry hint where r: "is_retryable e idempotent = (retry, hint)" by fastforce
    show ?thesis
    proof (cases "\<not> retry \<or> attempt \<ge> attempts")
      case True
      with Inl r 1(2-) show ?thesis by (subst retry_loop.simps) (auto simp: log_ok_def)
    next
      case False
      let ?waits = "waits @ [retry_after_seconds delay_of (jit attempt) hint attempt]"
      have "\<forall>w \<in> set ?waits. 0 < w \<and> w \<le> MAX_WAIT_SECONDS"
        using 1(6) retry_after_bounds [OF 1(4)] by auto
      moreover have "\<forall>k. 1 \<le> k \<and> k < attempt + 1 \<longrightarrow> (\<exists>e. fn k = Inl e \<and> fst (is_retryable e idempotent))"
        using 1(7) Inl r False by (auto simp: less_Suc_eq)
      ultimately have "log_ok fn idempotent attempts (retry_loop fn delay_of jit idempotent attempts (attempt + 1) ?waits)"
        using 1(1) [OF Inl, of "(retry, hint)" retry hint] 1(2-5) r False by simp
      with Inl r False show ?thesis by (subst retry_loop.simps) simp
    qed
  qed
qed

text \<open>
  C14: A guarded call runs at least once and at most the configured number of times, waits once
  between two calls and never longer than the cap, and returns the outcome of its last call. It is
  repeated only after failures classified as retryable: a call that is not idempotent is made again
  only after a refusal that proves it was not carried out (status 429, connection refused, name
  resolution failure).
\<close>

theorem call_with_retries_bounded:
  assumes "\<And>k. 0 \<le> jit k"
  shows "log_ok fn idempotent (nat (max 1 max_retries)) (call_with_retries fn delay_of jit max_retries idempotent)
    \<and> (\<forall>k e. \<not> idempotent \<and> 1 \<le> k \<and> k < al_calls (call_with_retries fn delay_of jit max_retries idempotent) \<and> fn k = Inl e
        \<longrightarrow> (\<exists>h. e = HTTPError 429 h) \<or> (\<exists>r. e \<in> {URLError r, TransportError r} \<and> r \<in> {ConnectionRefused, NameResolution}))"
proof -
  let ?r = "call_with_retries fn delay_of jit max_retries idempotent"
  have ok: "log_ok fn idempotent (nat (max 1 max_retries)) ?r"
    unfolding call_with_retries_def by (rule retry_loop_ok) (auto simp: assms)
  moreover have "(\<exists>h. e = HTTPError 429 h) \<or> (\<exists>r. e \<in> {URLError r, TransportError r} \<and> r \<in> {ConnectionRefused, NameResolution})"
    if "\<not> idempotent" "1 \<le> k" "k < al_calls ?r" "fn k = Inl e" for k e
  proof -
    have "fst (is_retryable e idempotent)" using ok that unfolding log_ok_def by (metis Inl_inject)
    with that(1) show ?thesis by (auto simp: is_retryable_def split: failure.splits if_splits)
  qed
  ultimately show ?thesis by blast
qed

theorem call_with_retries_bounded_witness:
  "log_ok (\<lambda>k. if k = 1 then Inl (HTTPError 429 None) else Inr True) False 4
     (call_with_retries (\<lambda>k. if k = 1 then Inl (HTTPError 429 None) else Inr True) (\<lambda>_. NotANumber) (\<lambda>_. 0) 4 False)"
  using call_with_retries_bounded [of "\<lambda>_. 0" "\<lambda>k. if k = 1 then Inl (HTTPError 429 None) else Inr True" False 4 "\<lambda>_. NotANumber"]
  by simp

section \<open>The circuit breaker refines a three-state machine\<close>

inductive_cases circuit_stepE: "circuit_step (cb, tks) c'"

definition current_probes :: "breaker \<Rightarrow> ticket list \<Rightarrow> ticket list" where
  "current_probes cb tks = filter (\<lambda>tk. tk_probe tk \<and> tk_generation tk = cb_generation cb) tks"

definition circuit_ok :: "circuit \<Rightarrow> bool" where
  "circuit_ok c \<longleftrightarrow> (case c of (cb, tks) \<Rightarrow>
     1 \<le> cb_threshold cb \<and> 0 < cb_recovery cb \<and> 0 \<le> cb_failures cb
     \<and> (\<forall>tk \<in> set tks. tk_generation tk \<le> cb_generation cb
          \<and> (tk_generation tk = cb_generation cb \<longrightarrow> (tk_probe tk \<longleftrightarrow> cb_opened cb \<noteq> None)))
     \<and> length (current_probes cb tks) = of_bool (cb_probe cb)
     \<and> (cb_opened cb = None \<longrightarrow> cb_failures cb < cb_threshold cb \<and> \<not> cb_probe cb))"

lemma current_probes_new: "current_probes cb' tks = []"
  if "\<forall>tk \<in> set tks. tk_generation tk \<le> cb_generation cb" "cb_generation cb' = Suc (cb_generation cb)"
  using that by (auto simp: current_probes_def filter_empty_conv)

lemma current_probes_remove1:
  assumes "tk \<in> set tks"
  shows "length (current_probes cb (remove1 tk tks))
    = length (current_probes cb tks) - of_bool (tk_probe tk \<and> tk_generation tk = cb_generation cb)"
  using assms by (simp add: current_probes_def filter_remove1 length_remove1)

lemma current_probes_cong: "cb_generation cb' = cb_generation cb \<Longrightarrow> current_probes cb' tks = current_probes cb tks"
  by (simp add: current_probes_def)

lemma exit_ok:
  assumes "circuit_ok (cb, tks)" "tk \<in> set tks"
  shows "circuit_ok (breaker_exit now tk result cb, remove1 tk tks)"
proof (cases "tk_generation tk = cb_generation cb")
  case False
  with assms show ?thesis
    by (auto simp: circuit_ok_def breaker_exit_def current_probes_remove1 dest: notin_set_remove1 set_remove1_subset [THEN subsetD])
next
  case True
  have gens: "\<forall>t \<in> set (remove1 tk tks). tk_generation t \<le> cb_generation cb
      \<and> (tk_generation t = cb_generation cb \<longrightarrow> (tk_probe t \<longleftrightarrow> cb_opened cb \<noteq> None))"
    using assms set_remove1_subset [of tk tks] by (auto simp: circuit_ok_def)
  have opened: "tk_probe tk \<longleftrightarrow> cb_opened cb \<noteq> None" using assms True by (auto simp: circuit_ok_def)
  have basic: "1 \<le> cb_threshold cb" "0 < cb_recovery cb" "0 \<le> cb_failures cb"
    and closed: "cb_opened cb = None \<Longrightarrow> cb_failures cb < cb_threshold cb \<and> \<not> cb_probe cb"
    and count: "length (current_probes cb tks) = of_bool (cb_probe cb)"
    using assms(1) by (auto simp: circuit_ok_def)
  have "current_probes cb (remove1 tk tks) = []"
    using count current_probes_remove1 [OF assms(2), of cb] True opened closed
    by (cases "tk_probe tk"; cases "cb_probe cb") auto
  then have none: "current_probes cb' (remove1 tk tks) = []"
    if "cb_generation cb' \<in> {cb_generation cb, Suc (cb_generation cb)}" for cb' :: breaker
    using that current_probes_new [of "remove1 tk tks" cb cb'] gens current_probes_cong [of cb' cb] by auto
  have less: "tk_generation t \<noteq> Suc (cb_generation cb)" "tk_generation t \<le> Suc (cb_generation cb)"
    if "t \<in> set (remove1 tk tks)" for t using gens that by force+
  have flag: "\<not> cb_probe cb" if "\<not> tk_probe tk" using that opened closed by simp
  show ?thesis
    unfolding circuit_ok_def prod.case
    using True gens opened basic closed none less flag
    by (cases result; cases "tk_probe tk") (simp_all add: breaker_exit_def Let_def)
qed

lemma enter_ok:
  assumes "circuit_ok (cb, tks)"
  shows "breaker_enter now cb = (CircuitOpenError r, cb') \<Longrightarrow> cb' = cb"
    "breaker_enter now cb = (Admitted tk, cb') \<Longrightarrow> circuit_ok (cb', tk # tks)"
  using assms by (auto simp: breaker_enter_def circuit_ok_def current_probes_def Let_def split: option.splits if_splits)

lemma circuit_reach_ok: "circuit_reach threshold recovery c \<Longrightarrow> circuit_ok c"
proof (induction rule: circuit_reach.induct)
  case (start cb)
  then show ?case by (auto simp: breaker_init_def circuit_ok_def current_probes_def guard_r_Inr)
next
  case (step c c')
  from step(2,3) show ?case
    by (cases rule: circuit_step.cases) (auto dest: enter_ok intro: exit_ok)
qed


datatype circuit_view = Closed int | Open rat | HalfOpen rat

definition circuit_view :: "circuit \<Rightarrow> circuit_view" where
  "circuit_view c = (case c of (cb, tks) \<Rightarrow>
     case cb_opened cb of
       None \<Rightarrow> Closed (cb_failures cb)
     | Some t \<Rightarrow> if cb_probe cb then HalfOpen t else Open t)"

text \<open>The contract: consecutive failures trip the circuit, one probe after the cooldown decides.\<close>

inductive view_step :: "int \<Rightarrow> rat \<Rightarrow> circuit_view \<Rightarrow> circuit_view \<Rightarrow> bool" for threshold recovery where
  same: "view_step threshold recovery v v"
| reset: "view_step threshold recovery (Closed n) (Closed 0)"
| fail: "n + 1 < threshold \<Longrightarrow> view_step threshold recovery (Closed n) (Closed (n + 1))"
| trip: "n + 1 \<ge> threshold \<Longrightarrow> view_step threshold recovery (Closed n) (Open now)"
| probe: "now \<ge> t + recovery \<Longrightarrow> view_step threshold recovery (Open t) (HalfOpen t)"
| release: "view_step threshold recovery (HalfOpen t) (Open t)"
| reopen: "view_step threshold recovery (HalfOpen t) (Open now)"
| recover: "view_step threshold recovery (HalfOpen t) (Closed 0)"

lemma exit_view:
  assumes "circuit_ok (cb, tks)" "tk \<in> set tks"
  shows "view_step (cb_threshold cb) (cb_recovery cb) (circuit_view (cb, tks)) (circuit_view (breaker_exit now tk result cb, tks'))"
proof (cases "tk_generation tk = cb_generation cb")
  case False
  then show ?thesis by (auto simp: breaker_exit_def circuit_view_def intro: view_step.same)
next
  case True
  show ?thesis
  proof (cases "tk_probe tk")
    case p: True
    then have "tk \<in> set (current_probes cb tks)" using assms(2) True by (simp add: current_probes_def)
    then have "cb_probe cb" using assms(1) by (cases "cb_probe cb") (auto simp: circuit_ok_def)
    moreover obtain t where "cb_opened cb = Some t" using assms True p by (auto simp: circuit_ok_def)
    ultimately show ?thesis using True p
      by (cases result) (auto simp: breaker_exit_def circuit_view_def Let_def intro: view_step.intros)
  next
    case p: False
    then have "cb_opened cb = None" "\<not> cb_probe cb" using assms True by (auto simp: circuit_ok_def)
    with True p show ?thesis
      by (cases result) (auto simp: breaker_exit_def circuit_view_def Let_def not_le intro: view_step.intros)
  qed
qed

lemma enter_view:
  assumes "breaker_enter now cb = (a, cb')"
  shows "view_step (cb_threshold cb) (cb_recovery cb) (circuit_view (cb, tks)) (circuit_view (cb', tks'))"
  using assms by (auto simp: breaker_enter_def circuit_view_def Let_def split: option.splits if_splits
      intro!: view_step.same view_step.probe [of _ _ now])

lemma settings_kept:
  "circuit_reach threshold recovery c \<Longrightarrow> cb_threshold (fst c) = threshold \<and> cb_recovery (fst c) = recovery"
proof (induction rule: circuit_reach.induct)
  case (step c c')
  from step(2,3) show ?case
    by (cases rule: circuit_step.cases)
      (auto simp: breaker_enter_def breaker_exit_def Let_def split: option.splits if_splits outcome.splits)
qed (auto simp: breaker_init_def guard_r_Inr)


lemma circuit_start: "circuit_reach 1 1 (\<lparr>cb_threshold = 1, cb_recovery = 1, cb_failures = 0, cb_generation = 0,
    cb_opened = None, cb_probe = False\<rparr>, [])"
  by (rule circuit_reach.start) (simp add: breaker_init_def)





section \<open>The cache keeps within its budget\<close>

definition weight_of :: "('k \<times> (rat \<times> 'v \<times> int)) list \<Rightarrow> int" where
  "weight_of es = sum_list (map (\<lambda>(k, e, v, s). s) es)"

text \<open>Part of the invariant that concerns the entries: the keys differ, the counters are exact.\<close>

definition entries_ok :: "rat option \<Rightarrow> int \<Rightarrow> ('k \<times> (rat \<times> 'v \<times> int)) list \<Rightarrow> bool" where
  "entries_ok next used es \<longleftrightarrow> distinct (map fst es) \<and> used = weight_of es
     \<and> (\<forall>(k, e, v, s) \<in> set es. 0 \<le> s \<and> (\<exists>n. next = Some n \<and> n \<le> e))"

definition store_ok :: "('k, 'v) cache \<Rightarrow> bool" where
  "store_ok c \<longleftrightarrow> entries_ok (rc_next_expiry c) (rc_bytes_used c) (rc_entries c)
     \<and> 0 \<le> rc_max_entries c \<and> 0 \<le> rc_max_bytes c
     \<and> int (length (rc_entries c)) \<le> rc_max_entries c \<and> rc_bytes_used c \<le> rc_max_bytes c"

text \<open>Part that concerns the flights: each registered one has an owner that is still loading.\<close>

definition flights_ok :: "('k, 'v) cache \<Rightarrow> ('k \<times> nat) list \<Rightarrow> bool" where
  "flights_ok c owners \<longleftrightarrow> distinct (map fst (rc_flights c)) \<and> distinct (map snd owners)
     \<and> set (rc_flights c) \<subseteq> set owners
     \<and> (\<forall>k \<in> fst ` set (rc_flights c). k \<notin> fst ` set (rc_entries c))
     \<and> (\<forall>f \<in> snd ` set owners. f < rc_fresh c \<and> map_of (rc_results c) f = None)
     \<and> (\<forall>f. rc_fresh c \<le> f \<longrightarrow> map_of (rc_results c) f = None)"

lemma dset_fresh: "k \<notin> fst ` set d \<Longrightarrow> dset d k v = d @ [(k, v)]"
  by (induction d k v rule: dset.induct) auto

lemma set_dpop: "set (dpop d k) = {p \<in> set d. fst p \<noteq> k}"
  by (auto simp: dpop_def)

lemma weight_of_simps [simp]:
  "weight_of [] = 0" "weight_of ((k, e, v, s) # es) = s + weight_of es" "weight_of (es @ fs) = weight_of es + weight_of fs"
  by (simp_all add: weight_of_def)

lemma dpop_absent: "k \<notin> fst ` set d \<Longrightarrow> dpop d k = d"
  by (induction d) (auto simp: dpop_def)

lemma weight_dpop:
  "distinct (map fst es) \<Longrightarrow> map_of es key = Some (e, v, s) \<Longrightarrow> weight_of (dpop es key) = weight_of es - s"
proof (induction es)
  case (Cons a es)
  obtain k e' v' s' where a: "a = (k, e', v', s')" by (cases a) auto
  show ?case
  proof (cases "k = key")
    case True
    with Cons.prems a have "dpop (a # es) key = dpop es key" "key \<notin> fst ` set es" "s' = s" by (auto simp: dpop_def)
    then show ?thesis by (simp add: a dpop_absent)
  next
    case False
    with Cons a show ?thesis by (auto simp: dpop_def)
  qed
qed simp

lemma length_dpop_le: "length (dpop d k) \<le> length d"
  by (simp add: dpop_def)

lemma weight_filter: "weight_of (filter P es) = weight_of es - weight_of (filter (\<lambda>x. \<not> P x) es)"
  by (induction es) auto

lemma weight_nonneg: "\<forall>(k, e, v, s) \<in> set es. 0 \<le> s \<Longrightarrow> 0 \<le> weight_of es"
  by (induction es) auto

lemma map_of_size: "entries_ok nx used es \<Longrightarrow> map_of es key = Some (e, v, s) \<Longrightarrow> 0 \<le> s"
  by (auto simp: entries_ok_def dest!: map_of_SomeD)

lemma drop_ok:
  assumes "store_ok c"
  shows "store_ok (cache_drop key c)" "key \<notin> fst ` set (rc_entries (cache_drop key c))"
    "set (rc_entries (cache_drop key c)) \<subseteq> set (rc_entries c)"
    "rc_flights (cache_drop key c) = rc_flights c" "rc_fresh (cache_drop key c) = rc_fresh c"
    "rc_results (cache_drop key c) = rc_results c"
proof -
  show "store_ok (cache_drop key c)"
  proof (cases "map_of (rc_entries c) key")
    case (Some x)
    obtain e v s where x: "x = (e, v, s)" by (cases x) auto
    have "0 \<le> s" using assms Some x by (auto simp: store_ok_def intro: map_of_size)
    with assms Some x show ?thesis
      using length_dpop_le [of "rc_entries c" key]
      by (auto simp: store_ok_def entries_ok_def cache_drop_def weight_dpop distinct_dpop set_dpop)
  qed (use assms in \<open>simp add: cache_drop_def\<close>)
  show "key \<notin> fst ` set (rc_entries (cache_drop key c))"
    by (auto simp: cache_drop_def set_dpop map_of_eq_None_iff split: option.splits)
qed (auto simp: cache_drop_def set_dpop split: option.splits)

lemma move_ok:
  assumes "entries_ok nx used es"
  shows "entries_ok nx used (move_to_end key es)" "length (move_to_end key es) = length es"
    "set (move_to_end key es) = set es"
proof -
  show st: "set (move_to_end key es) = set es"
  proof (cases "map_of es key")
    case (Some x)
    have "\<And>y. (key, y) \<in> set es \<Longrightarrow> y = x" using assms Some by (metis entries_ok_def map_of_is_SomeI option.inject)
    with Some show ?thesis by (auto simp: move_to_end_def set_dpop dest: map_of_SomeD)
  qed (simp add: move_to_end_def)
  have d: "distinct (map fst es)" using assms by (simp add: entries_ok_def)
  have dm: "distinct (map fst (move_to_end key es))"
    using d by (auto simp: move_to_end_def distinct_dpop set_dpop split: option.splits)
  then show "length (move_to_end key es) = length es"
    using d st by (metis distinct_card distinct_map)
  have "weight_of (move_to_end key es) = weight_of es"
    using d by (cases "map_of es key") (auto simp: move_to_end_def weight_dpop)
  with dm st assms show "entries_ok nx used (move_to_end key es)" by (simp add: entries_ok_def)
qed

lemma foldl_min_expiry:
  "(\<exists>n. foldl (\<lambda>m (k, e, v, s). min_expiry m e) m es = Some n
      \<and> (\<forall>(k, e, v, s) \<in> set es. n \<le> e) \<and> (\<forall>x. m = Some x \<longrightarrow> n \<le> x))
   \<or> (es = [] \<and> m = None)"
proof (induction es arbitrary: m)
  case Nil
  then show ?case by (cases m) auto
next
  case (Cons a es)
  obtain k e v s where a: "a = (k, e, v, s)" by (cases a) auto
  from Cons [of "min_expiry m e"] show ?case by (fastforce simp: a min_expiry_def split: option.splits)
qed

lemma sweep_ok:
  assumes "store_ok c"
  shows "store_ok (cache_sweep now c)" "set (rc_entries (cache_sweep now c)) \<subseteq> set (rc_entries c)"
proof -
  let ?live = "filter (\<lambda>(k, e, v, s). \<not> e \<le> now) (rc_entries c)"
  let ?dead = "filter (\<lambda>(k, e, v, s). e \<le> now) (rc_entries c)"
  have dead: "?dead = filter (\<lambda>x. \<not> (case x of (k, e, v, s) \<Rightarrow> \<not> e \<le> now)) (rc_entries c)"
    by (rule filter_cong) auto
  have w: "weight_of ?live = weight_of (rc_entries c) - weight_of ?dead" unfolding dead by (rule weight_filter)
  have pos: "0 \<le> weight_of ?dead" using assms by (intro weight_nonneg) (auto simp: store_ok_def entries_ok_def)
  let ?next = "foldl (\<lambda>m (k, e, v, s). min_expiry m e) None ?live"
  have "\<exists>n. ?next = Some n \<and> n \<le> e" if "(k, e, v, s) \<in> set ?live" for k e v s
    using foldl_min_expiry [of None ?live] that by fastforce
  moreover have "0 \<le> s" if "(k, e, v, s) \<in> set ?live" for k e v s
    using assms that by (auto simp: store_ok_def entries_ok_def)
  moreover have "distinct (map fst ?live)" using assms by (simp add: store_ok_def entries_ok_def distinct_map_filter)
  ultimately have live: "entries_ok ?next (weight_of ?live) ?live" unfolding entries_ok_def by fast
  have "int (length ?live) \<le> rc_max_entries c"
    using assms length_filter_le [of "\<lambda>(k, e, v, s). \<not> e \<le> now" "rc_entries c"] unfolding store_ok_def by linarith
  moreover have "rc_bytes_used c - weight_of ?dead = weight_of ?live" "weight_of ?live \<le> rc_max_bytes c"
    using assms w pos by (auto simp: store_ok_def entries_ok_def)
  ultimately show "store_ok (cache_sweep now c)"
    using assms live by (simp add: store_ok_def cache_sweep_def Let_def weight_of_def [symmetric])
qed (auto simp: cache_sweep_def Let_def)


lemma entries_ok_tl: "entries_ok nx used ((k, e, v, s) # es) \<Longrightarrow> entries_ok nx (used - s) es"
  by (auto simp: entries_ok_def)

lemma evict_ok:
  assumes "entries_ok nx used es" "1 \<le> max_entries" "sz \<le> max_bytes"
    and "cache_evict max_entries max_bytes sz es used evictions = (es', used', evictions')"
  shows "entries_ok nx used' es' \<and> set es' \<subseteq> set es \<and> int (length es') < max_entries \<and> used' + sz \<le> max_bytes"
  using assms
proof (induction max_entries max_bytes sz es used evictions rule: cache_evict.induct)
  case (1 max_entries max_bytes sz bytes_used evictions)
  then show ?case by (auto simp: entries_ok_def)
next
  case (2 max_entries max_bytes sz k e v s es used evictions)
  show ?case
  proof (cases "int (length ((k, e, v, s) # es)) \<ge> max_entries \<or> used + sz > max_bytes")
    case True
    with 2(5) have "cache_evict max_entries max_bytes sz es (used - s) (evictions + 1) = (es', used', evictions')"
      by (simp only: cache_evict.simps if_True)
    from 2(1) [OF True entries_ok_tl [OF 2(2)] 2(3,4) this] show ?thesis by auto
  next
    case False
    with 2(5) have "es' = (k, e, v, s) # es" "used' = used" by auto
    with False 2(2) show ?thesis by simp
  qed
qed

lemma store_flights:
  "rc_flights (cache_store now key value sz c) = rc_flights c" "rc_fresh (cache_store now key value sz c) = rc_fresh c"
  "rc_results (cache_store now key value sz c) = rc_results c"
  by (simp_all add: cache_store_def cache_sweep_def Let_def case_prod_beta)

lemma store_store_ok:
  assumes "store_ok c" "key \<notin> fst ` set (rc_entries c)" "rc_max_entries c \<noteq> 0" "0 \<le> sz" "sz \<le> rc_max_bytes c"
  shows "store_ok (cache_store now key value sz c)"
    "fst ` set (rc_entries (cache_store now key value sz c)) \<subseteq> insert key (fst ` set (rc_entries c))"
proof -
  let ?c = "cache_sweep now c"
  obtain es used evs where ev: "cache_evict (rc_max_entries ?c) (rc_max_bytes ?c) sz (rc_entries ?c) (rc_bytes_used ?c) (rc_evictions ?c)
      = (es, used, evs)" by (cases "cache_evict (rc_max_entries ?c) (rc_max_bytes ?c) sz (rc_entries ?c) (rc_bytes_used ?c) (rc_evictions ?c)") auto
  note sw = sweep_ok [OF assms(1), of now]
  have lim: "rc_max_entries ?c = rc_max_entries c" "rc_max_bytes ?c = rc_max_bytes c"
    by (simp_all add: cache_sweep_def Let_def)
  have ok: "entries_ok (rc_next_expiry ?c) (rc_bytes_used ?c) (rc_entries ?c)" using sw(1) by (simp add: store_ok_def)
  have "1 \<le> rc_max_entries ?c" "sz \<le> rc_max_bytes ?c" using assms lim by (auto simp: store_ok_def)
  from evict_ok [OF ok this ev] have evo: "entries_ok (rc_next_expiry ?c) used es" "set es \<subseteq> set (rc_entries ?c)"
    "int (length es) < rc_max_entries ?c" "used + sz \<le> rc_max_bytes ?c" by auto
  have fresh: "key \<notin> fst ` set es" using evo(2) sw(2) assms(2) by auto
  have new: "rc_entries (cache_store now key value sz c) = es @ [(key, now + rc_ttl ?c, value, sz)]"
    "rc_bytes_used (cache_store now key value sz c) = used + sz"
    "rc_next_expiry (cache_store now key value sz c) = min_expiry (rc_next_expiry ?c) (now + rc_ttl ?c)"
    "rc_max_entries (cache_store now key value sz c) = rc_max_entries c"
    "rc_max_bytes (cache_store now key value sz c) = rc_max_bytes c"
    using ev fresh lim by (simp_all add: cache_store_def dset_fresh Let_def)
  have "entries_ok (min_expiry (rc_next_expiry ?c) (now + rc_ttl ?c)) (used + sz) (es @ [(key, now + rc_ttl ?c, value, sz)])"
    using evo(1) fresh assms(4) by (fastforce simp: entries_ok_def min_expiry_def split: option.splits)
  then show "store_ok (cache_store now key value sz c)"
    using evo(3,4) assms(1) lim by (simp add: store_ok_def new)
  show "fst ` set (rc_entries (cache_store now key value sz c)) \<subseteq> insert key (fst ` set (rc_entries c))"
    using evo(2) sw(2) by (auto simp: new)
qed

definition cache_ok :: "('k, 'v) cache_state \<Rightarrow> bool" where
  "cache_ok s \<longleftrightarrow> store_ok (fst s) \<and> flights_ok (fst s) (snd s)"

lemma flights_okD:
  assumes "flights_ok c owners"
  shows "distinct (map fst (rc_flights c))" "\<And>k. k \<in> fst ` set (rc_flights c) \<Longrightarrow> k \<notin> fst ` set (rc_entries c)"
    "set (rc_flights c) \<subseteq> set owners"
  using assms unfolding flights_ok_def by blast+

lemma finish_flights:
  assumes "flights_ok c owners" "(key, f) \<in> set owners" "distinct (map fst (rc_flights c'))"
    and "set (rc_flights c') \<subseteq> set (rc_flights c) - {(key, f)}" "rc_fresh c' = rc_fresh c" "rc_results c' = dset (rc_results c) f r"
    and "\<And>k. k \<in> fst ` set (rc_flights c') \<Longrightarrow> k \<notin> fst ` set (rc_entries c')"
  shows "flights_ok c' (remove1 (key, f) owners)"
proof -
  have inj: "inj_on snd (set owners)" "distinct owners" using assms(1) by (auto simp: flights_ok_def distinct_map)
  have rest: "set (remove1 (key, f) owners) = set owners - {(key, f)}" using inj(2) by (rule set_remove1_eq)
  have snds: "snd ` set (remove1 (key, f) owners) = snd ` set owners - {f}"
    unfolding rest using inj(1) assms(2) by (subst inj_on_image_set_diff [of snd "set owners"]) auto
  have "f < rc_fresh c" using assms(1,2) by (force simp: flights_ok_def)
  then have free: "\<forall>g \<in> snd ` set owners - {f}. g < rc_fresh c' \<and> map_of (rc_results c') g = None"
    "\<forall>g. rc_fresh c' \<le> g \<longrightarrow> map_of (rc_results c') g = None"
    using assms(1,5,6) by (auto simp: flights_ok_def)
  have "distinct (map snd (remove1 (key, f) owners))"
    using inj by (auto simp: distinct_map rest intro: inj_on_diff)
  moreover have "set (rc_flights c') \<subseteq> set (remove1 (key, f) owners)"
    using assms(1,4) by (auto simp: flights_ok_def rest)
  ultimately show ?thesis unfolding flights_ok_def snds using assms(3,7) free by blast
qed

lemma set_dpop_flights: "distinct (map fst d) \<Longrightarrow> map_of d k = Some f \<Longrightarrow> set (dpop d k) = set d - {(k, f)}"
  by (auto simp: set_dpop dest: map_of_SomeD) (metis map_of_is_SomeI option.inject)

lemma publish_ok:
  assumes "cache_ok (c, owners)" "(key, f) \<in> set owners"
  shows "cache_ok (cache_publish now key f value weight c, remove1 (key, f) owners)"
proof -
  let ?sz = "max 0 weight"
  let ?c = "if map_of (rc_flights c) key = Some f then
      (let c0 = (if rc_max_entries c \<noteq> 0 \<and> rc_ttl c \<noteq> 0 \<and> ?sz \<le> rc_max_bytes c then cache_store now key value ?sz c else c) in
       c0 \<lparr>rc_flights := dpop (rc_flights c0) key\<rparr>) else c"
  have so: "store_ok c" and fo: "flights_ok c owners" using assms(1) by (auto simp: cache_ok_def)
  have pub: "cache_publish now key f value weight c = ?c \<lparr>rc_results := dset (rc_results ?c) f (Inr value)\<rparr>"
    by (simp add: cache_publish_def Let_def)
  show ?thesis
  proof (cases "map_of (rc_flights c) key = Some f")
    case False
    then have "(key, f) \<notin> set (rc_flights c)" using flights_okD(1) [OF fo] by (auto simp: map_of_is_SomeI)
    then have "flights_ok (c \<lparr>rc_results := dset (rc_results c) f (Inr value)\<rparr>) (remove1 (key, f) owners)"
      by (intro finish_flights [OF fo assms(2)]) (simp_all add: flights_okD [OF fo] subset_Diff_insert)
    moreover have "store_ok (c \<lparr>rc_results := dset (rc_results c) f (Inr value)\<rparr>)" using so by (simp add: store_ok_def)
    ultimately show ?thesis using False by (simp add: pub cache_ok_def)
  next
    case True
    define c0 where "c0 = (if rc_max_entries c \<noteq> 0 \<and> rc_ttl c \<noteq> 0 \<and> ?sz \<le> rc_max_bytes c then cache_store now key value ?sz c else c)"
    have "key \<in> fst ` set (rc_flights c)" using True by (metis domI dom_map_of_conv_image_fst)
    then have key: "key \<notin> fst ` set (rc_entries c)" by (rule flights_okD [OF fo])
    have so0: "store_ok c0" "fst ` set (rc_entries c0) \<subseteq> insert key (fst ` set (rc_entries c))"
      using so store_store_ok [OF so key] by (auto simp: c0_def)
    have same: "rc_flights c0 = rc_flights c" "rc_fresh c0 = rc_fresh c" "rc_results c0 = rc_results c"
      by (simp_all add: c0_def store_flights)
    let ?c1 = "c0 \<lparr>rc_flights := dpop (rc_flights c0) key, rc_results := dset (rc_results c0) f (Inr value)\<rparr>"
    have fl: "set (dpop (rc_flights c) key) = set (rc_flights c) - {(key, f)}" "distinct (map fst (dpop (rc_flights c) key))"
      using flights_okD(1) [OF fo] True by (simp_all add: set_dpop_flights distinct_dpop)
    have "flights_ok ?c1 (remove1 (key, f) owners)"
    proof (rule finish_flights [OF fo assms(2)])
      fix k assume "k \<in> fst ` set (rc_flights ?c1)"
      then have "k \<in> fst ` set (rc_flights c)" "k \<noteq> key" by (auto simp: same set_dpop)
      then have "k \<notin> fst ` set (rc_entries c0)" using so0(2) flights_okD(2) [OF fo] by blast
      then show "k \<notin> fst ` set (rc_entries ?c1)" by simp
    qed (simp_all add: fl same)
    moreover have "store_ok ?c1" using so0(1) by (simp add: store_ok_def)
    moreover have "cache_publish now key f value weight c = ?c1"
      unfolding cache_publish_def Let_def c0_def [symmetric] True by simp
    ultimately show ?thesis by (simp add: cache_ok_def)
  qed
qed

lemma fail_ok:
  assumes "cache_ok (c, owners)" "(key, f) \<in> set owners"
  shows "cache_ok (cache_fail key f error c, remove1 (key, f) owners)"
proof -
  have so: "store_ok c" and fo: "flights_ok c owners" using assms(1) by (auto simp: cache_ok_def)
  have "flights_ok (cache_fail key f error c) (remove1 (key, f) owners)"
  proof (cases "map_of (rc_flights c) key = Some f")
    case True
    have "set (dpop (rc_flights c) key) = set (rc_flights c) - {(key, f)}" "distinct (map fst (dpop (rc_flights c) key))"
      using flights_okD(1) [OF fo] True by (simp_all add: set_dpop_flights distinct_dpop)
    with True show ?thesis
      by (intro finish_flights [OF fo assms(2)]) (auto simp: cache_fail_def dest: flights_okD(2) [OF fo, OF imageI])
  next
    case False
    then have "(key, f) \<notin> set (rc_flights c)" using flights_okD(1) [OF fo] by (auto simp: map_of_is_SomeI)
    with False show ?thesis
      by (intro finish_flights [OF fo assms(2)]) (simp_all add: flights_okD [OF fo] subset_Diff_insert cache_fail_def)
  qed
  with so show ?thesis by (simp add: cache_ok_def store_ok_def cache_fail_def Let_def)
qed

lemma shrink_ok:
  assumes "cache_ok (c, owners)" "store_ok c'" "set (rc_flights c') \<subseteq> set (rc_flights c)" "distinct (map fst (rc_flights c'))"
    and "fst ` set (rc_entries c') \<subseteq> fst ` set (rc_entries c)" "rc_fresh c' = rc_fresh c" "rc_results c' = rc_results c"
  shows "cache_ok (c', owners)"
proof -
  have fo: "flights_ok c owners" using assms(1) by (simp add: cache_ok_def)
  have "\<forall>k \<in> fst ` set (rc_flights c'). k \<notin> fst ` set (rc_entries c')"
    using flights_okD(2) [OF fo] subsetD [OF assms(5)] subsetD [OF image_mono [OF assms(3), of fst]] by metis
  moreover have "set (rc_flights c') \<subseteq> set owners" using assms(3) flights_okD(3) [OF fo] by (rule subset_trans)
  ultimately have "flights_ok c' owners"
    using fo assms(4) by (simp add: flights_ok_def assms(6,7))
  with assms(2) show ?thesis by (simp add: cache_ok_def)
qed

lemma own_ok:
  assumes "cache_ok (c, owners)" "map_of (rc_flights c) key = None" "key \<notin> fst ` set (rc_entries c)"
    and "c' = c \<lparr>rc_flights := dset (rc_flights c) key (rc_fresh c), rc_misses := m, rc_fresh := rc_fresh c + 1\<rparr>"
  shows "cache_ok (c', (key, rc_fresh c) # owners)"
proof -
  have key: "key \<notin> fst ` set (rc_flights c)" using assms(2) by (simp add: map_of_eq_None_iff)
  have fo: "flights_ok c owners" and so: "store_ok c" using assms(1) by (auto simp: cache_ok_def)
  have "rc_fresh c \<notin> snd ` set owners" using fo unfolding flights_ok_def by blast
  then have "flights_ok c' ((key, rc_fresh c) # owners)"
    using fo key assms(3) unfolding flights_ok_def assms(4) by (auto simp: dset_fresh less_Suc_eq)
  with so show ?thesis by (simp add: cache_ok_def store_ok_def assms(4))
qed

lemma lookup_ok:
  assumes "cache_ok (c, owners)" "cache_lookup now key c = (r, c')"
  shows "case r of Owner f \<Rightarrow> cache_ok (c', (key, f) # owners) | _ \<Rightarrow> cache_ok (c', owners)"
proof -
  have so: "store_ok c" and fo: "flights_ok c owners" using assms(1) by (auto simp: cache_ok_def)
  have df: "distinct (map fst (rc_flights c))" using fo by (simp add: flights_ok_def)
  have dropped: "cache_ok (cache_drop key c, owners)"
    using drop_ok [OF so, of key] df by (intro shrink_ok [OF assms(1)]) auto
  have moved: "cache_ok (c \<lparr>rc_entries := move_to_end key (rc_entries c), rc_hits := h\<rparr>, owners)" for h
    using move_ok [of "rc_next_expiry c" "rc_bytes_used c" "rc_entries c" key] so df
    by (intro shrink_ok [OF assms(1)]) (auto simp: store_ok_def)
  have coal: "cache_ok (d \<lparr>rc_coalesced := n\<rparr>, owners)" if "cache_ok (d, owners)" for d :: "('a, 'b) cache" and n
    using that by (simp add: cache_ok_def store_ok_def flights_ok_def)
  show ?thesis
  proof (cases "map_of (rc_entries c) key")
    case None
    then have "key \<notin> fst ` set (rc_entries c)" by (simp add: map_of_eq_None_iff)
    with None assms own_ok [OF assms(1)] coal [OF assms(1)] show ?thesis
      by (auto simp: cache_lookup_def split: option.splits)
  next
    case (Some x)
    obtain e v s where x: "x = (e, v, s)" by (cases x) auto
    show ?thesis
    proof (cases "now < e")
      case True
      with Some x assms(2) moved show ?thesis by (auto simp: cache_lookup_def)
    next
      case False
      with Some x assms(2) own_ok [OF dropped] coal [OF dropped] drop_ok(2) [OF so, of key] show ?thesis
        by (auto simp: cache_lookup_def Let_def split: option.splits)
    qed
  qed
qed

lemma peek_ok:
  assumes "cache_ok (c, owners)"
  shows "cache_ok (snd (cache_peek now key c), owners)"
proof -
  have so: "store_ok c" and fo: "flights_ok c owners" using assms by (auto simp: cache_ok_def)
  have df: "distinct (map fst (rc_flights c))" using fo by (simp add: flights_ok_def)
  have "cache_ok (cache_drop key c, owners)"
    using drop_ok [OF so, of key] df by (intro shrink_ok [OF assms]) auto
  moreover have "cache_ok (c \<lparr>rc_entries := move_to_end key (rc_entries c)\<rparr>, owners)"
    using move_ok [of "rc_next_expiry c" "rc_bytes_used c" "rc_entries c" key] so df
    by (intro shrink_ok [OF assms]) (auto simp: store_ok_def)
  ultimately show ?thesis using assms by (auto simp: cache_peek_def split: option.splits)
qed

lemma clear_ok: "cache_ok (c, owners) \<Longrightarrow> cache_ok (cache_clear c, owners)"
  by (rule shrink_ok) (auto simp: cache_ok_def store_ok_def entries_ok_def cache_clear_def)

lemma invalidate_ok:
  assumes "cache_ok (c, owners)"
  shows "cache_ok (cache_invalidate key c, owners)"
proof -
  have so: "store_ok c" and fo: "flights_ok c owners" using assms by (auto simp: cache_ok_def)
  note d = drop_ok [OF so, of key]
  have "store_ok (cache_invalidate key c)" using d(1) by (simp add: store_ok_def cache_invalidate_def Let_def)
  moreover have "set (rc_flights (cache_invalidate key c)) \<subseteq> set (rc_flights c)" "distinct (map fst (rc_flights (cache_invalidate key c)))"
    using fo by (auto simp: cache_invalidate_def Let_def d(4) set_dpop distinct_dpop flights_ok_def)
  ultimately show ?thesis using d by (intro shrink_ok [OF assms]) (auto simp: cache_invalidate_def Let_def)
qed

text \<open>
  C17: Whatever the interleaving of lookups, loads, failures and invalidations, the cache stays
  within its two budgets with exact byte accounting, no key is held twice, no key is both held and
  loading, and every registered flight has an owner that is still loading it, so no waiter is left
  without one.
\<close>

theorem cache_invariant:
  assumes "cache_reach max_entries max_bytes ttl (c, owners)"
  shows "int (length (rc_entries c)) \<le> rc_max_entries c \<and> rc_bytes_used c = weight_of (rc_entries c) \<and> rc_bytes_used c \<le> rc_max_bytes c
    \<and> distinct (map fst (rc_entries c)) \<and> set (rc_flights c) \<subseteq> set owners
    \<and> fst ` set (rc_flights c) \<inter> fst ` set (rc_entries c) = {}"
proof -
  have "cache_ok s" if "cache_reach max_entries max_bytes ttl s" for s :: "('a, 'b) cache_state"
    using that
  proof (induction rule: cache_reach.induct)
    case (start c)
    then show ?case by (auto simp: cache_init_def guard_r_Inr cache_ok_def store_ok_def entries_ok_def flights_ok_def)
  next
    case (step s s')
    from step(2,3) show ?case
    proof (cases rule: cache_step.cases)
      case (load now key c f c' owners)
      then show ?thesis using lookup_ok [of c owners now key "Owner f" c'] step(3) by simp
    next
      case (found now key c r c' owners)
      then show ?thesis using lookup_ok [of c owners now key r c'] step(3) by (cases r) auto
    qed (use step(3) in \<open>simp_all add: publish_ok fail_ok peek_ok clear_ok invalidate_ok\<close>)
  qed
  from this [OF assms] have "store_ok c" and fo: "flights_ok c owners" by (auto simp: cache_ok_def)
  moreover have "fst ` set (rc_flights c) \<inter> fst ` set (rc_entries c) = {}" using flights_okD(2) [OF fo] by blast
  ultimately show ?thesis using flights_okD(3) [OF fo] unfolding store_ok_def entries_ok_def by blast
qed

lemma cache_start: "cache_reach 1 10 1 (\<lparr>rc_max_entries = 1, rc_max_bytes = 10, rc_ttl = 1, rc_entries = [], rc_flights = [],
    rc_bytes_used = 0, rc_next_expiry = None, rc_hits = 0, rc_misses = 0, rc_coalesced = 0, rc_evictions = 0, rc_fresh = 0,
    rc_results = []\<rparr>, [])"
  by (rule cache_reach.start) (simp add: cache_init_def)

theorem cache_invariant_witness:
  "\<exists>c :: (nat, nat) cache. rc_bytes_used c = weight_of (rc_entries c) \<and> rc_flights c = [(7, 0)]"
proof -
  let ?c = "\<lparr>rc_max_entries = 1, rc_max_bytes = 10, rc_ttl = 1, rc_entries = [], rc_flights = [],
    rc_bytes_used = 0, rc_next_expiry = None, rc_hits = 0, rc_misses = 0, rc_coalesced = 0, rc_evictions = 0, rc_fresh = 0,
    rc_results = []\<rparr> :: (nat, nat) cache"
  let ?c' = "?c \<lparr>rc_flights := [(7, 0)], rc_misses := 1, rc_fresh := 1\<rparr>"
  have "cache_step (?c, []) (?c', [(7, 0)])"
    by (rule cache_step.load [of 0]) (simp add: cache_lookup_def)
  from cache_invariant [OF cache_reach.step [OF cache_start this]] show ?thesis
    by (intro exI [of _ ?c']) simp
qed



end
