(* ===== verification/Ontology.thy ===== *)
theory Ontology
  imports Capabilities
begin

text \<open>
  The declarative ontology of a store, \<^verbatim>\<open>unimem/ontology.py\<close>: entity types with parents, relations
  with domain, range, inverse and exclusivity, and aliases of entities. \<open>lower\<close> is \<^verbatim>\<open>str.lower\<close>, whose
  Unicode tables are the interpreter's; an \<^verbatim>\<open>OntologyError\<close> is a \<^verbatim>\<open>ValueError\<close>. Reading YAML, JSON and
  RDF files into the record is not modelled.
\<close>

section \<open>Text operations\<close>

lemma py_spaces_nonempty: "w \<in> set py_spaces \<Longrightarrow> w \<noteq> []"
  by (auto simp: py_spaces_def utf8_3_def)

function lstrip :: "string \<Rightarrow> string" where
  "lstrip s = (case List.find (\<lambda>w. take (length w) s = w) py_spaces of None \<Rightarrow> s | Some w \<Rightarrow> lstrip (drop (length w) s))"
  by pat_completeness auto
termination
proof (relation "measure length", goal_cases)
  case (2 s w)
  then have w: "w \<in> set py_spaces" "take (length w) s = w" by (auto simp: find_Some_iff)
  with py_spaces_nonempty have "w \<noteq> []" by blast
  moreover from w have "length w \<le> length s" by (metis length_take min.cobounded1 min.commute)
  ultimately show ?case by (cases w; cases s) auto
qed simp

declare lstrip.simps [simp del]

function rstrip_text :: "string \<Rightarrow> string" where
  "rstrip_text s =
     (case List.find (\<lambda>w. length w \<le> length s \<and> drop (length s - length w) s = w) py_spaces of
        None \<Rightarrow> s | Some w \<Rightarrow> rstrip_text (take (length s - length w) s))"
  by pat_completeness auto
termination
proof (relation "measure length", goal_cases)
  case (2 s w)
  then have w: "w \<in> set py_spaces" "length w \<le> length s" by (auto simp: find_Some_iff)
  with py_spaces_nonempty have "w \<noteq> []" by blast
  with w show ?case by (cases w; cases s) auto
qed simp

declare rstrip_text.simps [simp del]

text \<open>\<^verbatim>\<open>str.strip()\<close>\<close>

definition py_strip :: "string \<Rightarrow> string" where
  "py_strip s = rstrip_text (lstrip s)"

lemma py_strip_id:
  assumes "\<And>w. w \<in> set py_spaces \<Longrightarrow> take (length w) s \<noteq> w \<and> drop (length s - length w) s \<noteq> w"
  shows "py_strip s = s"
proof -
  have "List.find (\<lambda>w. take (length w) s = w) py_spaces = None"
    "List.find (\<lambda>w. length w \<le> length s \<and> drop (length s - length w) s = w) py_spaces = None"
    using assms by (auto simp: find_None_iff)
  then show ?thesis by (simp add: py_strip_def lstrip.simps [of s] rstrip_text.simps [of s])
qed

definition is_key_char :: "char \<Rightarrow> bool" where
  "is_key_char c \<longleftrightarrow> c \<in> set ''abcdefghijklmnopqrstuvwxyz0123456789''"

text \<open>Replacing each maximal run of other characters by an underscore.\<close>

fun squeeze :: "bool \<Rightarrow> string \<Rightarrow> string" where
  "squeeze in_run [] = []"
| "squeeze in_run (c # s) =
     (if is_key_char c then c # squeeze False s
      else if in_run then squeeze True s else CHR ''_'' # squeeze True s)"

definition strip_underscores :: "string \<Rightarrow> string" where
  "strip_underscores s = rev (dropWhile (\<lambda>c. c = CHR ''_'') (rev (dropWhile (\<lambda>c. c = CHR ''_'') s)))"

definition onto_key :: "(string \<Rightarrow> string) \<Rightarrow> string \<Rightarrow> string" where
  "onto_key lower s = strip_underscores (squeeze False (lower (py_strip s)))"

text \<open>\<^verbatim>\<open>s.split(":", 1)[0]\<close> and \<^verbatim>\<open>s.split(":", 1)[-1]\<close>.\<close>

definition before_colon :: "string \<Rightarrow> string" where
  "before_colon s = takeWhile (\<lambda>c. c \<noteq> CHR '':'') s"

definition after_colon :: "string \<Rightarrow> string" where
  "after_colon s = (if CHR '':'' \<in> set s then tl (dropWhile (\<lambda>c. c \<noteq> CHR '':'') s) else s)"

fun join_text :: "string \<Rightarrow> string list \<Rightarrow> string" where
  "join_text sep [] = []"
| "join_text sep [w] = w"
| "join_text sep (w # v # ws) = w @ sep @ join_text sep (v # ws)"

section \<open>Types and relations\<close>

record entity_type =
  et_name :: string
  et_description :: string
  et_parent :: "string option"
  et_schema :: "(string \<times> pv) list"
  et_keywords :: "string list"

record relation_type =
  rt_name :: string
  rt_description :: string
  rt_domain :: "string list"
  rt_range :: "string list"
  rt_exclusive :: bool
  rt_symmetric :: bool
  rt_inverse :: "string option"

record ontology =
  on_types :: "(string \<times> entity_type) list"
  on_relations :: "(string \<times> relation_type) list"
  on_aliases :: "(string \<times> string list) list"
  on_strict :: bool
  on_source :: string

definition DEFAULT_ENTITY_TYPES :: "string list" where
  "DEFAULT_ENTITY_TYPES = [''service'', ''tool'', ''error'', ''concept'', ''lesson'', ''scope'', ''user'', ''file'', ''symbol'',
     ''memory'', ''document'', ''person'', ''place'', ''organization'', ''event'']"

definition plain_relation :: "string \<Rightarrow> relation_type" where
  "plain_relation n = \<lparr>rt_name = n, rt_description = [], rt_domain = [], rt_range = [], rt_exclusive = False,
     rt_symmetric = False, rt_inverse = None\<rparr>"

definition DEFAULT_RELATIONS :: "relation_type list" where
  "DEFAULT_RELATIONS =
     [plain_relation ''depends_on'' \<lparr>rt_inverse := Some ''required_by''\<rparr>, plain_relation ''causes'', plain_relation ''resolves'',
      plain_relation ''affects'', plain_relation ''supersedes'', plain_relation ''scoped_to'', plain_relation ''uses'',
      plain_relation ''violates'', plain_relation ''relates_to'' \<lparr>rt_symmetric := True\<rparr>,
      plain_relation ''contains'' \<lparr>rt_inverse := Some ''part_of''\<rparr>, plain_relation ''mentions'', plain_relation ''raises'',
      plain_relation ''updates'', plain_relation ''extends'', plain_relation ''derives'',
      plain_relation ''owned_by'' \<lparr>rt_exclusive := True\<rparr>, plain_relation ''located_in'' \<lparr>rt_exclusive := True\<rparr>,
      plain_relation ''status'' \<lparr>rt_exclusive := True\<rparr>,
      plain_relation ''works_at'' \<lparr>rt_domain := [''person'', ''user''], rt_range := [''organization''], rt_exclusive := True\<rparr>]"

definition FALLBACK_TYPE :: string where "FALLBACK_TYPE = ''concept''"
definition FALLBACK_RELATION :: string where "FALLBACK_RELATION = ''relates_to''"

text \<open>\<open>keywords\<close> is the table \<^verbatim>\<open>DEFAULT_TYPE_KEYWORDS\<close>, which only the classifier of mentions reads.\<close>

definition default_ontology :: "(string \<Rightarrow> string list) \<Rightarrow> ontology" where
  "default_ontology keywords =
     \<lparr>on_types = map (\<lambda>n. (n, \<lparr>et_name = n, et_description = [], et_parent = None, et_schema = [], et_keywords = keywords n\<rparr>))
        DEFAULT_ENTITY_TYPES,
      on_relations = map (\<lambda>r. (rt_name r, r)) DEFAULT_RELATIONS, on_aliases = [], on_strict = False, on_source = ''built-in''\<rparr>"

text \<open>The types above a type, nearest first; a cycle of parents ends the walk.\<close>

function type_ancestors :: "ontology \<Rightarrow> string option \<Rightarrow> string list \<Rightarrow> string list" where
  "type_ancestors onto None seen = []"
| "type_ancestors onto (Some t) seen =
     (case map_of (on_types onto) t of
        None \<Rightarrow> []
      | Some e \<Rightarrow>
          if et_name e \<in> set seen then []
          else et_name e # type_ancestors onto (case et_parent e of Some p \<Rightarrow> if p = [] then None else Some p | None \<Rightarrow> None)
                             (et_name e # seen))"
  by pat_completeness auto

termination
proof (relation "measure (\<lambda>(onto, t, seen). card (et_name ` snd ` set (on_types onto) - set seen))", goal_cases)
  case (2 onto t seen e)
  then have "et_name e \<in> et_name ` snd ` set (on_types onto)" by (force dest: map_of_SomeD)
  with 2 have "et_name ` snd ` set (on_types onto) - set (et_name e # seen) \<subset> et_name ` snd ` set (on_types onto) - set seen"
    by auto
  then show ?case by (simp only: in_measure split, intro psubset_card_mono) simp
qed simp

declare type_ancestors.simps(2) [simp del]

definition onto_ancestors :: "ontology \<Rightarrow> string \<Rightarrow> string list" where
  "onto_ancestors onto type_name = type_ancestors onto (Some type_name) []"

definition onto_entity_type :: "(string \<Rightarrow> string) \<Rightarrow> ontology \<Rightarrow> string \<Rightarrow> string result" where
  "onto_entity_type lower onto name =
     (let key = onto_key lower name in
      if key \<in> fst ` set (on_types onto) then Inr key
      else if on_strict onto then Inl ValueError
      else Inr FALLBACK_TYPE)"

definition inverse_named :: "(string \<Rightarrow> string) \<Rightarrow> string \<Rightarrow> relation_type \<Rightarrow> bool" where
  "inverse_named lower key r = (case rt_inverse r of None \<Rightarrow> False | Some i \<Rightarrow> i \<noteq> [] \<and> onto_key lower i = key)"

definition onto_relation :: "(string \<Rightarrow> string) \<Rightarrow> ontology \<Rightarrow> string \<Rightarrow> relation_type result" where
  "onto_relation lower onto name =
     (let key = onto_key lower name in
      case map_of (on_relations onto) key of
        Some r \<Rightarrow> Inr r
      | None \<Rightarrow>
          case List.find (inverse_named lower key) (map snd (on_relations onto)) of
            Some r \<Rightarrow> Inr r
          | None \<Rightarrow>
              if on_strict onto then Inl ValueError
              else Inr (case map_of (on_relations onto) FALLBACK_RELATION of
                          Some r \<Rightarrow> r
                        | None \<Rightarrow> plain_relation FALLBACK_RELATION \<lparr>rt_symmetric := True\<rparr>))"

definition onto_is_inverse :: "(string \<Rightarrow> string) \<Rightarrow> ontology \<Rightarrow> string \<Rightarrow> bool" where
  "onto_is_inverse lower onto name =
     (let key = onto_key lower name in
      key \<notin> fst ` set (on_relations onto) \<and> list_ex (inverse_named lower key) (map snd (on_relations onto)))"

definition edge_problem :: "relation_type \<Rightarrow> string \<Rightarrow> string list \<Rightarrow> string \<Rightarrow> string" where
  "edge_problem r role types actual =
     rt_name r @ '' expects a '' @ role @ '' of type '' @ join_text ''/'' types @ '', not '' @ actual"

definition onto_check_edge :: "ontology \<Rightarrow> relation_type \<Rightarrow> string \<Rightarrow> string \<Rightarrow> string list result" where
  "onto_check_edge onto r source_type target_type =
     (let p1 = (if rt_domain r \<noteq> [] \<and> set (onto_ancestors onto source_type) \<inter> set (rt_domain r) = {}
                then [edge_problem r ''source'' (rt_domain r) source_type] else []);
          p2 = (if rt_range r \<noteq> [] \<and> set (onto_ancestors onto target_type) \<inter> set (rt_range r) = {}
                then [edge_problem r ''target'' (rt_range r) target_type] else []) in
      if p1 @ p2 \<noteq> [] \<and> on_strict onto then Inl ValueError else Inr (p1 @ p2))"

text \<open>\<open>alias.replace(" ", "_")\<close>\<close>

definition underscored :: "string \<Rightarrow> string" where
  "underscored s = map (\<lambda>c. if c = CHR '' '' then CHR ''_'' else c) s"

definition names_entity :: "(string \<Rightarrow> string) \<Rightarrow> string \<Rightarrow> string \<times> string list \<Rightarrow> bool" where
  "names_entity lower lowered entry =
     (let (canonical, aliases) = entry;
          pre = (if CHR '':'' \<in> set canonical then before_colon canonical @ '':'' else []) in
      lowered = lower canonical
      \<or> list_ex (\<lambda>alias. lowered = lower alias
          \<or> (pre \<noteq> [] \<and> lowered = pre @ lower alias)
          \<or> (pre \<noteq> [] \<and> after_colon lowered = underscored (lower alias))) aliases)"

definition onto_canonical_id :: "(string \<Rightarrow> string) \<Rightarrow> ontology \<Rightarrow> string \<Rightarrow> string" where
  "onto_canonical_id lower onto node_id =
     (case List.find (names_entity lower (lower (py_strip node_id))) (on_aliases onto) of
        Some (canonical, aliases) \<Rightarrow> canonical
      | None \<Rightarrow> node_id)"

definition onto_alias_table :: "(string \<Rightarrow> string) \<Rightarrow> ontology \<Rightarrow> (string \<times> string list) list" where
  "onto_alias_table lower onto =
     filter (\<lambda>(k, vs). vs \<noteq> [])
       (foldl (\<lambda>out (canonical, variants).
          let name = map (\<lambda>c. if c = CHR ''_'' then CHR '' '' else c) (after_colon canonical) in
          dset out name (filter (\<lambda>v. lower v \<noteq> lower name) variants)) [] (on_aliases onto))"

section \<open>Lookups stay within the ontology\<close>

lemma type_ancestors_path:
  "distinct (type_ancestors onto t seen)
   \<and> set (type_ancestors onto t seen) \<subseteq> et_name ` snd ` set (on_types onto) - set seen"
proof (induction onto t seen rule: type_ancestors.induct)
  case (2 onto t seen)
  show ?case
  proof (cases "map_of (on_types onto) t")
    case None
    then show ?thesis by (simp add: type_ancestors.simps)
  next
    case (Some e)
    have "et_name e \<in> et_name ` snd ` set (on_types onto)" using Some by (force dest: map_of_SomeD)
    with 2 [OF Some] Some show ?thesis by (cases "et_name e \<in> set seen") (auto simp: type_ancestors.simps(2))
  qed
qed simp

lemma onto_entity_type_known:
  "onto_entity_type lower onto name = Inr t \<Longrightarrow> t \<in> fst ` set (on_types onto) \<or> (t = FALLBACK_TYPE \<and> \<not> on_strict onto)"
  by (auto simp: onto_entity_type_def Let_def split: if_splits)

end
