(* ===== verification/Graph.thy ===== *)
theory Graph
  imports Ontology Complex_Main
begin

text \<open>
  The temporal knowledge graph, \<^verbatim>\<open>unimem/graph.py\<close>: typed nodes, edges with a validity interval and
  a record time, writes under the ontology, and the searches. The graph on disk is the record
  \<open>graph\<close>; a transaction maps it to the next one, and the indexes the source keeps beside it are the
  functions that compute them. Edges are objects with identity: they are named by their position in
  the list. Weights are rational numbers.

  The environment supplies \<^verbatim>\<open>datetime.fromisoformat\<close> (the local reading in microseconds and the UTC
  offset, if there is one), \<^verbatim>\<open>isoformat\<close> of a UTC instant, \<^verbatim>\<open>str.lower\<close>, and the validation of a node's
  properties against its type's schema.
\<close>

section \<open>Environment and moments\<close>

record genv =
  gv_fromiso :: "string \<Rightarrow> (int \<times> int option) option"
  gv_iso :: "int \<Rightarrow> string"
  gv_lower :: "string \<Rightarrow> string"
  gv_validate :: "(string \<times> pv) list \<Rightarrow> (string \<times> pv) list \<Rightarrow> unit result"

definition zulu :: "string \<Rightarrow> string" where
  "zulu s = concat (map (\<lambda>c. if c = CHR ''Z'' then ''+00:00'' else [c]) s)"

definition parse_moment :: "genv \<Rightarrow> string \<Rightarrow> int result" where
  "parse_moment env value =
     (let s = py_strip value in
      if s = [] then Inl ValueError
      else case gv_fromiso env (zulu s) of
             None \<Rightarrow> Inl ValueError
           | Some (local, offset) \<Rightarrow> Inr (local - (case offset of None \<Rightarrow> 0 | Some off \<Rightarrow> off)))"

definition clean_id :: "genv \<Rightarrow> string \<Rightarrow> string" where
  "clean_id env value = gv_lower env (py_strip value)"

text \<open>\<^verbatim>\<open>round(x, 3)\<close>, half to even; \<open>None\<close> is a weight that is no number.\<close>

definition round3 :: "rat \<Rightarrow> rat" where
  "round3 x = (let y = x * 1000; f = \<lfloor>y\<rfloor>; d = y - of_int f in
     of_int (if d < 1 / 2 then f else if d > 1 / 2 then f + 1 else if even f then f else f + 1) / 1000)"

definition clamp_weight :: "rat option \<Rightarrow> rat" where
  "clamp_weight w = round3 (min 1 (max 0 (case w of None \<Rightarrow> 1 | Some v \<Rightarrow> v)))"

definition moment_or_none :: "genv \<Rightarrow> string option \<Rightarrow> string option result" where
  "moment_or_none env value =
     (case value of
        None \<Rightarrow> Inr None
      | Some v \<Rightarrow> if py_strip v = [] then Inr None
                  else bind_r (parse_moment env v) (\<lambda>t. Inr (Some (gv_iso env t))))"

text \<open>\<^verbatim>\<open>a or b\<close> on texts that may be absent.\<close>

definition or_text :: "string option \<Rightarrow> string option \<Rightarrow> string option" where
  "or_text a b = (case a of Some s \<Rightarrow> if s = [] then b else a | None \<Rightarrow> b)"

section \<open>Nodes, edges and the store\<close>

record gnode =
  gn_id :: string
  gn_type :: string
  gn_name :: string
  gn_properties :: "(string \<times> pv) list"
  gn_created :: string
  gn_updated :: string
  gn_parent :: "string option"
  gn_root :: "string option"
  gn_version :: int
  gn_latest :: bool
  gn_forgotten :: bool

record gedge =
  ge_source :: string
  ge_target :: string
  ge_relation :: string
  ge_weight :: rat
  ge_valid :: "string option"
  ge_invalid :: "string option"
  ge_expired :: "string option"
  ge_properties :: "(string \<times> pv) list"
  ge_created :: string

record prov =
  pr_source_path :: string
  pr_run_id :: string
  pr_detail :: string

record graph =
  gr_nodes :: "(string \<times> gnode) list"
  gr_edges :: "gedge list"
  gr_provenance :: "(string \<times> string \<times> string \<times> string \<times> string) list"

definition RELATIONS :: "string list" where
  "RELATIONS = [''depends_on'', ''causes'', ''resolves'', ''affects'', ''supersedes'', ''scoped_to'', ''uses'', ''violates'',
     ''relates_to'', ''contains'', ''mentions'', ''raises'', ''updates'', ''extends'', ''derives'']"

definition MAX_HOPS :: int where "MAX_HOPS = 4"

definition add_provenance :: "string \<Rightarrow> string \<Rightarrow> prov option \<Rightarrow> string option \<Rightarrow> graph \<Rightarrow> graph" where
  "add_provenance what target_id provenance detail g =
     (case provenance of
        None \<Rightarrow> g
      | Some p \<Rightarrow> g \<lparr>gr_provenance := gr_provenance g @
          [(what, target_id, pr_source_path p, pr_run_id p, case detail of None \<Rightarrow> pr_detail p | Some d \<Rightarrow> d)]\<rparr>)"

text \<open>\<^verbatim>\<open>{**a, **b}\<close>\<close>

definition merge_dict :: "(string \<times> pv) list \<Rightarrow> (string \<times> pv) list \<Rightarrow> (string \<times> pv) list" where
  "merge_dict a b = foldl (\<lambda>d (k, v). dset d k v) a b"

definition put_node ::
  "genv \<Rightarrow> ontology \<Rightarrow> string \<Rightarrow> string \<Rightarrow> string \<Rightarrow> string \<Rightarrow> (string \<times> pv) list \<Rightarrow> prov option \<Rightarrow> graph \<Rightarrow> graph result" where
  "put_node env onto now node_id type_name name props provenance g =
     (let ident = clean_id env (onto_canonical_id (gv_lower env) onto (clean_id env node_id)) in
      guard_r (ident \<noteq> []) ValueError (
      bind_r (onto_entity_type (gv_lower env) onto type_name) (\<lambda>etype.
        let existing = map_of (gr_nodes g) ident;
            schema_type = (case existing of Some n \<Rightarrow> gn_type n | None \<Rightarrow> etype) in
        case map_of (on_types onto) schema_type of
          None \<Rightarrow> Inl ValueError
        | Some et \<Rightarrow>
            bind_r (if et_schema et \<noteq> []
                    then gv_validate env (merge_dict (case existing of Some n \<Rightarrow> gn_properties n | None \<Rightarrow> []) props) (et_schema et)
                    else Inr ()) (\<lambda>_.
              let node = (case existing of
                    Some n \<Rightarrow>
                      (let name' = (if name \<noteq> [] \<and> py_strip name \<noteq> gn_name n then py_strip name else gn_name n);
                           props' = (if props \<noteq> [] then merge_dict (gn_properties n) props else gn_properties n) in
                       if name' \<noteq> gn_name n \<or> props' \<noteq> gn_properties n
                       then n \<lparr>gn_name := name', gn_properties := props', gn_updated := now\<rparr> else n)
                  | None \<Rightarrow>
                      \<lparr>gn_id = ident, gn_type = etype, gn_name = (if py_strip name = [] then ident else py_strip name),
                       gn_properties = props, gn_created = now, gn_updated = now, gn_parent = None, gn_root = None,
                       gn_version = 1, gn_latest = True, gn_forgotten = False\<rparr>) in
              Inr (add_provenance ''node'' ident provenance None (g \<lparr>gr_nodes := dset (gr_nodes g) ident node\<rparr>))))))"

section \<open>Adding an edge\<close>

text \<open>\<^verbatim>\<open>edge.valid_at or edge.created_at\<close>\<close>

definition edge_begin :: "gedge \<Rightarrow> string" where
  "edge_begin e = (case or_text (ge_valid e) None of Some v \<Rightarrow> v | None \<Rightarrow> ge_created e)"

definition close_edge :: "string \<Rightarrow> string \<Rightarrow> string \<Rightarrow> gedge \<Rightarrow> gedge" where
  "close_edge ending recorded why e =
     e \<lparr>ge_invalid := Some ending,
        ge_properties := merge_dict (ge_properties e) [(''closed_recorded_at'', PStr recorded), (''closed_reason'', PStr why)]\<rparr>"

text \<open>
  One round of the loop of \<^verbatim>\<open>_resolve_exclusive\<close>, for an edge of the same source and relation: it may
  close that edge, or end the new one where that edge begins.
\<close>

definition resolve_one :: "genv \<Rightarrow> string \<Rightarrow> int \<Rightarrow> gedge \<Rightarrow> gedge \<Rightarrow> (gedge \<times> gedge) result" where
  "resolve_one env now start new_edge e =
     (if ge_target e = ge_target new_edge then Inr (e, new_edge)
      else
        bind_r (parse_moment env (edge_begin e)) (\<lambda>other_start.
        bind_r (case or_text (ge_invalid e) None of
                  None \<Rightarrow> Inr None
                | Some v \<Rightarrow> bind_r (parse_moment env v) (\<lambda>t. Inr (Some t))) (\<lambda>other_end.
          if other_start \<le> start \<and> (case other_end of None \<Rightarrow> True | Some t \<Rightarrow> t > start)
          then Inr (close_edge (case ge_valid new_edge of Some v \<Rightarrow> v | None \<Rightarrow> []) now (''superseded by '' @ ge_target new_edge) e, new_edge)
          else if other_start > start then
            bind_r (case ge_invalid new_edge of
                      None \<Rightarrow> Inr True
                    | Some t \<Rightarrow> bind_r (parse_moment env t) (\<lambda>u. Inr (u > other_start))) (\<lambda>later.
              Inr (e, if later
                      then new_edge \<lparr>ge_invalid := ge_valid e,
                             ge_properties := merge_dict (ge_properties new_edge)
                               [(''closed_reason'', PStr (''superseded by '' @ ge_target e)), (''closed_recorded_at'', PStr now)]\<rparr>
                      else new_edge))
          else Inr (e, new_edge))))"

fun resolve_loop :: "genv \<Rightarrow> string \<Rightarrow> int \<Rightarrow> gedge \<Rightarrow> gedge list \<Rightarrow> (gedge list \<times> gedge) result" where
  "resolve_loop env now start new_edge [] = Inr ([], new_edge)"
| "resolve_loop env now start new_edge (e # es) =
     (if ge_source e = ge_source new_edge \<and> ge_relation e = ge_relation new_edge then
        bind_r (resolve_one env now start new_edge e) (\<lambda>(e', new').
        bind_r (resolve_loop env now start new' es) (\<lambda>(es', new''). Inr (e' # es', new'')))
      else bind_r (resolve_loop env now start new_edge es) (\<lambda>(es', new''). Inr (e # es', new'')))"

definition resolve_exclusive :: "genv \<Rightarrow> string \<Rightarrow> gedge \<Rightarrow> gedge list \<Rightarrow> (gedge list \<times> gedge) result" where
  "resolve_exclusive env now new_edge es =
     (case ge_valid new_edge of
        None \<Rightarrow> Inl ValueError
      | Some v \<Rightarrow> bind_r (parse_moment env v) (\<lambda>start. resolve_loop env now start new_edge es))"

definition same_key :: "string \<Rightarrow> string \<Rightarrow> string \<Rightarrow> gedge \<Rightarrow> bool" where
  "same_key src dst rel e \<longleftrightarrow> ge_source e = src \<and> ge_target e = dst \<and> ge_relation e = rel"

text \<open>\<^verbatim>\<open>max(matching, key=...)\<close>: the first of the latest, by position.\<close>

fun latest_of :: "genv \<Rightarrow> gedge list \<Rightarrow> nat list \<Rightarrow> (nat \<times> int) option \<Rightarrow> (nat \<times> int) option result" where
  "latest_of env es [] best = Inr best"
| "latest_of env es (i # is) best =
     bind_r (parse_moment env (edge_begin (es ! i))) (\<lambda>t.
       latest_of env es is (case best of None \<Rightarrow> Some (i, t) | Some (j, u) \<Rightarrow> if t > u then Some (i, t) else best))"

text \<open>The endpoint nodes are created when they are missing, with the type their prefix names.\<close>

definition ensure_node :: "genv \<Rightarrow> ontology \<Rightarrow> string \<Rightarrow> prov option \<Rightarrow> string \<Rightarrow> graph \<Rightarrow> graph result" where
  "ensure_node env onto now provenance node_id g =
     (if node_id \<in> fst ` set (gr_nodes g) then Inr g
      else
        (let pre = (if CHR '':'' \<in> set node_id then before_colon node_id else []) in
         put_node env onto now node_id (if pre \<in> fst ` set (on_types onto) then pre else ''concept'') [] [] provenance g))"

definition get_node :: "graph \<Rightarrow> string \<Rightarrow> gnode result" where
  "get_node g i = (case map_of (gr_nodes g) i of None \<Rightarrow> Inl KeyError | Some n \<Rightarrow> Inr n)"

definition restate_edge :: "rat \<Rightarrow> (string \<times> pv) list \<Rightarrow> gedge \<Rightarrow> gedge" where
  "restate_edge weight props e =
     (let e1 = (if weight > ge_weight e then e \<lparr>ge_weight := weight\<rparr> else e) in
      if props \<noteq> [] then e1 \<lparr>ge_properties := merge_dict (ge_properties e1) props\<rparr> else e1)"

text \<open>The body of the transaction, once the arguments are normalized.\<close>

definition insert_edge ::
  "genv \<Rightarrow> string \<Rightarrow> bool \<Rightarrow> gedge \<Rightarrow> bool \<Rightarrow> prov option \<Rightarrow> graph \<Rightarrow> (graph \<times> nat) result" where
  "insert_edge env now exclusive new_edge explicit provenance g =
     (let es = gr_edges g; src = ge_source new_edge; dst = ge_target new_edge; rel = ge_relation new_edge;
          matching = filter (\<lambda>i. same_key src dst rel (es ! i)) [0 ..< length es];
          edge_id = src @ ''->'' @ dst @ '':'' @ rel;
          fresh = (\<lambda>es'. bind_r (if exclusive then resolve_exclusive env now new_edge es' else Inr (es', new_edge)) (\<lambda>(es'', e).
                     Inr (add_provenance ''edge'' edge_id provenance None (g \<lparr>gr_edges := es'' @ [e]\<rparr>), length es''))) in
      bind_r (latest_of env es matching None) (\<lambda>latest.
        case latest of
          None \<Rightarrow> fresh es
        | Some (i, began) \<Rightarrow>
            bind_r (parse_moment env (case ge_valid new_edge of Some v \<Rightarrow> v | None \<Rightarrow> [])) (\<lambda>start.
              if (\<not> explicit \<and> ge_invalid (es ! i) = None \<and> ge_invalid new_edge = None) \<or> start \<le> began
              then Inr (add_provenance ''edge'' edge_id provenance None
                          (g \<lparr>gr_edges := es[i := restate_edge (ge_weight new_edge) (ge_properties new_edge) (es ! i)]\<rparr>), i)
              else fresh (map (\<lambda>e. if same_key src dst rel e \<and> ge_invalid e = None
                                   then close_edge (case ge_valid new_edge of Some v \<Rightarrow> v | None \<Rightarrow> []) now
                                          (''restated from '' @ (case ge_valid new_edge of Some v \<Rightarrow> v | None \<Rightarrow> [])) e
                                   else e) es))))"

definition add_edge ::
  "genv \<Rightarrow> ontology \<Rightarrow> string \<Rightarrow> string \<Rightarrow> string \<Rightarrow> string \<Rightarrow> rat option \<Rightarrow> string option \<Rightarrow> string option \<Rightarrow> string option
     \<Rightarrow> (string \<times> pv) list \<Rightarrow> prov option \<Rightarrow> string option \<Rightarrow> graph \<Rightarrow> (graph \<times> nat) result" where
  "add_edge env onto now source target relation weight valid_at invalid_at expired_at props provenance valid_from g =
     (let src0 = clean_id env source; dst0 = clean_id env target in
      guard_r (src0 \<noteq> [] \<and> dst0 \<noteq> []) ValueError (
      bind_r (moment_or_none env (or_text valid_at valid_from)) (\<lambda>explicit.
      let valid = (case or_text explicit None of Some v \<Rightarrow> v | None \<Rightarrow> now) in
      bind_r (moment_or_none env invalid_at) (\<lambda>invalid.
      bind_r (moment_or_none env expired_at) (\<lambda>expired.
      bind_r (case or_text invalid None of
                None \<Rightarrow> Inr ()
              | Some i \<Rightarrow> bind_r (parse_moment env i) (\<lambda>a. bind_r (parse_moment env valid) (\<lambda>b. guard_r (\<not> a \<le> b) ValueError (Inr ())))) (\<lambda>_.
      bind_r (onto_relation (gv_lower env) onto relation) (\<lambda>rel.
      let (src1, dst1) = (if onto_is_inverse (gv_lower env) onto relation then (dst0, src0) else (src0, dst0));
          rname = (if rt_name rel \<in> set RELATIONS \<or> rt_name rel \<in> fst ` set (on_relations onto) then rt_name rel else FALLBACK_RELATION);
          src = clean_id env (onto_canonical_id (gv_lower env) onto src1);
          dst = clean_id env (onto_canonical_id (gv_lower env) onto dst1) in
      bind_r (ensure_node env onto now provenance src g) (\<lambda>g1.
      bind_r (ensure_node env onto now provenance dst g1) (\<lambda>g2.
      bind_r (get_node g2 src) (\<lambda>sn. bind_r (get_node g2 dst) (\<lambda>dn.
      bind_r (onto_check_edge onto rel (gn_type sn) (gn_type dn)) (\<lambda>problems.
      let props' = (if problems \<noteq> [] then dset props ''ontology_warnings'' (PList (map PStr problems)) else props);
          new_edge = \<lparr>ge_source = src, ge_target = dst, ge_relation = rname, ge_weight = clamp_weight weight, ge_valid = Some valid,
            ge_invalid = invalid, ge_expired = expired, ge_properties = props', ge_created = now\<rparr> in
      insert_edge env now (rt_exclusive rel) new_edge (explicit \<noteq> None) provenance g2))))))))))))"


section \<open>Feedback, versions and forgetting\<close>

definition bool_of :: "pv \<Rightarrow> bool" where
  "bool_of v = (v = PBool True)"

text \<open>The ledger of outcomes lives in the edge's properties, each value a boolean.\<close>

definition feedback_edge ::
  "genv \<Rightarrow> ontology \<Rightarrow> string \<Rightarrow> string \<Rightarrow> string \<Rightarrow> string \<Rightarrow> string \<Rightarrow> bool \<Rightarrow> graph \<Rightarrow> (graph \<times> nat) result" where
  "feedback_edge env onto now source target relation event_id helpful g =
     guard_r (event_id \<noteq> []) ValueError
       (let es = gr_edges g;
            active = filter (\<lambda>i. same_key (clean_id env source) (clean_id env target) relation (es ! i) \<and> ge_invalid (es ! i) = None)
                       [0 ..< length es] in
        if active = [] then Inl ValueError
        else
          (let i = last active; prior = es ! i;
               outcomes = dict_of (dget_or (ge_properties prior) ''feedback_outcomes'' (PDict [])) in
           case map_of outcomes event_id of
             Some v \<Rightarrow> if v \<noteq> PBool helpful then Inl ValueError else Inr (g, i)
           | None \<Rightarrow>
               guard_r (\<not> length outcomes \<ge> 2000) ValueError
                 (let outcomes' = dset outcomes event_id (PBool helpful);
                      successes = length (filter (bool_of \<circ> snd) outcomes');
                      weight = (1 + of_nat successes) / (2 + of_nat (length outcomes')) in
                  add_edge env onto now source target relation (Some weight) (Some now) None None
                    (dset (ge_properties prior) ''feedback_outcomes'' (PDict outcomes'))
                    (Some \<lparr>pr_source_path = [], pr_run_id = [], pr_detail = []\<rparr>) None g)))"

definition version_chains :: "(string \<times> gnode) list \<Rightarrow> (string \<times> gnode list) list" where
  "version_chains table =
     map (\<lambda>(k, c). (k, sort_key gn_version c))
       (foldl (\<lambda>chains n.
          let k = (case or_text (gn_root n) None of Some r \<Rightarrow> r | None \<Rightarrow> gn_id n) in
          dset chains k ((case map_of chains k of None \<Rightarrow> [] | Some c \<Rightarrow> c) @ [n])) [] (map snd table))"

definition get_version_chain :: "genv \<Rightarrow> graph \<Rightarrow> string \<Rightarrow> gnode list" where
  "get_version_chain env g node_id =
     (case map_of (gr_nodes g) (clean_id env node_id) of
        None \<Rightarrow> []
      | Some target \<Rightarrow>
          (case map_of (version_chains (gr_nodes g)) (case or_text (gn_root target) None of Some r \<Rightarrow> r | None \<Rightarrow> gn_id target) of
             None \<Rightarrow> [] | Some c \<Rightarrow> c))"

definition incident :: "string \<Rightarrow> gedge \<Rightarrow> bool" where
  "incident n e \<longleftrightarrow> ge_source e = n \<or> ge_target e = n"

definition forget_node ::
  "genv \<Rightarrow> string \<Rightarrow> string \<Rightarrow> string \<Rightarrow> bool \<Rightarrow> bool \<Rightarrow> prov option \<Rightarrow> graph \<Rightarrow> graph \<times> gnode option" where
  "forget_node env now node_id why invalidate_edges undo provenance g =
     (let ident = clean_id env node_id in
      case map_of (gr_nodes g) ident of
        None \<Rightarrow> (g, None)
      | Some n \<Rightarrow>
          (let forgotten_at = map_of (gn_properties n) ''forgotten_at'';
               props = dset (gn_properties n) ''is_forgotten'' (PBool (\<not> undo));
               props' = (if undo then dset (dpop (dpop props ''forget_reason'') ''forgotten_at'') ''restored_at'' (PStr now)
                         else dset (dset props ''forget_reason'' (PStr why)) ''forgotten_at'' (PStr now));
               n' = n \<lparr>gn_forgotten := \<not> undo, gn_properties := props', gn_updated := now\<rparr>;
               es = map (\<lambda>e. if \<not> incident ident e then e
                             else if undo \<and> (\<exists>t. forgotten_at = Some (PStr t) \<and> t \<noteq> [] \<and> ge_invalid e = Some t) then e \<lparr>ge_invalid := None\<rparr>
                             else if \<not> undo \<and> invalidate_edges \<and> ge_invalid e = None then e \<lparr>ge_invalid := Some now\<rparr>
                             else e) (gr_edges g);
               detail = ''node '' @ (if undo then ''restored'' else ''forgotten'') @ '': '' @ why in
           (add_provenance ''node'' ident provenance (Some detail)
              (g \<lparr>gr_nodes := dset (gr_nodes g) ident n', gr_edges := es\<rparr>), Some n')))"

text \<open>A decimal numeral, for the identifiers of versions.\<close>

fun decimal :: "nat \<Rightarrow> string" where
  "decimal n = (if n < 10 then [char_of (48 + n)] else decimal (n div 10) @ [char_of (48 + n mod 10)])"

declare decimal.simps [simp del]

definition int_text :: "int \<Rightarrow> string" where
  "int_text i = (if i < 0 then CHR ''-'' # decimal (nat (- i)) else decimal (nat i))"

definition version_id :: "string \<Rightarrow> int \<Rightarrow> string" where
  "version_id root_id v = root_id @ '':v'' @ int_text v"

text \<open>The search for a free identifier; among as many candidates as there are nodes, and one more, one is free.\<close>

fun free_version :: "nat \<Rightarrow> (string \<times> gnode) list \<Rightarrow> string \<Rightarrow> int \<Rightarrow> int option" where
  "free_version 0 table root_id v = None"
| "free_version (Suc fuel) table root_id v =
     (if version_id root_id v \<in> fst ` set table then free_version fuel table root_id (v + 1) else Some v)"

definition in_chain :: "string \<Rightarrow> gnode \<Rightarrow> bool" where
  "in_chain root_id n \<longleftrightarrow> gn_root n = Some root_id \<or> gn_id n = root_id"

definition create_memory_version ::
  "genv \<Rightarrow> ontology \<Rightarrow> string \<Rightarrow> string \<Rightarrow> (string \<times> pv) list \<Rightarrow> string \<Rightarrow> prov option \<Rightarrow> graph \<Rightarrow> (graph \<times> gnode) result" where
  "create_memory_version env onto now parent_id new_properties new_name provenance g =
     (case map_of (gr_nodes g) (clean_id env parent_id) of
        None \<Rightarrow> Inl ValueError
      | Some parent \<Rightarrow>
          (let root_id = (case or_text (gn_root parent) None of Some r \<Rightarrow> r | None \<Rightarrow> gn_id parent);
               chain = filter (in_chain root_id) (map snd (gr_nodes g));
               first = (if chain = [] then 0 else Max (set (map gn_version chain))) + 1 in
           case free_version (Suc (length (gr_nodes g))) (gr_nodes g) root_id first of
             None \<Rightarrow> Inl RuntimeError
           | Some version \<Rightarrow>
               (let new_id = version_id root_id version;
                    n = \<lparr>gn_id = new_id, gn_type = gn_type parent,
                         gn_name = (if py_strip new_name = [] then gn_name parent else py_strip new_name),
                         gn_properties = merge_dict (gn_properties parent) new_properties, gn_created = now, gn_updated = now,
                         gn_parent = Some (gn_id parent), gn_root = Some root_id, gn_version = version, gn_latest = True,
                         gn_forgotten = False\<rparr>;
                    table = map (\<lambda>(k, m). (k, if in_chain root_id m \<and> gn_latest m
                                               then m \<lparr>gn_latest := False, gn_updated := now\<rparr> else m)) (gr_nodes g);
                    g' = add_provenance ''node'' new_id provenance None (g \<lparr>gr_nodes := dset table new_id n\<rparr>) in
                bind_r (add_edge env onto now new_id (gn_id parent) ''updates'' (Some 1) None None None [] provenance None g') (\<lambda>(g'', i).
                  Inr (g'', n)))))"

section \<open>Views in valid time and record time\<close>

definition moment_at :: "genv \<Rightarrow> string option \<Rightarrow> int option" where
  "moment_at env value =
     (case or_text value None of
        None \<Rightarrow> None
      | Some v \<Rightarrow> (case parse_moment env v of Inl _ \<Rightarrow> None | Inr t \<Rightarrow> Some t))"

definition text_field :: "(string \<times> pv) list \<Rightarrow> string \<Rightarrow> string option" where
  "text_field d k = (case map_of d k of Some (PStr s) \<Rightarrow> Some s | _ \<Rightarrow> None)"

text \<open>\<open>clock_now\<close>: the wall clock, read when neither a moment nor a record time is given.\<close>

definition is_active_edge :: "genv \<Rightarrow> int \<Rightarrow> gedge \<Rightarrow> int option \<Rightarrow> int option \<Rightarrow> int option \<Rightarrow> bool" where
  "is_active_edge env clock_now e moment known_at current_at =
     (let unknown = (case known_at of
            None \<Rightarrow> False
          | Some k \<Rightarrow> (case moment_at env (Some (ge_created e)) of None \<Rightarrow> False | Some c \<Rightarrow> c > k));
          reopened = (case known_at of
            None \<Rightarrow> False
          | Some k \<Rightarrow> (case moment_at env (text_field (ge_properties e) ''closed_recorded_at'') of None \<Rightarrow> False | Some c \<Rightarrow> c > k));
          invalid_at = (if reopened then None else ge_invalid e);
          m = (case moment of Some t \<Rightarrow> t | None \<Rightarrow> (case current_at of Some t \<Rightarrow> t | None \<Rightarrow> (case known_at of Some t \<Rightarrow> t | None \<Rightarrow> clock_now))) in
      if unknown then False
      else if (case moment_at env (ge_valid e) of None \<Rightarrow> False | Some s \<Rightarrow> s > m) then False
      else list_all (\<lambda>ending. case moment_at env ending of None \<Rightarrow> True | Some t \<Rightarrow> \<not> t \<le> m) [invalid_at, ge_expired e])"

text \<open>The incidence index, and its refinement by relation.\<close>

definition by_entity :: "gedge list \<Rightarrow> string \<Rightarrow> nat list" where
  "by_entity es n = filter (\<lambda>i. incident n (es ! i)) [0 ..< length es]"

definition by_relation :: "gedge list \<Rightarrow> string \<Rightarrow> nat list" where
  "by_relation es r = filter (\<lambda>i. ge_relation (es ! i) = r) [0 ..< length es]"

definition by_entity_relation :: "gedge list \<Rightarrow> string \<Rightarrow> string \<Rightarrow> nat list" where
  "by_entity_relation es n r = filter (\<lambda>i. incident n (es ! i) \<and> ge_relation (es ! i) = r) [0 ..< length es]"

definition incident_positions :: "gedge list \<Rightarrow> string \<Rightarrow> string list option \<Rightarrow> nat list" where
  "incident_positions es n relations =
     (case relations of
        None \<Rightarrow> by_entity es n
      | Some rs \<Rightarrow>
          if rs = [] then []
          else if length (remdups rs) = 1 then by_entity_relation es n (hd rs)
          else sort (concat (map (by_entity_relation es n) (remdups rs))))"

definition relation_filter :: "string list option \<Rightarrow> string list option result" where
  "relation_filter relations =
     (case relations of
        None \<Rightarrow> Inr None
      | Some rs \<Rightarrow>
          guard_r (length rs \<le> 64 \<and> list_all (\<lambda>r. 1 \<le> py_len r \<and> py_len r \<le> 128) rs) ValueError (Inr (Some (remdups rs))))"

definition opt_moment :: "genv \<Rightarrow> string option \<Rightarrow> int option result" where
  "opt_moment env v = (case or_text v None of None \<Rightarrow> Inr None | Some s \<Rightarrow> bind_r (parse_moment env s) (\<lambda>t. Inr (Some t)))"

definition DIRECTIONS :: "string list" where
  "DIRECTIONS = [''in'', ''out'', ''both'']"

record neighbor =
  nb_id :: string
  nb_name :: string
  nb_type :: string
  nb_direction :: string
  nb_relation :: string
  nb_weight :: rat

definition neighbor_of :: "graph \<Rightarrow> string \<Rightarrow> string \<Rightarrow> gedge \<Rightarrow> neighbor option" where
  "neighbor_of g ident direction e =
     (let mk = (\<lambda>side other.
            let n = map_of (gr_nodes g) other in
            \<lparr>nb_id = other, nb_name = (case n of Some x \<Rightarrow> gn_name x | None \<Rightarrow> other),
             nb_type = (case n of Some x \<Rightarrow> gn_type x | None \<Rightarrow> ''concept''), nb_direction = side,
             nb_relation = ge_relation e, nb_weight = ge_weight e\<rparr>) in
      if direction \<in> {''out'', ''both''} \<and> ge_source e = ident then Some (mk ''out'' (ge_target e))
      else if direction \<in> {''in'', ''both''} \<and> ge_target e = ident then Some (mk ''in'' (ge_source e))
      else None)"

definition get_neighbors ::
  "genv \<Rightarrow> int \<Rightarrow> graph \<Rightarrow> string \<Rightarrow> string \<Rightarrow> string option \<Rightarrow> string option \<Rightarrow> string option \<Rightarrow> string list option \<Rightarrow> neighbor list result" where
  "get_neighbors env clock_now g node_id direction relation as_of known_at relations =
     (let ident = clean_id env node_id in
      guard_r (direction \<in> set DIRECTIONS) ValueError (
      bind_r (relation_filter relations) (\<lambda>selected0.
      bind_r (opt_moment env as_of) (\<lambda>moment. bind_r (opt_moment env known_at) (\<lambda>known.
      let selected = (case relation of
            None \<Rightarrow> selected0
          | Some r \<Rightarrow> Some (case selected0 of None \<Rightarrow> [r] | Some rs \<Rightarrow> filter (\<lambda>x. x = r) rs));
          current_at = (if moment = None \<and> known = None then Some clock_now else None);
          es = gr_edges g in
      Inr (concat (map (\<lambda>i.
            let e = es ! i in
            if \<not> is_active_edge env clock_now e moment known current_at then []
            else if (case relation of Some r \<Rightarrow> r \<noteq> [] \<and> ge_relation e \<noteq> r | None \<Rightarrow> False) then []
            else (case neighbor_of g ident direction e of None \<Rightarrow> [] | Some n \<Rightarrow> [n]))
          (incident_positions es ident selected))))))))"


definition decimal_value :: "string \<Rightarrow> nat" where
  "decimal_value s = foldl (\<lambda>n c. 10 * n + (of_char c - 48)) 0 s"

lemma decimal_value: "decimal_value (decimal n) = n"
proof (induction n rule: decimal.induct)
  case (1 n)
  then show ?case by (subst decimal.simps) (auto simp: decimal_value_def)
qed

lemma decimal_no_minus: "CHR ''-'' \<notin> set (decimal n)"
proof (induction n rule: decimal.induct)
  case (1 n)
  have d: "CHR ''-'' \<noteq> char_of (48 + m)" if "m < 10" for m :: nat
  proof
    assume "CHR ''-'' = char_of (48 + m)"
    then have "(of_char (char_of (48 + m) :: char) :: nat) = of_char CHR ''-''" by simp
    then show False using that by simp
  qed
  show ?case using 1 d [of n] d [of "n mod 10"] by (subst decimal.simps) auto
qed

lemma int_text_inj: "int_text i = int_text j \<Longrightarrow> i = j"
proof -
  assume eq: "int_text i = int_text j"
  have "decimal (nat k) \<noteq> CHR ''-'' # s" for k s using decimal_no_minus [of "nat k"] by (metis list.set_intros(1))
  with eq have "(i < 0 \<longleftrightarrow> j < 0) \<and> nat \<bar>i\<bar> = nat \<bar>j\<bar>"
    by (auto simp: int_text_def split: if_splits dest: arg_cong [of _ _ decimal_value] simp: decimal_value) metis+
  then show "i = j" by linarith
qed

lemma free_version_found: "card {k. v \<le> k \<and> version_id r k \<in> fst ` set table} < fuel \<Longrightarrow> free_version fuel table r v \<noteq> None"
proof (induction fuel arbitrary: v)
  case (Suc fuel)
  let ?S = "\<lambda>v. {k. v \<le> k \<and> version_id r k \<in> fst ` set table}"
  have "finite (?S v)"
    by (rule finite_imageD [of "version_id r"]) (auto intro: finite_subset [of _ "fst ` set table"] simp: inj_on_def version_id_def dest: int_text_inj)
  show ?case
  proof (cases "version_id r v \<in> fst ` set table")
    case True
    then have "?S v = insert v (?S (v + 1))" by auto
    then have "card (?S (v + 1)) < fuel" using Suc.prems \<open>finite (?S v)\<close> by (simp add: card_insert_if)
    with Suc.IH True show ?thesis by simp
  qed simp
qed simp

lemma version_found: "free_version (Suc (length table)) table r v \<noteq> None"
proof (rule free_version_found)
  have "card {k. v \<le> k \<and> version_id r k \<in> fst ` set table} \<le> card (fst ` set table)"
    by (rule card_inj_on_le [of "version_id r"]) (auto simp: inj_on_def version_id_def dest: int_text_inj)
  also have "\<dots> \<le> length table" by (metis card_length length_map list.set_map)
  finally show "card {k. v \<le> k \<and> version_id r k \<in> fst ` set table} < Suc (length table)" by simp
qed

end
