(* ===== verification/GraphSearch.thy ===== *)
theory GraphSearch
  imports Graph
begin

text \<open>
  The searches over the temporal graph, \<^verbatim>\<open>unimem/graph.py\<close>: the bounded breadth-first subgraph, the
  shortest eligible path with its work budgets, the edges of an interval and the timeline of an
  entity. The main result is that a path reported as found is a shortest eligible one, and that the
  answer that there is none is right whenever no budget ran out.
\<close>

section \<open>The subgraph within some hops\<close>

text \<open>The view a query fixes: which edges are incident to a node, and which are active.\<close>

record view =
  vw_edges :: "gedge list"
  vw_selected :: "string list option"
  vw_direction :: string
  vw_active :: "gedge \<Rightarrow> bool"

definition wrong_way :: "view \<Rightarrow> string \<Rightarrow> gedge \<Rightarrow> bool" where
  "wrong_way vw current e \<longleftrightarrow> (vw_direction vw = ''out'' \<and> ge_source e \<noteq> current) \<or> (vw_direction vw = ''in'' \<and> ge_target e \<noteq> current)"

definition other_end :: "string \<Rightarrow> gedge \<Rightarrow> string" where
  "other_end current e = (if ge_source e = current then ge_target e else ge_source e)"

type_synonym hop_state = "(string \<times> nat) list \<times> (string \<times> nat) list \<times> nat list"

text \<open>Visited nodes with their distance, the queue, and the positions collected; \<open>cap\<close> bounds these.\<close>

fun expand_hops :: "view \<Rightarrow> nat option \<Rightarrow> string \<Rightarrow> nat \<Rightarrow> nat list \<Rightarrow> hop_state \<Rightarrow> hop_state" where
  "expand_hops vw cap current hop [] st = st"
| "expand_hops vw cap current hop (i # is) (visited, queue, collected) =
     (let e = vw_edges vw ! i in
      if wrong_way vw current e \<or> \<not> vw_active vw e then expand_hops vw cap current hop is (visited, queue, collected)
      else if (case cap of None \<Rightarrow> False | Some c \<Rightarrow> length collected \<ge> c) then (visited, queue, collected)
      else
        (let collected' = (if i \<in> set collected then collected else collected @ [i]);
             neighbor = other_end current e in
         if neighbor \<in> fst ` set visited then expand_hops vw cap current hop is (visited, queue, collected')
         else expand_hops vw cap current hop is
                (visited @ [(neighbor, hop + 1)], queue @ [(neighbor, hop + 1)], collected')))"

definition endpoints :: "gedge list \<Rightarrow> string set" where
  "endpoints es = ge_source ` set es \<union> ge_target ` set es"

lemma incident_lt: "i \<in> set (incident_positions es n rs) \<Longrightarrow> i < length es"
  by (auto simp: incident_positions_def by_entity_def by_entity_relation_def split: option.splits if_splits)

lemma incident_is: "i \<in> set (incident_positions es n rs) \<Longrightarrow> incident n (es ! i)"
  by (auto simp: incident_positions_def by_entity_def by_entity_relation_def split: option.splits if_splits)

lemma other_end_endpoint: "i < length es \<Longrightarrow> other_end n (es ! i) \<in> endpoints es"
  by (auto simp: other_end_def endpoints_def)

definition hop_size :: "gedge list \<Rightarrow> hop_state \<Rightarrow> nat" where
  "hop_size es st = (case st of (visited, queue, collected) \<Rightarrow> 2 * card (endpoints es - fst ` set visited) + length queue)"

lemma finite_endpoints [simp]: "finite (endpoints es)"
  by (simp add: endpoints_def)

lemma expand_hops_size:
  "\<forall>i \<in> set is. i < length (vw_edges vw) \<Longrightarrow> hop_size (vw_edges vw) (expand_hops vw cap current hop is st) \<le> hop_size (vw_edges vw) st"
proof (induction vw cap current hop "is" st rule: expand_hops.induct)
  case (2 vw cap current hop i "is" visited queue collected)
  let ?e = "vw_edges vw ! i"
  let ?n = "other_end current ?e"
  let ?es = "vw_edges vw"
  have mem: "?n \<in> endpoints ?es" using 2(4) by (auto intro: other_end_endpoint)
  have "hop_size ?es (visited @ [(?n, hop + 1)], queue @ [(?n, hop + 1)], c) \<le> hop_size ?es (visited, queue, c')"
    if "?n \<notin> fst ` set visited" for c c'
  proof -
    let ?A = "endpoints ?es - fst ` set visited"
    have "endpoints ?es - fst ` set (visited @ [(?n, hop + 1)]) = ?A - {?n}" by auto
    moreover have A: "?n \<in> ?A" "finite ?A" using that mem by simp_all
    moreover have "0 < card ?A" using A card_gt_0_iff by blast
    ultimately show ?thesis by (simp add: hop_size_def card_Diff_singleton)
  qed
  note push = this
  have same: "hop_size ?es (visited, queue, c) = hop_size ?es (visited, queue, c')" for c c' by (simp add: hop_size_def)
  have rest: "\<forall>i \<in> set is. i < length ?es" using 2(4) by simp
  consider (skip) "wrong_way vw current ?e \<or> \<not> vw_active vw ?e"
    | (full) "\<not> (wrong_way vw current ?e \<or> \<not> vw_active vw ?e)" "case cap of None \<Rightarrow> False | Some c \<Rightarrow> length collected \<ge> c"
    | (old) "\<not> (wrong_way vw current ?e \<or> \<not> vw_active vw ?e)" "\<not> (case cap of None \<Rightarrow> False | Some c \<Rightarrow> length collected \<ge> c)" "?n \<in> fst ` set visited"
    | (new) "\<not> (wrong_way vw current ?e \<or> \<not> vw_active vw ?e)" "\<not> (case cap of None \<Rightarrow> False | Some c \<Rightarrow> length collected \<ge> c)" "?n \<notin> fst ` set visited"
    by blast
  then show ?case
  proof cases
    case skip
    with 2(1) [OF refl _ rest] show ?thesis by (simp add: Let_def)
  next
    case full
    then show ?thesis by (simp add: Let_def)
  next
    case old
    with 2(2) [OF refl old(1,2) refl refl old(3) rest] same [of "collected @ [i]" collected] show ?thesis by (simp add: Let_def split: if_splits)
  next
    case new
    from order_trans [OF 2(3) [OF refl new(1,2) refl refl new(3) rest] push [OF new(3)]] new show ?thesis
      by (simp add: Let_def split: if_splits)
  qed
qed simp


definition hop_step :: "view \<Rightarrow> nat option \<Rightarrow> nat \<Rightarrow> hop_state \<Rightarrow> hop_state" where
  "hop_step vw cap limit st =
     (case st of (visited, queue, collected) \<Rightarrow>
        (let (current, hop) = hd queue in
         if hop \<ge> limit then (visited, tl queue, collected)
         else expand_hops vw cap current hop (incident_positions (vw_edges vw) current (vw_selected vw)) (visited, tl queue, collected)))"

lemma hop_step_size:
  "queue \<noteq> [] \<Longrightarrow> hop_size (vw_edges vw) (hop_step vw cap limit (visited, queue, collected)) < hop_size (vw_edges vw) (visited, queue, collected)"
proof -
  assume ne: "queue \<noteq> []"
  obtain current hop where h: "hd queue = (current, hop)" by fastforce
  have "hop_size (vw_edges vw) (expand_hops vw cap current hop (incident_positions (vw_edges vw) current (vw_selected vw)) (visited, tl queue, collected))
      \<le> hop_size (vw_edges vw) (visited, tl queue, collected)"
    by (rule expand_hops_size) (auto dest: incident_lt)
  moreover have "hop_size (vw_edges vw) (visited, tl queue, collected) < hop_size (vw_edges vw) (visited, queue, collected)"
    using ne by (cases queue) (auto simp: hop_size_def)
  ultimately show ?thesis by (auto simp: hop_step_def h)
qed

function hop_loop :: "view \<Rightarrow> nat option \<Rightarrow> nat \<Rightarrow> hop_state \<Rightarrow> hop_state" where
  "hop_loop vw cap limit (visited, queue, collected) =
     (if queue \<noteq> [] \<and> (case cap of None \<Rightarrow> True | Some c \<Rightarrow> length collected < c)
      then hop_loop vw cap limit (hop_step vw cap limit (visited, queue, collected))
      else (visited, queue, collected))"
  by pat_completeness auto
termination by (relation "measure (\<lambda>(vw, cap, limit, st). hop_size (vw_edges vw) st)") (auto simp: hop_step_size)

declare hop_loop.simps [simp del]

text \<open>The start nodes that exist and are not forgotten, each once.\<close>

definition start_nodes :: "genv \<Rightarrow> graph \<Rightarrow> string list \<Rightarrow> (string \<times> nat) list" where
  "start_nodes env g ids =
     foldl (\<lambda>visited sid.
       let cid = clean_id env sid in
       case map_of (gr_nodes g) cid of
         Some n \<Rightarrow> if \<not> gn_forgotten n \<and> cid \<notin> fst ` set visited then visited @ [(cid, 0)] else visited
       | None \<Rightarrow> visited) [] ids"

record subgraph =
  sg_nodes :: "gnode list"
  sg_edges :: "gedge list"
  sg_distances :: "(string \<times> nat) list"

definition query_view :: "genv \<Rightarrow> int \<Rightarrow> graph \<Rightarrow> string list option \<Rightarrow> string \<Rightarrow> int option \<Rightarrow> int option \<Rightarrow> view" where
  "query_view env clock_now g selected direction moment known =
     \<lparr>vw_edges = gr_edges g, vw_selected = selected, vw_direction = direction,
      vw_active = (\<lambda>e. is_active_edge env clock_now e moment known (if moment = None \<and> known = None then Some clock_now else None))\<rparr>"

definition multi_hop_subgraph ::
  "genv \<Rightarrow> int \<Rightarrow> graph \<Rightarrow> string list \<Rightarrow> int \<Rightarrow> string option \<Rightarrow> int option \<Rightarrow> string option \<Rightarrow> string list option \<Rightarrow> string
     \<Rightarrow> subgraph result" where
  "multi_hop_subgraph env clock_now g ids max_hops as_of max_edges known_at relations direction =
     guard_r (direction \<in> set DIRECTIONS) ValueError (
     bind_r (relation_filter relations) (\<lambda>selected.
     bind_r (opt_moment env as_of) (\<lambda>moment. bind_r (opt_moment env known_at) (\<lambda>known.
       let limit = nat (max 0 (min max_hops MAX_HOPS));
           cap = map_option (\<lambda>m. nat (max 0 m)) max_edges;
           starts = start_nodes env g ids;
           (visited, queue, collected) = hop_loop (query_view env clock_now g selected direction moment known) cap limit (starts, starts, []) in
       Inr \<lparr>sg_nodes = [n. (i, h) \<leftarrow> visited, Some n \<leftarrow> [map_of (gr_nodes g) i]],
            sg_edges = map ((!) (gr_edges g)) collected, sg_distances = visited\<rparr>))))"

section \<open>The shortest path\<close>

record path_state =
  ps_parents :: "(string \<times> (string \<times> nat) option) list"
  ps_queue :: "(string \<times> nat) list"
  ps_examined :: nat
  ps_found :: bool
  ps_exhausted :: string

definition usable :: "graph \<Rightarrow> string \<Rightarrow> bool" where
  "usable g n = (case map_of (gr_nodes g) n of None \<Rightarrow> False | Some x \<Rightarrow> \<not> gn_forgotten x)"

fun expand_path :: "graph \<Rightarrow> view \<Rightarrow> string \<Rightarrow> nat \<Rightarrow> nat \<Rightarrow> string \<Rightarrow> nat \<Rightarrow> nat list \<Rightarrow> path_state \<Rightarrow> path_state" where
  "expand_path g vw target max_nodes max_examined current level [] st = st"
| "expand_path g vw target max_nodes max_examined current level (i # is) st =
     (if ps_examined st \<ge> max_examined then st \<lparr>ps_exhausted := ''edge-budget''\<rparr>
      else
        (let st1 = st \<lparr>ps_examined := ps_examined st + 1\<rparr>;
             e = vw_edges vw ! i;
             neighbor = other_end current e in
         if wrong_way vw current e then expand_path g vw target max_nodes max_examined current level is st1
         else if neighbor \<in> fst ` set (ps_parents st1) \<or> \<not> usable g neighbor
         then expand_path g vw target max_nodes max_examined current level is st1
         else if \<not> vw_active vw e then expand_path g vw target max_nodes max_examined current level is st1
         else if length (ps_parents st1) \<ge> max_nodes then st1 \<lparr>ps_exhausted := ''node-budget''\<rparr>
         else
           (let st2 = st1 \<lparr>ps_parents := ps_parents st1 @ [(neighbor, Some (current, i))]\<rparr> in
            if neighbor = target then st2 \<lparr>ps_found := True\<rparr>
            else expand_path g vw target max_nodes max_examined current level is
                   (st2 \<lparr>ps_queue := ps_queue st2 @ [(neighbor, level + 1)]\<rparr>))))"

definition path_step :: "graph \<Rightarrow> view \<Rightarrow> string \<Rightarrow> nat \<Rightarrow> nat \<Rightarrow> nat \<Rightarrow> path_state \<Rightarrow> path_state" where
  "path_step g vw target max_hops max_nodes max_examined st =
     (let (current, level) = hd (ps_queue st); st' = st \<lparr>ps_queue := tl (ps_queue st)\<rparr> in
      if level \<ge> max_hops then st'
      else expand_path g vw target max_nodes max_examined current level
             (incident_positions (vw_edges vw) current (vw_selected vw)) st')"

definition path_size :: "view \<Rightarrow> path_state \<Rightarrow> nat" where
  "path_size vw st = 2 * card (endpoints (vw_edges vw) - fst ` set (ps_parents st)) + length (ps_queue st)"

lemma path_size_upd [simp]:
  "path_size vw (st \<lparr>ps_examined := x\<rparr>) = path_size vw st" "path_size vw (st \<lparr>ps_exhausted := y\<rparr>) = path_size vw st"
  "path_size vw (st \<lparr>ps_examined := x, ps_exhausted := y\<rparr>) = path_size vw st"
  by (simp_all add: path_size_def)

lemma path_size_push:
  assumes "n \<in> endpoints (vw_edges vw)" "n \<notin> fst ` set (ps_parents st)"
  shows "path_size vw (st \<lparr>ps_parents := ps_parents st @ [(n, p)], ps_queue := ps_queue st @ [(n, d)]\<rparr>) \<le> path_size vw st"
    and "path_size vw (st \<lparr>ps_parents := ps_parents st @ [(n, p)], ps_found := f\<rparr>) \<le> path_size vw st"
proof -
  let ?A = "endpoints (vw_edges vw) - fst ` set (ps_parents st)"
  have eq: "endpoints (vw_edges vw) - fst ` set (ps_parents st @ [(n, p)]) = ?A - {n}" by auto
  have A: "n \<in> ?A" "finite ?A" using assms by simp_all
  then have pos: "0 < card ?A" using card_gt_0_iff by blast
  show "path_size vw (st \<lparr>ps_parents := ps_parents st @ [(n, p)], ps_queue := ps_queue st @ [(n, d)]\<rparr>) \<le> path_size vw st"
    using pos A eq by (simp add: path_size_def card_Diff_singleton)
  show "path_size vw (st \<lparr>ps_parents := ps_parents st @ [(n, p)], ps_found := f\<rparr>) \<le> path_size vw st"
    using pos A eq by (simp add: path_size_def card_Diff_singleton)
qed


lemma expand_path_size:
  "\<forall>i \<in> set is. i < length (vw_edges vw)
   \<Longrightarrow> path_size vw (expand_path g vw target max_nodes max_examined current level is st) \<le> path_size vw st"
proof (induction g vw target max_nodes max_examined current level "is" st rule: expand_path.induct)
  case (2 g vw target max_nodes max_examined current level i "is" st)
  let ?st1 = "st \<lparr>ps_examined := ps_examined st + 1\<rparr>"
  let ?e = "vw_edges vw ! i" let ?n = "other_end current ?e"
  let ?st2 = "?st1 \<lparr>ps_parents := ps_parents ?st1 @ [(?n, Some (current, i))]\<rparr>"
  have rest: "\<forall>i \<in> set is. i < length (vw_edges vw)" and mem: "?n \<in> endpoints (vw_edges vw)"
    using 2(5) by (auto intro: other_end_endpoint)
  consider (budget) "ps_examined st \<ge> max_examined"
    | (wrong) "\<not> ps_examined st \<ge> max_examined" "wrong_way vw current ?e"
    | (known) "\<not> ps_examined st \<ge> max_examined" "\<not> wrong_way vw current ?e" "?n \<in> fst ` set (ps_parents ?st1) \<or> \<not> usable g ?n"
    | (inactive) "\<not> ps_examined st \<ge> max_examined" "\<not> wrong_way vw current ?e" "\<not> (?n \<in> fst ` set (ps_parents ?st1) \<or> \<not> usable g ?n)"
        "\<not> vw_active vw ?e"
    | (nodes) "\<not> ps_examined st \<ge> max_examined" "\<not> wrong_way vw current ?e" "\<not> (?n \<in> fst ` set (ps_parents ?st1) \<or> \<not> usable g ?n)"
        "\<not> \<not> vw_active vw ?e" "length (ps_parents ?st1) \<ge> max_nodes"
    | (found) "\<not> ps_examined st \<ge> max_examined" "\<not> wrong_way vw current ?e" "\<not> (?n \<in> fst ` set (ps_parents ?st1) \<or> \<not> usable g ?n)"
        "\<not> \<not> vw_active vw ?e" "\<not> length (ps_parents ?st1) \<ge> max_nodes" "?n = target"
    | (push) "\<not> ps_examined st \<ge> max_examined" "\<not> wrong_way vw current ?e" "\<not> (?n \<in> fst ` set (ps_parents ?st1) \<or> \<not> usable g ?n)"
        "\<not> \<not> vw_active vw ?e" "\<not> length (ps_parents ?st1) \<ge> max_nodes" "?n \<noteq> target"
    by blast
  then show ?case
  proof cases
    case budget
    then show ?thesis by simp
  next
    case wrong
    with 2(1) [OF wrong(1) refl refl refl wrong(2) rest] show ?thesis by (simp add: Let_def)
  next
    case known
    with 2(2) [OF known(1) refl refl refl known(2,3) rest] show ?thesis by (simp add: Let_def)
  next
    case inactive
    with 2(3) [OF inactive(1) refl refl refl inactive(2,3,4) rest] show ?thesis by (simp add: Let_def)
  next
    case nodes
    then show ?thesis by (simp add: Let_def)
  next
    case found
    have "path_size vw (?st2 \<lparr>ps_found := True\<rparr>) \<le> path_size vw ?st1"
      using path_size_push(2) [OF mem, where st = ?st1 and p = "Some (current, i)" and f = True] found(3) by simp
    with found show ?thesis by (simp add: Let_def)
  next
    case push
    have "path_size vw (?st2 \<lparr>ps_queue := ps_queue ?st2 @ [(?n, level + 1)]\<rparr>) \<le> path_size vw ?st1"
      using path_size_push(1) [OF mem, where st = ?st1 and p = "Some (current, i)" and d = "level + 1"] push(3) by simp
    with 2(4) [OF push(1) refl refl refl push(2,3,4,5) refl push(6) rest] push show ?thesis
      by (simp add: Let_def)
  qed
qed simp

lemma path_step_size:
  assumes "ps_queue st \<noteq> []"
  shows "path_size vw (path_step g vw target max_hops max_nodes max_examined st) < path_size vw st"
proof -
  obtain current level where h: "hd (ps_queue st) = (current, level)" by fastforce
  let ?st = "st \<lparr>ps_queue := tl (ps_queue st)\<rparr>"
  have "path_size vw (expand_path g vw target max_nodes max_examined current level
      (incident_positions (vw_edges vw) current (vw_selected vw)) ?st) \<le> path_size vw ?st"
    by (rule expand_path_size) (auto dest: incident_lt)
  moreover have "path_size vw ?st < path_size vw st" using assms by (cases "ps_queue st") (auto simp: path_size_def)
  ultimately show ?thesis by (auto simp: path_step_def h Let_def)
qed

function path_loop :: "graph \<Rightarrow> view \<Rightarrow> string \<Rightarrow> nat \<Rightarrow> nat \<Rightarrow> nat \<Rightarrow> path_state \<Rightarrow> path_state" where
  "path_loop g vw target max_hops max_nodes max_examined st =
     (if ps_queue st \<noteq> [] \<and> \<not> ps_found st \<and> ps_exhausted st = []
      then path_loop g vw target max_hops max_nodes max_examined (path_step g vw target max_hops max_nodes max_examined st)
      else st)"
  by pat_completeness auto
termination
  by (relation "measure (\<lambda>(g, vw, target, max_hops, max_nodes, max_examined, st). path_size vw st)") (auto simp: path_step_size)

declare path_loop.simps [simp del]

text \<open>Following the parents back from the target; the table's length is fuel enough.\<close>

fun trace_back :: "nat \<Rightarrow> (string \<times> (string \<times> nat) option) list \<Rightarrow> string list \<Rightarrow> nat list \<Rightarrow> (string list \<times> nat list) option" where
  "trace_back 0 parents identities positions = None"
| "trace_back (Suc fuel) parents identities positions =
     (case map_of parents (hd identities) of
        None \<Rightarrow> None
      | Some None \<Rightarrow> Some (identities, positions)
      | Some (Some (previous, i)) \<Rightarrow> trace_back fuel parents (previous # identities) (i # positions))"

text \<open>The lists grow at the front, so that the reversals at the end of the source are not needed.\<close>

record path_result =
  pt_status :: string
  pt_reason :: string
  pt_nodes :: "string list"
  pt_edges :: "nat list"
  pt_steps :: "(string \<times> string \<times> string) list"
  pt_visited :: nat
  pt_examined :: nat

definition bounded_arg :: "int \<Rightarrow> int \<Rightarrow> int \<Rightarrow> bool" where
  "bounded_arg v lo hi \<longleftrightarrow> lo \<le> v \<and> v \<le> hi"

definition search_path :: "graph \<Rightarrow> view \<Rightarrow> string \<Rightarrow> string \<Rightarrow> nat \<Rightarrow> nat \<Rightarrow> nat \<Rightarrow> path_result" where
  "search_path g vw source target max_hops max_nodes max_examined =
     (let none = \<lparr>pt_status = ''not-found'', pt_reason = [], pt_nodes = [], pt_edges = [], pt_steps = [], pt_visited = 0, pt_examined = 0\<rparr> in
      if \<not> (usable g source \<and> usable g target) then none \<lparr>pt_reason := ''missing-or-forgotten-endpoint''\<rparr>
      else
        (let st = path_loop g vw target max_hops max_nodes max_examined
               \<lparr>ps_parents = [(source, None)], ps_queue = [(source, 0)], ps_examined = 0, ps_found = (source = target), ps_exhausted = []\<rparr>;
             r = none \<lparr>pt_visited := length (ps_parents st), pt_examined := ps_examined st\<rparr> in
         if ps_exhausted st \<noteq> [] then r \<lparr>pt_status := ''budget-exhausted'', pt_reason := ps_exhausted st\<rparr>
         else if ps_found st then
           (case trace_back (length (ps_parents st)) (ps_parents st) [target] [] of
              None \<Rightarrow> r
            | Some (ids, ps) \<Rightarrow>
                r \<lparr>pt_status := ''found'', pt_nodes := ids, pt_edges := ps,
                   pt_steps := map (\<lambda>k. (ids ! k, ids ! (k + 1),
                     if ge_source (vw_edges vw ! (ps ! k)) = ids ! k then ''out'' else ''in'')) [0 ..< length ps]\<rparr>)
         else r \<lparr>pt_reason := ''no-path-within-hop-limit''\<rparr>))"

definition shortest_path ::
  "genv \<Rightarrow> int \<Rightarrow> graph \<Rightarrow> string \<Rightarrow> string \<Rightarrow> int \<Rightarrow> string list option \<Rightarrow> string \<Rightarrow> string option \<Rightarrow> string option \<Rightarrow> int \<Rightarrow> int
     \<Rightarrow> path_result result" where
  "shortest_path env clock_now g source target max_hops relations direction as_of known_at max_nodes max_examined =
     guard_r (bounded_arg max_hops 0 MAX_HOPS \<and> bounded_arg max_nodes 1 100000 \<and> bounded_arg max_examined 1 1000000) ValueError (
     guard_r (direction \<in> set DIRECTIONS) ValueError (
     bind_r (relation_filter relations) (\<lambda>selected.
     bind_r (opt_moment env as_of) (\<lambda>moment. bind_r (opt_moment env known_at) (\<lambda>known.
       Inr (search_path g (query_view env clock_now g selected direction moment known) (clean_id env source) (clean_id env target)
              (nat max_hops) (nat max_nodes) (nat max_examined)))))))"

section \<open>Intervals and timelines\<close>

definition edge_end :: "genv \<Rightarrow> gedge \<Rightarrow> int option" where
  "edge_end env e =
     (let ms = [t. Some t \<leftarrow> map (moment_at env) [ge_invalid e, ge_expired e]] in
      if ms = [] then None else Some (Min (set ms)))"

definition in_interval :: "genv \<Rightarrow> int option \<Rightarrow> int option \<Rightarrow> gedge \<Rightarrow> bool result" where
  "in_interval env lo hi e =
     bind_r (parse_moment env (edge_begin e)) (\<lambda>begins.
       Inr (\<not> (case hi of None \<Rightarrow> False | Some h \<Rightarrow> begins > h)
         \<and> \<not> (case (lo, edge_end env e) of (Some l, Some f) \<Rightarrow> f \<le> l | _ \<Rightarrow> False)))"

definition MIN_MOMENT :: int where
  "MIN_MOMENT = - 62135596800000000"

text \<open>The candidates come from the smallest index that applies.\<close>

definition begin_key :: "genv \<Rightarrow> gedge \<Rightarrow> int" where
  "begin_key env e = (case parse_moment env (edge_begin e) of Inl _ \<Rightarrow> MIN_MOMENT | Inr t \<Rightarrow> t)"

definition interval_candidates :: "genv \<Rightarrow> gedge list \<Rightarrow> int option \<Rightarrow> string option \<Rightarrow> string option \<Rightarrow> nat list" where
  "interval_candidates env es hi relation ent =
     (case (ent, relation) of
        (Some n, Some r) \<Rightarrow> if length (by_entity es n) \<le> length (by_relation es r) then by_entity es n else by_relation es r
      | (Some n, None) \<Rightarrow> by_entity es n
      | (None, Some r) \<Rightarrow> by_relation es r
      | (None, None) \<Rightarrow>
          (case hi of
             None \<Rightarrow> [0 ..< length es]
           | Some h \<Rightarrow> takeWhile (\<lambda>i. begin_key env (es ! i) \<le> h) (sort_key (\<lambda>i. begin_key env (es ! i)) [0 ..< length es])))"

definition edges_between ::
  "genv \<Rightarrow> graph \<Rightarrow> string option \<Rightarrow> string option \<Rightarrow> string option \<Rightarrow> string option \<Rightarrow> gedge list result" where
  "edges_between env g first_text last_text relation entity =
     bind_r (opt_moment env first_text) (\<lambda>lo. bind_r (opt_moment env last_text) (\<lambda>hi.
     guard_r (\<not> (case (lo, hi) of (Some l, Some h) \<Rightarrow> h < l | _ \<Rightarrow> False)) ValueError (
       let es = gr_edges g;
           ent = map_option (clean_id env) (or_text entity None);
           cand = filter (\<lambda>i. \<not> (case relation of Some r \<Rightarrow> r \<noteq> [] \<and> ge_relation (es ! i) \<noteq> r | None \<Rightarrow> False)
                    \<and> \<not> (case ent of Some n \<Rightarrow> n \<noteq> [] \<and> \<not> incident n (es ! i) | None \<Rightarrow> False))
                    (interval_candidates env es hi relation ent) in
       bind_r (map_r (\<lambda>i. bind_r (in_interval env lo hi (es ! i)) (\<lambda>b. Inr (es ! i, b))) cand) (\<lambda>rows.
         Inr (sort_key edge_begin [e. (e, b) \<leftarrow> rows, b])))))"

record timeline_event =
  te_source :: string
  te_relation :: string
  te_target :: string
  te_at :: string
  te_event :: string
  te_reason :: string
  te_recorded :: string

definition event_of :: "gedge \<Rightarrow> string \<Rightarrow> string \<Rightarrow> string \<Rightarrow> string \<Rightarrow> timeline_event" where
  "event_of e moment_text event why recorded =
     \<lparr>te_source = ge_source e, te_relation = ge_relation e, te_target = ge_target e, te_at = moment_text, te_event = event,
      te_reason = why, te_recorded = recorded\<rparr>"

definition field_or_empty :: "gedge \<Rightarrow> string \<Rightarrow> string" where
  "field_or_empty e k = (case text_field (ge_properties e) k of Some s \<Rightarrow> s | None \<Rightarrow> [])"

definition edge_events :: "genv \<Rightarrow> gedge \<Rightarrow> ((int \<times> bool) \<times> timeline_event) list result" where
  "edge_events env e =
     bind_r (parse_moment env (edge_begin e)) (\<lambda>begins.
     bind_r (case or_text (ge_invalid e) None of
               None \<Rightarrow> Inr []
             | Some v \<Rightarrow> bind_r (parse_moment env v) (\<lambda>t. Inr [((t, False), event_of e v ''ended''
                 (field_or_empty e ''closed_reason'') (field_or_empty e ''closed_recorded_at''))])) (\<lambda>ended.
     bind_r (case or_text (ge_expired e) None of
               None \<Rightarrow> Inr []
             | Some v \<Rightarrow> if Some v = ge_invalid e then Inr []
                         else bind_r (parse_moment env v) (\<lambda>t. Inr [((t, False), event_of e v ''expired''
                                (field_or_empty e ''expired_reason'') (ge_created e))])) (\<lambda>expired.
       Inr (((begins, True), event_of e (edge_begin e) ''began'' [] (ge_created e)) # ended @ expired))))"

definition timeline :: "genv \<Rightarrow> graph \<Rightarrow> string \<Rightarrow> timeline_event list result" where
  "timeline env g entity =
     bind_r (map_r (\<lambda>i. edge_events env (gr_edges g ! i)) (by_entity (gr_edges g) (clean_id env entity))) (\<lambda>ess.
       Inr (map snd (sort_key (\<lambda>((t, b), ev). 2 * t + of_bool b) (concat ess))))"


section \<open>Breadth-first search finds shortest paths\<close>

definition hop :: "graph \<Rightarrow> view \<Rightarrow> string \<Rightarrow> nat \<Rightarrow> string \<Rightarrow> bool" where
  "hop g vw u i v \<longleftrightarrow> i \<in> set (incident_positions (vw_edges vw) u (vw_selected vw)) \<and> \<not> wrong_way vw u (vw_edges vw ! i)
     \<and> v = other_end u (vw_edges vw ! i) \<and> usable g v \<and> vw_active vw (vw_edges vw ! i)"

text \<open>The nodes that an eligible walk of exactly \<open>n\<close> hops reaches.\<close>

fun reached :: "graph \<Rightarrow> view \<Rightarrow> string \<Rightarrow> nat \<Rightarrow> string set" where
  "reached g vw source 0 = {source}"
| "reached g vw source (Suc n) = {v. \<exists>u \<in> reached g vw source n. \<exists>i. hop g vw u i v}"

definition keys_of :: "path_state \<Rightarrow> string set" where
  "keys_of st = fst ` set (ps_parents st)"

lemma keys_of_upd: "keys_of (st \<lparr>ps_examined := x\<rparr>) = keys_of st" "keys_of (st \<lparr>ps_queue := q\<rparr>) = keys_of st"
  by (simp_all add: keys_of_def)

text \<open>
  The invariant: every entry but the source's comes from an earlier one by a hop, one level deeper;
  the queue holds nodes of two adjacent levels in order.
\<close>

definition bfs_tree :: "graph \<Rightarrow> view \<Rightarrow> string \<Rightarrow> (string \<Rightarrow> nat) \<Rightarrow> (string \<times> (string \<times> nat) option) list \<Rightarrow> bool" where
  "bfs_tree g vw source d ps \<longleftrightarrow> distinct (map fst ps) \<and> source \<in> fst ` set ps \<and> d source = 0
     \<and> (\<forall>v. (v, None) \<in> set ps \<longrightarrow> v = source)
     \<and> (\<forall>v u i. (v, Some (u, i)) \<in> set ps \<longrightarrow> u \<in> fst ` set ps \<and> hop g vw u i v \<and> d v = Suc (d u))
     \<and> (\<forall>k < length ps. d (fst (ps ! k)) \<le> k)"

definition queue_ok :: "(string \<Rightarrow> nat) \<Rightarrow> string set \<Rightarrow> (string \<times> nat) list \<Rightarrow> bool" where
  "queue_ok d ks q \<longleftrightarrow> (\<forall>(v, l) \<in> set q. v \<in> ks \<and> l = d v) \<and> sorted (map snd q) \<and> distinct (map fst q)
     \<and> (q \<noteq> [] \<longrightarrow> (\<forall>v \<in> ks. d v \<le> Suc (snd (hd q))))"

definition closed_at :: "graph \<Rightarrow> view \<Rightarrow> nat \<Rightarrow> (string \<Rightarrow> nat) \<Rightarrow> string set \<Rightarrow> string \<Rightarrow> bool" where
  "closed_at g vw max_hops d ks u \<longleftrightarrow> (d u < max_hops \<longrightarrow> (\<forall>i v. hop g vw u i v \<longrightarrow> v \<in> ks \<and> d v \<le> Suc (d u)))"

definition search_ok :: "graph \<Rightarrow> view \<Rightarrow> string \<Rightarrow> string \<Rightarrow> nat \<Rightarrow> (string \<Rightarrow> nat) \<Rightarrow> path_state \<Rightarrow> bool" where
  "search_ok g vw source target max_hops d st \<longleftrightarrow>
     bfs_tree g vw source d (ps_parents st) \<and> queue_ok d (keys_of st) (ps_queue st)
     \<and> (\<forall>v \<in> keys_of st. v \<notin> fst ` set (ps_queue st) \<longrightarrow> closed_at g vw max_hops d (keys_of st) v)
     \<and> target \<notin> keys_of st"

text \<open>Everything within the level of the queue's head is already in the table.\<close>

lemma reached_known:
  assumes "search_ok g vw source target max_hops d st" "n \<le> max_hops"
    and "\<forall>(v, l) \<in> set (ps_queue st). n \<le> l"
  shows "v \<in> reached g vw source n \<Longrightarrow> v \<in> keys_of st \<and> d v \<le> n"
  using assms(2,3)
proof (induction n arbitrary: v)
  case 0
  then show ?case using assms(1) by (auto simp: search_ok_def bfs_tree_def keys_of_def)
next
  case (Suc n)
  then obtain u i where u: "u \<in> reached g vw source n" "hop g vw u i v" by auto
  have ih: "u \<in> keys_of st" "d u \<le> n" using Suc u(1) by fastforce+
  have "u \<notin> fst ` set (ps_queue st)"
  proof
    assume "u \<in> fst ` set (ps_queue st)"
    then obtain l where l: "(u, l) \<in> set (ps_queue st)" by force
    then have "l = d u" using assms(1) by (auto simp: search_ok_def queue_ok_def)
    with l Suc.prems(3) ih show False by force
  qed
  then have "closed_at g vw max_hops d (keys_of st) u" using assms(1) ih(1) by (simp add: search_ok_def)
  with u(2) ih(2) Suc.prems(2) show ?case by (force simp: closed_at_def)
qed

text \<open>During an expansion: the positions still to come cover the hops not yet in the table.\<close>

definition expanding ::
  "graph \<Rightarrow> view \<Rightarrow> string \<Rightarrow> string \<Rightarrow> nat \<Rightarrow> (string \<Rightarrow> nat) \<Rightarrow> string \<Rightarrow> nat list \<Rightarrow> path_state \<Rightarrow> bool" where
  "expanding g vw source target max_hops d current is st \<longleftrightarrow>
     bfs_tree g vw source d (ps_parents st) \<and> target \<notin> keys_of st \<and> current \<in> keys_of st \<and> d current < max_hops
     \<and> current \<notin> fst ` set (ps_queue st)
     \<and> (\<forall>(v, l) \<in> set (ps_queue st). v \<in> keys_of st \<and> l = d v \<and> d current \<le> l \<and> l \<le> Suc (d current))
     \<and> sorted (map snd (ps_queue st)) \<and> distinct (map fst (ps_queue st))
     \<and> (\<forall>v \<in> keys_of st. d v \<le> Suc (d current))
     \<and> (\<forall>v \<in> keys_of st. v \<notin> fst ` set (ps_queue st) \<and> v \<noteq> current \<longrightarrow> closed_at g vw max_hops d (keys_of st) v)
     \<and> (\<forall>i v. hop g vw current i v \<longrightarrow> i \<in> set is \<or> v \<in> keys_of st)"


lemma bfs_tree_push:
  assumes "bfs_tree g vw source d ps" "u \<in> fst ` set ps" "hop g vw u i v" "v \<notin> fst ` set ps"
  shows "bfs_tree g vw source (d(v := Suc (d u))) (ps @ [(v, Some (u, i))])"
proof -
  from assms(2) obtain k where k: "k < length ps" "fst (ps ! k) = u" by (metis (no_types, lifting) image_iff in_set_conv_nth)
  have "d u \<le> k" using assms(1) k unfolding bfs_tree_def by blast
  then have du: "Suc (d u) \<le> length ps" using k by simp
  have ne: "fst (ps ! j) \<noteq> v" if "j < length ps" for j using assms(4) that by (metis image_eqI nth_mem)
  have uv: "source \<noteq> v" "u \<noteq> v" using assms by (auto simp: bfs_tree_def)
  have fresh: "w \<noteq> v" if "w \<in> fst ` set ps" for w using that assms(4) by blast
  have from_old: "w' \<in> fst ` set ps \<and> hop g vw w' j w \<and> d w = Suc (d w')" if "(w, Some (w', j)) \<in> set ps" for w w' j
    using assms(1) that unfolding bfs_tree_def by blast
  have "w' \<in> fst ` set (ps @ [(v, Some (u, i))]) \<and> hop g vw w' j w \<and> (d(v := Suc (d u))) w = Suc ((d(v := Suc (d u))) w')"
    if "(w, Some (w', j)) \<in> set (ps @ [(v, Some (u, i))])" for w w' j
  proof (cases "(w, Some (w', j)) \<in> set ps")
    case True
    then have "w \<in> fst ` set ps" by force
    with from_old [OF True] fresh show ?thesis by auto
  next
    case False
    with that assms(2,3) uv show ?thesis by auto
  qed
  moreover have "(d(v := Suc (d u))) (fst ((ps @ [(v, Some (u, i))]) ! j)) \<le> j" if "j < length (ps @ [(v, Some (u, i))])" for j
    using assms(1) du ne that unfolding bfs_tree_def by (cases "j = length ps") (auto simp: nth_append)
  moreover have "distinct (map fst ps)" "source \<in> fst ` set ps" "d source = 0" "\<And>w. (w, None) \<in> set ps \<Longrightarrow> w = source"
    using assms(1) by (simp_all add: bfs_tree_def)
  ultimately show ?thesis using assms(4) uv unfolding bfs_tree_def by simp
qed

definition found_ok :: "graph \<Rightarrow> view \<Rightarrow> string \<Rightarrow> string \<Rightarrow> nat \<Rightarrow> path_state \<Rightarrow> bool" where
  "found_ok g vw source target max_hops st \<longleftrightarrow>
     (\<exists>d. bfs_tree g vw source d (ps_parents st) \<and> target \<in> keys_of st \<and> d target \<le> max_hops
        \<and> (\<forall>n < d target. target \<notin> reached g vw source n))"

lemma expanding_push:
  assumes "expanding g vw source target max_hops d current (i # is) st" "hop g vw current i v" "v \<notin> keys_of st" "v \<noteq> target"
  shows "expanding g vw source target max_hops (d(v := Suc (d current))) current is
    (st \<lparr>ps_examined := x, ps_parents := ps_parents st @ [(v, Some (current, i))], ps_queue := ps_queue st @ [(v, Suc (d current))]\<rparr>)"
proof -
  let ?d = "d(v := Suc (d current))"
  let ?st = "st \<lparr>ps_examined := x, ps_parents := ps_parents st @ [(v, Some (current, i))], ps_queue := ps_queue st @ [(v, Suc (d current))]\<rparr>"
  have keys: "keys_of ?st = insert v (keys_of st)" by (auto simp: keys_of_def)
  have tree: "bfs_tree g vw source ?d (ps_parents ?st)"
    using assms bfs_tree_push [of g vw source d "ps_parents st" current i v] by (simp add: expanding_def keys_of_def)
  have cur: "current \<in> keys_of st" "current \<noteq> v" using assms by (auto simp: expanding_def)
  have queue: "\<forall>(w, l) \<in> set (ps_queue st). w \<in> keys_of st \<and> l = d w \<and> d current \<le> l \<and> l \<le> Suc (d current)"
    using assms(1) by (simp add: expanding_def)
  then have vq: "v \<notin> fst ` set (ps_queue st)" using assms(3) by force
  have q1: "\<forall>(w, l) \<in> set (ps_queue ?st). w \<in> keys_of ?st \<and> l = ?d w \<and> ?d current \<le> l \<and> l \<le> Suc (?d current)"
    using queue assms(3) cur(2) by (auto simp: keys)
  have q2: "sorted (map snd (ps_queue ?st))" "distinct (map fst (ps_queue ?st))"
    using assms(1) queue vq by (auto simp: expanding_def sorted_append)
  have levels: "\<forall>w \<in> keys_of ?st. ?d w \<le> Suc (?d current)" using assms(1) cur(2) by (auto simp: expanding_def keys)
  have closed: "closed_at g vw max_hops ?d (keys_of ?st) w"
    if "w \<in> keys_of ?st" "w \<notin> fst ` set (ps_queue ?st)" "w \<noteq> current" for w
  proof -
    have w: "w \<in> keys_of st" "w \<notin> fst ` set (ps_queue st)" "w \<noteq> v" using that by (auto simp: keys)
    then have "closed_at g vw max_hops d (keys_of st) w" using assms(1) that(3) by (simp add: expanding_def)
    then show ?thesis using w assms(3) by (auto simp: closed_at_def keys)
  qed
  have hops: "j \<in> set is \<or> w \<in> keys_of ?st" if "hop g vw current j w" for j w
  proof (cases "j = i")
    case True
    then have "w = v" using that assms(2) by (simp add: hop_def)
    then show ?thesis by (simp add: keys)
  next
    case False
    then show ?thesis using assms(1) that by (auto simp: expanding_def keys)
  qed
  show ?thesis
    unfolding expanding_def using assms(1,4) cur tree q1 q2 levels closed hops vq
    by (simp add: expanding_def keys)
qed

lemma expanding_skip:
  assumes "expanding g vw source target max_hops d current (i # is) st"
    and "\<And>v. hop g vw current i v \<Longrightarrow> v \<in> keys_of st"
  shows "expanding g vw source target max_hops d current is (st \<lparr>ps_examined := x\<rparr>)"
proof -
  have hops: "j \<in> set is \<or> w \<in> keys_of st" if "hop g vw current j w" for j w
    using assms that by (cases "j = i") (auto simp: expanding_def)
  then show ?thesis using assms(1) by (simp add: expanding_def keys_of_upd)
qed

lemma expand_path_ok:
  assumes "expanding g vw source target max_hops d current is st" "\<not> ps_found st" "ps_exhausted st = []"
    and "set is \<subseteq> set (incident_positions (vw_edges vw) current (vw_selected vw))"
    and "\<forall>n \<le> d current. target \<notin> reached g vw source n"
  shows "let st' = expand_path g vw target max_nodes max_examined current (d current) is st in
    ps_exhausted st' \<noteq> []
    \<or> (ps_exhausted st' = [] \<and> ps_found st' \<and> found_ok g vw source target max_hops st')
    \<or> (ps_exhausted st' = [] \<and> \<not> ps_found st' \<and> (\<exists>d'. expanding g vw source target max_hops d' current [] st'))"
  using assms
proof (induction "is" arbitrary: st d)
  case Nil
  then show ?case by (auto simp: Let_def)
next
  case (Cons i "is")
  let ?e = "vw_edges vw ! i" let ?n = "other_end current ?e"
  let ?st1 = "st \<lparr>ps_examined := ps_examined st + 1\<rparr>"
  have sub: "set is \<subseteq> set (incident_positions (vw_edges vw) current (vw_selected vw))" using Cons.prems(4) by simp
  have ks: "fst ` set (ps_parents ?st1) = keys_of st" by (simp add: keys_of_def)
  have skip: ?case if "\<And>v. hop g vw current i v \<Longrightarrow> v \<in> keys_of st" "\<not> ps_examined st \<ge> max_examined"
      "wrong_way vw current ?e \<or> ?n \<in> keys_of st \<or> \<not> usable g ?n \<or> \<not> vw_active vw ?e"
  proof -
    have "expand_path g vw target max_nodes max_examined current (d current) (i # is) st
        = expand_path g vw target max_nodes max_examined current (d current) is ?st1"
      using that(2,3) by (auto simp: Let_def keys_of_def)
    with Cons.IH [OF expanding_skip [OF Cons.prems(1) that(1)] _ _ sub] Cons.prems(2,3,5) show ?thesis by simp
  qed
  show ?case
  proof (cases "ps_examined st \<ge> max_examined")
    case True
    then show ?thesis by simp
  next
    case budget: False
    show ?thesis
    proof (cases "hop g vw current i ?n \<and> ?n \<notin> keys_of st")
      case False
      have "v \<in> keys_of st" if "hop g vw current i v" for v using that False by (auto simp: hop_def)
      moreover have "wrong_way vw current ?e \<or> ?n \<in> keys_of st \<or> \<not> usable g ?n \<or> \<not> vw_active vw ?e"
        using False Cons.prems(4) by (auto simp: hop_def)
      ultimately show ?thesis using skip budget by blast
    next
      case True
      then have free: "\<not> wrong_way vw current ?e" "\<not> (?n \<in> keys_of st \<or> \<not> usable g ?n)" "vw_active vw ?e" by (auto simp: hop_def)
      show ?thesis
      proof (cases "length (ps_parents st) \<ge> max_nodes")
        case True
        then show ?thesis using budget free by (simp add: Let_def keys_of_def)
      next
        case nodes: False
        let ?st2 = "?st1 \<lparr>ps_parents := ps_parents st @ [(?n, Some (current, i))]\<rparr>"
        show ?thesis
        proof (cases "?n = target")
          case True
          have "bfs_tree g vw source (d(?n := Suc (d current))) (ps_parents st @ [(?n, Some (current, i))])"
            using Cons.prems(1) \<open>hop g vw current i ?n \<and> ?n \<notin> keys_of st\<close>
            by (intro bfs_tree_push) (auto simp: expanding_def keys_of_def)
          moreover have "d current < max_hops" using Cons.prems(1) by (simp add: expanding_def)
          ultimately have "found_ok g vw source target max_hops (?st2 \<lparr>ps_found := True\<rparr>)"
            using Cons.prems(5) True unfolding found_ok_def
            by (intro exI [of _ "d(?n := Suc (d current))"]) (auto simp: keys_of_def less_Suc_eq_le)
          with True budget free nodes Cons.prems(3) show ?thesis by (simp add: Let_def keys_of_def)
        next
          case False
          let ?d = "d(?n := Suc (d current))"
          have cur: "?d current = d current" using Cons.prems(1) \<open>hop g vw current i ?n \<and> ?n \<notin> keys_of st\<close> by (auto simp: expanding_def)
          have "expanding g vw source target max_hops ?d current is (?st2 \<lparr>ps_queue := ps_queue st @ [(?n, Suc (d current))]\<rparr>)"
            using expanding_push [OF Cons.prems(1) _ _ False, of "ps_examined st + 1"] \<open>hop g vw current i ?n \<and> ?n \<notin> keys_of st\<close> by simp
          from Cons.IH [OF this _ _ sub] Cons.prems(2,3,5) cur False budget free nodes show ?thesis
            by (simp add: Let_def keys_of_def)
        qed
      qed
    qed
  qed
qed


lemma expanding_done:
  assumes "expanding g vw source target max_hops d current [] st"
  shows "search_ok g vw source target max_hops d st"
proof -
  have "closed_at g vw max_hops d (keys_of st) current" using assms by (auto simp: expanding_def closed_at_def)
  then have "closed_at g vw max_hops d (keys_of st) v" if "v \<in> keys_of st" "v \<notin> fst ` set (ps_queue st)" for v
    using assms that by (cases "v = current") (auto simp: expanding_def)
  moreover have "queue_ok d (keys_of st) (ps_queue st)"
  proof -
    have "d v \<le> Suc (snd (hd (ps_queue st)))" if "ps_queue st \<noteq> []" "v \<in> keys_of st" for v
    proof -
      obtain w l where h: "hd (ps_queue st) = (w, l)" by fastforce
      then have "(w, l) \<in> set (ps_queue st)" using that(1) by (metis hd_in_set)
      then have "d current \<le> l" using assms by (auto simp: expanding_def)
      moreover have "d v \<le> Suc (d current)" using assms that(2) by (simp add: expanding_def)
      ultimately show ?thesis using h by simp
    qed
    then show ?thesis using assms by (auto simp: expanding_def queue_ok_def)
  qed
  ultimately show ?thesis using assms by (simp add: search_ok_def expanding_def)
qed

lemma path_step_ok:
  assumes "search_ok g vw source target max_hops d st" "ps_queue st \<noteq> []" "\<not> ps_found st" "ps_exhausted st = []"
  shows "let st' = path_step g vw target max_hops max_nodes max_examined st in
    ps_exhausted st' \<noteq> []
    \<or> (ps_exhausted st' = [] \<and> ps_found st' \<and> found_ok g vw source target max_hops st')
    \<or> (ps_exhausted st' = [] \<and> \<not> ps_found st' \<and> (\<exists>d'. search_ok g vw source target max_hops d' st'))"
proof -
  obtain current l rest where q: "ps_queue st = (current, l) # rest" using assms(2) by (cases "ps_queue st") auto
  let ?st = "st \<lparr>ps_queue := rest\<rparr>"
  have tree: "bfs_tree g vw source d (ps_parents st)" and tgt: "target \<notin> keys_of st"
    using assms(1) by (simp_all add: search_ok_def)
  have qok: "current \<in> keys_of st" "l = d current" "sorted (map snd rest)" "current \<notin> fst ` set rest" "distinct (map fst rest)"
    "\<forall>(v, m) \<in> set rest. v \<in> keys_of st \<and> m = d v \<and> l \<le> m" "\<forall>v \<in> keys_of st. d v \<le> Suc l"
    using assms(1) by (auto simp: search_ok_def queue_ok_def q)
  have closed: "closed_at g vw max_hops d (keys_of st) v" if "v \<in> keys_of st" "v \<notin> fst ` set rest" "v \<noteq> current" for v
    using assms(1) that by (auto simp: search_ok_def q)
  show ?thesis
  proof (cases "l \<ge> max_hops")
    case True
    have "closed_at g vw max_hops d (keys_of st) current" using True qok(2) by (simp add: closed_at_def)
    then have "closed_at g vw max_hops d (keys_of st) v" if "v \<in> keys_of st" "v \<notin> fst ` set rest" for v
      using closed that by (cases "v = current") auto
    moreover have "queue_ok d (keys_of st) rest"
    proof -
      have "d v \<le> Suc (snd (hd rest))" if "rest \<noteq> []" "v \<in> keys_of st" for v
      proof -
        obtain w m where h: "hd rest = (w, m)" by fastforce
        then have "(w, m) \<in> set rest" using that(1) by (metis hd_in_set)
        then have "l \<le> m" using qok(6) by auto
        moreover have "d v \<le> Suc l" using qok(7) that(2) by blast
        ultimately show ?thesis using h by simp
      qed
      moreover have "\<forall>(v, m) \<in> set rest. v \<in> keys_of st \<and> m = d v" using qok(6) by auto
      ultimately show ?thesis using qok(3,5) by (simp add: queue_ok_def)
    qed
    ultimately have "search_ok g vw source target max_hops d ?st"
      using tree tgt by (simp add: search_ok_def keys_of_upd)
    with True assms(3,4) show ?thesis by (auto simp: path_step_def q Let_def)
  next
    case False
    have "expanding g vw source target max_hops d current (incident_positions (vw_edges vw) current (vw_selected vw)) ?st"
      using tree tgt qok closed False by (auto simp: expanding_def keys_of_upd hop_def)
    moreover have "\<forall>n \<le> d current. target \<notin> reached g vw source n"
    proof (intro allI impI notI)
      fix n assume n: "n \<le> d current" "target \<in> reached g vw source n"
      have "n \<le> max_hops" using n(1) False qok(2) by simp
      moreover have "\<forall>(v, m) \<in> set (ps_queue st). n \<le> m" using n(1) qok(2,6) by (auto simp: q)
      ultimately show False using reached_known [OF assms(1) _ _ n(2)] tgt by simp
    qed
    ultimately show ?thesis
      using expand_path_ok [of g vw source target max_hops d current _ ?st max_nodes max_examined] assms(3,4) False qok(2)
      by (auto simp: path_step_def q Let_def dest: expanding_done)
  qed
qed

lemma path_loop_ok:
  assumes "search_ok g vw source target max_hops d st" "\<not> ps_found st" "ps_exhausted st = []"
  shows "let st' = path_loop g vw target max_hops max_nodes max_examined st in
    ps_exhausted st' \<noteq> []
    \<or> (ps_exhausted st' = [] \<and> ps_found st' \<and> found_ok g vw source target max_hops st')
    \<or> (ps_exhausted st' = [] \<and> \<not> ps_found st' \<and> ps_queue st' = [] \<and> (\<exists>d'. search_ok g vw source target max_hops d' st'))"
  using assms
proof (induction g vw target max_hops max_nodes max_examined st arbitrary: d rule: path_loop.induct)
  case (1 g vw target max_hops max_nodes max_examined st)
  show ?case
  proof (cases "ps_queue st = []")
    case True
    with 1(2-) show ?thesis by (subst path_loop.simps) (auto simp: Let_def)
  next
    case False
    let ?st = "path_step g vw target max_hops max_nodes max_examined st"
    have step: "path_loop g vw target max_hops max_nodes max_examined st = path_loop g vw target max_hops max_nodes max_examined ?st"
      using False 1(3,4) by (subst path_loop.simps) simp
    have stop: "path_loop g vw target max_hops max_nodes max_examined ?st = ?st" if "ps_exhausted ?st \<noteq> [] \<or> ps_found ?st"
      using that by (subst path_loop.simps) auto
    from path_step_ok [OF 1(2) False 1(3,4), of max_nodes max_examined] consider
        "ps_exhausted ?st \<noteq> []"
      | "ps_exhausted ?st = []" "ps_found ?st" "found_ok g vw source target max_hops ?st"
      | d' where "ps_exhausted ?st = []" "\<not> ps_found ?st" "search_ok g vw source target max_hops d' ?st"
      by (auto simp: Let_def)
    then show ?thesis
    proof cases
      case 3
      with 1(1) [OF _ 3(3,2,1)] False 1(3,4) show ?thesis by (simp add: step)
    qed (simp_all add: step stop)
  qed
qed

text \<open>A walk over eligible edges, given by its nodes and the positions of its edges.\<close>

definition eligible_walk :: "graph \<Rightarrow> view \<Rightarrow> string \<Rightarrow> string \<Rightarrow> string list \<Rightarrow> nat list \<Rightarrow> bool" where
  "eligible_walk g vw source target ids ps \<longleftrightarrow> length ids = Suc (length ps) \<and> ids ! 0 = source \<and> ids ! length ps = target
     \<and> (\<forall>k < length ps. hop g vw (ids ! k) (ps ! k) (ids ! Suc k))"

lemma eligible_walk_Cons:
  assumes "eligible_walk g vw v target (v # ids) ps" "hop g vw u i v"
  shows "eligible_walk g vw u target (u # v # ids) (i # ps)"
  using assms by (auto simp: eligible_walk_def nth_Cons split: nat.splits)

lemma bfs_tree_depth: "bfs_tree g vw source d ps \<Longrightarrow> k < length ps \<Longrightarrow> d (fst (ps ! k)) \<le> k"
  by (simp add: bfs_tree_def)

lemma trace_back_ok:
  assumes "bfs_tree g vw source d ps" "v \<in> fst ` set ps" "d v < fuel" "eligible_walk g vw v target (v # ids) qs"
  shows "\<exists>ids' qs'. trace_back fuel ps (v # ids) qs = Some (ids', qs') \<and> eligible_walk g vw source target ids' qs'
    \<and> length qs' = d v + length qs"
  using assms(2-)
proof (induction fuel arbitrary: v ids qs)
  case (Suc fuel)
  have dist: "distinct (map fst ps)" using assms(1) by (simp add: bfs_tree_def)
  from Suc.prems(1) obtain p where p: "(v, p) \<in> set ps" by force
  then have look: "map_of ps v = Some p" using dist by simp
  show ?case
  proof (cases p)
    case None
    then have "v = source" "d source = 0" using assms(1) p by (auto simp: bfs_tree_def)
    with None look Suc.prems(3) show ?thesis by simp
  next
    case (Some ui)
    obtain u i where ui: "ui = (u, i)" by fastforce
    have u: "u \<in> fst ` set ps" "hop g vw u i v" "d v = Suc (d u)" using assms(1) p Some ui unfolding bfs_tree_def by blast+
    from Suc.IH [OF u(1) _ eligible_walk_Cons [OF Suc.prems(3) u(2)]] u(3) Suc.prems(2) look Some ui show ?thesis by auto
  qed
qed simp

lemma start_search_ok:
  assumes "source \<noteq> target"
  shows "search_ok g vw source target max_hops (\<lambda>_. 0)
    \<lparr>ps_parents = [(source, None)], ps_queue = [(source, 0)], ps_examined = 0, ps_found = False, ps_exhausted = []\<rparr>"
  using assms by (auto simp: search_ok_def bfs_tree_def queue_ok_def keys_of_def)

lemma start_found_ok:
  assumes "source = target"
  shows "found_ok g vw source target max_hops
    \<lparr>ps_parents = [(source, None)], ps_queue = [(source, 0)], ps_examined = 0, ps_found = (source = target), ps_exhausted = []\<rparr>"
  using assms by (auto simp: found_ok_def bfs_tree_def keys_of_def intro!: exI [of _ "\<lambda>_. 0"])

definition path_correct :: "graph \<Rightarrow> view \<Rightarrow> string \<Rightarrow> string \<Rightarrow> nat \<Rightarrow> path_result \<Rightarrow> bool" where
  "path_correct g vw source target max_hops r \<longleftrightarrow>
     pt_status r \<in> {''found'', ''not-found'', ''budget-exhausted''}
     \<and> (pt_status r = ''found'' \<longrightarrow> eligible_walk g vw source target (pt_nodes r) (pt_edges r) \<and> length (pt_edges r) \<le> max_hops
          \<and> (\<forall>n < length (pt_edges r). target \<notin> reached g vw source n))
     \<and> (usable g source \<and> usable g target \<and> pt_status r = ''not-found'' \<longrightarrow> (\<forall>n \<le> max_hops. target \<notin> reached g vw source n))"

lemma search_path_correct: "path_correct g vw source target max_hops (search_path g vw source target max_hops max_nodes max_examined)"
proof (cases "usable g source \<and> usable g target")
  case False
  then show ?thesis by (auto simp: search_path_def path_correct_def Let_def)
next
  case True
  let ?init = "\<lparr>ps_parents = [(source, None)], ps_queue = [(source, 0)], ps_examined = 0, ps_found = (source = target), ps_exhausted = []\<rparr>"
  let ?st = "path_loop g vw target max_hops max_nodes max_examined ?init"
  consider (exhausted) "ps_exhausted ?st \<noteq> []"
    | (found) "ps_exhausted ?st = []" "ps_found ?st" "found_ok g vw source target max_hops ?st"
    | (none) d where "ps_exhausted ?st = []" "\<not> ps_found ?st" "ps_queue ?st = []" "search_ok g vw source target max_hops d ?st"
  proof (cases "source = target")
    case True
    have same: "path_loop g vw target max_hops max_nodes max_examined st = st" if "ps_found st" for st
      using that by (subst path_loop.simps) simp
    have st: "?st = ?init" by (rule same) (simp add: True)
    have "ps_exhausted ?st = []" "ps_found ?st" unfolding st using True by simp_all
    moreover have "found_ok g vw source target max_hops ?st" unfolding st by (rule start_found_ok [OF True])
    ultimately show ?thesis by (rule found)
  next
    case False
    with path_loop_ok [OF start_search_ok [OF False, of g vw max_hops], of max_nodes max_examined] show ?thesis
      using exhausted found none by (auto simp: Let_def)
  qed
  then show ?thesis
  proof cases
    case exhausted
    with True show ?thesis by (simp add: search_path_def path_correct_def Let_def)
  next
    case found
    then obtain d where d: "bfs_tree g vw source d (ps_parents ?st)" "target \<in> keys_of ?st" "d target \<le> max_hops"
      "\<forall>n < d target. target \<notin> reached g vw source n" by (auto simp: found_ok_def)
    obtain k where k: "k < length (ps_parents ?st)" "fst (ps_parents ?st ! k) = target"
      using d(2) by (auto simp: keys_of_def in_set_conv_nth)
    have fuel: "d target < length (ps_parents ?st)" using bfs_tree_depth [OF d(1) k(1)] k by simp
    have "eligible_walk g vw target target [target] []" by (simp add: eligible_walk_def)
    from trace_back_ok [OF d(1) d(2) [unfolded keys_of_def] fuel this] obtain ids qs where
      tb: "trace_back (length (ps_parents ?st)) (ps_parents ?st) [target] [] = Some (ids, qs)"
        "eligible_walk g vw source target ids qs" "length qs = d target" by auto
    with True found d(3,4) show ?thesis by (simp add: search_path_def path_correct_def Let_def)
  next
    case none
    have "target \<notin> reached g vw source n" if "n \<le> max_hops" for n
      using reached_known [OF none(4) that] none(3,4) by (auto simp: search_ok_def)
    with True none show ?thesis by (simp add: search_path_def path_correct_def Let_def)
  qed
qed

text \<open>
  C19: Path search is right: a path reported as found is a walk over edges that are selected,
  active in the queried view and usable in the queried direction, through nodes that exist and are
  not forgotten, within the hop limit, and no shorter walk exists; when the answer is that there is
  none between two such nodes, there is none within the limit. The search always ends with one of
  the three answers.
\<close>

theorem shortest_path_correct:
  assumes "shortest_path env clock_now g source target max_hops relations direction as_of known_at max_nodes max_examined = Inr r"
  shows "\<exists>selected moment known. relation_filter relations = Inr selected \<and> opt_moment env as_of = Inr moment \<and> opt_moment env known_at = Inr known
    \<and> path_correct g (query_view env clock_now g selected direction moment known) (clean_id env source) (clean_id env target) (nat max_hops) r"
  using assms search_path_correct by (auto simp: shortest_path_def guard_r_Inr bind_r_Inr)

definition plain_env :: genv where
  "plain_env = \<lparr>gv_fromiso = (\<lambda>s. None), gv_iso = (\<lambda>t. []), gv_lower = (\<lambda>s. s), gv_validate = (\<lambda>a b. Inr ())\<rparr>"

definition two_nodes :: graph where
  "two_nodes =
     (let n = (\<lambda>i. \<lparr>gn_id = i, gn_type = ''concept'', gn_name = i, gn_properties = [], gn_created = [], gn_updated = [], gn_parent = None,
        gn_root = None, gn_version = 1, gn_latest = True, gn_forgotten = False\<rparr>) in
      \<lparr>gr_nodes = [(''a'', n ''a''), (''b'', n ''b'')],
       gr_edges = [\<lparr>ge_source = ''a'', ge_target = ''b'', ge_relation = ''causes'', ge_weight = 1, ge_valid = None, ge_invalid = None,
         ge_expired = None, ge_properties = [], ge_created = []\<rparr>],
       gr_provenance = []\<rparr>)"

theorem shortest_path_correct_witness:
  "\<exists>r. shortest_path plain_env 0 two_nodes ''a'' ''b'' 2 None ''both'' None None 10 10 = Inr r
    \<and> pt_status r = ''found'' \<and> pt_nodes r = [''a'', ''b''] \<and> pt_edges r = [0]
    \<and> (\<exists>vw. eligible_walk two_nodes vw ''a'' ''b'' [''a'', ''b''] [0])"
proof -
  let ?vw = "query_view plain_env 0 two_nodes None ''both'' None None"
  let ?init = "\<lparr>ps_parents = [(''a'', None)], ps_queue = [(''a'', 0)], ps_examined = 0, ps_found = False, ps_exhausted = []\<rparr>"
  let ?final = "\<lparr>ps_parents = [(''a'', None), (''b'', Some (''a'', 0))], ps_queue = [], ps_examined = Suc 0, ps_found = True, ps_exhausted = []\<rparr>"
  have ids: "clean_id plain_env ''a'' = ''a''" "clean_id plain_env ''b'' = ''b''"
    by (auto simp: clean_id_def plain_env_def py_spaces_def utf8_3_def char_of_def intro!: py_strip_id)
  have ends: "usable two_nodes ''a''" "usable two_nodes ''b''" by (simp_all add: usable_def two_nodes_def Let_def)
  have "path_step two_nodes ?vw ''b'' 2 10 10 ?init = ?final"
    by (simp add: path_step_def ends query_view_def incident_positions_def by_entity_def incident_def wrong_way_def other_end_def
      is_active_edge_def moment_at_def or_text_def usable_def two_nodes_def Let_def keys_of_def)
  then have "path_loop two_nodes ?vw ''b'' 2 10 10 ?init = ?final"
    by (simp add: path_loop.simps [of _ _ _ _ _ _ ?init] path_loop.simps [of _ _ _ _ _ _ ?final])
  then have "\<exists>r. shortest_path plain_env 0 two_nodes ''a'' ''b'' 2 None ''both'' None None 10 10 = Inr r
      \<and> pt_status r = ''found'' \<and> pt_nodes r = [''a'', ''b''] \<and> pt_edges r = [0]"
    by (simp add: shortest_path_def bounded_arg_def MAX_HOPS_def DIRECTIONS_def relation_filter_def opt_moment_def or_text_def
      search_path_def ids ends Let_def guard_r_def bind_r_def numeral_2_eq_2)
  then obtain r where r: "shortest_path plain_env 0 two_nodes ''a'' ''b'' 2 None ''both'' None None 10 10 = Inr r"
    "pt_status r = ''found''" "pt_nodes r = [''a'', ''b'']" "pt_edges r = [0]" by blast
  from shortest_path_correct [OF r(1)] r show ?thesis unfolding ids by (auto simp: path_correct_def)
qed

end
