(* ===== verification/Journal.thy ===== *)
theory Journal
  imports Capabilities
begin

text \<open>
  Signed hash-chained journals, \<^verbatim>\<open>unimem/frontier_protocol.py\<close>, with the store's verification of its
  own receipts, \<^verbatim>\<open>unimem/memory_authority.py\<close>. A journal file is the list of its parsed rows; reading
  and writing the file, the locks around an operation and the cache of open journals are not modelled,
  and whether the file's stamp has changed is an argument. Shown: an append keeps the chain valid,
  and a journal that is accepted against a retained checkpoint has the retained rows as its beginning.
\<close>

type_synonym dict = "(string \<times> pv) list"

section \<open>The store's signing identity\<close>

text \<open>
  \<open>sk_algorithm\<close> and \<open>sk_public\<close> are \<^verbatim>\<open>signing_config\<close>; \<open>sk_hmac\<close> is the key that
  \<^verbatim>\<open>_key(create=True)\<close> makes on first use, \<open>sk_private\<close> the Ed25519 key file; \<open>sk_principal\<close> and
  \<open>sk_authority\<close> are \<^verbatim>\<open>bound_writer()\<close>.
\<close>

record store_keys =
  sk_ed :: ed25519
  sk_algorithm :: string
  sk_public :: "string option"
  sk_hmac :: string
  sk_private :: "string option"
  sk_principal :: string
  sk_authority :: string

definition TRUST :: "(string \<times> int) list" where
  "TRUST = [(''external'', 0), (''tool'', 1), (''agent'', 1), (''user'', 2), (''operator'', 3)]"

text \<open>
  The principal is looked up under the identity that the receipt itself names, so a receipt without
  one is refused and one whose identity cannot be a key raises.
\<close>

definition own_principal :: "string \<Rightarrow> string \<Rightarrow> string \<Rightarrow> string \<Rightarrow> string \<Rightarrow> principal" where
  "own_principal ident authority key alg public =
     \<lparr>pr_id = ident, pr_organization = ''local-store'', pr_authority = authority, pr_key = key, pr_algorithm = alg, pr_public_key = public\<rparr>"

definition caught :: "bool result \<Rightarrow> bool result" where
  "caught r = (case r of Inr b \<Rightarrow> Inr b | Inl e \<Rightarrow> if e \<in> {KeyError, TypeError, ValueError} then Inr False else Inl e)"

definition authority_verify :: "store_keys \<Rightarrow> dict \<Rightarrow> bool result" where
  "authority_verify ks receipt =
     (case dget_or receipt ''authority'' PNone of
        PStr a \<Rightarrow>
          if a \<notin> fst ` set TRUST then Inr False
          else
            (let ident = dget_or receipt ''principal'' (PStr []);
                 present = map_of receipt ''principal'' \<noteq> None;
                 check = (\<lambda>p. if is_list ident \<or> is_dict ident then Inl TypeError
                              else if \<not> present then Inr False
                              else caught (origin_check (sk_ed ks) receipt p None)) in
             if dget_or receipt ''algorithm'' (PStr ''hmac-sha256'') = PStr ''ed25519'' then
               (case sk_public ks of
                  None \<Rightarrow> Inr False
                | Some public \<Rightarrow> check (own_principal (str_of ident) a [] ''ed25519'' public))
             else check (own_principal (str_of ident) a (sk_hmac ks) ''hmac-sha256'' []))
      | PList _ \<Rightarrow> Inl TypeError
      | PDict _ \<Rightarrow> Inl TypeError
      | _ \<Rightarrow> Inr False)"

definition fp_sign :: "store_keys \<Rightarrow> dict \<Rightarrow> dict result" where
  "fp_sign ks rec =
     bind_r (wire (PDict rec)) (\<lambda>_.
     bind_r (if sk_algorithm ks = ''hmac-sha256'' then Inr (sk_hmac ks)
             else case sk_private ks of None \<Rightarrow> Inl PermissionError | Some key \<Rightarrow> Inr key) (\<lambda>key.
     origin_bind (sk_ed ks) True rec (own_principal (sk_principal ks) (sk_authority ks) key (sk_algorithm ks) [])))"

section \<open>Reading a journal\<close>

record journal =
  jn_signed :: "dict list"
  jn_tip :: string
  jn_bytes :: nat

definition record_of :: "dict \<Rightarrow> pv" where
  "record_of envelope = dget_or envelope ''record'' (PDict [])"

text \<open>The loop of \<^verbatim>\<open>_state\<close>: signatures, sequence numbers and back links, row by row.\<close>

fun journal_scan :: "store_keys \<Rightarrow> nat \<Rightarrow> string \<Rightarrow> dict list \<Rightarrow> string result" where
  "journal_scan ks index previous [] = Inr previous"
| "journal_scan ks index previous (envelope # rest) =
     bind_r (authority_verify ks envelope) (\<lambda>ok.
       if \<not> ok then Inl ValueError
       else case record_of envelope of
              PDict r \<Rightarrow>
                guard_r (num_eq (dget_or r ''sequence'' PNone) (int index) \<and> is_pstr (dget_or r ''previous'' PNone) previous) ValueError
                  (bind_r (digest (PDict envelope)) (\<lambda>h. journal_scan ks (Suc index) h rest))
            | _ \<Rightarrow> Inl AttributeError)"

definition rotation_link :: "nat \<Rightarrow> dict list \<Rightarrow> bool" where
  "rotation_link n rows =
     (case rows of
        [] \<Rightarrow> False
      | envelope # _ \<Rightarrow>
          let link = dict_of (record_of envelope) in
          is_pstr (dget_or link ''kind'' PNone) ''rotation''
          \<and> (case dget_or link ''previous_count'' PNone of PInt c \<Rightarrow> c \<ge> int n | _ \<Rightarrow> False)
          \<and> (case dget_or link ''previous_tip'' PNone of PStr t \<Rightarrow> t \<noteq> [] | _ \<Rightarrow> False))"

definition anchored_at :: "journal \<Rightarrow> dict list \<Rightarrow> bool result" where
  "anchored_at cached rows =
     (if length rows < length (jn_signed cached) then Inr False
      else bind_r (digest (PDict (rows ! (length (jn_signed cached) - 1)))) (\<lambda>h. Inr (h = jn_tip cached)))"

text \<open>
  \<open>unchanged\<close>: the stamps of the file and of the keys are those of the cached state; \<open>settled\<close>: they did
  not change while the rows were verified.
\<close>

definition journal_state :: "store_keys \<Rightarrow> journal option \<Rightarrow> bool \<Rightarrow> bool \<Rightarrow> dict list \<Rightarrow> nat \<Rightarrow> journal result" where
  "journal_state ks cached unchanged settled rows bytes =
     (if cached \<noteq> None \<and> unchanged then Inr (the cached)
      else bind_r (journal_scan ks 0 [] rows) (\<lambda>tip.
        guard_r settled ValueError (
        bind_r (case cached of
                  None \<Rightarrow> Inr True
                | Some c \<Rightarrow> if jn_signed c = [] then Inr True
                            else bind_r (anchored_at c rows) (\<lambda>anchor. Inr (rotation_link (length (jn_signed c)) rows \<or> anchor))) (\<lambda>ok.
        guard_r ok ValueError (Inr \<lparr>jn_signed = rows, jn_tip = tip, jn_bytes = bytes\<rparr>)))))"

section \<open>Appending, rotating and reading back\<close>

text \<open>\<^verbatim>\<open>json.dumps(value, ensure_ascii=False)\<close>: keys in their order, blanks after the separators.\<close>

fun join_wide :: "string list \<Rightarrow> string" where
  "join_wide [] = []"
| "join_wide [x] = x"
| "join_wide (x # y # zs) = x @ '', '' @ join_wide (y # zs)"

primrec dumps_wide :: "pv \<Rightarrow> string" where
  "dumps_wide PNone = ''null''"
| "dumps_wide (PBool b) = (if b then ''true'' else ''false'')"
| "dumps_wide (PInt i) = show_int i"
| "dumps_wide (PFloat f) = f"
| "dumps_wide (PStr s) = quote s"
| "dumps_wide (PList xs) = ''['' @ join_wide (map dumps_wide xs) @ '']''"
| "dumps_wide (PDict d) = ''{'' @ join_wide (map (\<lambda>p. quote (fst p) @ '': '' @ snd p) (map (map_prod id dumps_wide) d)) @ ''}''"

definition stamped :: "dict \<Rightarrow> nat \<Rightarrow> string \<Rightarrow> string \<Rightarrow> dict" where
  "stamped rec index previous now =
     dset (dset (dset rec ''sequence'' (PInt (int index))) ''previous'' (PStr previous)) ''recorded_at'' (PStr now)"

definition seal :: "store_keys \<Rightarrow> string \<Rightarrow> nat \<Rightarrow> string \<Rightarrow> nat \<Rightarrow> dict \<Rightarrow> (dict \<times> string \<times> nat) result" where
  "seal ks now index previous used rec =
     bind_r (fp_sign ks (stamped rec index previous now)) (\<lambda>envelope.
     bind_r (wire (PDict envelope)) (\<lambda>_.
     let n = length (dumps_wide (PDict envelope)) in
     guard_r (n \<le> MAX_BYTES) ValueError (
     guard_r (used + n + 1 \<le> 64 * MAX_BYTES) ValueError (
     bind_r (digest (PDict envelope)) (\<lambda>h. Inr (envelope, h, used + n + 1))))))"

definition journal_append :: "store_keys \<Rightarrow> string \<Rightarrow> journal \<Rightarrow> dict \<Rightarrow> (journal \<times> dict) result" where
  "journal_append ks now st rec =
     guard_r (length (jn_signed st) \<le> MAX_ROWS - 1) ValueError (
     bind_r (seal ks now (length (jn_signed st)) (jn_tip st) (jn_bytes st) rec) (\<lambda>(envelope, h, used).
       Inr (\<lparr>jn_signed = jn_signed st @ [envelope], jn_tip = h, jn_bytes = used\<rparr>, envelope)))"

fun rotate_loop :: "store_keys \<Rightarrow> string \<Rightarrow> journal \<Rightarrow> dict list \<Rightarrow> journal result" where
  "rotate_loop ks now st [] = Inr st"
| "rotate_loop ks now st (rec # carry) =
     bind_r (seal ks now (length (jn_signed st)) (jn_tip st) (jn_bytes st) rec) (\<lambda>(envelope, h, used).
       rotate_loop ks now \<lparr>jn_signed = jn_signed st @ [envelope], jn_tip = h, jn_bytes = used\<rparr> carry)"

definition retired_count :: "journal \<Rightarrow> int" where
  "retired_count st =
     int (length (jn_signed st)) +
     (case jn_signed st of
        [] \<Rightarrow> 0
      | envelope # _ \<Rightarrow>
          (let link = dict_of (record_of envelope) in
           if is_pstr (dget_or link ''kind'' PNone) ''rotation''
           then (case dget_or link ''previous_count'' PNone of PInt c \<Rightarrow> c | _ \<Rightarrow> 0) else 0))"

definition journal_rotate :: "store_keys \<Rightarrow> string \<Rightarrow> journal \<Rightarrow> dict list \<Rightarrow> journal result" where
  "journal_rotate ks now st carry =
     guard_r (length carry \<le> MAX_ROWS - 1) ValueError (
     rotate_loop ks now \<lparr>jn_signed = [], jn_tip = [], jn_bytes = 0\<rparr>
       ([(''kind'', PStr ''rotation''), (''previous_tip'', PStr (jn_tip st)), (''previous_count'', PInt (retired_count st))] # carry))"

definition event_snapshot :: "journal \<Rightarrow> int \<Rightarrow> (nat \<times> string \<times> pv list) result" where
  "event_snapshot st offset =
     guard_r (0 \<le> offset \<and> offset \<le> int (length (jn_signed st))) ValueError (
     bind_r (map_r (\<lambda>row. dget row ''record'') (drop (nat offset) (jn_signed st))) (\<lambda>rs.
       Inr (length (jn_signed st), jn_tip st, rs)))"

definition journal_records :: "journal \<Rightarrow> pv list result" where
  "journal_records st = bind_r (event_snapshot st 0) (\<lambda>(n, tip, rs). Inr rs)"

definition checkpoint :: "journal \<Rightarrow> nat \<times> string" where
  "checkpoint st = (length (jn_signed st), jn_tip st)"

definition signed_at :: "journal \<Rightarrow> int \<Rightarrow> dict result" where
  "signed_at st index =
     guard_r (0 \<le> index \<and> index \<le> int (length (jn_signed st)) - 1) ValueError (Inr (jn_signed st ! nat index))"

definition empty_journal :: journal where
  "empty_journal = \<lparr>jn_signed = [], jn_tip = [], jn_bytes = 0\<rparr>"


section \<open>Appending keeps the chain\<close>

text \<open>The store's own key pair: what it signs, its pinned public key accepts.\<close>

definition keys_ok :: "store_keys \<Rightarrow> bool" where
  "keys_ok ks \<longleftrightarrow> sk_authority ks \<in> fst ` set TRUST \<and> sk_algorithm ks \<in> {''hmac-sha256'', ''ed25519''}
     \<and> (sk_algorithm ks = ''ed25519'' \<longrightarrow> (\<exists>public. sk_public ks = Some public
          \<and> (\<forall>key m. sk_private ks = Some key \<longrightarrow> ed_verify (sk_ed ks) public (ed_sign (sk_ed ks) key m) m)))"

lemma fp_sign_Inr:
  assumes "fp_sign ks rec = Inr row"
  obtains key where "origin_bind (sk_ed ks) True rec (own_principal (sk_principal ks) (sk_authority ks) key (sk_algorithm ks) []) = Inr row"
    "sk_algorithm ks = ''hmac-sha256'' \<Longrightarrow> key = sk_hmac ks" "sk_algorithm ks \<noteq> ''hmac-sha256'' \<Longrightarrow> sk_private ks = Some key"
  using assms by (auto simp: fp_sign_def result_simps split: if_splits)

lemma own_receipt_verifies:
  assumes "fp_sign ks rec = Inr row" "keys_ok ks"
  shows "authority_verify ks row = Inr True" "record_of row = PDict rec"
proof -
  obtain key where b: "origin_bind (sk_ed ks) True rec (own_principal (sk_principal ks) (sk_authority ks) key (sk_algorithm ks) []) = Inr row"
    "sk_algorithm ks = ''hmac-sha256'' \<Longrightarrow> key = sk_hmac ks" "sk_algorithm ks \<noteq> ''hmac-sha256'' \<Longrightarrow> sk_private ks = Some key"
    using fp_sign_Inr [OF assms(1)] by blast
  note f = bound_receipt_fields [OF b(1)]
  show "record_of row = PDict rec" using f by (simp add: record_of_def dget_or_def)
  have trust: "sk_authority ks \<in> fst ` set TRUST" using assms(2) by (simp add: keys_ok_def)
  have ident: "map_of row ''principal'' = Some (PStr (sk_principal ks))" "map_of row ''authority'' = Some (PStr (sk_authority ks))"
    "dget_or row ''algorithm'' (PStr ''hmac-sha256'') = PStr (sk_algorithm ks)"
    using f by (simp_all add: own_principal_def)
  show "authority_verify ks row = Inr True"
  proof (cases "sk_algorithm ks = ''ed25519''")
    case True
    then obtain public where pub: "sk_public ks = Some public"
      "\<And>m. ed_verify (sk_ed ks) public (ed_sign (sk_ed ks) key m) m"
      using assms(2) b(3) by (auto simp: keys_ok_def)
    have "key_pair (sk_ed ks) (own_principal (sk_principal ks) (sk_authority ks) key (sk_algorithm ks) [])
        (own_principal (sk_principal ks) (sk_authority ks) [] ''ed25519'' public)"
      using pub True by (simp add: key_pair_def own_principal_def)
    from bound_receipt_checks [OF b(1) this] trust ident pub True show ?thesis
      by (simp add: authority_verify_def dget_or_def caught_def)
  next
    case False
    then have hmac: "sk_algorithm ks = ''hmac-sha256''" using assms(2) by (simp add: keys_ok_def)
    have "key_pair (sk_ed ks) (own_principal (sk_principal ks) (sk_authority ks) key (sk_algorithm ks) [])
        (own_principal (sk_principal ks) (sk_authority ks) (sk_hmac ks) ''hmac-sha256'' [])"
      using b(2) hmac by (simp add: key_pair_def own_principal_def)
    from bound_receipt_checks [OF b(1) this] trust ident hmac show ?thesis
      by (simp add: authority_verify_def dget_or_def caught_def)
  qed
qed

lemma stamped_lookup:
  "map_of (stamped rec index previous now) ''sequence'' = Some (PInt (int index))"
  "map_of (stamped rec index previous now) ''previous'' = Some (PStr previous)"
  "k \<notin> {''sequence'', ''previous'', ''recorded_at''} \<Longrightarrow> map_of (stamped rec index previous now) k = map_of rec k"
  by (simp_all add: stamped_def)

text \<open>What the scan says of one more row.\<close>

definition row_follows :: "store_keys \<Rightarrow> nat \<Rightarrow> string \<Rightarrow> dict \<Rightarrow> bool" where
  "row_follows ks index previous row \<longleftrightarrow> authority_verify ks row = Inr True
     \<and> (\<exists>r. record_of row = PDict r \<and> num_eq (dget_or r ''sequence'' PNone) (int index) \<and> is_pstr (dget_or r ''previous'' PNone) previous)"

lemma journal_scan_Cons:
  "journal_scan ks index previous (row # rest) = Inr tip \<longleftrightarrow>
    row_follows ks index previous row \<and> (\<exists>h. digest (PDict row) = Inr h \<and> journal_scan ks (Suc index) h rest = Inr tip)"
  by (auto simp: result_simps row_follows_def split: pv.splits if_splits)

lemma journal_scan_append:
  "journal_scan ks index previous (rows @ [row]) = Inr tip \<longleftrightarrow>
    (\<exists>p. journal_scan ks index previous rows = Inr p \<and> row_follows ks (index + length rows) p row \<and> digest (PDict row) = Inr tip)"
proof (induction rows arbitrary: index previous)
  case Nil
  show ?case by (simp add: journal_scan_Cons del: journal_scan.simps(2))
next
  case (Cons r rows)
  show ?case by (auto simp: journal_scan_Cons Cons.IH simp del: journal_scan.simps(2))
qed

lemma seal_Inr:
  assumes "seal ks now index previous used rec = Inr (row, h, used')"
  shows "fp_sign ks (stamped rec index previous now) = Inr row" "digest (PDict row) = Inr h"
  using assms by (auto simp: seal_def result_simps Let_def)

lemma sealed_follows:
  assumes "seal ks now index previous used rec = Inr (row, h, used')" "keys_ok ks"
  shows "row_follows ks index previous row"
  using own_receipt_verifies [OF seal_Inr(1) [OF assms(1)] assms(2)]
  by (simp add: row_follows_def dget_or_def stamped_lookup num_eq_def is_pstr_def)

definition chain_ok :: "store_keys \<Rightarrow> journal \<Rightarrow> bool" where
  "chain_ok ks st \<longleftrightarrow> journal_scan ks 0 [] (jn_signed st) = Inr (jn_tip st)"

lemma sealed_chain:
  assumes "chain_ok ks st" "seal ks now (length (jn_signed st)) (jn_tip st) used rec = Inr (row, h, used')" "keys_ok ks"
  shows "chain_ok ks \<lparr>jn_signed = jn_signed st @ [row], jn_tip = h, jn_bytes = b\<rparr>"
  using assms(1) sealed_follows [OF assms(2,3)] seal_Inr(2) [OF assms(2)]
  by (simp add: chain_ok_def journal_scan_append)

lemma rotate_chain:
  "rotate_loop ks now st carry = Inr st' \<Longrightarrow> chain_ok ks st \<Longrightarrow> keys_ok ks \<Longrightarrow> chain_ok ks st'"
proof (induction carry arbitrary: st)
  case (Cons rec carry)
  then show ?case by (auto simp: result_simps split: prod.splits dest: sealed_chain)
qed simp

text \<open>The rows a journal reports are the appended records, in order.\<close>

lemma journal_append_Inr:
  assumes "journal_append ks now st rec = Inr (st', row)"
  shows "\<exists>h used. seal ks now (length (jn_signed st)) (jn_tip st) (jn_bytes st) rec = Inr (row, h, used)
    \<and> st' = \<lparr>jn_signed = jn_signed st @ [row], jn_tip = h, jn_bytes = used\<rparr>"
  using assms by (auto simp: journal_append_def result_simps split: prod.splits)


lemma chain_tip:
  assumes "chain_ok ks st" "jn_signed st \<noteq> []"
  shows "digest (PDict (last (jn_signed st))) = Inr (jn_tip st)"
proof -
  have "jn_signed st = butlast (jn_signed st) @ [last (jn_signed st)]" using assms(2) by simp
  then have "journal_scan ks 0 [] (butlast (jn_signed st) @ [last (jn_signed st)]) = Inr (jn_tip st)"
    using assms(1) by (simp add: chain_ok_def)
  then show ?thesis by (auto simp only: journal_scan_append)
qed

lemma extension_anchored:
  assumes "chain_ok ks st" "jn_signed st \<noteq> []"
  shows "anchored_at st (jn_signed st @ rows) = Inr True"
proof -
  have "(jn_signed st @ rows) ! (length (jn_signed st) - 1) = last (jn_signed st)"
    using assms(2) by (simp add: nth_append last_conv_nth)
  then show ?thesis using chain_tip [OF assms] by (simp add: anchored_at_def)
qed

lemma extension_accepted:
  assumes "chain_ok ks st" "chain_ok ks \<lparr>jn_signed = jn_signed st @ rows, jn_tip = tip, jn_bytes = n\<rparr>"
  shows "journal_state ks (Some st) False True (jn_signed st @ rows) n = Inr \<lparr>jn_signed = jn_signed st @ rows, jn_tip = tip, jn_bytes = n\<rparr>"
  using assms extension_anchored [OF assms(1)] by (cases "jn_signed st = []") (simp_all add: journal_state_def chain_ok_def)

section \<open>A retained checkpoint pins the history\<close>

lemma map_of_canon:
  assumes "distinct (map fst d)"
  shows "map_of (dict_of (canon (PDict d))) k = map_option canon (map_of d k)"
proof -
  from assms have "distinct (map fst (sort_key fst d))"
    by (metis mset_eq_imp_distinct_iff mset_map mset_sort)
  with assms have "map_of (sort_key fst d) = map_of d" by (simp add: map_of_inject_set)
  then show ?thesis by (simp add: canon_dict map_of_map map_prod_def id_def del: canon.simps)
qed

lemma same_lookup:
  assumes "same_value (PDict a) (PDict b)" "wf_pv (PDict a)" "wf_pv (PDict b)"
  shows "map_option canon (map_of a k) = map_option canon (map_of b k)"
  using map_of_canon [of a k] map_of_canon [of b k] assms by (simp add: same_value_def del: canon.simps)

lemma canon_is_str [simp]: "canon v = PStr s \<longleftrightarrow> v = PStr s"
  by (cases v) auto

lemma same_previous:
  assumes "same_value (PDict a) (PDict b)" "wf_pv (PDict a)" "wf_pv (PDict b)" "record_of a = PDict r" "record_of b = PDict q"
    and "is_pstr (dget_or r ''previous'' PNone) s" "is_pstr (dget_or q ''previous'' PNone) t"
  shows "s = t"
proof -
  have r: "map_of r ''previous'' = Some (PStr s)" "map_of q ''previous'' = Some (PStr t)"
    using assms(6,7) by (auto simp: is_pstr_def dget_or_def split: option.splits)
  then have recs: "map_of a ''record'' = Some (PDict r)" "map_of b ''record'' = Some (PDict q)"
    using assms(4,5) by (auto simp: record_of_def dget_or_def split: option.splits)
  with same_lookup [OF assms(1-3), of "''record''"] have "same_value (PDict r) (PDict q)"
    by (simp add: same_value_def del: canon.simps)
  from same_lookup [OF this wf_lookup [OF assms(2) recs(1)] wf_lookup [OF assms(3) recs(2)], of "''previous''"] r show ?thesis by simp
qed

lemma equal_tips_equal_rows:
  assumes "journal_scan ks 0 [] xs = Inr tip" "journal_scan ks 0 [] ys = Inr tip" "length xs = length ys"
    and "\<And>row. row \<in> set xs \<union> set ys \<Longrightarrow> wf_pv (PDict row)"
    and "inj_on sha256 ((\<lambda>row. dumps (PDict row)) ` (set xs \<union> set ys))"
  shows "list_all2 (\<lambda>x y. same_value (PDict x) (PDict y)) xs ys"
  using assms
proof (induction xs arbitrary: ys tip rule: rev_induct)
  case (snoc x xs)
  then obtain zs y where ys: "ys = zs @ [y]" "length zs = length xs" by (cases ys rule: rev_cases) auto
  from snoc.prems(1) obtain p where p: "journal_scan ks 0 [] xs = Inr p" "row_follows ks (length xs) p x" "digest (PDict x) = Inr tip"
    by (auto simp: journal_scan_append)
  from snoc.prems(2) obtain q where q: "journal_scan ks 0 [] zs = Inr q" "row_follows ks (length zs) q y" "digest (PDict y) = Inr tip"
    by (auto simp: journal_scan_append ys)
  have wf: "wf_pv (PDict x)" "wf_pv (PDict y)" using snoc.prems(4) by (simp_all add: ys)
  have "inj_on sha256 {dumps (PDict x), dumps (PDict y)}"
    by (rule inj_on_subset [OF snoc.prems(5)]) (simp add: ys)
  from digest_binds [OF wf p(3) q(3) this] have same: "same_value (PDict x) (PDict y)" .
  with p(2) q(2) wf have "p = q" by (auto simp: row_follows_def intro: same_previous)
  moreover have "inj_on sha256 ((\<lambda>row. dumps (PDict row)) ` (set xs \<union> set zs))"
    by (rule inj_on_subset [OF snoc.prems(5)]) (auto simp: ys)
  ultimately have "list_all2 (\<lambda>x y. same_value (PDict x) (PDict y)) xs zs"
    using snoc.IH [of p zs] p(1) q(1) ys(2) snoc.prems(4) by (simp add: ys)
  then show ?case using same by (simp add: ys list_all2_appendI)
qed simp

lemma journal_scan_split:
  "journal_scan ks index previous (xs @ ys) = Inr tip \<Longrightarrow>
    \<exists>h. journal_scan ks index previous xs = Inr h \<and> (xs \<noteq> [] \<longrightarrow> digest (PDict (last xs)) = Inr h)"
proof (induction xs arbitrary: index previous)
  case (Cons x xs)
  then obtain h where h: "row_follows ks index previous x" "digest (PDict x) = Inr h" "journal_scan ks (Suc index) h (xs @ ys) = Inr tip"
    by (auto simp: journal_scan_Cons simp del: journal_scan.simps(2))
  from Cons.IH [OF h(3)] h(1,2) show ?case
    by (cases "xs = []") (auto simp: journal_scan_Cons simp del: journal_scan.simps(2))
qed simp

section \<open>Journals as logs of records\<close>

text \<open>
  What the components that keep their state in a journal rely on: an append adds one record at the
  end, equal to the given one but for the fields of the chain.
\<close>

definition kept :: "dict \<Rightarrow> dict \<Rightarrow> bool" where
  "kept r r' \<longleftrightarrow> (\<forall>k. k \<notin> {''sequence'', ''previous'', ''recorded_at''} \<longrightarrow> map_of r' k = map_of r k)"

definition rows_with :: "string \<Rightarrow> string \<Rightarrow> pv list \<Rightarrow> dict list" where
  "rows_with k v rs = filter (\<lambda>d. map_of d k = Some (PStr v)) (map dict_of rs)"

lemma keptD: "kept r r' \<Longrightarrow> k \<notin> {''sequence'', ''previous'', ''recorded_at''} \<Longrightarrow> map_of r' k = map_of r k"
  by (simp add: kept_def)

locale record_log =
  fixes append_record :: "'j \<Rightarrow> dict \<Rightarrow> ('j \<times> dict) result"
    and records :: "'j \<Rightarrow> pv list result"
  assumes append_records: "append_record j r = Inr (j', row) \<Longrightarrow> records j = Inr rs \<Longrightarrow>
    \<exists>r'. records j' = Inr (rs @ [PDict r']) \<and> kept r r'"
begin

lemma append_same_key:
  assumes "append_record j r = Inr (j', row)" "records j = Inr rs" "map_of r k = Some (PStr v)"
    and "k \<notin> {''sequence'', ''previous'', ''recorded_at''}"
  shows "\<exists>rs' r'. records j' = Inr rs' \<and> rows_with k v rs' = rows_with k v rs @ [r'] \<and> kept r r'"
proof -
  from append_records [OF assms(1,2)] obtain r' where "records j' = Inr (rs @ [PDict r'])" "kept r r'" by blast
  with keptD [OF this(2) assms(4)] assms(3) show ?thesis by (auto simp: rows_with_def)
qed

lemma append_other_key:
  assumes "append_record j r = Inr (j', row)" "records j = Inr rs" "map_of r k \<noteq> Some (PStr v)"
    and "k \<notin> {''sequence'', ''previous'', ''recorded_at''}"
  shows "\<exists>rs'. records j' = Inr rs' \<and> rows_with k v rs' = rows_with k v rs"
proof -
  from append_records [OF assms(1,2)] obtain r' where "records j' = Inr (rs @ [PDict r'])" "kept r r'" by blast
  with keptD [OF this(2) assms(4)] assms(3) show ?thesis by (auto simp: rows_with_def)
qed

end

lemma sealed_record:
  assumes "seal ks now index previous used rec = Inr (row, h, used')"
  shows "map_of row ''record'' = Some (PDict (stamped rec index previous now))"
proof -
  obtain key where "origin_bind (sk_ed ks) True (stamped rec index previous now)
      (own_principal (sk_principal ks) (sk_authority ks) key (sk_algorithm ks) []) = Inr row"
    using fp_sign_Inr [OF seal_Inr(1) [OF assms]] by blast
  from bound_receipt_fields(5) [OF this] show ?thesis by simp
qed

lemma map_r_mem: "map_r f xs = Inr ys \<Longrightarrow> y \<in> set ys \<Longrightarrow> \<exists>x \<in> set xs. f x = Inr y"
  by (induction xs arbitrary: ys) (auto simp: bind_r_Inr)

lemma map_r_append: "map_r f (xs @ ys) = bind_r (map_r f xs) (\<lambda>as. bind_r (map_r f ys) (\<lambda>bs. Inr (as @ bs)))"
  by (induction xs) (simp_all add: bind_r_assoc, cases "map_r f ys", simp_all)

interpretation jl: record_log "journal_append ks now" journal_records for ks :: store_keys and now :: string
proof
  fix j r j' row rs
  assume "journal_append ks now j r = Inr (j', row)" "journal_records j = Inr rs"
  moreover from journal_append_Inr [OF this(1)] obtain h used where
    s: "seal ks now (length (jn_signed j)) (jn_tip j) (jn_bytes j) r = Inr (row, h, used)"
      "j' = \<lparr>jn_signed = jn_signed j @ [row], jn_tip = h, jn_bytes = used\<rparr>" by blast
  ultimately have "journal_records j' = Inr (rs @ [PDict (stamped r (length (jn_signed j)) (jn_tip j) now)])"
    using sealed_record [OF s(1)] by (auto simp: journal_records_def event_snapshot_def map_r_append dget_def result_simps)
  moreover have "kept r (stamped r (length (jn_signed j)) (jn_tip j) now)" by (simp add: kept_def stamped_lookup)
  ultimately show "\<exists>r'. journal_records j' = Inr (rs @ [PDict r']) \<and> kept r r'" by blast
qed

text \<open>Truth of a value, as \<^verbatim>\<open>if v\<close> reads it.\<close>

definition truthy :: "pv \<Rightarrow> bool" where
  "truthy v = (case v of PNone \<Rightarrow> False | PBool b \<Rightarrow> b | PInt i \<Rightarrow> i \<noteq> 0 | PFloat f \<Rightarrow> f \<notin> {''0.0'', ''-0.0''}
     | PStr s \<Rightarrow> s \<noteq> [] | PList xs \<Rightarrow> xs \<noteq> [] | PDict d \<Rightarrow> d \<noteq> [])"

text \<open>Decimal texts.\<close>

definition nat_text :: "string \<Rightarrow> nat" where
  "nat_text s = foldl (\<lambda>n c. 10 * n + (of_char c - 48)) 0 s"

definition decimal_text :: "string \<Rightarrow> int" where
  "decimal_text s = (if take 1 s = ''-'' then - int (nat_text (drop 1 s)) else int (nat_text (if take 1 s = ''+'' then drop 1 s else s)))"

text \<open>
  Equality of Python values: dictionaries without regard to order, and a boolean or an integral float
  equal to the integer it denotes, for numbers of less than 16 digits.
\<close>

primrec py_norm :: "pv \<Rightarrow> pv" where
  "py_norm PNone = PNone"
| "py_norm (PBool b) = PInt (if b then 1 else 0)"
| "py_norm (PInt i) = PInt i"
| "py_norm (PFloat f) = (if drop (length f - 2) f = ''.0'' then PInt (decimal_text (take (length f - 2) f)) else PFloat f)"
| "py_norm (PStr s) = PStr s"
| "py_norm (PList xs) = PList (map py_norm xs)"
| "py_norm (PDict d) = PDict (map (map_prod id py_norm) d)"

definition py_eq :: "pv \<Rightarrow> pv \<Rightarrow> bool" where
  "py_eq a b \<longleftrightarrow> py_norm (canon a) = py_norm (canon b)"

text \<open>\<^verbatim>\<open>row[k]\<close> for a row of a journal.\<close>

definition row_field :: "pv \<Rightarrow> string \<Rightarrow> pv result" where
  "row_field row k = (case row of PDict d \<Rightarrow> dget d k | _ \<Rightarrow> Inl TypeError)"

section \<open>The properties\<close>

text \<open>A store that signs with HMAC, and its first row.\<close>

definition sample_keys :: store_keys where
  "sample_keys = \<lparr>sk_ed = echo_ed25519, sk_algorithm = ''hmac-sha256'', sk_public = None, sk_hmac = replicate 32 CHR ''k'',
     sk_private = None, sk_principal = ''local'', sk_authority = ''operator''\<rparr>"

lemma sample_keys_ok: "keys_ok sample_keys"
  by (simp add: keys_ok_def sample_keys_def TRUST_def)

definition sample_row :: "dict \<Rightarrow> string \<Rightarrow> string \<Rightarrow> dict" where
  "sample_row rec dig sig =
     [(''record'', PDict rec), (''principal'', PStr ''local''),
      (''organization'', PStr ''local-store''), (''authority'', PStr ''operator''), (''digest'', PStr dig), (''signature'', PStr sig)]"

text \<open>Values far below every bound, with room for \<open>k\<close> envelopes around each other.\<close>

definition small :: "nat \<Rightarrow> pv \<Rightarrow> bool" where
  "small k v \<longleftrightarrow> all_finite v \<and> wf_pv v \<and> depth v \<le> k \<and> nodes v \<le> 1000 * k \<and> tree_bytes v \<le> 1000 * k
     \<and> text_length v \<le> 1000 * k \<and> length (dumps_wide v) \<le> 1000 * k"

lemma small_wire:
  assumes "small k v" "k \<le> 50"
  shows "wire v = Inr (dumps v)"
  using assms by (intro wire_small) (auto simp: small_def tree_ok_def MAX_BYTES_def)

lemma sample_row_small:
  assumes "small k (PDict rec)" "is_hash dig" "is_hash sig"
  shows "small (Suc k) (PDict (sample_row rec dig sig))"
  unfolding small_def
proof (intro conjI)
  note v = assms(1) [unfolded small_def]
  show "all_finite (PDict (sample_row rec dig sig))" using v by (simp add: sample_row_def)
  show "wf_pv (PDict (sample_row rec dig sig))" using v by (simp add: sample_row_def)
  show "depth (PDict (sample_row rec dig sig)) \<le> Suc k" using v by (simp add: sample_row_def)
  show "nodes (PDict (sample_row rec dig sig)) \<le> 1000 * Suc k" using v by (simp add: sample_row_def)
  show "tree_bytes (PDict (sample_row rec dig sig)) \<le> 1000 * Suc k"
    using v assms(2,3) by (simp add: sample_row_def py_len_simps py_len_hash)
  have q: "length (quote ''record'') = 8" "length (quote ''principal'') = 11" "length (quote ''local'') = 7" "length (quote ''organization'') = 14"
    "length (quote ''local-store'') = 13" "length (quote ''authority'') = 11" "length (quote ''operator'') = 10" "length (quote ''digest'') = 8"
    "length (quote ''signature'') = 11" by (simp_all add: length_quote_simps esc_def Let_def)
  show "text_length (PDict (sample_row rec dig sig)) \<le> 1000 * Suc k"
    using v assms(2,3) by (simp add: sample_row_def q length_quote_hash)
  show "length (dumps_wide (PDict (sample_row rec dig sig))) \<le> 1000 * Suc k"
    using v assms(2,3) by (simp add: sample_row_def q length_quote_hash)
qed

lemma sample_signed:
  assumes "small k (PDict rec)" "k \<le> 50"
  shows "\<exists>dig sig. is_hash dig \<and> is_hash sig \<and> fp_sign sample_keys rec = Inr (sample_row rec dig sig)"
proof -
  let ?dig = "sha256_hex (dumps (PDict rec))"
  let ?body = "[(''record'', PDict rec), (''principal'', PStr ''local''), (''organization'', PStr ''local-store''),
    (''authority'', PStr ''operator''), (''digest'', PStr ?dig)]"
  let ?sig = "hmac_hex (replicate 32 CHR ''k'') (dumps (PDict ?body))"
  have "all_finite (PDict rec)" using assms(1) by (simp only: small_def)
  with small_wire [OF assms] have "fp_sign sample_keys rec = Inr (sample_row rec ?dig ?sig)"
    by (simp add: fp_sign_def sample_keys_def origin_bind_def own_principal_def json_bytes_def origin_body_def sample_row_def
      Let_def del: dumps.simps)
  moreover have "is_hash ?dig" "is_hash ?sig" by simp_all
  ultimately show ?thesis by blast
qed

lemma sample_sealed:
  assumes "small k (PDict (stamped rec i p now))" "k < 50" "used \<le> 1000000"
  shows "\<exists>dig sig h n. is_hash dig \<and> is_hash sig \<and> is_hash h \<and> n \<le> used + 100000
    \<and> seal sample_keys now i p used rec = Inr (sample_row (stamped rec i p now) dig sig, h, n)"
proof -
  from sample_signed [OF assms(1)] assms(2) obtain dig sig where
    d: "is_hash dig" "is_hash sig" "fp_sign sample_keys (stamped rec i p now) = Inr (sample_row (stamped rec i p now) dig sig)" by auto
  let ?row = "PDict (sample_row (stamped rec i p now) dig sig)"
  have row: "small (Suc k) ?row" by (rule sample_row_small [OF assms(1) d(1,2)])
  from row have "length (dumps_wide ?row) \<le> 1000 * Suc k" by (simp only: small_def)
  also have "\<dots> \<le> 51000" using assms(2) by simp
  finally have n: "length (dumps_wide ?row) \<le> 51000" .
  have w: "wire ?row = Inr (dumps ?row)" using small_wire [OF row] assms(2) by simp
  have "seal sample_keys now i p used rec
      = Inr (sample_row (stamped rec i p now) dig sig, sha256_hex (dumps ?row), used + length (dumps_wide ?row) + 1)"
    using d(3) w n assms(3) by (simp add: seal_def digest_def Let_def guard_r_def MAX_BYTES_def del: dumps.simps dumps_wide.simps)
  with d n show ?thesis by (intro exI conjI) auto
qed

lemma sample_appended:
  assumes "small k (PDict (stamped rec (length (jn_signed st)) (jn_tip st) now))" "k < 50" "jn_bytes st \<le> 1000000" "length (jn_signed st) < MAX_ROWS"
  shows "\<exists>dig sig h n. is_hash dig \<and> is_hash sig \<and> is_hash h \<and> n \<le> jn_bytes st + 100000
    \<and> journal_append sample_keys now st rec
      = Inr (\<lparr>jn_signed = jn_signed st @ [sample_row (stamped rec (length (jn_signed st)) (jn_tip st) now) dig sig], jn_tip = h, jn_bytes = n\<rparr>,
             sample_row (stamped rec (length (jn_signed st)) (jn_tip st) now) dig sig)"
proof -
  have "length (jn_signed st) \<le> MAX_ROWS - 1" using assms(4) by simp
  with sample_sealed [OF assms(1-3)] show ?thesis by (fastforce simp: journal_append_def)
qed

lemmas small_eval = small_def wire_eval length_quote_simps esc_def Let_def show_int_def show_nat.simps


text \<open>
  C21: A journal that is accepted against a retained checkpoint, and does not start with a signed
  rotation link, begins with the retained rows, each the same value up to the order of keys, unless
  SHA-256 collides on rows of the two histories: truncation and rewriting are detected.
\<close>

theorem retained_checkpoint_pins_history:
  assumes "chain_ok ks old" "journal_state ks (Some old) False settled rows n = Inr st"
    and "\<not> rotation_link (length (jn_signed old)) rows"
    and "\<And>row. row \<in> set (jn_signed old) \<union> set rows \<Longrightarrow> wf_pv (PDict row)"
    and "inj_on sha256 ((\<lambda>row. dumps (PDict row)) ` (set (jn_signed old) \<union> set rows))"
  shows "length (jn_signed old) \<le> length rows
    \<and> list_all2 (\<lambda>x y. same_value (PDict x) (PDict y)) (jn_signed old) (take (length (jn_signed old)) rows) \<and> chain_ok ks st"
proof (cases "jn_signed old = []")
  case True
  with assms(2) show ?thesis by (auto simp: journal_state_def result_simps chain_ok_def)
next
  case False
  let ?k = "length (jn_signed old)"
  from assms(2,3) False have acc: "journal_scan ks 0 [] rows = Inr (jn_tip st)" "jn_signed st = rows"
    "anchored_at old rows = Inr True" by (auto simp: journal_state_def result_simps)
  from acc(3) have len: "?k \<le> length rows" and tip: "digest (PDict (rows ! (?k - 1))) = Inr (jn_tip old)"
    by (auto simp: anchored_at_def result_simps split: if_splits)
  from journal_scan_split [of ks 0 "[]" "take ?k rows" "drop ?k rows"] acc(1) obtain h where
    h: "journal_scan ks 0 [] (take ?k rows) = Inr h" "take ?k rows \<noteq> [] \<longrightarrow> digest (PDict (last (take ?k rows))) = Inr h" by auto
  have ne: "take ?k rows \<noteq> []" using False len by auto
  then have "last (take ?k rows) = rows ! (?k - 1)" using False len by (simp add: last_conv_nth min_def)
  then have "h = jn_tip old" using h(2) tip ne by simp
  moreover have "inj_on sha256 ((\<lambda>row. dumps (PDict row)) ` (set (jn_signed old) \<union> set (take ?k rows)))"
    by (rule inj_on_subset [OF assms(5)]) (auto dest: in_set_takeD)
  ultimately have "list_all2 (\<lambda>x y. same_value (PDict x) (PDict y)) (jn_signed old) (take ?k rows)"
    using equal_tips_equal_rows [of ks "jn_signed old" "jn_tip old" "take ?k rows"] assms(1,4) h(1) len
    by (auto simp: chain_ok_def dest: in_set_takeD)
  then show ?thesis using len acc by (simp add: chain_ok_def)
qed


lemma sample_journal:
  "\<exists>row h n. journal_append sample_keys ''t'' empty_journal [] = Inr (\<lparr>jn_signed = [row], jn_tip = h, jn_bytes = n\<rparr>, row)
    \<and> wf_pv (PDict row) \<and> \<not> rotation_link 1 [row]"
proof -
  have "small 1 (PDict (stamped [] 0 [] ''t''))" by (simp add: stamped_def small_eval)
  then obtain dig sig h n where s: "is_hash dig" "is_hash sig" "journal_append sample_keys ''t'' empty_journal []
      = Inr (\<lparr>jn_signed = [sample_row (stamped [] 0 [] ''t'') dig sig], jn_tip = h, jn_bytes = n\<rparr>, sample_row (stamped [] 0 [] ''t'') dig sig)"
    using sample_appended [of 1 "[]" empty_journal "''t''"] by (auto simp: empty_journal_def MAX_ROWS_def)
  moreover have "\<not> rotation_link 1 [sample_row (stamped [] 0 [] ''t'') dig sig]"
    by (simp add: rotation_link_def record_of_def sample_row_def stamped_def dget_or_def is_pstr_def)
  moreover have "wf_pv (PDict (sample_row (stamped [] 0 [] ''t'') dig sig))" by (simp add: sample_row_def stamped_def)
  ultimately show ?thesis by blast
qed

lemma empty_chain: "chain_ok ks empty_journal"
  by (simp add: chain_ok_def empty_journal_def)


theorem retained_checkpoint_pins_history_witness:
  "\<exists>(old :: journal) rows. jn_signed old \<noteq> [] \<and> list_all2 (\<lambda>x y. same_value (PDict x) (PDict y)) (jn_signed old) (take (length (jn_signed old)) rows)"
proof -
  obtain row h n where r: "journal_append sample_keys ''t'' empty_journal [] = Inr (\<lparr>jn_signed = [row], jn_tip = h, jn_bytes = n\<rparr>, row)"
    "wf_pv (PDict row)" "\<not> rotation_link 1 [row]" using sample_journal by blast
  let ?st = "\<lparr>jn_signed = [row], jn_tip = h, jn_bytes = n\<rparr>"
  from journal_append_Inr [OF r(1)] obtain h' used where "seal sample_keys ''t'' (length (jn_signed empty_journal)) (jn_tip empty_journal) (jn_bytes empty_journal) [] = Inr (row, h, used)"
    by auto
  from sealed_chain [OF empty_chain this sample_keys_ok, of n] have chain: "chain_ok sample_keys ?st" by (simp add: empty_journal_def)
  have "journal_state sample_keys (Some ?st) False True (jn_signed ?st @ []) n = Inr ?st"
    using extension_accepted [OF chain, of "[]" h n] chain by simp
  from retained_checkpoint_pins_history [OF chain this] r(2,3)
  have "list_all2 (\<lambda>x y. same_value (PDict x) (PDict y)) (jn_signed ?st) (take (length (jn_signed ?st)) [row])" by simp
  moreover have "jn_signed ?st \<noteq> []" by simp
  ultimately show ?thesis by blast
qed

end
