(* ===== verification/Household.thy ===== *)
theory Household
  imports Journal
begin

text \<open>
  Consent-scoped household memory, \<^verbatim>\<open>unimem/household.py\<close>. The room policies, the consents and the
  write gates are journals; the entries that go to the transparency log are kept as a list. The robot's
  identity resolver and the persistence sink are arguments, as in the code.
\<close>

record home =
  hh_rooms :: journal
  hh_consents :: journal
  hh_gates :: journal
  hh_log :: "(string \<times> dict) list"

definition HOUSEHOLD_SCOPES :: "string list" where
  "HOUSEHOLD_SCOPES = [''resident'', ''household'', ''guest'', ''bystander'', ''caregiver'']"

definition grantable :: "string \<Rightarrow> bool" where
  "grantable s \<longleftrightarrow> s \<in> set HOUSEHOLD_SCOPES - {''bystander''}"

definition hh_actor :: "pv \<Rightarrow> string result" where
  "hh_actor v = fp_text v 128"

fun valid_signed :: "store_keys \<Rightarrow> dict list \<Rightarrow> dict list result" where
  "valid_signed ks [] = Inr []"
| "valid_signed ks (row # rest) =
     bind_r (authority_verify ks row) (\<lambda>ok. bind_r (valid_signed ks rest) (\<lambda>rows. Inr (if ok then row # rows else rows)))"

text \<open>The records of a journal whose field has a given text, oldest first.\<close>

definition record_dict :: "dict \<Rightarrow> dict result" where
  "record_dict row = bind_r (dget row ''record'') (\<lambda>r. case r of PDict d \<Rightarrow> Inr d | _ \<Rightarrow> Inl AttributeError)"

definition records_about :: "store_keys \<Rightarrow> journal \<Rightarrow> string \<Rightarrow> string \<Rightarrow> dict list result" where
  "records_about ks j field value =
     bind_r (valid_signed ks (jn_signed j)) (\<lambda>rows.
     bind_r (map_r record_dict rows) (\<lambda>ds. Inr (filter (\<lambda>d. is_pstr (dget_or d field PNone) value) ds)))"

definition configure_room :: "store_keys \<Rightarrow> string \<Rightarrow> home \<Rightarrow> pv \<Rightarrow> pv \<Rightarrow> pv \<Rightarrow> (home \<times> pv) result" where
  "configure_room ks now h room_id no_mem actor =
     bind_r (fp_text room_id 128) (\<lambda>room. bind_r (hh_actor actor) (\<lambda>who.
     bind_r (case no_mem of PBool b \<Rightarrow> Inr b | _ \<Rightarrow> Inl ValueError) (\<lambda>b.
     bind_r (records_about ks (hh_rooms h) ''room_id'' room) (\<lambda>prior.
     bind_r (if prior = [] then Inr False else bind_r (dget (last prior) ''no_memory'') (\<lambda>v. Inr (truthy v))) (\<lambda>closed.
     guard_r (\<not> (closed \<and> \<not> b)) PermissionError (
     bind_r (journal_append ks now (hh_rooms h) [(''room_id'', PStr room), (''no_memory'', PBool b), (''actor'', PStr who)]) (\<lambda>(j, row).
     bind_r (digest (PDict row)) (\<lambda>dig.
       Inr (h \<lparr>hh_rooms := j, hh_log := hh_log h @ [(''household-room-policy'',
              [(''room_id'', PStr room), (''no_memory'', PBool b), (''digest'', PStr dig)])]\<rparr>, record_of row)))))))))"

definition no_memory :: "store_keys \<Rightarrow> home \<Rightarrow> string \<Rightarrow> bool result" where
  "no_memory ks h room =
     bind_r (records_about ks (hh_rooms h) ''room_id'' room) (\<lambda>policies.
       if policies = [] then Inr False else bind_r (dget (last policies) ''no_memory'') (\<lambda>v. Inr (truthy v)))"

definition optional_str :: "string option \<Rightarrow> pv" where
  "optional_str x = (case x of None \<Rightarrow> PNone | Some s \<Rightarrow> PStr s)"

definition consent ::
  "store_keys \<Rightarrow> string \<Rightarrow> home \<Rightarrow> pv \<Rightarrow> string \<Rightarrow> pv \<Rightarrow> pv \<Rightarrow> pv option \<Rightarrow> string option \<Rightarrow> (home \<times> pv) result" where
  "consent ks now h person_id scope granted grantor proxy_for proxy_authority =
     bind_r (hh_actor person_id) (\<lambda>person. bind_r (hh_actor grantor) (\<lambda>giver.
     bind_r (case granted of PBool b \<Rightarrow> guard_r (grantable scope) ValueError (Inr b) | _ \<Rightarrow> Inl ValueError) (\<lambda>b.
     bind_r (case proxy_for of
               None \<Rightarrow> guard_r (giver = person) PermissionError (Inr None)
             | Some v \<Rightarrow>
                 bind_r (hh_actor v) (\<lambda>p.
                 guard_r (\<not> (p \<noteq> person \<or> giver = person \<or> proxy_authority = None \<or> proxy_authority = Some [])) PermissionError (
                 bind_r (fp_text (optional_str proxy_authority) 256) (\<lambda>_. Inr (Some p))))) (\<lambda>proxy.
     let body = [(''person_id'', PStr person), (''scope'', PStr scope), (''granted'', PBool b), (''grantor'', PStr giver),
                 (''proxy_for'', optional_str proxy), (''proxy_authority'', optional_str proxy_authority)] in
     bind_r (journal_append ks now (hh_consents h) body) (\<lambda>(j, row).
     bind_r (digest (PDict row)) (\<lambda>dig.
       Inr (h \<lparr>hh_consents := j, hh_log := hh_log h @ [(''household-consent'',
              [(''person_id'', PStr person), (''scope'', PStr scope), (''granted'', PBool b), (''proxy'', PBool (proxy \<noteq> None)), (''digest'', PStr dig)])]\<rparr>,
            record_of row)))))))"

definition scope_for :: "store_keys \<Rightarrow> home \<Rightarrow> pv \<Rightarrow> string option result" where
  "scope_for ks h person_id =
     bind_r (hh_actor person_id) (\<lambda>person.
     bind_r (records_about ks (hh_consents h) ''person_id'' person) (\<lambda>rows.
       if rows = [] then Inr None
       else bind_r (dget (last rows) ''granted'') (\<lambda>granted.
         if \<not> truthy granted then Inr None
         else bind_r (dget (last rows) ''scope'') (\<lambda>v. bind_r (fp_text v 32) (\<lambda>s.
              guard_r (grantable s) ValueError (Inr (Some s)))))))"

datatype 'r outcome = Ephemeral string | Persisted 'r "(string \<times> string) list" | Sink_Raised exn

text \<open>A sink that raises does so after the gate was recorded, so its exception is an outcome with the new state.\<close>

text \<open>The loop over the resolver's people: the scopes, or the reason the scene is ephemeral.\<close>

fun admit_people :: "store_keys \<Rightarrow> home \<Rightarrow> pv list \<Rightarrow> (string \<times> string) list \<Rightarrow> (string + (string \<times> string) list) result" where
  "admit_people ks h [] scopes = Inr (Inr scopes)"
| "admit_people ks h (item # people) scopes =
     (case item of
        PDict d \<Rightarrow>
          guard_r (fst ` set d \<subseteq> {''person_id'', ''status''}) ValueError (
          if \<not> is_pstr (dget_or d ''status'' PNone) ''recognized'' \<or> \<not> truthy (dget_or d ''person_id'' PNone)
          then Inr (Inl ''unknown-person-ephemeral'')
          else bind_r (dget d ''person_id'') (\<lambda>v. bind_r (hh_actor v) (\<lambda>person.
               bind_r (scope_for ks h (PStr person)) (\<lambda>s.
                 case s of
                   None \<Rightarrow> Inr (Inl ''consent-required'')
                 | Some scope \<Rightarrow> admit_people ks h people (scopes @ [(person, scope)])))))
      | _ \<Rightarrow> Inl ValueError)"

definition scope_rows :: "(string \<times> string) list \<Rightarrow> pv" where
  "scope_rows scopes = PList (map (\<lambda>(p, s). PDict [(''person_id'', PStr p), (''scope'', PStr s)]) scopes)"

definition observe ::
  "store_keys \<Rightarrow> string \<Rightarrow> home \<Rightarrow> dict \<Rightarrow> pv \<Rightarrow> (dict \<Rightarrow> pv result) \<Rightarrow> (dict \<Rightarrow> (string \<times> string) list \<Rightarrow> dict \<Rightarrow> 'r result)
     \<Rightarrow> (home \<times> 'r outcome) result" where
  "observe ks now h scene room_id identity_resolver persist =
     bind_r (fp_text room_id 128) (\<lambda>room.
     bind_r (no_memory ks h room) (\<lambda>closed.
       if closed then Inr (h, Ephemeral ''no-memory-room'')
       else bind_r (identity_resolver scene) (\<lambda>people.
         case people of
           PList items \<Rightarrow>
             guard_r (length items \<le> 64) ValueError (
             bind_r (admit_people ks h items []) (\<lambda>verdict.
               case verdict of
                 Inl reason \<Rightarrow> Inr (h, Ephemeral reason)
               | Inr scopes \<Rightarrow>
                   bind_r (digest (PDict scene)) (\<lambda>dig.
                   bind_r (journal_append ks now (hh_gates h)
                       [(''room_id'', PStr room), (''scene_digest'', PStr dig), (''scopes'', scope_rows scopes)]) (\<lambda>(j, gate).
                   Inr (h \<lparr>hh_gates := j\<rparr>, case persist scene scopes gate of Inl e \<Rightarrow> Sink_Raised e | Inr result \<Rightarrow> Persisted result scopes)))))
         | _ \<Rightarrow> Inl ValueError)))"

text \<open>The check that a spatial write repeats; \<open>contains_person\<close> counts only when it is \<^verbatim>\<open>True\<close> itself.\<close>

definition nonempty_or :: "pv \<Rightarrow> pv \<Rightarrow> pv" where
  "nonempty_or a b = (if truthy a then a else b)"

definition check_entry :: "store_keys \<Rightarrow> home \<Rightarrow> pv \<Rightarrow> unit result" where
  "check_entry ks h entry =
     (case entry of
        PDict e \<Rightarrow>
          bind_r (scope_for ks h (dget_or e ''person_id'' (PStr []))) (\<lambda>s.
          guard_r (dget_or e ''scope'' PNone = optional_str s) PermissionError (Inr ()))
      | _ \<Rightarrow> Inl AttributeError)"

definition room_closed :: "store_keys \<Rightarrow> home \<Rightarrow> pv \<Rightarrow> bool result" where
  "room_closed ks h room = (case room of PStr r \<Rightarrow> no_memory ks h r | _ \<Rightarrow> Inr False)"

definition assert_spatial_persistable :: "store_keys \<Rightarrow> home \<Rightarrow> dict \<Rightarrow> dict \<Rightarrow> unit result" where
  "assert_spatial_persistable ks h delta context =
     (let room = nonempty_or (dget_or delta ''room_id'' PNone) (dget_or context ''room'' PNone) in
      bind_r (if truthy room then room_closed ks h room else Inr False) (\<lambda>closed.
      guard_r (\<not> closed) PermissionError (
      if dget_or delta ''contains_person'' PNone \<noteq> PBool True then Inr ()
      else case dget_or delta ''household_gate'' PNone of
             PDict gate \<Rightarrow>
               bind_r (authority_verify ks gate) (\<lambda>ok.
               guard_r ok PermissionError (
               bind_r (case dget_or gate ''record'' (PDict []) of PDict r \<Rightarrow> Inr r | _ \<Rightarrow> Inl AttributeError) (\<lambda>record.
               bind_r (digest (PDict (dpop (dpop (dpop delta ''household_gate'') ''contains_person'') ''room_id''))) (\<lambda>dig.
               guard_r (is_pstr (dget_or record ''scene_digest'' PNone) dig) PermissionError (
               guard_r (\<not> (truthy room \<and> dget_or record ''room_id'' PNone \<noteq> room)) PermissionError (
               case dget_or record ''scopes'' (PList []) of
                 PList entries \<Rightarrow> bind_r (map_r (check_entry ks h) entries) (\<lambda>_. Inr ())
               | PStr t \<Rightarrow> if t = [] then Inr () else Inl AttributeError
               | PDict t \<Rightarrow> if t = [] then Inr () else Inl AttributeError
               | _ \<Rightarrow> Inl TypeError))))))
           | _ \<Rightarrow> Inl PermissionError)))"


section \<open>What a verified journal says\<close>

lemma chain_rows:
  "journal_scan ks i p rows = Inr tip \<Longrightarrow> valid_signed ks rows = Inr rows
    \<and> map_r record_dict rows = Inr (map (\<lambda>row. dict_of (record_of row)) rows)
    \<and> map_r (\<lambda>row. dget row ''record'') rows = Inr (map (\<lambda>row. PDict (dict_of (record_of row))) rows)"
proof (induction rows arbitrary: i p)
  case (Cons row rows)
  then obtain h where h: "row_follows ks i p row" "journal_scan ks (Suc i) h rows = Inr tip"
    by (auto simp: journal_scan_Cons simp del: journal_scan.simps(2))
  then obtain r where r: "record_of row = PDict r" "authority_verify ks row = Inr True" "num_eq (dget_or r ''sequence'' PNone) (int i)"
    by (auto simp: row_follows_def)
  then have "map_of row ''record'' = Some (PDict r)"
    by (auto simp: record_of_def dget_or_def num_eq_def split: option.splits)
  with Cons.IH [OF h(2)] r show ?case by (simp add: record_dict_def dget_def)
qed simp

lemma records_about_rows:
  assumes "chain_ok ks j"
  shows "\<exists>rs. journal_records j = Inr rs \<and> records_about ks j f v = Inr (rows_with f v rs)"
proof -
  note c = chain_rows [OF assms [unfolded chain_ok_def]]
  then have "journal_records j = Inr (map (\<lambda>row. PDict (dict_of (record_of row))) (jn_signed j))"
    by (simp add: journal_records_def event_snapshot_def)
  moreover have "is_pstr (dget_or d f PNone) v \<longleftrightarrow> map_of d f = Some (PStr v)" for d
    by (auto simp: is_pstr_def dget_or_def split: option.splits)
  ultimately show ?thesis using c by (simp add: records_about_def rows_with_def comp_def)
qed

text \<open>The latest statement about a person is a grant with this scope; the latest policy of a room closes it.\<close>

definition has_consent :: "home \<Rightarrow> string \<Rightarrow> string \<Rightarrow> bool" where
  "has_consent h person scope \<longleftrightarrow> (\<exists>rs d. journal_records (hh_consents h) = Inr rs \<and> rows_with ''person_id'' person rs \<noteq> []
     \<and> d = last (rows_with ''person_id'' person rs)
     \<and> (\<exists>g. map_of d ''granted'' = Some g \<and> truthy g) \<and> map_of d ''scope'' = Some (PStr scope) \<and> grantable scope)"

definition is_closed :: "home \<Rightarrow> string \<Rightarrow> bool" where
  "is_closed h room \<longleftrightarrow> (\<exists>rs v. journal_records (hh_rooms h) = Inr rs \<and> rows_with ''room_id'' room rs \<noteq> []
     \<and> map_of (last (rows_with ''room_id'' room rs)) ''no_memory'' = Some v \<and> truthy v)"

lemma scope_for_consent:
  assumes "chain_ok ks (hh_consents h)" "scope_for ks h (PStr person) = Inr (Some s)"
  shows "has_consent h person s"
proof -
  have "hh_actor (PStr person) = Inr person" using assms(2) by (auto simp: scope_for_def result_simps hh_actor_def fp_text_Inr)
  with assms(2) records_about_rows [OF assms(1), of "''person_id''" person] show ?thesis
    by (auto simp: scope_for_def result_simps has_consent_def fp_text_Inr dget_def split: if_splits)
qed

lemma no_memory_closed:
  assumes "chain_ok ks (hh_rooms h)" "no_memory ks h room = Inr b"
  shows "b \<longleftrightarrow> is_closed h room"
  using assms(2) records_about_rows [OF assms(1), of "''room_id''" room]
  by (auto simp: no_memory_def result_simps is_closed_def split: if_splits)

definition recognized_as :: "pv \<Rightarrow> string \<Rightarrow> bool" where
  "recognized_as item person \<longleftrightarrow> (\<exists>d. item = PDict d \<and> fst ` set d \<subseteq> {''person_id'', ''status''}
     \<and> map_of d ''status'' = Some (PStr ''recognized'') \<and> map_of d ''person_id'' = Some (PStr person))"

lemma admit_people_ok:
  assumes "chain_ok ks (hh_consents h)" "admit_people ks h items acc = Inr (Inr scopes)"
  shows "\<exists>rest. scopes = acc @ rest \<and> list_all2 (\<lambda>item (p, s). recognized_as item p \<and> has_consent h p s) items rest"
  using assms(2)
proof (induction items arbitrary: acc)
  case (Cons item items)
  from Cons.prems obtain d v person s where d: "item = PDict d" "fst ` set d \<subseteq> {''person_id'', ''status''}"
    "is_pstr (dget_or d ''status'' PNone) ''recognized''" "map_of d ''person_id'' = Some v" "hh_actor v = Inr person"
    "scope_for ks h (PStr person) = Inr (Some s)" "admit_people ks h items (acc @ [(person, s)]) = Inr (Inr scopes)"
    by (auto simp: result_simps split: pv.splits if_splits option.splits)
  from d(3,4,5) have "map_of d ''status'' = Some (PStr ''recognized'')" "v = PStr person"
    by (auto simp: is_pstr_def dget_or_def hh_actor_def fp_text_Inr split: option.splits)
  with d have "recognized_as item person" by (simp add: recognized_as_def)
  with Cons.IH [OF d(7)] scope_for_consent [OF assms(1) d(6)] show ?case by force
qed simp

text \<open>A withdrawal takes effect at once, and a closed room stays closed: what the interface of the log gives.\<close>

lemma withdrawn_consent:
  assumes "keys_ok ks" "chain_ok ks (hh_consents h)"
    and "consent ks now h (PStr person) scope (PBool False) grantor proxy_for authority = Inr (h', r)"
  shows "\<not> has_consent h' person s"
proof -
  from assms(3) obtain body j row where b: "journal_append ks now (hh_consents h) body = Inr (j, row)" "hh_consents h' = j"
    "map_of body ''person_id'' = Some (PStr person)" "map_of body ''granted'' = Some (PBool False)"
    by (auto simp: consent_def result_simps Let_def hh_actor_def fp_text_Inr)
  obtain rs where rs: "journal_records (hh_consents h) = Inr rs" using records_about_rows [OF assms(2)] by blast
  from jl.append_same_key [OF b(1) rs b(3)] obtain rs' r' where n: "journal_records j = Inr rs'"
    "rows_with ''person_id'' person rs' = rows_with ''person_id'' person rs @ [r']" "kept body r'" by auto
  have "map_of r' ''granted'' = Some (PBool False)" using keptD [OF n(3)] b(4) by simp
  with n b(2) show ?thesis by (auto simp: has_consent_def truthy_def)
qed

lemma configure_room_Inr:
  assumes "configure_room ks now h room_id no_mem actor = Inr (h', r)"
  shows "\<exists>target who b prior closed j row. records_about ks (hh_rooms h) ''room_id'' target = Inr prior
    \<and> (if prior = [] then Inr False else bind_r (dget (last prior) ''no_memory'') (\<lambda>v. Inr (truthy v))) = (Inr closed :: bool result)
    \<and> (closed \<longrightarrow> b) \<and> hh_rooms h' = j
    \<and> journal_append ks now (hh_rooms h) [(''room_id'', PStr target), (''no_memory'', PBool b), (''actor'', PStr who)] = Inr (j, row)"
proof -
  from assms obtain target who b prior closed j row where "records_about ks (hh_rooms h) ''room_id'' target = Inr prior"
    "(if prior = [] then Inr False else bind_r (dget (last prior) ''no_memory'') (\<lambda>v. Inr (truthy v))) = (Inr closed :: bool result)"
    "\<not> (closed \<and> \<not> b)" "hh_rooms h' = j"
    "journal_append ks now (hh_rooms h) [(''room_id'', PStr target), (''no_memory'', PBool b), (''actor'', PStr who)] = Inr (j, row)"
    unfolding configure_room_def by (clarsimp simp: bind_r_Inr guard_r_Inr split: prod.splits)
  then show ?thesis by blast
qed

lemma closed_room_stays:
  assumes "chain_ok ks (hh_rooms h)" "is_closed h room" "configure_room ks now h room_id no_mem actor = Inr (h', r)"
  shows "is_closed h' room"
proof -
  from assms(2) obtain rs v where rs: "journal_records (hh_rooms h) = Inr rs" "rows_with ''room_id'' room rs \<noteq> []"
    "map_of (last (rows_with ''room_id'' room rs)) ''no_memory'' = Some v" "truthy v" by (auto simp: is_closed_def)
  from configure_room_Inr [OF assms(3)] obtain target who b prior closed j row where
    c: "records_about ks (hh_rooms h) ''room_id'' target = Inr prior"
      "(if prior = [] then Inr False else bind_r (dget (last prior) ''no_memory'') (\<lambda>v. Inr (truthy v))) = (Inr closed :: bool result)"
      "closed \<longrightarrow> b" "hh_rooms h' = j"
      "journal_append ks now (hh_rooms h) [(''room_id'', PStr target), (''no_memory'', PBool b), (''actor'', PStr who)] = Inr (j, row)" by blast
  show ?thesis
  proof (cases "target = room")
    case True
    have "records_about ks (hh_rooms h) ''room_id'' room = Inr (rows_with ''room_id'' room rs)"
      using records_about_rows [OF assms(1), of "''room_id''" room] rs(1) by simp
    with c(1-3) rs True have b by (simp add: dget_def)
    from jl.append_same_key [OF c(5) rs(1), of "''room_id''" room] True obtain rs' r' where
      n: "journal_records j = Inr rs'" "rows_with ''room_id'' room rs' = rows_with ''room_id'' room rs @ [r']"
        "kept [(''room_id'', PStr target), (''no_memory'', PBool b), (''actor'', PStr who)] r'" by auto
    have "map_of r' ''no_memory'' = Some (PBool b)" using keptD [OF n(3)] by simp
    with n c(4) \<open>b\<close> show ?thesis by (auto simp: is_closed_def truthy_def)
  next
    case False
    with jl.append_other_key [OF c(5) rs(1), of "''room_id''" room] obtain rs' where
      "journal_records j = Inr rs'" "rows_with ''room_id'' room rs' = rows_with ''room_id'' room rs" by auto
    with rs c(4) show ?thesis by (auto simp: is_closed_def)
  qed
qed

text \<open>
  C22: A scene is persisted only when the room is not closed and every person the resolver reports
  is recognized and has a standing grant: the latest statement about that person is a grant, whose
  scope is the one handed to the sink. The write gate is recorded first. In every other case, a mixed
  scene included, the state of the store does not change.
\<close>

theorem observe_only_consented:
  assumes "chain_ok ks (hh_rooms h)" "chain_ok ks (hh_consents h)"
    and "observe ks now h scene room_id resolver persist = Inr (h', out)"
  shows "(\<exists>reason. out = Ephemeral reason \<and> h' = h)
    \<or> (\<exists>room items scopes gate. fp_text room_id 128 = Inr room \<and> \<not> is_closed h room \<and> resolver scene = Inr (PList items)
        \<and> list_all2 (\<lambda>item (p, s). recognized_as item p \<and> has_consent h p s) items scopes
        \<and> jn_signed (hh_gates h') = jn_signed (hh_gates h) @ [gate] \<and> hh_consents h' = hh_consents h
        \<and> out = (case persist scene scopes gate of Inl e \<Rightarrow> Sink_Raised e | Inr result \<Rightarrow> Persisted result scopes))"
proof -
  from assms(3) obtain room closed where r: "fp_text room_id 128 = Inr room" "no_memory ks h room = Inr closed"
    by (auto simp: observe_def result_simps)
  show ?thesis
  proof (cases closed)
    case True
    with assms(3) r show ?thesis by (auto simp: observe_def)
  next
    case False
    with assms(3) r obtain items verdict where i: "resolver scene = Inr (PList items)" "admit_people ks h items [] = Inr verdict"
      by (auto simp: observe_def result_simps)
    have open_room: "\<not> is_closed h room" using no_memory_closed [OF assms(1) r(2)] False by simp
    show ?thesis
    proof (cases verdict)
      case (Inl reason)
      with assms(3) r i False show ?thesis by (auto simp: observe_def result_simps)
    next
      case (Inr scopes)
      with assms(3) r i False obtain dig j gate where a: "journal_append ks now (hh_gates h)
          [(''room_id'', PStr room), (''scene_digest'', PStr dig), (''scopes'', scope_rows scopes)] = Inr (j, gate)"
        "h' = h \<lparr>hh_gates := j\<rparr>" "out = (case persist scene scopes gate of Inl e \<Rightarrow> Sink_Raised e | Inr result \<Rightarrow> Persisted result scopes)"
        by (auto simp: observe_def result_simps)
      from journal_append_Inr [OF a(1)] have "jn_signed j = jn_signed (hh_gates h) @ [gate]" by auto
      moreover from admit_people_ok [OF assms(2)] i(2) Inr
      have "list_all2 (\<lambda>item (p, s). recognized_as item p \<and> has_consent h p s) items scopes" by force
      ultimately show ?thesis using r(1) i(1) open_room a(2,3) by auto
    qed
  qed
qed


definition sample_home :: home where
  "sample_home = \<lparr>hh_rooms = empty_journal, hh_consents = empty_journal, hh_gates = empty_journal, hh_log = []\<rparr>"

definition sample_people :: pv where
  "sample_people = PList [PDict [(''person_id'', PStr ''ann''), (''status'', PStr ''recognized'')]]"

theorem observe_only_consented_witness:
  "\<exists>h'. observe sample_keys ''t'' sample_home [] (PStr ''hall'') (\<lambda>scene. Inr sample_people) (\<lambda>s c g. Inr ()) = Inr (h', Ephemeral ''consent-required'')
    \<and> h' = sample_home"
proof -
  have o: "observe sample_keys ''t'' sample_home [] (PStr ''hall'') (\<lambda>scene. Inr sample_people) (\<lambda>s c g. Inr ()) = Inr (sample_home, Ephemeral ''consent-required'')"
    by (simp add: observe_def no_memory_def records_about_def sample_home_def empty_journal_def sample_people_def scope_for_def
      hh_actor_def fp_text_def py_len_def NUL_def char_of_def is_pstr_def dget_or_def dget_def truthy_def)
  have "chain_ok sample_keys (hh_rooms sample_home)" "chain_ok sample_keys (hh_consents sample_home)"
    by (simp_all add: sample_home_def empty_chain)
  from observe_only_consented [OF this o] o show ?thesis by auto
qed

end
