(* ===== verification/Mesh.thy ===== *)
theory Mesh
  imports Journal "HOL-Library.Product_Lexorder"
begin

text \<open>
  The signed site mesh of robots, \<^verbatim>\<open>unimem/mesh_crdt.py\<close>: key registration and revocation, signed
  operations, their verification with taints for the refused ones, and the deterministic merge of an
  observed-remove set and multi-value registers. Ed25519 is the parameter \<open>ed25519\<close>; the branch of
  \<^verbatim>\<open>merge\<close> that carries the operations through the Automerge package is not modelled. An operation that
  fails may have written a taint before it raises, so operations return the new state beside the
  result.
\<close>

record mesh =
  ms_robots :: journal
  ms_revoked :: journal
  ms_ops :: journal
  ms_taints :: journal
  ms_contradictions :: journal

type_synonym 'a step = "mesh \<times> 'a result"

definition then_s :: "'a step \<Rightarrow> (mesh \<Rightarrow> 'a \<Rightarrow> 'b step) \<Rightarrow> 'b step" where
  "then_s x f = (case x of (m, Inl e) \<Rightarrow> (m, Inl e) | (m, Inr v) \<Rightarrow> f m v)"

definition pure_s :: "mesh \<Rightarrow> 'a result \<Rightarrow> (mesh \<Rightarrow> 'a \<Rightarrow> 'b step) \<Rightarrow> 'b step" where
  "pure_s m r f = then_s (m, r) f"

lemma then_s_simps [simp]: "then_s (m, Inl e) f = (m, Inl e)" "then_s (m, Inr v) f = f m v"
  "pure_s m (Inl e) g = (m, Inl e)" "pure_s m (Inr v) g = g m v"
  by (simp_all add: then_s_def pure_s_def)

section \<open>Journals of the mesh\<close>

text \<open>\<^verbatim>\<open>any(row["robot_id"] == robot for row in rows)\<close>: the rows before the first match must have the field.\<close>

fun any_robot :: "pv list \<Rightarrow> pv \<Rightarrow> bool result" where
  "any_robot [] robot = Inr False"
| "any_robot (row # rows) robot = bind_r (row_field row ''robot_id'') (\<lambda>v. if v = robot then Inr True else any_robot rows robot)"

definition rows_of_robot :: "pv list \<Rightarrow> string \<Rightarrow> dict list result" where
  "rows_of_robot rows robot =
     bind_r (map_r (\<lambda>row. bind_r (row_field row ''robot_id'') (\<lambda>v. Inr (v, dict_of row))) rows) (\<lambda>ps.
       Inr (map snd (filter (\<lambda>p. fst p = PStr robot) ps)))"

text \<open>
  The comparison of the latest registration with the new one, \<^verbatim>\<open>prior[-1] != body\<close>, is between a row of
  the journal, which also has the fields of the chain, and a body without them.
\<close>

definition same_dict :: "dict \<Rightarrow> dict \<Rightarrow> bool" where
  "same_dict a b \<longleftrightarrow> fst ` set a = fst ` set b \<and> list_all (\<lambda>k. map_of a k = map_of b k) (map fst a)"

definition register_robot :: "store_keys \<Rightarrow> string \<Rightarrow> bool \<Rightarrow> mesh \<Rightarrow> pv \<Rightarrow> string \<Rightarrow> dict step" where
  "register_robot ks now operator m robot_id public_key =
     pure_s m (guard_r operator PermissionError (
       bind_r (fp_text robot_id 128) (\<lambda>robot.
       bind_r (case fromhex public_key of None \<Rightarrow> Inl ValueError | Some k \<Rightarrow> Inr k) (\<lambda>k.
       guard_r (length k = 32) ValueError (
       bind_r (digest (PStr public_key)) (\<lambda>dig.
       bind_r (journal_records (ms_robots m)) (\<lambda>rows.
       bind_r (rows_of_robot rows robot) (\<lambda>prior.
       let body = [(''robot_id'', PStr robot), (''public_key'', PStr public_key), (''key_digest'', PStr dig)] in
       guard_r (prior = [] \<or> same_dict (last prior) body) ValueError (Inr (prior, body)))))))))) (\<lambda>m (prior, body).
     if prior \<noteq> [] then (m, Inr (last prior))
     else pure_s m (journal_append ks now (ms_robots m) body) (\<lambda>m (j, row). (m \<lparr>ms_robots := j\<rparr>, Inr (dict_of (record_of row)))))"

definition revoke_robot :: "store_keys \<Rightarrow> string \<Rightarrow> bool \<Rightarrow> mesh \<Rightarrow> pv \<Rightarrow> pv \<Rightarrow> dict step" where
  "revoke_robot ks now operator m robot_id reason =
     pure_s m (guard_r operator PermissionError (
       bind_r (fp_text robot_id 128) (\<lambda>robot. bind_r (fp_text reason 256) (\<lambda>why.
       bind_r (journal_records (ms_robots m)) (\<lambda>robots.
       bind_r (any_robot robots (PStr robot)) (\<lambda>known.
       guard_r known KeyError (
       bind_r (journal_records (ms_revoked m)) (\<lambda>revoked.
       bind_r (any_robot revoked (PStr robot)) (\<lambda>again.
       bind_r (if again then bind_r (rows_of_robot revoked robot) (\<lambda>rs. Inr (Some (hd rs))) else Inr None) (\<lambda>found.
         Inr (robot, why, found))))))))))) (\<lambda>m (robot, why, found).
     case found of
       Some row \<Rightarrow> (m, Inr row)
     | None \<Rightarrow> pure_s m (journal_append ks now (ms_revoked m) [(''robot_id'', PStr robot), (''reason'', PStr why), (''at'', PStr now)])
         (\<lambda>m (j, row). (m \<lparr>ms_revoked := j\<rparr>, Inr (dict_of (record_of row)))))"

section \<open>Signing an operation\<close>

definition text_set :: "pv list \<Rightarrow> string list result" where
  "text_set items = bind_r (map_r (\<lambda>v. fp_text v 64) items) (\<lambda>ts. Inr (sorted_set ts))"

definition MAX_COUNTER :: int where
  "MAX_COUNTER = 2 ^ 63 - 1"

definition operation_body ::
  "pv \<Rightarrow> pv \<Rightarrow> string \<Rightarrow> pv \<Rightarrow> pv \<Rightarrow> pv \<Rightarrow> pv list \<Rightarrow> pv list \<Rightarrow> pv \<Rightarrow> dict result" where
  "operation_body robot_id counter operation entity value field parents targets safety =
     bind_r (case safety of PBool b \<Rightarrow> Inr b | _ \<Rightarrow> Inl ValueError) (\<lambda>safe.
     guard_r (operation \<in> {''add'', ''remove'', ''put''}) ValueError (
     bind_r (fp_text robot_id 128) (\<lambda>robot. bind_r (fp_count counter 1 MAX_COUNTER) (\<lambda>n.
     bind_r (fp_text entity 128) (\<lambda>ent. bind_r (fp_text field 128) (\<lambda>fld. bind_r (text_set parents) (\<lambda>ps.
     let body = [(''robot_id'', PStr robot), (''counter'', PInt n), (''operation'', PStr operation), (''entity'', PStr ent), (''field'', PStr fld),
                 (''parents'', PList (map PStr ps)), (''safety'', PBool safe)] in
     if operation \<in> {''add'', ''put''} then bind_r (wire value) (\<lambda>_. Inr (body @ [(''value'', value)]))
     else bind_r (text_set targets) (\<lambda>ts. guard_r (ts \<noteq> []) ValueError (Inr (body @ [(''targets'', PList (map PStr ts))]))))))))))"

text \<open>\<open>public_of\<close>: the public key that belongs to a private one, from the package.\<close>

definition sign_operation ::
  "ed25519 \<Rightarrow> (string \<Rightarrow> string) \<Rightarrow> pv \<Rightarrow> string \<Rightarrow> pv \<Rightarrow> string \<Rightarrow> pv \<Rightarrow> pv \<Rightarrow> pv \<Rightarrow> pv list \<Rightarrow> pv list \<Rightarrow> pv \<Rightarrow> dict result" where
  "sign_operation ed public_of robot_id private_key counter operation entity value field parents targets safety =
     bind_r (case fromhex private_key of None \<Rightarrow> Inl ValueError | Some k \<Rightarrow> Inr k) (\<lambda>secret.
     guard_r (length secret = 32) ValueError (
     bind_r (operation_body robot_id counter operation entity value field parents targets safety) (\<lambda>body.
     bind_r (digest (PDict body)) (\<lambda>ident.
     let full = body @ [(''id'', PStr ident)] in
     bind_r (wire (PDict full)) (\<lambda>msg.
     bind_r (digest (PStr (hex (public_of secret)))) (\<lambda>kd.
       Inr [(''body'', PDict full), (''signature'', PStr (b64encode (ed_sign ed secret msg))), (''public_key_digest'', PStr kd)]))))))"

section \<open>Verification\<close>

definition robot_keys :: "pv list \<Rightarrow> (pv \<times> pv) list result" where
  "robot_keys rows =
     bind_r (map_r (\<lambda>row. bind_r (row_field row ''robot_id'') (\<lambda>r. bind_r (row_field row ''public_key'') (\<lambda>k. Inr (r, k)))) rows) (\<lambda>ps.
       Inr (foldl (\<lambda>d (r, k). dset d r k) [] ps))"

text \<open>\<^verbatim>\<open>str(v)\<close> of a value that can be a dictionary key.\<close>

definition key_text :: "pv \<Rightarrow> string" where
  "key_text v = (case v of PNone \<Rightarrow> ''None'' | PBool b \<Rightarrow> if b then ''True'' else ''False'' | PInt i \<Rightarrow> show_int i | PFloat f \<Rightarrow> f | PStr s \<Rightarrow> s | _ \<Rightarrow> [])"

definition refuse :: "store_keys \<Rightarrow> string \<Rightarrow> mesh \<Rightarrow> pv \<Rightarrow> pv \<Rightarrow> string \<Rightarrow> 'a step" where
  "refuse ks now m robot operation_id reason =
     pure_s m (journal_append ks now (ms_taints m) [(''robot_id'', robot), (''operation_id'', operation_id), (''reason'', PStr reason)])
       (\<lambda>m (j, row). (m \<lparr>ms_taints := j\<rparr>, Inl PermissionError))"

definition signature_ok :: "ed25519 \<Rightarrow> pv \<Rightarrow> pv \<Rightarrow> dict \<Rightarrow> bool" where
  "signature_ok ed key sig body =
     (case (key, sig, wire (PDict body)) of
        (PStr k, PStr s, Inr msg) \<Rightarrow>
          (case (fromhex k, b64decode s) of (Some public, Some raw) \<Rightarrow> length public = 32 \<and> ed_verify ed public raw msg | _ \<Rightarrow> False)
      | _ \<Rightarrow> False)"

definition mesh_verify :: "store_keys \<Rightarrow> string \<Rightarrow> mesh \<Rightarrow> dict \<Rightarrow> dict step" where
  "mesh_verify ks now m envelope =
     (case dget_or envelope ''body'' PNone of
        PDict body \<Rightarrow>
          if \<not> keys_are envelope [''body'', ''signature'', ''public_key_digest''] then (m, Inl ValueError)
          else
            (let robot = dget_or body ''robot_id'' PNone; ident = dget_or body ''id'' (PStr []) in
             pure_s m (bind_r (journal_records (ms_robots m)) robot_keys) (\<lambda>m keys.
             if is_list robot \<or> is_dict robot then (m, Inl TypeError)
             else pure_s m (case map_of keys robot of None \<Rightarrow> Inr None | Some k \<Rightarrow> bind_r (digest k) (\<lambda>d. Inr (Some (k, d)))) (\<lambda>m known.
             case known of
               None \<Rightarrow> refuse ks now m (PStr (key_text robot)) ident ''unknown or mismatched robot key''
             | Some (key, dig) \<Rightarrow>
                 if dget_or envelope ''public_key_digest'' PNone \<noteq> PStr dig
                 then refuse ks now m (PStr (key_text robot)) ident ''unknown or mismatched robot key''
                 else pure_s m (bind_r (journal_records (ms_revoked m)) (\<lambda>rows. any_robot rows robot)) (\<lambda>m revoked.
                   if revoked then refuse ks now m robot ident ''revoked robot operation''
                   else if \<not> signature_ok (sk_ed ks) key (dget_or envelope ''signature'' PNone) body
                   then refuse ks now m robot ident ''invalid operation signature''
                   else pure_s m (digest (PDict (dpop body ''id''))) (\<lambda>m expected.
                     if dget_or body ''id'' PNone \<noteq> PStr expected then (m, Inl ValueError) else (m, Inr body))))))
      | _ \<Rightarrow> (m, Inl ValueError))"

definition ids_of :: "pv list \<Rightarrow> pv list result" where
  "ids_of rows = map_r (\<lambda>row. row_field row ''id'') rows"

fun apply_loop :: "store_keys \<Rightarrow> string \<Rightarrow> mesh \<Rightarrow> dict list \<Rightarrow> pv list \<Rightarrow> pv list \<Rightarrow> pv list step" where
  "apply_loop ks now m [] prior accepted = (m, Inr accepted)"
| "apply_loop ks now m (envelope # rest) prior accepted =
     then_s (mesh_verify ks now m envelope) (\<lambda>m body.
     pure_s m (dget body ''id'') (\<lambda>m ident.
     if ident \<in> set prior then apply_loop ks now m rest prior accepted
     else pure_s m (journal_append ks now (ms_ops m)
            (dset (dset body ''signature'' (dget_or envelope ''signature'' PNone)) ''public_key_digest'' (dget_or envelope ''public_key_digest'' PNone)))
            (\<lambda>m (j, row). apply_loop ks now (m \<lparr>ms_ops := j\<rparr>) rest (prior @ [ident]) (accepted @ [ident]))))"

definition mesh_apply :: "store_keys \<Rightarrow> string \<Rightarrow> mesh \<Rightarrow> dict list \<Rightarrow> pv list step" where
  "mesh_apply ks now m envelopes =
     pure_s m (count_int (int (length envelopes)) 1 100000) (\<lambda>m _.
     pure_s m (bind_r (journal_records (ms_ops m)) ids_of) (\<lambda>m prior. apply_loop ks now m envelopes prior []))"


section \<open>The merge\<close>

text \<open>An accepted operation, as \<^verbatim>\<open>sign_operation\<close> lays it out; \<open>read_op\<close> reads the fields the merge subscripts.\<close>

datatype op_kind = Op_Add | Op_Remove | Op_Put | Op_Other

record mop =
  mo_id :: string
  mo_robot :: string
  mo_counter :: pv
  mo_kind :: op_kind
  mo_entity :: string
  mo_field :: string
  mo_parents :: "string list"
  mo_safety :: bool
  mo_value :: pv
  mo_targets :: "string list"

definition get_text :: "dict \<Rightarrow> string \<Rightarrow> string result" where
  "get_text d k = bind_r (dget d k) (\<lambda>v. case v of PStr s \<Rightarrow> Inr s | _ \<Rightarrow> Inl TypeError)"

definition get_texts :: "pv \<Rightarrow> string list result" where
  "get_texts v = (case v of PList xs \<Rightarrow> map_r (\<lambda>x. case x of PStr s \<Rightarrow> Inr s | _ \<Rightarrow> Inl TypeError) xs | _ \<Rightarrow> Inl TypeError)"

definition read_op :: "dict \<Rightarrow> mop result" where
  "read_op d =
     bind_r (get_text d ''id'') (\<lambda>i. bind_r (get_text d ''robot_id'') (\<lambda>r. bind_r (get_text d ''operation'') (\<lambda>oper.
     let k = (if oper = ''add'' then Op_Add else if oper = ''remove'' then Op_Remove else if oper = ''put'' then Op_Put else Op_Other) in
     bind_r (if k = Op_Add then dget d ''counter'' else Inr PNone) (\<lambda>c.
     bind_r (if k \<in> {Op_Add, Op_Put} then get_text d ''entity'' else Inr []) (\<lambda>e.
     bind_r (if k = Op_Put then get_text d ''field'' else Inr []) (\<lambda>f.
     bind_r (get_texts (dget_or d ''parents'' (PList []))) (\<lambda>ps.
     bind_r (if k = Op_Remove then bind_r (dget d ''targets'') get_texts else Inr []) (\<lambda>ts.
     bind_r (if k = Op_Put then dget d ''value'' else Inr (dget_or d ''value'' PNone)) (\<lambda>v.
       Inr \<lparr>mo_id = i, mo_robot = r, mo_counter = c, mo_kind = k, mo_entity = e, mo_field = f, mo_parents = ps,
            mo_safety = truthy (dget_or d ''safety'' (PBool False)), mo_value = v, mo_targets = ts\<rparr>)))))))))"

text \<open>\<^verbatim>\<open>{op["id"]: op for op in ops}\<close>: the last operation of an identity, at the place of the first.\<close>

definition by_id :: "mop list \<Rightarrow> (string \<times> mop) list" where
  "by_id ops = foldl (\<lambda>d x. dset d (mo_id x) x) [] ops"

text \<open>The causal past of an operation: depth-first over the parents; \<open>pending\<close> is a stack with its top at the end.\<close>

definition parents_in :: "(string \<times> mop) list \<Rightarrow> string \<Rightarrow> string list" where
  "parents_in table i = (case map_of table i of None \<Rightarrow> [] | Some x \<Rightarrow> mo_parents x)"

definition known_ids :: "(string \<times> mop) list \<Rightarrow> string set" where
  "known_ids table = (\<Union>p \<in> set table. set (mo_parents (snd p)))"

lemma finite_known_ids [simp]: "finite (known_ids table)"
  by (simp add: known_ids_def)

lemma parents_in_known: "set (parents_in table i) \<subseteq> known_ids table"
proof (cases "map_of table i")
  case (Some x)
  from map_of_SomeD [OF this] show ?thesis by (force simp: parents_in_def known_ids_def Some)
qed (simp add: parents_in_def)

function ancestor_loop :: "(string \<times> mop) list \<Rightarrow> string list \<Rightarrow> string list \<Rightarrow> string list" where
  "ancestor_loop table result pending =
     (if pending = [] then result
      else if last pending \<in> set result then ancestor_loop table result (butlast pending)
      else ancestor_loop table (last pending # result) (butlast pending @ parents_in table (last pending)))"
  by pat_completeness auto
termination
proof (relation "inv_image (less_than <*lex*> less_than) (\<lambda>(table, result, pending).
    (card ((known_ids table \<union> set pending) - set result), length pending))", goal_cases)
  case (2 table result pending)
  have "known_ids table \<union> set (butlast pending) - set result \<subseteq> known_ids table \<union> set pending - set result"
    using in_set_butlastD by fastforce
  then have "card (known_ids table \<union> set (butlast pending) - set result) \<le> card (known_ids table \<union> set pending - set result)"
    by (intro card_mono) auto
  with 2 show ?case by (auto simp: le_less)
next
  case (3 table result pending)
  have "known_ids table \<union> set (butlast pending @ parents_in table (last pending)) - set (last pending # result)
      \<subset> known_ids table \<union> set pending - set result"
    using 3 parents_in_known [of table "last pending"] last_in_set [of pending] by (auto dest: in_set_butlastD)
  then have "card (known_ids table \<union> set (butlast pending @ parents_in table (last pending)) - set (last pending # result))
      < card (known_ids table \<union> set pending - set result)" by (intro psubset_card_mono) auto
  then show ?case by simp
qed (auto intro: wf_inv_image wf_lex_prod)

declare ancestor_loop.simps [simp del]

definition op_ancestors :: "(string \<times> mop) list \<Rightarrow> string \<Rightarrow> string list" where
  "op_ancestors table i = ancestor_loop table [] (parents_in table i)"

record site_item =
  si_tag :: string
  si_value :: pv
  si_safety :: bool
  si_robot :: string
  si_counter :: pv

record site_view =
  sv_entities :: "(string \<times> site_item list) list"
  sv_registers :: "(string \<times> pv) list"
  sv_contradictions :: "(string \<times> string \<times> (string \<times> pv) list) list"
  sv_active :: nat

definition item_of :: "mop \<Rightarrow> site_item" where
  "item_of x = \<lparr>si_tag = mo_id x, si_value = mo_value x, si_safety = mo_safety x, si_robot = mo_robot x, si_counter = mo_counter x\<rparr>"

text \<open>Grouping by a key into a dictionary of lists, read in the order of the keys.\<close>

definition grouped :: "('a \<Rightarrow> 'k::linorder) \<Rightarrow> 'a list \<Rightarrow> ('k \<times> 'a list) list" where
  "grouped key xs = map (\<lambda>k. (k, filter (\<lambda>x. key x = k) xs)) (sorted_set (map key xs))"

definition live_adds :: "mop list \<Rightarrow> mop list" where
  "live_adds live =
     (let adds = by_id (filter (\<lambda>x. mo_kind x = Op_Add) live);
          removed = concat (map mo_targets (filter (\<lambda>x. mo_kind x = Op_Remove) live)) in
      map snd (filter (\<lambda>(tag, x). tag \<notin> set removed \<or> mo_safety x) adds))"

definition site_entities :: "mop list \<Rightarrow> (string \<times> site_item list) list" where
  "site_entities live = map (\<lambda>(e, xs). (e, sort_key si_tag (map item_of xs))) (grouped mo_entity (live_adds live))"

text \<open>The writes of a register that no other write of it supersedes; \<^verbatim>\<open>other is not row\<close> compares positions.\<close>

definition maximal_writes :: "(string \<times> mop) list \<Rightarrow> mop list \<Rightarrow> mop list" where
  "maximal_writes table rows =
     map ((!) rows) (filter (\<lambda>i. \<not> list_ex (\<lambda>j. j \<noteq> i \<and> mo_id (rows ! i) \<in> set (op_ancestors table (mo_id (rows ! j)))) [0 ..< length rows])
       [0 ..< length rows])"

datatype settled = Agreed pv | Conflict "(string \<times> pv) list"

definition digests_of :: "mop list \<Rightarrow> string list result" where
  "digests_of rows = map_r (\<lambda>x. digest (mo_value x)) rows"

definition settle :: "(string \<times> mop) list \<Rightarrow> mop list \<Rightarrow> settled result" where
  "settle table rows =
     bind_r (digests_of rows) (\<lambda>ds.
       if length (remdups ds) \<le> 1 then Inr (Agreed (mo_value (hd rows)))
       else
         (let best = maximal_writes table rows in
          bind_r (digests_of best) (\<lambda>bs.
            if length (remdups bs) = 1 then Inr (Agreed (mo_value (hd best)))
            else Inr (Conflict (map snd (sort_key fst (map (\<lambda>(x, d). ((mo_robot x, d), (mo_robot x, mo_value x))) (zip best bs))))))))"

definition register_name :: "string \<Rightarrow> string \<Rightarrow> string" where
  "register_name e f = e @ ''/'' @ f"

definition merge_views :: "mop list \<Rightarrow> string list \<Rightarrow> site_view result" where
  "merge_views operations revoked =
     (let live = filter (\<lambda>x. mo_robot x \<notin> set revoked) operations;
          table = by_id live in
      bind_r (map_r (\<lambda>(k, rows). bind_r (settle table rows) (\<lambda>s. Inr (k, s)))
               (grouped (\<lambda>x. (mo_entity x, mo_field x)) (filter (\<lambda>x. mo_kind x = Op_Put) live))) (\<lambda>rs.
        Inr \<lparr>sv_entities = site_entities live,
             sv_registers = foldl (\<lambda>d ((e, f), s). case s of Agreed v \<Rightarrow> dset d (register_name e f) v | Conflict _ \<Rightarrow> d) [] rs,
             sv_contradictions = concat (map (\<lambda>((e, f), s). case s of Agreed _ \<Rightarrow> [] | Conflict vs \<Rightarrow> [(e, f, vs)]) rs),
             sv_active = length live\<rparr>))"

text \<open>\<^verbatim>\<open>merge\<close> without the Automerge package: operations of revoked robots are tainted once, then left out.\<close>

fun taint_revoked :: "store_keys \<Rightarrow> string \<Rightarrow> mesh \<Rightarrow> (string \<times> string) list \<Rightarrow> string list \<Rightarrow> pv list \<Rightarrow> unit step" where
  "taint_revoked ks now m [] revoked tainted = (m, Inr ())"
| "taint_revoked ks now m ((robot, ident) # ops) revoked tainted =
     (if robot \<in> set revoked \<and> PStr ident \<notin> set tainted
      then pure_s m (journal_append ks now (ms_taints m) [(''robot_id'', PStr robot), (''operation_id'', PStr ident),
             (''reason'', PStr ''historical operation invalidated by robot revocation'')])
             (\<lambda>m (j, row). taint_revoked ks now (m \<lparr>ms_taints := j\<rparr>) ops revoked tainted)
      else taint_revoked ks now m ops revoked tainted)"

definition contradiction_pv :: "string \<times> string \<times> (string \<times> pv) list \<Rightarrow> pv" where
  "contradiction_pv c = (case c of (e, f, vs) \<Rightarrow>
     PDict [(''entity'', PStr e), (''field'', PStr f), (''values'', PList (map (\<lambda>(r, v). PList [PStr r, v]) vs))])"

definition row_text :: "string \<Rightarrow> pv \<Rightarrow> string result" where
  "row_text k row = bind_r (row_field row k) (\<lambda>v. case v of PStr s \<Rightarrow> Inr s | _ \<Rightarrow> Inl TypeError)"

definition mesh_merge :: "store_keys \<Rightarrow> string \<Rightarrow> mesh \<Rightarrow> site_view step" where
  "mesh_merge ks now m =
     pure_s m (bind_r (journal_records (ms_revoked m)) (map_r (row_text ''robot_id''))) (\<lambda>m revoked.
     pure_s m (journal_records (ms_ops m)) (\<lambda>m rows.
     pure_s m (map_r (\<lambda>row. bind_r (row_text ''robot_id'' row) (\<lambda>r. bind_r (row_text ''id'' row) (\<lambda>i. Inr (r, i)))) rows) (\<lambda>m named.
     pure_s m (bind_r (journal_records (ms_taints m)) (\<lambda>rows. Inr (map (\<lambda>row. dget_or (dict_of row) ''operation_id'' PNone) rows))) (\<lambda>m tainted.
     then_s (taint_revoked ks now m named revoked tainted) (\<lambda>m _.
     pure_s m (map_r (\<lambda>(row, r, i). read_op (dict_of row)) (filter (\<lambda>(row, r, i). r \<notin> set revoked) (zip rows named))) (\<lambda>m accepted.
     pure_s m (merge_views accepted revoked) (\<lambda>m view.
     if sv_contradictions view = [] then (m, Inr view)
     else pure_s m (journal_append ks now (ms_contradictions m)
            [(''contradictions'', PList (map contradiction_pv (sv_contradictions view))), (''at'', PStr now)])
            (\<lambda>m (j, row). (m \<lparr>ms_contradictions := j\<rparr>, Inr view)))))))))"

section \<open>The merge does not depend on the order of operations\<close>

lemma dset_new: "k \<notin> fst ` set d \<Longrightarrow> dset d k v = d @ [(k, v)]"
  by (induction d k v rule: dset.induct) auto

lemma by_id_distinct: "distinct (map mo_id xs) \<Longrightarrow> by_id xs = map (\<lambda>x. (mo_id x, x)) xs"
proof -
  have "foldl (\<lambda>d x. dset d (mo_id x) x) d xs = d @ map (\<lambda>x. (mo_id x, x)) xs"
    if "distinct (map mo_id xs)" "fst ` set d \<inter> mo_id ` set xs = {}" for d
    using that by (induction xs arbitrary: d) (auto simp: dset_new)
  then show "distinct (map mo_id xs) \<Longrightarrow> by_id xs = map (\<lambda>x. (mo_id x, x)) xs" by (simp add: by_id_def)
qed

lemma by_id_perm:
  assumes "distinct (map mo_id xs)" "mset xs = mset ys"
  shows "map_of (by_id xs) = map_of (by_id ys)"
proof -
  have "distinct (map mo_id ys)" using assms by (metis mset_eq_imp_distinct_iff mset_map)
  moreover have "set xs = set ys" using assms(2) by (rule mset_eq_setD)
  ultimately show ?thesis using assms(1) by (simp add: by_id_distinct map_of_inject_set comp_def)
qed

lemma ancestor_loop_cong: "map_of t = map_of t' \<Longrightarrow> ancestor_loop t r p = ancestor_loop t' r p"
proof (induction t r p rule: ancestor_loop.induct)
  case (1 t r p)
  then show ?case by (subst (1 2) ancestor_loop.simps) (simp add: parents_in_def)
qed

lemma op_ancestors_cong: "map_of t = map_of t' \<Longrightarrow> op_ancestors t i = op_ancestors t' i"
  using ancestor_loop_cong [of t t'] by (simp add: op_ancestors_def parents_in_def)

lemma grouped_perm:
  assumes "mset xs = mset ys"
  shows "list_all2 (\<lambda>(k, as) (k', bs). k = k' \<and> as \<noteq> [] \<and> mset as = mset bs) (grouped f xs) (grouped f ys)"
proof -
  have "sorted_set (map f xs) = sorted_set (map f ys)" by (rule sorted_set_eqI) (metis assms list.set_map mset_eq_setD)
  moreover have "mset (filter P xs) = mset (filter P ys)" for P using assms by simp
  moreover have "filter (\<lambda>x. f x = k) xs \<noteq> []" if "k \<in> set (sorted_set (map f xs))" for k
    using that by (auto simp: filter_empty_conv)
  ultimately show ?thesis by (auto simp: grouped_def list_all2_map1 list_all2_map2 list.rel_refl_strong intro!: list.rel_refl_strong)
qed

lemma map_eq_rel: "list_all2 R xs ys \<Longrightarrow> (\<And>x y. x \<in> set xs \<Longrightarrow> R x y \<Longrightarrow> f x = g y) \<Longrightarrow> map f xs = map g ys"
  by (induction rule: list_all2_induct) auto

lemma live_adds_distinct:
  assumes "distinct (map mo_id live)"
  shows "live_adds live = filter (\<lambda>x. mo_kind x = Op_Add \<and> (mo_id x \<notin> (\<Union>y \<in> {y \<in> set live. mo_kind y = Op_Remove}. set (mo_targets y)) \<or> mo_safety x)) live"
proof -
  have "distinct (map mo_id (filter (\<lambda>x. mo_kind x = Op_Add) live))" using assms by (rule distinct_map_filter)
  then show ?thesis by (auto simp: live_adds_def by_id_distinct filter_map comp_def Let_def intro!: filter_cong)
qed

lemma site_entities_perm:
  assumes "distinct (map mo_id live)" "mset live = mset live'"
  shows "site_entities live = site_entities live'"
proof -
  have d: "distinct (map mo_id live')" using assms by (metis mset_eq_imp_distinct_iff mset_map)
  have "set live = set live'" using assms(2) by (rule mset_eq_setD)
  then have m: "mset (live_adds live) = mset (live_adds live')"
    using assms(2) by (simp add: live_adds_distinct [OF assms(1)] live_adds_distinct [OF d])
  have sub: "set (live_adds live) \<subseteq> set live" by (auto simp: live_adds_distinct [OF assms(1)])
  have same: "sort_key si_tag (map item_of as) = sort_key si_tag (map item_of bs)"
    if "(k, as) \<in> set (grouped mo_entity (live_adds live))" "mset as = mset bs" for k as bs
  proof (rule sort_key_inj_key_eq)
    show "mset (map item_of as) = mset (sort_key si_tag (map item_of bs))" using that(2) by simp
    have "set as \<subseteq> set live" using that(1) sub by (auto simp: grouped_def)
    then have "inj_on mo_id (set as)" using assms(1) by (auto simp: distinct_map intro: inj_on_subset)
    then show "inj_on si_tag (set (map item_of as))" by (auto simp: inj_on_def item_of_def)
  qed simp
  show ?thesis unfolding site_entities_def
  proof (rule map_eq_rel [OF grouped_perm [OF m]], goal_cases)
    case (1 p q)
    obtain k as where p: "p = (k, as)" by fastforce
    obtain bs where q: "q = (k, bs)" "mset as = mset bs" using 1(2) p by (auto split: prod.splits)
    have "(k, as) \<in> set (grouped mo_entity (live_adds live))" using 1(1) p by simp
    from same [OF this q(2)] show ?case using p q by simp
  qed
qed

text \<open>Values enter the comparison by their digest: what the merge itself compares.\<close>

definition commit_value :: "pv \<Rightarrow> pv" where
  "commit_value v = (case digest v of Inr h \<Rightarrow> PStr h | Inl _ \<Rightarrow> PNone)"

definition commit_settled :: "settled \<Rightarrow> settled" where
  "commit_settled s = (case s of Agreed v \<Rightarrow> Agreed (commit_value v) | Conflict vs \<Rightarrow> Conflict (map (map_prod id commit_value) vs))"

lemma digest_error: "digest v = Inl e \<Longrightarrow> e = ValueError"
  by (auto simp: digest_def wire_cases result_simps split: if_splits)

definition dig :: "pv \<Rightarrow> string" where
  "dig v = (case digest v of Inr h \<Rightarrow> h | Inl _ \<Rightarrow> [])"

lemma digests_of_cases:
  "digests_of rows = (if \<forall>x \<in> set rows. \<exists>h. digest (mo_value x) = Inr h then Inr (map (\<lambda>x. dig (mo_value x)) rows) else Inl ValueError)"
proof (induction rows)
  case (Cons x rows)
  then show ?case
    by (cases "digest (mo_value x)") (auto simp: digests_of_def dig_def dest: digest_error)
qed (simp add: digests_of_def)

lemma maximal_writes_distinct:
  assumes "distinct (map mo_id rows)"
  shows "maximal_writes t rows = filter (\<lambda>x. \<not> (\<exists>y \<in> set rows. y \<noteq> x \<and> mo_id x \<in> set (op_ancestors t (mo_id y)))) rows" (is "_ = filter ?P rows")
proof -
  have d: "distinct rows" using assms by (simp add: distinct_map)
  have "filter ?P rows = filter ?P (map ((!) rows) [0 ..< length rows])" by (simp add: map_nth)
  also have "\<dots> = map ((!) rows) (filter (\<lambda>i. ?P (rows ! i)) [0 ..< length rows])" by (simp add: filter_map comp_def)
  also have "filter (\<lambda>i. ?P (rows ! i)) [0 ..< length rows]
      = filter (\<lambda>i. \<not> list_ex (\<lambda>j. j \<noteq> i \<and> mo_id (rows ! i) \<in> set (op_ancestors t (mo_id (rows ! j)))) [0 ..< length rows]) [0 ..< length rows]"
  proof (rule filter_cong [OF refl], goal_cases)
    case (1 i)
    have "(\<exists>y \<in> set rows. y \<noteq> rows ! i \<and> Q y) =  (\<exists>j < length rows. j \<noteq> i \<and> Q (rows ! j))" for Q
    proof
      assume "\<exists>y \<in> set rows. y \<noteq> rows ! i \<and> Q y"
      then show "\<exists>j < length rows. j \<noteq> i \<and> Q (rows ! j)" by (auto simp: in_set_conv_nth)
    next
      assume "\<exists>j < length rows. j \<noteq> i \<and> Q (rows ! j)"
      then obtain j where "j < length rows" "j \<noteq> i" "Q (rows ! j)" by blast
      moreover from this have "rows ! j \<noteq> rows ! i" using d 1 by (simp add: nth_eq_iff_index_eq)
      ultimately show "\<exists>y \<in> set rows. y \<noteq> rows ! i \<and> Q y" using nth_mem by blast
    qed
    from this [of "\<lambda>y. mo_id (rows ! i) \<in> set (op_ancestors t (mo_id y))"] show ?case
      unfolding list_ex_iff by (simp only: set_upt atLeast0LessThan lessThan_iff Bex_def) 
  qed
  finally show ?thesis by (simp add: maximal_writes_def)
qed

lemma settle_perm:
  assumes "distinct (map mo_id rows)" "mset rows = mset rows'" "rows \<noteq> []" "map_of t = map_of t'"
  shows "map_sum id commit_settled (settle t rows) = map_sum id commit_settled (settle t' rows')"
proof -
  let ?ok = "\<lambda>x. \<exists>h. digest (mo_value x) = Inr h"
  let ?d = "\<lambda>x. dig (mo_value x)"
  have commit: "commit_value (mo_value x) = PStr (?d x)" if "?ok x" for x using that by (auto simp: commit_value_def dig_def)
  have s: "set rows = set rows'" using assms(2) by (rule mset_eq_setD)
  have d': "distinct (map mo_id rows')" using assms(1,2) by (metis mset_eq_imp_distinct_iff mset_map)
  let ?best = "maximal_writes t rows" and ?best' = "maximal_writes t' rows'"
  have best: "mset ?best = mset ?best'" "set ?best \<subseteq> set rows" "set ?best' \<subseteq> set rows"
    using assms(2) s op_ancestors_cong [OF assms(4)]
    by (auto simp: maximal_writes_distinct [OF assms(1)] maximal_writes_distinct [OF d'])
  then have sb: "set ?best = set ?best'" by (metis mset_eq_setD)
  have agree: "commit_value (mo_value (hd as)) = commit_value (mo_value (hd bs))"
    if "as \<noteq> []" "set as = set bs" "length (remdups (map ?d as)) \<le> 1" "\<forall>x \<in> set as. ?ok x" for as bs
  proof -
    have m: "hd as \<in> set as" "hd bs \<in> set as" using that(1,2) by (metis hd_in_set empty_set set_empty)+
    have "card (?d ` set as) \<le> 1" using that(3) by (simp add: length_remdups_card_conv)
    then have "\<forall>a \<in> ?d ` set as. \<forall>b \<in> ?d ` set as. a = b" by (subst card_le_Suc0_iff_eq [symmetric]) simp_all
    then have "?d (hd as) = ?d (hd bs)" using m by blast
    moreover have "?ok (hd as)" "?ok (hd bs)" using m that(4) by blast+
    ultimately show ?thesis by (simp only: commit)
  qed
  show ?thesis
  proof (cases "\<forall>x \<in> set rows. ?ok x")
    case False
    then have "digests_of rows = Inl ValueError" "digests_of rows' = Inl ValueError" using s by (simp_all only: digests_of_cases if_False)
    then show ?thesis by (simp add: settle_def)
  next
    case ok: True
    then have okb: "\<forall>x \<in> set ?best. ?ok x" "\<forall>x \<in> set ?best'. ?ok x" using best by blast+
    have l: "length (remdups (map ?d rows)) = length (remdups (map ?d rows'))"
      "length (remdups (map ?d ?best)) = length (remdups (map ?d ?best'))"
      using s sb by (simp_all add: length_remdups_card_conv)
    consider (one) "length (remdups (map ?d rows)) \<le> 1"
      | (best) "\<not> length (remdups (map ?d rows)) \<le> 1" "length (remdups (map ?d ?best)) = 1"
      | (many) "\<not> length (remdups (map ?d rows)) \<le> 1" "length (remdups (map ?d ?best)) \<noteq> 1" by blast
    then show ?thesis
    proof cases
      case one
      with ok s l(1) agree [OF assms(3) s one ok] show ?thesis by (simp add: settle_def digests_of_cases commit_settled_def)
    next
      case best
      then have "?best \<noteq> []" by auto
      with agree [of ?best ?best'] sb best okb ok s l show ?thesis
        by (simp add: settle_def digests_of_cases commit_settled_def Let_def)
    next
      case many
      let ?pair = "\<lambda>x. ((mo_robot x, ?d x), (mo_robot x, mo_value x))"
      have zip: "map (\<lambda>(x, d). ((mo_robot x, d), (mo_robot x, mo_value x))) (zip xs (map ?d xs)) = map ?pair xs" for xs
        by (induction xs) auto
      have pairs: "map (map_prod id commit_value) (map snd (sort_key fst (map ?pair xs))) = map (map_prod id PStr) (sort (map (\<lambda>x. (mo_robot x, ?d x)) xs))"
        if "\<forall>x \<in> set xs. ?ok x" for xs
      proof -
        have "map (map_prod id commit_value) (map snd (sort_key fst (map ?pair xs))) = map (map_prod id PStr) (map fst (sort_key fst (map ?pair xs)))"
          using that commit by (auto intro!: map_cong)
        also have "map fst (sort_key fst (map ?pair xs)) = sort (map (\<lambda>x. (mo_robot x, ?d x)) xs)"
          by (rule properties_for_sort [symmetric]) (simp_all add: image_mset.compositionality comp_def)
        finally show ?thesis .
      qed
      have "sort (map (\<lambda>x. (mo_robot x, ?d x)) ?best) = sort (map (\<lambda>x. (mo_robot x, ?d x)) ?best')"
        by (rule properties_for_sort) (simp_all add: best(1) mset_map)
      with pairs [OF okb(1)] pairs [OF okb(2)]
      have "map (map_prod id commit_value) (map snd (sort_key fst (map ?pair ?best)))
          = map (map_prod id commit_value) (map snd (sort_key fst (map ?pair ?best')))" by (simp only:)
      then show ?thesis using many okb ok s l
        by (simp add: settle_def digests_of_cases commit_settled_def Let_def zip)
    qed
  qed
qed


definition view_commitment :: "site_view \<Rightarrow> site_view" where
  "view_commitment view = view
     \<lparr>sv_registers := map (map_prod id commit_value) (sv_registers view),
      sv_contradictions := map (\<lambda>(e, f, vs). (e, f, map (map_prod id commit_value) vs)) (sv_contradictions view)\<rparr>"

lemma map_r_rel:
  assumes "list_all2 R xs ys" "\<And>x y. x \<in> set xs \<Longrightarrow> R x y \<Longrightarrow> map_sum id h (f x) = map_sum id h (g y)"
  shows "map_sum id (map h) (map_r f xs) = map_sum id (map h) (map_r g ys)"
  using assms
proof (induction rule: list_all2_induct)
  case (Cons x xs y ys)
  have "map_sum id h (f x) = map_sum id h (g y)" "map_sum id (map h) (map_r f xs) = map_sum id (map h) (map_r g ys)"
    using Cons.IH Cons.prems Cons.hyps(1) by (metis list.set_intros(1,2))+
  then show ?case by (cases "f x"; cases "g y"; cases "map_r f xs"; cases "map_r g ys") simp_all
qed simp

lemma map_dset: "map (map_prod id h) (dset d k v) = dset (map (map_prod id h) d) k (h v)"
  by (induction d k v rule: dset.induct) auto

definition add_register :: "(string \<times> pv) list \<Rightarrow> (string \<times> string) \<times> settled \<Rightarrow> (string \<times> pv) list" where
  "add_register d r = (case r of ((e, f), s) \<Rightarrow> (case s of Agreed v \<Rightarrow> dset d (register_name e f) v | Conflict _ \<Rightarrow> d))"

definition conflict_of :: "(string \<times> string) \<times> settled \<Rightarrow> (string \<times> string \<times> (string \<times> pv) list) list" where
  "conflict_of r = (case r of ((e, f), s) \<Rightarrow> (case s of Agreed _ \<Rightarrow> [] | Conflict vs \<Rightarrow> [(e, f, vs)]))"

lemma registers_commit:
  "map (map_prod id commit_value) (foldl add_register d rs)
    = foldl add_register (map (map_prod id commit_value) d) (map (map_prod id commit_settled) rs)"
  by (induction rs arbitrary: d) (auto simp: add_register_def commit_settled_def map_dset split: settled.splits)

lemma conflicts_commit:
  "map (\<lambda>(e, f, vs). (e, f, map (map_prod id commit_value) vs)) (concat (map conflict_of rs))
    = concat (map conflict_of (map (map_prod id commit_settled) rs))"
  by (induction rs) (auto simp: conflict_of_def commit_settled_def split: settled.splits)

lemma merge_views_alt:
  "merge_views operations revoked =
     (let live = filter (\<lambda>x. mo_robot x \<notin> set revoked) operations in
      bind_r (map_r (\<lambda>(k, rows). bind_r (settle (by_id live) rows) (\<lambda>s. Inr (k, s)))
               (grouped (\<lambda>x. (mo_entity x, mo_field x)) (filter (\<lambda>x. mo_kind x = Op_Put) live))) (\<lambda>rs.
        Inr \<lparr>sv_entities = site_entities live, sv_registers = foldl add_register [] rs,
             sv_contradictions = concat (map conflict_of rs), sv_active = length live\<rparr>))"
proof -
  have "(\<lambda>d ((e, f), s). case s of Agreed v \<Rightarrow> dset d (register_name e f) v | Conflict _ \<Rightarrow> d) = add_register"
    by (auto simp: add_register_def fun_eq_iff)
  moreover have "(\<lambda>((e, f), s). case s of Agreed _ \<Rightarrow> [] | Conflict vs \<Rightarrow> [(e, f, vs)]) = conflict_of"
    by (auto simp: conflict_of_def fun_eq_iff)
  ultimately show ?thesis by (simp add: merge_views_def Let_def)
qed

text \<open>
  C23: The merge is deterministic: whatever the order in which the operations arrived, it gives the
  same site items, the same registers with the same values, and the same contradictions with the
  same competing values, values being compared by their digest as the merge itself compares them;
  and it raises in one order exactly when it raises in the other.
\<close>

theorem merge_order_independent:
  assumes "distinct (map mo_id ops)" "mset ops = mset ops'" "set revoked = set revoked'"
  shows "map_sum id view_commitment (merge_views ops revoked) = map_sum id view_commitment (merge_views ops' revoked')"
proof -
  define live where "live = filter (\<lambda>x. mo_robot x \<notin> set revoked) ops"
  define live' where "live' = filter (\<lambda>x. mo_robot x \<notin> set revoked') ops'"
  let ?key = "\<lambda>x. (mo_entity x, mo_field x)" and ?puts = "filter (\<lambda>x. mo_kind x = Op_Put)"
  let ?f = "\<lambda>t (k, rows). bind_r (settle t rows) (\<lambda>s. Inr (k, s))"
  have m: "mset live = mset live'" using assms(2,3) by (simp add: live_def live'_def)
  have d: "distinct (map mo_id live)" unfolding live_def using assms(1) by (rule distinct_map_filter)
  have puts: "mset (?puts live) = mset (?puts live')" using m by simp
  have "map_sum id (map (map_prod id commit_settled)) (map_r (?f (by_id live)) (grouped ?key (?puts live)))
      = map_sum id (map (map_prod id commit_settled)) (map_r (?f (by_id live')) (grouped ?key (?puts live')))"
  proof (rule map_r_rel [OF grouped_perm [OF puts]], goal_cases)
    case (1 p q)
    obtain k as where p: "p = (k, as)" by fastforce
    obtain bs where q: "q = (k, bs)" "mset as = mset bs" "as \<noteq> []" using 1(2) p by (auto split: prod.splits)
    have "distinct (map mo_id as)" using 1(1) p d by (auto simp: grouped_def intro: distinct_map_filter)
    from settle_perm [OF this q(2,3) by_id_perm [OF d m]] show ?case unfolding p q(1)
      by (cases "settle (by_id live) as"; cases "settle (by_id live') bs") simp_all
  qed
  moreover have "site_entities live = site_entities live'" by (rule site_entities_perm [OF d m])
  moreover have "length live = length live'" using m by (rule mset_eq_length)
  ultimately show ?thesis unfolding merge_views_alt Let_def live_def [symmetric] live'_def [symmetric]
    by (cases "map_r (?f (by_id live)) (grouped ?key (?puts live))"; cases "map_r (?f (by_id live')) (grouped ?key (?puts live'))")
      (simp_all add: view_commitment_def registers_commit conflicts_commit del: map_map)
qed

definition sample_op :: "string \<Rightarrow> string \<Rightarrow> op_kind \<Rightarrow> string list \<Rightarrow> bool \<Rightarrow> mop" where
  "sample_op i robot k targets safe = \<lparr>mo_id = i, mo_robot = robot, mo_counter = PInt 1, mo_kind = k, mo_entity = ''door'', mo_field = ''value'',
     mo_parents = [], mo_safety = safe, mo_value = PNone, mo_targets = targets\<rparr>"

theorem merge_order_independent_witness:
  "(let a = sample_op ''1'' ''r'' Op_Add [] False; b = sample_op ''2'' ''s'' Op_Remove [''1''] False in
    map_sum id view_commitment (merge_views [a, b] []) = map_sum id view_commitment (merge_views [b, a] [])
    \<and> merge_views [a, b] [] = Inr \<lparr>sv_entities = [], sv_registers = [], sv_contradictions = [], sv_active = 2\<rparr>)"
proof -
  let ?a = "sample_op ''1'' ''r'' Op_Add [] False" and ?b = "sample_op ''2'' ''s'' Op_Remove [''1''] False"
  have "merge_views [?a, ?b] [] = Inr \<lparr>sv_entities = [], sv_registers = [], sv_contradictions = [], sv_active = 2\<rparr>"
  proof -
    have kinds: "filter (\<lambda>x. mo_kind x = Op_Remove) [?a, ?b] = [?b]" "filter (\<lambda>x. mo_kind x = Op_Add) [?a, ?b] = [?a]"
      "filter (\<lambda>x. mo_kind x = Op_Put) [?a, ?b] = []" by (simp_all add: sample_op_def)
    have "live_adds [?a, ?b] = []" unfolding live_adds_def kinds by (simp add: by_id_def) (simp add: sample_op_def)
    then show ?thesis by (simp add: merge_views_def site_entities_def grouped_def sorted_set_def kinds del: filter.simps(2))
  qed
  moreover have "map_sum id view_commitment (merge_views [?a, ?b] []) = map_sum id view_commitment (merge_views [?b, ?a] [])"
    by (rule merge_order_independent) (simp_all add: sample_op_def)
  ultimately show ?thesis by (simp add: Let_def)
qed

section \<open>Only vouched operations are recorded\<close>

definition vouched :: "store_keys \<Rightarrow> mesh \<Rightarrow> dict \<Rightarrow> dict \<Rightarrow> bool" where
  "vouched ks m envelope body \<longleftrightarrow>
     (\<exists>rows keys revoked robot key kd i. map_of envelope ''body'' = Some (PDict body)
       \<and> robot = dget_or body ''robot_id'' PNone \<and> journal_records (ms_robots m) = Inr rows \<and> robot_keys rows = Inr keys
       \<and> map_of keys robot = Some key \<and> digest key = Inr kd \<and> dget_or envelope ''public_key_digest'' PNone = PStr kd
       \<and> journal_records (ms_revoked m) = Inr revoked \<and> any_robot revoked robot = Inr False
       \<and> signature_ok (sk_ed ks) key (dget_or envelope ''signature'' PNone) body
       \<and> digest (PDict (dpop body ''id'')) = Inr i \<and> map_of body ''id'' = Some (PStr i))"

definition tainted_once :: "mesh \<Rightarrow> mesh \<Rightarrow> bool" where
  "tainted_once m m' \<longleftrightarrow> (\<exists>j row. m' = m \<lparr>ms_taints := j\<rparr> \<and> jn_signed j = jn_signed (ms_taints m) @ [row])"

lemma refuse_cases:
  assumes "refuse ks now m robot ident reason = (m', r)"
  shows "(\<exists>e. r = Inl e) \<and> (m' = m \<or> tainted_once m m' \<and> r = Inl PermissionError)"
proof (cases "journal_append ks now (ms_taints m) [(''robot_id'', robot), (''operation_id'', ident), (''reason'', PStr reason)]")
  case (Inr p)
  then obtain j row where p: "p = (j, row)" by fastforce
  from journal_append_Inr [OF Inr [unfolded p]] have "jn_signed j = jn_signed (ms_taints m) @ [row]" by auto
  with Inr p assms show ?thesis by (auto simp: refuse_def tainted_once_def)
qed (use assms in \<open>auto simp: refuse_def\<close>)

lemma pure_s_cases: "pure_s m r f = (m', v) \<Longrightarrow> (\<exists>e. r = Inl e \<and> m' = m \<and> v = Inl e) \<or> (\<exists>x. r = Inr x \<and> f m x = (m', v))"
  by (cases r) auto

lemma str_field: "dget_or d k PNone = PStr s \<longleftrightarrow> map_of d k = Some (PStr s)"
  by (auto simp: dget_or_def split: option.splits)

lemma dict_field: "dget_or d k PNone = PDict b \<longleftrightarrow> map_of d k = Some (PDict b)"
  by (auto simp: dget_or_def split: option.splits)

lemma mesh_verify_Inr:
  assumes "mesh_verify ks now m envelope = (m', Inr body)"
  shows "m' = m \<and> vouched ks m envelope body"
proof -
  have no: "refuse ks now m robot ident reason \<noteq> (m', Inr body)" for robot ident reason
    using refuse_cases by blast
  from assms obtain b where b: "dget_or envelope ''body'' PNone = PDict b" by (auto simp: mesh_verify_def split: pv.splits)
  with assms no show ?thesis
    by (auto simp: mesh_verify_def Let_def vouched_def bind_r_Inr str_field dict_field split: if_splits option.splits dest!: pure_s_cases)
qed


lemma refuse_taint: "refuse ks now m robot ident reason = (m', Inl e) \<Longrightarrow> m' = m \<or> tainted_once m m' \<and> e = PermissionError"
  using refuse_cases [of ks now m robot ident reason m' "Inl e"] by auto

lemma mesh_verify_Inl:
  assumes "mesh_verify ks now m envelope = (m', Inl e)"
  shows "m' = m \<or> tainted_once m m' \<and> e = PermissionError"
proof (cases "\<exists>b. dget_or envelope ''body'' PNone = PDict b")
  case False
  then show ?thesis using assms by (auto simp: mesh_verify_def split: pv.splits)
next
  case True
  then obtain b where "dget_or envelope ''body'' PNone = PDict b" ..
  with assms show ?thesis
    by (auto simp: mesh_verify_def Let_def split: if_splits option.splits dest!: pure_s_cases refuse_taint)
qed

text \<open>What a run of \<open>apply_loop\<close> leaves behind.\<close>

definition recorded_from :: "store_keys \<Rightarrow> mesh \<Rightarrow> dict list \<Rightarrow> dict \<Rightarrow> bool" where
  "recorded_from ks m envelopes row \<longleftrightarrow> (\<exists>envelope body r. envelope \<in> set envelopes \<and> vouched ks m envelope body \<and> map_of row ''record'' = Some (PDict r)
     \<and> map_of r ''id'' = map_of body ''id'' \<and> map_of r ''robot_id'' = map_of body ''robot_id'')"

definition only_taints_and_ops :: "mesh \<Rightarrow> mesh \<Rightarrow> bool" where
  "only_taints_and_ops m m' \<longleftrightarrow> ms_robots m' = ms_robots m \<and> ms_revoked m' = ms_revoked m \<and> ms_contradictions m' = ms_contradictions m"

lemma vouched_cong: "ms_robots m' = ms_robots m \<Longrightarrow> ms_revoked m' = ms_revoked m \<Longrightarrow> vouched ks m' = vouched ks m"
  by (simp add: vouched_def fun_eq_iff)

lemma apply_loop_ok:
  assumes "apply_loop ks now m envelopes prior accepted = (m', r)"
  shows "only_taints_and_ops m m'
    \<and> (\<exists>added. jn_signed (ms_ops m') = jn_signed (ms_ops m) @ added \<and> list_all (recorded_from ks m envelopes) added
        \<and> (\<forall>ids. r = Inr ids \<longrightarrow> length ids = length accepted + length added))
    \<and> (jn_signed (ms_taints m') = jn_signed (ms_taints m)
        \<or> r = Inl PermissionError \<and> (\<exists>row. jn_signed (ms_taints m') = jn_signed (ms_taints m) @ [row]))
    \<and> (\<forall>ids. r = Inr ids \<longrightarrow> (\<forall>envelope \<in> set envelopes. \<exists>body. vouched ks m envelope body))"
  using assms
proof (induction envelopes arbitrary: m prior accepted)
  case Nil
  then show ?case by (auto simp: only_taints_and_ops_def)
next
  case (Cons envelope rest)
  obtain m1 v where v: "mesh_verify ks now m envelope = (m1, v)" by fastforce
  show ?case
  proof (cases v)
    case (Inl e)
    with v Cons.prems mesh_verify_Inl [of ks now m envelope m1 e] show ?thesis
      by (auto simp: only_taints_and_ops_def tainted_once_def)
  next
    case (Inr body)
    with v mesh_verify_Inr [of ks now m envelope m1 body] have m1: "m1 = m" and vb: "vouched ks m envelope body" by auto
    then obtain i where i: "map_of body ''id'' = Some (PStr i)" by (auto simp: vouched_def)
    show ?thesis
    proof (cases "PStr i \<in> set prior")
      case True
      with Cons.prems v Inr m1 i have "apply_loop ks now m rest prior accepted = (m', r)" by (simp add: dget_def)
      from Cons.IH [OF this] vb show ?thesis by (fastforce simp: recorded_from_def list_all_iff)
    next
      case False
      let ?rec = "dset (dset body ''signature'' (dget_or envelope ''signature'' PNone)) ''public_key_digest'' (dget_or envelope ''public_key_digest'' PNone)"
      show ?thesis
      proof (cases "journal_append ks now (ms_ops m) ?rec")
        case (Inl e)
        with Cons.prems v Inr m1 i False show ?thesis by (auto simp: dget_def only_taints_and_ops_def)
      next
        case appended: (Inr p)
        then obtain j row where p: "p = (j, row)" by fastforce
        from journal_append_Inr [OF appended [unfolded p]] obtain h used where
          s: "seal ks now (length (jn_signed (ms_ops m))) (jn_tip (ms_ops m)) (jn_bytes (ms_ops m)) ?rec = Inr (row, h, used)"
            "jn_signed j = jn_signed (ms_ops m) @ [row]" by auto
        have row: "recorded_from ks m (envelope # rest) row"
          using sealed_record [OF s(1)] vb by (auto simp: recorded_from_def stamped_lookup)
        let ?m = "m \<lparr>ms_ops := j\<rparr>"
        have same: "recorded_from ks ?m es = recorded_from ks m es" "vouched ks ?m = vouched ks m" for es
          by (simp_all add: recorded_from_def fun_eq_iff vouched_def)
        from Cons.prems v Inr m1 i False appended p
        have "apply_loop ks now ?m rest (prior @ [PStr i]) (accepted @ [PStr i]) = (m', r)" by (simp add: dget_def)
        from Cons.IH [OF this, unfolded same] obtain added where
          ih: "only_taints_and_ops ?m m'" "jn_signed (ms_ops m') = jn_signed j @ added" "list_all (recorded_from ks m rest) added"
            "\<forall>ids. r = Inr ids \<longrightarrow> length ids = Suc (length accepted) + length added"
            "jn_signed (ms_taints m') = jn_signed (ms_taints m) \<or> r = Inl PermissionError \<and> (\<exists>row. jn_signed (ms_taints m') = jn_signed (ms_taints m) @ [row])"
            "\<forall>ids. r = Inr ids \<longrightarrow> (\<forall>envelope \<in> set rest. \<exists>body. vouched ks m envelope body)" by auto
        have "list_all (recorded_from ks m (envelope # rest)) (row # added)"
          using row ih(3) by (fastforce simp: recorded_from_def list_all_iff)
        moreover have "jn_signed (ms_ops m') = jn_signed (ms_ops m) @ (row # added)" using ih(2) s(2) by simp
        moreover have "only_taints_and_ops m m'" using ih(1) by (simp add: only_taints_and_ops_def)
        ultimately show ?thesis using ih(4,5,6) vb by (intro conjI exI [of _ "row # added"]) auto
      qed
    qed
  qed
qed


definition empty_mesh :: mesh where
  "empty_mesh = \<lparr>ms_robots = empty_journal, ms_revoked = empty_journal, ms_ops = empty_journal, ms_taints = empty_journal, ms_contradictions = empty_journal\<rparr>"


text \<open>Registering a robot again, with the key it has, is refused: the row compared has the fields of the chain.\<close>

lemma scanned_sequence:
  "journal_scan ks i p rows = Inr tip \<Longrightarrow> map_r (\<lambda>row. dget row ''record'') rows = Inr rs \<Longrightarrow> r \<in> set rs \<Longrightarrow> map_of (dict_of r) ''sequence'' \<noteq> None"
proof (induction rows arbitrary: i p rs)
  case (Cons row rows)
  then obtain h where h: "row_follows ks i p row" "journal_scan ks (Suc i) h rows = Inr tip"
    by (auto simp: journal_scan_Cons simp del: journal_scan.simps(2))
  from Cons.prems(2) obtain d ds where d: "dget row ''record'' = Inr d" "map_r (\<lambda>row. dget row ''record'') rows = Inr ds" "rs = d # ds"
    by (auto simp: bind_r_Inr)
  have "map_of (dict_of d) ''sequence'' \<noteq> None"
    using h(1) d(1) by (auto simp: row_follows_def record_of_def dget_or_def dget_def num_eq_def split: option.splits)
  with Cons.IH [OF h(2) d(2)] Cons.prems(3) d(3) show ?case by auto
qed simp

lemma rows_of_robot_sub:
  assumes "rows_of_robot rows robot = Inr prior"
  shows "set prior \<subseteq> dict_of ` set rows"
proof
  fix d
  assume "d \<in> set prior"
  with assms obtain ps v where ps: "map_r (\<lambda>row. bind_r (row_field row ''robot_id'') (\<lambda>v. Inr (v, dict_of row))) rows = Inr ps" "(v, d) \<in> set ps"
    by (auto simp: rows_of_robot_def bind_r_Inr)
  from map_r_mem [OF this] obtain row where "row \<in> set rows" "bind_r (row_field row ''robot_id'') (\<lambda>v. Inr (v, dict_of row)) = Inr (v, d)" ..
  then show "d \<in> dict_of ` set rows" by (auto simp: bind_r_Inr)
qed

lemma registered_again_refused:
  assumes "chain_ok ks (ms_robots m)" "journal_records (ms_robots m) = Inr rows" "rows_of_robot rows robot = Inr prior" "prior \<noteq> []"
  shows "\<exists>e. register_robot ks now operator m (PStr robot) public_key = (m, Inl e)"
proof -
  have "set prior \<subseteq> dict_of ` set rows" by (rule rows_of_robot_sub [OF assms(3)])
  moreover have "last prior \<in> set prior" using assms(4) by simp
  ultimately obtain r where r: "r \<in> set rows" "last prior = dict_of r" by auto
  have "map_of (last prior) ''sequence'' \<noteq> None"
    using scanned_sequence [OF assms(1) [unfolded chain_ok_def] _ r(1)] assms(2) r(2)
    by (auto simp: journal_records_def event_snapshot_def bind_r_Inr)
  then have seq: "''sequence'' \<in> fst ` set (last prior)" by (simp add: map_of_eq_None_iff)
  have differs: "\<not> same_dict (last prior) [(''robot_id'', a), (''public_key'', b), (''key_digest'', c)]" for a b c
  proof
    assume "same_dict (last prior) [(''robot_id'', a), (''public_key'', b), (''key_digest'', c)]"
    then have "fst ` set (last prior) = {''robot_id'', ''public_key'', ''key_digest''}" by (simp add: same_dict_def)
    with seq show False by simp
  qed
  have "\<exists>e. guard_r operator PermissionError (
       bind_r (fp_text (PStr robot) 128) (\<lambda>robot'.
       bind_r (case fromhex public_key of None \<Rightarrow> Inl ValueError | Some k \<Rightarrow> Inr k) (\<lambda>k.
       guard_r (length k = 32) ValueError (
       bind_r (digest (PStr public_key)) (\<lambda>dig.
       bind_r (journal_records (ms_robots m)) (\<lambda>rows.
       bind_r (rows_of_robot rows robot') (\<lambda>prior.
       let body = [(''robot_id'', PStr robot'), (''public_key'', PStr public_key), (''key_digest'', PStr dig)] in
       guard_r (prior = [] \<or> same_dict (last prior) body) ValueError (Inr (prior, body))))))))) = Inl e" (is "\<exists>e. ?g = Inl e")
  proof (cases ?g)
    case (Inr p)
    then have "\<exists>a b c. same_dict (last prior) [(''robot_id'', a), (''public_key'', b), (''key_digest'', c)]"
      using assms(2-4) by (auto simp: bind_r_Inr guard_r_Inr fp_text_Inr Let_def)
    with differs show ?thesis by blast
  qed blast
  then obtain e where "?g = Inl e" ..
  then show ?thesis unfolding register_robot_def by simp
qed

end
