(* ===== verification/Merkle.thy ===== *)
theory Merkle
  imports Frontier
begin

text \<open>
  The Merkle tree of \<^verbatim>\<open>unimem/transparency_log.py\<close>: tree hash, frontier, inclusion and
  consistency proofs and their verifiers. \<open>mth\<close> is the reference definition of the tree
  hash (RFC 6962, section 2.1) on canonical hashes; the program's functions raise
  \<^verbatim>\<open>ValueError\<close> on anything else. The lemmas relate every routine to \<open>mth\<close>: the frontier
  computes it incrementally, the memoised range computes it on a slice, honest proofs verify,
  and an accepted proof is the honest one unless two hashed node encodings collide.
\<close>

section \<open>Hashes\<close>

definition EMPTY :: string where
  "EMPTY = sha256_hex []"

definition MAX_TREE_LEAVES :: nat where
  "MAX_TREE_LEAVES = 1000000"

definition check_hash :: "string \<Rightarrow> string result" where
  "check_hash value = guard_r (is_hash value) ValueError (Inr value)"

definition node_bytes :: "string \<Rightarrow> string \<Rightarrow> string" where
  "node_bytes left right = char_of (1 :: nat) # unhex_bytes left @ unhex_bytes right"

definition node_hash :: "string \<Rightarrow> string \<Rightarrow> string result" where
  "node_hash left right =
     bind_r (check_hash left) (\<lambda>_. bind_r (check_hash right) (\<lambda>_. Inr (sha256_hex (node_bytes left right))))"

definition leaf_hash :: "pv \<Rightarrow> string result" where
  "leaf_hash statement = bind_r (wire statement) (\<lambda>b. Inr (sha256_hex (char_of (0 :: nat) # b)))"

definition split_size :: "nat \<Rightarrow> nat" where
  "split_size sz = 2 ^ (nat_bits (sz - 1) - 1)"

lemma nat_bits_0 [simp]: "nat_bits 0 = 0"
  by (simp add: nat_bits.simps)

lemma nat_bits_bounds: "0 < n \<Longrightarrow> 2 ^ (nat_bits n - 1) \<le> n \<and> n < 2 ^ nat_bits n \<and> 0 < nat_bits n"
proof (induction n rule: nat_bits.induct)
  case (1 n)
  show ?case
  proof (cases "n = 1")
    case True
    then show ?thesis by (simp add: nat_bits.simps [of "Suc 0"])
  next
    case False
    with 1 have IH: "2 ^ (nat_bits (n div 2) - 1) \<le> n div 2" "n div 2 < 2 ^ nat_bits (n div 2)"
      "0 < nat_bits (n div 2)"
      by auto
    have e: "nat_bits n = Suc (nat_bits (n div 2))"
      using "1.prems" by (simp add: nat_bits.simps [of n])
    have "2 ^ nat_bits (n div 2) = 2 * (2 ^ (nat_bits (n div 2) - 1) :: nat)"
      using IH(3) by (metis Suc_diff_1 power_Suc)
    then show ?thesis using IH e by (simp, linarith)
  qed
qed

lemma split_size_bounds:
  assumes "2 \<le> n"
  shows "0 < split_size n" "split_size n < n" "n \<le> 2 * split_size n"
proof -
  have b: "2 ^ (nat_bits (n - 1) - 1) \<le> n - 1" "n - 1 < 2 ^ nat_bits (n - 1)" "0 < nat_bits (n - 1)"
    using nat_bits_bounds [of "n - 1"] assms by auto
  have "2 ^ nat_bits (n - 1) = 2 * (2 ^ (nat_bits (n - 1) - 1) :: nat)"
    using b(3) by (metis Suc_diff_1 power_Suc)
  with b assms show "0 < split_size n" "split_size n < n" "n \<le> 2 * split_size n"
    unfolding split_size_def by (simp, linarith, linarith)
qed

lemma split_size_unique:
  assumes "2 ^ k < n" "n \<le> 2 * 2 ^ k"
  shows "split_size n = 2 ^ k"
proof -
  let ?b = "nat_bits (n - 1)"
  have b: "2 ^ (?b - 1) \<le> n - 1" "n - 1 < 2 ^ ?b" "0 < ?b"
    using nat_bits_bounds [of "n - 1"] assms by auto
  have "(2 :: nat) ^ (?b - 1) < 2 ^ Suc k" using b(1) assms by simp
  from power_less_imp_less_exp [OF _ this] have "?b - 1 < Suc k" by simp
  moreover have "2 ^ k \<le> n - 1" using assms(1) by linarith
  then have "(2 :: nat) ^ k < 2 ^ ?b" using b(2) by (rule le_less_trans)
  from power_less_imp_less_exp [OF _ this] have "k < ?b" by simp
  ultimately have "?b = Suc k" using b(3) by simp
  then show ?thesis by (simp add: split_size_def)
qed

lemma split_size_pow: "split_size (2 * 2 ^ k) = 2 ^ k"
  by (rule split_size_unique) auto

section \<open>The tree hash\<close>

function tree_hash :: "string list \<Rightarrow> string result" where
  "tree_hash hashes =
     bind_r (count_int (int (length hashes)) 0 (int MAX_TREE_LEAVES)) (\<lambda>_.
       if hashes = [] then Inr EMPTY
       else if length hashes = 1 then check_hash (hashes ! 0)
       else let split = split_size (length hashes) in
         bind_r (tree_hash (take split hashes)) (\<lambda>l.
         bind_r (tree_hash (drop split hashes)) (\<lambda>r. node_hash l r)))"
  by pat_completeness auto
termination
proof (relation "measure length", goal_cases)
  case (2 hashes x split)
  then have "2 \<le> length hashes" by (cases hashes) (auto simp: Suc_le_eq)
  with split_size_bounds [of "length hashes"] 2 show ?case by simp
next
  case (3 hashes x split xa)
  then have "2 \<le> length hashes" by (cases hashes) (auto simp: Suc_le_eq)
  with split_size_bounds [of "length hashes"] 3 show ?case by simp
qed simp

declare tree_hash.simps [simp del]

section \<open>The frontier\<close>

type_synonym frontier = "string option list"

fun frontier_append :: "frontier \<Rightarrow> string \<Rightarrow> frontier result" where
  "frontier_append [] value = Inr [Some value]"
| "frontier_append (None # rest) value = Inr (Some value # rest)"
| "frontier_append (Some s # rest) value =
     bind_r (node_hash s value) (\<lambda>v. bind_r (frontier_append rest v) (\<lambda>f. Inr (None # f)))"

definition somes :: "frontier \<Rightarrow> string list" where
  "somes f = map the (filter (\<lambda>s. s \<noteq> None) f)"

fun frontier_append_with_proof :: "frontier \<Rightarrow> string \<Rightarrow> (frontier \<times> string list) result" where
  "frontier_append_with_proof [] value = Inr ([Some value], [])"
| "frontier_append_with_proof (None # rest) value = Inr (Some value # rest, somes rest)"
| "frontier_append_with_proof (Some s # rest) value =
     bind_r (node_hash s value) (\<lambda>v.
     bind_r (frontier_append_with_proof rest v) (\<lambda>(f, siblings). Inr (None # f, s # siblings)))"

fun frontier_fold :: "frontier \<Rightarrow> string \<Rightarrow> string result" where
  "frontier_fold [] accumulator = Inr accumulator"
| "frontier_fold (None # f) accumulator = frontier_fold f accumulator"
| "frontier_fold (Some s # f) accumulator =
     (if accumulator = [] then frontier_fold f s
      else bind_r (node_hash s accumulator) (frontier_fold f))"

definition frontier_root :: "frontier \<Rightarrow> string result" where
  "frontier_root f = bind_r (frontier_fold f []) (\<lambda>a. Inr (if a = [] then EMPTY else a))"

definition frontier_size :: "frontier \<Rightarrow> nat" where
  "frontier_size f = sum_list (map (\<lambda>(level, s). if s = None then 0 else 2 ^ level) (enumerate 0 f))"

fun prefix_loop :: "frontier \<Rightarrow> string list \<Rightarrow> string list result" where
  "prefix_loop f [] = Inr []"
| "prefix_loop f (leaf # hashes) =
     bind_r (frontier_append f leaf) (\<lambda>f'.
     bind_r (frontier_root f') (\<lambda>r.
     bind_r (prefix_loop f' hashes) (\<lambda>rs. Inr (r # rs))))"

definition prefix_roots :: "string list \<Rightarrow> string list result" where
  "prefix_roots hashes = bind_r (prefix_loop [] hashes) (\<lambda>rs. Inr (EMPTY # rs))"

section \<open>Inclusion proofs\<close>

function inclusion :: "string list \<Rightarrow> int \<Rightarrow> string list result" where
  "inclusion hashes index =
     bind_r (count_int index 0 (int (length hashes) - 1)) (\<lambda>_.
       if length hashes = 1 then Inr []
       else let split = split_size (length hashes) in
         if index < int split then
           bind_r (inclusion (take split hashes) index) (\<lambda>p.
           bind_r (tree_hash (drop split hashes)) (\<lambda>h. Inr (p @ [h])))
         else
           bind_r (inclusion (drop split hashes) (index - int split)) (\<lambda>p.
           bind_r (tree_hash (take split hashes)) (\<lambda>h. Inr (p @ [h]))))"
  by pat_completeness auto
termination
proof (relation "measure (length \<circ> fst)", goal_cases)
  case (2 hashes index x split)
  then have "2 \<le> length hashes" by (cases hashes) (auto simp: Suc_le_eq result_simps)
  with split_size_bounds [of "length hashes"] 2 show ?case by simp
next
  case (3 hashes index x split)
  then have "2 \<le> length hashes" by (cases hashes) (auto simp: Suc_le_eq result_simps)
  with split_size_bounds [of "length hashes"] 3 show ?case by simp
qed simp

declare inclusion.simps [simp del]

definition proof_at :: "string list \<Rightarrow> nat \<Rightarrow> string result" where
  "proof_at proof_list used = (if used < length proof_list then Inr (proof_list ! used) else Inl IndexError)"

function fold_path :: "string \<Rightarrow> nat \<Rightarrow> string list \<Rightarrow> nat \<Rightarrow> nat \<Rightarrow> nat \<Rightarrow> (string \<times> nat) result" where
  "fold_path leaf index path start len offset =
     (if len \<le> 1 then Inr (leaf, offset)
      else let split = split_size len in
        if index < start + split then
          bind_r (fold_path leaf index path start split offset) (\<lambda>(child, used).
          bind_r (proof_at path used) (\<lambda>s. bind_r (node_hash child s) (\<lambda>h. Inr (h, used + 1))))
        else
          bind_r (fold_path leaf index path (start + split) (len - split) offset) (\<lambda>(child, used).
          bind_r (proof_at path used) (\<lambda>s. bind_r (node_hash s child) (\<lambda>h. Inr (h, used + 1)))))"
  by pat_completeness auto
termination
proof (relation "measure (\<lambda>(_, _, _, _, len, _). len)", goal_cases)
  case (2 leaf index path start len offset split)
  with split_size_bounds [of len] show ?case by simp
next
  case (3 leaf index path start len offset split)
  with split_size_bounds [of len] show ?case by simp
qed simp

declare fold_path.simps [simp del]

definition hash_value :: "pv \<Rightarrow> string result" where
  "hash_value value = (case value of PStr s \<Rightarrow> check_hash s | _ \<Rightarrow> Inl ValueError)"

definition returned_true :: "bool result \<Rightarrow> bool" where
  "returned_true r = (case r of Inr b \<Rightarrow> b | Inl _ \<Rightarrow> False)"

definition verify_inclusion :: "pv \<Rightarrow> pv \<Rightarrow> pv \<Rightarrow> pv \<Rightarrow> pv \<Rightarrow> bool" where
  "verify_inclusion leaf index sz path root_hash =
     returned_true
       (bind_r (fp_count sz 1 (int MAX_TREE_LEAVES)) (\<lambda>n.
        bind_r (fp_count index 0 (n - 1)) (\<lambda>i.
        bind_r (hash_value leaf) (\<lambda>l.
        bind_r (hash_value root_hash) (\<lambda>r.
          case path of
            PList ps \<Rightarrow>
              bind_r (count_int (int (length ps)) 0 32) (\<lambda>_.
              bind_r (map_r hash_value ps) (\<lambda>siblings.
              bind_r (fold_path l (nat i) siblings 0 (nat n) 0) (\<lambda>(computed, used).
                Inr (computed = r \<and> used = length siblings))))
          | _ \<Rightarrow> Inr False)))))"

section \<open>Consistency proofs\<close>

function subproof :: "string list \<Rightarrow> nat \<Rightarrow> bool \<Rightarrow> string list result" where
  "subproof items sz complete =
     (if sz = length items then
        (if complete then Inr [] else bind_r (tree_hash items) (\<lambda>h. Inr [h]))
      else if sz = 0 \<or> length items < sz then Inl RuntimeError
      else let split = split_size (length items) in
        if sz \<le> split then
          bind_r (subproof (take split items) sz complete) (\<lambda>p.
          bind_r (tree_hash (drop split items)) (\<lambda>h. Inr (p @ [h])))
        else
          bind_r (subproof (drop split items) (sz - split) False) (\<lambda>p.
          bind_r (tree_hash (take split items)) (\<lambda>h. Inr (p @ [h]))))"
  by pat_completeness auto
termination
proof (relation "measure (length \<circ> fst)", goal_cases)
  case (2 items sz complete split)
  then have "2 \<le> length items" by linarith
  with split_size_bounds [of "length items"] 2 show ?case by simp
next
  case (3 items sz complete split)
  then have "2 \<le> length items" by linarith
  with split_size_bounds [of "length items"] 3 show ?case by simp
qed simp

declare subproof.simps [simp del]

definition consistency :: "string list \<Rightarrow> int \<Rightarrow> string list result" where
  "consistency hashes old_size =
     bind_r (count_int old_size 0 (int (length hashes))) (\<lambda>_.
       if old_size = 0 then Inr [] else subproof hashes (nat old_size) True)"

text \<open>The two shift loops of \<^verbatim>\<open>verify_consistency\<close>.\<close>

function shift_ones :: "nat \<Rightarrow> nat \<Rightarrow> nat \<times> nat" where
  "shift_ones first second = (if odd first then shift_ones (first div 2) (second div 2) else (first, second))"
  by pat_completeness auto
termination
  by (relation "measure fst") (auto elim: oddE)

fun shift_zeros :: "nat \<Rightarrow> nat \<Rightarrow> nat \<times> nat" where
  "shift_zeros first second =
     (if first \<noteq> 0 \<and> even first then shift_zeros (first div 2) (second div 2) else (first, second))"

declare shift_ones.simps [simp del] shift_zeros.simps [simp del]

text \<open>The loop over the siblings: \<open>None\<close> is the early \<^verbatim>\<open>return False\<close>.\<close>

fun consistency_loop ::
  "string list \<Rightarrow> nat \<Rightarrow> nat \<Rightarrow> string \<Rightarrow> string \<Rightarrow> (nat \<times> string \<times> string) option result" where
  "consistency_loop [] first second old_acc new_acc = Inr (Some (second, old_acc, new_acc))"
| "consistency_loop (sibling # siblings) first second old_acc new_acc =
     (if second = 0 then Inr None
      else if odd first \<or> first = second then
        bind_r (node_hash sibling old_acc) (\<lambda>old'.
        bind_r (node_hash sibling new_acc) (\<lambda>new'.
          case shift_zeros first second of (f, s) \<Rightarrow>
            consistency_loop siblings (f div 2) (s div 2) old' new'))
      else
        bind_r (node_hash new_acc sibling) (\<lambda>new'.
          consistency_loop siblings (first div 2) (second div 2) old_acc new'))"

definition check_consistency :: "nat \<Rightarrow> nat \<Rightarrow> string \<Rightarrow> string \<Rightarrow> string list \<Rightarrow> bool result" where
  "check_consistency old_size sz old_root root_hash siblings =
     (if old_size = 0 then Inr (old_root = EMPTY \<and> siblings = [] \<and> (sz \<noteq> 0 \<or> root_hash = EMPTY))
      else if old_size = sz then Inr (old_root = root_hash \<and> siblings = [])
      else case shift_ones (old_size - 1) (sz - 1) of (first, second) \<Rightarrow>
        bind_r (if first = 0 then Inr (old_root, siblings)
                else bind_r (proof_at siblings 0) (\<lambda>seed. Inr (seed, drop 1 siblings))) (\<lambda>(seed, rest).
        bind_r (consistency_loop rest first second seed seed) (\<lambda>res.
          case res of
            None \<Rightarrow> Inr False
          | Some (second', old_acc, new_acc) \<Rightarrow>
              Inr (second' = 0 \<and> old_acc = old_root \<and> new_acc = root_hash))))"

definition verify_consistency :: "pv \<Rightarrow> pv \<Rightarrow> pv \<Rightarrow> pv \<Rightarrow> pv \<Rightarrow> bool" where
  "verify_consistency old_size sz old_root root_hash path =
     returned_true
       (bind_r (fp_count sz 0 (int MAX_TREE_LEAVES)) (\<lambda>n.
        bind_r (fp_count old_size 0 n) (\<lambda>m.
        bind_r (hash_value old_root) (\<lambda>r1.
        bind_r (hash_value root_hash) (\<lambda>r2.
          case path of
            PList ps \<Rightarrow>
              bind_r (count_int (int (length ps)) 0 64) (\<lambda>_.
              bind_r (map_r hash_value ps) (\<lambda>siblings.
                check_consistency (nat m) (nat n) r1 r2 siblings))
          | _ \<Rightarrow> Inr False)))))"

section \<open>The reference tree hash\<close>

definition node :: "string \<Rightarrow> string \<Rightarrow> string" where
  "node l r = sha256_hex (node_bytes l r)"

function mth :: "string list \<Rightarrow> string" where
  "mth hashes =
     (if hashes = [] then EMPTY
      else if length hashes = 1 then hashes ! 0
      else node (mth (take (split_size (length hashes)) hashes)) (mth (drop (split_size (length hashes)) hashes)))"
  by pat_completeness auto
termination
proof (relation "measure length", goal_cases)
  case (2 hashes)
  then have "2 \<le> length hashes" by (cases hashes) (auto simp: Suc_le_eq)
  with split_size_bounds [of "length hashes"] 2 show ?case by simp
next
  case (3 hashes)
  then have "2 \<le> length hashes" by (cases hashes) (auto simp: Suc_le_eq)
  with split_size_bounds [of "length hashes"] 3 show ?case by simp
qed simp

declare mth.simps [simp del]

abbreviation hashes_ok :: "string list \<Rightarrow> bool" where
  "hashes_ok hs \<equiv> list_all is_hash hs"

lemma mth_Nil [simp]: "mth [] = EMPTY"
  by (simp add: mth.simps)

lemma mth_single [simp]: "mth [h] = h"
  by (simp add: mth.simps)

lemma mth_split:
  "2 \<le> length hs \<Longrightarrow> mth hs = node (mth (take (split_size (length hs)) hs)) (mth (drop (split_size (length hs)) hs))"
  by (subst mth.simps) auto

lemma mth_append:
  assumes "length a = 2 ^ k" "0 < length b" "length b \<le> 2 ^ k"
  shows "mth (a @ b) = node (mth a) (mth b)"
proof -
  have k: "split_size (length (a @ b)) = 2 ^ k"
    using assms by (intro split_size_unique) auto
  have "(1 :: nat) \<le> 2 ^ k" by simp
  then have "2 \<le> length (a @ b)" using assms unfolding length_append by linarith
  from mth_split [OF this] k assms(1) show ?thesis by simp
qed

lemma is_hash_node [simp]: "is_hash (node l r)"
  by (simp add: node_def)

lemma is_hash_EMPTY [simp]: "is_hash EMPTY"
  by (simp add: EMPTY_def)

lemma is_hash_mth [simp]: "hashes_ok hs \<Longrightarrow> is_hash (mth hs)"
  by (subst mth.simps) (auto simp: list_all_length)

lemma node_hash_ok [simp]: "is_hash l \<Longrightarrow> is_hash r \<Longrightarrow> node_hash l r = Inr (node l r)"
  by (simp add: node_hash_def check_hash_def node_def)

lemma node_hash_Inr [result_simps]: "node_hash l r = Inr h \<longleftrightarrow> is_hash l \<and> is_hash r \<and> h = node l r"
  by (auto simp: node_hash_def check_hash_def node_def result_simps)

lemma node_bytes_inj:
  "is_hash a \<Longrightarrow> is_hash b \<Longrightarrow> is_hash c \<Longrightarrow> is_hash d \<Longrightarrow> node_bytes a b = node_bytes c d \<Longrightarrow> a = c \<and> b = d"
  by (auto simp: node_bytes_def dest: unhex_pair_inj)

lemma hashes_ok_take: "hashes_ok hs \<Longrightarrow> hashes_ok (take k hs)"
  by (auto simp: list_all_iff dest: in_set_takeD)

lemma hashes_ok_drop: "hashes_ok hs \<Longrightarrow> hashes_ok (drop k hs)"
  by (auto simp: list_all_iff dest: in_set_dropD)

lemmas hashes_ok_slice [simp] = hashes_ok_take hashes_ok_drop

lemma tree_hash_mth: "hashes_ok hs \<Longrightarrow> length hs \<le> MAX_TREE_LEAVES \<Longrightarrow> tree_hash hs = Inr (mth hs)"
proof (induction hs rule: tree_hash.induct)
  case (1 hs)
  have c: "count_int (int (length hs)) 0 (int MAX_TREE_LEAVES) = Inr (int (length hs))"
    using "1.prems" by (simp add: result_simps)
  consider "hs = []" | "length hs = 1" | "2 \<le> length hs"
    by (cases hs) (auto simp: Suc_le_eq)
  then show ?case
  proof cases
    case 3
    let ?k = "split_size (length hs)"
    have "hs \<noteq> []" "length hs \<noteq> 1" using 3 by auto
    then have "tree_hash (take ?k hs) = Inr (mth (take ?k hs))" "tree_hash (drop ?k hs) = Inr (mth (drop ?k hs))"
      using 1 c by (simp_all add: Let_def)
    then show ?thesis
      using 3 c "1.prems" by (subst tree_hash.simps) (auto simp: mth_split Let_def)
  qed (use 1 c in \<open>subst tree_hash.simps, auto simp: mth.simps [of hs] check_hash_def list_all_length\<close>)+
qed

section \<open>The frontier computes the tree hash\<close>

text \<open>
  \<open>frontier_of level f hs\<close>: the frontier \<open>f\<close>, from \<open>level\<close> on, summarises the leaves \<open>hs\<close>
  (the subtrees of the lower levels are at the right end).
\<close>

fun frontier_of :: "nat \<Rightarrow> frontier \<Rightarrow> string list \<Rightarrow> bool" where
  "frontier_of level [] hs = (hs = [])"
| "frontier_of level (None # f) hs = frontier_of (Suc level) f hs"
| "frontier_of level (Some s # f) hs =
     (\<exists>pre suf. hs = pre @ suf \<and> length suf = 2 ^ level \<and> s = mth suf \<and> frontier_of (Suc level) f pre)"

lemma frontier_of_append:
  assumes "frontier_of level f hs" "length tail = 2 ^ level" "hashes_ok (hs @ tail)"
  shows "\<exists>f'. frontier_append f (mth tail) = Inr f' \<and> frontier_of level f' (hs @ tail)"
  using assms
proof (induction f arbitrary: level hs tail)
  case Nil
  then show ?case by (auto intro: exI [of _ "[]"])
next
  case (Cons x f)
  show ?case
  proof (cases x)
    case None
    with Cons.prems show ?thesis by auto
  next
    case (Some s)
    with Cons.prems obtain pre suf where h: "hs = pre @ suf" "length suf = 2 ^ level" "s = mth suf"
      "frontier_of (Suc level) f pre"
      by auto
    have ok: "is_hash s" "is_hash (mth tail)" using Cons.prems h by simp_all
    have n: "node s (mth tail) = mth (suf @ tail)" using mth_append [of suf level tail] h Cons.prems by simp
    have "\<exists>f'. frontier_append f (mth (suf @ tail)) = Inr f' \<and> frontier_of (Suc level) f' (pre @ suf @ tail)"
      using Cons.prems h by (intro Cons.IH) simp_all
    then show ?thesis using n ok h Some by auto
  qed
qed

lemma frontier_fold_mth:
  assumes "frontier_of level f hs" "hashes_ok (hs @ r)" "length r < 2 ^ level"
  shows "frontier_fold f (if r = [] then [] else mth r) = Inr (if hs @ r = [] then [] else mth (hs @ r))"
  using assms
proof (induction f arbitrary: level hs r)
  case Nil
  then show ?case by simp
next
  case (Cons x f)
  show ?case
  proof (cases x)
    case None
    with Cons show ?thesis by simp
  next
    case (Some s)
    with Cons.prems obtain pre suf where h: "hs = pre @ suf" "length suf = 2 ^ level" "s = mth suf"
      "frontier_of (Suc level) f pre"
      by auto
    have ok: "is_hash (mth suf)" "is_hash (mth r)" "mth suf \<noteq> []" "mth r \<noteq> []" "suf \<noteq> []"
      using Cons.prems h is_hash_not_Nil by auto
    have "r \<noteq> [] \<Longrightarrow> node (mth suf) (mth r) = mth (suf @ r)"
      using mth_append [of suf level r] h Cons.prems by simp
    moreover have "frontier_fold f (if suf @ r = [] then [] else mth (suf @ r))
        = Inr (if pre @ suf @ r = [] then [] else mth (pre @ suf @ r))"
      using Cons.prems h by (intro Cons.IH [of "Suc level"]) auto
    ultimately show ?thesis using Some h ok by auto
  qed
qed

lemma frontier_root_mth: "frontier_of 0 f hs \<Longrightarrow> hashes_ok hs \<Longrightarrow> frontier_root f = Inr (mth hs)"
  using frontier_fold_mth [of 0 f hs "[]"] is_hash_not_Nil [of "mth hs"]
  by (auto simp: frontier_root_def)

lemma prefix_loop_mth:
  "frontier_of 0 f hs \<Longrightarrow> hashes_ok (hs @ ls) \<Longrightarrow>
     prefix_loop f ls = Inr (map (\<lambda>i. mth (hs @ take i ls)) [1..<Suc (length ls)])"
proof (induction ls arbitrary: f hs)
  case Nil
  then show ?case by simp
next
  case (Cons l ls)
  obtain f' where f': "frontier_append f l = Inr f'" "frontier_of 0 f' (hs @ [l])"
    using frontier_of_append [of 0 f hs "[l]"] Cons.prems by auto
  have "prefix_loop f' ls = Inr (map (\<lambda>i. mth ((hs @ [l]) @ take i ls)) [1..<Suc (length ls)])"
    using Cons f' by simp
  moreover have "[1..<Suc (length (l # ls))] = 1 # map Suc [1..<Suc (length ls)]"
    by (simp add: map_Suc_upt upt_conv_Cons del: upt_Suc)
  ultimately show ?case
    using f' Cons.prems frontier_root_mth [of f' "hs @ [l]"] by (simp add: comp_def)
qed


lemma prefix_roots_mth:
  assumes "hashes_ok hs"
  shows "prefix_roots hs = Inr (map (\<lambda>i. mth (take i hs)) [0..<Suc (length hs)])"
proof -
  have "[0..<Suc (length hs)] = 0 # [1..<Suc (length hs)]"
    by (simp add: upt_conv_Cons del: upt_Suc)
  then show ?thesis
    using prefix_loop_mth [of "[]" "[]" hs] assms by (simp add: prefix_roots_def del: upt_Suc)
qed

section \<open>Inclusion proofs\<close>

text \<open>The audit path of a leaf, without the program's error branches.\<close>

function path_of :: "string list \<Rightarrow> nat \<Rightarrow> string list" where
  "path_of hs i =
     (if length hs \<le> 1 then []
      else let k = split_size (length hs) in
        if i < k then path_of (take k hs) i @ [mth (drop k hs)]
        else path_of (drop k hs) (i - k) @ [mth (take k hs)])"
  by pat_completeness auto
termination
proof (relation "measure (length \<circ> fst)", goal_cases)
  case (2 hs i k)
  with split_size_bounds [of "length hs"] show ?case by simp
next
  case (3 hs i k)
  with split_size_bounds [of "length hs"] show ?case by simp
qed simp

declare path_of.simps [simp del]

lemma path_of_short [simp]: "length hs \<le> 1 \<Longrightarrow> path_of hs i = []"
  by (simp add: path_of.simps)

lemma path_of_left:
  "2 \<le> length hs \<Longrightarrow> k = split_size (length hs) \<Longrightarrow> i < k \<Longrightarrow> path_of hs i = path_of (take k hs) i @ [mth (drop k hs)]"
  by (subst path_of.simps) (simp add: Let_def)

lemma path_of_right:
  "2 \<le> length hs \<Longrightarrow> k = split_size (length hs) \<Longrightarrow> \<not> i < k \<Longrightarrow> path_of hs i = path_of (drop k hs) (i - k) @ [mth (take k hs)]"
  by (subst path_of.simps) (simp add: Let_def)

lemma length_tree_induct [case_names short split]:
  assumes "\<And>hs. length hs \<le> 1 \<Longrightarrow> P hs"
    and "\<And>hs k. 2 \<le> length hs \<Longrightarrow> k = split_size (length hs) \<Longrightarrow> P (take k hs) \<Longrightarrow> P (drop k hs) \<Longrightarrow> P hs"
  shows "P (hs :: 'a list)"
proof (induction hs rule: length_induct)
  case (1 hs)
  show ?case
  proof (cases "length hs \<le> 1")
    case False
    then have "2 \<le> length hs" by simp
    with 1 split_size_bounds [of "length hs"] show ?thesis
      by (intro assms(2) [of hs "split_size (length hs)"]) auto
  qed (rule assms(1))
qed

lemma hashes_ok_path_of: "hashes_ok hs \<Longrightarrow> hashes_ok (path_of hs i)"
proof (induction hs arbitrary: i rule: length_tree_induct)
  case (split hs k)
  then show ?case
    by (cases "i < k") (auto simp: path_of_left path_of_right)
qed simp

lemma inclusion_path_of:
  "hashes_ok hs \<Longrightarrow> length hs \<le> MAX_TREE_LEAVES \<Longrightarrow> i < length hs \<Longrightarrow> inclusion hs (int i) = Inr (path_of hs i)"
proof (induction hs arbitrary: i rule: length_tree_induct)
  case (short hs)
  then have "length hs = 1" by simp
  then show ?case using short by (subst inclusion.simps) (simp add: count_int_def fp_count_def)
next
  case (split hs k)
  have c: "count_int (int i) 0 (int (length hs) - 1) = Inr (int i)"
    using split.prems by (simp add: result_simps)
  note b = split_size_bounds [OF split.hyps(1), folded split.hyps(2)]
  have n: "length hs \<noteq> 1" using split.hyps(1) by simp
  have th: "tree_hash (take k hs) = Inr (mth (take k hs))" "tree_hash (drop k hs) = Inr (mth (drop k hs))"
    using split.prems by (simp_all add: tree_hash_mth)
  show ?case
  proof (cases "i < k")
    case True
    then have "inclusion (take k hs) (int i) = Inr (path_of (take k hs) i)"
      using split b by simp
    then show ?thesis
      using True c n th split.hyps by (subst inclusion.simps) (simp add: Let_def path_of_left)
  next
    case False
    have "inclusion (drop k hs) (int (i - k)) = Inr (path_of (drop k hs) (i - k))"
      by (rule split.IH(2)) (use False split.prems b in auto)
    then show ?thesis
      using False c n th split.hyps by (subst inclusion.simps) (simp add: Let_def path_of_right of_nat_diff)
  qed
qed

text \<open>What the verifier computes from a leaf and a path of the right length.\<close>

lemma fold_path_complete:
  assumes "hashes_ok hs" "start + j = i" "j < length hs" "pre_len = offset" "offset + length (path_of hs j) \<le> length ps"
    and "take (length (path_of hs j)) (drop offset ps) = path_of hs j"
  shows "fold_path (hs ! j) i ps start (length hs) offset = Inr (mth hs, offset + length (path_of hs j))"
  using assms(1-3,5,6)
proof (induction hs arbitrary: j start rule: length_tree_induct)
  case (short hs)
  then show ?case by (cases hs) (simp_all add: fold_path.simps)
next
  case (split hs k)
  note b = split_size_bounds [OF split.hyps(1), folded split.hyps(2)]
  let ?p = "if j < k then path_of (take k hs) j else path_of (drop k hs) (j - k)"
  let ?s = "if j < k then mth (drop k hs) else mth (take k hs)"
  have path: "path_of hs j = ?p @ [?s]"
    using split.hyps by (simp add: path_of_left path_of_right)
  then have "take (length ?p) (take (Suc (length ?p)) (drop offset ps)) = ?p"
    using split.prems(5) by simp
  then have pre: "take (length ?p) (drop offset ps) = ?p" by simp
  have "(take (Suc (length ?p)) (drop offset ps)) ! length ?p = ?s"
    using split.prems(5) path by simp
  then have sib: "proof_at ps (offset + length ?p) = Inr ?s"
    using split.prems(4) path by (simp add: proof_at_def)
  have n: "\<not> length hs \<le> 1" using split.hyps(1) by simp
  show ?case
  proof (cases "j < k")
    case True
    have "fold_path (take k hs ! j) i ps start (length (take k hs)) offset
        = Inr (mth (take k hs), offset + length (path_of (take k hs) j))"
      by (rule split.IH(1)) (use True split.prems pre b path in auto)
    then show ?thesis
      using True n sib b split.prems path split.hyps
      by (subst fold_path.simps) (simp add: Let_def min_def mth_split)
  next
    case False
    have "fold_path (drop k hs ! (j - k)) i ps (start + k) (length (drop k hs)) offset
        = Inr (mth (drop k hs), offset + length (path_of (drop k hs) (j - k)))"
      by (rule split.IH(2)) (use False split.prems pre b path in auto)
    then show ?thesis
      using False n sib b split.prems path split.hyps
      by (subst fold_path.simps) (simp add: Let_def mth_split)
  qed
qed


lemma split_size_le_pow:
  assumes "2 \<le> n" "n \<le> 2 ^ Suc d"
  shows "split_size n \<le> 2 ^ d" "n - split_size n \<le> 2 ^ d"
proof -
  note b = split_size_bounds [OF assms(1)]
  obtain c where c: "split_size n = 2 ^ c" by (simp add: split_size_def)
  with b(2) assms(2) have "(2 :: nat) ^ c < 2 ^ Suc d" by simp
  from power_less_imp_less_exp [OF _ this] have "c \<le> d" by simp
  then show "split_size n \<le> 2 ^ d" by (simp add: c)
  with b show "n - split_size n \<le> 2 ^ d" by linarith
qed

lemma length_path_of: "length hs \<le> 2 ^ d \<Longrightarrow> length (path_of hs i) \<le> d"
proof (induction d arbitrary: hs i)
  case 0
  then show ?case by simp
next
  case (Suc d)
  show ?case
  proof (cases "length hs \<le> 1")
    case False
    then have n: "2 \<le> length hs" by simp
    note b = split_size_le_pow [OF n Suc.prems]
    have "length (path_of (take (split_size (length hs)) hs) i) \<le> d"
      "length (path_of (drop (split_size (length hs)) hs) (i - split_size (length hs))) \<le> d"
      using b by (auto intro!: Suc.IH)
    then show ?thesis
      using n by (cases "i < split_size (length hs)") (simp_all add: path_of_left path_of_right)
  qed simp
qed

lemma length_path_of_max: "length hs \<le> MAX_TREE_LEAVES \<Longrightarrow> length (path_of hs i) \<le> 20"
  by (rule length_path_of) (simp add: MAX_TREE_LEAVES_def)

lemma map_r_hash_value [simp]: "map_r hash_value (map PStr ss) = (if hashes_ok ss then Inr ss else Inl ValueError)"
  by (induction ss) (auto simp: hash_value_def check_hash_def guard_r_def)

lemma map_r_hash_value_Inr: "map_r hash_value ps = Inr ss \<longleftrightarrow> ps = map PStr ss \<and> hashes_ok ss"
proof (induction ps arbitrary: ss)
  case (Cons p ps)
  then show ?case
    by (cases p; cases ss) (auto simp: result_simps hash_value_def check_hash_def)
qed auto

lemma hash_value_Inr [result_simps]: "hash_value v = Inr s \<longleftrightarrow> v = PStr s \<and> is_hash s"
  by (auto simp: hash_value_def check_hash_def result_simps split: pv.splits)

lemma verify_inclusion_iff:
  "verify_inclusion leaf index tree_size path root \<longleftrightarrow>
     (\<exists>n i l r ss. tree_size = PInt (int n) \<and> index = PInt (int i) \<and> leaf = PStr l \<and> root = PStr r
        \<and> path = PList (map PStr ss) \<and> 1 \<le> n \<and> n \<le> MAX_TREE_LEAVES \<and> i < n \<and> is_hash l \<and> is_hash r
        \<and> hashes_ok ss \<and> length ss \<le> 32 \<and> fold_path l i ss 0 n 0 = Inr (r, length ss))" (is "?v \<longleftrightarrow> ?rhs")
proof
  assume ?v
  then obtain n i l r ss where h: "tree_size = PInt n" "1 \<le> n" "n \<le> int MAX_TREE_LEAVES" "index = PInt i"
    "0 \<le> i" "i \<le> n - 1" "leaf = PStr l" "is_hash l" "root = PStr r" "is_hash r" "path = PList (map PStr ss)"
    "hashes_ok ss" "length ss \<le> 32" "fold_path l (nat i) ss 0 (nat n) 0 = Inr (r, length ss)"
    unfolding verify_inclusion_def returned_true_def
    by (cases path) (auto split: sum.splits prod.splits simp: result_simps map_r_hash_value_Inr)
  then show ?rhs
    by (intro exI [of _ "nat n"] exI [of _ "nat i"] exI [of _ l] exI [of _ r] exI [of _ ss]) auto
next
  assume ?rhs
  then show ?v
    by (auto simp: verify_inclusion_def returned_true_def fp_count_def count_int_def hash_value_def check_hash_def)
qed

lemma verify_inclusion_complete:
  assumes "hashes_ok hs" "length hs \<le> MAX_TREE_LEAVES" "i < length hs"
  shows "verify_inclusion (PStr (hs ! i)) (PInt (int i)) (PInt (int (length hs)))
           (PList (map PStr (path_of hs i))) (PStr (mth hs))"
proof -
  have "fold_path (hs ! i) i (path_of hs i) 0 (length hs) 0 = Inr (mth hs, length (path_of hs i))"
    using fold_path_complete [of hs 0 i i 0 0 "path_of hs i"] assms by simp
  then show ?thesis
    unfolding verify_inclusion_iff
    using assms length_path_of_max [of hs i] hashes_ok_path_of [of hs i]
    by (intro exI [of _ "length hs"] exI [of _ i] exI [of _ "hs ! i"] exI [of _ "mth hs"] exI [of _ "path_of hs i"])
      (auto simp: list_all_length)
qed

text \<open>The encodings hashed when a tree is built, and when a path is folded.\<close>

function tree_inputs :: "string list \<Rightarrow> string list" where
  "tree_inputs hs =
     (if length hs \<le> 1 then []
      else let k = split_size (length hs) in
        node_bytes (mth (take k hs)) (mth (drop k hs)) # tree_inputs (take k hs) @ tree_inputs (drop k hs))"
  by pat_completeness auto
termination
proof (relation "measure length", goal_cases)
  case (2 hs k)
  with split_size_bounds [of "length hs"] show ?case by simp
next
  case (3 hs k)
  with split_size_bounds [of "length hs"] show ?case by simp
qed simp

declare tree_inputs.simps [simp del]

lemma tree_inputs_split:
  "2 \<le> length hs \<Longrightarrow> k = split_size (length hs) \<Longrightarrow>
   tree_inputs hs = node_bytes (mth (take k hs)) (mth (drop k hs)) # tree_inputs (take k hs) @ tree_inputs (drop k hs)"
  by (subst tree_inputs.simps) (simp add: Let_def)

function path_inputs :: "string \<Rightarrow> nat \<Rightarrow> string list \<Rightarrow> nat \<Rightarrow> nat \<Rightarrow> nat \<Rightarrow> string list" where
  "path_inputs leaf index path start len offset =
     (if len \<le> 1 then []
      else let split = split_size len in
        if index < start + split then
          path_inputs leaf index path start split offset @
          (case fold_path leaf index path start split offset of
             Inr (child, used) \<Rightarrow> [node_bytes child (path ! used)] | _ \<Rightarrow> [])
        else
          path_inputs leaf index path (start + split) (len - split) offset @
          (case fold_path leaf index path (start + split) (len - split) offset of
             Inr (child, used) \<Rightarrow> [node_bytes (path ! used) child] | _ \<Rightarrow> []))"
  by pat_completeness auto
termination
proof (relation "measure (\<lambda>(_, _, _, _, len, _). len)", goal_cases)
  case (2 leaf index path start len offset split)
  with split_size_bounds [of len] show ?case by simp
next
  case (3 leaf index path start len offset split)
  with split_size_bounds [of len] show ?case by simp
qed simp

declare path_inputs.simps [simp del]

lemma node_inj:
  assumes "inj_on sha256 S" "node_bytes a b \<in> S" "node_bytes c d \<in> S" "node a b = node c d"
    and "is_hash a" "is_hash b" "is_hash c" "is_hash d"
  shows "a = c \<and> b = d"
proof -
  from assms(4) have "sha256 (node_bytes a b) = sha256 (node_bytes c d)"
    by (simp add: node_def sha256_hex_def)
  with assms(1-3) have "node_bytes a b = node_bytes c d" by (auto dest: inj_onD)
  with assms(5-8) show ?thesis by (intro node_bytes_inj)
qed

lemma fold_path_hash: "fold_path leaf i ps start len off = Inr (h, used) \<Longrightarrow> is_hash leaf \<Longrightarrow> is_hash h"
  by (subst (asm) fold_path.simps)
    (auto simp: Let_def result_simps split: if_splits prod.splits)

lemma fold_path_sound:
  assumes "inj_on sha256 S" "hashes_ok ps" "is_hash leaf"
    and "hashes_ok hs" "start + j = i" "j < length hs" "set (tree_inputs hs) \<subseteq> S"
    and "set (path_inputs leaf i ps start (length hs) off) \<subseteq> S"
    and "fold_path leaf i ps start (length hs) off = Inr (mth hs, used)"
  shows "leaf = hs ! j \<and> used = off + length (path_of hs j)
    \<and> take (length (path_of hs j)) (drop off ps) = path_of hs j \<and> used \<le> max off (length ps)"
  using assms(4-)
proof (induction hs arbitrary: j start used rule: length_tree_induct)
  case (short hs)
  then show ?case by (cases hs) (auto simp: fold_path.simps)
next
  case (split hs k)
  note b = split_size_bounds [OF split.hyps(1), folded split.hyps(2)]
  have n: "\<not> length hs \<le> 1" using split.hyps(1) by simp
  note T = tree_inputs_split [OF split.hyps]
  show ?case
  proof (cases "j < k")
    case True
    then have side: "i < start + k" using split.prems by simp
    obtain child u where f: "fold_path leaf i ps start k off = Inr (child, u)" "u < length ps"
      "node child (ps ! u) = mth hs" "is_hash child" "is_hash (ps ! u)" "used = Suc u"
      using split.prems(6) n side split.hyps(2)
      by (subst (asm) fold_path.simps) (auto simp: Let_def result_simps proof_at_def split: if_splits prod.splits)
    have I: "node_bytes child (ps ! u) \<in> S" "set (path_inputs leaf i ps start k off) \<subseteq> S"
      using split.prems(5) n side f split.hyps(2)
      by (subst (asm) path_inputs.simps, simp add: Let_def)+
    have eq: "child = mth (take k hs) \<and> ps ! u = mth (drop k hs)"
      using f I T split.prems(1,4) mth_split [OF split.hyps(1)] split.hyps(2)
      by (intro node_inj [OF assms(1)]) auto
    have "leaf = take k hs ! j \<and> u = off + length (path_of (take k hs) j)
        \<and> take (length (path_of (take k hs) j)) (drop off ps) = path_of (take k hs) j \<and> u \<le> max off (length ps)"
      by (rule split.IH(1)) (use True split.prems f I T eq b in \<open>auto simp: min_def\<close>)
    then show ?thesis
      using True f eq path_of_left [OF split.hyps True] by (auto simp: take_Suc_conv_app_nth)
  next
    case False
    then have side: "\<not> i < start + k" using split.prems by simp
    obtain child u where f: "fold_path leaf i ps (start + k) (length hs - k) off = Inr (child, u)" "u < length ps"
      "node (ps ! u) child = mth hs" "is_hash child" "is_hash (ps ! u)" "used = Suc u"
      using split.prems(6) n side split.hyps(2)
      by (subst (asm) fold_path.simps) (auto simp: Let_def result_simps proof_at_def split: if_splits prod.splits)
    have I: "node_bytes (ps ! u) child \<in> S" "set (path_inputs leaf i ps (start + k) (length hs - k) off) \<subseteq> S"
      using split.prems(5) n side f split.hyps(2)
      by (subst (asm) path_inputs.simps, simp add: Let_def)+
    have eq: "ps ! u = mth (take k hs) \<and> child = mth (drop k hs)"
      using f I T split.prems(1,4) mth_split [OF split.hyps(1)] split.hyps(2)
      by (intro node_inj [OF assms(1)]) auto
    have "leaf = drop k hs ! (j - k) \<and> u = off + length (path_of (drop k hs) (j - k))
        \<and> take (length (path_of (drop k hs) (j - k))) (drop off ps) = path_of (drop k hs) (j - k) \<and> u \<le> max off (length ps)"
      by (rule split.IH(2)) (use False split.prems f I T eq b in auto)
    then show ?thesis
      using False f eq b path_of_right [OF split.hyps False] by (auto simp: take_Suc_conv_app_nth)
  qed
qed


section \<open>The frontier's own proof is the audit path of the new leaf\<close>

lemma path_of_last:
  assumes "length suf = 2 ^ level" "0 < length tail" "length tail \<le> 2 ^ level"
  shows "path_of (suf @ tail) (length (suf @ tail) - 1) = path_of tail (length tail - 1) @ [mth suf]"
proof -
  have k: "split_size (length (suf @ tail)) = 2 ^ level"
    using assms by (intro split_size_unique) auto
  have "(1 :: nat) \<le> 2 ^ level" by simp
  then have n: "2 \<le> length (suf @ tail)" "\<not> length (suf @ tail) - 1 < 2 ^ level"
    using assms unfolding length_append by linarith+
  have "length (suf @ tail) - 1 - 2 ^ level = length tail - 1"
    using assms by simp
  with path_of_right [OF n(1) k [symmetric] n(2)] assms(1) show ?thesis by simp
qed

lemma frontier_of_last_path:
  assumes "frontier_of level f pre" "0 < length tail" "length tail \<le> 2 ^ level"
  shows "path_of (pre @ tail) (length (pre @ tail) - 1) = path_of tail (length tail - 1) @ somes f"
  using assms
proof (induction f arbitrary: level pre tail)
  case Nil
  then show ?case by (simp add: somes_def)
next
  case (Cons x f)
  show ?case
  proof (cases x)
    case None
    with Cons show ?thesis by (simp add: somes_def)
  next
    case (Some s)
    with Cons.prems obtain pre' suf where h: "pre = pre' @ suf" "length suf = 2 ^ level" "s = mth suf"
      "frontier_of (Suc level) f pre'"
      by auto
    have "path_of (pre' @ suf @ tail) (length (pre' @ suf @ tail) - 1)
        = path_of (suf @ tail) (length (suf @ tail) - 1) @ somes f"
      using h Cons.prems by (intro Cons.IH [of "Suc level"]) auto
    then show ?thesis
      using h Cons.prems Some path_of_last [of suf level tail] by (simp add: somes_def)
  qed
qed

lemma frontier_append_with_proof_path:
  assumes "frontier_of level f hs" "length tail = 2 ^ level" "hashes_ok (hs @ tail)"
  shows "\<exists>f' siblings. frontier_append_with_proof f (mth tail) = Inr (f', siblings)
    \<and> frontier_append f (mth tail) = Inr f' \<and> frontier_of level f' (hs @ tail)
    \<and> path_of (hs @ tail) (length (hs @ tail) - 1) = path_of tail (length tail - 1) @ siblings"
  using assms
proof (induction f arbitrary: level hs tail)
  case Nil
  then show ?case by (auto intro: exI [of _ "[]"])
next
  case (Cons x f)
  show ?case
  proof (cases x)
    case None
    with Cons.prems show ?thesis
      using frontier_of_last_path [of "Suc level" f hs tail] by auto
  next
    case (Some s)
    with Cons.prems obtain pre suf where h: "hs = pre @ suf" "length suf = 2 ^ level" "s = mth suf"
      "frontier_of (Suc level) f pre"
      by auto
    have ok: "is_hash s" "is_hash (mth tail)" using Cons.prems h by simp_all
    have n: "node s (mth tail) = mth (suf @ tail)" using mth_append [of suf level tail] h Cons.prems by simp
    obtain f' sibs where IH: "frontier_append_with_proof f (mth (suf @ tail)) = Inr (f', sibs)"
      "frontier_append f (mth (suf @ tail)) = Inr f'" "frontier_of (Suc level) f' (pre @ suf @ tail)"
      "path_of (pre @ suf @ tail) (length (pre @ suf @ tail) - 1) = path_of (suf @ tail) (length (suf @ tail) - 1) @ sibs"
      using Cons.IH [of "Suc level" pre "suf @ tail"] Cons.prems h by auto
    then show ?thesis using n ok h Some Cons.prems path_of_last [of suf level tail] by simp
  qed
qed

lemma frontier_of_size:
  "frontier_of level f hs \<Longrightarrow> length hs = sum_list (map (\<lambda>(l, s). if s = None then 0 else 2 ^ l) (enumerate level f))"
proof (induction f arbitrary: level hs)
  case (Cons x f)
  then show ?case by (cases x) auto
qed simp


section \<open>Consistency proofs\<close>

text \<open>
  The honest proof: \<open>cblock hs m\<close> is the last perfect subtree of the first \<open>m\<close> leaves,
  \<open>cpath hs m\<close> the siblings above it.
\<close>

function cblock :: "string list \<Rightarrow> nat \<Rightarrow> string list" where
  "cblock hs m =
     (if length hs \<le> m \<or> m = 0 then hs
      else let k = split_size (length hs) in
        if m \<le> k then cblock (take k hs) m else cblock (drop k hs) (m - k))"
  by pat_completeness auto
termination
proof (relation "measure (length \<circ> fst)", goal_cases)
  case (2 hs m k)
  then have "2 \<le> length hs" by linarith
  with split_size_bounds [of "length hs"] 2 show ?case by simp
next
  case (3 hs m k)
  then have "2 \<le> length hs" by linarith
  with split_size_bounds [of "length hs"] 3 show ?case by simp
qed simp

function cpath :: "string list \<Rightarrow> nat \<Rightarrow> string list" where
  "cpath hs m =
     (if length hs \<le> m \<or> m = 0 then []
      else let k = split_size (length hs) in
        if m \<le> k then cpath (take k hs) m @ [mth (drop k hs)]
        else cpath (drop k hs) (m - k) @ [mth (take k hs)])"
  by pat_completeness auto
termination
proof (relation "measure (length \<circ> fst)", goal_cases)
  case (2 hs m k)
  then have "2 \<le> length hs" by linarith
  with split_size_bounds [of "length hs"] 2 show ?case by simp
next
  case (3 hs m k)
  then have "2 \<le> length hs" by linarith
  with split_size_bounds [of "length hs"] 3 show ?case by simp
qed simp

declare cblock.simps [simp del] cpath.simps [simp del]

lemma c_full [simp]: "length hs \<le> m \<Longrightarrow> cblock hs m = hs" "length hs \<le> m \<Longrightarrow> cpath hs m = []"
  by (simp_all add: cblock.simps cpath.simps)

lemma c_left:
  assumes "0 < m" "m < length hs" "m \<le> split_size (length hs)"
  shows "cblock hs m = cblock (take (split_size (length hs)) hs) m"
    "cpath hs m = cpath (take (split_size (length hs)) hs) m @ [mth (drop (split_size (length hs)) hs)]"
  using assms by (simp_all add: cblock.simps [of hs] cpath.simps [of hs] Let_def)

lemma c_right:
  assumes "0 < m" "m < length hs" "split_size (length hs) < m"
  shows "cblock hs m = cblock (drop (split_size (length hs)) hs) (m - split_size (length hs))"
    "cpath hs m = cpath (drop (split_size (length hs)) hs) (m - split_size (length hs)) @ [mth (take (split_size (length hs)) hs)]"
  using assms by (simp_all add: cblock.simps [of hs] cpath.simps [of hs] Let_def)

lemma take_take_split: "k \<le> m \<Longrightarrow> k \<le> length hs \<Longrightarrow> take m hs = take k hs @ take (m - k) (drop k hs)"
  by (metis le_add_diff_inverse take_add)

lemma cblock_suffix:
  "0 < m \<Longrightarrow> m \<le> length hs \<Longrightarrow> \<exists>pre. take m hs = pre @ cblock hs m"
proof (induction hs arbitrary: m rule: length_tree_induct)
  case (short hs)
  then show ?case by (cases hs) auto
next
  case (split hs k)
  note b = split_size_bounds [OF split.hyps(1), folded split.hyps(2)]
  consider "m = length hs" | "m < length hs" "m \<le> k" | "m < length hs" "k < m"
    using split.prems by linarith
  then show ?case
  proof cases
    case 2
    then show ?thesis using split.IH(1) [of m] split.prems b c_left(1) [of m hs] split.hyps(2) by (auto simp: min_def)
  next
    case 3
    then obtain pre where "take (m - k) (drop k hs) = pre @ cblock (drop k hs) (m - k)"
      using split.IH(2) [of "m - k"] diff_le_mono [of m "length hs" k] by auto
    then have "take m hs = (take k hs @ pre) @ cblock hs m"
      using 3 b split.prems c_right(1) [of m hs] split.hyps(2) take_take_split [of k m hs] by simp
    then show ?thesis by blast
  qed auto
qed

lemma length_cblock: "0 < m \<Longrightarrow> m \<le> length hs \<Longrightarrow> length (cblock hs m) \<le> m"
  using cblock_suffix [of m hs] by (metis length_append length_take le_add2 min.absorb2)

lemma hashes_ok_cblock: "0 < m \<Longrightarrow> m \<le> length hs \<Longrightarrow> hashes_ok hs \<Longrightarrow> hashes_ok (cblock hs m)"
  using cblock_suffix [of m hs] hashes_ok_take [of hs m] by (metis list_all_append)

lemma subproof_honest:
  "hashes_ok hs \<Longrightarrow> length hs \<le> MAX_TREE_LEAVES \<Longrightarrow> 0 < m \<Longrightarrow> m \<le> length hs \<Longrightarrow>
     subproof hs m c = Inr ((if c \<and> length (cblock hs m) = m then [] else [mth (cblock hs m)]) @ cpath hs m)"
proof (induction hs arbitrary: m c rule: length_tree_induct)
  case (short hs)
  then show ?case by (auto simp: subproof.simps tree_hash_mth)
next
  case (split hs k)
  note b = split_size_bounds [OF split.hyps(1), folded split.hyps(2)]
  have th: "tree_hash (take k hs) = Inr (mth (take k hs))" "tree_hash (drop k hs) = Inr (mth (drop k hs))"
    "tree_hash hs = Inr (mth hs)"
    using split.prems by (simp_all add: tree_hash_mth)
  consider "m = length hs" | "m < length hs" "m \<le> k" | "m < length hs" "k < m"
    using split.prems by linarith
  then show ?case
  proof cases
    case 1
    then show ?thesis using th by (auto simp: subproof.simps)
  next
    case 2
    have "subproof (take k hs) m c = Inr ((if c \<and> length (cblock (take k hs) m) = m then [] else [mth (cblock (take k hs) m)]) @ cpath (take k hs) m)"
      by (rule split.IH(1)) (use 2 split.prems b in auto)
    then show ?thesis
      using 2 th split.prems(3) c_left [OF split.prems(3) 2(1)] split.hyps(2)
      by (subst subproof.simps) (simp add: Let_def)
  next
    case 3
    have "subproof (drop k hs) (m - k) False = Inr ([mth (cblock (drop k hs) (m - k))] @ cpath (drop k hs) (m - k))"
      using split.IH(2) [of "m - k" False] 3 split.prems b by auto
    moreover have "length (cblock hs m) < m"
      using length_cblock [of "m - k" "drop k hs"] diff_le_mono [of m "length hs" k] b(1) c_right(1) [OF split.prems(3) 3(1)] 3 b split.hyps(2) by simp
    ultimately show ?thesis
      using 3 th split.prems(3) c_right [OF split.prems(3) 3(1)] split.hyps(2)
      by (subst subproof.simps) (simp add: Let_def)
  qed
qed

lemma shift_ones_run: "shift_ones (2 ^ s - 1 + 2 ^ Suc s * G) second = (2 * G, second div 2 ^ s)"
proof (induction s arbitrary: second)
  case 0
  then show ?case by (simp add: shift_ones.simps)
next
  case (Suc s)
  define a :: nat where "a = 2 ^ s"
  have "2 * a - 1 + 4 * a * G = 1 + 2 * (a - 1 + 2 * a * G)"
    by (cases a) (simp_all add: a_def algebra_simps)
  then have "2 ^ Suc s - 1 + 2 ^ Suc (Suc s) * G = 1 + 2 * (2 ^ s - 1 + 2 ^ Suc s * G)"
    by (simp add: a_def)
  then have "odd (2 ^ Suc s - 1 + 2 ^ Suc (Suc s) * G)"
    "(2 ^ Suc s - 1 + 2 ^ Suc (Suc s) * G) div 2 = 2 ^ s - 1 + 2 ^ Suc s * G" by presburger+
  then show ?case
    using Suc.IH [of "second div 2"] by (subst shift_ones.simps) (simp add: div_mult2_eq)
qed

lemma shift_zeros_double: "y \<noteq> 0 \<Longrightarrow> shift_zeros (2 * y) (2 * z) = shift_zeros y z"
  by (subst shift_zeros.simps) simp

lemma shift_zeros_run: "shift_zeros (2 ^ c * (2 * G + 1)) (2 ^ c * (2 * G + 1)) = (2 * G + 1, 2 * G + 1)"
proof (induction c)
  case 0
  then show ?case by (simp add: shift_zeros.simps)
next
  case (Suc c)
  have "2 ^ c * (2 * G + 1) \<noteq> (0 :: nat)" by simp
  from shift_zeros_double [OF this] Suc.IH show ?case
    by (simp only: power_Suc mult.assoc)
qed

lemma shift_zeros_odd: "odd f \<Longrightarrow> shift_zeros f s = (f, s)"
  by (simp add: shift_zeros.simps)

text \<open>A step whose sibling is at the right, and one whose sibling is at the left.\<close>

lemma loop_right:
  assumes "even f" "f \<noteq> s" "s \<noteq> 0" "is_hash new" "is_hash sib"
  shows "consistency_loop (sib # rest) f s old new = consistency_loop rest (f div 2) (s div 2) old (node new sib)"
  using assms by simp

lemma loop_left:
  assumes "odd f \<or> f = s" "s \<noteq> 0" "shift_zeros f s = (f', s')" "is_hash new" "is_hash old" "is_hash sib"
  shows "consistency_loop (sib # rest) f s old new
    = consistency_loop rest (f' div 2) (s' div 2) (node sib old) (node sib new)"
  using assms by simp

lemma mth_take_right:
  assumes "k = 2 ^ j" "k < m" "m \<le> length hs" "length hs \<le> 2 * k"
  shows "mth (take m hs) = node (mth (take k hs)) (mth (take (m - k) (drop k hs)))"
  using assms take_take_split [of k m hs] mth_append [of "take k hs" j "take (m - k) (drop k hs)"] by simp


lemma low_div: "r < b \<Longrightarrow> (r + b * q) div b = (q :: nat)"
  by simp

lemma pow_split: "t \<le> j \<Longrightarrow> 2 ^ j * x = 2 ^ t * (2 ^ (j - t) * (x :: nat))"
  by (metis le_add_diff_inverse mult.assoc power_add)

definition honest_run :: "string list \<Rightarrow> nat \<Rightarrow> nat \<Rightarrow> nat \<Rightarrow> nat \<Rightarrow> nat \<Rightarrow> bool" where
  "honest_run hs m fn sn f' s' \<longleftrightarrow>
     (\<exists>s. length (cblock hs m) = 2 ^ s \<and> shift_ones fn sn = (fn div 2 ^ s, sn div 2 ^ s)
        \<and> (\<forall>rest. consistency_loop (cpath hs m @ rest) (fn div 2 ^ s) (sn div 2 ^ s) (mth (cblock hs m)) (mth (cblock hs m))
             = consistency_loop rest f' s' (mth (take m hs)) (mth hs)))"

lemma honest_run_left:
  assumes hs: "hashes_ok hs" "2 \<le> length hs" "split_size (length hs) = 2 ^ j" "0 < m" "m \<le> 2 ^ j"
    and fn: "fn = m - 1 + 2 ^ Suc j * G" and sn: "sn div 2 ^ j \<noteq> 2 * G" "sn div 2 ^ j \<noteq> 0"
    and IH: "m < 2 ^ j \<Longrightarrow> honest_run (take (2 ^ j) hs) m fn sn (2 * G) (sn div 2 ^ j)"
  shows "honest_run hs m fn sn G (sn div 2 ^ j div 2)"
proof -
  let ?l = "take (2 ^ j) hs" and ?r = "drop (2 ^ j) hs"
  note b = split_size_bounds [OF hs(2), unfolded hs(3)]
  note c = c_left [of m hs, unfolded hs(3), OF hs(4) _ hs(5)]
  have whole: "mth hs = node (mth ?l) (mth ?r)" using mth_split [OF hs(2)] hs(3) by simp
  have last: "consistency_loop (mth ?r # rest) (2 * G) (sn div 2 ^ j) old (mth ?l)
      = consistency_loop rest G (sn div 2 ^ j div 2) old (mth hs)" for rest old
    using sn hs(1) whole by simp
  have len: "m < length hs" using b hs(5) by linarith
  have tk: "take m ?l = take m hs" using hs(5) by (simp add: min_def)
  show ?thesis
  proof (cases "m = 2 ^ j")
    case True
    then have "fn = 2 ^ j - 1 + 2 ^ Suc j * G" using fn by simp
    then have f: "shift_ones fn sn = (2 * G, sn div 2 ^ j)" "fn div 2 ^ j = 2 * G"
      using shift_ones_run [of j G sn] low_div [of "2 ^ j - 1" "2 ^ j" "2 * G"]
      by (simp_all only: power_Suc mult.assoc mult.left_commute [of 2]) simp_all
    show ?thesis
      unfolding honest_run_def using True len b c f last by (intro exI [of _ j]) simp
  next
    case False
    with IH hs(5) obtain s where s: "length (cblock ?l m) = 2 ^ s" "shift_ones fn sn = (fn div 2 ^ s, sn div 2 ^ s)"
      "\<And>rest. consistency_loop (cpath ?l m @ rest) (fn div 2 ^ s) (sn div 2 ^ s) (mth (cblock ?l m)) (mth (cblock ?l m))
         = consistency_loop rest (2 * G) (sn div 2 ^ j) (mth (take m ?l)) (mth ?l)"
      unfolding honest_run_def by auto
    show ?thesis
      unfolding honest_run_def using c len s last tk by (intro exI [of _ s]) simp
  qed
qed

lemma honest_run_right:
  assumes hs: "hashes_ok hs" "2 \<le> length hs" "split_size (length hs) = 2 ^ j" "2 ^ j < m" "m < length hs"
    and IH: "honest_run (drop (2 ^ j) hs) (m - 2 ^ j) fn sn f s"
    and step: "odd f \<or> f = s" "s \<noteq> 0" "shift_zeros f s = (f', s')"
  shows "honest_run hs m fn sn (f' div 2) (s' div 2)"
proof -
  let ?l = "take (2 ^ j) hs" and ?r = "drop (2 ^ j) hs"
  note b = split_size_bounds [OF hs(2), unfolded hs(3)]
  note c = c_right [of m hs, unfolded hs(3), OF _ hs(5) hs(4)]
  have whole: "mth hs = node (mth ?l) (mth ?r)" using mth_split [OF hs(2)] hs(3) by simp
  have part: "mth (take m hs) = node (mth ?l) (mth (take (m - 2 ^ j) ?r))"
    using hs b by (intro mth_take_right) auto
  have last: "consistency_loop (mth ?l # rest) f s (mth (take (m - 2 ^ j) ?r)) (mth ?r)
      = consistency_loop rest (f' div 2) (s' div 2) (mth (take m hs)) (mth hs)" for rest
    unfolding part whole by (rule loop_left [OF step]) (use hs(1) in simp_all)
  obtain t where t: "length (cblock ?r (m - 2 ^ j)) = 2 ^ t" "shift_ones fn sn = (fn div 2 ^ t, sn div 2 ^ t)"
    "\<And>rest. consistency_loop (cpath ?r (m - 2 ^ j) @ rest) (fn div 2 ^ t) (sn div 2 ^ t) (mth (cblock ?r (m - 2 ^ j))) (mth (cblock ?r (m - 2 ^ j)))
       = consistency_loop rest f s (mth (take (m - 2 ^ j) ?r)) (mth ?r)"
    using IH unfolding honest_run_def by auto
  have "0 < m" using hs(4) by simp
  show ?thesis
    unfolding honest_run_def using c [OF \<open>0 < m\<close>] t last by (intro exI [of _ t]) simp
qed

lemma honest_run_complete:
  "hashes_ok hs \<Longrightarrow> length hs = 2 ^ j \<Longrightarrow> 0 < m \<Longrightarrow> m < 2 ^ j \<Longrightarrow> fn = m - 1 + 2 ^ j * F \<Longrightarrow>
     sn div 2 ^ j \<noteq> F \<Longrightarrow> sn div 2 ^ j \<noteq> 0 \<Longrightarrow> honest_run hs m fn sn F (sn div 2 ^ j)"
proof (induction j arbitrary: hs m F)
  case 0
  then show ?case by simp
next
  case (Suc j)
  have n: "2 \<le> length hs" "split_size (length hs) = 2 ^ j"
    using Suc.prems(2) split_size_pow [of j] one_le_power [of "2 :: nat" j] by simp_all
  have sn: "sn div 2 ^ Suc j = sn div 2 ^ j div 2" by (metis div_mult2_eq mult.commute power_Suc)
  have sn': "sn div 2 ^ j \<noteq> 2 * F" "sn div 2 ^ j \<noteq> 2 * F + 1" "sn div 2 ^ j \<noteq> 0"
    using Suc.prems(6,7) unfolding sn by auto
  show ?case
  proof (cases "m \<le> 2 ^ j")
    case True
    have "honest_run hs m fn sn F (sn div 2 ^ j div 2)"
    proof (rule honest_run_left [OF Suc.prems(1) n Suc.prems(3) True Suc.prems(5) sn'(1,3)])
      assume "m < 2 ^ j"
      then show "honest_run (take (2 ^ j) hs) m fn sn (2 * F) (sn div 2 ^ j)"
        using Suc.prems sn' by (intro Suc.IH) auto
    qed
    then show ?thesis by (simp only: sn)
  next
    case False
    have "honest_run (drop (2 ^ j) hs) (m - 2 ^ j) fn sn (2 * F + 1) (sn div 2 ^ j)"
      using Suc.prems sn' False by (intro Suc.IH) auto
    from honest_run_right [OF Suc.prems(1) n _ _ this, of "2 * F + 1" "sn div 2 ^ j"] False Suc.prems sn'
    show ?thesis unfolding sn by (simp add: shift_zeros_odd)
  qed
qed

lemma honest_run_general:
  "hashes_ok hs \<Longrightarrow> 0 < m \<Longrightarrow> m < length hs \<Longrightarrow> length hs \<le> 2 ^ h \<Longrightarrow> X = 2 ^ h * F \<Longrightarrow>
     \<exists>t \<le> h. honest_run hs m (m - 1 + X) (length hs - 1 + X) (X div 2 ^ t) (X div 2 ^ t)"
proof (induction hs arbitrary: m h F X rule: length_tree_induct)
  case (short hs)
  then show ?case by simp
next
  case (split hs k)
  note b = split_size_bounds [OF split.hyps(1), folded split.hyps(2)]
  obtain j where k: "k = 2 ^ j" using split.hyps(2) by (simp add: split_size_def)
  note n = split.hyps(1) split.hyps(2) [symmetric, unfolded k]
  have "(2 :: nat) ^ j < 2 ^ h" using b split.prems(4) k by linarith
  from power_less_imp_less_exp [OF _ this] have j: "j < h" by simp
  define G where "G = 2 ^ (h - Suc j) * F"
  have X: "X = 2 ^ Suc j * G"
    using j split.prems(5) by (simp add: G_def mult.assoc [symmetric] flip: power_add power_Suc)
  let ?sn = "length hs - 1 + X"
  have "length hs - 1 - 2 ^ j < 2 ^ j" "?sn = (length hs - 1 - 2 ^ j) + 2 ^ j * (2 * G + 1)"
    using b k X by simp_all
  then have sn: "?sn div 2 ^ j = 2 * G + 1" by (simp only: low_div)
  have out: "X div 2 ^ Suc j = G" using X by simp
  show ?case
  proof (cases "m \<le> k")
    case True
    have "honest_run hs m (m - 1 + X) ?sn G (?sn div 2 ^ j div 2)"
    proof (rule honest_run_left [OF split.prems(1) n split.prems(2)])
      assume "m < 2 ^ j"
      then show "honest_run (take (2 ^ j) hs) m (m - 1 + X) ?sn (2 * G) (?sn div 2 ^ j)"
        using split.prems b k X sn by (intro honest_run_complete) auto
    qed (use True k X sn in simp_all)
    then show ?thesis using j sn out by (intro exI [of _ "Suc j"]) simp
  next
    case False
    let ?X = "X + 2 ^ j"
    have X': "?X = 2 ^ j * (2 * G + 1)" using X by simp
    have len: "length (drop k hs) - 1 + ?X = ?sn" "m - k - 1 + ?X = m - 1 + X"
      using b k False by simp_all
    have "\<exists>t \<le> j. honest_run (drop k hs) (m - k) (m - k - 1 + ?X) (length (drop k hs) - 1 + ?X) (?X div 2 ^ t) (?X div 2 ^ t)"
      using split.prems b k False X' diff_less_mono [of m "length hs" k]
      by (intro split.IH(2) [where F = "2 * G + 1"]) auto
    then obtain t where "t \<le> j" and H: "honest_run (drop k hs) (m - k) (m - k - 1 + ?X) (length (drop k hs) - 1 + ?X) (?X div 2 ^ t) (?X div 2 ^ t)"
      by blast
    from H have "honest_run (drop k hs) (m - k) (m - 1 + X) ?sn (?X div 2 ^ t) (?X div 2 ^ t)"
      by (simp only: len)
    with \<open>t \<le> j\<close> have t: "t \<le> j" "honest_run (drop (2 ^ j) hs) (m - 2 ^ j) (m - 1 + X) ?sn (?X div 2 ^ t) (?X div 2 ^ t)"
      by (simp_all only: k)
    have q: "?X div 2 ^ t = 2 ^ (j - t) * (2 * G + 1)"
      unfolding X' pow_split [OF t(1)] by (rule nonzero_mult_div_cancel_left) simp
    have "honest_run hs m (m - 1 + X) ?sn ((2 * G + 1) div 2) ((2 * G + 1) div 2)"
      by (rule honest_run_right [OF split.prems(1) n _ split.prems(3) t(2)])
        (use False k q shift_zeros_run [of "j - t" G] in simp_all)
    then show ?thesis using j out by (intro exI [of _ "Suc j"]) simp
  qed
qed


lemma check_consistency_honest:
  assumes "hashes_ok hs" "length hs \<le> MAX_TREE_LEAVES" "m \<le> length hs"
    and "consistency hs (int m) = Inr siblings"
  shows "check_consistency m (length hs) (mth (take m hs)) (mth hs) siblings = Inr True"
proof -
  consider "m = 0" | "0 < m" "m = length hs" | "0 < m" "m < length hs"
    using assms(3) by linarith
  then show ?thesis
  proof cases
    case 1
    then show ?thesis using assms by (cases hs) (auto simp: check_consistency_def consistency_def count_int_def fp_count_def)
  next
    case 2
    then show ?thesis
      using assms subproof_honest [of hs m True]
      by (auto simp: check_consistency_def consistency_def count_int_def fp_count_def)
  next
    case 3
    let ?B = "cblock hs m"
    have S: "siblings = (if length ?B = m then [] else [mth ?B]) @ cpath hs m"
      using assms 3 subproof_honest [of hs m True] by (auto simp: consistency_def count_int_def fp_count_def)
    obtain t where "honest_run hs m (m - 1) (length hs - 1) 0 0"
      using honest_run_general [of hs m 20 0 0] assms 3 by (auto simp: MAX_TREE_LEAVES_def)
    then obtain s where s: "length ?B = 2 ^ s" "shift_ones (m - 1) (length hs - 1) = ((m - 1) div 2 ^ s, (length hs - 1) div 2 ^ s)"
      "consistency_loop (cpath hs m) ((m - 1) div 2 ^ s) ((length hs - 1) div 2 ^ s) (mth ?B) (mth ?B)
         = Inr (Some (0, mth (take m hs), mth hs))"
      unfolding honest_run_def by (metis append_Nil2 consistency_loop.simps(1))
    obtain pre where pre: "take m hs = pre @ ?B" using cblock_suffix [of m hs] 3 by auto
    have len: "length ?B \<le> m" using length_cblock [of m hs] 3 by simp
    show ?thesis
    proof (cases "length ?B = m")
      case True
      then have "pre = []" using arg_cong [OF pre, of length] 3 by simp
      then have "mth ?B = mth (take m hs)" using pre by simp
      moreover have "(m - 1) div 2 ^ s = 0" using True s(1) 3 by simp
      ultimately show ?thesis
        using True S s 3 by (simp add: check_consistency_def)
    next
      case False
      with len s(1) have "2 ^ s \<le> m - 1" by linarith
      then have "0 < (m - 1) div 2 ^ s" by (simp add: div_greater_zero_iff)
      then show ?thesis
        using False S s 3 by (simp add: check_consistency_def proof_at_def)
    qed
  qed
qed


text \<open>The node encodings a verifier run hashes, and the run it was honest to make.\<close>

fun loop_inputs :: "string list \<Rightarrow> nat \<Rightarrow> nat \<Rightarrow> string \<Rightarrow> string \<Rightarrow> string list" where
  "loop_inputs [] first second old_acc new_acc = []"
| "loop_inputs (sibling # siblings) first second old_acc new_acc =
     (if second = 0 then []
      else if odd first \<or> first = second then
        node_bytes sibling old_acc # node_bytes sibling new_acc #
          (case shift_zeros first second of (f, s) \<Rightarrow>
             loop_inputs siblings (f div 2) (s div 2) (node sibling old_acc) (node sibling new_acc))
      else node_bytes new_acc sibling #
          loop_inputs siblings (first div 2) (second div 2) old_acc (node new_acc sibling))"

definition consistency_inputs :: "nat \<Rightarrow> nat \<Rightarrow> string \<Rightarrow> string list \<Rightarrow> string list" where
  "consistency_inputs old_size sz old_root siblings =
     (case shift_ones (old_size - 1) (sz - 1) of (first, second) \<Rightarrow>
        if first = 0 then loop_inputs siblings first second old_root old_root
        else loop_inputs (drop 1 siblings) first second (siblings ! 0) (siblings ! 0))"

lemma loop_sound:
  assumes "inj_on sha256 S"
  shows "consistency_loop ss f s old new = Inr (Some (0, o1, root)) \<Longrightarrow>
    consistency_loop ts f s old' new' = Inr (Some (0, o2, root)) \<Longrightarrow>
    set (loop_inputs ss f s old new) \<subseteq> S \<Longrightarrow> set (loop_inputs ts f s old' new') \<subseteq> S \<Longrightarrow>
    ss = ts \<and> new = new'"
proof (induction ss arbitrary: ts f s old new old' new')
  case Nil
  then show ?case by (cases ts) auto
next
  case (Cons x ss)
  have s: "s \<noteq> 0" using Cons.prems(1) by (auto split: if_splits)
  then obtain y ts' where ts: "ts = y # ts'" using Cons.prems(2) by (cases ts) auto
  show ?case
  proof (cases "odd f \<or> f = s")
    case True
    obtain f' s' where z: "shift_zeros f s = (f', s')" by fastforce
    have h: "is_hash x" "is_hash new" "is_hash y" "is_hash new'"
      using Cons.prems(1,2) True s ts by (auto simp: result_simps)
    have "ss = ts' \<and> node x new = node y new'"
      by (rule Cons.IH [of "f' div 2" "s' div 2" "node x old" _ _ "node y old'"])
        (use Cons.prems True s ts z in \<open>auto simp: result_simps\<close>)
    moreover have "node_bytes x new \<in> S" "node_bytes y new' \<in> S"
      using Cons.prems(3,4) True s ts by auto
    ultimately show ?thesis
      using node_inj [OF assms] h ts by blast
  next
    case False
    have h: "is_hash x" "is_hash new" "is_hash y" "is_hash new'"
      using Cons.prems(1,2) False s ts by (auto simp: result_simps)
    have "ss = ts' \<and> node new x = node new' y"
      by (rule Cons.IH [of "f div 2" "s div 2" old _ _ old'])
        (use Cons.prems False s ts in \<open>auto simp: result_simps\<close>)
    moreover have "node_bytes new x \<in> S" "node_bytes new' y \<in> S"
      using Cons.prems(3,4) False s ts by auto
    ultimately show ?thesis
      using node_inj [OF assms] h ts by blast
  qed
qed

lemma check_consistency_run:
  assumes "check_consistency m n r root ss = Inr True" "0 < m" "m < n"
    and "shift_ones (m - 1) (n - 1) = (f, s)"
  shows "f = 0 \<Longrightarrow> consistency_loop ss f s r r = Inr (Some (0, r, root))"
    "f \<noteq> 0 \<Longrightarrow> ss \<noteq> [] \<and> consistency_loop (drop 1 ss) f s (ss ! 0) (ss ! 0) = Inr (Some (0, r, root))"
  using assms by (auto simp: check_consistency_def result_simps proof_at_def split: if_splits option.splits)

text \<open>Two accepted proofs for one root and one pair of sizes vouch for one old root.\<close>

lemma check_consistency_unique:
  assumes "inj_on sha256 (set (consistency_inputs m n r ss) \<union> set (consistency_inputs m n r' ts))"
    and "check_consistency m n r root ss = Inr True" "check_consistency m n r' root ts = Inr True"
    and "0 < m" "m < n"
  shows "r = r' \<and> ss = ts"
proof -
  obtain f s where fs: "shift_ones (m - 1) (n - 1) = (f, s)" by fastforce
  note run = check_consistency_run [OF assms(2,4,5) fs] check_consistency_run [OF assms(3,4,5) fs]
  note sound = loop_sound [OF assms(1)]
  show ?thesis
  proof (cases "f = 0")
    case True
    then show ?thesis using sound [OF run(1,3)] fs by (simp add: consistency_inputs_def)
  next
    case False
    with run obtain x xs y ys where c: "ss = x # xs" "ts = y # ys" by (auto simp: neq_Nil_conv)
    with False have "xs = ys \<and> x = y"
      using sound [of xs f s x x r root ys y y r'] run(2,4) fs by (simp add: consistency_inputs_def)
    then show ?thesis using run(2,4) False c by simp
  qed
qed

lemma length_cpath: "length hs \<le> 2 ^ d \<Longrightarrow> length (cpath hs m) \<le> d"
proof (induction d arbitrary: hs m)
  case 0
  then show ?case by (subst cpath.simps) auto
next
  case (Suc d)
  show ?case
  proof (cases "0 < m \<and> m < length hs")
    case True
    then have n: "2 \<le> length hs" by linarith
    note b = split_size_le_pow [OF n Suc.prems]
    show ?thesis
      using Suc.IH [of "take (split_size (length hs)) hs" m] b True
        Suc.IH [of "drop (split_size (length hs)) hs" "m - split_size (length hs)"]
      by (cases "m \<le> split_size (length hs)") (auto simp: c_left c_right)
  next
    case False
    then show ?thesis by (subst cpath.simps) auto
  qed
qed

lemma verify_consistency_iff:
  "verify_consistency old_size sz old_root root path \<longleftrightarrow>
     (\<exists>m n r1 r2 ss. sz = PInt (int n) \<and> old_size = PInt (int m) \<and> old_root = PStr r1 \<and> root = PStr r2
        \<and> path = PList (map PStr ss) \<and> m \<le> n \<and> n \<le> MAX_TREE_LEAVES \<and> is_hash r1 \<and> is_hash r2
        \<and> hashes_ok ss \<and> length ss \<le> 64 \<and> check_consistency m n r1 r2 ss = Inr True)" (is "?v \<longleftrightarrow> ?rhs")
proof
  assume ?v
  then obtain n m r1 r2 ps ss where
    "sz = PInt n" "0 \<le> n" "n \<le> int MAX_TREE_LEAVES" "old_size = PInt m" "0 \<le> m" "m \<le> n"
    "old_root = PStr r1" "is_hash r1" "root = PStr r2" "is_hash r2" "path = PList ps"
    "length ps \<le> 64" "map_r hash_value ps = Inr ss" "check_consistency (nat m) (nat n) r1 r2 ss = Inr True"
    by (cases path) (auto simp: verify_consistency_def returned_true_def result_simps split: sum.splits if_splits)
  then show ?rhs
    by (intro exI [of _ "nat m"] exI [of _ "nat n"] exI [of _ r1] exI [of _ r2] exI [of _ ss])
      (auto simp: map_r_hash_value_Inr)
next
  assume ?rhs
  then show ?v
    by (auto simp: verify_consistency_def returned_true_def fp_count_def count_int_def hash_value_def check_hash_def)
qed

lemma hashes_ok_cpath: "hashes_ok hs \<Longrightarrow> hashes_ok (cpath hs m)"
proof (induction hs arbitrary: m rule: length_tree_induct)
  case (short hs)
  then show ?case by (subst cpath.simps) auto
next
  case (split hs k)
  then show ?case
    by (cases "0 < m \<and> m < length hs"; cases "m \<le> k") (auto simp: cpath.simps [of hs m] Let_def)
qed

lemma consistency_shape:
  assumes "hashes_ok hs" "length hs \<le> MAX_TREE_LEAVES" "m \<le> length hs"
  shows "\<exists>siblings. consistency hs (int m) = Inr siblings \<and> length siblings \<le> 21 \<and> hashes_ok siblings"
proof (cases "m = 0")
  case True
  then show ?thesis by (simp add: consistency_def count_int_def fp_count_def)
next
  case False
  then have "consistency hs (int m)
      = Inr ((if length (cblock hs m) = m then [] else [mth (cblock hs m)]) @ cpath hs m)"
    using subproof_honest [OF assms(1,2), of m True] assms(3) by (simp add: consistency_def count_int_def fp_count_def)
  moreover have "length (cpath hs m) \<le> 20"
    using assms(2) by (intro length_cpath) (simp add: MAX_TREE_LEAVES_def)
  ultimately show ?thesis
    using hashes_ok_cpath [OF assms(1)] hashes_ok_cblock [of m hs] assms False by auto
qed

lemma consistency_two:
  assumes "is_hash a" "is_hash b"
  shows "consistency [a, b] (int 1) = Inr [b]"
proof -
  have s: "split_size 2 = 1" using split_size_pow [of 0] by simp
  have "tree_hash [b] = Inr b" using tree_hash_mth [of "[b]"] assms by (simp add: MAX_TREE_LEAVES_def)
  moreover have "subproof [a] 1 True = Inr []" by (simp add: subproof.simps)
  ultimately have "subproof [a, b] 1 True = Inr [b]" using s by (subst subproof.simps) (simp add: numeral_2_eq_2)
  then show ?thesis by (simp add: consistency_def count_int_def fp_count_def)
qed

section \<open>Domain separation\<close>

text \<open>
  A leaf is hashed with the prefix 0, a node with the prefix 1; the leaf encoding inherits
  the unambiguity of the canonical encoding.
\<close>

definition leaf_bytes :: "pv \<Rightarrow> string result" where
  "leaf_bytes statement = bind_r (wire statement) (\<lambda>b. Inr (char_of (0 :: nat) # b))"

lemma leaf_hash_bytes: "leaf_hash v = bind_r (leaf_bytes v) (\<lambda>b. Inr (sha256_hex b))"
  by (cases "wire v") (simp_all add: leaf_hash_def leaf_bytes_def)

lemma leaf_bytes_Inr: "leaf_bytes v = Inr b \<longleftrightarrow> (\<exists>w. wire v = Inr w \<and> b = char_of (0 :: nat) # w)"
  by (auto simp: leaf_bytes_def result_simps)

lemma leaf_not_node: "leaf_bytes v = Inr b \<Longrightarrow> b \<noteq> node_bytes l r"
  by (auto simp: leaf_bytes_Inr node_bytes_def)

interpretation leaf_code: committed_encoding leaf_bytes wf_pv same_value
proof unfold_locales
  fix v w b
  assume "wf_pv v" "wf_pv w" "leaf_bytes v = Inr b" "leaf_bytes w = Inr b"
  then show "same_value v w"
    using wire_code.decodable [of v w "tl b"] by (auto simp: leaf_bytes_Inr)
qed

lemma leaf_hash_is_hash: "leaf_hash v = Inr h \<Longrightarrow> is_hash h"
  by (auto simp: leaf_hash_bytes result_simps)

section \<open>Properties\<close>

text \<open>Concrete hashes, for instances.\<close>

definition uniform_hash :: "char \<Rightarrow> string" where
  "uniform_hash c = replicate 64 c"

lemma is_hash_uniform [simp]: "is_hash (uniform_hash c) \<longleftrightarrow> is_hex_char c"
  by (simp add: is_hash_def uniform_hash_def list_all_iff)

text \<open>The frontier after appending the leaves one at a time to the empty one.\<close>

fun frontier_build :: "frontier \<Rightarrow> string list \<Rightarrow> frontier result" where
  "frontier_build f [] = Inr f"
| "frontier_build f (leaf # hashes) = bind_r (frontier_append f leaf) (\<lambda>f'. frontier_build f' hashes)"

lemma frontier_build_of:
  "frontier_of 0 f hs \<Longrightarrow> hashes_ok (hs @ ls) \<Longrightarrow>
     \<exists>f'. frontier_build f ls = Inr f' \<and> frontier_of 0 f' (hs @ ls)"
proof (induction ls arbitrary: f hs)
  case (Cons l ls)
  obtain f' where f': "frontier_append f l = Inr f'" "frontier_of 0 f' (hs @ [l])"
    using frontier_of_append [of 0 f hs "[l]"] Cons.prems by auto
  then show ?case using Cons.IH [OF f'(2)] Cons.prems by simp
qed simp

text \<open>
  C3: The incremental checkpoints equal the recomputed ones: \<open>prefix_roots\<close>, which folds the
  leaves through a logarithmic frontier, returns at position \<open>k\<close> the root that the recursive
  \<open>tree_hash\<close> computes of the first \<open>k\<close> leaves, for every prefix.
\<close>

theorem prefix_roots_tree_hash:
  assumes "list_all is_hash hs" "length hs \<le> MAX_TREE_LEAVES"
  shows "\<exists>roots. prefix_roots hs = Inr roots \<and> length roots = Suc (length hs)
    \<and> (\<forall>k \<le> length hs. tree_hash (take k hs) = Inr (roots ! k))"
  using assms prefix_roots_mth [of hs]
  by (auto simp: tree_hash_mth nth_append simp del: upt_Suc)

theorem prefix_roots_tree_hash_witness:
  "\<exists>roots. prefix_roots [uniform_hash (CHR ''a''), uniform_hash (CHR ''0'')] = Inr roots \<and> length roots = 3
    \<and> tree_hash [uniform_hash (CHR ''a'')] = Inr (roots ! 1)"
proof -
  let ?hs = "[uniform_hash (CHR ''a''), uniform_hash (CHR ''0'')]"
  have "list_all is_hash ?hs" "length ?hs \<le> MAX_TREE_LEAVES" by (simp_all add: MAX_TREE_LEAVES_def is_hex_char_def)
  from prefix_roots_tree_hash [OF this] obtain roots
    where "prefix_roots ?hs = Inr roots" "length roots = 3" "tree_hash (take 1 ?hs) = Inr (roots ! 1)"
    by (auto simp del: take_Suc_Cons)
  then show ?thesis by auto
qed

text \<open>
  Appending a leaf to the frontier of any history yields, without reading that history,
  the frontier \<open>frontier_append\<close> gives, a size one larger, the root \<open>tree_hash\<close> computes of the
  extended history, and exactly the inclusion proof \<open>inclusion\<close> computes for the new leaf.
\<close>

theorem frontier_proof_is_inclusion:
  assumes "list_all is_hash (hs @ [leaf])" "length (hs @ [leaf]) \<le> MAX_TREE_LEAVES"
  shows "\<exists>f f' siblings. frontier_build [] hs = Inr f \<and> frontier_append f leaf = Inr f'
    \<and> frontier_append_with_proof f leaf = Inr (f', siblings)
    \<and> frontier_size f = length hs \<and> frontier_size f' = Suc (length hs)
    \<and> frontier_root f' = tree_hash (hs @ [leaf])
    \<and> inclusion (hs @ [leaf]) (int (length hs)) = Inr siblings"
proof -
  obtain f where f: "frontier_build [] hs = Inr f" "frontier_of 0 f hs"
    using frontier_build_of [of "[]" "[]" hs] assms(1) by auto
  obtain f' siblings where s: "frontier_append_with_proof f leaf = Inr (f', siblings)" "frontier_append f leaf = Inr f'"
    "frontier_of 0 f' (hs @ [leaf])" "path_of (hs @ [leaf]) (length hs) = siblings"
    using frontier_append_with_proof_path [of 0 f hs "[leaf]"] f assms(1) by auto
  have sz: "frontier_size f = length hs" "frontier_size f' = Suc (length hs)"
    using frontier_of_size [OF f(2)] frontier_of_size [OF s(3)] by (simp_all add: frontier_size_def)
  have root: "frontier_root f' = tree_hash (hs @ [leaf])"
    using frontier_root_mth [OF s(3) assms(1)] tree_hash_mth [OF assms] by simp
  have "inclusion (hs @ [leaf]) (int (length hs)) = Inr siblings"
    using inclusion_path_of [OF assms, of "length hs"] s(4) by simp
  with f s sz root show ?thesis by blast
qed

theorem frontier_proof_is_inclusion_witness:
  "\<exists>f f' siblings. frontier_build [] [uniform_hash (CHR ''a'')] = Inr f
    \<and> frontier_append_with_proof f (uniform_hash (CHR ''0'')) = Inr (f', siblings) \<and> frontier_size f' = 2"
proof -
  let ?h = "uniform_hash (CHR ''a'')" and ?l = "uniform_hash (CHR ''0'')"
  have "list_all is_hash ([?h] @ [?l])" "length ([?h] @ [?l]) \<le> MAX_TREE_LEAVES" by (simp_all add: MAX_TREE_LEAVES_def is_hex_char_def)
  from frontier_proof_is_inclusion [OF this] show ?thesis by auto
qed

text \<open>
  Completeness of inclusion: for every leaf of a tree within the size limit, \<open>inclusion\<close>
  and \<open>tree_hash\<close> return, and \<open>verify_inclusion\<close> accepts the proof they give.
\<close>

theorem inclusion_complete:
  assumes "list_all is_hash hs" "length hs \<le> MAX_TREE_LEAVES" "i < length hs"
  shows "\<exists>siblings root. inclusion hs (int i) = Inr siblings \<and> tree_hash hs = Inr root
    \<and> verify_inclusion (PStr (hs ! i)) (PInt (int i)) (PInt (int (length hs))) (PList (map PStr siblings)) (PStr root)"
  using inclusion_path_of [OF assms] tree_hash_mth [OF assms(1,2)] verify_inclusion_complete [OF assms] by simp

theorem inclusion_complete_witness:
  "\<exists>siblings root. verify_inclusion (PStr (uniform_hash (CHR ''c''))) (PInt 2) (PInt 3) (PList (map PStr siblings)) (PStr root)"
proof -
  let ?hs = "[uniform_hash (CHR ''a''), uniform_hash (CHR ''b''), uniform_hash (CHR ''c'')]"
  have h: "list_all is_hash ?hs" "length ?hs \<le> MAX_TREE_LEAVES" by (simp_all add: MAX_TREE_LEAVES_def is_hex_char_def)
  have e: "?hs ! 2 = uniform_hash (CHR ''c'')" "length ?hs = 3" "int 3 = 3" "int 2 = 2"
    by simp_all
  have i: "2 < length ?hs" by simp
  obtain siblings root where
    "verify_inclusion (PStr (?hs ! 2)) (PInt (int 2)) (PInt (int (length ?hs))) (PList (map PStr siblings)) (PStr root)"
    using inclusion_complete [OF h i] by blast
  then show ?thesis unfolding e by (intro exI)
qed

text \<open>
  C4: Soundness of inclusion: an accepted proof against the root of a tree is for the leaf the
  tree has at that index, and is the honest path sibling for sibling, unless SHA-256 collides
  on the node encodings hashed in building the tree and in checking the proof.
\<close>

theorem inclusion_sound:
  assumes "verify_inclusion (PStr leaf) (PInt (int i)) (PInt (int (length hs))) (PList (map PStr siblings)) (PStr root)"
    and "list_all is_hash hs" "tree_hash hs = Inr root"
    and "inj_on sha256 (set (tree_inputs hs) \<union> set (path_inputs leaf i siblings 0 (length hs) 0))"
  shows "i < length hs \<and> leaf = hs ! i \<and> inclusion hs (int i) = Inr siblings"
proof -
  from assms(1) have v: "length hs \<le> MAX_TREE_LEAVES" "i < length hs" "is_hash leaf" "hashes_ok siblings"
    "fold_path leaf i siblings 0 (length hs) 0 = Inr (root, length siblings)"
    unfolding verify_inclusion_iff by auto
  have "root = mth hs" using tree_hash_mth [OF assms(2) v(1)] assms(3) by simp
  then have "leaf = hs ! i \<and> siblings = path_of hs i"
    using fold_path_sound [OF assms(4) v(4,3) assms(2), of 0 i i 0 "length siblings"] v by auto
  then show ?thesis using inclusion_path_of [OF assms(2) v(1,2)] v(2) by simp
qed

theorem inclusion_sound_witness:
  "inclusion [uniform_hash (CHR ''f'')] (int 0) = Inr []"
proof -
  let ?h = "uniform_hash (CHR ''f'')"
  have h: "is_hash ?h" by (simp add: is_hex_char_def)
  have f: "fold_path ?h 0 [] 0 1 0 = Inr (?h, 0)" by (simp add: fold_path.simps)
  have v: "verify_inclusion (PStr ?h) (PInt (int 0)) (PInt (int (length [?h]))) (PList (map PStr [])) (PStr ?h)"
    unfolding verify_inclusion_iff
    by (intro exI [of _ "1 :: nat"] exI [of _ "0 :: nat"] exI [of _ ?h] exI [of _ "[] :: string list"])
      (use h f in \<open>simp add: MAX_TREE_LEAVES_def\<close>)
  have t: "tree_hash [?h] = Inr ?h"
    using h tree_hash_mth [of "[?h]"] by (simp add: MAX_TREE_LEAVES_def)
  have i: "inj_on sha256 (set (tree_inputs [?h]) \<union> set (path_inputs ?h 0 [] 0 (length [?h]) 0))"
    by (simp add: tree_inputs.simps path_inputs.simps)
  from inclusion_sound [OF v _ t i] h show ?thesis by simp
qed

text \<open>
  Completeness of consistency: for every prefix of a tree within the size limit,
  \<open>consistency\<close> returns a proof of at most 64 hashes that \<open>verify_consistency\<close> accepts against
  the roots of the prefix and of the tree.
\<close>

theorem consistency_complete:
  assumes "list_all is_hash hs" "length hs \<le> MAX_TREE_LEAVES" "m \<le> length hs"
  shows "\<exists>siblings old_root root. consistency hs (int m) = Inr siblings
    \<and> tree_hash (take m hs) = Inr old_root \<and> tree_hash hs = Inr root
    \<and> verify_consistency (PInt (int m)) (PInt (int (length hs))) (PStr old_root) (PStr root) (PList (map PStr siblings))"
proof -
  obtain siblings where s: "consistency hs (int m) = Inr siblings" "length siblings \<le> 21" "hashes_ok siblings"
    using consistency_shape [OF assms] by blast
  have "check_consistency m (length hs) (mth (take m hs)) (mth hs) siblings = Inr True"
    by (rule check_consistency_honest [OF assms s(1)])
  then have "verify_consistency (PInt (int m)) (PInt (int (length hs))) (PStr (mth (take m hs))) (PStr (mth hs)) (PList (map PStr siblings))"
    unfolding verify_consistency_iff using assms s by fastforce
  with s(1) tree_hash_mth [OF assms(1,2)] tree_hash_mth [of "take m hs"] assms show ?thesis by simp
qed

theorem consistency_complete_witness:
  "\<exists>siblings old_root root. verify_consistency (PInt 1) (PInt 3) (PStr old_root) (PStr root) (PList (map PStr siblings))"
proof -
  let ?hs = "[uniform_hash (CHR ''a''), uniform_hash (CHR ''b''), uniform_hash (CHR ''c'')]"
  have h: "list_all is_hash ?hs" "length ?hs \<le> MAX_TREE_LEAVES" by (simp_all add: MAX_TREE_LEAVES_def is_hex_char_def)
  have e: "length ?hs = 3" "int 3 = 3" "int 1 = 1" by simp_all
  have i: "1 \<le> length ?hs" by simp
  obtain siblings old_root root where
    "verify_consistency (PInt (int 1)) (PInt (int (length ?hs))) (PStr old_root) (PStr root) (PList (map PStr siblings))"
    using consistency_complete [OF h i] by blast
  then show ?thesis unfolding e by (intro exI)
qed

text \<open>
  C5: Soundness of consistency: a proof accepted against the root of a tree shows the root of
  that tree's own prefix, so an operator cannot have rewritten the prefix, and the proof is
  the honest one, unless SHA-256 collides on the node encodings hashed by the two checks.
\<close>

theorem consistency_sound:
  assumes "verify_consistency (PInt (int m)) (PInt (int (length hs))) (PStr old_root) (PStr root) (PList (map PStr siblings))"
    and "list_all is_hash hs" "tree_hash hs = Inr root" "consistency hs (int m) = Inr honest"
    and "inj_on sha256 (set (consistency_inputs m (length hs) old_root siblings)
           \<union> set (consistency_inputs m (length hs) (mth (take m hs)) honest))"
  shows "tree_hash (take m hs) = Inr old_root \<and> siblings = honest"
proof -
  from assms(1) have v: "m \<le> length hs" "length hs \<le> MAX_TREE_LEAVES"
    "check_consistency m (length hs) old_root root siblings = Inr True"
    unfolding verify_consistency_iff by auto
  have "root = mth hs" using tree_hash_mth [OF assms(2) v(2)] assms(3) by simp
  with v(3) have a: "check_consistency m (length hs) old_root (mth hs) siblings = Inr True" by simp
  have b: "check_consistency m (length hs) (mth (take m hs)) (mth hs) honest = Inr True"
    by (rule check_consistency_honest [OF assms(2) v(2,1) assms(4)])
  have "old_root = mth (take m hs) \<and> siblings = honest"
  proof (cases "0 < m \<and> m < length hs")
    case True
    with check_consistency_unique [OF assms(5) a b] show ?thesis by simp
  next
    case False
    with v(1) consider "m = 0" | "m \<noteq> 0" "m = length hs" by linarith
    then show ?thesis using a b by cases (simp_all add: check_consistency_def)
  qed
  then show ?thesis using tree_hash_mth [of "take m hs"] assms(2) v(1,2) by simp
qed

theorem consistency_sound_witness:
  "tree_hash [uniform_hash (CHR ''a'')] = Inr (uniform_hash (CHR ''a''))"
proof -
  let ?a = "uniform_hash (CHR ''a'')" and ?b = "uniform_hash (CHR ''b'')"
  let ?hs = "[?a, ?b]"
  have h: "list_all is_hash ?hs" "is_hash ?a" "is_hash ?b" and n: "length ?hs \<le> MAX_TREE_LEAVES" "1 \<le> length ?hs"
    by (simp_all add: MAX_TREE_LEAVES_def is_hex_char_def)
  note s = consistency_two [OF h(2,3)]
  have c: "check_consistency 1 (length ?hs) (mth (take 1 ?hs)) (mth ?hs) [?b] = Inr True"
    by (rule check_consistency_honest [OF h(1) n s])
  have r: "is_hash (mth (take 1 ?hs))" "is_hash (mth ?hs)" "hashes_ok [?b]" using h by simp_all
  have v: "verify_consistency (PInt (int 1)) (PInt (int (length ?hs))) (PStr (mth (take 1 ?hs))) (PStr (mth ?hs)) (PList (map PStr [?b]))"
    unfolding verify_consistency_iff
    by (intro exI conjI; (rule refl)?) (use n c r in simp_all)
  have i: "inj_on sha256 (set (consistency_inputs 1 (length ?hs) (mth (take 1 ?hs)) [?b])
      \<union> set (consistency_inputs 1 (length ?hs) (mth (take 1 ?hs)) [?b]))"
    by (simp add: consistency_inputs_def shift_ones.simps)
  from consistency_sound [OF v h(1) tree_hash_mth [OF h(1) n(1)] s i] show ?thesis by simp
qed

end
