(* ===== verification/LogStore.thy ===== *)
theory LogStore
  imports Merkle Journal
begin

text \<open>
  The stored transparency log, the second half of \<^verbatim>\<open>unimem/transparency_log.py\<close>: leaves and signed heads
  as two journals, the tree rebuilt from the leaves and checked against every head, memoized subtree
  hashes, receipts and their verification. Trees kept between calls are not modelled: each call
  rebuilds, which is what a kept tree stands for as long as both tips are unchanged.
\<close>

section \<open>Memoized subtree hashes\<close>

type_synonym memo = "((nat \<times> nat) \<times> string) list"

definition power_of_two :: "nat \<Rightarrow> bool" where
  "power_of_two n \<longleftrightarrow> n AND (n - 1) = 0"

function log_range :: "string list \<Rightarrow> nat \<Rightarrow> nat \<Rightarrow> memo \<Rightarrow> (string \<times> memo) result" where
  "log_range hashes start sz memo =
     (if sz = 0 then Inr (EMPTY, memo)
      else case map_of memo (start, sz) of
             Some h \<Rightarrow> Inr (h, memo)
           | None \<Rightarrow>
               bind_r (if sz = 1 then (if start < length hashes then Inr (hashes ! start, memo) else Inl IndexError)
                       else
                         (let k = split_size sz in
                          bind_r (log_range hashes start k memo) (\<lambda>(l, memo1).
                          bind_r (log_range hashes (start + k) (sz - k) memo1) (\<lambda>(r, memo2).
                          bind_r (node_hash l r) (\<lambda>h. Inr (h, memo2)))))) (\<lambda>(h, memo').
               Inr (h, if power_of_two sz then ((start, sz), h) # memo' else memo')))"
  by pat_completeness auto
termination
  using split_size_bounds by (relation "measure (\<lambda>(hashes, start, sz, memo). sz)") auto

declare log_range.simps [simp del]

function log_proof :: "string list \<Rightarrow> nat \<Rightarrow> nat \<Rightarrow> nat \<Rightarrow> memo \<Rightarrow> (string list \<times> memo) result" where
  "log_proof hashes index start sz memo =
     (if sz \<le> 1 then Inr ([], memo)
      else
        (let k = split_size sz in
         if index < start + k then
           bind_r (log_proof hashes index start k memo) (\<lambda>(p, memo1).
           bind_r (log_range hashes (start + k) (sz - k) memo1) (\<lambda>(h, memo2). Inr (p @ [h], memo2)))
         else
           bind_r (log_proof hashes index (start + k) (sz - k) memo) (\<lambda>(p, memo1).
           bind_r (log_range hashes start k memo1) (\<lambda>(h, memo2). Inr (p @ [h], memo2)))))"
  by pat_completeness auto
termination
  using split_size_bounds by (relation "measure (\<lambda>(hashes, index, start, sz, memo). sz)") auto

declare log_proof.simps [simp del]

text \<open>The call with an empty tree, where the code would recurse without end, does not occur: a leaf was just added or counted.\<close>

section \<open>The log\<close>

record tlog =
  tl_leaves :: journal
  tl_heads :: journal

record tree =
  tr_hashes :: "string list"
  tr_roots :: "string list"

definition statement_of :: "pv \<Rightarrow> dict result" where
  "statement_of row = (case row of PDict d \<Rightarrow> bind_r (dget d ''statement'') (\<lambda>s. case s of PDict t \<Rightarrow> Inr t | _ \<Rightarrow> Inl AttributeError) | _ \<Rightarrow> Inl TypeError)"

definition leaf_of :: "store_keys \<Rightarrow> pv \<Rightarrow> string result" where
  "leaf_of ks row =
     bind_r (statement_of row) (\<lambda>s. bind_r (authority_verify ks s) (\<lambda>ok. guard_r ok ValueError (leaf_hash (PDict s))))"

definition list_index :: "'a list \<Rightarrow> int \<Rightarrow> 'a result" where
  "list_index xs i = (if 0 \<le> i \<and> i < int (length xs) then Inr (xs ! nat i)
     else if - int (length xs) \<le> i \<and> i < 0 then Inr (xs ! nat (int (length xs) + i)) else Inl IndexError)"

definition head_matches :: "string list \<Rightarrow> string list \<Rightarrow> pv \<Rightarrow> unit result" where
  "head_matches hashes roots row =
     (case row of
        PDict d \<Rightarrow>
          bind_r (dget d ''tree_size'') (\<lambda>v.
          bind_r (case v of PInt i \<Rightarrow> Inr i | PBool b \<Rightarrow> Inr (if b then 1 else 0) | _ \<Rightarrow> Inl TypeError) (\<lambda>n.
          guard_r (\<not> n > int (length hashes)) ValueError (
          bind_r (list_index roots n) (\<lambda>r. bind_r (dget d ''root_hash'') (\<lambda>h. guard_r (is_pstr h r) ValueError (Inr ()))))))
      | _ \<Rightarrow> Inl TypeError)"

definition log_tree :: "store_keys \<Rightarrow> tlog \<Rightarrow> tree result" where
  "log_tree ks st =
     bind_r (journal_records (tl_leaves st)) (\<lambda>rows.
     bind_r (map_r (leaf_of ks) rows) (\<lambda>hashes.
     bind_r (prefix_roots hashes) (\<lambda>roots.
     bind_r (journal_records (tl_heads st)) (\<lambda>heads.
     bind_r (map_r (head_matches hashes roots) heads) (\<lambda>_. Inr \<lparr>tr_hashes = hashes, tr_roots = roots\<rparr>)))))"

definition head_record :: "tree \<Rightarrow> dict" where
  "head_record t = [(''tree_size'', PInt (int (length (tr_hashes t)))), (''root_hash'', PStr (last (tr_roots t))),
     (''log_id'', PStr ''local-store''), (''signature_kind'', PStr ''store-pinned'')]"

definition log_head :: "store_keys \<Rightarrow> string \<Rightarrow> tlog \<Rightarrow> (tlog \<times> dict) result" where
  "log_head ks now st =
     bind_r (log_tree ks st) (\<lambda>t.
     bind_r (if jn_signed (tl_heads st) = [] then Inr None
             else let latest = last (jn_signed (tl_heads st)) in
                  bind_r (dget latest ''record'') (\<lambda>r.
                  bind_r (case r of PDict d \<Rightarrow> dget d ''tree_size'' | _ \<Rightarrow> Inl TypeError) (\<lambda>n.
                    Inr (if num_eq n (int (length (tr_hashes t))) then Some latest else None)))) (\<lambda>known.
     case known of
       Some latest \<Rightarrow> Inr (st, latest)
     | None \<Rightarrow> bind_r (journal_append ks now (tl_heads st) (head_record t)) (\<lambda>(j, row). Inr (st \<lparr>tl_heads := j\<rparr>, row))))"

text \<open>With \<open>receipt\<close>, the leaf number, the signed statement, the head and the path; without, only the first two.\<close>

record receipt =
  rc_leaf :: nat
  rc_statement :: dict
  rc_head :: dict
  rc_proof :: "string list"

definition log_append :: "store_keys \<Rightarrow> string \<Rightarrow> pv \<Rightarrow> pv \<Rightarrow> tlog \<Rightarrow> (tlog \<times> receipt) result" where
  "log_append ks now event statement st =
     bind_r (fp_text event 128) (\<lambda>ev.
     bind_r (log_tree ks st) (\<lambda>t.
     bind_r (fp_sign ks [(''event'', PStr ev), (''statement'', statement), (''created_at'', PStr now)]) (\<lambda>envelope.
     bind_r (journal_append ks now (tl_leaves st) [(''statement'', PDict envelope)]) (\<lambda>(j, row).
     bind_r (leaf_hash (PDict envelope)) (\<lambda>leaf.
     let hashes = tr_hashes t @ [leaf] in
     bind_r (log_range hashes 0 (length hashes) []) (\<lambda>(root, memo).
     bind_r (log_head ks now (st \<lparr>tl_leaves := j\<rparr>)) (\<lambda>(st', head).
     bind_r (log_proof hashes (length hashes - 1) 0 (length hashes) memo) (\<lambda>(path, memo').
       Inr (st', \<lparr>rc_leaf = length hashes - 1, rc_statement = envelope, rc_head = head, rc_proof = path\<rparr>)))))))))"

definition log_append_plain :: "store_keys \<Rightarrow> string \<Rightarrow> pv \<Rightarrow> pv \<Rightarrow> tlog \<Rightarrow> (tlog \<times> nat \<times> dict) result" where
  "log_append_plain ks now event statement st =
     bind_r (fp_text event 128) (\<lambda>ev.
     bind_r (log_tree ks st) (\<lambda>t.
     bind_r (fp_sign ks [(''event'', PStr ev), (''statement'', statement), (''created_at'', PStr now)]) (\<lambda>envelope.
     bind_r (journal_append ks now (tl_leaves st) [(''statement'', PDict envelope)]) (\<lambda>(j, row).
     bind_r (leaf_hash (PDict envelope)) (\<lambda>leaf.
     bind_r (log_range (tr_hashes t @ [leaf]) 0 (Suc (length (tr_hashes t))) []) (\<lambda>_.
       Inr (st \<lparr>tl_leaves := j\<rparr>, length (tr_hashes t), envelope)))))))"

definition log_prove :: "store_keys \<Rightarrow> string \<Rightarrow> pv \<Rightarrow> tlog \<Rightarrow> (tlog \<times> receipt) result" where
  "log_prove ks now leaf st =
     bind_r (log_tree ks st) (\<lambda>t.
     bind_r (fp_count leaf 0 (int (length (tr_hashes t)) - 1)) (\<lambda>i.
     bind_r (signed_at (tl_leaves st) i) (\<lambda>row.
     bind_r (bind_r (dget row ''record'') statement_of) (\<lambda>s.
     bind_r (log_head ks now st) (\<lambda>(st', head).
     bind_r (log_proof (tr_hashes t) (nat i) 0 (length (tr_hashes t)) []) (\<lambda>(path, memo).
       Inr (st', \<lparr>rc_leaf = nat i, rc_statement = s, rc_head = head, rc_proof = path\<rparr>)))))))"

text \<open>A receipt as the dictionary that leaves the program, and its verification.\<close>

definition receipt_dict :: "receipt \<Rightarrow> dict" where
  "receipt_dict r = [(''leaf'', PInt (int (rc_leaf r))), (''statement'', PDict (rc_statement r)), (''head'', PDict (rc_head r)),
     (''proof'', PList (map PStr (rc_proof r)))]"

definition as_dict :: "pv \<Rightarrow> exn \<Rightarrow> dict result" where
  "as_dict v e = (case v of PDict d \<Rightarrow> Inr d | _ \<Rightarrow> Inl e)"

definition log_verify :: "store_keys \<Rightarrow> dict \<Rightarrow> bool result" where
  "log_verify ks receipt =
     caught (bind_r (dget receipt ''head'') (\<lambda>h.
       bind_r (as_dict h TypeError) (\<lambda>head.
       bind_r (dget head ''record'') (\<lambda>body.
       bind_r (authority_verify ks head) (\<lambda>ok.
         if \<not> ok then Inr False
         else bind_r (dget receipt ''statement'') (\<lambda>s.
              bind_r (as_dict s AttributeError) (\<lambda>statement.
              bind_r (authority_verify ks statement) (\<lambda>ok2.
                if \<not> ok2 then Inr False
                else bind_r (leaf_hash (PDict statement)) (\<lambda>leaf.
                     bind_r (dget receipt ''leaf'') (\<lambda>i.
                     bind_r (as_dict body TypeError) (\<lambda>b.
                     bind_r (dget b ''tree_size'') (\<lambda>n.
                     bind_r (dget receipt ''proof'') (\<lambda>p.
                     bind_r (dget b ''root_hash'') (\<lambda>root.
                       Inr (verify_inclusion (PStr leaf) i n p root)))))))))))))))"

definition log_consistent :: "store_keys \<Rightarrow> tlog \<Rightarrow> pv \<Rightarrow> pv option \<Rightarrow> (int \<times> int \<times> string \<times> string \<times> string list) result" where
  "log_consistent ks st old_size sz =
     bind_r (log_tree ks st) (\<lambda>t.
     bind_r (case sz of None \<Rightarrow> Inr (int (length (tr_hashes t))) | Some v \<Rightarrow> fp_count v 0 (int (length (tr_hashes t)))) (\<lambda>n.
     let hashes = take (nat n) (tr_hashes t) in
     bind_r (fp_count old_size 0 n) (\<lambda>m.
     bind_r (tree_hash (take (nat m) hashes)) (\<lambda>old_root. bind_r (tree_hash hashes) (\<lambda>root.
     bind_r (consistency hashes m) (\<lambda>path. Inr (m, n, old_root, root, path)))))))"

section \<open>Memoized hashes are the tree's\<close>

definition memo_ok :: "string list \<Rightarrow> memo \<Rightarrow> bool" where
  "memo_ok hs memo \<longleftrightarrow> (\<forall>((s, n), h) \<in> set memo. h = mth (take n (drop s hs)))"

lemma slice_parts:
  assumes "start + sz \<le> length hs"
  shows "k \<le> sz \<Longrightarrow> take k (take sz (drop start hs)) = take k (drop start hs)"
    "drop k (take sz (drop start hs)) = take (sz - k) (drop (start + k) hs)" "length (take sz (drop start hs)) = sz"
proof -
  have "sz \<le> length hs - start" using assms by linarith
  then show "length (take sz (drop start hs)) = sz" by simp
qed (simp_all add: drop_take add.commute min_def)

lemma log_range_mth:
  assumes "hashes_ok hs" "memo_ok hs memo" "start + sz \<le> length hs"
  shows "\<exists>memo'. log_range hs start sz memo = Inr (mth (take sz (drop start hs)), memo') \<and> memo_ok hs memo'"
  using assms(2,3)
proof (induction sz arbitrary: start memo rule: less_induct)
  case (less sz)
  consider "sz = 0" | h where "sz \<noteq> 0" "map_of memo (start, sz) = Some h" | "sz = 1" "map_of memo (start, sz) = None"
    | "2 \<le> sz" "map_of memo (start, sz) = None"
    using le_less_linear [of 2 sz] by (cases "map_of memo (start, sz)") (auto simp: less_2_cases_iff)
  then show ?case
  proof cases
    case 1
    then show ?thesis using less.prems by (simp add: log_range.simps)
  next
    case 2
    have "h = mth (take sz (drop start hs))" using map_of_SomeD [OF 2(2)] less.prems(1) by (auto simp: memo_ok_def)
    with 2 less.prems show ?thesis by (simp add: log_range.simps)
  next
    case 3
    have "take 1 (drop start hs) = [hs ! start]" using less.prems(2) 3 by (simp add: take_Suc_conv_app_nth hd_drop_conv_nth take_Suc)
    with 3 less.prems show ?thesis by (auto simp: log_range.simps [of hs start] memo_ok_def)
  next
    case 4
    let ?k = "split_size sz" and ?s = "take sz (drop start hs)"
    note b = split_size_bounds [OF 4(1)]
    obtain m1 where m1: "log_range hs start ?k memo = Inr (mth (take ?k (drop start hs)), m1)" "memo_ok hs m1"
      using less.IH [of ?k memo start] b less.prems by auto
    obtain m2 where m2: "log_range hs (start + ?k) (sz - ?k) m1 = Inr (mth (take (sz - ?k) (drop (start + ?k) hs)), m2)" "memo_ok hs m2"
      using less.IH [of "sz - ?k" m1 "start + ?k"] b less.prems m1(2) by auto
    have parts: "take ?k ?s = take ?k (drop start hs)" "drop ?k ?s = take (sz - ?k) (drop (start + ?k) hs)" "length ?s = sz"
      using slice_parts [OF less.prems(2)] b by simp_all
    have mth: "mth ?s = node (mth (take ?k (drop start hs))) (mth (take (sz - ?k) (drop (start + ?k) hs)))"
      using mth_split [of ?s] parts 4(1) by simp
    from 4 m1 m2 assms(1) show ?thesis unfolding mth
      by (subst log_range.simps) (auto simp: Let_def memo_ok_def mth [symmetric])
  qed
qed

lemma log_proof_path:
  assumes "hashes_ok hs" "memo_ok hs memo" "start + sz \<le> length hs" "start \<le> index" "index < start + sz"
  shows "\<exists>memo'. log_proof hs index start sz memo = Inr (path_of (take sz (drop start hs)) (index - start), memo') \<and> memo_ok hs memo'"
  using assms(2-)
proof (induction sz arbitrary: start memo rule: less_induct)
  case (less sz)
  show ?case
  proof (cases "sz \<le> 1")
    case True
    then show ?thesis using less.prems by (simp add: log_proof.simps)
  next
    case False
    let ?k = "split_size sz" and ?s = "take sz (drop start hs)"
    have two: "2 \<le> sz" using False by simp
    note b = split_size_bounds [OF two]
    have parts: "take ?k ?s = take ?k (drop start hs)" "drop ?k ?s = take (sz - ?k) (drop (start + ?k) hs)" "length ?s = sz"
      using slice_parts [OF less.prems(2)] b by simp_all
    show ?thesis
    proof (cases "index < start + ?k")
      case True
      obtain m1 where m1: "log_proof hs index start ?k memo = Inr (path_of (take ?k (drop start hs)) (index - start), m1)" "memo_ok hs m1"
        using less.IH [of ?k memo start] b less.prems True by auto
      obtain m2 where "log_range hs (start + ?k) (sz - ?k) m1 = Inr (mth (take (sz - ?k) (drop (start + ?k) hs)), m2)" "memo_ok hs m2"
        using log_range_mth [OF assms(1) m1(2), of "start + ?k" "sz - ?k"] b less.prems by auto
      moreover have "path_of ?s (index - start) = path_of (take ?k ?s) (index - start) @ [mth (drop ?k ?s)]"
        using two parts(3) True less.prems(3) by (intro path_of_left) auto
      ultimately show ?thesis using m1 parts False True by (subst log_proof.simps) (simp add: Let_def)
    next
      case right: False
      obtain m1 where m1: "log_proof hs index (start + ?k) (sz - ?k) memo = Inr (path_of (take (sz - ?k) (drop (start + ?k) hs)) (index - (start + ?k)), m1)" "memo_ok hs m1"
        using less.IH [of "sz - ?k" memo "start + ?k"] b less.prems right by auto
      obtain m2 where "log_range hs start ?k m1 = Inr (mth (take ?k (drop start hs)), m2)" "memo_ok hs m2"
        using log_range_mth [OF assms(1) m1(2), of start ?k] b less.prems by auto
      moreover have "path_of ?s (index - start) = path_of (drop ?k ?s) (index - start - ?k) @ [mth (take ?k ?s)]"
        using two parts(3) right less.prems(3) by (intro path_of_right) auto
      ultimately show ?thesis using m1 parts False right by (subst log_proof.simps) (simp add: Let_def)
    qed
  qed
qed


section \<open>Receipts verify\<close>

lemma leaf_of_Inr: "leaf_of ks row = Inr h \<Longrightarrow> is_hash h"
  by (auto simp: leaf_of_def bind_r_Inr guard_r_Inr dest: leaf_hash_is_hash)

lemma log_tree_Inr:
  assumes "log_tree ks st = Inr t"
  shows "\<exists>rows heads. journal_records (tl_leaves st) = Inr rows \<and> map_r (leaf_of ks) rows = Inr (tr_hashes t) \<and> hashes_ok (tr_hashes t)
    \<and> tr_roots t = map (\<lambda>i. mth (take i (tr_hashes t))) [0 ..< Suc (length (tr_hashes t))]
    \<and> journal_records (tl_heads st) = Inr heads \<and> (\<forall>row \<in> set heads. head_matches (tr_hashes t) (tr_roots t) row = Inr ())"
proof -
  from assms obtain rows heads us where t: "journal_records (tl_leaves st) = Inr rows" "map_r (leaf_of ks) rows = Inr (tr_hashes t)"
    "prefix_roots (tr_hashes t) = Inr (tr_roots t)" "journal_records (tl_heads st) = Inr heads"
    "map_r (head_matches (tr_hashes t) (tr_roots t)) heads = Inr us"
    by (auto simp: log_tree_def bind_r_Inr)
  have "is_hash h" if "h \<in> set (tr_hashes t)" for h
    using map_r_mem [OF t(2) that] leaf_of_Inr by blast
  then have ok: "hashes_ok (tr_hashes t)" by (simp add: list_all_iff)
  have "head_matches (tr_hashes t) (tr_roots t) row = Inr ()" if mem: "row \<in> set heads" for row
  proof -
    obtain i where i: "i < length heads" "row = heads ! i" using mem unfolding in_set_conv_nth by blast
    then show ?thesis using t(5) by (auto simp: map_r_Inr list_all2_conv_all_nth)
  qed
  with t ok prefix_roots_mth [OF ok] show ?thesis by (intro exI [of _ rows] exI [of _ heads]) simp
qed

definition heads_written :: "tlog \<Rightarrow> bool" where
  "heads_written st \<longleftrightarrow> (\<forall>rows. journal_records (tl_heads st) = Inr rows \<longrightarrow> list_all (\<lambda>row. \<exists>n. map_of (dict_of row) ''tree_size'' = Some (PInt n)) rows)"

lemma last_row_follows:
  assumes "chain_ok ks j" "jn_signed j \<noteq> []"
  shows "\<exists>p. row_follows ks (length (jn_signed j) - 1) p (last (jn_signed j))"
proof -
  have "journal_scan ks 0 [] (butlast (jn_signed j) @ [last (jn_signed j)]) = Inr (jn_tip j)" using assms by (simp add: chain_ok_def)
  then show ?thesis by (auto simp only: journal_scan_append length_butlast add_0)
qed

definition head_of :: "store_keys \<Rightarrow> dict \<Rightarrow> string list \<Rightarrow> bool" where
  "head_of ks head hashes \<longleftrightarrow> authority_verify ks head = Inr True \<and> (\<exists>d. map_of head ''record'' = Some (PDict d)
     \<and> map_of d ''tree_size'' = Some (PInt (int (length hashes))) \<and> map_of d ''root_hash'' = Some (PStr (mth hashes)))"

lemma fresh_head:
  assumes "keys_ok ks" "log_tree ks st = Inr t" "journal_append ks now (tl_heads st) (head_record t) = Inr (j, row)"
  shows "head_of ks row (tr_hashes t)"
proof -
  from journal_append_Inr [OF assms(3)] obtain h used where
    s: "seal ks now (length (jn_signed (tl_heads st))) (jn_tip (tl_heads st)) (jn_bytes (tl_heads st)) (head_record t) = Inr (row, h, used)" by blast
  have r: "tr_roots t = map (\<lambda>i. mth (take i (tr_hashes t))) [0 ..< Suc (length (tr_hashes t))]"
    using log_tree_Inr [OF assms(2)] by (elim exE conjE)
  then have "last (tr_roots t) = mth (tr_hashes t)" by simp
  with own_receipt_verifies(1) [OF seal_Inr(1) [OF s] assms(1)] sealed_record [OF s] show ?thesis
    by (simp add: head_of_def stamped_lookup head_record_def)
qed

lemma kept_head:
  assumes "chain_ok ks (tl_heads st)" "heads_written st" "log_tree ks st = Inr t" "jn_signed (tl_heads st) \<noteq> []"
    and "dget (last (jn_signed (tl_heads st))) ''record'' = Inr (PDict d)" "dget d ''tree_size'' = Inr n" "num_eq n (int (length (tr_hashes t)))"
  shows "head_of ks (last (jn_signed (tl_heads st))) (tr_hashes t)"
proof -
  let ?row = "last (jn_signed (tl_heads st))"
  from log_tree_Inr [OF assms(3)] obtain heads where
    r: "tr_roots t = map (\<lambda>i. mth (take i (tr_hashes t))) [0 ..< Suc (length (tr_hashes t))]"
      "journal_records (tl_heads st) = Inr heads" "\<forall>row \<in> set heads. head_matches (tr_hashes t) (tr_roots t) row = Inr ()" by (elim exE conjE)
  have d: "map_of ?row ''record'' = Some (PDict d)" "map_of d ''tree_size'' = Some n" using assms(5,6) by (simp_all add: dget_Inr)
  have "PDict d \<in> set heads"
  proof -
    have "map_r (\<lambda>row. dget row ''record'') (jn_signed (tl_heads st)) = Inr heads"
      using r(2) by (auto simp: journal_records_def event_snapshot_def bind_r_Inr)
    then have l: "list_all2 (\<lambda>row r. dget row ''record'' = Inr r) (jn_signed (tl_heads st)) heads" by (simp add: map_r_Inr)
    let ?i = "length (jn_signed (tl_heads st)) - 1"
    have "?i < length heads" using l assms(4) by (simp add: list_all2_lengthD [symmetric])
    moreover have "dget (jn_signed (tl_heads st) ! ?i) ''record'' = Inr (heads ! ?i)"
      by (rule list_all2_nthD [OF l]) (use assms(4) in simp)
    ultimately show ?thesis using assms(4,5) by (metis Inr_inject last_conv_nth nth_mem)
  qed
  moreover have "n = PInt (int (length (tr_hashes t)))"
    using assms(2,7) r(2) calculation d(2) by (auto simp: heads_written_def list_all_iff num_eq_def)
  moreover have "list_index (tr_roots t) (int (length (tr_hashes t))) = Inr (mth (tr_hashes t))"
    by (simp add: list_index_def r(1) nth_append del: upt_Suc)
  ultimately have "map_of d ''root_hash'' = Some (PStr (mth (tr_hashes t)))"
    using bspec [OF r(3), of "PDict d"] d(2) by (auto simp: head_matches_def bind_r_Inr guard_r_Inr dget_Inr dget_def is_pstr_def split: option.splits)
  moreover have "authority_verify ks ?row = Inr True" using last_row_follows [OF assms(1,4)] by (auto simp: row_follows_def)
  ultimately show ?thesis using d \<open>n = PInt (int (length (tr_hashes t)))\<close> by (simp add: head_of_def)
qed

lemma log_head_ok:
  assumes "keys_ok ks" "chain_ok ks (tl_heads st)" "heads_written st" "log_tree ks st = Inr t" "log_head ks now st = Inr (st', head)"
  shows "head_of ks head (tr_hashes t)"
proof (cases "\<exists>j. journal_append ks now (tl_heads st) (head_record t) = Inr (j, head)")
  case True
  then show ?thesis using fresh_head [OF assms(1,4)] by blast
next
  case False
  with assms(4,5) obtain d n where "jn_signed (tl_heads st) \<noteq> []" "head = last (jn_signed (tl_heads st))"
    "dget (last (jn_signed (tl_heads st))) ''record'' = Inr (PDict d)" "dget d ''tree_size'' = Inr n" "num_eq n (int (length (tr_hashes t)))"
    by (auto simp: log_head_def bind_r_Inr Let_def split: if_splits option.splits pv.splits)
  with kept_head [OF assms(2-4)] show ?thesis by blast
qed

lemma log_head_leaves: "log_head ks now st = Inr (st', head) \<Longrightarrow> tl_leaves st' = tl_leaves st"
  unfolding log_head_def by (clarsimp simp: bind_r_Inr split: option.split_asm) auto

lemma receipt_verifies:
  assumes "head_of ks head hashes" "authority_verify ks statement = Inr True" "leaf_hash (PDict statement) = Inr (hashes ! i)"
    and "hashes_ok hashes" "length hashes \<le> MAX_TREE_LEAVES" "i < length hashes"
  shows "log_verify ks (receipt_dict \<lparr>rc_leaf = i, rc_statement = statement, rc_head = head, rc_proof = path_of hashes i\<rparr>) = Inr True"
proof -
  from assms(1) obtain d where d: "authority_verify ks head = Inr True" "map_of head ''record'' = Some (PDict d)"
    "map_of d ''tree_size'' = Some (PInt (int (length hashes)))" "map_of d ''root_hash'' = Some (PStr (mth hashes))" by (auto simp: head_of_def)
  with verify_inclusion_complete [OF assms(4-6)] assms(2,3) show ?thesis
    by (simp add: log_verify_def receipt_dict_def dget_def as_dict_def caught_def)
qed

lemma appended_receipt:
  assumes "keys_ok ks" "chain_ok ks (tl_heads st)" "heads_written st" "log_append ks now event statement st = Inr (st', r)"
  shows "log_verify ks (receipt_dict r) = Inr True"
    "\<exists>t t'. log_tree ks st = Inr t \<and> rc_leaf r = length (tr_hashes t) \<and> log_tree ks (st \<lparr>tl_leaves := tl_leaves st'\<rparr>) = Inr t'
        \<and> (\<exists>leaf. tr_hashes t' = tr_hashes t @ [leaf] \<and> leaf_hash (PDict (rc_statement r)) = Inr leaf)"
proof -
  from assms(4) obtain ev t envelope j row leaf root memo head path memo' where
    a: "log_tree ks st = Inr t" "fp_sign ks [(''event'', PStr ev), (''statement'', statement), (''created_at'', PStr now)] = Inr envelope"
      "journal_append ks now (tl_leaves st) [(''statement'', PDict envelope)] = Inr (j, row)" "leaf_hash (PDict envelope) = Inr leaf"
      "log_range (tr_hashes t @ [leaf]) 0 (Suc (length (tr_hashes t))) [] = Inr (root, memo)"
      "log_head ks now (st \<lparr>tl_leaves := j\<rparr>) = Inr (st', head)"
      "log_proof (tr_hashes t @ [leaf]) (length (tr_hashes t)) 0 (Suc (length (tr_hashes t))) memo = Inr (path, memo')"
      "r = \<lparr>rc_leaf = length (tr_hashes t), rc_statement = envelope, rc_head = head, rc_proof = path\<rparr>"
    by (auto simp: log_append_def bind_r_Inr Let_def split: prod.splits)
  let ?hs = "tr_hashes t @ [leaf]" and ?st = "st \<lparr>tl_leaves := j\<rparr>"
  from log_tree_Inr [OF a(1)] obtain rows where rows: "journal_records (tl_leaves st) = Inr rows"
    "map_r (leaf_of ks) rows = Inr (tr_hashes t)" "hashes_ok (tr_hashes t)" by (elim exE conjE)
  have own: "authority_verify ks envelope = Inr True" by (rule own_receipt_verifies(1) [OF a(2) assms(1)])
  from jl.append_records [OF a(3) rows(1)] obtain r' where r': "journal_records j = Inr (rows @ [PDict r'])"
    "map_of r' ''statement'' = Some (PDict envelope)" using keptD by fastforce
  then have "leaf_of ks (PDict r') = Inr leaf" using own a(4) by (simp add: leaf_of_def statement_of_def dget_def)
  moreover from a(6) obtain t' where t': "log_tree ks ?st = Inr t'" by (auto simp: log_head_def bind_r_Inr)
  moreover from log_tree_Inr [OF t'] have "map_r (leaf_of ks) (rows @ [PDict r']) = Inr (tr_hashes t')" using r'(1) by (elim exE conjE) simp
  ultimately have hs: "tr_hashes t' = ?hs" using rows(2) by (simp add: map_r_append)
  have head: "head_of ks head ?hs"
    using log_head_ok [OF assms(1) _ _ t' a(6)] assms(2,3) by (simp add: hs heads_written_def)
  have ok: "hashes_ok ?hs" using rows(3) leaf_hash_is_hash [OF a(4)] by simp
  have len: "length ?hs \<le> MAX_TREE_LEAVES"
  proof -
    have "length rows = length (jn_signed (tl_leaves st))"
      using rows(1) by (auto simp: journal_records_def event_snapshot_def bind_r_Inr dest: map_r_length)
    moreover have "length (jn_signed (tl_leaves st)) \<le> MAX_ROWS - 1" using a(3) by (simp add: journal_append_def guard_r_Inr)
    ultimately show ?thesis using map_r_length [OF rows(2)] by (simp add: MAX_ROWS_def MAX_TREE_LEAVES_def)
  qed
  have memo: "memo_ok ?hs memo"
    using log_range_mth [OF ok, of "[]" 0 "length ?hs"] a(5) by (auto simp: memo_ok_def)
  have "path = path_of ?hs (length (tr_hashes t))"
    using log_proof_path [OF ok memo, of 0 "length ?hs" "length (tr_hashes t)"] a(7) by auto
  then show "log_verify ks (receipt_dict r) = Inr True"
    using receipt_verifies [OF head own _ ok len, of "length (tr_hashes t)"] a(4,8) by (simp add: nth_append)
  have "tl_leaves st' = j" using log_head_leaves [OF a(6)] by simp
  then show "\<exists>t t'. log_tree ks st = Inr t \<and> rc_leaf r = length (tr_hashes t) \<and> log_tree ks (st \<lparr>tl_leaves := tl_leaves st'\<rparr>) = Inr t'
        \<and> (\<exists>leaf. tr_hashes t' = tr_hashes t @ [leaf] \<and> leaf_hash (PDict (rc_statement r)) = Inr leaf)"
    using a(1,4,8) t' hs by auto
qed

text \<open>
  C25: The log's receipts hold up: when an event is appended with a receipt, the receipt names the
  next free leaf, carries the signed statement of that event, and verifies against the store's pinned
  identity, whether its head was just signed or is an earlier one for the same tree; and the leaves
  of the log are the old ones followed by the new one.
\<close>

theorem log_receipt_verifies:
  assumes "keys_ok ks" "chain_ok ks (tl_heads st)" "heads_written st" "log_append ks now event statement st = Inr (st', r)"
  shows "log_verify ks (receipt_dict r) = Inr True
    \<and> (\<exists>t t'. log_tree ks st = Inr t \<and> rc_leaf r = length (tr_hashes t) \<and> log_tree ks (st \<lparr>tl_leaves := tl_leaves st'\<rparr>) = Inr t'
        \<and> (\<exists>leaf. tr_hashes t' = tr_hashes t @ [leaf] \<and> leaf_hash (PDict (rc_statement r)) = Inr leaf))"
  using appended_receipt [OF assms] by blast

definition sample_log :: tlog where
  "sample_log = \<lparr>tl_leaves = empty_journal, tl_heads = empty_journal\<rparr>"

lemma sample_log_tree: "log_tree ks sample_log = Inr \<lparr>tr_hashes = [], tr_roots = [EMPTY]\<rparr>"
  by (simp add: log_tree_def sample_log_def empty_journal_def journal_records_def event_snapshot_def prefix_roots_def frontier_root_def somes_def)

lemma sample_statement_small: "small 3 (PDict [(''event'', PStr ''e''), (''statement'', PNone), (''created_at'', PStr ''t'')])"
  by (simp add: small_eval)

lemma small_statement:
  assumes "small k (PDict env)" "0 < k"
  shows "small (Suc k) (PDict (stamped [(''statement'', PDict env)] 0 [] ''t''))"
  using assms by (simp add: stamped_def small_eval)

lemma small_head: "is_hash h \<Longrightarrow> small 3 (PDict (stamped (head_record \<lparr>tr_hashes = [l], tr_roots = [e, h]\<rparr>) 0 [] ''t''))"
  by (simp add: head_record_def stamped_def small_eval length_quote_hash)

text \<open>The first append to an empty log, for any small statement.\<close>

lemma sample_log_append:
  assumes "small 3 (PDict [(''event'', PStr ''e''), (''statement'', s), (''created_at'', PStr ''t'')])"
  shows "\<exists>st' env hd. log_append sample_keys ''t'' (PStr ''e'') s sample_log = Inr (st', \<lparr>rc_leaf = 0, rc_statement = env, rc_head = hd, rc_proof = []\<rparr>)
    \<and> map_of env ''record'' = Some (PDict [(''event'', PStr ''e''), (''statement'', s), (''created_at'', PStr ''t'')]) \<and> small 4 (PDict env)
    \<and> (\<exists>r. map_of hd ''record'' = Some (PDict r)) \<and> small 4 (PDict hd)"
proof -
  let ?rec = "[(''event'', PStr ''e''), (''statement'', s), (''created_at'', PStr ''t'')]"
  from sample_signed [OF assms] obtain dig sig where
    d: "is_hash dig" "is_hash sig" "fp_sign sample_keys ?rec = Inr (sample_row ?rec dig sig)" by auto
  let ?env = "sample_row ?rec dig sig"
  have small: "small 4 (PDict ?env)" using sample_row_small [OF assms d(1,2)] by simp
  have st: "small 5 (PDict (stamped [(''statement'', PDict ?env)] 0 [] ''t''))" using small_statement [OF small] by simp
  obtain j row where j: "journal_append sample_keys ''t'' empty_journal [(''statement'', PDict ?env)] = Inr (j, row)"
    using sample_appended [of 5 "[(''statement'', PDict ?env)]" empty_journal "''t''"] st by (auto simp: empty_journal_def MAX_ROWS_def)
  obtain leaf where leaf: "leaf_hash (PDict ?env) = Inr leaf"
    using small_wire [OF small] by (simp add: leaf_hash_def del: dumps.simps)
  have lh: "is_hash leaf" by (rule leaf_hash_is_hash [OF leaf])
  have own: "authority_verify sample_keys ?env = Inr True" by (rule own_receipt_verifies(1) [OF d(3) sample_keys_ok])
  have empty: "journal_records empty_journal = Inr []" by (simp add: empty_journal_def journal_records_def event_snapshot_def)
  from jl.append_records [OF j empty] obtain r' where r': "journal_records j = Inr [PDict r']"
    "map_of r' ''statement'' = Some (PDict ?env)" using keptD by fastforce
  then have lo: "leaf_of sample_keys (PDict r') = Inr leaf" using own leaf by (simp add: leaf_of_def statement_of_def dget_def)
  let ?tree = "\<lparr>tr_hashes = [leaf], tr_roots = [EMPTY, leaf]\<rparr>"
  have tree: "log_tree sample_keys (sample_log \<lparr>tl_leaves := j\<rparr>) = Inr ?tree"
    using r'(1) lo empty lh by (simp add: log_tree_def sample_log_def prefix_roots_def frontier_root_def somes_def)
  obtain st' dig' sig' where hd: "log_head sample_keys ''t'' (sample_log \<lparr>tl_leaves := j\<rparr>) = Inr (st', sample_row (stamped (head_record ?tree) 0 [] ''t'') dig' sig')"
    "is_hash dig'" "is_hash sig'"
    using sample_appended [of 3 "head_record ?tree" empty_journal "''t''"] small_head [OF lh] tree
    by (auto simp: log_head_def sample_log_def empty_journal_def MAX_ROWS_def)
  have "fp_text (PStr ''e'') 128 = Inr ''e''" by code_simp
  then have "log_append sample_keys ''t'' (PStr ''e'') s sample_log
      = Inr (st', \<lparr>rc_leaf = 0, rc_statement = ?env, rc_head = sample_row (stamped (head_record ?tree) 0 [] ''t'') dig' sig', rc_proof = []\<rparr>)"
    using d(3) j leaf hd(1) sample_log_tree by (simp add: log_append_def sample_log_def log_range.simps log_proof.simps Let_def)
  moreover have "small 4 (PDict (sample_row (stamped (head_record ?tree) 0 [] ''t'') dig' sig'))" using sample_row_small [OF small_head [OF lh] hd(2,3)] by simp
  moreover have "map_of (sample_row rec dg sg) ''record'' = Some (PDict rec)" for rec dg sg by (simp add: sample_row_def)
  ultimately show ?thesis using small by blast
qed

lemma sample_heads: "chain_ok sample_keys (tl_heads sample_log)" "heads_written sample_log"
  by (simp add: sample_log_def empty_chain)
    (simp add: sample_log_def heads_written_def empty_journal_def journal_records_def event_snapshot_def)

theorem log_receipt_verifies_witness:
  "\<exists>st' r. log_append sample_keys ''t'' (PStr ''e'') PNone sample_log = Inr (st', r) \<and> log_verify sample_keys (receipt_dict r) = Inr True"
  using sample_log_append [OF sample_statement_small] log_receipt_verifies [OF sample_keys_ok sample_heads] by blast

end
