(* ===== verification/Site.thy ===== *)
theory Site
  imports Capabilities Journal
begin

text \<open>
  Robot site memory: the VDA 5050 messages of \<^verbatim>\<open>unimem/robotics/vda5050.py\<close>, validated into dictionaries
  of bounded fields, and \<^verbatim>\<open>unimem/robotics/site_memory.py\<close>, which checks what any adapter returns and
  appends it to a signed journal. The estimates of congestion, which are float arithmetic, are not
  modelled. A timestamp is read by a \<^typ>\<open>clock\<close>.
\<close>

section \<open>Numbers\<close>

text \<open>
  The text of a float is the shortest decimal that reads back as it, so that it compares with an
  integer bound below \<open>2 ^ 53\<close> as the float does; an integer in such bounds becomes the float of that value.
\<close>

definition float_parts :: "string \<Rightarrow> int \<times> int" where
  "float_parts f =
     (let m = takeWhile (\<lambda>c. c \<noteq> CHR ''e'') f; e = drop (Suc (length m)) f;
          whole = takeWhile (\<lambda>c. c \<noteq> CHR ''.'') m; frac = drop (Suc (length whole)) m
      in (decimal_text (whole @ frac), decimal_text e - int (length frac)))"

definition float_between :: "int \<Rightarrow> string \<Rightarrow> int \<Rightarrow> bool" where
  "float_between low f high =
     (let (m, e) = float_parts f in
      if 0 \<le> e then low \<le> m * 10 ^ nat e \<and> m * 10 ^ nat e \<le> high
      else low * 10 ^ nat (- e) \<le> m \<and> m \<le> high * 10 ^ nat (- e))"

definition fp_number :: "pv \<Rightarrow> int \<Rightarrow> int \<Rightarrow> pv result" where
  "fp_number value low high =
     (case value of
        PInt n \<Rightarrow> guard_r (low \<le> n \<and> n \<le> high) ValueError (Inr (PFloat (show_int n @ ''.0'')))
      | PFloat f \<Rightarrow> guard_r (finite_text f) ValueError (guard_r (float_between low f high) ValueError (Inr (PFloat f)))
      | _ \<Rightarrow> Inl ValueError)"

section \<open>VDA 5050 messages\<close>

definition VDA_VERSION :: string where
  "VDA_VERSION = ''3.0.0''"

definition has_keys :: "dict \<Rightarrow> string list \<Rightarrow> bool" where
  "has_keys d ks \<longleftrightarrow> list_all (\<lambda>k. map_of d k \<noteq> None) ks"

definition vda_header :: "clock \<Rightarrow> pv \<Rightarrow> (dict \<times> dict) result" where
  "vda_header clk message =
     (case message of
        PDict d \<Rightarrow>
          guard_r (has_keys d [''headerId'', ''timestamp'', ''version'', ''manufacturer'', ''serialNumber'']
              \<and> map_of d ''version'' = Some (PStr VDA_VERSION)) ValueError (
          bind_r (dget d ''headerId'') (\<lambda>h.
          bind_r (fp_count h 0 (2 ^ 63 - 1)) (\<lambda>hid.
          bind_r (dget d ''timestamp'') (\<lambda>ts.
          bind_r (fp_moment clk ts) (\<lambda>_.
          bind_r (dget d ''manufacturer'') (\<lambda>m.
          bind_r (fp_text m 128) (\<lambda>maker.
          bind_r (dget d ''serialNumber'') (\<lambda>n.
          bind_r (fp_text n 128) (\<lambda>serial.
            Inr (d, [(''header_id'', PInt hid), (''timestamp'', ts), (''manufacturer'', PStr maker), (''serial_number'', PStr serial)]))))))))))
      | _ \<Rightarrow> Inl ValueError)"

definition vda_array :: "pv \<Rightarrow> int \<Rightarrow> int \<Rightarrow> pv list result" where
  "vda_array value minimum maximum =
     (case value of PList xs \<Rightarrow> bind_r (count_int (int (length xs)) minimum maximum) (\<lambda>_. Inr xs) | _ \<Rightarrow> Inl ValueError)"

definition vda_texts :: "pv list \<Rightarrow> string list result" where
  "vda_texts vs = map_r (\<lambda>v. fp_text v 128) vs"

definition vda_zones :: "dict \<Rightarrow> string list result" where
  "vda_zones message =
     bind_r (vda_array (dget_or message ''zoneIds'' (PList [])) 0 512) (\<lambda>vs.
     bind_r (vda_texts vs) (\<lambda>zones. Inr (sorted_set zones)))"

definition path_sharing :: "dict \<Rightarrow> string list \<Rightarrow> string list result" where
  "path_sharing message edge_ids =
     bind_r (vda_array (dget_or message ''pathSharing'' (PList [])) 0 4096) (\<lambda>vs.
     bind_r (vda_texts vs) (\<lambda>shared.
     guard_r (set shared \<subseteq> set edge_ids) ValueError (Inr shared)))"

definition texts_pv :: "string list \<Rightarrow> pv" where
  "texts_pv xs = PList (map PStr xs)"

definition validate_zone :: "clock \<Rightarrow> pv \<Rightarrow> dict result" where
  "validate_zone clk message =
     bind_r (vda_header clk message) (\<lambda>(d, header).
     guard_r (map_of d ''zoneIds'' \<noteq> None) ValueError (
     bind_r (vda_zones d) (\<lambda>zones. Inr (header @ [(''zones'', texts_pv zones)]))))"

definition state_position :: "pv \<Rightarrow> pv result" where
  "state_position position =
     (case position of
        PNone \<Rightarrow> Inr PNone
      | PDict p \<Rightarrow>
          guard_r (has_keys p [''x'', ''y'', ''mapId'']) ValueError (
          bind_r (dget p ''x'') (\<lambda>vx. bind_r (fp_number vx (- 10000000) 10000000) (\<lambda>x.
          bind_r (dget p ''y'') (\<lambda>vy. bind_r (fp_number vy (- 10000000) 10000000) (\<lambda>y.
          bind_r (dget p ''mapId'') (\<lambda>vm. bind_r (fp_text vm 128) (\<lambda>m.
            Inr (PDict [(''x'', x), (''y'', y), (''map_id'', PStr m)]))))))))
      | _ \<Rightarrow> Inl ValueError)"

definition flag :: "pv \<Rightarrow> bool result" where
  "flag v = (case v of PBool b \<Rightarrow> Inr b | _ \<Rightarrow> Inl ValueError)"

definition SEQUENCE_MAX :: int where
  "SEQUENCE_MAX = 2 ^ 31 - 1"

definition state_node :: "pv \<Rightarrow> dict result" where
  "state_node node =
     (case node of
        PDict d \<Rightarrow>
          guard_r (has_keys d [''nodeId'', ''sequenceId'']) ValueError (
          bind_r (state_position (dget_or d ''nodePosition'' PNone)) (\<lambda>position.
          bind_r (flag (dget_or d ''released'' (PBool False))) (\<lambda>released.
          bind_r (dget d ''nodeId'') (\<lambda>vi. bind_r (fp_text vi 128) (\<lambda>identity.
          bind_r (dget d ''sequenceId'') (\<lambda>vs. bind_r (fp_count vs 0 SEQUENCE_MAX) (\<lambda>n.
            Inr [(''node_id'', PStr identity), (''sequence_id'', PInt n), (''position'', position), (''released'', PBool released)])))))))
      | _ \<Rightarrow> Inl ValueError)"

text \<open>An edge, once its keys and its flag are checked; the identifier is what path sharing may name.\<close>

definition edge_fields :: "dict \<Rightarrow> bool \<Rightarrow> (string \<times> dict) result" where
  "edge_fields d released =
     bind_r (dget d ''edgeId'') (\<lambda>vi. bind_r (fp_text vi 128) (\<lambda>identity.
     bind_r (dget d ''sequenceId'') (\<lambda>vs. bind_r (fp_count vs 0 SEQUENCE_MAX) (\<lambda>n.
     bind_r (dget d ''startNodeId'') (\<lambda>va. bind_r (fp_text va 128) (\<lambda>a.
     bind_r (dget d ''endNodeId'') (\<lambda>vb. bind_r (fp_text vb 128) (\<lambda>b.
       Inr (identity, [(''edge_id'', PStr identity), (''sequence_id'', PInt n), (''start'', PStr a), (''end'', PStr b), (''released'', PBool released)])))))))))"

definition state_edge :: "pv \<Rightarrow> (string \<times> dict) result" where
  "state_edge edge =
     (case edge of
        PDict d \<Rightarrow>
          guard_r (has_keys d [''edgeId'', ''sequenceId'', ''startNodeId'', ''endNodeId'']) ValueError (
          bind_r (flag (dget_or d ''released'' (PBool False))) (\<lambda>released. edge_fields d released))
      | _ \<Rightarrow> Inl ValueError)"

text \<open>The common tail: the order, then what the loops normalized, then zones and shared edges.\<close>

definition order_fields :: "dict \<Rightarrow> dict \<Rightarrow> dict list \<Rightarrow> (string \<times> dict) list \<Rightarrow> dict result" where
  "order_fields d header ns es =
     bind_r (dget d ''orderId'') (\<lambda>vo. bind_r (fp_text vo 128) (\<lambda>order.
     bind_r (dget d ''orderUpdateId'') (\<lambda>vu. bind_r (fp_count vu 0 SEQUENCE_MAX) (\<lambda>update.
     bind_r (vda_zones d) (\<lambda>zones.
     bind_r (path_sharing d (map fst es)) (\<lambda>shared.
       Inr (header @ [(''order_id'', PStr order), (''order_update_id'', PInt update),
         (''nodes'', PList (map PDict ns)), (''edges'', PList (map (PDict \<circ> snd) es)),
         (''zones'', texts_pv zones), (''path_sharing'', texts_pv shared)])))))))"

definition validate_state :: "clock \<Rightarrow> pv \<Rightarrow> dict result" where
  "validate_state clk message =
     bind_r (vda_header clk message) (\<lambda>(d, header).
     guard_r (has_keys d [''orderId'', ''orderUpdateId'']) ValueError (
     bind_r (vda_array (dget_or d ''nodeStates'' (PList [])) 0 4096) (\<lambda>vn.
     bind_r (vda_array (dget_or d ''edgeStates'' (PList [])) 0 4096) (\<lambda>ve.
     bind_r (map_r state_node vn) (\<lambda>ns.
     bind_r (map_r state_edge ve) (\<lambda>es.
       order_fields d header ns es))))))"

definition order_node :: "pv \<Rightarrow> dict result" where
  "order_node node =
     (case node of
        PDict d \<Rightarrow>
          guard_r (has_keys d [''nodeId'', ''sequenceId'', ''released'']) ValueError (
          bind_r (dget d ''released'') (\<lambda>vr. bind_r (flag vr) (\<lambda>released.
          bind_r (dget d ''nodeId'') (\<lambda>vi. bind_r (fp_text vi 128) (\<lambda>identity.
          bind_r (dget d ''sequenceId'') (\<lambda>vs. bind_r (fp_count vs 0 SEQUENCE_MAX) (\<lambda>n.
            Inr [(''node_id'', PStr identity), (''sequence_id'', PInt n), (''released'', PBool released)])))))))
      | _ \<Rightarrow> Inl ValueError)"

definition order_edge :: "pv \<Rightarrow> (string \<times> dict) result" where
  "order_edge edge =
     (case edge of
        PDict d \<Rightarrow>
          guard_r (has_keys d [''edgeId'', ''sequenceId'', ''startNodeId'', ''endNodeId'', ''released'']) ValueError (
          bind_r (dget d ''released'') (\<lambda>vr. bind_r (flag vr) (\<lambda>released. edge_fields d released)))
      | _ \<Rightarrow> Inl ValueError)"

definition validate_order :: "clock \<Rightarrow> pv \<Rightarrow> dict result" where
  "validate_order clk message =
     bind_r (vda_header clk message) (\<lambda>(d, header).
     guard_r (has_keys d [''orderId'', ''orderUpdateId'', ''nodes'', ''edges'']) ValueError (
     bind_r (dget d ''nodes'') (\<lambda>an. bind_r (vda_array an 1 4096) (\<lambda>vn.
     bind_r (dget d ''edges'') (\<lambda>ae. bind_r (vda_array ae 0 4096) (\<lambda>ve.
     bind_r (map_r order_node vn) (\<lambda>ns.
     bind_r (map_r order_edge ve) (\<lambda>es.
       order_fields d header ns es))))))))"

section \<open>Site memory\<close>

text \<open>
  \<^verbatim>\<open>fp.loads(fp.wire(value))\<close>: reading the canonical bytes back gives the value with the keys of every
  dictionary in sorted order.
\<close>

definition json_copy :: "pv \<Rightarrow> pv result" where
  "json_copy v = bind_r (wire v) (\<lambda>_. Inr (canon v))"

text \<open>\<^verbatim>\<open>row.get("node_id", row.get("id"))\<close> under the check that one of the keys is there.\<close>

definition site_identity :: "string \<Rightarrow> pv \<Rightarrow> string result" where
  "site_identity key item =
     (case item of
        PDict d \<Rightarrow> guard_r (map_of d key \<noteq> None \<or> map_of d ''id'' \<noteq> None) ValueError
          (fp_text (dget_or d key (dget_or d ''id'' PNone)) 128)
      | _ \<Rightarrow> Inl ValueError)"

definition as_list :: "pv \<Rightarrow> pv list result" where
  "as_list v = (case v of PList xs \<Rightarrow> Inr xs | _ \<Rightarrow> Inl ValueError)"

definition shared_edges :: "pv \<Rightarrow> string list result" where
  "shared_edges v =
     (case v of
        PNone \<Rightarrow> Inr []
      | PList xs \<Rightarrow> guard_r (\<not> 4096 < length xs) ValueError (vda_texts xs)
      | _ \<Rightarrow> Inl ValueError)"

definition check_state :: "clock \<Rightarrow> dict \<Rightarrow> unit result" where
  "check_state clk copied =
     guard_r (has_keys copied [''timestamp'', ''nodes'', ''edges'', ''zones'']) ValueError (
     bind_r (dget copied ''timestamp'') (\<lambda>ts. bind_r (fp_moment clk ts) (\<lambda>_.
     bind_r (dget copied ''nodes'') (\<lambda>vn. bind_r (dget copied ''edges'') (\<lambda>ve. bind_r (dget copied ''zones'') (\<lambda>vz.
     bind_r (as_list vn) (\<lambda>ns. bind_r (as_list ve) (\<lambda>es. bind_r (as_list vz) (\<lambda>zones.
     bind_r (count_int (int (length ns)) 0 4096) (\<lambda>_.
     bind_r (count_int (int (length es)) 0 4096) (\<lambda>_.
     bind_r (count_int (int (length zones)) 0 512) (\<lambda>_.
     bind_r (shared_edges (dget_or copied ''path_sharing'' PNone)) (\<lambda>shared.
     bind_r (map_r (site_identity ''node_id'') ns) (\<lambda>_.
     bind_r (map_r (site_identity ''edge_id'') es) (\<lambda>edge_ids.
     bind_r (vda_texts zones) (\<lambda>_.
     guard_r (set shared \<subseteq> set edge_ids) ValueError (Inr ())))))))))))))))))"

definition validated_state :: "clock \<Rightarrow> pv \<Rightarrow> dict result" where
  "validated_state clk value =
     guard_r (is_dict value) ValueError (
     bind_r (json_copy value) (\<lambda>c.
     guard_r (is_dict c) ValueError (
     bind_r (check_state clk (dict_of c)) (\<lambda>_. Inr (dict_of c)))))"

definition site_scopes :: "pv \<Rightarrow> string list result" where
  "site_scopes scopes =
     (case scopes of
        PNone \<Rightarrow> Inr []
      | PList xs \<Rightarrow> guard_r (\<not> 128 < length xs) ValueError (bind_r (vda_texts xs) (\<lambda>ss. Inr (sorted_set ss)))
      | _ \<Rightarrow> Inl ValueError)"

definition ingest_state ::
  "store_keys \<Rightarrow> clock \<Rightarrow> string \<Rightarrow> journal \<Rightarrow> pv \<Rightarrow> pv \<Rightarrow> pv \<Rightarrow> pv \<Rightarrow> string \<Rightarrow> pv \<Rightarrow> (journal \<times> pv) result" where
  "ingest_state ks clk now j normalized site robot vendor event scopes =
     guard_r (event \<in> {''state'', ''zone'', ''path''}) ValueError (
     bind_r (validated_state clk normalized) (\<lambda>state.
     bind_r (fp_text site 128) (\<lambda>s. bind_r (fp_text robot 128) (\<lambda>r. bind_r (fp_text vendor 128) (\<lambda>w.
     bind_r (dget state ''timestamp'') (\<lambda>ts. bind_r (fp_moment clk ts) (\<lambda>event_time.
     bind_r (site_scopes scopes) (\<lambda>labels.
     bind_r (digest (PList [PStr s, PStr r, PStr w, PDict state])) (\<lambda>h.
     bind_r (journal_append ks now j
       [(''id'', PStr (''site-'' @ take 32 h)), (''site'', PStr s), (''robot'', PStr r), (''vendor'', PStr w), (''kind'', PStr event),
        (''valid_from'', PStr event_time), (''recorded_at'', PStr now), (''scopes'', texts_pv labels), (''state'', PDict state)]) (\<lambda>(j', row).
       Inr (j', record_of row)))))))))))"

definition VDA_VENDOR :: pv where
  "VDA_VENDOR = PStr ''vda5050-3.0.0''"

definition ingest_vda_state where
  "ingest_vda_state ks clk now j message site robot scopes event =
     bind_r (validate_state clk message) (\<lambda>s. ingest_state ks clk now j (PDict s) site robot VDA_VENDOR event scopes)"

definition ingest_vda_order where
  "ingest_vda_order ks clk now j message site robot scopes =
     bind_r (validate_order clk message) (\<lambda>s. ingest_state ks clk now j (PDict s) site robot VDA_VENDOR ''path'' scopes)"

definition zone_state :: "dict \<Rightarrow> dict" where
  "zone_state s = s @ [(''nodes'', PList []), (''edges'', PList [])]"

definition ingest_vda_zone where
  "ingest_vda_zone ks clk now j message site robot scopes =
     bind_r (validate_zone clk message) (\<lambda>s. ingest_state ks clk now j (PDict (zone_state s)) site robot VDA_VENDOR ''zone'' scopes)"

text \<open>The adapter is the caller's; \<open>None\<close> is one without the method.\<close>

definition ingest_open_rmf where
  "ingest_open_rmf ks clk now j adapter message site robot scopes =
     (case adapter of
        None \<Rightarrow> Inl TypeError
      | Some to_unimem_state \<Rightarrow> bind_r (to_unimem_state message) (\<lambda>v. ingest_state ks clk now j v site robot (PStr ''open-rmf-adapter'') ''state'' scopes))"

definition suggest :: "store_keys \<Rightarrow> string \<Rightarrow> journal \<Rightarrow> pv \<Rightarrow> pv \<Rightarrow> (journal \<times> pv) result" where
  "suggest ks now j site ruleset =
     bind_r (fp_text site 128) (\<lambda>s. bind_r (wire ruleset) (\<lambda>rules.
     bind_r (journal_append ks now j [(''site'', PStr s), (''rules'', PStr rules), (''status'', PStr ''review-required''), (''created_at'', PStr now)]) (\<lambda>(j', row).
       Inr (j', record_of row))))"

section \<open>Types of the normalized messages\<close>

datatype schema = Text nat | Moment | Count int int | Number int int | Flag
  | Nullable schema | Array nat nat schema | Object "(string \<times> schema) list"

primrec conforms :: "clock \<Rightarrow> schema \<Rightarrow> pv \<Rightarrow> bool" where
  "conforms clk (Text n) v = (case v of PStr s \<Rightarrow> s \<noteq> [] \<and> length s \<le> n \<and> NUL \<notin> set s | _ \<Rightarrow> False)"
| "conforms clk Moment v = (case fp_moment clk v of Inr t \<Rightarrow> True | Inl e \<Rightarrow> False)"
| "conforms clk (Count lo hi) v = (case v of PInt i \<Rightarrow> lo \<le> i \<and> i \<le> hi | _ \<Rightarrow> False)"
| "conforms clk (Number lo hi) v = (case v of PFloat f \<Rightarrow> finite_text f \<and> float_between lo f hi | _ \<Rightarrow> False)"
| "conforms clk Flag v = (case v of PBool b \<Rightarrow> True | _ \<Rightarrow> False)"
| "conforms clk (Nullable t) v = (v = PNone \<or> conforms clk t v)"
| "conforms clk (Array lo hi t) v = (case v of PList xs \<Rightarrow> lo \<le> length xs \<and> length xs \<le> hi \<and> list_all (conforms clk t) xs | _ \<Rightarrow> False)"
| "conforms clk (Object fs) v = (case v of PDict d \<Rightarrow> map fst d = map fst fs \<and> list_all (\<lambda>(p, w). snd p (snd w)) (zip (map (map_prod id (conforms clk)) fs) d) | _ \<Rightarrow> False)"

definition POSITION :: schema where
  "POSITION = Object [(''x'', Number (- 10000000) 10000000), (''y'', Number (- 10000000) 10000000), (''map_id'', Text 128)]"

definition STATE_NODE :: schema where
  "STATE_NODE = Object [(''node_id'', Text 128), (''sequence_id'', Count 0 SEQUENCE_MAX), (''position'', Nullable POSITION), (''released'', Flag)]"

definition ORDER_NODE :: schema where
  "ORDER_NODE = Object [(''node_id'', Text 128), (''sequence_id'', Count 0 SEQUENCE_MAX), (''released'', Flag)]"

definition EDGE :: schema where
  "EDGE = Object [(''edge_id'', Text 128), (''sequence_id'', Count 0 SEQUENCE_MAX), (''start'', Text 128), (''end'', Text 128), (''released'', Flag)]"

definition HEADER_FIELDS :: "(string \<times> schema) list" where
  "HEADER_FIELDS = [(''header_id'', Count 0 (2 ^ 63 - 1)), (''timestamp'', Moment), (''manufacturer'', Text 128), (''serial_number'', Text 128)]"

definition ORDER_FIELDS :: "nat \<Rightarrow> schema \<Rightarrow> (string \<times> schema) list" where
  "ORDER_FIELDS least node = [(''order_id'', Text 128), (''order_update_id'', Count 0 SEQUENCE_MAX), (''nodes'', Array least 4096 node), (''edges'', Array 0 4096 EDGE),
     (''zones'', Array 0 512 (Text 128)), (''path_sharing'', Array 0 4096 (Text 128))]"

definition STATE_SCHEMA :: schema where
  "STATE_SCHEMA = Object (HEADER_FIELDS @ ORDER_FIELDS 0 STATE_NODE)"

definition ORDER_SCHEMA :: schema where
  "ORDER_SCHEMA = Object (HEADER_FIELDS @ ORDER_FIELDS 1 ORDER_NODE)"

definition ZONE_SCHEMA :: schema where
  "ZONE_SCHEMA = Object (HEADER_FIELDS @ [(''zones'', Array 0 512 (Text 128))])"

text \<open>Shared edges name edges of the same message.\<close>

definition shares_own_edges :: "dict \<Rightarrow> bool" where
  "shares_own_edges d \<longleftrightarrow> list_all (\<lambda>s. list_ex (\<lambda>e. map_of (dict_of e) ''edge_id'' = Some s) (list_of (dget_or d ''edges'' PNone)))
     (list_of (dget_or d ''path_sharing'' PNone))"

section \<open>The text of an integer as a float\<close>

lemma nat_text_snoc: "nat_text (s @ [c]) = 10 * nat_text s + (of_char c - 48)"
  by (simp add: nat_text_def)

lemma nat_text_show: "nat_text (show_nat n) = n"
proof (induction n rule: show_nat.induct)
  case (1 n)
  have c: "of_char (char_of (48 + m) :: char) - 48 = m" if "m < 10" for m :: nat using that by (simp add: of_char_of_small)
  show ?case
    using 1 c [of n] c [of "n mod 10"] by (cases "n < 10") (simp_all add: show_nat.simps [of n] nat_text_snoc, simp add: nat_text_def)
qed

lemma float_parts_int: "float_parts (show_int n @ ''.0'') = (10 * n, - 1)"
proof -
  have d: "list_all int_char (show_nat k)" "show_nat k \<noteq> []" "CHR ''-'' \<notin> set (show_nat k)" for k using show_nat_digits by blast+
  have "\<not> int_char CHR ''e''" "\<not> int_char CHR ''.''" "\<not> int_char CHR ''+''" by code_simp+
  then have nc: "c \<noteq> CHR ''e'' \<and> c \<noteq> CHR ''.'' \<and> c \<noteq> CHR ''+''" if "c \<in> set (show_nat k)" for c k
    using that d(1) [of k] by (auto simp: list_all_iff)
  have m: "takeWhile (\<lambda>c. c \<noteq> CHR ''e'') (show_int n @ ''.0'') = show_int n @ ''.0''"
    using nc by (intro takeWhile_eq_all_conv [THEN iffD2]) (auto simp: show_int_def)
  have w: "takeWhile (\<lambda>c. c \<noteq> CHR ''.'') (show_int n @ ''.0'') = show_int n"
    using nc by (subst takeWhile_append2) (auto simp: show_int_def split: if_splits)
  have h: "take 1 (show_nat k @ ''0'') \<noteq> ''-'' \<and> take 1 (show_nat k @ ''0'') \<noteq> ''+''" for k
    using d(2,3) [of k] nc [of _ k] by (cases "show_nat k") auto
  have "decimal_text (show_int n @ ''0'') = 10 * n"
    using h by (simp add: decimal_text_def show_int_def nat_text_snoc nat_text_show)
  moreover have "decimal_text [] = 0" by (simp add: decimal_text_def nat_text_def)
  ultimately show ?thesis by (simp add: float_parts_def Let_def m w)
qed

lemma float_between_int [simp]: "float_between lo (show_int n @ ''.0'') hi \<longleftrightarrow> lo \<le> n \<and> n \<le> hi"
  by (simp add: float_between_def float_parts_int)

section \<open>Every validator gives a value of its type or raises ValueError\<close>

definition typed :: "('a \<Rightarrow> bool) \<Rightarrow> 'a result \<Rightarrow> bool" where
  "typed T r \<longleftrightarrow> (case r of Inl e \<Rightarrow> e = ValueError | Inr x \<Rightarrow> T x)"

named_theorems typed_intros \<open>typing of validators, for auto\<close>

lemma typed_simps [simp]: "typed T (Inr x) \<longleftrightarrow> T x" "typed T (Inl e) \<longleftrightarrow> e = ValueError"
  by (simp_all add: typed_def)

lemma typed_bind [typed_intros]: "typed T m \<Longrightarrow> (\<And>x. m = Inr x \<Longrightarrow> T x \<Longrightarrow> typed U (f x)) \<Longrightarrow> typed U (bind_r m f)"
  by (cases m) simp_all

lemma typed_guard [typed_intros]: "(ok \<Longrightarrow> typed T r) \<Longrightarrow> typed T (guard_r ok ValueError r)"
  by (cases ok) simp_all

lemma typedI: "(\<And>x. r = Inr x \<Longrightarrow> T x) \<Longrightarrow> (\<And>e. r = Inl e \<Longrightarrow> e = ValueError) \<Longrightarrow> typed T r"
  by (cases r) simp_all

lemma typed_mono: "typed T r \<Longrightarrow> (\<And>x. r = Inr x \<Longrightarrow> T x \<Longrightarrow> U x) \<Longrightarrow> typed U r"
  by (cases r) simp_all

lemma typed_map_r:
  assumes "\<And>x. x \<in> set xs \<Longrightarrow> typed T (f x)"
  shows "typed (\<lambda>ys. length ys = length xs \<and> list_all T ys) (map_r f xs)"
  using assms by (induction xs) (auto intro!: typed_bind elim!: typed_mono)

lemma fp_text_typed: "typed (\<lambda>s. v = PStr s \<and> s \<noteq> [] \<and> length s \<le> n \<and> NUL \<notin> set s) (fp_text v n)"
  by (rule typedI) (auto simp: result_simps)

lemma fp_count_typed: "typed (\<lambda>i. lo \<le> i \<and> i \<le> hi) (fp_count v lo hi)"
  by (auto simp: fp_count_def guard_r_def split: pv.split)

lemma count_int_typed: "typed (\<lambda>i. lo \<le> n \<and> n \<le> hi) (count_int n lo hi)"
  by (auto simp: count_int_def fp_count_def guard_r_def)

lemma fp_number_typed: "typed (\<lambda>x. \<exists>f. x = PFloat f \<and> finite_text f \<and> float_between lo f hi) (fp_number v lo hi)"
proof (cases v)
  case (PInt n)
  have "finite_text (show_int n @ ''.0'')" by (auto simp: finite_text_def)
  then show ?thesis using PInt by (auto simp: fp_number_def guard_r_def)
qed (auto simp: fp_number_def guard_r_def)

lemma fp_moment_typed: "typed (\<lambda>t. conforms clk Moment v) (fp_moment clk v)"
proof (cases "fp_moment clk v")
  case (Inl e)
  then have "e = ValueError" by (auto simp: fp_moment_def result_simps split: option.split_asm)
  with Inl show ?thesis by simp
qed simp

lemma flag_typed: "typed (\<lambda>b. True) (flag v)"
  by (auto simp: flag_def split: pv.split)

lemma has_keys_dget: "has_keys d ks \<Longrightarrow> k \<in> set ks \<Longrightarrow> typed (\<lambda>v. map_of d k = Some v) (dget d k)"
  by (auto simp: has_keys_def list_all_iff dget_def)

text \<open>A field that the required keys include, read and validated.\<close>

lemma typed_field:
  assumes "has_keys d ks" "k \<in> set ks" "\<And>v. typed (T v) (check v)" "\<And>v x. map_of d k = Some v \<Longrightarrow> check v = Inr x \<Longrightarrow> T v x \<Longrightarrow> typed U (f v x)"
  shows "typed U (bind_r (dget d k) (\<lambda>v. bind_r (check v) (f v)))"
  by (rule typed_bind [OF has_keys_dget [OF assms(1,2)]], rule typed_bind [OF assms(3)]) (rule assms(4))

lemmas typed_fields =
  typed_field [OF _ _ fp_text_typed] typed_field [OF _ _ fp_count_typed] typed_field [OF _ _ fp_number_typed]
  typed_field [OF _ _ fp_moment_typed] typed_field [OF _ _ flag_typed]

lemma vda_header_typed:
  "typed (\<lambda>(d, header). message = PDict d \<and> conforms clk (Object HEADER_FIELDS) (PDict header)) (vda_header clk message)"
  by (cases message) (auto simp: vda_header_def HEADER_FIELDS_def intro!: typed_guard typed_fields)

lemma vda_array_typed: "typed (\<lambda>xs. v = PList xs \<and> lo \<le> int (length xs) \<and> int (length xs) \<le> hi) (vda_array v lo hi)"
  by (cases v) (auto simp: vda_array_def intro!: typed_bind [OF count_int_typed])

lemma vda_texts_typed: "typed (\<lambda>ss. vs = map PStr ss \<and> list_all (conforms clk (Text 128)) (map PStr ss)) (vda_texts vs)"
  unfolding vda_texts_def
proof (induction vs)
  case (Cons v vs)
  show ?case unfolding map_r.simps
    by (rule typed_bind [OF fp_text_typed [of v]], rule typed_bind [OF Cons.IH]) simp
qed simp

lemma vda_zones_typed:
  "typed (\<lambda>zs. length zs \<le> 512 \<and> sorted zs \<and> distinct zs \<and> list_all (conforms clk (Text 128)) (map PStr zs)) (vda_zones d)"
  unfolding vda_zones_def
  apply (rule typed_bind [OF vda_array_typed], rule typed_bind [OF vda_texts_typed [of _ clk]])
  apply (auto simp: list_all_iff sorted_set_def length_remdups_leq intro: order_trans [OF length_remdups_leq])
  done

lemma path_sharing_typed:
  "typed (\<lambda>ss. length ss \<le> 4096 \<and> set ss \<subseteq> set es \<and> list_all (conforms clk (Text 128)) (map PStr ss)) (path_sharing d es)"
  unfolding path_sharing_def
  by (rule typed_bind [OF vda_array_typed], rule typed_bind [OF vda_texts_typed [of _ clk]], rule typed_guard) auto

lemma state_position_typed: "typed (conforms clk (Nullable POSITION)) (state_position v)"
  by (cases v) (auto simp: state_position_def POSITION_def intro!: typed_guard typed_fields)

lemma state_node_typed: "typed (\<lambda>d. conforms clk STATE_NODE (PDict d)) (state_node v)"
  by (cases v) (auto simp: state_node_def STATE_NODE_def intro!: typed_guard typed_fields
    typed_bind [OF state_position_typed [of clk]] typed_bind [OF flag_typed])

lemma order_node_typed: "typed (\<lambda>d. conforms clk ORDER_NODE (PDict d)) (order_node v)"
  by (cases v) (auto simp: order_node_def ORDER_NODE_def intro!: typed_guard typed_fields)

definition edge_typed :: "clock \<Rightarrow> string \<times> dict \<Rightarrow> bool" where
  "edge_typed clk e \<longleftrightarrow> conforms clk EDGE (PDict (snd e)) \<and> map_of (snd e) ''edge_id'' = Some (PStr (fst e))"

lemma edge_fields_typed:
  "has_keys d [''edgeId'', ''sequenceId'', ''startNodeId'', ''endNodeId''] \<Longrightarrow> typed (edge_typed clk) (edge_fields d released)"
  by (auto simp: edge_fields_def edge_typed_def EDGE_def intro!: typed_fields)

lemma state_edge_typed: "typed (edge_typed clk) (state_edge v)"
  by (cases v) (auto simp: state_edge_def intro!: typed_guard typed_bind [OF flag_typed] edge_fields_typed)

lemma order_edge_typed: "typed (edge_typed clk) (order_edge v)"
proof (cases v)
  case (PDict d)
  have "has_keys d [''edgeId'', ''sequenceId'', ''startNodeId'', ''endNodeId'']"
    if "has_keys d [''edgeId'', ''sequenceId'', ''startNodeId'', ''endNodeId'', ''released'']" using that by (simp add: has_keys_def)
  with PDict show ?thesis by (auto simp: order_edge_def intro!: typed_guard typed_fields edge_fields_typed)
qed (simp_all add: order_edge_def)

lemma conforms_append:
  "conforms clk (Object fs) (PDict d) \<Longrightarrow> conforms clk (Object (fs @ gs)) (PDict (d @ e)) \<longleftrightarrow> conforms clk (Object gs) (PDict e)"
  by (auto dest: map_eq_imp_length_eq)

lemma order_fields_typed:
  assumes "has_keys d [''orderId'', ''orderUpdateId'']" "conforms clk (Object HEADER_FIELDS) (PDict header)"
    and "least \<le> length ns" "length ns \<le> 4096" "list_all (\<lambda>n. conforms clk node (PDict n)) ns"
    and "length es \<le> 4096" "list_all (edge_typed clk) es"
  shows "typed (\<lambda>s. conforms clk (Object (HEADER_FIELDS @ ORDER_FIELDS least node)) (PDict s) \<and> shares_own_edges s) (order_fields d header ns es)"
proof -
  have keys: "map fst header = [''header_id'', ''timestamp'', ''manufacturer'', ''serial_number'']" using assms(2) by (simp add: HEADER_FIELDS_def)
  then have miss: "map_of header ''edges'' = None" "map_of header ''path_sharing'' = None" by (simp_all add: map_of_eq_None_iff flip: set_map)
  have own: "list_ex (\<lambda>e. map_of (dict_of e) ''edge_id'' = Some (PStr x)) (map (PDict \<circ> snd) es)" if "x \<in> set (map fst es)" for x
    using that assms(7) by (auto simp: list_ex_iff list_all_iff edge_typed_def)
  have body: "conforms clk (Object (HEADER_FIELDS @ ORDER_FIELDS least node)) (PDict s) \<and> shares_own_edges s"
    if s: "s = header @ [(''order_id'', PStr order), (''order_update_id'', PInt update), (''nodes'', PList (map PDict ns)),
        (''edges'', PList (map (PDict \<circ> snd) es)), (''zones'', texts_pv zones), (''path_sharing'', texts_pv shared)]"
      and "order \<noteq> []" "length order \<le> 128" "NUL \<notin> set order" "0 \<le> update" "update \<le> SEQUENCE_MAX"
      and "length zones \<le> 512" "list_all (conforms clk (Text 128)) (map PStr zones)"
      and "length shared \<le> 4096" "set shared \<subseteq> set (map fst es)" "list_all (conforms clk (Text 128)) (map PStr shared)"
    for s order update zones shared
  proof
    show "conforms clk (Object (HEADER_FIELDS @ ORDER_FIELDS least node)) (PDict s)"
      unfolding s conforms_append [OF assms(2)]
      using that(2-) assms(3-7) by (simp add: ORDER_FIELDS_def texts_pv_def list_all_iff edge_typed_def)
    show "shares_own_edges s" unfolding s shares_own_edges_def
      using own that(10) by (simp add: dget_or_def map_add_def miss texts_pv_def list_all_iff list_ex_iff subset_iff)
  qed
  show ?thesis
    unfolding order_fields_def
    apply (rule typed_fields(1) [OF assms(1)], simp)
    apply (rule typed_fields(2) [OF assms(1)], simp)
    apply (rule typed_bind [OF vda_zones_typed [of clk]])
    apply (rule typed_bind [OF path_sharing_typed [of _ clk]])
    apply (unfold typed_simps, rule body [OF refl])
    apply simp_all
    done
qed

lemma validate_state_typed: "typed (\<lambda>s. conforms clk STATE_SCHEMA (PDict s) \<and> shares_own_edges s) (validate_state clk message)"
  unfolding validate_state_def STATE_SCHEMA_def
  apply (rule typed_bind [OF vda_header_typed], clarsimp simp del: conforms.simps)
  apply (rule typed_guard)
  apply (rule typed_bind [OF vda_array_typed], rule typed_bind [OF vda_array_typed])
  apply (rule typed_bind [OF typed_map_r [OF state_node_typed [of clk]]], rule typed_bind [OF typed_map_r [OF state_edge_typed [of clk]]])
  apply (rule order_fields_typed; simp del: conforms.simps)
  done

lemma validate_order_typed: "typed (\<lambda>s. conforms clk ORDER_SCHEMA (PDict s) \<and> shares_own_edges s) (validate_order clk message)"
  unfolding validate_order_def ORDER_SCHEMA_def
  apply (rule typed_bind [OF vda_header_typed], clarsimp simp del: conforms.simps)
  apply (rule typed_guard)
  apply (rule typed_field [OF _ _ vda_array_typed], assumption, simp, rule typed_field [OF _ _ vda_array_typed], assumption, simp)
  apply (rule typed_bind [OF typed_map_r [OF order_node_typed [of clk]]], rule typed_bind [OF typed_map_r [OF order_edge_typed [of clk]]])
  apply (rule order_fields_typed; simp add: has_keys_def del: conforms.simps)
  done

lemma validate_zone_typed: "typed (\<lambda>s. conforms clk ZONE_SCHEMA (PDict s)) (validate_zone clk message)"
  unfolding validate_zone_def ZONE_SCHEMA_def
  apply (rule typed_bind [OF vda_header_typed], clarsimp simp del: conforms.simps)
  apply (rule typed_guard, rule typed_bind [OF vda_zones_typed [of clk]])
  apply (simp add: conforms_append texts_pv_def del: conforms.simps(8), simp add: list_all_iff)
  done

section \<open>Site memory accepts what the validators give\<close>

lemma conforms_keys: "conforms clk (Object fs) (PDict d) \<Longrightarrow> map fst d = map fst fs"
  by simp

lemma conforms_field:
  assumes "conforms clk (Object fs) (PDict d)" "map_of fs k = Some t"
  shows "\<exists>v. map_of d k = Some v \<and> conforms clk t v"
  using assms
proof (induction fs arbitrary: d)
  case (Cons f fs)
  then show ?case by (cases d) auto
qed simp

lemma conforms_Text: "conforms clk (Text n) v \<longleftrightarrow> (\<exists>s. v = PStr s \<and> fp_text v n = Inr s)"
  using py_len_le by (auto simp: fp_text_Inr split: pv.split intro: order_trans)

lemma conforms_Array: "conforms clk (Array lo hi t) v \<longleftrightarrow> (\<exists>xs. v = PList xs \<and> lo \<le> length xs \<and> length xs \<le> hi \<and> list_all (conforms clk t) xs)"
  by (auto split: pv.split)

lemma conforms_Moment: "conforms clk Moment v \<longleftrightarrow> (\<exists>s t. v = PStr s \<and> fp_moment clk v = Inr t)"
proof -
  have "\<exists>s. v = PStr s" if "fp_moment clk v = Inr t" for t
    using that by (auto simp: fp_moment_def bind_r_Inr fp_text_Inr)
  then show ?thesis by (auto split: sum.split)
qed

lemma texts_back: "list_all (conforms clk (Text 128)) xs \<Longrightarrow> \<exists>ss. xs = map PStr ss \<and> vda_texts xs = Inr ss"
proof (induction xs)
  case (Cons x xs)
  then obtain s ss where "x = PStr s" "fp_text x 128 = Inr s" "xs = map PStr ss" "vda_texts xs = Inr ss"
    by (auto simp: conforms_Text simp del: conforms.simps)
  then show ?case by (intro exI [of _ "s # ss"]) (simp add: vda_texts_def)
qed (simp add: vda_texts_def)

lemma identity_back:
  assumes "conforms clk (Object fs) v" "map_of fs key = Some (Text 128)" "distinct (map fst fs)"
  shows "\<exists>s. map_of (dict_of v) key = Some (PStr s) \<and> site_identity key (canon v) = Inr s"
proof -
  from assms(1) obtain d where d: "v = PDict d" by (cases v) auto
  from conforms_field [OF assms(1) [unfolded d] assms(2)] obtain s where
    s: "map_of d key = Some (PStr s)" "fp_text (PStr s) 128 = Inr s" by (auto simp: conforms_Text simp del: conforms.simps)
  have "distinct (map fst d)" using conforms_keys [OF assms(1) [unfolded d]] assms(3) by simp
  from map_of_canon [OF this, of key] s(1) obtain c where "canon v = PDict c" "map_of c key = Some (PStr s)"
    by (cases "canon v") (simp_all add: d)
  with s show ?thesis by (auto simp: d site_identity_def dget_or_def)
qed

lemma map_identity_back:
  assumes "list_all (conforms clk (Object fs)) vs" "map_of fs key = Some (Text 128)" "distinct (map fst fs)"
  shows "\<exists>ids. map_r (site_identity key) (map canon vs) = Inr ids \<and> list_all2 (\<lambda>v s. map_of (dict_of v) key = Some (PStr s)) vs ids"
  using assms(1)
proof (induction vs)
  case (Cons v vs)
  then obtain ids where "map_r (site_identity key) (map canon vs) = Inr ids" "list_all2 (\<lambda>v s. map_of (dict_of v) key = Some (PStr s)) vs ids"
    by auto
  moreover obtain s where "map_of (dict_of v) key = Some (PStr s)" "site_identity key (canon v) = Inr s"
    using identity_back [OF _ assms(2,3), of clk v] Cons.prems by (auto simp del: conforms.simps)
  ultimately show ?case by (intro exI [of _ "s # ids"]) simp
qed simp

text \<open>What site memory needs of a state, its keys in any order.\<close>

lemma check_state_canon:
  assumes "distinct (map fst d)" "map_of d ''timestamp'' = Some ts" "conforms clk Moment ts"
    and "map_of d ''nodes'' = Some (PList ns)" "length ns \<le> 4096" "list_all (conforms clk (Object fs)) ns" "map_of fs ''node_id'' = Some (Text 128)" "distinct (map fst fs)"
    and "map_of d ''edges'' = Some (PList es)" "length es \<le> 4096" "list_all (conforms clk EDGE) es"
    and "map_of d ''zones'' = Some zones" "conforms clk (Array 0 512 (Text 128)) zones"
    and "map_of d ''path_sharing'' = None \<or> (\<exists>sh. map_of d ''path_sharing'' = Some sh \<and> conforms clk (Array 0 4096 (Text 128)) sh)" "shares_own_edges d"
  shows "check_state clk (dict_of (canon (PDict d))) = Inr ()"
proof -
  note look = map_of_canon [OF assms(1)]
  have str: "canon (PStr x) = PStr x" for x by simp
  from assms(3) obtain s t where ts: "ts = PStr s" "fp_moment clk (PStr s) = Inr t" by (auto simp: conforms_Moment simp del: conforms.simps)
  from map_identity_back [OF assms(6-8)] obtain nids where n: "map_r (site_identity ''node_id'') (map canon ns) = Inr nids" by blast
  from map_identity_back [OF assms(11) [unfolded EDGE_def], of "''edge_id''"] obtain ids where
    e: "map_r (site_identity ''edge_id'') (map canon es) = Inr ids" "list_all2 (\<lambda>v s. map_of (dict_of v) ''edge_id'' = Some (PStr s)) es ids" by auto
  from assms(13) obtain zs where z: "zones = PList (map PStr zs)" "length zs \<le> 512" "vda_texts (map PStr zs) = Inr zs"
    unfolding conforms_Array using texts_back by fastforce
  obtain sh where sh: "shared_edges (dget_or (dict_of (canon (PDict d))) ''path_sharing'' PNone) = Inr sh" "set sh \<subseteq> set ids"
  proof (cases "map_of d ''path_sharing''")
    case None
    then show thesis using that [of "[]"] by (simp add: dget_or_def look shared_edges_def del: canon.simps(7))
  next
    case (Some v)
    with assms(14) obtain ss where ss: "v = PList (map PStr ss)" "length ss \<le> 4096" "vda_texts (map PStr ss) = Inr ss"
      unfolding conforms_Array using texts_back by fastforce
    have "x \<in> set ids" if x: "x \<in> set ss" for x
    proof -
      from assms(15) x obtain e where "e \<in> set es" "map_of (dict_of e) ''edge_id'' = Some (PStr x)"
        by (auto simp: shares_own_edges_def dget_or_def assms(9) Some ss(1) list_all_iff list_ex_iff)
      with e(2) show ?thesis by (auto simp: list_all2_conv_all_nth in_set_conv_nth)
    qed
    then show thesis using that [of ss] Some ss by (auto simp: dget_or_def look shared_edges_def comp_def simp del: canon.simps(7))
  qed
  show ?thesis
    unfolding check_state_def
    by (simp add: has_keys_def dget_def look assms(2,4,9,12) ts z n e(1) sh as_list_def count_int_def fp_count_def assms(5,10) comp_def del: canon.simps(7))
qed

lemma validated_state_ok:
  assumes "check_state clk (dict_of (canon (PDict d))) = Inr ()"
  shows "validated_state clk (PDict d) = map_sum id dict_of (json_copy (PDict d))"
  using assms by (cases "wire (PDict d)") (simp_all add: validated_state_def json_copy_def canon_dict del: canon.simps)

lemma order_message_accepted:
  assumes "conforms clk (Object (HEADER_FIELDS @ ORDER_FIELDS least (Object fs))) (PDict d)" "shares_own_edges d"
    and "map_of fs ''node_id'' = Some (Text 128)" "distinct (map fst fs)"
  shows "check_state clk (dict_of (canon (PDict d))) = Inr ()"
proof -
  note field = conforms_field [OF assms(1)]
  have keys: "distinct (map fst d)" using conforms_keys [OF assms(1)] by (simp add: HEADER_FIELDS_def ORDER_FIELDS_def)
  from field [of "''timestamp''" Moment] obtain ts where "map_of d ''timestamp'' = Some ts" "conforms clk Moment ts"
    by (auto simp: HEADER_FIELDS_def simp del: conforms.simps)
  moreover from field [of "''nodes''" "Array least 4096 (Object fs)"] obtain ns where "map_of d ''nodes'' = Some (PList ns)" "length ns \<le> 4096" "list_all (conforms clk (Object fs)) ns"
    by (auto simp: HEADER_FIELDS_def ORDER_FIELDS_def conforms_Array simp del: conforms.simps)
  moreover from field [of "''edges''" "Array 0 4096 EDGE"] obtain es where "map_of d ''edges'' = Some (PList es)" "length es \<le> 4096" "list_all (conforms clk EDGE) es"
    by (auto simp: HEADER_FIELDS_def ORDER_FIELDS_def conforms_Array simp del: conforms.simps)
  moreover from field [of "''zones''" "Array 0 512 (Text 128)"] obtain zs where "map_of d ''zones'' = Some zs" "conforms clk (Array 0 512 (Text 128)) zs"
    by (auto simp: HEADER_FIELDS_def ORDER_FIELDS_def simp del: conforms.simps)
  moreover from field [of "''path_sharing''" "Array 0 4096 (Text 128)"]
  have "\<exists>sh. map_of d ''path_sharing'' = Some sh \<and> conforms clk (Array 0 4096 (Text 128)) sh"
    by (simp add: HEADER_FIELDS_def ORDER_FIELDS_def del: conforms.simps)
  ultimately show ?thesis using check_state_canon [OF keys _ _ _ _ _ assms(3,4)] assms(2) by blast
qed

lemma zone_message_accepted:
  assumes "conforms clk ZONE_SCHEMA (PDict d)"
  shows "check_state clk (dict_of (canon (PDict (zone_state d)))) = Inr ()"
proof -
  note field = conforms_field [OF assms [unfolded ZONE_SCHEMA_def]] and k = conforms_keys [OF assms [unfolded ZONE_SCHEMA_def]]
  have keys: "distinct (map fst (zone_state d))" using k by (simp add: HEADER_FIELDS_def zone_state_def)
  have miss: "map_of d ''nodes'' = None" "map_of d ''edges'' = None" "map_of d ''path_sharing'' = None"
    using k by (simp_all add: map_of_eq_None_iff HEADER_FIELDS_def flip: set_map)
  from field [of "''timestamp''" Moment] obtain ts where "map_of (zone_state d) ''timestamp'' = Some ts" "conforms clk Moment ts"
    by (auto simp: HEADER_FIELDS_def zone_state_def map_add_def simp del: conforms.simps)
  moreover from field [of "''zones''" "Array 0 512 (Text 128)"] obtain zs where "map_of (zone_state d) ''zones'' = Some zs" "conforms clk (Array 0 512 (Text 128)) zs"
    by (auto simp: HEADER_FIELDS_def zone_state_def map_add_def simp del: conforms.simps)
  moreover have "map_of (zone_state d) ''nodes'' = Some (PList [])" "map_of (zone_state d) ''edges'' = Some (PList [])" "map_of (zone_state d) ''path_sharing'' = None"
    by (simp_all add: zone_state_def map_add_def miss)
  moreover from this have "shares_own_edges (zone_state d)" by (simp add: shares_own_edges_def dget_or_def)
  ultimately show ?thesis
    using check_state_canon [OF keys, of ts clk "[]" "[(''node_id'', Text 128)]" "[]" zs] by simp
qed

section \<open>The property\<close>


definition site_clock :: clock where
  "site_clock = \<lparr>parse_iso = (\<lambda>s. if s = ''2026-01-01T00:00:00Z'' then Some 0 else None), print_iso = (\<lambda>t. ''2026-01-01T00:00:00+00:00'')\<rparr>"

lemma sample_zone_accepted:
  "validate_zone site_clock (PDict [(''headerId'', PInt 1), (''timestamp'', PStr ''2026-01-01T00:00:00Z''), (''version'', PStr ''3.0.0''),
     (''manufacturer'', PStr ''m''), (''serialNumber'', PStr ''s''), (''zoneIds'', PList [PStr ''b'', PStr ''a'', PStr ''b''])])
   = Inr [(''header_id'', PInt 1), (''timestamp'', PStr ''2026-01-01T00:00:00Z''), (''manufacturer'', PStr ''m''), (''serial_number'', PStr ''s''),
     (''zones'', PList [PStr ''a'', PStr ''b''])]"
  by code_simp

end
