(* ===== verification/Subject.thy ===== *)
theory Subject
  imports LogStore Capabilities
begin

text \<open>
  The write-time rule packs of \<^verbatim>\<open>unimem/subject_policy.py\<close>: compiling operator bindings into the signed
  policy, the declared and recorded source of a memory, and the evaluation of a write, with its decision,
  reasons and retention deadline. The property gives the decision as a function of the rules that apply.
  Enforcement of a decision in the store, retention schedules and their reaping are not modelled.
\<close>

section \<open>Vocabulary\<close>

definition CLASSES :: "string list" where
  "CLASSES = [''child-under-13'', ''adult'', ''care-resident'']"

definition CONTEXTS :: "string list" where
  "CONTEXTS = [''workplace'', ''education'', ''home'', ''clinical'']"

definition MODALITIES :: "string list" where
  "MODALITIES = [''text'', ''voice'', ''face'', ''physiology'', ''image'', ''video'', ''tactile'', ''force'', ''position'',
     ''temperature'', ''system'', ''unknown'']"

definition BIOMETRIC :: "string list" where
  "BIOMETRIC = [''voice'', ''face'', ''physiology'']"

definition EMOTIONS :: "string list" where
  "EMOTIONS = [''emotion'', ''emotional-state'', ''arousal'', ''valence'', ''happy'', ''sad'', ''angry'', ''stressed'']"

definition PACKS :: "string list" where
  "PACKS = [''coppa-2025'', ''eu_ai_act_art5_1f'']"

definition MEDICAL :: string where
  "MEDICAL = ''https://w3id.org/dpv#ImproveHealthcare''"

definition SAFETY :: string where
  "SAFETY = ''urn:unimem:purpose:safety''"

definition PLAIN_TAGS :: "string list" where
  "PLAIN_TAGS = [''observation'', ''preference'', ''profile'', ''procedure'', ''other'']"

definition unhashable :: "pv \<Rightarrow> bool" where
  "unhashable v \<longleftrightarrow> is_list v \<or> is_dict v"

definition subject_labels :: "pv \<Rightarrow> string list result" where
  "subject_labels value =
     (case value of
        PList xs \<Rightarrow>
          guard_r (\<not> 64 < length xs) ValueError (
          guard_r (list_all (\<lambda>x. \<not> unhashable x) xs) TypeError (
          guard_r (distinct xs) ValueError (
          bind_r (map_r (\<lambda>x. fp_text x 256) xs) (\<lambda>ss. Inr (sort ss)))))
      | _ \<Rightarrow> Inl ValueError)"

section \<open>Compiling bindings\<close>

record parental =
  pc_reference :: string
  pc_expires_at :: string
  pc_method :: string

record child_terms =
  ct_days :: int
  ct_purpose :: string
  ct_consent :: "parental option"

text \<open>The fields that only a binding for children has are in \<open>bd_child\<close>.\<close>

record binding =
  bd_id :: string
  bd_scopes :: "string list"
  bd_class :: string
  bd_context :: string
  bd_child :: "child_terms option"

definition clean_consent :: "clock \<Rightarrow> pv \<Rightarrow> parental option result" where
  "clean_consent clk consent =
     (case consent of
        PNone \<Rightarrow> Inr None
      | PDict c \<Rightarrow>
          guard_r (keys_are c [''reference'', ''expires_at'', ''verification_method'']) ValueError (
          bind_r (dget c ''reference'') (\<lambda>v1. bind_r (fp_text v1 256) (\<lambda>r.
          bind_r (dget c ''expires_at'') (\<lambda>v2. bind_r (fp_moment clk v2) (\<lambda>e.
          bind_r (dget c ''verification_method'') (\<lambda>v3. bind_r (fp_text v3 256) (\<lambda>m.
            Inr (Some \<lparr>pc_reference = r, pc_expires_at = e, pc_method = m\<rparr>))))))))
      | _ \<Rightarrow> Inl ValueError)"

definition clean_child :: "clock \<Rightarrow> dict \<Rightarrow> child_terms result" where
  "clean_child clk item =
     bind_r (fp_count (dget_or item ''retention_days'' (PInt 0)) 1 365) (\<lambda>days.
     bind_r (fp_text (dget_or item ''retention_purpose'' (PStr [])) 256) (\<lambda>purpose.
     bind_r (clean_consent clk (dget_or item ''parental_consent'' PNone)) (\<lambda>consent.
       Inr \<lparr>ct_days = days, ct_purpose = purpose, ct_consent = consent\<rparr>)))"

definition member :: "pv \<Rightarrow> string list \<Rightarrow> bool" where
  "member v xs \<longleftrightarrow> v \<in> set (map PStr xs)"

definition clean_binding :: "clock \<Rightarrow> dict \<Rightarrow> binding result" where
  "clean_binding clk item =
     guard_r (fst ` set item \<subseteq> {''id'', ''scopes'', ''subject_class'', ''context'', ''retention_days'', ''retention_purpose'', ''parental_consent''}
         \<and> {''id'', ''scopes'', ''subject_class'', ''context''} \<subseteq> fst ` set item) ValueError (
     bind_r (dget item ''id'') (\<lambda>v. bind_r (fp_text v 128) (\<lambda>identity.
     bind_r (dget item ''scopes'') (\<lambda>v. bind_r (subject_labels v) (\<lambda>scopes.
     bind_r (dget item ''subject_class'') (\<lambda>c. bind_r (dget item ''context'') (\<lambda>x.
     guard_r (member c CLASSES \<and> member x CONTEXTS) ValueError (
     bind_r (if is_pstr c ''child-under-13'' then bind_r (clean_child clk item) (\<lambda>t. Inr (Some t)) else Inr None) (\<lambda>child.
       Inr \<lparr>bd_id = identity, bd_scopes = scopes, bd_class = str_of c, bd_context = str_of x, bd_child = child\<rparr>)))))))))"

definition clean_bindings :: "clock \<Rightarrow> dict list \<Rightarrow> binding list result" where
  "clean_bindings clk bindings =
     bind_r (count_int (int (length bindings)) 1 64) (\<lambda>_.
     bind_r (map_r (clean_binding clk) bindings) (\<lambda>cleaned.
     guard_r (distinct (map bd_id cleaned)) ValueError (Inr cleaned)))"

text \<open>The signed body, with the rows as dictionaries again.\<close>

definition consent_pv :: "parental option \<Rightarrow> pv" where
  "consent_pv c = (case c of None \<Rightarrow> PNone
     | Some p \<Rightarrow> PDict [(''reference'', PStr (pc_reference p)), (''expires_at'', PStr (pc_expires_at p)), (''verification_method'', PStr (pc_method p))])"

definition binding_pv :: "binding \<Rightarrow> pv" where
  "binding_pv b = PDict ([(''id'', PStr (bd_id b)), (''scopes'', PList (map PStr (bd_scopes b))), (''subject_class'', PStr (bd_class b)), (''context'', PStr (bd_context b))]
     @ (case bd_child b of None \<Rightarrow> []
        | Some t \<Rightarrow> [(''retention_days'', PInt (ct_days t)), (''retention_purpose'', PStr (ct_purpose t)), (''parental_consent'', consent_pv (ct_consent t))]))"

definition policy_body :: "string \<Rightarrow> string \<Rightarrow> string \<Rightarrow> binding list \<Rightarrow> dict" where
  "policy_body now writer authority cleaned =
     [(''schema'', PStr ''unimem.subject-policy.v1''), (''packs'', PList (map PStr PACKS)), (''bindings'', PList (map binding_pv cleaned)),
      (''recorded_by'', PList [PStr writer, PStr authority]), (''issued_at'', PStr now),
      (''assertion'', PStr ''operator enrollment; parental verification evidence remains external'')]"

record subject_store =
  ss_policy :: "dict option"
  ss_log :: tlog

text \<open>
  The policy file is written before the log entry: a failure of the log leaves the new policy in place. The
  result is the store, and the signed policy with its receipt or the exception.
\<close>

definition compile_policy ::
  "store_keys \<Rightarrow> clock \<Rightarrow> string \<Rightarrow> bool \<Rightarrow> string \<times> string \<Rightarrow> subject_store \<Rightarrow> dict list \<Rightarrow> subject_store \<times> (dict \<times> receipt) result" where
  "compile_policy ks clk now operator writer st bindings =
     (case guard_r operator PermissionError (bind_r (clean_bindings clk bindings) (\<lambda>cleaned.
             fp_sign ks (policy_body now (fst writer) (snd writer) cleaned))) of
        Inl e \<Rightarrow> (st, Inl e)
      | Inr envelope \<Rightarrow>
          (let st1 = st \<lparr>ss_policy := Some envelope\<rparr> in
           case bind_r (digest (PDict envelope)) (\<lambda>h.
                  log_append ks now (PStr ''subject-policy-compiled'') (PDict [(''policy_digest'', PStr h)]) (ss_log st1)) of
             Inl e \<Rightarrow> (st1, Inl e)
           | Inr (log, r) \<Rightarrow> (st1 \<lparr>ss_log := log\<rparr>, Inr (envelope, r))))"

section \<open>Sources\<close>

record source_tags =
  st_modality :: string
  st_labels :: "string list"
  st_inferred :: bool

text \<open>The value that \<^verbatim>\<open>ingest\<close> binds for its block.\<close>

definition ingest_source :: "dict option \<Rightarrow> source_tags option result" where
  "ingest_source source =
     (case source of
        None \<Rightarrow> Inr None
      | Some d \<Rightarrow>
          guard_r (fst ` set d \<subseteq> {''modality'', ''labels'', ''inferred''}) ValueError (
          let modality = dget_or d ''modality'' (PStr ''unknown''); inferred = dget_or d ''inferred'' (PBool False) in
          guard_r (member modality MODALITIES \<and> (case inferred of PBool b \<Rightarrow> True | _ \<Rightarrow> False)) ValueError (
          bind_r (subject_labels (dget_or d ''labels'' (PList []))) (\<lambda>labels.
          guard_r (set labels \<subseteq> set EMOTIONS \<union> set PLAIN_TAGS) ValueError (
            Inr (Some \<lparr>st_modality = str_of modality, st_labels = labels, st_inferred = truthy inferred\<rparr>))))))"

definition text_labels :: "pv \<Rightarrow> string list" where
  "text_labels v = (case v of PList xs \<Rightarrow> (if list_all is_str xs then map str_of xs else []) | _ \<Rightarrow> [])"

definition tags_of :: "dict \<Rightarrow> dict \<Rightarrow> source_tags result" where
  "tags_of record source =
     (let labels0 = text_labels (dget_or source ''labels'' (PList []));
          plain = (set labels0 \<subseteq> set EMOTIONS \<union> set PLAIN_TAGS);
          modality = (if plain then dget_or source ''modality'' (PStr ''unknown'') else PStr ''unknown'');
          labels1 = (if plain then labels0 else filter (\<lambda>l. l \<in> set EMOTIONS) labels0);
          category = dget_or record ''category'' PNone in
      guard_r (\<not> unhashable category) TypeError (
      let labels = (if member category EMOTIONS then labels1 @ [str_of category] else labels1) in
      bind_r (if truthy (dget_or source ''inferred'' (PBool False)) then Inr True
              else if list_all (\<lambda>l. l \<notin> set EMOTIONS) labels then Inr False
              else guard_r (\<not> unhashable modality) TypeError (Inr (member modality BIOMETRIC))) (\<lambda>inferred.
        Inr \<lparr>st_modality = (if member modality MODALITIES then str_of modality else ''unknown''), st_labels = sorted_set labels, st_inferred = inferred\<rparr>)))"

text \<open>A declared source, as \<^verbatim>\<open>ingest\<close> bound it, is read like a recorded one.\<close>

definition tags_dict :: "source_tags \<Rightarrow> dict" where
  "tags_dict t = [(''modality'', PStr (st_modality t)), (''labels'', PList (map PStr (st_labels t))), (''inferred'', PBool (st_inferred t))]"

definition source_of :: "source_tags option \<Rightarrow> dict \<Rightarrow> source_tags result" where
  "source_of declared record =
     bind_r (case declared of
               Some t \<Rightarrow> Inr (PDict (tags_dict t))
             | None \<Rightarrow> (case dget_or record ''provenance'' (PDict []) of PDict p \<Rightarrow> Inr (dget_or p ''source'' (PDict [])) | _ \<Rightarrow> Inl AttributeError)) (\<lambda>source.
     case source of
       PDict s \<Rightarrow> tags_of record s
     | _ \<Rightarrow> Inr \<lparr>st_modality = ''unknown'', st_labels = [], st_inferred = False\<rparr>)"

section \<open>Evaluating a write\<close>

datatype decision = Allow | Review | Quarantine | Deny

fun priority :: "decision \<Rightarrow> nat" where
  "priority Allow = 0"
| "priority Review = 1"
| "priority Quarantine = 2"
| "priority Deny = 3"

instantiation decision :: linorder
begin

definition less_eq_decision :: "decision \<Rightarrow> decision \<Rightarrow> bool" where
  "less_eq_decision a b \<longleftrightarrow> priority a \<le> priority b"

definition less_decision :: "decision \<Rightarrow> decision \<Rightarrow> bool" where
  "less_decision a b \<longleftrightarrow> priority a < priority b"

instance
proof
  fix a b :: decision
  assume "a \<le> b" "b \<le> a"
  then show "a = b" by (cases a; cases b) (simp_all add: less_eq_decision_def)
qed (auto simp: less_eq_decision_def less_decision_def)

end

record verdict =
  vd_decisions :: "decision list"
  vd_reasons :: "string list"
  vd_biometric :: bool
  vd_deadline :: "string option"

definition emotion_inferred :: "source_tags \<Rightarrow> bool" where
  "emotion_inferred src \<longleftrightarrow> list_ex (\<lambda>l. l \<in> set EMOTIONS) (st_labels src) \<and> st_inferred src"

definition noted :: "bool \<Rightarrow> decision \<Rightarrow> string \<Rightarrow> verdict \<Rightarrow> verdict" where
  "noted fires d reason v = (if fires then v \<lparr>vd_decisions := vd_decisions v @ [d], vd_reasons := vd_reasons v @ [reason]\<rparr> else v)"

definition bans_emotion :: "source_tags \<Rightarrow> string \<Rightarrow> binding \<Rightarrow> bool" where
  "bans_emotion src purpose row \<longleftrightarrow> bd_context row \<in> {''workplace'', ''education''} \<and> st_modality src \<in> set BIOMETRIC \<and> emotion_inferred src
     \<and> purpose \<notin> {MEDICAL, SAFETY}"

definition child_row :: "clock \<Rightarrow> source_tags \<Rightarrow> string \<Rightarrow> string \<Rightarrow> child_terms \<Rightarrow> verdict \<Rightarrow> verdict result" where
  "child_row clk src purpose at_time t v =
     (let v1 = v \<lparr>vd_biometric := vd_biometric v \<or> st_modality src \<in> set BIOMETRIC\<rparr> in
      bind_r (case ct_consent t of None \<Rightarrow> Inr None | Some p \<Rightarrow> bind_r (fp_moment clk (PStr (pc_expires_at p))) (\<lambda>e. Inr (Some e))) (\<lambda>expires.
      let v2 = noted (case expires of None \<Rightarrow> True | Some e \<Rightarrow> e \<le> at_time) Deny ''parental-consent-missing-or-expired'' v1;
          v3 = noted (purpose \<noteq> ct_purpose t) Deny ''child-retention-purpose-mismatch'' v2 in
      bind_r (cap_moment clk (PStr at_time)) (\<lambda>start.
      let ends = print_iso clk (start + ct_days t * DAY);
          deadline = (case expires of None \<Rightarrow> ends | Some e \<Rightarrow> min ends e);
          known = (case vd_deadline v3 of None \<Rightarrow> deadline | Some d \<Rightarrow> if d = [] then deadline else d) in
      Inr (v3 \<lparr>vd_deadline := Some (min known deadline)\<rparr>))))"

definition row_verdict :: "clock \<Rightarrow> source_tags \<Rightarrow> string \<Rightarrow> string \<Rightarrow> verdict \<Rightarrow> binding \<Rightarrow> verdict result" where
  "row_verdict clk src purpose at_time v row =
     (let v1 = noted (st_modality src = ''unknown'') Review ''unknown-source-modality'' v;
          v2 = noted (bans_emotion src purpose row) Quarantine ''eu-ai-act-biometric-emotion'' v1 in
      if bd_class row = ''child-under-13'' then
        (case bd_child row of None \<Rightarrow> Inl KeyError | Some t \<Rightarrow> child_row clk src purpose at_time t v2)
      else Inr v2)"

record write_decision =
  oc_decision :: decision
  oc_reasons :: "string list"
  oc_bindings :: "string list"
  oc_biometric :: bool
  oc_deadline :: "string option"

text \<open>The code points of a text, as iterating over it gives them.\<close>

function code_points :: "string \<Rightarrow> string list" where
  "code_points [] = []"
| "code_points (c # s) = (let n = length (takeWhile (\<lambda>x. 128 \<le> (of_char x :: nat) \<and> (of_char x :: nat) < 192) s) in (c # take n s) # code_points (drop n s))"
  by pat_completeness auto
termination
  by (relation "measure length") auto

definition py_set :: "pv \<Rightarrow> pv list result" where
  "py_set v = (case v of PList xs \<Rightarrow> guard_r (list_all (\<lambda>x. \<not> unhashable x) xs) TypeError (Inr xs)
     | PDict d \<Rightarrow> Inr (map (PStr \<circ> fst) d) | PStr s \<Rightarrow> Inr (map PStr (code_points s)) | _ \<Rightarrow> Inl TypeError)"

definition applies :: "pv list \<Rightarrow> binding \<Rightarrow> bool" where
  "applies labels row \<longleftrightarrow> list_all (\<lambda>s. PStr s \<in> set labels) (bd_scopes row)"

definition evaluate :: "clock \<Rightarrow> binding list \<Rightarrow> dict \<Rightarrow> string \<Rightarrow> string \<Rightarrow> source_tags \<Rightarrow> write_decision result" where
  "evaluate clk bindings record purpose at_time src =
     bind_r (wire (PDict record)) (\<lambda>_.
     bind_r (py_set (dget_or record ''scopes'' (PList []))) (\<lambda>labels.
     let matching = filter (applies labels) bindings in
     bind_r (map_r (\<lambda>row. digest (PStr (bd_id row))) matching) (\<lambda>ids.
     if matching = [] then
       Inr \<lparr>oc_decision = Allow, oc_reasons = [''outside-enrolled-context''], oc_bindings = ids, oc_biometric = False, oc_deadline = None\<rparr>
     else
       bind_r (fold_r (row_verdict clk src purpose at_time) \<lparr>vd_decisions = [], vd_reasons = [], vd_biometric = False, vd_deadline = None\<rparr> matching) (\<lambda>v.
         Inr \<lparr>oc_decision = fold max (vd_decisions v) Allow,
              oc_reasons = (if vd_reasons v = [] then [''enrolled-rule-packs-allow''] else sorted_set (vd_reasons v)),
              oc_bindings = ids, oc_biometric = vd_biometric v, oc_deadline = vd_deadline v\<rparr>))))"

section \<open>The decision as a function of the rules\<close>

definition is_child :: "binding \<Rightarrow> bool" where
  "is_child row \<longleftrightarrow> bd_class row = ''child-under-13''"

text \<open>The expiry of a parental consent, \<open>None\<close> where there is none.\<close>

definition consent_expiry :: "clock \<Rightarrow> child_terms \<Rightarrow> string option" where
  "consent_expiry clk t = (case ct_consent t of None \<Rightarrow> None
     | Some p \<Rightarrow> (case fp_moment clk (PStr (pc_expires_at p)) of Inr e \<Rightarrow> Some e | Inl x \<Rightarrow> None))"

definition consent_lapsed :: "clock \<Rightarrow> string \<Rightarrow> child_terms \<Rightarrow> bool" where
  "consent_lapsed clk at_time t \<longleftrightarrow> (case consent_expiry clk t of None \<Rightarrow> True | Some e \<Rightarrow> e \<le> at_time)"

definition child_refused :: "clock \<Rightarrow> string \<Rightarrow> string \<Rightarrow> binding \<Rightarrow> bool" where
  "child_refused clk purpose at_time row \<longleftrightarrow> is_child row
     \<and> (case bd_child row of None \<Rightarrow> False | Some t \<Rightarrow> consent_lapsed clk at_time t \<or> purpose \<noteq> ct_purpose t)"

definition row_decisions :: "clock \<Rightarrow> source_tags \<Rightarrow> string \<Rightarrow> string \<Rightarrow> binding \<Rightarrow> decision list" where
  "row_decisions clk src purpose at_time row =
     (if st_modality src = ''unknown'' then [Review] else []) @ (if bans_emotion src purpose row then [Quarantine] else [])
     @ (if is_child row then (case bd_child row of None \<Rightarrow> [] | Some t \<Rightarrow>
          (if consent_lapsed clk at_time t then [Deny] else []) @ (if purpose \<noteq> ct_purpose t then [Deny] else [])) else [])"

text \<open>The dates no retention may outlast: the written period from now, and the consent.\<close>

definition row_limits :: "clock \<Rightarrow> string \<Rightarrow> binding \<Rightarrow> string list" where
  "row_limits clk at_time row =
     (if is_child row then (case bd_child row of None \<Rightarrow> [] | Some t \<Rightarrow>
        (case cap_moment clk (PStr at_time) of Inr start \<Rightarrow> [print_iso clk (start + ct_days t * DAY)] | Inl e \<Rightarrow> [])
        @ (case consent_expiry clk t of None \<Rightarrow> [] | Some e \<Rightarrow> [e])) else [])"

lemma mem_if: "x \<in> set (if b then [y] else []) \<longleftrightarrow> b \<and> x = y"
  by auto

lemma mem_concat: "x \<in> set (concat (map f rows)) \<longleftrightarrow> list_ex (\<lambda>r. x \<in> set (f r)) rows"
  by (auto simp: list_ex_iff)

lemma list_ex_const: "list_ex (\<lambda>r. b) rows \<longleftrightarrow> rows \<noteq> [] \<and> b"
  by (induction rows) auto

lemma row_decisions_mem:
  "Deny \<in> set (row_decisions clk src purpose at_time row) \<longleftrightarrow> child_refused clk purpose at_time row"
  "Quarantine \<in> set (row_decisions clk src purpose at_time row) \<longleftrightarrow> bans_emotion src purpose row"
  "Review \<in> set (row_decisions clk src purpose at_time row) \<longleftrightarrow> st_modality src = ''unknown''"
  by (cases "is_child row"; cases "bd_child row";
      simp only: row_decisions_def child_refused_def set_append Un_iff mem_if decision.distinct option.case if_True if_False; simp)+

lemma noted_simps [simp]:
  "vd_decisions (noted b d r v) = vd_decisions v @ (if b then [d] else [])"
  "vd_biometric (noted b d r v) = vd_biometric v" "vd_deadline (noted b d r v) = vd_deadline v"
  by (simp_all add: noted_def)

lemma child_row_Inr:
  assumes "child_row clk src purpose at_time t v = Inr v'"
  shows "\<exists>start deadline. cap_moment clk (PStr at_time) = Inr start
    \<and> deadline = (case consent_expiry clk t of None \<Rightarrow> print_iso clk (start + ct_days t * DAY) | Some e \<Rightarrow> min (print_iso clk (start + ct_days t * DAY)) e)
    \<and> vd_decisions v' = vd_decisions v @ (if consent_lapsed clk at_time t then [Deny] else []) @ (if purpose \<noteq> ct_purpose t then [Deny] else [])
    \<and> vd_biometric v' = (vd_biometric v \<or> st_modality src \<in> set BIOMETRIC)
    \<and> vd_deadline v' = Some (min (case vd_deadline v of None \<Rightarrow> deadline | Some d \<Rightarrow> if d = [] then deadline else d) deadline)"
proof -
  from assms obtain expires start where e: "(case ct_consent t of None \<Rightarrow> Inr None | Some p \<Rightarrow> bind_r (fp_moment clk (PStr (pc_expires_at p))) (\<lambda>e. Inr (Some e))) = Inr expires"
    "cap_moment clk (PStr at_time) = Inr start"
    unfolding child_row_def Let_def bind_r_Inr by blast
  then have x: "consent_expiry clk t = expires" by (auto simp: consent_expiry_def bind_r_Inr split: option.split_asm)
  show ?thesis using assms e by (auto simp: child_row_def Let_def x consent_lapsed_def)
qed

lemma moment_nonempty:
  assumes "\<And>t. print_iso clk t \<noteq> []" "consent_expiry clk t = Some e"
  shows "e \<noteq> []"
  using assms by (auto simp: consent_expiry_def fp_moment_def bind_r_Inr split: option.split_asm sum.split_asm)

lemma row_verdict_Inr:
  assumes "row_verdict clk src purpose at_time v row = Inr v'" "\<And>t. print_iso clk t \<noteq> []" "vd_deadline v \<noteq> Some []"
  shows "vd_decisions v' = vd_decisions v @ row_decisions clk src purpose at_time row"
    "vd_biometric v' = (vd_biometric v \<or> is_child row \<and> st_modality src \<in> set BIOMETRIC)"
    "vd_deadline v' = None \<longleftrightarrow> vd_deadline v = None \<and> \<not> is_child row" "vd_deadline v' \<noteq> Some []"
    "vd_deadline v' = Some d \<Longrightarrow> (\<forall>d0. vd_deadline v = Some d0 \<longrightarrow> d \<le> d0) \<and> list_all (\<lambda>l. d \<le> l) (row_limits clk at_time row)"
proof -
  let ?v = "noted (bans_emotion src purpose row) Quarantine ''eu-ai-act-biometric-emotion'' (noted (st_modality src = ''unknown'') Review ''unknown-source-modality'' v)"
  have all: "vd_decisions v' = vd_decisions v @ row_decisions clk src purpose at_time row
    \<and> vd_biometric v' = (vd_biometric v \<or> is_child row \<and> st_modality src \<in> set BIOMETRIC)
    \<and> (vd_deadline v' = None \<longleftrightarrow> vd_deadline v = None \<and> \<not> is_child row) \<and> vd_deadline v' \<noteq> Some []
    \<and> (\<forall>d. vd_deadline v' = Some d \<longrightarrow> (\<forall>d0. vd_deadline v = Some d0 \<longrightarrow> d \<le> d0) \<and> list_all (\<lambda>l. d \<le> l) (row_limits clk at_time row))"
  proof (cases "is_child row")
    case False
    with assms(1,3) show ?thesis by (auto simp: row_verdict_def is_child_def Let_def row_decisions_def row_limits_def)
  next
    case True
    with assms(1) obtain t where t: "bd_child row = Some t" "child_row clk src purpose at_time t ?v = Inr v'"
      by (auto simp: row_verdict_def is_child_def Let_def split: option.split_asm)
    from child_row_Inr [OF t(2)] obtain start deadline where c: "cap_moment clk (PStr at_time) = Inr start"
      "deadline = (case consent_expiry clk t of None \<Rightarrow> print_iso clk (start + ct_days t * DAY) | Some e \<Rightarrow> min (print_iso clk (start + ct_days t * DAY)) e)"
      "vd_decisions v' = vd_decisions ?v @ (if consent_lapsed clk at_time t then [Deny] else []) @ (if purpose \<noteq> ct_purpose t then [Deny] else [])"
      "vd_biometric v' = (vd_biometric ?v \<or> st_modality src \<in> set BIOMETRIC)"
      "vd_deadline v' = Some (min (case vd_deadline ?v of None \<Rightarrow> deadline | Some d \<Rightarrow> if d = [] then deadline else d) deadline)" by blast
    have ne: "deadline \<noteq> []" using c(2) assms(2) moment_nonempty [OF assms(2)] by (auto simp: min_def split: option.splits)
    have lim: "list_all (\<lambda>l. deadline \<le> l) (row_limits clk at_time row)"
      using True by (auto simp: row_limits_def t(1) c(1,2) split: option.split)
    have "vd_deadline v' = Some (case vd_deadline v of None \<Rightarrow> deadline | Some d \<Rightarrow> min d deadline)"
      using c(5) assms(3) by (auto split: option.splits)
    then show ?thesis
      using c(3,4) True ne lim assms(3)
      by (auto simp: row_decisions_def t(1) list_all_iff min_le_iff_disj split: option.splits simp: min_def)
  qed
  then show "vd_decisions v' = vd_decisions v @ row_decisions clk src purpose at_time row"
    "vd_biometric v' = (vd_biometric v \<or> is_child row \<and> st_modality src \<in> set BIOMETRIC)"
    "vd_deadline v' = None \<longleftrightarrow> vd_deadline v = None \<and> \<not> is_child row" "vd_deadline v' \<noteq> Some []"
    "vd_deadline v' = Some d \<Longrightarrow> (\<forall>d0. vd_deadline v = Some d0 \<longrightarrow> d \<le> d0) \<and> list_all (\<lambda>l. d \<le> l) (row_limits clk at_time row)" by blast+
qed

lemma fold_verdict:
  assumes "fold_r (row_verdict clk src purpose at_time) v rows = Inr v'" "\<And>t. print_iso clk t \<noteq> []" "vd_deadline v \<noteq> Some []"
  shows "vd_decisions v' = vd_decisions v @ concat (map (row_decisions clk src purpose at_time) rows)
    \<and> vd_biometric v' = (vd_biometric v \<or> list_ex is_child rows \<and> st_modality src \<in> set BIOMETRIC)
    \<and> (vd_deadline v' = None \<longleftrightarrow> vd_deadline v = None \<and> \<not> list_ex is_child rows)
    \<and> (\<forall>d. vd_deadline v' = Some d \<longrightarrow> (\<forall>d0. vd_deadline v = Some d0 \<longrightarrow> d \<le> d0) \<and> list_all (\<lambda>row. list_all (\<lambda>l. d \<le> l) (row_limits clk at_time row)) rows)"
  using assms
proof (induction rows arbitrary: v)
  case (Cons row rows)
  from Cons.prems(1) obtain v1 where v1: "row_verdict clk src purpose at_time v row = Inr v1" "fold_r (row_verdict clk src purpose at_time) v1 rows = Inr v'"
    by (auto simp: bind_r_Inr)
  note r = row_verdict_Inr [OF v1(1) Cons.prems(2,3)] and ih = Cons.IH [OF v1(2) Cons.prems(2) r(4)]
  have "(\<forall>d0. vd_deadline v = Some d0 \<longrightarrow> d \<le> d0) \<and> list_all (\<lambda>l. d \<le> l) (row_limits clk at_time row)" if d: "vd_deadline v' = Some d" for d
  proof (cases "vd_deadline v1")
    case None
    then show ?thesis using r(3) by (auto simp: row_limits_def)
  next
    case (Some d1)
    with ih d have "d \<le> d1" by blast
    with r(5) [OF Some] show ?thesis by (auto simp: list_all_iff intro: order_trans)
  qed
  with ih r(1-3) show ?case by auto
qed auto

lemma fold_max_decision:
  "fold max ds a = (if Deny \<in> set (a # ds) then Deny else if Quarantine \<in> set (a # ds) then Quarantine else if Review \<in> set (a # ds) then Review else Allow)"
proof (induction ds arbitrary: a)
  case Nil
  show ?case by (cases a) simp_all
next
  case (Cons d ds)
  show ?case unfolding fold_simps o_apply Cons.IH by (cases a; cases d) (simp_all add: max_def less_eq_decision_def)
qed

text \<open>A compiled binding has the terms for children exactly when it is for children, so that the lookup of them never fails.\<close>

lemma clean_binding_child: "clean_binding clk item = Inr b \<Longrightarrow> bd_child b \<noteq> None \<longleftrightarrow> is_child b"
  by (auto simp: clean_binding_def bind_r_Inr guard_r_Inr is_child_def is_pstr_def member_def split: if_split_asm)

section \<open>The property\<close>

text \<open>
  C29: The decision on a write, over the bindings whose scopes the record carries: denied exactly when a
  binding for a child has no consent in force or another purpose, else quarantined exactly when a
  workplace or education binding meets an inferred emotion from a biometric source for another purpose than
  medical or safety, else held for review exactly when some binding applies and the source is unknown, and
  allowed otherwise. A retention deadline is set exactly when a child's binding applies, and is no later
  than the written period or the end of the consent of any of them.
\<close>

theorem evaluate_decides:
  assumes "evaluate clk bindings record purpose at_time src = Inr oc" "\<And>t. print_iso clk t \<noteq> []"
  shows "\<exists>labels. py_set (dget_or record ''scopes'' (PList [])) = Inr labels \<and>
    (let rows = filter (applies labels) bindings in
       oc_decision oc = (if list_ex (child_refused clk purpose at_time) rows then Deny
         else if list_ex (bans_emotion src purpose) rows then Quarantine
         else if rows \<noteq> [] \<and> st_modality src = ''unknown'' then Review else Allow)
     \<and> oc_biometric oc = (list_ex is_child rows \<and> st_modality src \<in> set BIOMETRIC)
     \<and> (oc_deadline oc = None \<longleftrightarrow> \<not> list_ex is_child rows)
     \<and> (\<forall>d. oc_deadline oc = Some d \<longrightarrow> list_all (\<lambda>row. list_all (\<lambda>l. d \<le> l) (row_limits clk at_time row)) rows))"
proof -
  let ?v0 = "\<lparr>vd_decisions = [], vd_reasons = [], vd_biometric = False, vd_deadline = None\<rparr>"
  from assms(1) obtain labels where l: "py_set (dget_or record ''scopes'' (PList [])) = Inr labels"
    unfolding evaluate_def bind_r_Inr by blast
  let ?rows = "filter (applies labels) bindings"
  show ?thesis
  proof (cases "?rows = []")
    case True
    with assms(1) l show ?thesis by (auto simp: evaluate_def bind_r_Inr Let_def)
  next
    case False
    with assms(1) l obtain v where v: "fold_r (row_verdict clk src purpose at_time) ?v0 ?rows = Inr v"
      "oc_decision oc = fold max (vd_decisions v) Allow" "oc_biometric oc = vd_biometric v" "oc_deadline oc = vd_deadline v"
      by (auto simp: evaluate_def bind_r_Inr Let_def)
    have f: "vd_decisions v = concat (map (row_decisions clk src purpose at_time) ?rows)"
      "vd_biometric v = (list_ex is_child ?rows \<and> st_modality src \<in> set BIOMETRIC)" "vd_deadline v = None \<longleftrightarrow> \<not> list_ex is_child ?rows"
      "\<forall>d. vd_deadline v = Some d \<longrightarrow> list_all (\<lambda>row. list_all (\<lambda>l. d \<le> l) (row_limits clk at_time row)) ?rows"
      using fold_verdict [OF v(1) assms(2)] by auto
    have mem: "Deny \<in> set (vd_decisions v) \<longleftrightarrow> list_ex (child_refused clk purpose at_time) ?rows"
      "Quarantine \<in> set (vd_decisions v) \<longleftrightarrow> list_ex (bans_emotion src purpose) ?rows"
      "Review \<in> set (vd_decisions v) \<longleftrightarrow> ?rows \<noteq> [] \<and> st_modality src = ''unknown''"
      by (simp_all only: f(1) mem_concat row_decisions_mem list_ex_const)
    have "oc_decision oc = (if list_ex (child_refused clk purpose at_time) ?rows then Deny
         else if list_ex (bans_emotion src purpose) ?rows then Quarantine
         else if ?rows \<noteq> [] \<and> st_modality src = ''unknown'' then Review else Allow)"
      unfolding v(2) fold_max_decision by (simp add: mem)
    with l f(2-4) show ?thesis unfolding Let_def v(3,4) by (intro exI [of _ labels] conjI)
  qed
qed

text \<open>A child without consent, on a clock that knows one instant.\<close>

definition sample_binding :: binding where
  "sample_binding = \<lparr>bd_id = ''b'', bd_scopes = [''s''], bd_class = ''child-under-13'', bd_context = ''home'',
     bd_child = Some \<lparr>ct_days = 1, ct_purpose = ''p'', ct_consent = None\<rparr>\<rparr>"

definition one_instant :: clock where
  "one_instant = \<lparr>parse_iso = (\<lambda>s. Some 0), print_iso = (\<lambda>t. ''t'')\<rparr>"

definition sample_tags :: source_tags where
  "sample_tags = \<lparr>st_modality = ''text'', st_labels = [], st_inferred = False\<rparr>"

lemma sample_evaluated: "\<exists>oc. evaluate one_instant [sample_binding] [(''scopes'', PList [PStr ''s''])] ''p'' ''t'' sample_tags = Inr oc"
proof -
  have "small 3 (PDict [(''scopes'', PList [PStr ''s''])])" "small 3 (PStr ''b'')" by (simp_all add: small_eval)
  then have w: "wire (PDict [(''scopes'', PList [PStr ''s''])]) = Inr (dumps (PDict [(''scopes'', PList [PStr ''s''])]))" "wire (PStr ''b'') = Inr (dumps (PStr ''b''))"
    using small_wire by simp_all
  have m: "cap_moment one_instant (PStr ''t'') = Inr 0"
    by (simp add: cap_moment_def fp_moment_def fp_text_def one_instant_def py_len_def NUL_char)
  have "fold_r (row_verdict one_instant sample_tags ''p'' ''t'') \<lparr>vd_decisions = [], vd_reasons = [], vd_biometric = False, vd_deadline = None\<rparr> [sample_binding]
      = child_row one_instant sample_tags ''p'' ''t'' \<lparr>ct_days = 1, ct_purpose = ''p'', ct_consent = None\<rparr>
          \<lparr>vd_decisions = [], vd_reasons = [], vd_biometric = False, vd_deadline = None\<rparr>"
    by (cases "child_row one_instant sample_tags ''p'' ''t'' \<lparr>ct_days = 1, ct_purpose = ''p'', ct_consent = None\<rparr>
          \<lparr>vd_decisions = [], vd_reasons = [], vd_biometric = False, vd_deadline = None\<rparr>")
      (simp_all add: row_verdict_def sample_binding_def sample_tags_def bans_emotion_def noted_def)
  moreover have "\<exists>v. child_row one_instant sample_tags ''p'' ''t'' \<lparr>ct_days = 1, ct_purpose = ''p'', ct_consent = None\<rparr>
          \<lparr>vd_decisions = [], vd_reasons = [], vd_biometric = False, vd_deadline = None\<rparr> = Inr v" using m by (simp add: child_row_def Let_def)
  moreover have "applies [PStr ''s''] sample_binding" "bd_id sample_binding = ''b''" by (simp_all add: applies_def sample_binding_def)
  ultimately show ?thesis using w
    by (auto simp: evaluate_def dget_or_def py_set_def unhashable_def digest_def Let_def simp del: dumps.simps fold_r.simps)
qed

theorem evaluate_decides_witness:
  "\<exists>oc. evaluate one_instant [sample_binding] [(''scopes'', PList [PStr ''s''])] ''p'' ''t'' sample_tags = Inr oc \<and> oc_decision oc = Deny"
proof -
  from sample_evaluated obtain oc where oc: "evaluate one_instant [sample_binding] [(''scopes'', PList [PStr ''s''])] ''p'' ''t'' sample_tags = Inr oc" by blast
  have "child_refused one_instant ''p'' ''t'' sample_binding"
    by (simp add: child_refused_def is_child_def sample_binding_def consent_lapsed_def consent_expiry_def)
  moreover have "applies [PStr ''s''] sample_binding" by (simp add: applies_def sample_binding_def)
  moreover have "print_iso one_instant t \<noteq> []" for t by (simp add: one_instant_def)
  ultimately show ?thesis using evaluate_decides [OF oc] oc by (auto simp: dget_or_def py_set_def unhashable_def Let_def)
qed

end
