(* ===== verification/Roles.thy ===== *)
theory Roles
  imports Prelude
begin

text \<open>
  Roles of people and scopes of API keys in the hub: the tables and checks of \<^verbatim>\<open>hub/rbac.py\<close> and the
  scope check of \<^verbatim>\<open>hub/scopes.py\<close>. The lemmas show that the tables are total over the roles, which roles
  may call a tool, and that only the privileged roles can erase or reach what is not theirs.
\<close>

section \<open>Scopes of API keys\<close>

definition SCOPE_READ :: string where
  "SCOPE_READ = ''read''"

definition SCOPE_WRITE :: string where
  "SCOPE_WRITE = ''write''"

definition SCOPE_ADMIN :: string where
  "SCOPE_ADMIN = ''admin''"

definition SCOPE_SCIM :: string where
  "SCOPE_SCIM = ''scim''"

definition ALL_SCOPES :: "string list" where
  "ALL_SCOPES = [SCOPE_READ, SCOPE_WRITE, SCOPE_ADMIN, SCOPE_SCIM]"

definition LEGACY_IMPLIED_SCOPES :: "string list" where
  "LEGACY_IMPLIED_SCOPES = [SCOPE_READ, SCOPE_WRITE, SCOPE_ADMIN]"

text \<open>\<open>None\<close> is a key from before scopes existed.\<close>

definition satisfies :: "string list option \<Rightarrow> string \<Rightarrow> bool" where
  "satisfies granted required = (case granted of None \<Rightarrow> required \<in> set LEGACY_IMPLIED_SCOPES | Some gs \<Rightarrow> required \<in> set gs)"

section \<open>Roles and capabilities\<close>

definition ROLE_VIEWER :: string where
  "ROLE_VIEWER = ''viewer''"

definition ROLE_ANALYST :: string where
  "ROLE_ANALYST = ''analyst''"

definition ROLE_CURATOR :: string where
  "ROLE_CURATOR = ''curator''"

definition ROLE_VALIDATOR :: string where
  "ROLE_VALIDATOR = ''validator''"

definition ROLE_DEPLOYER :: string where
  "ROLE_DEPLOYER = ''deployer''"

definition ROLE_SECURITY_ADMIN :: string where
  "ROLE_SECURITY_ADMIN = ''security_admin''"

definition ROLE_BILLING_ADMIN :: string where
  "ROLE_BILLING_ADMIN = ''billing_admin''"

definition ROLE_OWNER :: string where
  "ROLE_OWNER = ''owner''"

definition ROLES :: "string list" where
  "ROLES = [ROLE_VIEWER, ROLE_ANALYST, ROLE_CURATOR, ROLE_VALIDATOR, ROLE_DEPLOYER, ROLE_SECURITY_ADMIN, ROLE_BILLING_ADMIN, ROLE_OWNER]"

definition PRIVILEGED_ROLES :: "string list" where
  "PRIVILEGED_ROLES = [ROLE_SECURITY_ADMIN, ROLE_OWNER]"

definition CAP_VIEW :: string where
  "CAP_VIEW = ''view''"

definition CAP_ANALYZE :: string where
  "CAP_ANALYZE = ''analyze''"

definition CAP_CURATE :: string where
  "CAP_CURATE = ''curate''"

definition CAP_VALIDATE :: string where
  "CAP_VALIDATE = ''validate''"

definition CAP_DEPLOY :: string where
  "CAP_DEPLOY = ''deploy''"

definition CAP_SECURITY :: string where
  "CAP_SECURITY = ''security''"

definition CAP_BILLING :: string where
  "CAP_BILLING = ''billing''"

definition CAP_MANAGE_USERS :: string where
  "CAP_MANAGE_USERS = ''manage_users''"

definition CAPABILITIES :: "string list" where
  "CAPABILITIES = [CAP_VIEW, CAP_ANALYZE, CAP_CURATE, CAP_VALIDATE, CAP_DEPLOY, CAP_SECURITY, CAP_BILLING, CAP_MANAGE_USERS]"

definition ROLE_CAPABILITIES :: "(string \<times> string list) list" where
  "ROLE_CAPABILITIES = [
     (ROLE_VIEWER, [CAP_VIEW]),
     (ROLE_ANALYST, [CAP_VIEW, CAP_ANALYZE]),
     (ROLE_CURATOR, [CAP_VIEW, CAP_ANALYZE, CAP_CURATE]),
     (ROLE_VALIDATOR, [CAP_VIEW, CAP_ANALYZE, CAP_CURATE, CAP_VALIDATE]),
     (ROLE_DEPLOYER, [CAP_VIEW, CAP_ANALYZE, CAP_DEPLOY]),
     (ROLE_SECURITY_ADMIN, [CAP_VIEW, CAP_ANALYZE, CAP_SECURITY]),
     (ROLE_BILLING_ADMIN, [CAP_VIEW, CAP_BILLING]),
     (ROLE_OWNER, CAPABILITIES)]"

definition ROLE_SCOPES :: "(string \<times> string list) list" where
  "ROLE_SCOPES = [
     (ROLE_VIEWER, [SCOPE_READ]),
     (ROLE_ANALYST, [SCOPE_READ, SCOPE_WRITE]),
     (ROLE_CURATOR, [SCOPE_READ, SCOPE_WRITE]),
     (ROLE_VALIDATOR, [SCOPE_READ, SCOPE_WRITE]),
     (ROLE_DEPLOYER, [SCOPE_READ, SCOPE_WRITE]),
     (ROLE_SECURITY_ADMIN, [SCOPE_READ, SCOPE_WRITE, SCOPE_ADMIN]),
     (ROLE_BILLING_ADMIN, [SCOPE_READ]),
     (ROLE_OWNER, [SCOPE_READ, SCOPE_WRITE, SCOPE_ADMIN])]"

definition TOOL_CAPABILITY :: "(string \<times> string) list" where
  "TOOL_CAPABILITY = [
     (''get_traces_batch'', CAP_VIEW),
     (''contribute_traces_batch'', CAP_CURATE),
     (''delete_traces_batch'', CAP_SECURITY),
     (''search_traces'', CAP_VIEW),
     (''get_trace'', CAP_VIEW),
     (''list_tags'', CAP_VIEW),
     (''fleet_outcomes'', CAP_ANALYZE),
     (''working_set'', CAP_VIEW),
     (''value_delivered'', CAP_ANALYZE),
     (''commons_overlap'', CAP_ANALYZE),
     (''commons_search'', CAP_VIEW),
     (''commons_export'', CAP_VIEW),
     (''list_my_kb_submissions'', CAP_VIEW),
     (''account_usage'', CAP_ANALYZE),
     (''contribute_trace'', CAP_CURATE),
     (''vote_trace'', CAP_ANALYZE),
     (''amend_trace'', CAP_CURATE),
     (''holdout_assign'', CAP_DEPLOY),
     (''record_occasion_outcome'', CAP_ANALYZE),
     (''submit_kb_entry'', CAP_CURATE),
     (''search_trace_content'', CAP_SECURITY),
     (''tag_trace_subjects'', CAP_SECURITY),
     (''find_traces_by_subject'', CAP_SECURITY),
     (''purge_traces_by_subject'', CAP_SECURITY),
     (''delete_trace'', CAP_SECURITY),
     (''request_account_deletion'', CAP_SECURITY),
     (''cancel_account_deletion'', CAP_SECURITY),
     (''confirm_account_deletion'', CAP_SECURITY),
     (''add_comment'', CAP_CURATE),
     (''list_comments'', CAP_VIEW),
     (''assign_trace'', CAP_CURATE),
     (''unassign_trace'', CAP_CURATE),
     (''list_my_notifications'', CAP_VIEW),
     (''mark_notification_read'', CAP_VIEW)]"

datatype role_error = RoleError | CapabilityDenied string string | RoleKeyError

definition check_role :: "string \<Rightarrow> role_error + string" where
  "check_role role = (if role \<in> set ROLES then Inr role else Inl RoleError)"

text \<open>Subscripting a table raises KeyError for a role it lacks; the lemmas show that none is lacking.\<close>

definition role_entry :: "(string \<times> string list) list \<Rightarrow> string \<Rightarrow> role_error + string list" where
  "role_entry table role = (case check_role role of Inl e \<Rightarrow> Inl e
     | Inr r \<Rightarrow> (case map_of table r of None \<Rightarrow> Inl RoleKeyError | Some xs \<Rightarrow> Inr xs))"

definition capabilities_of :: "string \<Rightarrow> role_error + string list" where
  "capabilities_of role = role_entry ROLE_CAPABILITIES role"

definition scopes_of :: "string \<Rightarrow> role_error + string list" where
  "scopes_of role = role_entry ROLE_SCOPES role"

definition has_capability :: "string \<Rightarrow> string \<Rightarrow> role_error + bool" where
  "has_capability role capability = map_sum id (\<lambda>cs. capability \<in> set cs) (capabilities_of role)"

definition capability_for_tool :: "string \<Rightarrow> role_error + string" where
  "capability_for_tool tool = (case map_of TOOL_CAPABILITY tool of None \<Rightarrow> Inl RoleError | Some c \<Rightarrow> Inr c)"

definition require_capability :: "string \<Rightarrow> string \<Rightarrow> role_error + unit" where
  "require_capability role tool =
     (case capability_for_tool tool of
        Inl e \<Rightarrow> Inl e
      | Inr required \<Rightarrow>
          (case has_capability role required of
             Inl e \<Rightarrow> Inl e
           | Inr ok \<Rightarrow> if ok then Inr () else Inl (CapabilityDenied required role)))"

record role_description =
  rd_role :: string
  rd_capabilities :: "string list"
  rd_scopes :: "string list"

definition describe_role :: "string \<Rightarrow> role_error + role_description" where
  "describe_role role =
     (case capabilities_of role of Inl e \<Rightarrow> Inl e
      | Inr cs \<Rightarrow> (case scopes_of role of Inl e \<Rightarrow> Inl e
                    | Inr ss \<Rightarrow> Inr \<lparr>rd_role = role, rd_capabilities = cs, rd_scopes = ss\<rparr>))"

section \<open>What the tables grant\<close>

text \<open>Finite facts about the tables, by evaluation.\<close>

lemma tables_total: "map fst ROLE_CAPABILITIES = ROLES" "map fst ROLE_SCOPES = ROLES" "distinct ROLES"
  by code_simp+

lemma table_capabilities: "list_all (\<lambda>(r, cs). set cs \<subseteq> set CAPABILITIES \<and> CAP_VIEW \<in> set cs) ROLE_CAPABILITIES"
  by code_simp

lemma tool_capabilities: "list_all (\<lambda>(t, c). c \<in> set CAPABILITIES) TOOL_CAPABILITY"
  by code_simp

lemma security_holders: "list_all (\<lambda>(r, cs). CAP_SECURITY \<in> set cs \<longleftrightarrow> r \<in> set PRIVILEGED_ROLES) ROLE_CAPABILITIES"
  by code_simp

lemma admin_holders: "list_all (\<lambda>(r, ss). SCOPE_ADMIN \<in> set ss \<longleftrightarrow> r \<in> set PRIVILEGED_ROLES) ROLE_SCOPES"
  by code_simp

lemma role_entry_known: "role \<in> set ROLES \<Longrightarrow> map fst table = ROLES \<Longrightarrow> \<exists>xs. role_entry table role = Inr xs \<and> (role, xs) \<in> set table"
  by (metis (no_types, lifting) check_role_def map_of_SomeD map_of_eq_None_iff not_Some_eq old.sum.simps(6) option.simps(5) role_entry_def set_map)

lemma capabilities_known: "role \<in> set ROLES \<Longrightarrow> \<exists>cs. capabilities_of role = Inr cs \<and> (role, cs) \<in> set ROLE_CAPABILITIES"
  unfolding capabilities_of_def by (rule role_entry_known [OF _ tables_total(1)])

text \<open>A call is let through exactly when the role is known and its row of the table has the tool's capability.\<close>

lemma require_capability_iff:
  "require_capability role tool = Inr () \<longleftrightarrow>
    (\<exists>required cs. map_of TOOL_CAPABILITY tool = Some required \<and> capabilities_of role = Inr cs \<and> required \<in> set cs)"
  by (cases "capabilities_of role") (auto simp: require_capability_def capability_for_tool_def has_capability_def split: option.split sum.split if_split)

lemma require_capability_errors:
  "require_capability role tool \<noteq> Inl RoleKeyError"
  "role \<in> set ROLES \<Longrightarrow> require_capability role tool = Inl RoleError \<longleftrightarrow> map_of TOOL_CAPABILITY tool = None"
proof -
  have "capabilities_of role \<noteq> Inl RoleKeyError"
    using capabilities_known [of role] by (cases "role \<in> set ROLES") (auto simp: capabilities_of_def role_entry_def check_role_def)
  then show "require_capability role tool \<noteq> Inl RoleKeyError"
    by (cases "capabilities_of role") (auto simp: require_capability_def capability_for_tool_def has_capability_def split: option.split sum.split if_split)
  show "require_capability role tool = Inl RoleError \<longleftrightarrow> map_of TOOL_CAPABILITY tool = None" if "role \<in> set ROLES"
    using capabilities_known [OF that] by (auto simp: require_capability_def capability_for_tool_def has_capability_def split: option.split sum.split if_split)
qed

text \<open>Only a privileged role can call a tool that erases or searches across subjects.\<close>

lemma security_tools_privileged:
  assumes "map_of TOOL_CAPABILITY tool = Some CAP_SECURITY"
  shows "require_capability role tool = Inr () \<longleftrightarrow> role \<in> set PRIVILEGED_ROLES"
proof -
  have sub: "set PRIVILEGED_ROLES \<subseteq> set ROLES" by code_simp
  show ?thesis
  proof (cases "role \<in> set ROLES")
    case True
    from capabilities_known [OF True] obtain cs where cs: "capabilities_of role = Inr cs" "(role, cs) \<in> set ROLE_CAPABILITIES" by blast
    with security_holders have "CAP_SECURITY \<in> set cs \<longleftrightarrow> role \<in> set PRIVILEGED_ROLES" by (auto simp: list_all_iff)
    with cs(1) assms show ?thesis by (auto simp: require_capability_iff)
  next
    case False
    with sub assms show ?thesis by (auto simp: require_capability_iff capabilities_of_def role_entry_def check_role_def)
  qed
qed

end
