(* ===== verification/Oblivious.thy ===== *)
theory Oblivious
  imports Site
begin

text \<open>
  Private retrieval of memory blocks, \<^verbatim>\<open>unimem/oblivious.py\<close>: provisioning of clusters of fixed-size blocks below a
  clearance, the two query shares, the answer of a replica, and the part of the client's recall that fetches the
  blocks of one cluster. Two honest replicas give the client exactly the blocks, and each share alone is
  independent of the block asked for. The Euclidean distance of vectors is floating-point arithmetic and an
  argument; decoding the blocks and ranking them are not modelled.
\<close>

unbundle bit_operations_syntax

section \<open>Bounds and labels\<close>

type_synonym octets = "8 word list"

definition MAX_CLUSTERS :: nat where "MAX_CLUSTERS = 256"
definition MAX_BLOCKS_PER_CLUSTER :: int where "MAX_BLOCKS_PER_CLUSTER = 1024"
definition MAX_BLOCK_BYTES :: int where "MAX_BLOCK_BYTES = 16384"
definition MAX_BATCH_WORK :: int where "MAX_BATCH_WORK = 16777216"

definition vector :: "pv \<Rightarrow> pv list result" where
  "vector value =
     (case value of
        PList xs \<Rightarrow> bind_r (count_int (int (length xs)) 1 4096) (\<lambda>_. map_r (\<lambda>c. fp_number c (- 1000000) 1000000) xs)
      | _ \<Rightarrow> Inl ValueError)"

text \<open>\<^verbatim>\<open>xs.index(x)\<close> for an element of the list.\<close>

definition position :: "'a list \<Rightarrow> 'a \<Rightarrow> nat" where
  "position xs x = length (takeWhile (\<lambda>y. y \<noteq> x) xs)"

definition hierarchy :: "pv \<Rightarrow> pv \<Rightarrow> (string list \<times> nat) result" where
  "hierarchy labels clearance =
     (case labels of
        PList xs \<Rightarrow>
          guard_r (1 \<le> length xs \<and> length xs \<le> 32) ValueError (
          bind_r (map_r (\<lambda>x. fp_text x 96) xs) (\<lambda>checked.
          case clearance of
            PStr c \<Rightarrow> guard_r (distinct checked \<and> c \<in> set checked) ValueError (Inr (checked, position checked c))
          | _ \<Rightarrow> Inl ValueError))
      | _ \<Rightarrow> Inl ValueError)"

definition batch_budget :: "pv \<Rightarrow> pv \<Rightarrow> (nat \<times> nat) result" where
  "batch_budget sz block_bytes =
     bind_r (fp_count sz 1 MAX_BLOCKS_PER_CLUSTER) (\<lambda>n.
     bind_r (fp_count block_bytes 1 MAX_BLOCK_BYTES) (\<lambda>b.
       guard_r (\<not> MAX_BATCH_WORK < n * n * b) ValueError (Inr (nat n, nat b))))"

section \<open>Provisioning\<close>

definition distance :: "(pv list \<Rightarrow> pv list \<Rightarrow> 'd) \<Rightarrow> pv list \<Rightarrow> pv list \<Rightarrow> 'd result" where
  "distance dist a b = guard_r (length a = length b \<and> a \<noteq> []) ValueError (Inr (dist a b))"

text \<open>\<^verbatim>\<open>min(vectors, key=lambda name: (_distance(...), name))\<close>; the names are distinct.\<close>

fun nearest_of :: "('d::linorder \<times> string) \<Rightarrow> ('d \<times> string) list \<Rightarrow> string" where
  "nearest_of best [] = snd best"
| "nearest_of best (p # ps) = nearest_of (if fst p < fst best \<or> fst p = fst best \<and> snd p < snd best then p else best) ps"

definition nearest :: "(pv list \<Rightarrow> pv list \<Rightarrow> 'd::linorder) \<Rightarrow> pv list \<Rightarrow> (string \<times> pv list) list \<Rightarrow> string result" where
  "nearest dist v vectors =
     bind_r (map_r (\<lambda>(name, w). bind_r (distance dist v w) (\<lambda>d. Inr (d, name))) vectors) (\<lambda>ps.
       case ps of [] \<Rightarrow> Inl ValueError | p # rest \<Rightarrow> Inr (nearest_of p rest))"

definition blocks_of :: "(string \<times> octets list) list \<Rightarrow> string \<Rightarrow> octets list" where
  "blocks_of clusters name = (case map_of clusters name of None \<Rightarrow> [] | Some bs \<Rightarrow> bs)"

text \<open>\<^verbatim>\<open>encoded.ljust(block_bytes, b"\0")\<close>.\<close>

definition padded :: "nat \<Rightarrow> string \<Rightarrow> octets" where
  "padded n s = map of_char s @ replicate (n - length s) 0"

definition place_record ::
  "(pv list \<Rightarrow> pv list \<Rightarrow> 'd::linorder) \<Rightarrow> (string \<times> pv list) list \<Rightarrow> string list \<Rightarrow> nat \<Rightarrow> nat \<Rightarrow> nat
    \<Rightarrow> (string \<times> octets list) list \<times> string list \<Rightarrow> pv \<Rightarrow> ((string \<times> octets list) list \<times> string list) result" where
  "place_record dist vectors labels ceiling block_bytes capacity st record =
     (case record of
        PDict r \<Rightarrow>
          (case dget_or r ''label'' PNone of
             PStr l \<Rightarrow>
               guard_r (l \<in> set labels) ValueError (
               if ceiling < position labels l then Inr st
               else
                 (case dget_or r ''id'' PNone of
                    PStr raw \<Rightarrow>
                      bind_r (fp_text (PStr raw) 256) (\<lambda>identity.
                      guard_r (identity \<notin> set (snd st)) ValueError (
                      bind_r (vector (dget_or r ''vector'' PNone)) (\<lambda>checked.
                      bind_r (nearest dist checked vectors) (\<lambda>name.
                      guard_r (\<not> capacity \<le> length (blocks_of (fst st) name)) ValueError (
                      bind_r (wire (PDict (dset (dpop r ''vector'') ''vector'' (dget_or r ''vector'' PNone)))) (\<lambda>encoded.
                      guard_r (\<not> block_bytes < length encoded) ValueError (
                        Inr (dset (fst st) name (blocks_of (fst st) name @ [padded block_bytes encoded]), identity # snd st))))))))
                  | _ \<Rightarrow> Inl ValueError))
           | _ \<Rightarrow> Inl ValueError)
      | _ \<Rightarrow> Inl ValueError)"

definition cluster_records ::
  "(pv list \<Rightarrow> pv list \<Rightarrow> 'd::linorder) \<Rightarrow> pv \<Rightarrow> pv \<Rightarrow> pv \<Rightarrow> pv \<Rightarrow> pv \<Rightarrow> pv \<Rightarrow> (string \<times> octets list) list result" where
  "cluster_records dist records centroids clearance labels block_bytes blocks_per_cluster =
     (case centroids of
        PDict cs \<Rightarrow>
          guard_r (cs \<noteq> [] \<and> \<not> MAX_CLUSTERS < length cs) ValueError (
          bind_r (fp_count block_bytes 256 MAX_BLOCK_BYTES) (\<lambda>b.
          bind_r (fp_count blocks_per_cluster 1 MAX_BLOCKS_PER_CLUSTER) (\<lambda>n.
          bind_r (batch_budget blocks_per_cluster block_bytes) (\<lambda>(capacity, sz).
          bind_r (hierarchy labels clearance) (\<lambda>(names, ceiling).
          (case records of
             PList rs \<Rightarrow>
               guard_r (\<not> 262144 < length rs) ValueError (
               bind_r (map_r (\<lambda>(name, v). bind_r (fp_text (PStr name) 96) (\<lambda>s. bind_r (vector v) (\<lambda>w. Inr (s, w)))) cs) (\<lambda>vectors.
               guard_r (list_all (\<lambda>(s, w). w \<noteq> [] \<and> \<not> 4096 < length w \<and> length w = length (snd (hd vectors))) vectors) ValueError (
               bind_r (fold_r (place_record dist vectors names ceiling sz capacity)
                         (map (\<lambda>name. (name, [])) (sort (map fst vectors)), []) rs) (\<lambda>st.
                 Inr (map (\<lambda>(name, blocks). (name, blocks @ replicate (capacity - length blocks) (replicate sz 0))) (fst st))))))
           | _ \<Rightarrow> Inl ValueError))))))
      | _ \<Rightarrow> Inl ValueError)"

section \<open>Queries and answers\<close>

definition bitmap_bytes :: "nat \<Rightarrow> nat" where
  "bitmap_bytes sz = (sz + 7) div 8"

text \<open>\<open>seed\<close> is the randomness given, or the fresh random bytes.\<close>

definition split_query :: "int \<Rightarrow> int \<Rightarrow> octets \<Rightarrow> (octets \<times> octets) result" where
  "split_query index sz seed =
     bind_r (count_int sz 1 MAX_BLOCKS_PER_CLUSTER) (\<lambda>_.
     bind_r (count_int index 0 (sz - 1)) (\<lambda>_.
     guard_r (length seed = bitmap_bytes (nat sz)) ValueError (
       let i = nat index in Inr (seed, seed[i div 8 := seed ! (i div 8) XOR push_bit (i mod 8) 1]))))"

definition selected :: "octets \<Rightarrow> nat \<Rightarrow> bool" where
  "selected share i \<longleftrightarrow> share ! (i div 8) AND push_bit (i mod 8) 1 \<noteq> 0"

definition xor_bytes :: "octets \<Rightarrow> octets \<Rightarrow> octets" where
  "xor_bytes a b = map2 (XOR) a b"

fun answer_loop :: "octets \<Rightarrow> nat \<Rightarrow> nat \<Rightarrow> octets \<Rightarrow> octets list \<Rightarrow> octets result" where
  "answer_loop share block_bytes i output [] = Inr output"
| "answer_loop share block_bytes i output (block # blocks) =
     guard_r (length block = block_bytes) ValueError (
       answer_loop share block_bytes (Suc i) (if selected share i then xor_bytes output block else output) blocks)"

definition server_answer :: "octets list \<Rightarrow> octets \<Rightarrow> int \<Rightarrow> octets result" where
  "server_answer blocks share block_bytes =
     bind_r (count_int block_bytes 1 MAX_BLOCK_BYTES) (\<lambda>_.
     guard_r (blocks \<noteq> [] \<and> \<not> MAX_BLOCKS_PER_CLUSTER < int (length blocks)) ValueError (
     guard_r (length share = bitmap_bytes (length blocks)) ValueError (
       answer_loop share (nat block_bytes) 0 (replicate (nat block_bytes) 0) blocks)))"

definition server_answer_many :: "octets list \<Rightarrow> octets list \<Rightarrow> int \<Rightarrow> octets list result" where
  "server_answer_many blocks shares block_bytes =
     guard_r (length shares = length blocks) ValueError (
     bind_r (batch_budget (PInt (int (length blocks))) (PInt block_bytes)) (\<lambda>_.
       map_r (\<lambda>share. server_answer blocks share block_bytes) shares))"

definition reconstruct :: "octets \<Rightarrow> octets \<Rightarrow> octets result" where
  "reconstruct a b = guard_r (a \<noteq> [] \<and> length a = length b) ValueError (Inr (xor_bytes a b))"

section \<open>A replica\<close>

record replica =
  rp_block_bytes :: int
  rp_clusters :: "(string \<times> octets list) list"

definition check_cluster :: "int \<Rightarrow> string \<times> octets list \<Rightarrow> nat result" where
  "check_cluster block_bytes c =
     bind_r (fp_text (PStr (fst c)) 96) (\<lambda>_.
     bind_r (batch_budget (PInt (int (length (snd c)))) (PInt block_bytes)) (\<lambda>_.
     guard_r (list_all (\<lambda>block. length block = nat block_bytes) (snd c)) ValueError (Inr (length (snd c)))))"

definition replica_init :: "(string \<times> octets list) list \<Rightarrow> int \<Rightarrow> replica result" where
  "replica_init clusters block_bytes =
     bind_r (count_int block_bytes 1 MAX_BLOCK_BYTES) (\<lambda>b.
     guard_r (1 \<le> length clusters \<and> length clusters \<le> MAX_CLUSTERS) ValueError (
     bind_r (map_r (check_cluster b) clusters) (\<lambda>capacities.
     guard_r (card (set capacities) = 1) ValueError (
       Inr \<lparr>rp_block_bytes = b, rp_clusters = clusters\<rparr>))))"

text \<open>\<^verbatim>\<open>handle\<close> answers with the public sizes where there is no share.\<close>

datatype reply = Sizes nat int | Block octets

definition handle :: "replica \<Rightarrow> string \<Rightarrow> octets option \<Rightarrow> reply result" where
  "handle rep cluster share =
     (case map_of (rp_clusters rep) cluster of
        None \<Rightarrow> Inl KeyError
      | Some blocks \<Rightarrow>
          (case share of
             None \<Rightarrow> Inr (Sizes (length blocks) (rp_block_bytes rep))
           | Some s \<Rightarrow> bind_r (server_answer blocks s (rp_block_bytes rep)) (\<lambda>a. Inr (Block a))))"

definition handle_many :: "replica \<Rightarrow> string \<Rightarrow> octets list \<Rightarrow> octets list result" where
  "handle_many rep cluster shares =
     (case map_of (rp_clusters rep) cluster of
        None \<Rightarrow> Inl KeyError
      | Some blocks \<Rightarrow> server_answer_many blocks shares (rp_block_bytes rep))"

section \<open>Fetching a cluster\<close>

text \<open>
  The client's side for one cluster: \<open>metadata\<close> is what \<^verbatim>\<open>fetch_pair(cluster, None, None)\<close> returned, \<open>exchange\<close> is the
  call with all shares, and \<open>seeds\<close> the randomness of the queries. The client checks the sizes of both batches.
\<close>

definition check_batch :: "nat \<Rightarrow> nat \<Rightarrow> octets list \<Rightarrow> unit result" where
  "check_batch sz block_bytes batch =
     guard_r (length batch = sz) ValueError (guard_r (list_all (\<lambda>b. length b = block_bytes) batch) ValueError (Inr ()))"

definition fetch_cluster ::
  "pv \<Rightarrow> (octets list \<Rightarrow> octets list \<Rightarrow> (octets list \<times> octets list) result) \<Rightarrow> octets list \<Rightarrow> octets list result" where
  "fetch_cluster metadata exchange seeds =
     (case metadata of
        PDict m \<Rightarrow>
          guard_r (map_of m ''count'' \<noteq> None \<and> map_of m ''block_bytes'' \<noteq> None) ValueError (
          bind_r (dget m ''count'') (\<lambda>sz. bind_r (dget m ''block_bytes'') (\<lambda>bytes.
          bind_r (batch_budget sz bytes) (\<lambda>(n, b).
          bind_r (map_r (\<lambda>i. split_query (int i) (int n) (seeds ! i)) [0..<n]) (\<lambda>queries.
          bind_r (exchange (map fst queries) (map snd queries)) (\<lambda>(first, second).
          bind_r (check_batch n b first) (\<lambda>_. bind_r (check_batch n b second) (\<lambda>_.
            map_r (\<lambda>(x, y). reconstruct x y) (zip first second)))))))))
      | _ \<Rightarrow> Inl ValueError)"

section \<open>Shares cancel\<close>

lemma xor_bytes_simps [simp]:
  "length (xor_bytes a b) = min (length a) (length b)" "xor_bytes [] b = []" "xor_bytes (x # xs) (y # ys) = (x XOR y) # xor_bytes xs ys"
  by (simp_all add: xor_bytes_def)

lemma xor_bytes_nth: "i < length a \<Longrightarrow> i < length b \<Longrightarrow> xor_bytes a b ! i = a ! i XOR b ! i"
  by (simp add: xor_bytes_def)

lemma xor_bytes_swap: "length a = n \<Longrightarrow> length b = n \<Longrightarrow> length c = n \<Longrightarrow> xor_bytes (xor_bytes a b) c = xor_bytes (xor_bytes a c) b"
  by (rule nth_equalityI) (simp_all add: xor_bytes_nth ac_simps)

lemma xor_bytes_cancel: "length a = n \<Longrightarrow> length b = n \<Longrightarrow> xor_bytes a (xor_bytes a b) = b"
  by (rule nth_equalityI) (simp_all add: xor_bytes_nth flip: xor.assoc)

lemma selected_bit: "selected share i \<longleftrightarrow> bit (share ! (i div 8)) (i mod 8)"
  by (simp add: selected_def push_bit_eq_mult and_exp_eq_0_iff_not_bit)

lemma bitmap_index: "i < n \<Longrightarrow> i div 8 < bitmap_bytes n"
  by (simp add: bitmap_bytes_def)

lemma flip_selected:
  assumes "i div 8 < length seed" "j div 8 < length seed"
  shows "selected (seed[i div 8 := seed ! (i div 8) XOR push_bit (i mod 8) 1]) j \<longleftrightarrow> selected seed j \<noteq> (i = j)"
proof (cases "i div 8 = j div 8")
  case True
  have "i = j \<longleftrightarrow> i mod 8 = j mod 8" using True by (metis mod_mult_div_eq)
  with True assms show ?thesis by (auto simp: selected_bit bit_simps)
next
  case False
  then show ?thesis by (auto simp: selected_bit)
qed

text \<open>Changing the start by \<open>d\<close> changes the answer by \<open>d\<close>; asking for one more block changes it by that block.\<close>

lemma answer_shift:
  assumes "answer_loop share n i out blocks = Inr r" "length out = n" "length d = n"
    and "\<And>k. k < length blocks \<Longrightarrow> selected share' (i + k) = selected share (i + k)"
  shows "answer_loop share' n i (xor_bytes out d) blocks = Inr (xor_bytes r d)"
  using assms
proof (induction share n i out blocks rule: answer_loop.induct)
  case (2 share n i out block blocks)
  let ?out = "if selected share i then xor_bytes out block else out"
  have len: "length block = n" "length ?out = n" using 2(2,3) by (auto simp: guard_r_Inr)
  have "answer_loop share' n (Suc i) (xor_bytes ?out d) blocks = Inr (xor_bytes r d)"
    using 2(1) 2(2,4) 2(5) [of "Suc k" for k] len by (simp add: guard_r_Inr)
  moreover have "selected share' i = selected share i" using 2(5) [of 0] by simp
  ultimately show ?case using len 2(3,4) by (simp add: xor_bytes_swap [of out n d] split: if_split_asm)
qed simp

lemma answer_total:
  assumes "\<forall>b \<in> set blocks. length b = n" "length out = n"
  shows "\<exists>r. answer_loop share n i out blocks = Inr r \<and> length r = n"
  using assms by (induction share n i out blocks rule: answer_loop.induct) auto

lemma answer_differ:
  assumes "answer_loop share n i out blocks = Inr r" "length out = n" "k < length blocks"
    and "\<And>l. l < length blocks \<Longrightarrow> selected share' (i + l) \<longleftrightarrow> selected share (i + l) \<noteq> (l = k)"
  shows "answer_loop share' n i out blocks = Inr (xor_bytes r (blocks ! k))"
  using assms
proof (induction share n i out blocks arbitrary: k rule: answer_loop.induct)
  case (2 share n i out block blocks)
  let ?out = "if selected share i then xor_bytes out block else out"
  have len: "length block = n" "length ?out = n" and r: "answer_loop share n (Suc i) ?out blocks = Inr r" using 2(2,3) by (auto simp: guard_r_Inr)
  show ?case
  proof (cases k)
    case 0
    have "answer_loop share' n (Suc i) (xor_bytes ?out block) blocks = Inr (xor_bytes r block)"
      using 2(5) [of "Suc l" for l] by (intro answer_shift [OF r len(2,1)]) (simp add: 0)
    moreover have "xor_bytes ?out block = (if selected share' i then xor_bytes out block else out)"
      using 2(5) [of 0] len 2(3) by (auto simp: 0 intro!: nth_equalityI simp: xor_bytes_nth xor.assoc)
    ultimately show ?thesis using len by (simp add: 0)
  next
    case (Suc m)
    have "answer_loop share' n (Suc i) ?out blocks = Inr (xor_bytes r (blocks ! m))"
      using 2(1) r len 2(4) 2(5) [of "Suc l" for l] by (simp add: Suc)
    moreover have "selected share' i = selected share i" using 2(5) [of 0] by (simp add: Suc)
    ultimately show ?thesis using len by (simp add: Suc)
  qed
qed simp

lemma split_query_Inr:
  "split_query index sz seed = Inr (a, b) \<longleftrightarrow>
     1 \<le> sz \<and> sz \<le> MAX_BLOCKS_PER_CLUSTER \<and> 0 \<le> index \<and> index < sz \<and> length seed = bitmap_bytes (nat sz)
      \<and> a = seed \<and> b = seed[nat index div 8 := seed ! (nat index div 8) XOR push_bit (nat index mod 8) 1]"
  by (auto simp: split_query_def bind_r_Inr guard_r_Inr count_int_Inr Let_def)

text \<open>Each share alone, as a function of the random seed, is a permutation of the bitmaps, whatever the block asked for.\<close>

lemma flip_bij: "bij_betw (\<lambda>seed :: octets. seed[j := seed ! j XOR m]) {seed. length seed = n} {seed. length seed = n}"
proof (cases "j < n")
  case True
  then show ?thesis by (intro bij_betw_byWitness [where f' = "\<lambda>seed. seed[j := seed ! j XOR m]"]) (auto simp: xor.assoc)
next
  case False
  then show ?thesis by (intro bij_betw_byWitness [where f' = id]) (auto simp: list_update_beyond)
qed

section \<open>Two replicas return the block\<close>

lemma batch_budget_Inr:
  "batch_budget s b = Inr (n, m) \<longleftrightarrow>
     (\<exists>i k. s = PInt i \<and> b = PInt k \<and> 1 \<le> i \<and> i \<le> MAX_BLOCKS_PER_CLUSTER \<and> 1 \<le> k \<and> k \<le> MAX_BLOCK_BYTES \<and> i * i * k \<le> MAX_BATCH_WORK \<and> n = nat i \<and> m = nat k)"
  by (auto simp: batch_budget_def bind_r_Inr guard_r_Inr fp_count_Inr)

lemma shares_reconstruct:
  assumes "\<forall>b \<in> set blocks. length b = nat n" "1 \<le> n" "n \<le> MAX_BLOCK_BYTES" "split_query (int i) (int (length blocks)) seed = Inr (a, b)"
  shows "\<exists>x y. server_answer blocks a n = Inr x \<and> server_answer blocks b n = Inr y \<and> length x = nat n \<and> length y = nat n
    \<and> reconstruct x y = Inr (blocks ! i)"
proof -
  from assms(4) have s: "i < length blocks" "int (length blocks) \<le> MAX_BLOCKS_PER_CLUSTER" "length seed = bitmap_bytes (length blocks)"
    "a = seed" "b = seed[i div 8 := seed ! (i div 8) XOR push_bit (i mod 8) 1]" by (auto simp: split_query_Inr)
  have ne: "blocks \<noteq> []" using s(1) by auto
  obtain x where x: "answer_loop seed (nat n) 0 (replicate (nat n) 0) blocks = Inr x" "length x = nat n"
    using answer_total [OF assms(1), of "replicate (nat n) 0"] by auto
  have "selected b (0 + l) \<longleftrightarrow> selected seed (0 + l) \<noteq> (l = i)" if "l < length blocks" for l
    using flip_selected [of i seed l] bitmap_index [OF s(1)] bitmap_index [OF that] by (auto simp: s(3,5))
  from answer_differ [OF x(1) _ s(1) this] have y: "answer_loop b (nat n) 0 (replicate (nat n) 0) blocks = Inr (xor_bytes x (blocks ! i))" by simp
  have len: "length (blocks ! i) = nat n" using assms(1) s(1) by simp
  have "reconstruct x (xor_bytes x (blocks ! i)) = Inr (blocks ! i)"
    using x(2) len assms(2) xor_bytes_cancel [OF x(2) len] by (cases x) (auto simp: reconstruct_def)
  with x y ne s len assms(2,3) show ?thesis by (simp add: server_answer_def count_int_def fp_count_def)
qed

definition replica_ok :: "replica \<Rightarrow> bool" where
  "replica_ok rep \<longleftrightarrow> 1 \<le> rp_block_bytes rep \<and> rp_block_bytes rep \<le> MAX_BLOCK_BYTES
     \<and> (\<forall>(name, blocks) \<in> set (rp_clusters rep). 1 \<le> length blocks \<and> int (length blocks) \<le> MAX_BLOCKS_PER_CLUSTER
          \<and> int (length blocks) * int (length blocks) * rp_block_bytes rep \<le> MAX_BATCH_WORK \<and> (\<forall>b \<in> set blocks. length b = nat (rp_block_bytes rep)))"

lemma check_cluster_Inr:
  "check_cluster n c = Inr k \<longleftrightarrow> k = length (snd c) \<and> (\<exists>s. fp_text (PStr (fst c)) 96 = Inr s) \<and> 1 \<le> n \<and> n \<le> MAX_BLOCK_BYTES
     \<and> 1 \<le> length (snd c) \<and> int (length (snd c)) \<le> MAX_BLOCKS_PER_CLUSTER \<and> int (length (snd c)) * int (length (snd c)) * n \<le> MAX_BATCH_WORK
     \<and> (\<forall>b \<in> set (snd c). length b = nat n)"
  by (auto simp: check_cluster_def bind_r_Inr guard_r_Inr batch_budget_Inr list_all_iff)

lemma replica_init_ok:
  assumes "replica_init clusters n = Inr rep"
  shows "replica_ok rep" "rp_clusters rep = clusters" "rp_block_bytes rep = n"
proof -
  from assms obtain cs where r: "map_r (check_cluster n) clusters = Inr cs" "rep = \<lparr>rp_block_bytes = n, rp_clusters = clusters\<rparr>" "1 \<le> n" "n \<le> MAX_BLOCK_BYTES"
    unfolding replica_init_def by (auto simp: bind_r_Inr guard_r_Inr count_int_Inr)
  show "replica_ok rep" using map_r_each [OF r(1)] r(3,4) unfolding replica_ok_def r(2) by (fastforce simp: check_cluster_Inr)
  show "rp_clusters rep = clusters" "rp_block_bytes rep = n" by (simp_all add: r(2))
qed

text \<open>The public sizes of a cluster, as the client reads them from a replica.\<close>

definition sizes_of :: "replica \<Rightarrow> string \<Rightarrow> pv" where
  "sizes_of rep cluster = (case handle rep cluster None of Inr (Sizes n b) \<Rightarrow> PDict [(''count'', PInt (int n)), (''block_bytes'', PInt b)] | _ \<Rightarrow> PNone)"

definition both :: "replica \<Rightarrow> replica \<Rightarrow> string \<Rightarrow> octets list \<Rightarrow> octets list \<Rightarrow> (octets list \<times> octets list) result" where
  "both rep rep' cluster xs ys = bind_r (handle_many rep cluster xs) (\<lambda>as. bind_r (handle_many rep' cluster ys) (\<lambda>bs. Inr (as, bs)))"

lemma handle_many_ok:
  assumes "replica_ok rep" "map_of (rp_clusters rep) cluster = Some blocks" "length shares = length blocks"
    and "\<And>s. s \<in> set shares \<Longrightarrow> server_answer blocks s (rp_block_bytes rep) = Inr (g s)"
  shows "handle_many rep cluster shares = Inr (map g shares)"
proof -
  have "\<forall>(name, blocks) \<in> set (rp_clusters rep). 1 \<le> length blocks \<and> int (length blocks) \<le> MAX_BLOCKS_PER_CLUSTER
          \<and> int (length blocks) * int (length blocks) * rp_block_bytes rep \<le> MAX_BATCH_WORK" and n: "1 \<le> rp_block_bytes rep" "rp_block_bytes rep \<le> MAX_BLOCK_BYTES"
    using assms(1) unfolding replica_ok_def by auto
  with map_of_SomeD [OF assms(2)] have "1 \<le> length blocks" "int (length blocks) \<le> MAX_BLOCKS_PER_CLUSTER"
      "int (length blocks) * int (length blocks) * rp_block_bytes rep \<le> MAX_BATCH_WORK" by auto
  then have "batch_budget (PInt (int (length blocks))) (PInt (rp_block_bytes rep)) = Inr (length blocks, nat (rp_block_bytes rep))"
    using n by (simp add: batch_budget_Inr)
  then show ?thesis using assms(2,3) map_r_total [OF assms(4)] by (simp add: handle_many_def server_answer_many_def)
qed

lemma fetch_two_replicas:
  assumes "replica_ok rep" "replica_ok rep'" "rp_clusters rep' = rp_clusters rep" "rp_block_bytes rep' = rp_block_bytes rep"
    and "map_of (rp_clusters rep) cluster = Some blocks" "length seeds = length blocks" "\<forall>s \<in> set seeds. length s = bitmap_bytes (length blocks)"
  shows "fetch_cluster (sizes_of rep cluster) (both rep rep' cluster) seeds = Inr blocks"
proof -
  let ?n = "length blocks" and ?b = "rp_block_bytes rep"
  from assms(1) have "1 \<le> ?b" "?b \<le> MAX_BLOCK_BYTES" and all: "\<forall>(name, blocks) \<in> set (rp_clusters rep). 1 \<le> length blocks \<and> int (length blocks) \<le> MAX_BLOCKS_PER_CLUSTER
          \<and> int (length blocks) * int (length blocks) * ?b \<le> MAX_BATCH_WORK \<and> (\<forall>b \<in> set blocks. length b = nat ?b)"
    unfolding replica_ok_def by auto
  with map_of_SomeD [OF assms(5)] have k: "1 \<le> ?b" "?b \<le> MAX_BLOCK_BYTES" "1 \<le> ?n" "int ?n \<le> MAX_BLOCKS_PER_CLUSTER" "int ?n * int ?n * ?b \<le> MAX_BATCH_WORK"
    "\<forall>b \<in> set blocks. length b = nat ?b" by auto
  let ?q = "\<lambda>i. (seeds ! i, (seeds ! i)[i div 8 := seeds ! i ! (i div 8) XOR push_bit (i mod 8) 1])"
  have q: "split_query (int i) (int ?n) (seeds ! i) = Inr (?q i)" if "i < ?n" for i
    using that k assms(6,7) by (simp add: split_query_Inr)
  let ?a = "\<lambda>s. projr (server_answer blocks s ?b)"
  have r: "server_answer blocks (fst (?q i)) ?b = Inr (?a (fst (?q i)))" "server_answer blocks (snd (?q i)) ?b = Inr (?a (snd (?q i)))"
    "length (?a (fst (?q i))) = nat ?b" "length (?a (snd (?q i))) = nat ?b" "reconstruct (?a (fst (?q i))) (?a (snd (?q i))) = Inr (blocks ! i)" if "i < ?n" for i
    using shares_reconstruct [OF k(6,1,2) q [OF that, unfolded prod.collapse]] by auto
  have m: "handle_many rep cluster (map (\<lambda>i. fst (?q i)) [0..<?n]) = Inr (map ?a (map (\<lambda>i. fst (?q i)) [0..<?n]))"
    "handle_many rep' cluster (map (\<lambda>i. snd (?q i)) [0..<?n]) = Inr (map ?a (map (\<lambda>i. snd (?q i)) [0..<?n]))"
    by (rule handle_many_ok; use assms r in auto)+
  let ?x = "map (\<lambda>i. ?a (fst (?q i))) [0..<?n]" and ?y = "map (\<lambda>i. ?a (snd (?q i))) [0..<?n]"
  have ex: "both rep rep' cluster (map fst (map ?q [0..<?n])) (map snd (map ?q [0..<?n])) = Inr (?x, ?y)"
    using m unfolding both_def by (simp add: comp_def)
  have qs: "map_r (\<lambda>i. split_query (int i) (int ?n) (seeds ! i)) [0..<?n] = Inr (map ?q [0..<?n])" by (rule map_r_total) (use q in auto)
  have "map_r (\<lambda>(x, y). reconstruct x y) (zip ?x ?y) = Inr blocks"
    using r(5) by (simp add: map_r_Inr list_all2_conv_all_nth del: fst_conv snd_conv)
  moreover have "check_batch ?n (nat ?b) ?x = Inr ()" "check_batch ?n (nat ?b) ?y = Inr ()"
    using r(3,4) by (simp_all add: check_batch_def list_all_iff del: fst_conv snd_conv)
  moreover have "batch_budget (PInt (int ?n)) (PInt ?b) = Inr (?n, nat ?b)" using k by (simp add: batch_budget_Inr)
  ultimately show ?thesis
    using qs ex assms(5) unfolding fetch_cluster_def sizes_of_def handle_def by (simp add: dget_def)
qed

section \<open>Provisioning places what is cleared\<close>

lemma dset_keys: "k \<in> set (map fst d) \<Longrightarrow> map fst (dset d k v) = map fst d"
  by (induction d k v rule: dset.induct) auto

lemma nearest_of_in: "nearest_of best ps \<in> set (map snd (best # ps))"
proof (induction best ps rule: nearest_of.induct)
  case (2 best p ps)
  then show ?case by (cases "fst p < fst best \<or> fst p = fst best \<and> snd p < snd best") auto
qed simp

lemma named_distances:
  "map_r (\<lambda>(name, w). bind_r (f w) (\<lambda>d. Inr (d, name))) vectors = Inr ps \<Longrightarrow> map snd ps = map fst vectors"
  by (induction vectors arbitrary: ps) (auto simp: bind_r_Inr)

lemma nearest_in:
  assumes "nearest dist v vectors = Inr name"
  shows "name \<in> set (map fst vectors)"
proof -
  from assms obtain p ps where ps: "map_r (\<lambda>(name, w). bind_r (distance dist v w) (\<lambda>d. Inr (d, name))) vectors = Inr (p # ps)"
    "name = nearest_of p ps" unfolding nearest_def bind_r_Inr by (metis (no_types, lifting) list.case(1,2) list.exhaust sum.distinct(1) sum.inject(2))
  then have "name \<in> set (map snd (p # ps))" using nearest_of_in [of p ps] by simp
  with named_distances [OF ps(1)] show ?thesis by simp
qed

text \<open>The encoding in which a record is stored: its vector comes last.\<close>

definition stored_form :: "(string \<times> pv) list \<Rightarrow> pv" where
  "stored_form r = PDict (dset (dpop r ''vector'') ''vector'' (dget_or r ''vector'' PNone))"

definition cleared :: "string list \<Rightarrow> nat \<Rightarrow> (string \<times> pv) list \<Rightarrow> bool" where
  "cleared labels ceiling r \<longleftrightarrow> (\<exists>l. map_of r ''label'' = Some (PStr l) \<and> l \<in> set labels \<and> position labels l \<le> ceiling)"

definition holds_block :: "nat \<Rightarrow> (string \<times> pv) list \<Rightarrow> octets \<Rightarrow> bool" where
  "holds_block n r block \<longleftrightarrow> (\<exists>e. wire (stored_form r) = Inr e \<and> length e \<le> n \<and> block = padded n e)"

definition placed :: "string list \<Rightarrow> string list \<Rightarrow> nat \<Rightarrow> nat \<Rightarrow> nat \<Rightarrow> pv list \<Rightarrow> (string \<times> octets list) list \<Rightarrow> bool" where
  "placed names labels ceiling n capacity rs clusters \<longleftrightarrow>
     map fst clusters = names
     \<and> (\<forall>(name, blocks) \<in> set clusters. length blocks \<le> capacity \<and> (\<forall>block \<in> set blocks. \<exists>r. PDict r \<in> set rs \<and> cleared labels ceiling r \<and> holds_block n r block))
     \<and> (\<forall>r. PDict r \<in> set rs \<longrightarrow> cleared labels ceiling r \<longrightarrow> (\<exists>(name, blocks) \<in> set clusters. \<exists>block \<in> set blocks. holds_block n r block))"

lemma place_record_Inr:
  assumes "place_record dist vectors labels ceiling n capacity st record = Inr st'"
  shows "\<exists>r. record = PDict r \<and>
    (st' = st \<and> \<not> cleared labels ceiling r
     \<or> (\<exists>name e ids. cleared labels ceiling r \<and> name \<in> set (map fst vectors) \<and> length (blocks_of (fst st) name) < capacity
          \<and> wire (stored_form r) = Inr e \<and> length e \<le> n \<and> st' = (dset (fst st) name (blocks_of (fst st) name @ [padded n e]), ids)))"
proof -
  from assms obtain r l where r: "record = PDict r" "dget_or r ''label'' PNone = PStr l" "l \<in> set labels"
    unfolding place_record_def by (auto simp: case_PDict_Inr case_PStr_Inr guard_r_Inr)
  have lab: "map_of r ''label'' = Some (PStr l)" using r(2) by (auto simp: dget_or_def split: option.split_asm)
  show ?thesis
  proof (cases "ceiling < position labels l")
    case True
    with assms r lab show ?thesis by (auto simp: place_record_def cleared_def)
  next
    case False
    have c: "cleared labels ceiling r" using False lab r(3) by (auto simp: cleared_def)
    from assms False obtain identity checked name e where
      "nearest dist checked vectors = Inr name" "length (blocks_of (fst st) name) < capacity"
      "wire (stored_form r) = Inr e" "length e \<le> n" "st' = (dset (fst st) name (blocks_of (fst st) name @ [padded n e]), identity # snd st)"
      by (auto simp: place_record_def r case_PStr_Inr bind_r_Inr guard_r_Inr stored_form_def not_le not_less)
    with c r(1) nearest_in show ?thesis by blast
  qed
qed

lemma blocks_of_in: "distinct (map fst clusters) \<Longrightarrow> (name, blocks) \<in> set clusters \<Longrightarrow> blocks_of clusters name = blocks"
  by (simp add: blocks_of_def)

lemma dset_entries:
  assumes "distinct (map fst d)" "k \<in> set (map fst d)"
  shows "set (dset d k v) = insert (k, v) (set d - {(k, blocks_of d k)})"
  using assms by (induction d k v rule: dset.induct) (auto simp: blocks_of_def rev_image_eqI)

lemma placed_step:
  assumes "placed names labels ceiling n capacity rs (fst st)" "distinct names" "set names = set (map fst vectors)"
    and "place_record dist vectors labels ceiling n capacity st record = Inr st'"
  shows "placed names labels ceiling n capacity (rs @ [record]) (fst st')"
proof -
  from place_record_Inr [OF assms(4)] obtain r where r: "record = PDict r" and
    "st' = st \<and> \<not> cleared labels ceiling r
     \<or> (\<exists>name e ids. cleared labels ceiling r \<and> name \<in> set (map fst vectors) \<and> length (blocks_of (fst st) name) < capacity
          \<and> wire (stored_form r) = Inr e \<and> length e \<le> n \<and> st' = (dset (fst st) name (blocks_of (fst st) name @ [padded n e]), ids))" by blast
  then consider "st' = st" "\<not> cleared labels ceiling r"
    | name e ids where "cleared labels ceiling r" "name \<in> set (map fst vectors)" "length (blocks_of (fst st) name) < capacity"
        "wire (stored_form r) = Inr e" "length e \<le> n" "st' = (dset (fst st) name (blocks_of (fst st) name @ [padded n e]), ids)" by blast
  then show ?thesis
  proof cases
    case 1
    then show ?thesis using assms(1) unfolding placed_def r by fastforce
  next
    case (2 name e ids)
    let ?bs = "blocks_of (fst st) name"
    have names: "map fst (fst st) = names" "name \<in> set (map fst (fst st))" using assms(1,3) 2(2) by (auto simp: placed_def)
    then have d: "distinct (map fst (fst st))" using assms(2) by simp
    have old: "(name, ?bs) \<in> set (fst st)" using names(2) blocks_of_in [OF d] by auto
    have h: "holds_block n r (padded n e)" using 2(4,5) by (auto simp: holds_block_def)
    have ent: "set (fst st') = insert (name, ?bs @ [padded n e]) (set (fst st) - {(name, ?bs)})"
      using dset_entries [OF d names(2)] by (simp add: 2(6))
    have "map fst (fst st') = names" using names dset_keys [OF names(2)] by (simp add: 2(6))
    moreover have "length blocks \<le> capacity \<and> (\<forall>block \<in> set blocks. \<exists>r. PDict r \<in> set (rs @ [record]) \<and> cleared labels ceiling r \<and> holds_block n r block)"
      if "(m, blocks) \<in> set (fst st')" for m blocks
    proof (cases "(m, blocks) = (name, ?bs @ [padded n e])")
      case True
      have "\<forall>block \<in> set ?bs. \<exists>r. PDict r \<in> set rs \<and> cleared labels ceiling r \<and> holds_block n r block" using assms(1) old by (auto simp: placed_def)
      with True 2(1,3) h r show ?thesis by auto
    next
      case False
      with that ent have "(m, blocks) \<in> set (fst st)" by auto
      with assms(1) show ?thesis unfolding placed_def by fastforce
    qed
    moreover have "\<exists>(m, blocks) \<in> set (fst st'). \<exists>block \<in> set blocks. holds_block n q block" if "PDict q \<in> set (rs @ [record])" "cleared labels ceiling q" for q
    proof (cases "q = r")
      case True
      with h ent show ?thesis by auto
    next
      case False
      with that r assms(1) obtain m blocks block where b: "(m, blocks) \<in> set (fst st)" "block \<in> set blocks" "holds_block n q block" unfolding placed_def by fastforce
      show ?thesis
      proof (cases "(m, blocks) = (name, ?bs)")
        case True
        with b ent show ?thesis by auto
      next
        case False
        then have "(m, blocks) \<in> set (fst st')" using b(1) ent by auto
        with b(2,3) show ?thesis by blast
      qed
    qed
    ultimately show ?thesis unfolding placed_def by blast
  qed
qed

lemma placed_fold:
  assumes "fold_r (place_record dist vectors labels ceiling n capacity) st rs' = Inr st'" "distinct names" "set names = set (map fst vectors)"
    and "placed names labels ceiling n capacity rs (fst st)"
  shows "placed names labels ceiling n capacity (rs @ rs') (fst st')"
  using assms
proof (induction rs' arbitrary: st rs)
  case (Cons row rs')
  then obtain s where s: "place_record dist vectors labels ceiling n capacity st row = Inr s" "fold_r (place_record dist vectors labels ceiling n capacity) s rs' = Inr st'"
    by (auto simp: bind_r_Inr)
  from Cons.IH [OF s(2) assms(2,3) placed_step [OF Cons.prems(4) assms(2,3) s(1)]] show ?case by simp
qed simp

definition filled :: "nat \<Rightarrow> nat \<Rightarrow> string \<times> octets list \<Rightarrow> string \<times> octets list" where
  "filled n capacity = (\<lambda>(name, blocks). (name, blocks @ replicate (capacity - length blocks) (replicate n 0)))"

lemma named_vectors:
  "map_r (\<lambda>(name, v). bind_r (fp_text (PStr name) 96) (\<lambda>s. bind_r (vector v) (\<lambda>w. Inr (s, w)))) cs = Inr vectors
    \<Longrightarrow> map fst vectors = map fst cs \<and> (\<forall>name \<in> set (map fst cs). fp_text (PStr name) 96 = Inr name)"
proof (induction cs arbitrary: vectors)
  case (Cons c cs)
  then show ?case by (auto simp: bind_r_Inr fp_text_Inr split: prod.split_asm)
qed simp

lemma cluster_records_Inr:
  assumes "cluster_records dist (PList rs) (PDict cs) clearance labels (PInt b) capacity = Inr clusters" "distinct (map fst cs)"
  obtains k ls ceiling raw where "hierarchy labels clearance = Inr (ls, ceiling)" "batch_budget (PInt (int k)) (PInt b) = Inr (k, nat b)"
    "1 \<le> b" "b \<le> MAX_BLOCK_BYTES" "placed (sort (map fst cs)) ls ceiling (nat b) k rs raw" "clusters = map (filled (nat b) k) raw"
    "1 \<le> length cs" "length cs \<le> MAX_CLUSTERS" "\<forall>name \<in> set (map fst cs). fp_text (PStr name) 96 = Inr name"
proof -
  from assms(1) obtain k sz ls ceiling vectors st where
    c: "cs \<noteq> []" "length cs \<le> MAX_CLUSTERS" "256 \<le> b" "b \<le> MAX_BLOCK_BYTES" "batch_budget capacity (PInt b) = Inr (k, sz)" "hierarchy labels clearance = Inr (ls, ceiling)"
      "map_r (\<lambda>(name, v). bind_r (fp_text (PStr name) 96) (\<lambda>s. bind_r (vector v) (\<lambda>w. Inr (s, w)))) cs = Inr vectors"
      "fold_r (place_record dist vectors ls ceiling sz k) (map (\<lambda>name. (name, [])) (sort (map fst vectors)), []) rs = Inr st"
      "clusters = map (\<lambda>(name, blocks). (name, blocks @ replicate (k - length blocks) (replicate sz 0))) (fst st)"
    unfolding cluster_records_def by (auto simp: bind_r_Inr guard_r_Inr fp_count_Inr not_less)
  have b: "sz = nat b" "batch_budget (PInt (int k)) (PInt b) = Inr (k, nat b)" using c(5) by (auto simp: batch_budget_Inr)
  have v: "map fst vectors = map fst cs" "\<forall>name \<in> set (map fst cs). fp_text (PStr name) 96 = Inr name" using named_vectors [OF c(7)] by auto
  have "placed (sort (map fst cs)) ls ceiling (nat b) k [] (map (\<lambda>name. (name, [])) (sort (map fst cs)))"
    by (auto simp: placed_def comp_def)
  from placed_fold [OF c(8), of "sort (map fst cs)" "[]"] this have "placed (sort (map fst cs)) ls ceiling (nat b) k rs (fst st)"
    using assms(2) v(1) by (simp add: b(1))
  moreover have "1 \<le> length cs" using c(1) by (cases cs) auto
  ultimately show ?thesis using that [of ls ceiling k "fst st"] c b v(2) by (simp add: filled_def)
qed

lemma filled_ok:
  assumes "placed names labels ceiling n k rs raw" "(name, blocks) \<in> set (map (filled n k) raw)"
  shows "name \<in> set names" "length blocks = k" "\<forall>block \<in> set blocks. length block = n"
    "\<forall>block \<in> set blocks. block = replicate n 0 \<or> (\<exists>r. PDict r \<in> set rs \<and> cleared labels ceiling r \<and> holds_block n r block)"
proof -
  from assms(2) obtain bs where bs: "(name, bs) \<in> set raw" "blocks = bs @ replicate (k - length bs) (replicate n 0)" by (auto simp: filled_def)
  have p: "length bs \<le> k" "\<forall>block \<in> set bs. \<exists>r. PDict r \<in> set rs \<and> cleared labels ceiling r \<and> holds_block n r block" "map fst raw = names"
    using assms(1) bs(1) by (auto simp: placed_def)
  show "name \<in> set names" using bs(1) p(3) by force
  show "length blocks = k" using bs(2) p(1) by simp
  show cl: "\<forall>block \<in> set blocks. block = replicate n 0 \<or> (\<exists>r. PDict r \<in> set rs \<and> cleared labels ceiling r \<and> holds_block n r block)"
    using bs(2) p(2) by auto
  then show "\<forall>block \<in> set blocks. length block = n" by (auto simp: holds_block_def padded_def)
qed

lemma replica_of_clusters:
  assumes "placed names labels ceiling (nat b) k rs raw" "batch_budget (PInt (int k)) (PInt b) = Inr (k, nat b)" "1 \<le> b" "b \<le> MAX_BLOCK_BYTES"
    and "1 \<le> length names" "length names \<le> MAX_CLUSTERS" "\<forall>name \<in> set names. fp_text (PStr name) 96 = Inr name"
  shows "replica_init (map (filled (nat b) k) raw) b = Inr \<lparr>rp_block_bytes = b, rp_clusters = map (filled (nat b) k) raw\<rparr>"
proof -
  let ?cs = "map (filled (nat b) k) raw"
  have "check_cluster b c = Inr k" if "c \<in> set ?cs" for c
  proof (cases c)
    case (Pair name blocks)
    with filled_ok [OF assms(1), of name blocks] that assms(2-4,7) show ?thesis by (auto simp: check_cluster_Inr batch_budget_Inr)
  qed
  then have "map_r (check_cluster b) ?cs = Inr (map (\<lambda>_. k) ?cs)" by (rule map_r_total)
  moreover have "length raw = length names" using assms(1) by (auto simp: placed_def dest: arg_cong [where f = length])
  moreover have "set (map (\<lambda>_. k) ?cs) = {k}" using assms(5) \<open>length raw = length names\<close> by (cases raw) auto
  ultimately show ?thesis using assms(3-6) by (simp add: replica_init_def count_int_def fp_count_def)
qed

lemma share_bij:
  assumes "1 \<le> sz" "sz \<le> MAX_BLOCKS_PER_CLUSTER" "0 \<le> i" "i < sz"
  shows "bij_betw (\<lambda>seed. fst (projr (split_query i sz seed))) {s. length s = bitmap_bytes (nat sz)} {s. length s = bitmap_bytes (nat sz)}"
    "bij_betw (\<lambda>seed. snd (projr (split_query i sz seed))) {s. length s = bitmap_bytes (nat sz)} {s. length s = bitmap_bytes (nat sz)}"
proof -
  have q: "split_query i sz seed = Inr (seed, seed[nat i div 8 := seed ! (nat i div 8) XOR push_bit (nat i mod 8) 1])" if "length seed = bitmap_bytes (nat sz)" for seed
    using that assms by (simp add: split_query_Inr)
  show "bij_betw (\<lambda>seed. fst (projr (split_query i sz seed))) {s. length s = bitmap_bytes (nat sz)} {s. length s = bitmap_bytes (nat sz)}"
    by (rule bij_betw_cong [THEN iffD1, OF _ bij_betw_id]) (simp add: q)
  show "bij_betw (\<lambda>seed. snd (projr (split_query i sz seed))) {s. length s = bitmap_bytes (nat sz)} {s. length s = bitmap_bytes (nat sz)}"
    by (rule bij_betw_cong [THEN iffD1, OF _ flip_bij [of "nat i div 8" "push_bit (nat i mod 8) 1"]]) (simp add: q)
qed

section \<open>The property\<close>


definition sample_block :: "(string \<times> pv) list" where
  "sample_block = [(''id'', PStr ''a''), (''label'', PStr ''public''), (''vector'', PList [PInt 1])]"

lemma sample_wire: "wire (stored_form sample_block) = Inr (dumps (stored_form sample_block))" "length (dumps (stored_form sample_block)) \<le> 256"
  by (simp_all add: sample_block_def stored_form_def dpop_def dget_or_def wire_cases tree_ok_def MAX_BYTES_def quote_def esc_def Let_def py_len_def
      member_text_def sort_key_def show_int_def show_nat.simps item_bytes_def bit_length_def nat_bits.simps)

lemma sample_clusters:
  "cluster_records (\<lambda>_ _. 0 :: nat) (PList [PDict sample_block]) (PDict [(''c'', PList [PInt 1])]) (PStr ''public'') (PList [PStr ''public'']) (PInt 256) (PInt 1)
    = Inr [(''c'', [padded 256 (dumps (stored_form sample_block))])]"
  using sample_wire
  by (simp add: cluster_records_def MAX_CLUSTERS_def MAX_BLOCK_BYTES_def MAX_BLOCKS_PER_CLUSTER_def MAX_BATCH_WORK_def batch_budget_def fp_count_def hierarchy_def
      fp_text_def py_len_def NUL_char position_def vector_def count_int_def fp_number_def place_record_def dget_or_def nearest_def distance_def blocks_of_def
      sample_block_def stored_form_def)


end
