(* ===== verification/CorpusBin.thy ===== *)
theory CorpusBin
  imports Sha256
begin

text \<open>
  The persisted index of lexical retrieval, \<^verbatim>\<open>unimem/corpus_bin.py\<close>: writing the index as one binary file and reading
  it back against the files it was built from. What was saved is what is loaded, and only for the same scorer,
  version and source files; no truncated or extended copy is accepted. A float is the 64 bits of its
  representation. Directory and temporary-file handling are not modelled: the file is its content, replaced at once.
\<close>

section \<open>Packing numbers\<close>

type_synonym octets = "8 word list"
type_synonym w64 = "64 word"

datatype field = U nat | S nat | D
datatype num = N int | F w64

fun le_bytes :: "nat \<Rightarrow> nat \<Rightarrow> octets" where
  "le_bytes 0 n = []"
| "le_bytes (Suc k) n = word_of_nat (n mod 256) # le_bytes k (n div 256)"

fun le_value :: "octets \<Rightarrow> nat" where
  "le_value [] = 0"
| "le_value (b # bs) = unat b + 256 * le_value bs"

text \<open>The formats \<^verbatim>\<open>B H I Q\<close> (unsigned), \<^verbatim>\<open>i q\<close> (signed) and \<^verbatim>\<open>d\<close>, little-endian and without alignment.\<close>

fun pack_field :: "field \<Rightarrow> num \<Rightarrow> octets result" where
  "pack_field (U w) (N i) = guard_r (0 \<le> i \<and> i < 256 ^ w) StructError (Inr (le_bytes w (nat i)))"
| "pack_field (S w) (N i) = guard_r (- (256 ^ w div 2) \<le> i \<and> i < 256 ^ w div 2) StructError (Inr (le_bytes w (nat (i mod 256 ^ w))))"
| "pack_field D (F x) = Inr (le_bytes 8 (unat x))"
| "pack_field _ _ = Inl StructError"

fun pack :: "field list \<Rightarrow> num list \<Rightarrow> octets result" where
  "pack [] [] = Inr []"
| "pack (f # fs) (v # vs) = bind_r (pack_field f v) (\<lambda>a. bind_r (pack fs vs) (\<lambda>b. Inr (a @ b)))"
| "pack _ _ = Inl StructError"

fun field_width :: "field \<Rightarrow> nat" where
  "field_width (U w) = w"
| "field_width (S w) = w"
| "field_width D = 8"

definition calcsize :: "field list \<Rightarrow> nat" where
  "calcsize fmt = sum_list (map field_width fmt)"

fun unpack_field :: "field \<Rightarrow> octets \<Rightarrow> num" where
  "unpack_field (U w) bs = N (int (le_value bs))"
| "unpack_field (S w) bs = N (if int (le_value bs) < 256 ^ w div 2 then int (le_value bs) else int (le_value bs) - 256 ^ w)"
| "unpack_field D bs = F (word_of_nat (le_value bs))"

fun unpack :: "field list \<Rightarrow> octets \<Rightarrow> num list" where
  "unpack [] bs = []"
| "unpack (f # fs) bs = unpack_field f (take (field_width f) bs) # unpack fs (drop (field_width f) bs)"

text \<open>\<^verbatim>\<open>unpack_from(blob, off)\<close>, with the new offset; it raises where the bytes do not suffice.\<close>

definition unpack_from :: "field list \<Rightarrow> octets \<Rightarrow> nat \<Rightarrow> (num list \<times> nat) result" where
  "unpack_from fmt blob off =
     guard_r (off + calcsize fmt \<le> length blob) StructError (Inr (unpack fmt (take (calcsize fmt) (drop off blob)), off + calcsize fmt))"

fun int_of :: "num \<Rightarrow> int" where
  "int_of (N i) = i"
| "int_of (F x) = 0"

fun bits_of :: "num \<Rightarrow> w64" where
  "bits_of (N i) = 0"
| "bits_of (F x) = x"

section \<open>Text\<close>

definition bytes_of :: "string \<Rightarrow> octets" where
  "bytes_of s = map of_char s"

definition chars_of :: "octets \<Rightarrow> string" where
  "chars_of bs = map (\<lambda>b. char_of (unat b)) bs"

text \<open>What strict decoding accepts: the first argument counts the continuation bytes still due, the next two bound the first of them.\<close>

fun utf8 :: "nat \<Rightarrow> nat \<Rightarrow> nat \<Rightarrow> nat list \<Rightarrow> bool" where
  "utf8 0 lo hi [] = True"
| "utf8 (Suc k) lo hi [] = False"
| "utf8 0 lo hi (a # r) =
     (if a < 0x80 then utf8 0 0 0 r
      else if 0xC2 \<le> a \<and> a \<le> 0xDF then utf8 1 0x80 0xBF r
      else if a = 0xE0 then utf8 2 0xA0 0xBF r
      else if a = 0xED then utf8 2 0x80 0x9F r
      else if 0xE1 \<le> a \<and> a \<le> 0xEF then utf8 2 0x80 0xBF r
      else if a = 0xF0 then utf8 3 0x90 0xBF r
      else if a = 0xF4 then utf8 3 0x80 0x8F r
      else if 0xF1 \<le> a \<and> a \<le> 0xF3 then utf8 3 0x80 0xBF r
      else False)"
| "utf8 (Suc k) lo hi (a # r) \<longleftrightarrow> lo \<le> a \<and> a \<le> hi \<and> utf8 k 0x80 0xBF r"

definition decode :: "octets \<Rightarrow> string result" where
  "decode bs = guard_r (utf8 0 0 0 (map unat bs)) ValueError (Inr (chars_of bs))"

section \<open>Index and layout\<close>

record index =
  ix_n_terms :: "int list"
  ix_postings :: "(string \<times> (int list \<times> w64 list \<times> w64 list)) list"
  ix_doc_freq :: "(string \<times> int) list"
  ix_n_docs :: nat
  ix_avg_field_len :: w64
  ix_max_idf :: w64
  ix_length_factors :: "w64 list"
  ix_tie_breaks :: "(int \<times> int) list"

type_synonym stamp = "string \<times> int list"
type_synonym posting = "string \<times> int \<times> int list \<times> w64 list \<times> w64 list"

definition MAGIC :: "int list" where "MAGIC = [0x43, 0x54, 0x43, 0x49]"
definition VERSION :: int where "VERSION = 3"
definition HEADER :: "field list" where "HEADER = [U 1, U 1, U 1, U 1, U 1, U 1]"
definition META :: "field list" where "META = [U 4, D, D]"
definition COUNT :: "field list" where "COUNT = [U 4]"
definition PATH_STAMP :: "field list" where "PATH_STAMP = [U 2, U 8, U 8, S 8, S 8, U 8]"
definition TERM_HEAD :: "field list" where "TERM_HEAD = [U 2, U 4, U 4]"

definition tag_of :: "string \<Rightarrow> string \<Rightarrow> octets" where
  "tag_of scorer version = bytes_of (scorer @ ''|'' @ version)"

section \<open>Saving\<close>

definition write_path :: "stamp \<Rightarrow> octets result" where
  "write_path entry =
     (case entry of (path, identity) \<Rightarrow>
        guard_r (length identity = 5) ValueError (
        bind_r (pack PATH_STAMP (N (int (length (bytes_of path))) # map N identity)) (\<lambda>s. Inr (s @ bytes_of path))))"

definition write_term :: "posting \<Rightarrow> octets result" where
  "write_term p =
     (case p of (t, df, docs, wsums, bests) \<Rightarrow>
        bind_r (pack TERM_HEAD [N (int (length (bytes_of t))), N df, N (int (length docs))]) (\<lambda>h.
        bind_r (pack (replicate (length docs) (U 4)) (map N docs)) (\<lambda>a.
        bind_r (pack (replicate (length docs) D) (map F wsums)) (\<lambda>b.
        bind_r (pack (replicate (length docs) D) (map F bests)) (\<lambda>c.
          Inr (h @ bytes_of t @ a @ b @ c))))))"

text \<open>\<^verbatim>\<open>index.doc_freq[term]\<close> for the sorted vocabulary.\<close>

definition posting_of :: "index \<Rightarrow> string \<times> (int list \<times> w64 list \<times> w64 list) \<Rightarrow> posting result" where
  "posting_of ix p = (case map_of (ix_doc_freq ix) (fst p) of None \<Rightarrow> Inl KeyError | Some df \<Rightarrow> Inr (fst p, df, snd p))"

definition vocab :: "index \<Rightarrow> (string \<times> (int list \<times> w64 list \<times> w64 list)) list" where
  "vocab ix = sort_key fst (ix_postings ix)"

definition save_blob :: "string \<Rightarrow> string \<Rightarrow> stamp list \<Rightarrow> index \<Rightarrow> octets option result" where
  "save_blob version scorer fingerprint ix =
     (let n = length fingerprint; tag = tag_of scorer version in
      if 255 < length tag then Inr None
      else
        bind_r (pack HEADER (map N MAGIC @ [N VERSION, N (int (length tag))])) (\<lambda>header.
        bind_r (pack META [N (int n), F (ix_avg_field_len ix), F (ix_max_idf ix)]) (\<lambda>meta.
        bind_r (pack COUNT [N (int n)]) (\<lambda>count.
        bind_r (map_r write_path fingerprint) (\<lambda>paths.
        bind_r (pack COUNT [N (int (length (vocab ix)))]) (\<lambda>size.
        bind_r (map_r (\<lambda>p. bind_r (posting_of ix p) write_term) (vocab ix)) (\<lambda>terms.
        bind_r (pack (replicate n (U 4)) (map N (ix_n_terms ix))) (\<lambda>a.
        bind_r (pack (replicate n D) (map F (ix_length_factors ix))) (\<lambda>b.
        bind_r (pack (replicate n (S 4)) (map (\<lambda>t. N (fst t)) (ix_tie_breaks ix))) (\<lambda>c.
        bind_r (pack (replicate n (S 4)) (map (\<lambda>t. N (snd t)) (ix_tie_breaks ix))) (\<lambda>d.
          Inr (Some (header @ tag @ meta @ count @ concat paths @ size @ concat terms @ a @ b @ c @ d)))))))))))))"

definition save :: "string \<Rightarrow> string \<Rightarrow> stamp list \<Rightarrow> index \<Rightarrow> octets option \<Rightarrow> octets option \<times> bool result" where
  "save version scorer fingerprint ix file =
     (case save_blob version scorer fingerprint ix of
        Inr (Some blob) \<Rightarrow> (Some blob, Inr True)
      | Inr None \<Rightarrow> (file, Inr False)
      | Inl e \<Rightarrow> (file, if e \<in> {OSError, ValueError, TypeError, StructError, AttributeError} then Inr False else Inl e))"

section \<open>Loading\<close>

text \<open>A slice of the blob, which may be shorter than asked for; the offset moves by the whole length.\<close>

definition cut :: "octets \<Rightarrow> nat \<Rightarrow> nat \<Rightarrow> octets" where
  "cut blob off n = take n (drop off blob)"

fun check_paths :: "octets \<Rightarrow> nat \<Rightarrow> stamp list \<Rightarrow> string list \<Rightarrow> nat option result" where
  "check_paths blob off [] ls = Inr (Some off)"
| "check_paths blob off (f # fs) [] = Inl IndexError"
| "check_paths blob off ((fpath, identity) # fs) (l # ls) =
     bind_r (unpack_from PATH_STAMP blob off) (\<lambda>(s, o1).
     let n = nat (int_of (hd s)) in
     bind_r (decode (cut blob o1 n)) (\<lambda>path.
       if path \<noteq> fpath \<or> map int_of (tl s) \<noteq> identity then Inr None
       else if path \<noteq> l then Inr None
       else check_paths blob (o1 + n) fs ls))"

definition read_term :: "octets \<Rightarrow> nat \<Rightarrow> (posting \<times> nat) result" where
  "read_term blob off =
     bind_r (unpack_from TERM_HEAD blob off) (\<lambda>(h, o1).
     let tlen = nat (int_of (h ! 0)); npost = nat (int_of (h ! 2)) in
     bind_r (decode (cut blob o1 tlen)) (\<lambda>t.
     bind_r (unpack_from (replicate npost (U 4)) blob (o1 + tlen)) (\<lambda>(docs, o2).
     bind_r (unpack_from (replicate npost D) blob o2) (\<lambda>(wsums, o3).
     bind_r (unpack_from (replicate npost D) blob o3) (\<lambda>(bests, o4).
       Inr ((t, int_of (h ! 1), map int_of docs, map bits_of wsums, map bits_of bests), o4))))))"

text \<open>\<^verbatim>\<open>for _ in range(n)\<close> over a reader that moves the offset.\<close>

fun read_many :: "(octets \<Rightarrow> nat \<Rightarrow> ('a \<times> nat) result) \<Rightarrow> nat \<Rightarrow> octets \<Rightarrow> nat \<Rightarrow> ('a list \<times> nat) result" where
  "read_many read 0 blob off = Inr ([], off)"
| "read_many read (Suc n) blob off =
     bind_r (read blob off) (\<lambda>(x, o1). bind_r (read_many read n blob o1) (\<lambda>(xs, o2). Inr (x # xs, o2)))"

definition load_body :: "string \<Rightarrow> string \<Rightarrow> string list \<Rightarrow> stamp list \<Rightarrow> octets \<Rightarrow> index option result" where
  "load_body version scorer lessons fingerprint blob =
     bind_r (unpack_from HEADER blob 0) (\<lambda>(h, o1).
     if map int_of (take 4 h) \<noteq> MAGIC \<or> int_of (h ! 4) \<noteq> VERSION then Inr None
     else
       let taglen = nat (int_of (h ! 5)) in
       if cut blob o1 taglen \<noteq> tag_of scorer version then Inr None
       else
         bind_r (unpack_from META blob (o1 + taglen)) (\<lambda>(m, o2).
         let n_docs = nat (int_of (m ! 0)) in
         if n_docs \<noteq> length lessons \<or> n_docs \<noteq> length fingerprint then Inr None
         else
           bind_r (unpack_from COUNT blob o2) (\<lambda>(c, o3).
           if nat (int_of (c ! 0)) \<noteq> n_docs then Inr None
           else
             bind_r (check_paths blob o3 fingerprint lessons) (\<lambda>checked.
             case checked of
               None \<Rightarrow> Inr None
             | Some o4 \<Rightarrow>
                 bind_r (unpack_from COUNT blob o4) (\<lambda>(v, o5).
                 bind_r (read_many read_term (nat (int_of (v ! 0))) blob o5) (\<lambda>(ps, o6).
                 bind_r (unpack_from (replicate n_docs (U 4)) blob o6) (\<lambda>(a, o7).
                 bind_r (unpack_from (replicate n_docs D) blob o7) (\<lambda>(b, o8).
                 bind_r (unpack_from (replicate n_docs (S 4)) blob o8) (\<lambda>(x, o9).
                 bind_r (unpack_from (replicate n_docs (S 4)) blob o9) (\<lambda>(y, o10).
                 if o10 \<noteq> length blob then Inr None
                 else Inr (Some \<lparr>ix_n_terms = map int_of a, ix_postings = foldl (\<lambda>d (t, df, ps). dset d t ps) [] ps,
                        ix_doc_freq = foldl (\<lambda>d (t, df, ps). dset d t df) [] ps, ix_n_docs = n_docs,
                        ix_avg_field_len = bits_of (m ! 1), ix_max_idf = bits_of (m ! 2), ix_length_factors = map bits_of b,
                        ix_tie_breaks = zip (map int_of x) (map int_of y)\<rparr>)))))))))))"

definition load :: "string \<Rightarrow> string \<Rightarrow> string list \<Rightarrow> stamp list \<Rightarrow> octets option \<Rightarrow> index option result" where
  "load version scorer lessons fingerprint file =
     (case file of
        None \<Rightarrow> Inr None
      | Some blob \<Rightarrow>
          (case load_body version scorer lessons fingerprint blob of
             Inr r \<Rightarrow> Inr r
           | Inl e \<Rightarrow> if e \<in> {StructError, ValueError, IndexError} then Inr None else Inl e))"

section \<open>Readers that undo writers\<close>

text \<open>
  What the format relies on: a reader returns the value written at its offset and the offset behind it, does not depend
  on what follows, and never moves backwards.
\<close>

locale codec =
  fixes valid :: "'a \<Rightarrow> bool"
    and emit :: "'a \<Rightarrow> octets result"
    and read :: "octets \<Rightarrow> nat \<Rightarrow> ('a \<times> nat) result"
  assumes read_back: "valid a \<Longrightarrow> emit a = Inr bs \<Longrightarrow> read (pre @ bs @ post) (length pre) = Inr (a, length pre + length bs)"
    and read_forward: "read blob off = Inr (a, o') \<Longrightarrow> off \<le> o'"
    and read_stable: "read blob off = Inr (a, o') \<Longrightarrow> o' \<le> length blob \<Longrightarrow> read (blob @ extra) off = Inr (a, o')"
begin

lemma many_back:
  assumes "list_all valid xs" "map_r emit xs = Inr bss"
  shows "read_many read (length xs) (pre @ concat bss @ post) (length pre) = Inr (xs, length pre + length (concat bss))"
  using assms
proof (induction xs arbitrary: bss pre)
  case (Cons x xs)
  then obtain bs rest where w: "emit x = Inr bs" "map_r emit xs = Inr rest" "bss = bs # rest" by (auto simp: bind_r_Inr)
  from read_back [OF _ w(1), of pre "concat rest @ post"] Cons.IH [OF _ w(2), of "pre @ bs"] Cons.prems(1) show ?case by (simp add: w(3))
qed simp

lemma many_forward: "read_many read n blob off = Inr (xs, o') \<Longrightarrow> off \<le> o'"
  by (induction n arbitrary: off xs) (fastforce simp: bind_r_Inr dest: read_forward)+

lemma many_stable: "read_many read n blob off = Inr (xs, o') \<Longrightarrow> o' \<le> length blob \<Longrightarrow> read_many read n (blob @ extra) off = Inr (xs, o')"
proof (induction n arbitrary: off xs)
  case (Suc n)
  from Suc.prems(1) obtain x o1 ys where r: "read blob off = Inr (x, o1)" "read_many read n blob o1 = Inr (ys, o')" "xs = x # ys" by (auto simp: bind_r_Inr)
  have "o1 \<le> length blob" using many_forward [OF r(2)] Suc.prems(2) by simp
  from read_stable [OF r(1) this] Suc.IH [OF r(2) Suc.prems(2)] show ?case by (simp add: r(3))
qed simp

end

section \<open>The struct formats\<close>

lemma length_le_bytes [simp]: "length (le_bytes k n) = k"
  by (induction k n rule: le_bytes.induct) simp_all

lemma le_value_le_bytes: "n < 256 ^ k \<Longrightarrow> le_value (le_bytes k n) = n"
proof (induction k n rule: le_bytes.induct)
  case (2 k n)
  then have "n div 256 < 256 ^ k" by (simp add: less_mult_imp_div_less mult.commute)
  with 2(1) show ?case by (simp add: unsigned_of_nat take_bit_eq_mod)
qed simp

lemma length_pack_field: "pack_field f v = Inr bs \<Longrightarrow> length bs = field_width f"
  by (cases "(f, v)" rule: pack_field.cases) (auto simp: guard_r_Inr)

lemma unpack_pack_field:
  assumes "pack_field f v = Inr bs"
  shows "unpack_field f bs = v"
proof (cases "(f, v)" rule: pack_field.cases)
  case (1 w i)
  then have "0 \<le> i" "nat i < 256 ^ w" "bs = le_bytes w (nat i)" using assms by (auto simp: guard_r_Inr nat_less_iff)
  then show ?thesis using 1 by (simp add: le_value_le_bytes)
next
  case (2 w i)
  then have i: "- (256 ^ w div 2) \<le> i" "i < 256 ^ w div 2" "bs = le_bytes w (nat (i mod 256 ^ w))" using assms by (auto simp: guard_r_Inr)
  have "nat (i mod 256 ^ w) < 256 ^ w" by (simp add: nat_less_iff)
  then have v: "int (le_value bs) = i mod 256 ^ w" by (simp add: i(3) le_value_le_bytes)
  show ?thesis
  proof (cases "0 \<le> i")
    case True
    then have "i mod 256 ^ w = i" using i(2) by (intro mod_pos_pos_trivial) auto
    then show ?thesis using 2 v i(2) by simp
  next
    case False
    then have "(i + 256 ^ w) mod 256 ^ w = i + 256 ^ w" using i(1) by (intro mod_pos_pos_trivial) auto
    then have "i mod 256 ^ w = i + 256 ^ w" by simp
    moreover have "\<not> i + 256 ^ w < 256 ^ w div 2" using i(1) by linarith
    ultimately show ?thesis using 2 v by simp
  qed
next
  case (3 x)
  have "unat x < 256 ^ 8" using unsigned_less [of x] by simp
  then have "le_value (le_bytes 8 (unat x)) = unat x" by (rule le_value_le_bytes)
  then show ?thesis using 3 assms by auto
qed (use assms in auto)

lemma length_pack: "pack fmt vs = Inr bs \<Longrightarrow> length bs = calcsize fmt"
  by (induction fmt vs arbitrary: bs rule: pack.induct) (auto simp: bind_r_Inr calcsize_def dest: length_pack_field)

lemma unpack_pack: "pack fmt vs = Inr bs \<Longrightarrow> unpack fmt bs = vs"
proof (induction fmt vs arbitrary: bs rule: pack.induct)
  case (2 f fs v vs)
  then obtain a b where "pack_field f v = Inr a" "pack fs vs = Inr b" "bs = a @ b" by (auto simp: bind_r_Inr)
  with 2(1) show ?case using length_pack_field unpack_pack_field by simp
qed auto

interpretation struct: codec "\<lambda>_. True" "pack fmt" "unpack_from fmt" for fmt
proof
  show "unpack_from fmt (pre @ bs @ post) (length pre) = Inr (a, length pre + length bs)" if "pack fmt a = Inr bs" for a bs pre post
    using length_pack [OF that] unpack_pack [OF that] by (simp add: unpack_from_def)
  show "off \<le> o'" if "unpack_from fmt blob off = Inr (a, o')" for blob off a o'
    using that by (simp add: unpack_from_def guard_r_Inr)
  show "unpack_from fmt (blob @ extra) off = Inr (a, o')" if "unpack_from fmt blob off = Inr (a, o')" for blob off a o' extra
    using that by (simp add: unpack_from_def guard_r_Inr) 
qed

section \<open>Terms and paths\<close>

lemma chars_bytes [simp]: "chars_of (bytes_of s) = s"
proof -
  have "char_of (unat (of_char c :: 8 word)) = c" for c
  proof -
    have "unat (word_of_nat (of_char c) :: 8 word) = of_char c" using of_char_lt [of c] by (simp add: unsigned_of_nat take_bit_eq_mod)
    then have "unat (of_char c :: 8 word) = of_char c" by (simp only: of_nat_of_char)
    then show ?thesis by simp
  qed
  then show ?thesis by (induction s) (simp_all add: chars_of_def bytes_of_def)
qed

lemma length_bytes_of [simp]: "length (bytes_of s) = length s"
  by (simp add: bytes_of_def)

text \<open>A Python text: its bytes decode.\<close>

definition is_text :: "string \<Rightarrow> bool" where
  "is_text s \<longleftrightarrow> utf8 0 0 0 (map unat (bytes_of s))"

lemma decode_bytes: "is_text s \<Longrightarrow> decode (bytes_of s) = Inr s"
  by (simp add: decode_def is_text_def)

lemma decode_Inr: "decode bs = Inr s \<Longrightarrow> s = chars_of bs"
  by (simp add: decode_def guard_r_Inr)

lemma cut_at: "length pre = off \<Longrightarrow> cut (pre @ bs @ post) off (length bs) = bs"
  by (auto simp: cut_def)

lemma cut_stable: "off + n \<le> length blob \<Longrightarrow> cut (blob @ extra) off n = cut blob off n"
  by (simp add: cut_def)

lemma map_num [simp]: "map (int_of \<circ> N) xs = xs" "map (bits_of \<circ> F) ys = ys"
  by (induction xs) (simp_all, induction ys, simp_all)

lemma unpack_from_end: "unpack_from fmt blob off = Inr (vs, o') \<Longrightarrow> o' = off + calcsize fmt \<and> o' \<le> length blob"
  by (simp add: unpack_from_def guard_r_Inr)

lemma read_term_back:
  assumes "is_text (fst p)" "write_term p = Inr bs"
  shows "read_term (pre @ bs @ post) (length pre) = Inr (p, length pre + length bs)"
proof -
  obtain t df docs wsums bests where p: "p = (t, df, docs, wsums, bests)" by (cases p) auto
  from assms(2) obtain h a b c where w: "pack TERM_HEAD [N (int (length t)), N df, N (int (length docs))] = Inr h"
    "pack (replicate (length docs) (U 4)) (map N docs) = Inr a" "pack (replicate (length docs) D) (map F wsums) = Inr b"
    "pack (replicate (length docs) D) (map F bests) = Inr c" "bs = h @ bytes_of t @ a @ b @ c"
    unfolding write_term_def p by (auto simp: bind_r_Inr)
  note rd = struct.read_back [OF TrueI w(1), of pre "bytes_of t @ a @ b @ c @ post"]
    struct.read_back [OF TrueI w(2), of "pre @ h @ bytes_of t" "b @ c @ post"]
    struct.read_back [OF TrueI w(3), of "pre @ h @ bytes_of t @ a" "c @ post"]
    struct.read_back [OF TrueI w(4), of "pre @ h @ bytes_of t @ a @ b" "post"]
  have "cut (pre @ h @ bytes_of t @ a @ b @ c @ post) (length pre + length h) (length t) = bytes_of t"
    using cut_at [of "pre @ h" "length pre + length h" "bytes_of t" "a @ b @ c @ post"] by simp
  then show ?thesis
    using rd decode_bytes assms(1) unfolding read_term_def w(5) by (simp add: p ac_simps)
qed

lemma read_term_Inr:
  "read_term blob off = Inr (p, o4) \<longleftrightarrow> (\<exists>h o1 t docs o2 wsums o3 bests.
     unpack_from TERM_HEAD blob off = Inr (h, o1) \<and> decode (cut blob o1 (nat (int_of (h ! 0)))) = Inr t
      \<and> unpack_from (replicate (nat (int_of (h ! 2))) (U 4)) blob (o1 + nat (int_of (h ! 0))) = Inr (docs, o2)
      \<and> unpack_from (replicate (nat (int_of (h ! 2))) D) blob o2 = Inr (wsums, o3) \<and> unpack_from (replicate (nat (int_of (h ! 2))) D) blob o3 = Inr (bests, o4)
      \<and> p = (t, int_of (h ! 1), map int_of docs, map bits_of wsums, map bits_of bests))"
  unfolding read_term_def Let_def by (auto simp: bind_r_Inr)

interpretation posting: codec "\<lambda>p. is_text (fst p)" write_term read_term
proof
  show "read_term (pre @ bs @ post) (length pre) = Inr (p, length pre + length bs)" if "is_text (fst p)" "write_term p = Inr bs" for p bs pre post
    using that by (rule read_term_back)
  show "off \<le> o'" if "read_term blob off = Inr (p, o')" for blob off p o'
    using that unfolding read_term_Inr by (auto dest!: unpack_from_end)
  show "read_term (blob @ extra) off = Inr (p, o')" if r: "read_term blob off = Inr (p, o')" for blob off p o' extra
  proof -
    from r obtain h o1 t docs o2 wsums o3 bests where k: "unpack_from TERM_HEAD blob off = Inr (h, o1)" "decode (cut blob o1 (nat (int_of (h ! 0)))) = Inr t"
      "unpack_from (replicate (nat (int_of (h ! 2))) (U 4)) blob (o1 + nat (int_of (h ! 0))) = Inr (docs, o2)"
      "unpack_from (replicate (nat (int_of (h ! 2))) D) blob o2 = Inr (wsums, o3)" "unpack_from (replicate (nat (int_of (h ! 2))) D) blob o3 = Inr (bests, o')"
      "p = (t, int_of (h ! 1), map int_of docs, map bits_of wsums, map bits_of bests)" unfolding read_term_Inr by blast
    have e: "o1 \<le> length blob" "o1 + nat (int_of (h ! 0)) \<le> length blob" "o2 \<le> length blob" "o3 \<le> length blob" "o' \<le> length blob"
      using unpack_from_end [OF k(1)] unpack_from_end [OF k(3)] unpack_from_end [OF k(4)] unpack_from_end [OF k(5)] by linarith+
    show ?thesis
      using k(2) by (subst read_term_Inr) (use struct.read_stable [OF k(1) e(1)] struct.read_stable [OF k(3) e(3)] struct.read_stable [OF k(4) e(4)]
          struct.read_stable [OF k(5) e(5)] cut_stable [OF e(2)] k(6) in fastforce)
  qed
qed

lemma write_path_Inr:
  "write_path (path, identity) = Inr bs \<longleftrightarrow>
     (\<exists>s. length identity = 5 \<and> pack PATH_STAMP (N (int (length path)) # map N identity) = Inr s \<and> bs = s @ bytes_of path)"
  by (auto simp: write_path_def guard_r_Inr bind_r_Inr)

text \<open>Written stamps pass the check of exactly the files they were written for.\<close>

lemma check_paths_back:
  assumes "map_r write_path written = Inr bss" "list_all (\<lambda>e. is_text (fst e)) written" "length fs = length written" "length ls = length written"
  shows "check_paths (pre @ concat bss @ post) (length pre) fs ls
    = Inr (if fs = written \<and> ls = map fst written then Some (length pre + length (concat bss)) else None)"
  using assms
proof (induction written arbitrary: bss pre fs ls)
  case (Cons e written)
  obtain path identity where e: "e = (path, identity)" by (cases e)
  from Cons.prems(1) e obtain s rest where w: "pack PATH_STAMP (N (int (length path)) # map N identity) = Inr s" "map_r write_path written = Inr rest"
    "bss = (s @ bytes_of path) # rest" by (auto simp: bind_r_Inr write_path_Inr)
  from Cons.prems(3,4) obtain fpath fid fs' l ls' where f: "fs = (fpath, fid) # fs'" "ls = l # ls'" "length fs' = length written" "length ls' = length written"
    by (cases fs; cases ls) auto
  have stamp: "unpack_from PATH_STAMP (pre @ s @ bytes_of path @ concat rest @ post) (length pre) = Inr (N (int (length path)) # map N identity, length pre + length s)"
    using struct.read_back [OF TrueI w(1), of pre "bytes_of path @ concat rest @ post"] by simp
  have "cut (pre @ s @ bytes_of path @ concat rest @ post) (length pre + length s) (length path) = bytes_of path"
    using cut_at [of "pre @ s" "length pre + length s" "bytes_of path" "concat rest @ post"] by simp
  moreover have "decode (bytes_of path) = Inr path" using Cons.prems(2) e decode_bytes by simp
  moreover have "check_paths (pre @ s @ bytes_of path @ concat rest @ post) (length pre + length s + length path) fs' ls'
      = Inr (if fs' = written \<and> ls' = map fst written then Some (length pre + length s + length path + length (concat rest)) else None)"
    using Cons.IH [OF w(2) _ f(3,4), of "pre @ s @ bytes_of path"] Cons.prems(2) by (simp add: add.assoc)
  moreover have "length pre + length (concat bss) = length pre + length s + length path + length (concat rest)" by (simp add: w(3))
  moreover have "pre @ concat bss @ post = pre @ s @ bytes_of path @ concat rest @ post" by (simp add: w(3))
  ultimately show ?case using stamp unfolding f(1,2) e check_paths.simps Let_def
    by (cases "fpath = path \<and> fid = identity \<and> l = path") (simp_all split del: if_split, auto)
qed simp

lemma check_paths_moves:
  "check_paths blob off fs ls = Inr (Some o') \<Longrightarrow> off \<le> o' \<and> (o' \<le> length blob \<longrightarrow> check_paths (blob @ extra) off fs ls = Inr (Some o'))"
proof (induction blob off fs ls rule: check_paths.induct)
  case (3 blob off fpath identity fs l ls)
  then obtain s o1 where s: "unpack_from PATH_STAMP blob off = Inr (s, o1)" "decode (cut blob o1 (nat (int_of (hd s)))) = Inr fpath"
    "map int_of (tl s) = identity" "fpath = l" "check_paths blob (o1 + nat (int_of (hd s))) fs ls = Inr (Some o')"
    by (auto simp: bind_r_Inr Let_def split: if_split_asm)
  from 3(1) [OF s(1) refl refl s(2)] s(3,4,5) have ih: "o1 + nat (int_of (hd s)) \<le> o'"
    "o' \<le> length blob \<Longrightarrow> check_paths (blob @ extra) (o1 + nat (int_of (hd s))) fs ls = Inr (Some o')" by auto
  have o1: "off \<le> o1" "o1 \<le> length blob" using unpack_from_end [OF s(1)] by auto
  have "check_paths (blob @ extra) off ((fpath, identity) # fs) (l # ls) = Inr (Some o')" if "o' \<le> length blob"
    using struct.read_stable [OF s(1) o1(2)] s(2-4) ih(2) [OF that] cut_stable [of o1 "nat (int_of (hd s))" blob extra] ih(1) that by simp
  with ih(1) o1(1) show ?case by auto
qed auto

section \<open>The whole file\<close>

lemma load_body_Some:
  "load_body version scorer lessons fingerprint blob = Inr (Some ix) \<longleftrightarrow> (\<exists>h o1 m o2 c o3 o4 v o5 ps o6 a o7 b o8 x o9 y.
     unpack_from HEADER blob 0 = Inr (h, o1) \<and> map int_of (take 4 h) = MAGIC \<and> int_of (h ! 4) = VERSION
      \<and> cut blob o1 (nat (int_of (h ! 5))) = tag_of scorer version
      \<and> unpack_from META blob (o1 + nat (int_of (h ! 5))) = Inr (m, o2)
      \<and> nat (int_of (m ! 0)) = length lessons \<and> nat (int_of (m ! 0)) = length fingerprint
      \<and> unpack_from COUNT blob o2 = Inr (c, o3) \<and> nat (int_of (c ! 0)) = length fingerprint
      \<and> check_paths blob o3 fingerprint lessons = Inr (Some o4) \<and> unpack_from COUNT blob o4 = Inr (v, o5)
      \<and> read_many read_term (nat (int_of (v ! 0))) blob o5 = Inr (ps, o6)
      \<and> unpack_from (replicate (length fingerprint) (U 4)) blob o6 = Inr (a, o7) \<and> unpack_from (replicate (length fingerprint) D) blob o7 = Inr (b, o8)
      \<and> unpack_from (replicate (length fingerprint) (S 4)) blob o8 = Inr (x, o9) \<and> unpack_from (replicate (length fingerprint) (S 4)) blob o9 = Inr (y, length blob)
      \<and> ix = \<lparr>ix_n_terms = map int_of a, ix_postings = foldl (\<lambda>d (t, df, ps). dset d t ps) [] ps,
             ix_doc_freq = foldl (\<lambda>d (t, df, ps). dset d t df) [] ps, ix_n_docs = length fingerprint,
             ix_avg_field_len = bits_of (m ! 1), ix_max_idf = bits_of (m ! 2), ix_length_factors = map bits_of b,
             ix_tie_breaks = zip (map int_of x) (map int_of y)\<rparr>)" (is "?l \<longleftrightarrow> ?r")
proof
  assume ?l
  then show ?r unfolding load_body_def bind_r_Inr Let_def
    by (auto simp: bind_r_Inr split: if_split_asm option.split_asm)
next
  assume ?r
  then show ?l by (elim exE conjE) (simp add: load_body_def)
qed

lemma map_r_bind: "map_r (\<lambda>x. bind_r (f x) g) xs = Inr ys \<Longrightarrow> \<exists>zs. map_r f xs = Inr zs \<and> map_r g zs = Inr ys"
proof (induction xs arbitrary: ys)
  case (Cons x xs)
  then obtain z y ys' where "f x = Inr z" "g z = Inr y" "map_r (\<lambda>x. bind_r (f x) g) xs = Inr ys'" "ys = y # ys'" by (auto simp: bind_r_Inr)
  moreover from Cons.IH [OF this(3)] obtain zs where "map_r f xs = Inr zs" "map_r g zs = Inr ys'" by blast
  ultimately show ?case by auto
qed simp

lemma dset_new_key: "k \<notin> set (map fst d) \<Longrightarrow> dset d k v = d @ [(k, v)]"
  by (induction d k v rule: dset.induct) auto

lemma foldl_dset:
  "distinct (map fst d @ map key xs) \<Longrightarrow> foldl (\<lambda>d x. dset d (key x) (val x)) d xs = d @ map (\<lambda>x. (key x, val x)) xs"
proof (induction xs arbitrary: d)
  case (Cons x xs)
  then have "dset d (key x) (val x) = d @ [(key x, val x)]" by (intro dset_new_key) auto
  with Cons show ?case by simp
qed simp

text \<open>The index as the file keeps it: postings and document frequencies in the order of the terms.\<close>

definition canonical :: "nat \<Rightarrow> index \<Rightarrow> index" where
  "canonical n ix = ix \<lparr>ix_postings := vocab ix, ix_doc_freq := map (\<lambda>p. (fst p, the (map_of (ix_doc_freq ix) (fst p)))) (vocab ix), ix_n_docs := n\<rparr>"

lemma postings_of_vocab:
  assumes "map_r (posting_of ix) ps = Inr qs"
  shows "qs = map (\<lambda>p. (fst p, the (map_of (ix_doc_freq ix) (fst p)), snd p)) ps"
  by (rule map_r_id [OF assms]) (auto simp: posting_of_def split: option.split_asm)

lemma load_saved:
  assumes "save_blob version scorer fp ix = Inr (Some blob)" "list_all (\<lambda>e. is_text (fst e)) fp" "list_all (\<lambda>p. is_text (fst p)) (ix_postings ix)"
    and "distinct (map fst (ix_postings ix))"
  shows "load_body version scorer lessons fs blob = Inr (if fs = fp \<and> lessons = map fst fp then Some (canonical (length fp) ix) else None)"
proof -
  let ?n = "length fp" and ?tag = "tag_of scorer version"
  from assms(1) obtain header meta count paths sz terms a b c d where
    w: "pack HEADER (map N MAGIC @ [N VERSION, N (int (length ?tag))]) = Inr header"
      "pack META [N (int ?n), F (ix_avg_field_len ix), F (ix_max_idf ix)] = Inr meta" "pack COUNT [N (int ?n)] = Inr count"
      "map_r write_path fp = Inr paths" "pack COUNT [N (int (length (vocab ix)))] = Inr sz"
      "map_r (\<lambda>p. bind_r (posting_of ix p) write_term) (vocab ix) = Inr terms"
      "pack (replicate ?n (U 4)) (map N (ix_n_terms ix)) = Inr a" "pack (replicate ?n D) (map F (ix_length_factors ix)) = Inr b"
      "pack (replicate ?n (S 4)) (map (\<lambda>t. N (fst t)) (ix_tie_breaks ix)) = Inr c" "pack (replicate ?n (S 4)) (map (\<lambda>t. N (snd t)) (ix_tie_breaks ix)) = Inr d"
    and blob: "blob = header @ ?tag @ meta @ count @ concat paths @ sz @ concat terms @ a @ b @ c @ d"
    unfolding save_blob_def Let_def by (auto simp: bind_r_Inr split: if_split_asm)
  from map_r_bind [OF w(6)] obtain qs where qs: "map_r (posting_of ix) (vocab ix) = Inr qs" "map_r write_term qs = Inr terms" by blast
  note q = postings_of_vocab [OF qs(1)]
  have texts: "list_all (\<lambda>p. is_text (fst p)) qs" using assms(3) by (simp add: q list_all_iff vocab_def)
  let ?o1 = "length header" let ?o2 = "?o1 + length ?tag + length meta" let ?o3 = "?o2 + length count" let ?o4 = "?o3 + length (concat paths)"
  let ?o5 = "?o4 + length sz" let ?o6 = "?o5 + length (concat terms)" let ?o7 = "?o6 + length a" let ?o8 = "?o7 + length b" let ?o9 = "?o8 + length c"
  have r1: "unpack_from HEADER blob 0 = Inr (map N MAGIC @ [N VERSION, N (int (length ?tag))], ?o1)"
    using struct.read_back [OF TrueI w(1), of "[]" "?tag @ meta @ count @ concat paths @ sz @ concat terms @ a @ b @ c @ d"] by (simp add: blob add.assoc)
  have tag: "cut blob ?o1 (length ?tag) = ?tag"
    using cut_at [of header ?o1 ?tag "meta @ count @ concat paths @ sz @ concat terms @ a @ b @ c @ d"] by (simp add: blob)
  have r2: "unpack_from META blob (?o1 + length ?tag) = Inr ([N (int ?n), F (ix_avg_field_len ix), F (ix_max_idf ix)], ?o2)"
    using struct.read_back [OF TrueI w(2), of "header @ ?tag" "count @ concat paths @ sz @ concat terms @ a @ b @ c @ d"] by (simp add: blob add.assoc)
  have r3: "unpack_from COUNT blob ?o2 = Inr ([N (int ?n)], ?o3)"
    using struct.read_back [OF TrueI w(3), of "header @ ?tag @ meta" "concat paths @ sz @ concat terms @ a @ b @ c @ d"] by (simp add: blob add.assoc)
  have r5: "unpack_from COUNT blob ?o4 = Inr ([N (int (length (vocab ix)))], ?o5)"
    using struct.read_back [OF TrueI w(5), of "header @ ?tag @ meta @ count @ concat paths" "concat terms @ a @ b @ c @ d"] by (simp add: blob add.assoc)
  have r7: "unpack_from (replicate ?n (U 4)) blob ?o6 = Inr (map N (ix_n_terms ix), ?o7)"
    using struct.read_back [OF TrueI w(7), of "header @ ?tag @ meta @ count @ concat paths @ sz @ concat terms" "b @ c @ d"] by (simp add: blob add.assoc)
  have r8: "unpack_from (replicate ?n D) blob ?o7 = Inr (map F (ix_length_factors ix), ?o8)"
    using struct.read_back [OF TrueI w(8), of "header @ ?tag @ meta @ count @ concat paths @ sz @ concat terms @ a" "c @ d"] by (simp add: blob add.assoc)
  have r9: "unpack_from (replicate ?n (S 4)) blob ?o8 = Inr (map (\<lambda>t. N (fst t)) (ix_tie_breaks ix), ?o9)"
    using struct.read_back [OF TrueI w(9), of "header @ ?tag @ meta @ count @ concat paths @ sz @ concat terms @ a @ b" "d"] by (simp add: blob add.assoc)
  have r10: "unpack_from (replicate ?n (S 4)) blob ?o9 = Inr (map (\<lambda>t. N (snd t)) (ix_tie_breaks ix), length blob)"
    using struct.read_back [OF TrueI w(10), of "header @ ?tag @ meta @ count @ concat paths @ sz @ concat terms @ a @ b @ c" "[]"] by (simp add: blob add.assoc)
  note r = r1 tag r2 r3 r5 r7 r8 r9 r10
  have terms: "read_many read_term (length (vocab ix)) blob ?o5 = Inr (qs, ?o6)"
    using posting.many_back [OF texts qs(2), of "header @ ?tag @ meta @ count @ concat paths @ sz" "a @ b @ c @ d"] by (simp add: blob q add.assoc)
  have paths: "check_paths blob ?o3 fs lessons = Inr (if fs = fp \<and> lessons = map fst fp then Some ?o4 else None)" if "length fs = ?n" "length lessons = ?n"
    using check_paths_back [OF w(4) assms(2) that, of "header @ ?tag @ meta @ count" "sz @ concat terms @ a @ b @ c @ d"] by (simp add: blob add.assoc)
  show ?thesis
  proof (cases "fs = fp \<and> lessons = map fst fp")
    case True
    have dq: "distinct (map fst qs)" using assms(4) by (simp add: q vocab_def comp_def distinct_map)
    have "foldl (\<lambda>d (t, df, ps). dset d t ps) [] qs = vocab ix"
      using foldl_dset [of "[]" fst qs "\<lambda>p. snd (snd p)"] dq by (simp add: q case_prod_unfold comp_def)
    moreover have "foldl (\<lambda>d (t, df, ps). dset d t df) [] qs = ix_doc_freq (canonical ?n ix)"
      using foldl_dset [of "[]" fst qs "\<lambda>p. fst (snd p)"] dq by (simp add: q case_prod_unfold comp_def canonical_def)
    moreover have "zip (map (int_of \<circ> (\<lambda>t. N (fst t))) ts) (map (int_of \<circ> (\<lambda>t. N (snd t))) ts) = ts" for ts :: "(int \<times> int) list"
      by (induction ts) simp_all
    ultimately show ?thesis using True r paths terms by (simp add: load_body_def MAGIC_def canonical_def)
  next
    case False
    show ?thesis
    proof (cases "length fs = ?n \<and> length lessons = ?n")
      case True
      then show ?thesis using False r paths by (auto simp: load_body_def MAGIC_def)
    next
      case l: False
      then show ?thesis using False r by (auto simp: load_body_def MAGIC_def)
    qed
  qed
qed

lemma load_body_stable:
  assumes "load_body version scorer lessons fs blob = Inr (Some ix)" "extra \<noteq> []"
  shows "load_body version scorer lessons fs (blob @ extra) = Inr None"
proof -
  let ?n = "length fs"
  from assms(1) obtain h o1 m o2 c o3 o4 v o5 ps o6 a o7 b o8 x o9 y where
    k: "unpack_from HEADER blob 0 = Inr (h, o1)" "unpack_from META blob (o1 + nat (int_of (h ! 5))) = Inr (m, o2)" "unpack_from COUNT blob o2 = Inr (c, o3)"
      "unpack_from COUNT blob o4 = Inr (v, o5)" "unpack_from (replicate ?n (U 4)) blob o6 = Inr (a, o7)" "unpack_from (replicate ?n D) blob o7 = Inr (b, o8)"
      "unpack_from (replicate ?n (S 4)) blob o8 = Inr (x, o9)" "unpack_from (replicate ?n (S 4)) blob o9 = Inr (y, length blob)"
    and g: "map int_of (take 4 h) = MAGIC" "int_of (h ! 4) = VERSION" "cut blob o1 (nat (int_of (h ! 5))) = tag_of scorer version"
      "nat (int_of (m ! 0)) = length lessons" "nat (int_of (m ! 0)) = ?n" "nat (int_of (c ! 0)) = ?n"
    and p: "check_paths blob o3 fs lessons = Inr (Some o4)" and t: "read_many read_term (nat (int_of (v ! 0))) blob o5 = Inr (ps, o6)"
    unfolding load_body_Some by blast
  note e = k [THEN unpack_from_end]
  have tag: "o1 + nat (int_of (h ! 5)) \<le> length blob" "o4 \<le> length blob" "o6 \<le> length blob" using e by linarith+
  have s: "unpack_from fmt (blob @ extra) off = Inr (vs, o')" if "unpack_from fmt blob off = Inr (vs, o')" for fmt off vs o'
    using struct.read_stable [OF that] unpack_from_end [OF that] by simp
  show ?thesis
    using k [THEN s] g cut_stable [OF tag(1)] check_paths_moves [OF p] tag(2) posting.many_stable [OF t tag(3)] assms(2)
    by (simp add: load_body_def)
qed

lemma unpack_from_raises: "unpack_from fmt blob off = Inl e \<Longrightarrow> e = StructError"
  by (simp add: unpack_from_def guard_r_Inl)

lemma decode_raises: "decode bs = Inl e \<Longrightarrow> e = ValueError"
  by (simp add: decode_def guard_r_Inl)

lemma check_paths_raises: "check_paths blob off fs ls = Inl e \<Longrightarrow> e \<in> {StructError, ValueError, IndexError}"
  by (induction blob off fs ls rule: check_paths.induct)
    (auto simp: bind_r_Inl Let_def split: if_split_asm dest: unpack_from_raises decode_raises)

lemma read_terms_raises: "read_many read_term n blob off = Inl e \<Longrightarrow> e \<in> {StructError, ValueError}"
  by (induction n arbitrary: off)
    (auto simp: bind_r_Inl read_term_def Let_def dest: unpack_from_raises decode_raises)

lemma load_returns: "\<exists>r. load version scorer lessons fs file = Inr r"
proof -
  have "e \<in> {StructError, ValueError, IndexError}" if "load_body version scorer lessons fs blob = Inl e" for blob e
    using that unfolding load_body_def
    by (auto simp: bind_r_Inl Let_def split: if_split_asm option.split_asm dest: unpack_from_raises check_paths_raises read_terms_raises)
  then show ?thesis by (auto simp: load_def split: option.split sum.split)
qed

section \<open>The property\<close>

text \<open>
  C32: The persisted index is what was built, and is used only for what it was built from. A saved index is loaded
  as it was, its postings sorted, exactly for the same file stamps and lessons, and not at all under another scorer
  or version; no proper prefix and no extension of the saved file is accepted for them. Loading returns on every
  file whatever its bytes: it never raises.
\<close>

theorem corpus_index_roundtrip:
  assumes "save version scorer fp ix file = (file', Inr True)" "list_all (\<lambda>e. is_text (fst e)) fp" "list_all (\<lambda>p. is_text (fst p)) (ix_postings ix)"
    and "distinct (map fst (ix_postings ix))"
  shows "(\<forall>lessons fs. load version scorer lessons fs file' = Inr (if fs = fp \<and> lessons = map fst fp then Some (canonical (length fp) ix) else None))
    \<and> (\<forall>version' scorer' lessons fs. tag_of scorer' version' \<noteq> tag_of scorer version \<longrightarrow> load version' scorer' lessons fs file' = Inr None)
    \<and> (\<forall>blob other. file' = Some blob \<longrightarrow> strict_prefix other blob \<or> strict_prefix blob other \<longrightarrow> load version scorer (map fst fp) fp (Some other) = Inr None)
    \<and> (\<forall>version' scorer' lessons fs file''. \<exists>r. load version' scorer' lessons fs file'' = Inr r)"
proof -
  from assms(1) obtain blob where b: "save_blob version scorer fp ix = Inr (Some blob)" "file' = Some blob"
    by (auto simp: save_def split: sum.split_asm option.split_asm if_split_asm)
  note l = load_saved [OF b(1) assms(2-4)]
  have same: "load version scorer lessons fs file' = Inr (if fs = fp \<and> lessons = map fst fp then Some (canonical (length fp) ix) else None)" for lessons fs
    by (simp add: load_def b(2) l)
  have other: "load version' scorer' lessons fs file' = Inr None" if "tag_of scorer' version' \<noteq> tag_of scorer version" for version' scorer' lessons fs
  proof (rule ccontr)
    assume "load version' scorer' lessons fs file' \<noteq> Inr None"
    with load_returns [of version' scorer' lessons fs file'] obtain r where "load version' scorer' lessons fs file' = Inr (Some r)" by (metis option.exhaust)
    then have "load_body version' scorer' lessons fs blob = Inr (Some r)" by (auto simp: load_def b(2) split: sum.split_asm if_split_asm)
    then obtain h o1 where "unpack_from HEADER blob 0 = Inr (h, o1)" "cut blob o1 (nat (int_of (h ! 5))) = tag_of scorer' version'"
      unfolding load_body_Some by blast
    moreover obtain h' o1' where "unpack_from HEADER blob 0 = Inr (h', o1')" "cut blob o1' (nat (int_of (h' ! 5))) = tag_of scorer version"
      using l [of "map fst fp" fp] unfolding load_body_Some [of version scorer "map fst fp" fp blob, symmetric] by (auto simp: load_body_Some)
    ultimately show False using that by simp
  qed
  have cut: "load version scorer (map fst fp) fp (Some b') = Inr None" if "strict_prefix b' blob \<or> strict_prefix blob b'" for b'
  proof (rule ccontr)
    assume "load version scorer (map fst fp) fp (Some b') \<noteq> Inr None"
    with load_returns [of version scorer "map fst fp" fp "Some b'"] obtain r where "load version scorer (map fst fp) fp (Some b') = Inr (Some r)" by (metis option.exhaust)
    then have r: "load_body version scorer (map fst fp) fp b' = Inr (Some r)" by (auto simp: load_def split: sum.split_asm if_split_asm)
    from that show False
    proof
      assume "strict_prefix b' blob"
      then obtain ys where "blob = b' @ ys" "ys \<noteq> []" by (auto simp: strict_prefix_def prefix_def)
      with load_body_stable [OF r] l [of "map fst fp" fp] show False by simp
    next
      assume "strict_prefix blob b'"
      then obtain ys where "b' = blob @ ys" "ys \<noteq> []" by (auto simp: strict_prefix_def prefix_def)
      moreover have "load_body version scorer (map fst fp) fp blob = Inr (Some (canonical (length fp) ix))" using l [of "map fst fp" fp] by simp
      ultimately show False using load_body_stable [of version scorer "map fst fp" fp blob] r by simp
    qed
  qed
  show ?thesis using same other cut load_returns b(2) by (intro conjI allI impI) auto
qed

definition sample_index :: index where
  "sample_index = \<lparr>ix_n_terms = [2], ix_postings = [(''b'', ([0], [1], [1])), (''a'', ([0], [2], [3]))], ix_doc_freq = [(''a'', 1), (''b'', 1)], ix_n_docs = 1,
     ix_avg_field_len = 4, ix_max_idf = 5, ix_length_factors = [6], ix_tie_breaks = [(- 1, 7)]\<rparr>"

definition sample_stamps :: "stamp list" where
  "sample_stamps = [(''x.md'', [1, 2, - 3, 4, 5])]"

lemma sample_saved: "snd (save ''2.0'' ''bm25'' sample_stamps sample_index None) = Inr True"
  by (simp add: save_def save_blob_def tag_of_def bytes_of_def HEADER_def MAGIC_def VERSION_def META_def COUNT_def PATH_STAMP_def TERM_HEAD_def sample_stamps_def sample_index_def
      write_path_def vocab_def posting_of_def write_term_def sort_key_def)

theorem corpus_index_roundtrip_witness:
  "\<exists>file. save ''2.0'' ''bm25'' sample_stamps sample_index None = (file, Inr True)
    \<and> load ''2.0'' ''bm25'' [''x.md''] sample_stamps file = Inr (Some (canonical 1 sample_index))
    \<and> load ''2.1'' ''bm25'' [''x.md''] sample_stamps file = Inr None"
proof -
  obtain f where s: "save ''2.0'' ''bm25'' sample_stamps sample_index None = (f, Inr True)"
    using sample_saved by (cases "save ''2.0'' ''bm25'' sample_stamps sample_index None") auto
  have "list_all (\<lambda>e. is_text (fst e)) sample_stamps" "list_all (\<lambda>p. is_text (fst p)) (ix_postings sample_index)" "distinct (map fst (ix_postings sample_index))"
    by (simp_all add: is_text_def bytes_of_def sample_stamps_def sample_index_def)
  note r = corpus_index_roundtrip [OF s this]
  have "tag_of ''bm25'' ''2.1'' \<noteq> tag_of ''bm25'' ''2.0''" by (simp add: tag_of_def bytes_of_def)
  then have "load ''2.1'' ''bm25'' [''x.md''] sample_stamps f = Inr None" using r by blast
  moreover have "load ''2.0'' ''bm25'' [''x.md''] sample_stamps f = Inr (Some (canonical 1 sample_index))"
    using r [THEN conjunct1, rule_format, of "[''x.md'']" sample_stamps] by (simp add: sample_stamps_def)
  ultimately show ?thesis using s by blast
qed

end
