(* ===== verification/PyText.thy ===== *)
theory PyText
  imports Sha256
begin

text \<open>
  The text methods of Python that the registries and policy files use, on UTF-8 bytes: \<^verbatim>\<open>strip\<close>, \<^verbatim>\<open>splitlines\<close> and
  \<^verbatim>\<open>lower\<close> for ASCII letters, with the facts their clients need.
\<close>

section \<open>White space\<close>

definition bytes_in :: "string \<Rightarrow> nat list" where
  "bytes_in s = map of_char s"

text \<open>The encodings of the characters for which \<^verbatim>\<open>str.isspace\<close> holds, by length.\<close>

definition SPACE1 :: "nat list" where
  "SPACE1 = [9, 10, 11, 12, 13, 28, 29, 30, 31, 32]"

definition SPACE2 :: "nat list list" where
  "SPACE2 = [[0xC2, 0x85], [0xC2, 0xA0]]"

definition SPACE3 :: "nat list list" where
  "SPACE3 = [[0xE1, 0x9A, 0x80], [0xE2, 0x80, 0x80], [0xE2, 0x80, 0x81], [0xE2, 0x80, 0x82], [0xE2, 0x80, 0x83], [0xE2, 0x80, 0x84], [0xE2, 0x80, 0x85],
     [0xE2, 0x80, 0x86], [0xE2, 0x80, 0x87], [0xE2, 0x80, 0x88], [0xE2, 0x80, 0x89], [0xE2, 0x80, 0x8A], [0xE2, 0x80, 0xA8], [0xE2, 0x80, 0xA9],
     [0xE2, 0x80, 0xAF], [0xE2, 0x81, 0x9F], [0xE3, 0x80, 0x80]]"

definition space_at :: "nat list \<Rightarrow> nat" where
  "space_at bs =
     (case bs of
        [] \<Rightarrow> 0
      | b # rest \<Rightarrow> if b \<in> set SPACE1 then 1 else if take 2 bs \<in> set SPACE2 then 2 else if take 3 bs \<in> set SPACE3 then 3 else 0)"

function lstrip_by :: "(nat list \<Rightarrow> nat) \<Rightarrow> nat list \<Rightarrow> nat list" where
  "lstrip_by width bs = (if bs = [] \<or> width bs = 0 then bs else lstrip_by width (drop (width bs) bs))"
  by pat_completeness auto
termination by (relation "measure (\<lambda>(width, bs). length bs)") auto

declare lstrip_by.simps [simp del]

definition space_end :: "nat list \<Rightarrow> nat" where
  "space_end bs =
     (case bs of
        [] \<Rightarrow> 0
      | b # rest \<Rightarrow> if b \<in> set SPACE1 then 1 else if rev (take 2 bs) \<in> set SPACE2 then 2 else if rev (take 3 bs) \<in> set SPACE3 then 3 else 0)"

definition strip_bytes :: "nat list \<Rightarrow> nat list" where
  "strip_bytes bs = rev (lstrip_by space_end (rev (lstrip_by space_at bs)))"

definition strip_text :: "string \<Rightarrow> string" where
  "strip_text s = map char_of (strip_bytes (bytes_in s))"

text \<open>\<^verbatim>\<open>lower\<close> on ASCII letters. It decides whether a text lowers to a given ASCII word without the letter k.\<close>

definition ascii_lower :: "string \<Rightarrow> string" where
  "ascii_lower s = map (\<lambda>c. if 65 \<le> (of_char c :: nat) \<and> (of_char c :: nat) \<le> 90 then char_of ((of_char c :: nat) + 32) else c) s"

section \<open>Facts\<close>

lemma lstrip_by_suffix: "\<exists>pre. bs = pre @ lstrip_by width bs"
proof (induction width bs rule: lstrip_by.induct)
  case (1 width bs)
  show ?case
  proof (cases "bs = [] \<or> width bs = 0")
    case True
    then show ?thesis by (simp add: lstrip_by.simps [of width bs])
  next
    case False
    then have s: "lstrip_by width bs = lstrip_by width (drop (width bs) bs)" by (simp add: lstrip_by.simps [of width bs])
    from 1 [OF False] obtain pre where "drop (width bs) bs = pre @ lstrip_by width (drop (width bs) bs)" by blast
    then have "bs = (take (width bs) bs @ pre) @ lstrip_by width bs" unfolding s by (metis append.assoc append_take_drop_id)
    then show ?thesis by blast
  qed
qed

lemma lstrip_by_idle: "width bs = 0 \<Longrightarrow> lstrip_by width bs = bs"
  by (simp add: lstrip_by.simps)

lemma lstrip_by_done: "lstrip_by width bs = [] \<or> width (lstrip_by width bs) = 0"
proof (induction width bs rule: lstrip_by.induct)
  case (1 width bs)
  show ?case
  proof (cases "bs = [] \<or> width bs = 0")
    case False
    with 1 show ?thesis by (simp add: lstrip_by.simps [of width bs])
  qed (auto simp: lstrip_by.simps [of width bs])
qed

lemma length_strip_text: "length (strip_text s) \<le> length s"
proof -
  obtain p where p: "bytes_in s = p @ lstrip_by space_at (bytes_in s)" using lstrip_by_suffix by blast
  obtain q where q: "rev (lstrip_by space_at (bytes_in s)) = q @ lstrip_by space_end (rev (lstrip_by space_at (bytes_in s)))" using lstrip_by_suffix by blast
  have "length (bytes_in s) = length s" by (simp add: bytes_in_def)
  with arg_cong [OF p, of length] arg_cong [OF q, of length] show ?thesis by (simp add: strip_text_def strip_bytes_def)
qed

section \<open>Lines\<close>

text \<open>The width of the line boundary at the head of the bytes, as \<^verbatim>\<open>splitlines\<close> sees them.\<close>

definition break_at :: "nat list \<Rightarrow> nat" where
  "break_at bs =
     (case bs of
        [] \<Rightarrow> 0
      | b # rest \<Rightarrow>
          if take 2 bs = [13, 10] then 2
          else if b \<in> {10, 11, 12, 13, 28, 29, 30} then 1
          else if take 2 bs = [0xC2, 0x85] then 2
          else if take 3 bs \<in> {[0xE2, 0x80, 0xA8], [0xE2, 0x80, 0xA9]} then 3
          else 0)"

function lines_from :: "nat list \<Rightarrow> nat list \<Rightarrow> nat list list" where
  "lines_from line bs =
     (if bs = [] then (if line = [] then [] else [line])
      else if break_at bs = 0 then lines_from (line @ [hd bs]) (tl bs)
      else line # lines_from [] (drop (break_at bs) bs))"
  by pat_completeness auto
termination by (relation "measure (\<lambda>(line, bs). length bs)") auto

declare lines_from.simps [simp del]

definition split_lines :: "string \<Rightarrow> string list" where
  "split_lines s = map (map char_of) (lines_from [] (bytes_in s))"

fun join_lines :: "nat list list \<Rightarrow> nat list" where
  "join_lines [] = []"
| "join_lines [l] = l"
| "join_lines (l # ls) = l @ 10 # join_lines ls"

text \<open>\<^verbatim>\<open>s[:n]\<close> counts code points: the bytes that are not continuation bytes.\<close>

fun take_points :: "nat \<Rightarrow> nat list \<Rightarrow> nat list" where
  "take_points n [] = []"
| "take_points n (b # bs) =
     (if 128 \<le> b \<and> b < 192 then b # take_points n bs else (case n of 0 \<Rightarrow> [] | Suc m \<Rightarrow> b # take_points m bs))"

definition unbroken :: "nat list \<Rightarrow> bool" where
  "unbroken line \<longleftrightarrow> (\<forall>i < length line. break_at (drop i line) = 0)"

lemma unbroken_Nil [simp]: "unbroken []"
  by (simp add: unbroken_def)

lemma unbroken_Cons [simp]: "unbroken (b # bs) \<longleftrightarrow> break_at (b # bs) = 0 \<and> unbroken bs"
  by (auto simp: unbroken_def less_Suc_eq_0_disj)

lemma break_prefix: "break_at (xs @ ys) = 0 \<Longrightarrow> break_at xs = 0"
  by (cases xs; cases "tl xs"; cases "tl (tl xs)") (auto simp: break_at_def split: if_split_asm)

lemma break_before_newline: "xs \<noteq> [] \<Longrightarrow> break_at xs = 0 \<Longrightarrow> break_at (xs @ 10 # ys) = 0"
  by (cases xs; cases "tl xs"; cases "tl (tl xs)") (auto simp: break_at_def split: if_split_asm)

lemma unbroken_snoc:
  assumes "unbroken line" "\<And>i. i \<le> length line \<Longrightarrow> break_at (drop i line @ b # bs) = 0"
  shows "unbroken (line @ [b])"
proof -
  have "break_at (drop i (line @ [b])) = 0" if "i < length (line @ [b])" for i
    using assms(2) [of i] that break_prefix [of "drop i line @ [b]" bs] by simp
  then show ?thesis by (simp add: unbroken_def)
qed

lemma lines_unbroken:
  assumes "\<And>i. i < length line \<Longrightarrow> break_at (drop i line @ bs) = 0" "l \<in> set (lines_from line bs)"
  shows "unbroken l"
  using assms
proof (induction line bs rule: lines_from.induct)
  case (1 line bs)
  show ?case
  proof (cases "bs = []")
    case True
    with 1(4) have "l = line" by (simp add: lines_from.simps [of line "[]"] split: if_split_asm)
    with 1(3) True show ?thesis by (simp add: unbroken_def)
  next
    case ne: False
    show ?thesis
    proof (cases "break_at bs = 0")
      case True
      have "break_at (drop i (line @ [hd bs]) @ tl bs) = 0" if "i < length (line @ [hd bs])" for i
      proof (cases "i < length line")
        case True
        with 1(3) [of i] ne show ?thesis by simp
      next
        case False
        with that have "i = length line" by simp
        with ne \<open>break_at bs = 0\<close> show ?thesis by simp
      qed
      with 1(1) [OF ne True] 1(4) ne True show ?thesis by (simp add: lines_from.simps [of line bs])
    next
      case False
      have "unbroken line" using 1(3) break_prefix by (auto simp: unbroken_def)
      with 1(2) [OF ne False] 1(4) ne False show ?thesis by (auto simp: lines_from.simps [of line bs])
    qed
  qed
qed

lemma lines_of_unbroken:
  assumes "unbroken l"
  shows "lines_from line (l @ 10 # rest) = (line @ l) # lines_from [] rest" "line @ l \<noteq> [] \<Longrightarrow> lines_from line l = [line @ l]"
  using assms
proof (induction l arbitrary: line)
  case Nil
  { case 1 show ?case by (simp add: lines_from.simps [of line] break_at_def) next
    case 2 then show ?case by (simp add: lines_from.simps [of line]) }
next
  case (Cons b l)
  { case 1
    then have "break_at ((b # l) @ 10 # rest) = 0" by (intro break_before_newline) auto
    with Cons.IH(1) [of "line @ [b]"] 1 show ?case by (simp add: lines_from.simps [of line])
  next
    case 2
    with Cons.IH(2) [of "line @ [b]"] show ?case by (simp add: lines_from.simps [of line]) }
qed

lemma lines_of_join: "\<forall>l \<in> set ls. l \<noteq> [] \<and> unbroken l \<Longrightarrow> lines_from [] (join_lines ls) = ls"
proof (induction ls rule: join_lines.induct)
  case 1
  show ?case by (simp add: lines_from.simps)
qed (auto simp: lines_of_unbroken)

end
