(* ===== verification/Agents.thy ===== *)
theory Agents
  imports Journal PyText
begin

text \<open>
  The registry of agents, \<^verbatim>\<open>unimem/agent_registry.py\<close>: sign-up, authentication by bearer token, revocation, rotation,
  self-enrolment with its quotas, claims and the daily operations of unclaimed agents. The registry implements
  a map from agents to their one live token. The random token and the clock are arguments; the queueing of
  refreshes after a heartbeat and the text of the plugin's skill are not modelled.
\<close>

section \<open>State\<close>

record agent =
  ag_id :: string
  ag_scopes :: "string list"
  ag_created_at :: string
  ag_token_hash :: string
  ag_heartbeat_at :: "string option"
  ag_revoked :: bool
  ag_revoked_at :: "string option"
  ag_rotated_at :: "string option"
  ag_reinstated_at :: "string option"
  ag_self_enrolled :: bool
  ag_claimed_by :: "string option"
  ag_operations_day :: "string option"
  ag_operations :: nat

type_synonym agents = "(string \<times> agent) list"

definition id_char :: "char \<Rightarrow> bool" where
  "id_char c \<longleftrightarrow> (let n = (of_char c :: nat) in 48 \<le> n \<and> n \<le> 57 \<or> 65 \<le> n \<and> n \<le> 90 \<or> 97 \<le> n \<and> n \<le> 122)"

text \<open>\<^verbatim>\<open>[A-Za-z0-9][A-Za-z0-9_.-]{0,63}\<close>.\<close>

definition agent_id_ok :: "string \<Rightarrow> bool" where
  "agent_id_ok s \<longleftrightarrow> (case s of [] \<Rightarrow> False | c # cs \<Rightarrow> id_char c \<and> length cs \<le> 63 \<and> list_all (\<lambda>d. id_char d \<or> d \<in> {CHR ''_'', CHR ''.'', CHR ''-''}) cs)"

definition day_of :: "string \<Rightarrow> string" where
  "day_of stamp = take 10 stamp"

definition new_token :: "string \<Rightarrow> string" where
  "new_token random = ''cta_'' @ random"

section \<open>Operations\<close>

text \<open>Each operation returns the new registry with its result; where it raises, the registry is as before.\<close>

definition fresh_row :: "string \<Rightarrow> string \<Rightarrow> string list \<Rightarrow> string \<Rightarrow> agent" where
  "fresh_row now agent_id labels token =
     \<lparr>ag_id = agent_id, ag_scopes = sorted_set ((''agent:'' @ agent_id) # labels), ag_created_at = now, ag_token_hash = sha256_hex token,
      ag_heartbeat_at = None, ag_revoked = False, ag_revoked_at = None, ag_rotated_at = None, ag_reinstated_at = None,
      ag_self_enrolled = False, ag_claimed_by = None, ag_operations_day = None, ag_operations = 0\<rparr>"

definition signup :: "string \<Rightarrow> string \<Rightarrow> agents \<Rightarrow> string \<Rightarrow> pv \<Rightarrow> (agents \<times> string) result" where
  "signup now random agents agent_id labels =
     guard_r (agent_id_ok agent_id) ValueError (
     bind_r (if \<not> truthy labels then Inr []
             else case labels of
                    PList vs \<Rightarrow> map_r (\<lambda>v. case v of PStr s \<Rightarrow> guard_r (\<not> 256 < py_len s) ValueError (Inr s) | _ \<Rightarrow> Inl ValueError) vs
                  | _ \<Rightarrow> Inl ValueError) (\<lambda>ls.
     guard_r (map_of agents agent_id = None) ValueError (
     Inr (dset agents agent_id (fresh_row now agent_id ls (new_token random)), new_token random))))"

definition authenticate :: "agents \<Rightarrow> string \<Rightarrow> agent option" where
  "authenticate agents token =
     (if take 4 token \<noteq> ''cta_'' then None
      else case filter (\<lambda>row. \<not> ag_revoked row \<and> ag_token_hash row = sha256_hex token) (map snd agents) of
             [] \<Rightarrow> None
           | row # rows \<Rightarrow> Some row)"

definition heartbeat :: "string \<Rightarrow> agents \<Rightarrow> string \<Rightarrow> agents result" where
  "heartbeat now agents agent_id =
     (case map_of agents agent_id of None \<Rightarrow> Inl ValueError | Some row \<Rightarrow> Inr (dset agents agent_id (row \<lparr>ag_heartbeat_at := Some now\<rparr>)))"

definition revoke :: "string \<Rightarrow> agents \<Rightarrow> string \<Rightarrow> agents result" where
  "revoke now agents agent_id =
     (case map_of agents agent_id of
        None \<Rightarrow> Inl ValueError
      | Some row \<Rightarrow> Inr (dset agents agent_id (row \<lparr>ag_revoked := True, ag_revoked_at := Some now\<rparr>)))"

definition rotate :: "string \<Rightarrow> string \<Rightarrow> agents \<Rightarrow> string \<Rightarrow> bool \<Rightarrow> (agents \<times> string) result" where
  "rotate now random agents agent_id reinstate =
     (case map_of agents agent_id of
        None \<Rightarrow> Inl ValueError
      | Some row \<Rightarrow>
          guard_r (\<not> (ag_revoked row \<and> \<not> reinstate)) ValueError (
          let token = new_token random;
              row1 = row \<lparr>ag_token_hash := sha256_hex token, ag_rotated_at := Some now\<rparr>;
              row2 = (if ag_revoked row then row1 \<lparr>ag_revoked := False, ag_reinstated_at := Some now\<rparr> else row1) in
          Inr (dset agents agent_id row2, token)))"

definition public_rows :: "agents \<Rightarrow> agent list" where
  "public_rows agents = filter ag_self_enrolled (map snd agents)"

definition enrolled_on :: "string \<Rightarrow> agents \<Rightarrow> nat" where
  "enrolled_on day agents = length (filter (\<lambda>r. day_of (ag_created_at r) = day) (public_rows agents))"

text \<open>\<open>tail\<close> is the random part of the name; \<open>created\<close> the clock as \<^verbatim>\<open>signup\<close> reads it.\<close>

definition enroll :: "string \<Rightarrow> string \<Rightarrow> string \<Rightarrow> string \<Rightarrow> agents \<Rightarrow> (agents \<times> string) result" where
  "enroll now created tail random agents =
     guard_r (\<not> (100 \<le> length (public_rows agents) \<or> 10 \<le> enrolled_on (day_of now) agents)) PermissionError (
     let agent_id = ''agent-'' @ tail in
     bind_r (signup created random agents agent_id PNone) (\<lambda>(agents', token).
     case map_of agents' agent_id of
       None \<Rightarrow> Inl KeyError
     | Some row \<Rightarrow> Inr (dset agents' agent_id (row \<lparr>ag_self_enrolled := True, ag_claimed_by := None\<rparr>), token)))"

definition claim :: "agents \<Rightarrow> string \<Rightarrow> pv \<Rightarrow> agents result" where
  "claim agents agent_id owner =
     (case owner of
        PStr o' \<Rightarrow>
          guard_r (strip_text o' \<noteq> [] \<and> \<not> 128 < py_len o') ValueError (
          case map_of agents agent_id of
            None \<Rightarrow> Inl ValueError
          | Some row \<Rightarrow>
              guard_r (ag_self_enrolled row) ValueError (
              guard_r (ag_claimed_by row = None \<or> ag_claimed_by row = Some o') ValueError (
                Inr (dset agents agent_id (row \<lparr>ag_claimed_by := Some o'\<rparr>)))))
      | _ \<Rightarrow> Inl ValueError)"

definition admit :: "string \<Rightarrow> agents \<Rightarrow> string \<Rightarrow> agents result" where
  "admit now agents agent_id =
     (case map_of agents agent_id of
        None \<Rightarrow> Inl KeyError
      | Some row \<Rightarrow>
          if \<not> ag_self_enrolled row \<or> ag_claimed_by row \<noteq> None then Inr agents
          else let used = (if ag_operations_day row = Some (day_of now) then ag_operations row else 0) in
               guard_r (\<not> 60 \<le> used) PermissionError (
                 Inr (dset agents agent_id (row \<lparr>ag_operations_day := Some (day_of now), ag_operations := Suc used\<rparr>))))"

section \<open>Histories\<close>

datatype event =
  Signup string string string pv
| Heartbeat string string
| Revoke string string
| Rotate string string string bool
| Enroll string string string string
| Claim string pv
| Admit string string

fun perform :: "event \<Rightarrow> agents \<Rightarrow> agents result" where
  "perform (Signup now random x labels) a = map_sum id fst (signup now random a x labels)"
| "perform (Heartbeat now x) a = heartbeat now a x"
| "perform (Revoke now x) a = revoke now a x"
| "perform (Rotate now random x reinstate) a = map_sum id fst (rotate now random a x reinstate)"
| "perform (Enroll now created tail random) a = map_sum id fst (enroll now created tail random a)"
| "perform (Claim x owner) a = claim a x owner"
| "perform (Admit now x) a = admit now a x"

text \<open>The specification: which token of an agent is live, after an event that succeeded.\<close>

fun live_after :: "event \<Rightarrow> (string \<rightharpoonup> string) \<Rightarrow> (string \<rightharpoonup> string)" where
  "live_after (Signup now random x labels) l = l(x \<mapsto> new_token random)"
| "live_after (Revoke now x) l = l(x := None)"
| "live_after (Rotate now random x reinstate) l = l(x \<mapsto> new_token random)"
| "live_after (Enroll now created tail random) l = l(''agent-'' @ tail \<mapsto> new_token random)"
| "live_after _ l = l"

inductive history :: "agents \<Rightarrow> (string \<rightharpoonup> string) \<Rightarrow> bool" where
  start: "history [] Map.empty"
| happens: "history a l \<Longrightarrow> perform e a = Inr a' \<Longrightarrow> history a' (live_after e l)"
| refused: "history a l \<Longrightarrow> perform e a = Inl exc \<Longrightarrow> history a l"

section \<open>The invariant\<close>

definition agent_ok :: "string \<Rightarrow> agent \<Rightarrow> string option \<Rightarrow> bool" where
  "agent_ok x row live \<longleftrightarrow> ag_id row = x \<and> ''agent:'' @ x \<in> set (ag_scopes row) \<and> ag_operations row \<le> 60
     \<and> (if ag_revoked row then live = None else \<exists>t. live = Some t \<and> take 4 t = ''cta_'' \<and> ag_token_hash row = sha256_hex t)"

definition registry_ok :: "agents \<Rightarrow> (string \<rightharpoonup> string) \<Rightarrow> bool" where
  "registry_ok a l \<longleftrightarrow> distinct (map fst a) \<and> (\<forall>x. case map_of a x of None \<Rightarrow> l x = None | Some row \<Rightarrow> agent_ok x row (l x)) \<and> length (public_rows a) \<le> 100"

lemma registry_row: "registry_ok a l \<Longrightarrow> map_of a x = Some row \<Longrightarrow> agent_ok x row (l x)"
  unfolding registry_ok_def by (metis option.simps(5))

lemma public_fresh: "map_of a x = None \<Longrightarrow> public_rows (dset a x row) = public_rows a @ (if ag_self_enrolled row then [row] else [])"
  by (induction a x row rule: dset.induct) (auto simp: public_rows_def split: if_split_asm)

lemma public_replaced: "map_of a x = Some row \<Longrightarrow> ag_self_enrolled row' = ag_self_enrolled row \<Longrightarrow> length (public_rows (dset a x row')) = length (public_rows a)"
  by (induction a x row' rule: dset.induct) (auto simp: public_rows_def split: if_split_asm)

lemma dset_twice: "dset (dset a x r) x r' = dset a x r'"
  by (induction a x r rule: dset.induct) auto

lemma registry_update:
  assumes "registry_ok a l" "agent_ok x row' (l' x)" "\<And>y. y \<noteq> x \<Longrightarrow> l' y = l y" "length (public_rows (dset a x row')) \<le> 100"
  shows "registry_ok (dset a x row') l'"
proof -
  have "case map_of (dset a x row') y of None \<Rightarrow> l' y = None | Some row \<Rightarrow> agent_ok y row (l' y)" for y
  proof (cases "y = x")
    case False
    have "case map_of a y of None \<Rightarrow> l y = None | Some row \<Rightarrow> agent_ok y row (l y)" using assms(1) unfolding registry_ok_def by blast
    with False assms(3) [of y] show ?thesis by (auto split: option.split_asm option.split)
  qed (simp add: assms(2))
  then show ?thesis using assms(1,4) by (simp add: registry_ok_def distinct_dset)
qed

lemma registry_replace:
  assumes "registry_ok a l" "map_of a x = Some row" "agent_ok x row' (l' x)" "\<And>y. y \<noteq> x \<Longrightarrow> l' y = l y" "ag_self_enrolled row' = ag_self_enrolled row"
  shows "registry_ok (dset a x row') l'"
  by (rule registry_update [OF assms(1,3,4)]) (use assms(1) public_replaced [OF assms(2,5)] in \<open>simp_all add: registry_ok_def\<close>)

lemma signup_Inr:
  assumes "signup now random a x labels = Inr (a', token)"
  shows "map_of a x = None \<and> token = new_token random \<and> (\<exists>row. a' = dset a x row \<and> agent_ok x row (Some token) \<and> \<not> ag_self_enrolled row \<and> ag_created_at row = now)"
proof -
  from assms obtain ls where "map_of a x = None" "a' = dset a x (fresh_row now x ls (new_token random))" "token = new_token random"
    unfolding signup_def guard_r_Inr bind_r_Inr by blast
  moreover have "agent_ok x (fresh_row now x ls (new_token random)) (Some (new_token random))" "\<not> ag_self_enrolled (fresh_row now x ls (new_token random))"
    "ag_created_at (fresh_row now x ls (new_token random)) = now"
    by (simp_all add: agent_ok_def fresh_row_def new_token_def)
  ultimately show ?thesis by blast
qed

lemma enroll_Inr:
  assumes "enroll now created tail random a = Inr (a', token)"
  shows "length (public_rows a) < 100 \<and> enrolled_on (day_of now) a < 10 \<and> map_of a (''agent-'' @ tail) = None \<and> token = new_token random
    \<and> (\<exists>row. a' = dset a (''agent-'' @ tail) row \<and> agent_ok (''agent-'' @ tail) row (Some token) \<and> ag_self_enrolled row \<and> ag_claimed_by row = None \<and> ag_created_at row = created)"
proof -
  let ?x = "''agent-'' @ tail"
  from assms obtain b where b: "signup created random a ?x PNone = Inr (b, token)" "length (public_rows a) < 100" "enrolled_on (day_of now) a < 10"
    "(case map_of b ?x of None \<Rightarrow> Inl KeyError | Some row \<Rightarrow> Inr (dset b ?x (row \<lparr>ag_self_enrolled := True, ag_claimed_by := None\<rparr>), token)) = Inr (a', token)"
    by (auto simp: enroll_def guard_r_Inr bind_r_Inr Let_def not_le split: option.split_asm)
  from signup_Inr [OF b(1)] obtain row where row: "map_of a ?x = None" "token = new_token random" "b = dset a ?x row" "agent_ok ?x row (Some token)" "ag_created_at row = created" by blast
  have "a' = dset a ?x (row \<lparr>ag_self_enrolled := True, ag_claimed_by := None\<rparr>)" using b(4) by (simp add: row(3) dset_twice)
  moreover have "agent_ok ?x (row \<lparr>ag_self_enrolled := True, ag_claimed_by := None\<rparr>) (Some token)" using row(4) by (auto simp: agent_ok_def split: if_split_asm)
  ultimately show ?thesis using b(2,3) row by (intro conjI exI [of _ "row \<lparr>ag_self_enrolled := True, ag_claimed_by := None\<rparr>"]) simp_all
qed

text \<open>What an event that succeeded did: a new row, or the replacement of one with the same scopes and enrolment.\<close>

lemma perform_Inr:
  assumes "registry_ok a l" "perform e a = Inr a'"
  shows "a' = a \<and> live_after e l = l
    \<or> (\<exists>x row'. a' = dset a x row' \<and> agent_ok x row' (live_after e l x) \<and> (\<forall>y. y \<noteq> x \<longrightarrow> live_after e l y = l y)
        \<and> (map_of a x = None \<and> length (public_rows a') \<le> 100
          \<or> (\<exists>row. map_of a x = Some row \<and> ag_self_enrolled row' = ag_self_enrolled row \<and> ag_scopes row' = ag_scopes row
              \<and> (ag_revoked row \<longrightarrow> \<not> ag_revoked row' \<longrightarrow> (\<exists>now random. e = Rotate now random x True)))))"
proof (cases e)
  case (Signup now random x labels)
  with assms(2) obtain token where s: "signup now random a x labels = Inr (a', token)" by (cases "signup now random a x labels") auto
  from signup_Inr [OF s] obtain row where row: "map_of a x = None" "token = new_token random" "a' = dset a x row" "agent_ok x row (Some token)" "\<not> ag_self_enrolled row" by blast
  have "length (public_rows a') \<le> 100" using assms(1) row by (simp add: public_fresh registry_ok_def)
  with row show ?thesis by (intro disjI2 exI [of _ x] exI [of _ row]) (simp add: Signup)
next
  case (Heartbeat now x)
  with assms(2) obtain row where row: "map_of a x = Some row" "a' = dset a x (row \<lparr>ag_heartbeat_at := Some now\<rparr>)" by (auto simp: heartbeat_def split: option.split_asm)
  have "agent_ok x (row \<lparr>ag_heartbeat_at := Some now\<rparr>) (l x)" using registry_row [OF assms(1) row(1)] by (simp add: agent_ok_def)
  with row show ?thesis by (intro disjI2 exI [of _ x] exI [of _ "row \<lparr>ag_heartbeat_at := Some now\<rparr>"]) (simp add: Heartbeat)
next
  case (Revoke now x)
  let ?f = "\<lambda>row. row \<lparr>ag_revoked := True, ag_revoked_at := Some now\<rparr>"
  from assms(2) Revoke obtain row where row: "map_of a x = Some row" "a' = dset a x (?f row)" by (auto simp: revoke_def split: option.split_asm)
  have "agent_ok x (?f row) None" using registry_row [OF assms(1) row(1)] by (simp add: agent_ok_def)
  with row show ?thesis by (intro disjI2 exI [of _ x] exI [of _ "?f row"]) (simp add: Revoke)
next
  case (Rotate now random x reinstate)
  let ?f = "\<lambda>row. row \<lparr>ag_token_hash := sha256_hex (new_token random), ag_rotated_at := Some now\<rparr>"
  let ?g = "\<lambda>row. if ag_revoked row then ?f row \<lparr>ag_revoked := False, ag_reinstated_at := Some now\<rparr> else ?f row"
  from assms(2) Rotate obtain row where row: "map_of a x = Some row" "ag_revoked row \<longrightarrow> reinstate" "a' = dset a x (?g row)"
    by (cases "rotate now random a x reinstate") (auto simp: rotate_def guard_r_Inr Let_def split: option.split_asm if_split_asm)
  have "agent_ok x (?g row) (Some (new_token random))" using registry_row [OF assms(1) row(1)] by (auto simp: agent_ok_def new_token_def)
  with row show ?thesis by (intro disjI2 exI [of _ x] exI [of _ "?g row"]) (simp add: Rotate)
next
  case (Enroll now created tail random)
  with assms(2) obtain token where s: "enroll now created tail random a = Inr (a', token)" by (cases "enroll now created tail random a") auto
  from enroll_Inr [OF s] obtain row where row: "map_of a (''agent-'' @ tail) = None" "token = new_token random" "a' = dset a (''agent-'' @ tail) row"
    "agent_ok (''agent-'' @ tail) row (Some token)" "length (public_rows a) < 100" by blast
  have "length (public_rows a') \<le> 100" using row by (simp add: public_fresh)
  with row show ?thesis by (intro disjI2 exI [of _ "''agent-'' @ tail"] exI [of _ row]) (simp add: Enroll)
next
  case (Claim x owner)
  with assms(2) obtain o' row where row: "map_of a x = Some row" "a' = dset a x (row \<lparr>ag_claimed_by := Some o'\<rparr>)"
    by (auto simp: claim_def guard_r_Inr case_PStr_Inr split: option.split_asm)
  have "agent_ok x (row \<lparr>ag_claimed_by := Some o'\<rparr>) (l x)" using registry_row [OF assms(1) row(1)] by (simp add: agent_ok_def)
  with row show ?thesis by (intro disjI2 exI [of _ x] exI [of _ "row \<lparr>ag_claimed_by := Some o'\<rparr>"]) (simp add: Claim)
next
  case (Admit now x)
  with assms(2) obtain row where r: "map_of a x = Some row" by (auto simp: admit_def split: option.split_asm)
  show ?thesis
  proof (cases "\<not> ag_self_enrolled row \<or> ag_claimed_by row \<noteq> None")
    case True
    with assms(2) Admit r show ?thesis by (auto simp: admit_def)
  next
    case False
    let ?used = "if ag_operations_day row = Some (day_of now) then ag_operations row else 0"
    let ?f = "row \<lparr>ag_operations_day := Some (day_of now), ag_operations := Suc ?used\<rparr>"
    from False assms(2) Admit r have u: "?used < 60" "a' = dset a x ?f" by (simp_all add: admit_def Let_def guard_r_Inr)
    have "agent_ok x ?f (l x)" using registry_row [OF assms(1) r] u(1) by (simp add: agent_ok_def)
    with r u(2) show ?thesis by (intro disjI2 exI [of _ x] exI [of _ ?f]) (simp add: Admit)
  qed
qed

lemma history_ok: "history a l \<Longrightarrow> registry_ok a l"
proof (induction rule: history.induct)
  case start
  then show ?case by (simp add: registry_ok_def public_rows_def)
next
  case (happens a l e a')
  from perform_Inr [OF happens.IH happens.hyps(2)] show ?case
  proof (elim disjE exE conjE)
    fix x row'
    assume "a' = dset a x row'" "agent_ok x row' (live_after e l x)" "\<forall>y. y \<noteq> x \<longrightarrow> live_after e l y = l y" "map_of a x = None" "length (public_rows a') \<le> 100"
    then show ?thesis using registry_update [OF happens.IH, of x row' "live_after e l"] by simp
  next
    fix x row' row
    assume "a' = dset a x row'" "agent_ok x row' (live_after e l x)" "\<forall>y. y \<noteq> x \<longrightarrow> live_after e l y = l y" "map_of a x = Some row"
      "ag_self_enrolled row' = ag_self_enrolled row"
    then show ?thesis using registry_replace [OF happens.IH, of x row row' "live_after e l"] by simp
  qed (use happens.IH in simp)
qed

lemma first_of: "(case xs of [] \<Rightarrow> None | y # ys \<Rightarrow> Some y) = Some z \<Longrightarrow> z \<in> set xs"
  by (cases xs) auto

lemma authenticate_Some:
  assumes "registry_ok a l" "inj_on sha256 (insert token (ran l))"
  shows "authenticate a token = Some r \<Longrightarrow> l (ag_id r) = Some token \<and> map_of a (ag_id r) = Some r"
    and "l x = Some token \<Longrightarrow> authenticate a token \<noteq> None"
proof -
  have row: "agent_ok y r (l y)" if "(y, r) \<in> set a" for y r
    using registry_row [OF assms(1)] that assms(1) by (simp add: registry_ok_def)
  have hash: "t = token" if "sha256_hex t = sha256_hex token" "t \<in> ran l" for t
    using that assms(2) by (auto simp: sha256_hex_def hex_eq_iff inj_on_def)
  show "l (ag_id r) = Some token \<and> map_of a (ag_id r) = Some r" if "authenticate a token = Some r"
  proof -
    from that have "r \<in> set (filter (\<lambda>row. \<not> ag_revoked row \<and> ag_token_hash row = sha256_hex token) (map snd a))"
      unfolding authenticate_def by (intro first_of) (metis option.distinct(1))
    then obtain y where y: "(y, r) \<in> set a" "\<not> ag_revoked r" "ag_token_hash r = sha256_hex token" by auto
    from row [OF y(1)] y(2,3) obtain t where t: "l y = Some t" "sha256_hex t = sha256_hex token" "ag_id r = y" by (auto simp: agent_ok_def)
    have "t = token" by (rule hash [OF t(2)]) (use t(1) in \<open>auto simp: ran_def\<close>)
    with t y(1) assms(1) show ?thesis by (simp add: registry_ok_def)
  qed
  show "authenticate a token \<noteq> None" if "l x = Some token"
  proof -
    from that assms(1) obtain r where m: "map_of a x = Some r" unfolding registry_ok_def by (metis (mono_tags) option.distinct(1) option.exhaust option.simps(4))
    with registry_row [OF assms(1) m] that have "\<not> ag_revoked r" "ag_token_hash r = sha256_hex token" "take 4 token = ''cta_''" by (auto simp: agent_ok_def split: if_split_asm)
    moreover have "r \<in> set (map snd a)" using map_of_SomeD [OF m] by force
    ultimately have "r \<in> set (filter (\<lambda>row. \<not> ag_revoked row \<and> ag_token_hash row = sha256_hex token) (map snd a))" by simp
    then have "filter (\<lambda>row. \<not> ag_revoked row \<and> ag_token_hash row = sha256_hex token) (map snd a) \<noteq> []" by (metis empty_iff list.set(1))
    then show ?thesis using \<open>take 4 token = ''cta_''\<close> unfolding authenticate_def by (simp split: list.split)
  qed
qed

section \<open>The property\<close>

text \<open>
  C33: The registry implements one live token per agent. After any history of calls, a token authenticates only as an
  agent whose live token it is, and every live token authenticates, unless SHA-256 collides on these
  tokens; a replaced or revoked token is not live. A revoked agent comes back only by an explicit reinstating rotation, no call
  changes an agent's scopes, there are never more than 100 self-enrolled agents nor a day with ten of them at which
  another is enrolled, and no agent is counted more than 60 operations a day.
\<close>

theorem registry_one_live_token:
  assumes "history a l"
  shows "(inj_on sha256 (insert token (ran l)) \<longrightarrow>
        (\<forall>r. authenticate a token = Some r \<longrightarrow> l (ag_id r) = Some token \<and> map_of a (ag_id r) = Some r) \<and> (\<forall>x. l x = Some token \<longrightarrow> authenticate a token \<noteq> None))
    \<and> (\<forall>e a' x row. perform e a = Inr a' \<longrightarrow> map_of a x = Some row \<longrightarrow>
        (\<exists>row'. map_of a' x = Some row' \<and> ag_scopes row' = ag_scopes row
          \<and> (ag_revoked row \<longrightarrow> \<not> ag_revoked row' \<longrightarrow> (\<exists>now random. e = Rotate now random x True))))
    \<and> length (public_rows a) \<le> 100 \<and> (\<forall>(x, row) \<in> set a. ag_operations row \<le> 60)
    \<and> (\<forall>now created tail random a'. perform (Enroll now created tail random) a = Inr a' \<longrightarrow> enrolled_on (day_of now) a < 10)"
proof -
  have ok: "registry_ok a l" by (rule history_ok [OF assms])
  have keep: "\<exists>row'. map_of a' x = Some row' \<and> ag_scopes row' = ag_scopes row \<and> (ag_revoked row \<longrightarrow> \<not> ag_revoked row' \<longrightarrow> (\<exists>now random. e = Rotate now random x True))"
    if "perform e a = Inr a'" "map_of a x = Some row" for e a' x row
    using perform_Inr [OF ok that(1)] that(2) by (elim disjE exE conjE) auto
  have "ag_operations row \<le> 60" if "(x, row) \<in> set a" for x row
    using registry_row [OF ok] that ok by (auto simp: registry_ok_def agent_ok_def)
  moreover have "length (public_rows a) \<le> 100" using ok by (simp add: registry_ok_def)
  moreover have "enrolled_on (day_of now) a < 10" if "perform (Enroll now created tail random) a = Inr a'" for now created tail random a'
    using that enroll_Inr [of now created tail random a] by (cases "enroll now created tail random a") auto
  ultimately show ?thesis using keep authenticate_Some [OF ok] by blast
qed

theorem registry_one_live_token_witness:
  "\<exists>a. perform (Signup ''2026-01-01'' ''secret'' ''bot'' PNone) [] = Inr a \<and> authenticate a ''cta_secret'' \<noteq> None \<and> length (public_rows a) \<le> 100
    \<and> (\<exists>b. perform (Revoke ''2026-01-02'' ''bot'') a = Inr b \<and> authenticate b ''cta_secret'' = None)"
proof -
  let ?a = "[(''bot'', fresh_row ''2026-01-01'' ''bot'' [] ''cta_secret'')]"
  let ?e = "Signup ''2026-01-01'' ''secret'' ''bot'' PNone" and ?r = "Revoke ''2026-01-02'' ''bot''"
  have p: "perform ?e [] = Inr ?a" by (simp add: signup_def agent_id_ok_def id_char_def truthy_def new_token_def)
  have h: "history ?a [''bot'' \<mapsto> ''cta_secret'']" using history.happens [OF history.start p] by (simp add: new_token_def)
  have "authenticate ?a ''cta_secret'' \<noteq> None \<and> length (public_rows ?a) \<le> 100" using registry_one_live_token [OF h, of "''cta_secret''"] by auto
  moreover obtain b where b: "perform ?r ?a = Inr b" by (simp add: revoke_def)
  have "history b (\<lambda>_. None)" using history.happens [OF h b] by (simp add: fun_upd_idem_iff fun_eq_iff)
  from registry_one_live_token [OF this, of "''cta_secret''"] have "authenticate b ''cta_secret'' = None" by (cases "authenticate b ''cta_secret''") (auto simp: ran_def)
  ultimately show ?thesis using p b by blast
qed

end
