(* ===== verification/Lineage.thy ===== *)
theory Lineage
  imports LogStore
begin

text \<open>
  Derivation attestations, \<^verbatim>\<open>unimem/lineage.py\<close>: the state replayed from the signed journal, attesting a record
  with its inputs, walking ancestors and descendants, tainting, and the labels a reader sees; with the check of
  derived scopes and the content-bound verification of receipts from \<^verbatim>\<open>unimem/memory_authority.py\<close>. Trust never
  rises along a derivation, and a taint reaches every descendant. The state kept between calls is the replay
  of the journal, so it is rebuilt here; attesting under a delegated capability, corroboration by
  causal reputation and the lesson review are not modelled.
\<close>

section \<open>State\<close>

definition LEVELS :: "(string \<times> int) list" where
  "LEVELS = [(''unknown'', - 1), (''external'', 0), (''tool'', 1), (''agent'', 1), (''user'', 2), (''operator'', 3), (''reviewed'', 4)]"

record lineage =
  ln_objects :: "(string \<times> dict) list"
  ln_up :: "(string \<times> string list) list"
  ln_down :: "(string \<times> string list) list"
  ln_tainted :: "(string \<times> dict list) list"

definition empty_lineage :: lineage where
  "empty_lineage = \<lparr>ln_objects = [], ln_up = [], ln_down = [], ln_tainted = []\<rparr>"

text \<open>Identifiers are texts: every writer of the journal validates them.\<close>

definition text_of :: "pv \<Rightarrow> string result" where
  "text_of v = (case v of PStr s \<Rightarrow> Inr s | _ \<Rightarrow> Inl TypeError)"

definition edges_from :: "(string \<times> string list) list \<Rightarrow> string \<Rightarrow> string list" where
  "edges_from es x = (case map_of es x of None \<Rightarrow> [] | Some ys \<Rightarrow> ys)"

definition add_edge_to :: "(string \<times> string list) list \<Rightarrow> string \<Rightarrow> string \<Rightarrow> (string \<times> string list) list" where
  "add_edge_to es x y = dset es x (if y \<in> set (edges_from es x) then edges_from es x else edges_from es x @ [y])"

definition link_parent :: "string \<Rightarrow> lineage \<Rightarrow> pv \<Rightarrow> lineage result" where
  "link_parent identity st parent =
     bind_r (row_field parent ''id'') (\<lambda>v. bind_r (text_of v) (\<lambda>p.
       Inr (st \<lparr>ln_up := add_edge_to (ln_up st) identity p, ln_down := add_edge_to (ln_down st) p identity\<rparr>)))"

definition taints_of :: "lineage \<Rightarrow> string \<Rightarrow> dict list" where
  "taints_of st x = (case map_of (ln_tainted st) x of None \<Rightarrow> [] | Some es \<Rightarrow> es)"

definition list_items :: "pv \<Rightarrow> pv list result" where
  "list_items v = (case v of PList xs \<Rightarrow> Inr xs | _ \<Rightarrow> Inl TypeError)"

definition replay_row :: "lineage \<Rightarrow> pv \<Rightarrow> lineage result" where
  "replay_row st row =
     bind_r (row_field row ''id'') (\<lambda>v. bind_r (text_of v) (\<lambda>identity.
     bind_r (row_field row ''kind'') (\<lambda>k.
     if is_pstr k ''attestation'' then
       bind_r (row_field row ''inputs'') (\<lambda>w. bind_r (list_items w) (\<lambda>inputs.
       fold_r (link_parent identity) (st \<lparr>ln_objects := dset (ln_objects st) identity (dict_of row)\<rparr>) inputs))
     else if is_pstr k ''review'' \<or> is_pstr k ''corroboration'' then
       (case map_of (ln_objects st) identity of
          None \<Rightarrow> Inr st
        | Some obj \<Rightarrow>
            bind_r (dget obj ''content_hash'') (\<lambda>h.
              Inr (if py_eq (dget_or (dict_of row) ''content_hash'' PNone) h
                   then st \<lparr>ln_objects := dset (ln_objects st) identity (dset obj ''integrity'' (PStr ''reviewed''))\<rparr> else st)))
     else if is_pstr k ''taint'' then
       Inr (st \<lparr>ln_tainted := dset (ln_tainted st) identity (taints_of st identity @ [dict_of row])\<rparr>)
     else Inr st)))"

definition snapshot :: "journal \<Rightarrow> lineage result" where
  "snapshot j = bind_r (journal_records j) (\<lambda>rows. fold_r replay_row empty_lineage rows)"

section \<open>Ancestors and descendants\<close>

text \<open>
  \<^verbatim>\<open>for _ in range(2000)\<close>: the first argument counts the rounds left. Which of several new neighbours is
  visited first depends on the order of a set; neither the result nor the exception does.
\<close>

fun walk_loop :: "nat \<Rightarrow> (string \<Rightarrow> string list) \<Rightarrow> string list \<Rightarrow> string list \<Rightarrow> string list result" where
  "walk_loop 0 edges seen pending = Inl ValueError"
| "walk_loop (Suc n) edges seen pending =
     (if pending = [] then Inr seen
      else let new = filter (\<lambda>y. y \<notin> set seen) (remdups (edges (last pending))) in
           walk_loop n edges (seen @ new) (butlast pending @ new))"

definition walk :: "lineage \<Rightarrow> pv \<Rightarrow> bool \<Rightarrow> string list result" where
  "walk st identity down =
     bind_r (fp_text identity 512) (\<lambda>x.
     bind_r (walk_loop 2000 (edges_from (if down then ln_down st else ln_up st)) [x] [x]) (\<lambda>seen.
       Inr (sort (filter (\<lambda>y. y \<noteq> x) seen))))"

definition ancestors_of :: "lineage \<Rightarrow> pv \<Rightarrow> string list result" where
  "ancestors_of st identity = walk st identity False"

definition descendants_of :: "lineage \<Rightarrow> pv \<Rightarrow> string list result" where
  "descendants_of st identity = walk st identity True"

section \<open>Receipts bound to a record, and scopes\<close>

definition record_class :: "dict \<Rightarrow> string result" where
  "record_class r =
     (if is_pstr (dget_or r ''record_kind'' PNone) ''markdown-store'' then Inr ''markdown-store''
      else if map_of r ''statement'' \<noteq> None \<and> map_of r ''category'' \<noteq> None then Inr ''fact''
      else if map_of r ''context'' \<noteq> None \<and> map_of r ''solution'' \<noteq> None then Inr ''trace''
      else if map_of r ''kind'' \<noteq> None \<and> map_of r ''data'' \<noteq> None \<and> map_of r ''revision'' \<noteq> None
      then bind_r (dget r ''kind'') (\<lambda>k. bind_r (text_of k) (\<lambda>s. Inr (''control:'' @ s)))
      else Inr ''journal'')"

text \<open>\<^verbatim>\<open>verify(root, receipt, record)\<close>: a verified receipt whose record is this one, up to the legacy empty source list of traces.\<close>

definition record_matches :: "pv \<Rightarrow> dict \<Rightarrow> bool result" where
  "record_matches expected record =
     (if py_eq expected (PDict record) then Inr True
      else case expected of
             PDict e \<Rightarrow>
               bind_r (record_class e) (\<lambda>c.
                 Inr (c = ''trace'' \<and> \<not> truthy (dget_or e ''source_traces'' PNone) \<and> \<not> truthy (dget_or record ''source_traces'' PNone)
                   \<and> py_eq (PDict (dpop e ''source_traces'')) (PDict (dpop record ''source_traces''))))
           | _ \<Rightarrow> Inr False)"

definition verify_bound :: "store_keys \<Rightarrow> dict \<Rightarrow> dict \<Rightarrow> bool result" where
  "verify_bound ks receipt record =
     (if \<not> (case dget_or receipt ''authority'' PNone of PStr a \<Rightarrow> a \<in> fst ` set TRUST | _ \<Rightarrow> False) then authority_verify ks receipt
      else bind_r (record_matches (dget_or receipt ''record'' PNone) record) (\<lambda>matches.
           bind_r (authority_verify ks receipt) (\<lambda>ok. Inr (ok \<and> matches))))"

definition split_label :: "string \<Rightarrow> string \<times> string" where
  "split_label l = (let d = takeWhile (\<lambda>c. c \<noteq> CHR '':'') l in (d, drop (Suc (length d)) l))"

definition dimensions :: "pv \<Rightarrow> (string \<times> string list) list result" where
  "dimensions labels =
     (case labels of
        PList xs \<Rightarrow>
          guard_r (\<not> 128 < length xs) ValueError (
          fold_r (\<lambda>groups v. case v of
              PStr l \<Rightarrow> guard_r (1 \<le> py_len l \<and> py_len l \<le> 256) ValueError (case split_label l of (d, w) \<Rightarrow> Inr (add_edge_to groups d w))
            | _ \<Rightarrow> Inl ValueError) [] xs)
      | _ \<Rightarrow> Inl ValueError)"

definition check_source_scopes :: "pv \<Rightarrow> pv list \<Rightarrow> unit result" where
  "check_source_scopes derived sources =
     bind_r (dimensions derived) (\<lambda>wanted.
     bind_r (map_r (\<lambda>source. bind_r (dimensions source) (\<lambda>groups.
       guard_r (list_all (\<lambda>(d, owners). (case map_of wanted d of None \<Rightarrow> False | Some ws \<Rightarrow> set ws = set owners)) groups) PermissionError (Inr ()))) sources) (\<lambda>_.
       Inr ()))"

section \<open>Attesting\<close>

definition object_of :: "lineage \<Rightarrow> string \<Rightarrow> dict" where
  "object_of st x = (case map_of (ln_objects st) x of None \<Rightarrow> [] | Some d \<Rightarrow> d)"

definition level_rank :: "pv \<Rightarrow> int result" where
  "level_rank v = (case v of PStr l \<Rightarrow> (case map_of LEVELS l of None \<Rightarrow> Inl KeyError | Some n \<Rightarrow> Inr n) | PList _ \<Rightarrow> Inl TypeError | PDict _ \<Rightarrow> Inl TypeError | _ \<Rightarrow> Inl KeyError)"

definition integrity_of :: "lineage \<Rightarrow> string \<Rightarrow> pv" where
  "integrity_of st x = dget_or (object_of st x) ''integrity'' (PStr ''unknown'')"

definition receipt_rank :: "dict \<Rightarrow> int" where
  "receipt_rank receipt = (case dget_or receipt ''authority'' (PStr ''unknown'') of PStr a \<Rightarrow> (case map_of LEVELS a of None \<Rightarrow> - 1 | Some n \<Rightarrow> n) | _ \<Rightarrow> - 1)"

definition level_named :: "int \<Rightarrow> string result" where
  "level_named rank =
     (case filter (\<lambda>k. map_of LEVELS k = Some rank) [''unknown'', ''external'', ''agent'', ''user'', ''operator''] of
        [] \<Rightarrow> Inl StopIteration | k # ks \<Rightarrow> Inr k)"

definition ranks_of :: "lineage \<Rightarrow> dict \<Rightarrow> string \<Rightarrow> string list \<Rightarrow> int list result" where
  "ranks_of st receipt identity inputs =
     bind_r (map_r (\<lambda>x. level_rank (integrity_of st x)) inputs) (\<lambda>rs.
     bind_r (case map_of (ln_objects st) identity of
               None \<Rightarrow> Inr []
             | Some before \<Rightarrow> if before = [] then Inr [] else bind_r (dget before ''integrity'') (\<lambda>v. bind_r (level_rank v) (\<lambda>n. Inr [n]))) (\<lambda>own.
       Inr (receipt_rank receipt # rs @ own)))"

text \<open>\<^verbatim>\<open>any(identity in ancestors(root, parent) for parent in inputs)\<close>.\<close>

fun any_ancestor :: "lineage \<Rightarrow> string \<Rightarrow> string list \<Rightarrow> bool result" where
  "any_ancestor st identity [] = Inr False"
| "any_ancestor st identity (p # ps) =
     bind_r (ancestors_of st (PStr p)) (\<lambda>as. if identity \<in> set as then Inr True else any_ancestor st identity ps)"

definition root_origins :: "lineage \<Rightarrow> dict \<Rightarrow> string list \<Rightarrow> string list result" where
  "root_origins st receipt inputs =
     bind_r (map_r (\<lambda>x. bind_r (list_items (dget_or (object_of st x) ''root_origins'' (PList []))) (\<lambda>vs. map_r text_of vs)) inputs) (\<lambda>rss.
     if inputs = [] then bind_r (dget receipt ''principal'') (\<lambda>p. bind_r (fp_text p 512) (\<lambda>s. Inr [s]))
     else Inr (sorted_set (concat rss)))"

definition inherited_scopes :: "lineage \<Rightarrow> string list \<Rightarrow> pv list" where
  "inherited_scopes st inputs = filter is_list (map (\<lambda>x. dget_or (object_of st x) ''confidentiality'' PNone) (filter (\<lambda>x. map_of (ln_objects st) x \<noteq> None) inputs))"

definition confidentiality :: "pv \<Rightarrow> pv list \<Rightarrow> pv result" where
  "confidentiality scopes inherited =
     bind_r (map_r (\<lambda>v. fp_text v 256) (list_of scopes)) (\<lambda>own.
     bind_r (map_r text_of (concat (map list_of inherited))) (\<lambda>more.
       Inr (if own @ more = [] then PStr ''public'' else PList (map PStr (sorted_set (own @ more))))))"

text \<open>\<open>context\<close> is the experiment and arm of the reader, if one is active.\<close>

definition committed :: "(string \<times> string) option \<Rightarrow> dict \<Rightarrow> dict result" where
  "committed context s =
     bind_r (digest (PDict s)) (\<lambda>h.
     let s1 = dset s ''lineage_digest'' (PStr h) in
     case context of
       None \<Rightarrow> Inr s1
     | Some (experiment, arm) \<Rightarrow>
         (let s2 = dset (dset s1 ''experiment'' (PStr experiment)) ''arm'' (PStr arm) in
          bind_r (digest (PDict (dpop s2 ''lineage_digest''))) (\<lambda>h2. Inr (dset s2 ''lineage_digest'' (PStr h2)))))"

definition attestation ::
  "string \<Rightarrow> lineage \<Rightarrow> dict \<Rightarrow> dict \<Rightarrow> string \<Rightarrow> string list \<Rightarrow> pv \<Rightarrow> pv \<Rightarrow> pv \<Rightarrow> (string \<times> string) option \<Rightarrow> dict result" where
  "attestation now st record receipt identity inputs operation model_id prompt_hash context =
     bind_r (any_ancestor st identity inputs) (\<lambda>cyclic. guard_r (\<not> cyclic) ValueError (
     bind_r (ranks_of st receipt identity inputs) (\<lambda>ranks.
     bind_r (level_named (fold min (tl ranks) (hd ranks))) (\<lambda>level.
     bind_r (root_origins st receipt inputs) (\<lambda>roots.
     bind_r (fp_text operation 512) (\<lambda>op'. bind_r (fp_text model_id 512) (\<lambda>model.
     bind_r (dget receipt ''principal'') (\<lambda>actor.
     bind_r (digest (PDict (dpop record ''id''))) (\<lambda>content.
     let scopes = dget_or record ''scopes'' (PList []) in
     guard_r (is_list scopes \<and> \<not> 128 < length (list_of scopes)) ValueError (
     let inherited = inherited_scopes st inputs in
     bind_r (if op' = ''lesson'' then check_source_scopes scopes inherited else Inr ()) (\<lambda>_.
     bind_r (confidentiality scopes inherited) (\<lambda>conf.
     committed context
       [(''kind'', PStr ''attestation''), (''id'', PStr identity),
        (''inputs'', PList (map (\<lambda>x. PDict [(''id'', PStr x), (''content_hash'', dget_or (object_of st x) ''content_hash'' (PStr ''unknown''))]) inputs)),
        (''operation'', PStr op'), (''model_id'', PStr model), (''prompt_hash'', prompt_hash), (''created_at'', PStr now), (''actor'', actor),
        (''content_hash'', PStr content), (''integrity'', PStr level), (''root_origins'', PList (map PStr roots)), (''confidentiality'', conf)]))))))))))))"

definition attest ::
  "store_keys \<Rightarrow> string \<Rightarrow> (string \<times> string) option \<Rightarrow> journal \<Rightarrow> dict \<Rightarrow> dict \<Rightarrow> pv list \<Rightarrow> pv \<Rightarrow> pv \<Rightarrow> pv \<Rightarrow> bool \<Rightarrow> (journal \<times> dict) result" where
  "attest ks now context j record receipt inputs operation model_id prompt_hash publish =
     bind_r (verify_bound ks receipt record) (\<lambda>ok. guard_r ok PermissionError (
     bind_r (fp_text (dget_or record ''id'' (PStr [])) 512) (\<lambda>identity.
     bind_r (count_int (int (length inputs)) 0 256) (\<lambda>_.
     bind_r (map_r (\<lambda>v. fp_text v 512) inputs) (\<lambda>names.
     let ins = sorted_set names in
     guard_r (identity \<notin> set ins) ValueError (
     bind_r (snapshot j) (\<lambda>st.
     bind_r (attestation now st record receipt identity ins operation model_id prompt_hash context) (\<lambda>s.
     if publish then bind_r (journal_append ks now j s) (\<lambda>(j', row). Inr (j', s)) else Inr (j, s)))))))))"

section \<open>Taints and labels\<close>

text \<open>The taint is in the journal before the log entry is made; a failure of the log does not undo it.\<close>

fun find_taint :: "pv \<Rightarrow> dict list \<Rightarrow> dict option result" where
  "find_taint reason [] = Inr None"
| "find_taint reason (e # es) = bind_r (dget e ''reason'') (\<lambda>v. if py_eq v reason then Inr (Some e) else find_taint reason es)"

definition taint :: "store_keys \<Rightarrow> string \<Rightarrow> journal \<Rightarrow> tlog \<Rightarrow> pv \<Rightarrow> pv \<Rightarrow> journal \<times> tlog \<times> dict result" where
  "taint ks now j log identity reason =
     (case bind_r (fp_text identity 512) (\<lambda>x. bind_r (snapshot j) (\<lambda>st.
             bind_r (find_taint reason (rev (taints_of st x))) (\<lambda>found. Inr (x, found)))) of
        Inl e \<Rightarrow> (j, log, Inl e)
      | Inr (x, Some e) \<Rightarrow> (j, log, Inr e)
      | Inr (x, None) \<Rightarrow>
          (case bind_r (fp_text reason 2048) (\<lambda>r. journal_append ks now j [(''kind'', PStr ''taint''), (''id'', PStr x), (''reason'', PStr r)]) of
             Inl e \<Rightarrow> (j, log, Inl e)
           | Inr (j', row) \<Rightarrow>
               (case log_append ks now (PStr ''lineage-taint'') (PDict [(''id'', identity), (''reason'', reason)]) log of
                  Inl e \<Rightarrow> (j', log, Inl e)
                | Inr (log', r) \<Rightarrow> (j', log', Inr row))))"

record label =
  lb_integrity :: pv
  lb_digest :: pv
  lb_review :: bool
  lb_taints :: "(pv \<times> pv) list"

definition labels :: "lineage \<Rightarrow> string \<Rightarrow> label result" where
  "labels st identity =
     bind_r (if ln_tainted st = [] then Inr [identity]
             else bind_r (ancestors_of st (PStr identity)) (\<lambda>as. Inr (sorted_set (as @ [identity])))) (\<lambda>family.
     let taints = concat (map (taints_of st) family) in
     bind_r (map_r (\<lambda>e. bind_r (dget e ''id'') (\<lambda>i. bind_r (dget e ''reason'') (\<lambda>r. Inr (i, r)))) taints) (\<lambda>ts.
       Inr \<lparr>lb_integrity = (if taints \<noteq> [] then PStr ''external'' else integrity_of st identity),
            lb_digest = dget_or (object_of st identity) ''lineage_digest'' (PStr []),
            lb_review = (taints \<noteq> []), lb_taints = ts\<rparr>))"

section \<open>A walk finds what is reachable\<close>

definition step_of :: "(string \<Rightarrow> string list) \<Rightarrow> (string \<times> string) set" where
  "step_of edges = {(a, b). b \<in> set (edges a)}"

lemma walk_loop_reaches:
  assumes "walk_loop n edges seen pending = Inr out" "x \<in> set seen" "set pending \<subseteq> set seen" "\<forall>y \<in> set seen. (x, y) \<in> (step_of edges)\<^sup>*"
    and "\<forall>a \<in> set seen - set pending. set (edges a) \<subseteq> set seen"
  shows "set out = {y. (x, y) \<in> (step_of edges)\<^sup>*}"
  using assms
proof (induction n edges seen pending rule: walk_loop.induct)
  case (2 n edges seen pending)
  show ?case
  proof (cases "pending = []")
    case True
    have "y \<in> set seen" if "(x, y) \<in> (step_of edges)\<^sup>*" for y
      using that by (induction rule: rtrancl_induct) (use 2(3,6) True in \<open>auto simp: step_of_def\<close>)
    with True 2(2,5) show ?thesis by auto
  next
    case False
    let ?new = "filter (\<lambda>y. y \<notin> set seen) (remdups (edges (last pending)))"
    have lp: "last pending \<in> set seen" using False 2(4) by auto
    have bl: "set pending = insert (last pending) (set (butlast pending))" using False by (metis append_butlast_last_id set_append list.set Un_insert_right sup_bot_right)
    have "walk_loop n edges (seen @ ?new) (butlast pending @ ?new) = Inr out" using 2(2) False by (simp add: Let_def)
    moreover have "\<forall>y \<in> set (seen @ ?new). (x, y) \<in> (step_of edges)\<^sup>*"
      using 2(5) lp by (auto simp: step_of_def intro: rtrancl_into_rtrancl)
    moreover have "\<forall>a \<in> set (seen @ ?new) - set (butlast pending @ ?new). set (edges a) \<subseteq> set (seen @ ?new)"
      using 2(6) bl by auto
    moreover have "set (butlast pending @ ?new) \<subseteq> set (seen @ ?new)" using 2(4) bl by auto
    ultimately show ?thesis using 2(1) [OF False refl] 2(3) by simp
  qed
qed simp

text \<open>The walk gives up only where there are as many reachable nodes as rounds.\<close>

lemma walk_loop_gives_up:
  assumes "walk_loop n edges seen pending = Inl e" "x \<in> set seen" "set pending \<subseteq> set seen" "\<forall>y \<in> set seen. (x, y) \<in> (step_of edges)\<^sup>*"
    and "distinct seen" "distinct pending"
  shows "e = ValueError \<and> (\<exists>ys. distinct ys \<and> set ys \<subseteq> {y. (x, y) \<in> (step_of edges)\<^sup>*} \<and> length ys = n + (length seen - length pending))"
  using assms
proof (induction n edges seen pending rule: walk_loop.induct)
  case (1 edges seen pending)
  let ?ys = "filter (\<lambda>y. y \<notin> set pending) seen"
  have "set ?ys = set seen - set pending" by auto
  then have "length ?ys = length seen - length pending"
    using 1(3,5,6) by (metis card_Diff_subset distinct_card distinct_filter List.finite_set)
  moreover have "distinct ?ys" "set ?ys \<subseteq> {y. (x, y) \<in> (step_of edges)\<^sup>*}" using 1(4,5) by auto
  ultimately show ?case using 1(1) by (intro conjI exI [of _ ?ys]) simp_all
next
  case (2 n edges seen pending)
  from 2(2) have ne: "pending \<noteq> []" by auto
  let ?new = "filter (\<lambda>y. y \<notin> set seen) (remdups (edges (last pending)))"
  have lp: "last pending \<in> set seen" using ne 2(4) by auto
  have sub: "set (butlast pending) \<subseteq> set pending" by (auto dest: in_set_butlastD)
  have "walk_loop n edges (seen @ ?new) (butlast pending @ ?new) = Inl e" using 2(2) ne by (simp add: Let_def)
  moreover have "\<forall>y \<in> set (seen @ ?new). (x, y) \<in> (step_of edges)\<^sup>*"
    using 2(5) lp by (auto simp: step_of_def intro: rtrancl_into_rtrancl)
  moreover have "distinct (seen @ ?new)" "distinct (butlast pending @ ?new)" "set (butlast pending @ ?new) \<subseteq> set (seen @ ?new)"
    using 2(4,6,7) sub by (auto simp: distinct_butlast)
  ultimately have ih: "e = ValueError \<and> (\<exists>ys. distinct ys \<and> set ys \<subseteq> {y. (x, y) \<in> (step_of edges)\<^sup>*}
      \<and> length ys = n + (length (seen @ ?new) - length (butlast pending @ ?new)))"
    using 2(1) [OF ne refl] 2(3) by simp
  have "length pending \<le> length seen" using 2(4,6,7) by (metis card_mono distinct_card List.finite_set)
  moreover have "0 < length pending" using ne by simp
  ultimately have "n + (length (seen @ ?new) - length (butlast pending @ ?new)) = Suc n + (length seen - length pending)"
    unfolding length_append length_butlast by linarith
  with ih show ?case by simp
qed

lemma ancestors_ok:
  assumes "ancestors_of st (PStr x) = Inr as"
  shows "set as = {y. (x, y) \<in> (step_of (edges_from (ln_up st)))\<^sup>*} - {x}" "sorted as"
proof -
  from assms obtain out where o: "walk_loop 2000 (edges_from (ln_up st)) [x] [x] = Inr out" "as = sort (filter (\<lambda>y. y \<noteq> x) out)"
    by (auto simp: ancestors_of_def walk_def bind_r_Inr fp_text_Inr)
  have "set out = {y. (x, y) \<in> (step_of (edges_from (ln_up st)))\<^sup>*}" by (rule walk_loop_reaches [OF o(1)]) auto
  with o(2) show "set as = {y. (x, y) \<in> (step_of (edges_from (ln_up st)))\<^sup>*} - {x}" "sorted as" by auto
qed

section \<open>Attestations take the least trust of their inputs\<close>

lemma first_in: "(case xs of [] \<Rightarrow> Inl e | y # ys \<Rightarrow> Inr y) = Inr z \<Longrightarrow> z \<in> set xs"
  by (cases xs) auto

lemma level_named_rank:
  assumes "level_named r = Inr level"
  shows "map_of LEVELS level = Some r"
  using first_in [OF assms [unfolded level_named_def]] unfolding set_filter by blast

lemma fold_min_le: "fold min xs (a :: int) \<le> a \<and> (\<forall>x \<in> set xs. fold min xs a \<le> x)"
proof (induction xs arbitrary: a)
  case (Cons x xs)
  from Cons [of "min x a"] show ?case by auto
qed simp

lemma committed_keeps:
  assumes "committed context s = Inr s'" "k \<notin> {''lineage_digest'', ''experiment'', ''arm''}"
  shows "map_of s' k = map_of s k"
  using assms by (auto simp: committed_def bind_r_Inr Let_def split: option.split_asm)

lemma attestation_Inr:
  assumes "attestation now st record receipt identity inputs operation model_id prompt_hash context = Inr s"
  shows "\<exists>level ranks. ranks_of st receipt identity inputs = Inr ranks \<and> map_of LEVELS level = Some (fold min (tl ranks) (hd ranks))
    \<and> map_of s ''kind'' = Some (PStr ''attestation'') \<and> map_of s ''id'' = Some (PStr identity) \<and> map_of s ''integrity'' = Some (PStr level)
    \<and> map_of s ''inputs'' = Some (PList (map (\<lambda>x. PDict [(''id'', PStr x), (''content_hash'', dget_or (object_of st x) ''content_hash'' (PStr ''unknown''))]) inputs))"
proof -
  from assms obtain level ranks op' model actor content roots conf where
    r: "ranks_of st receipt identity inputs = Inr ranks" "level_named (fold min (tl ranks) (hd ranks)) = Inr level"
    and c: "committed context
       [(''kind'', PStr ''attestation''), (''id'', PStr identity),
        (''inputs'', PList (map (\<lambda>x. PDict [(''id'', PStr x), (''content_hash'', dget_or (object_of st x) ''content_hash'' (PStr ''unknown''))]) inputs)),
        (''operation'', PStr op'), (''model_id'', PStr model), (''prompt_hash'', prompt_hash), (''created_at'', PStr now), (''actor'', actor),
        (''content_hash'', PStr content), (''integrity'', PStr level), (''root_origins'', PList (map PStr roots)), (''confidentiality'', conf)] = Inr s"
    unfolding attestation_def bind_r_Inr guard_r_Inr Let_def by (elim exE conjE) blast
  show ?thesis
    using r(1) level_named_rank [OF r(2)] by (intro exI [of _ level] exI [of _ ranks]) (simp add: committed_keeps [OF c])
qed

lemma attestation_capped:
  assumes "attestation now st record receipt identity inputs operation model_id prompt_hash context = Inr s"
  shows "\<exists>level n. map_of s ''integrity'' = Some (PStr level) \<and> map_of LEVELS level = Some n \<and> n \<le> receipt_rank receipt
    \<and> (\<forall>x \<in> set inputs. \<exists>m. level_rank (integrity_of st x) = Inr m \<and> n \<le> m)
    \<and> (object_of st identity \<noteq> [] \<longrightarrow> (\<exists>m. level_rank (integrity_of st identity) = Inr m \<and> n \<le> m))"
proof -
  from attestation_Inr [OF assms] obtain level ranks where
    a: "ranks_of st receipt identity inputs = Inr ranks" "map_of LEVELS level = Some (fold min (tl ranks) (hd ranks))" "map_of s ''integrity'' = Some (PStr level)" by blast
  from a(1) obtain rs own where r: "map_r (\<lambda>x. level_rank (integrity_of st x)) inputs = Inr rs" "ranks = receipt_rank receipt # rs @ own"
    "(case map_of (ln_objects st) identity of None \<Rightarrow> Inr []
       | Some before \<Rightarrow> if before = [] then Inr [] else bind_r (dget before ''integrity'') (\<lambda>v. bind_r (level_rank v) (\<lambda>n. Inr [n]))) = Inr own"
    by (auto simp: ranks_of_def bind_r_Inr)
  let ?n = "fold min (tl ranks) (hd ranks)"
  have n: "?n \<le> receipt_rank receipt" "\<And>m. m \<in> set (rs @ own) \<Longrightarrow> ?n \<le> m" using fold_min_le [of "tl ranks" "hd ranks"] by (simp_all add: r(2))
  have "\<exists>m. level_rank (integrity_of st x) = Inr m \<and> ?n \<le> m" if "x \<in> set inputs" for x
  proof -
    from that r(1) obtain i where "i < length rs" "level_rank (integrity_of st x) = Inr (rs ! i)" by (auto simp: map_r_Inr list_all2_conv_all_nth in_set_conv_nth)
    then obtain m where "level_rank (integrity_of st x) = Inr m" "m \<in> set rs" by auto
    with n(2) show ?thesis by auto
  qed
  moreover have "\<exists>m. level_rank (integrity_of st identity) = Inr m \<and> ?n \<le> m" if "object_of st identity \<noteq> []"
    using that r(3) n(2) by (auto simp: object_of_def integrity_of_def dget_or_def bind_r_Inr dget_Inr split: option.split_asm if_split_asm)
  ultimately show ?thesis using a(2,3) n(1) by blast
qed

section \<open>Published attestations in the state\<close>

lemma fold_r_append: "fold_r f a (xs @ ys) = bind_r (fold_r f a xs) (\<lambda>b. fold_r f b ys)"
  by (induction xs arbitrary: a) (simp_all add: bind_r_assoc)

lemma edges_dset: "edges_from (dset es x ys) z = (if z = x then ys else edges_from es z)"
  by (simp add: edges_from_def)

lemma edges_add: "set (edges_from (add_edge_to es x y) z) = set (edges_from es z) \<union> (if z = x then {y} else {})"
  unfolding add_edge_to_def edges_dset by (cases "z = x"; cases "y \<in> set (edges_from es x)") auto

lemma link_parent_simp:
  "link_parent identity st (PDict [(''id'', PStr x), (''content_hash'', v)])
    = Inr (st \<lparr>ln_up := add_edge_to (ln_up st) identity x, ln_down := add_edge_to (ln_down st) x identity\<rparr>)"
  by (simp add: link_parent_def row_field_def dget_def text_of_def)

lemma link_parents_ok:
  "\<exists>st'. fold_r (link_parent identity) st (map (\<lambda>x. PDict [(''id'', PStr x), (''content_hash'', h x)]) inputs) = Inr st'
    \<and> ln_objects st' = ln_objects st \<and> ln_tainted st' = ln_tainted st
    \<and> (\<forall>z. set (edges_from (ln_up st') z) = set (edges_from (ln_up st) z) \<union> (if z = identity then set inputs else {}))"
proof (induction inputs arbitrary: st)
  case (Cons x inputs)
  let ?st = "st \<lparr>ln_up := add_edge_to (ln_up st) identity x, ln_down := add_edge_to (ln_down st) x identity\<rparr>"
  from Cons [of ?st] obtain st' where "fold_r (link_parent identity) ?st (map (\<lambda>x. PDict [(''id'', PStr x), (''content_hash'', h x)]) inputs) = Inr st'"
    "ln_objects st' = ln_objects st" "ln_tainted st' = ln_tainted st"
    "\<forall>z. set (edges_from (ln_up st') z) = set (edges_from (add_edge_to (ln_up st) identity x) z) \<union> (if z = identity then set inputs else {})" by auto
  then show ?case by (intro exI [of _ st']) (auto simp: link_parent_simp edges_add)
qed simp

lemma published_state:
  assumes "snapshot j = Inr st" "journal_append ks now j s = Inr (j', row)" "map_of s ''kind'' = Some (PStr ''attestation'')" "map_of s ''id'' = Some (PStr identity)"
    and "map_of s ''inputs'' = Some (PList (map (\<lambda>x. PDict [(''id'', PStr x), (''content_hash'', h x)]) inputs))" "map_of s ''integrity'' = Some level"
  shows "\<exists>st'. snapshot j' = Inr st' \<and> integrity_of st' identity = level \<and> (\<forall>x. x \<noteq> identity \<longrightarrow> object_of st' x = object_of st x)
    \<and> ln_tainted st' = ln_tainted st \<and> step_of (edges_from (ln_up st')) = step_of (edges_from (ln_up st)) \<union> {identity} \<times> set inputs"
proof -
  from assms(1) obtain rows where rows: "journal_records j = Inr rows" "fold_r replay_row empty_lineage rows = Inr st" by (auto simp: snapshot_def bind_r_Inr)
  from jl.append_records [OF assms(2) rows(1)] obtain r' where r': "journal_records j' = Inr (rows @ [PDict r'])" "kept s r'" by blast
  have f: "map_of r' ''kind'' = Some (PStr ''attestation'')" "map_of r' ''id'' = Some (PStr identity)" "map_of r' ''integrity'' = Some level"
    "map_of r' ''inputs'' = Some (PList (map (\<lambda>x. PDict [(''id'', PStr x), (''content_hash'', h x)]) inputs))"
    using keptD [OF r'(2)] assms(3-6) by simp_all
  let ?st = "st \<lparr>ln_objects := dset (ln_objects st) identity r'\<rparr>"
  from link_parents_ok [of identity ?st h inputs] obtain st' where
    l: "fold_r (link_parent identity) ?st (map (\<lambda>x. PDict [(''id'', PStr x), (''content_hash'', h x)]) inputs) = Inr st'"
      "ln_objects st' = dset (ln_objects st) identity r'" "ln_tainted st' = ln_tainted st"
      "\<forall>z. set (edges_from (ln_up st') z) = set (edges_from (ln_up st) z) \<union> (if z = identity then set inputs else {})" by auto
  have "replay_row st (PDict r') = Inr st'"
    using f l(1) by (simp add: replay_row_def row_field_def dget_def text_of_def list_items_def is_pstr_def)
  then have "snapshot j' = Inr st'" using r'(1) rows(2) by (simp add: snapshot_def fold_r_append)
  moreover have "integrity_of st' identity = level" using f(3) by (simp add: integrity_of_def object_of_def l(2) dget_or_def)
  moreover have "object_of st' x = object_of st x" if "x \<noteq> identity" for x using that by (simp add: object_of_def l(2))
  moreover have "step_of (edges_from (ln_up st')) = step_of (edges_from (ln_up st)) \<union> {identity} \<times> set inputs" using l(4) by (auto simp: step_of_def split: if_split_asm)
  ultimately show ?thesis using l(3) by blast
qed

lemma labels_taint:
  assumes "labels st identity = Inr lb"
  shows "lb_review lb \<longleftrightarrow> (\<exists>x. (identity, x) \<in> (step_of (edges_from (ln_up st)))\<^sup>* \<and> taints_of st x \<noteq> [])"
    "lb_integrity lb = (if lb_review lb then PStr ''external'' else integrity_of st identity)"
proof -
  from assms obtain family where f: "(if ln_tainted st = [] then Inr [identity]
      else bind_r (ancestors_of st (PStr identity)) (\<lambda>as. Inr (sorted_set (as @ [identity])))) = Inr family"
    "lb_review lb = (concat (map (taints_of st) family) \<noteq> [])"
    "lb_integrity lb = (if concat (map (taints_of st) family) \<noteq> [] then PStr ''external'' else integrity_of st identity)"
    unfolding labels_def bind_r_Inr Let_def by (elim exE conjE) (simp only: sum.inject, force)
  show "lb_review lb \<longleftrightarrow> (\<exists>x. (identity, x) \<in> (step_of (edges_from (ln_up st)))\<^sup>* \<and> taints_of st x \<noteq> [])"
  proof (cases "ln_tainted st = []")
    case True
    then have "taints_of st x = []" for x by (simp add: taints_of_def)
    then show ?thesis by (simp add: f(2))
  next
    case False
    with f(1) obtain as where as: "ancestors_of st (PStr identity) = Inr as" "family = sorted_set (as @ [identity])" by (auto simp: bind_r_Inr)
    have "set family = {y. (identity, y) \<in> (step_of (edges_from (ln_up st)))\<^sup>*}" using ancestors_ok(1) [OF as(1)] by (auto simp: as(2))
    then show ?thesis unfolding f(2) by auto
  qed
  show "lb_integrity lb = (if lb_review lb then PStr ''external'' else integrity_of st identity)" unfolding f(2,3) ..
qed

section \<open>The property\<close>

text \<open>
  C30: Derivation never raises trust. An attestation carries a level no higher than its receipt's authority,
  the level of every input and that of an earlier attestation of the same object; published, it gives the object
  that level, keeps all others, and makes the inputs its parents. A reader sees an object as external
  and in need of review exactly when it or an ancestor of any degree is tainted.
\<close>

theorem lineage_never_launders:
  assumes "snapshot j = Inr st"
  shows "(attest ks now context j record receipt inputs operation model_id prompt_hash publish = Inr (j', s) \<longrightarrow>
      (\<exists>identity level n. dget_or record ''id'' (PStr []) = PStr identity \<and> map_of s ''integrity'' = Some (PStr level) \<and> map_of LEVELS level = Some n
        \<and> n \<le> receipt_rank receipt \<and> (\<forall>x. PStr x \<in> set inputs \<longrightarrow> (\<exists>m. level_rank (integrity_of st x) = Inr m \<and> n \<le> m))
        \<and> (object_of st identity \<noteq> [] \<longrightarrow> (\<exists>m. level_rank (integrity_of st identity) = Inr m \<and> n \<le> m))
        \<and> (publish \<longrightarrow> (\<exists>st'. snapshot j' = Inr st' \<and> integrity_of st' identity = PStr level \<and> (\<forall>x. x \<noteq> identity \<longrightarrow> object_of st' x = object_of st x)
              \<and> ln_tainted st' = ln_tainted st \<and> step_of (edges_from (ln_up st')) = step_of (edges_from (ln_up st)) \<union> {(identity, x) |x. PStr x \<in> set inputs}))))
    \<and> (labels st y = Inr lb \<longrightarrow>
        (lb_review lb \<longleftrightarrow> (\<exists>x. (y, x) \<in> (step_of (edges_from (ln_up st)))\<^sup>* \<and> taints_of st x \<noteq> []))
        \<and> lb_integrity lb = (if lb_review lb then PStr ''external'' else integrity_of st y))"
proof (intro conjI impI)
  assume "attest ks now context j record receipt inputs operation model_id prompt_hash publish = Inr (j', s)"
  then obtain identity names where a: "dget_or record ''id'' (PStr []) = PStr identity" "map_r (\<lambda>v. fp_text v 512) inputs = Inr names"
    "attestation now st record receipt identity (sorted_set names) operation model_id prompt_hash context = Inr s"
    "publish \<longrightarrow> (\<exists>row. journal_append ks now j s = Inr (j', row))"
    by (auto simp: attest_def bind_r_Inr guard_r_Inr Let_def assms fp_text_Inr split: if_split_asm)
  have "list_all2 (\<lambda>v x. v = PStr x) inputs names" using a(2) unfolding map_r_Inr fp_text_Inr by (rule list_all2_mono) blast
  then have "inputs = map PStr names" by (induction rule: list_all2_induct) simp_all
  then have names: "PStr x \<in> set inputs \<longleftrightarrow> x \<in> set (sorted_set names)" for x by auto
  from attestation_capped [OF a(3)] obtain level n where c: "map_of s ''integrity'' = Some (PStr level)" "map_of LEVELS level = Some n" "n \<le> receipt_rank receipt"
    "\<forall>x \<in> set (sorted_set names). \<exists>m. level_rank (integrity_of st x) = Inr m \<and> n \<le> m"
    "object_of st identity \<noteq> [] \<longrightarrow> (\<exists>m. level_rank (integrity_of st identity) = Inr m \<and> n \<le> m)" by blast
  have p: "\<exists>st'. snapshot j' = Inr st' \<and> integrity_of st' identity = PStr level \<and> (\<forall>x. x \<noteq> identity \<longrightarrow> object_of st' x = object_of st x)
      \<and> ln_tainted st' = ln_tainted st \<and> step_of (edges_from (ln_up st')) = step_of (edges_from (ln_up st)) \<union> {(identity, x) |x. PStr x \<in> set inputs}" if "publish"
  proof -
    from a(4) that obtain row where ap: "journal_append ks now j s = Inr (j', row)" by blast
    from attestation_Inr [OF a(3)] have f: "map_of s ''kind'' = Some (PStr ''attestation'')" "map_of s ''id'' = Some (PStr identity)"
      "map_of s ''inputs'' = Some (PList (map (\<lambda>x. PDict [(''id'', PStr x), (''content_hash'', dget_or (object_of st x) ''content_hash'' (PStr ''unknown''))]) (sorted_set names)))" by blast+
    have "{identity} \<times> set (sorted_set names) = {(identity, x) |x. PStr x \<in> set inputs}" using names by auto
    with published_state [OF assms ap f c(1)] show ?thesis by simp
  qed
  show "\<exists>identity level n. dget_or record ''id'' (PStr []) = PStr identity \<and> map_of s ''integrity'' = Some (PStr level) \<and> map_of LEVELS level = Some n
        \<and> n \<le> receipt_rank receipt \<and> (\<forall>x. PStr x \<in> set inputs \<longrightarrow> (\<exists>m. level_rank (integrity_of st x) = Inr m \<and> n \<le> m))
        \<and> (object_of st identity \<noteq> [] \<longrightarrow> (\<exists>m. level_rank (integrity_of st identity) = Inr m \<and> n \<le> m))
        \<and> (publish \<longrightarrow> (\<exists>st'. snapshot j' = Inr st' \<and> integrity_of st' identity = PStr level \<and> (\<forall>x. x \<noteq> identity \<longrightarrow> object_of st' x = object_of st x)
              \<and> ln_tainted st' = ln_tainted st \<and> step_of (edges_from (ln_up st')) = step_of (edges_from (ln_up st)) \<union> {(identity, x) |x. PStr x \<in> set inputs}))"
    by (rule exI [of _ identity], rule exI [of _ level], rule exI [of _ n]) (use a(1) c p names in simp)
next
  assume lb: "labels st y = Inr lb"
  show "lb_review lb \<longleftrightarrow> (\<exists>x. (y, x) \<in> (step_of (edges_from (ln_up st)))\<^sup>* \<and> taints_of st x \<noteq> [])"
    "lb_integrity lb = (if lb_review lb then PStr ''external'' else integrity_of st y)" by (rule labels_taint [OF lb])+
qed

text \<open>A first attestation, without inputs, of a record the store signed itself.\<close>

definition sample_memory :: dict where
  "sample_memory = [(''id'', PStr ''x'')]"

definition sample_statement :: "string \<Rightarrow> dict" where
  "sample_statement content =
     [(''kind'', PStr ''attestation''), (''id'', PStr ''x''), (''inputs'', PList []), (''operation'', PStr ''o''), (''model_id'', PStr ''m''),
      (''prompt_hash'', PStr []), (''created_at'', PStr ''t''), (''actor'', PStr ''local''), (''content_hash'', PStr content), (''integrity'', PStr ''operator''),
      (''root_origins'', PList [PStr ''local'']), (''confidentiality'', PStr ''public'')]"

lemma sample_attestation_small:
  assumes "is_hash c" "is_hash h"
  shows "small 3 (PDict (sample_statement c))" "small 4 (PDict (stamped (dset (sample_statement c) ''lineage_digest'' (PStr h)) 0 [] ''t''))"
  using assms by (simp_all add: sample_statement_def stamped_def small_eval length_quote_hash)

lemma sample_attest:
  "\<exists>receipt j' s. attest sample_keys ''t'' None empty_journal sample_memory receipt [] (PStr ''o'') (PStr ''m'') (PStr []) True = Inr (j', s)"
proof -
  have sm: "small 3 (PDict sample_memory)" "small 3 (PDict [])" by (simp_all add: sample_memory_def small_eval)
  from sample_signed [OF sm(1)] obtain dig sig where
    d: "is_hash dig" "is_hash sig" "fp_sign sample_keys sample_memory = Inr (sample_row sample_memory dig sig)" by auto
  let ?r = "sample_row sample_memory dig sig"
  have own: "authority_verify sample_keys ?r = Inr True" by (rule own_receipt_verifies(1) [OF d(3) sample_keys_ok])
  have r: "dget_or ?r ''authority'' v = PStr ''operator''" "dget_or ?r ''record'' PNone = PDict sample_memory" "dget ?r ''principal'' = Inr (PStr ''local'')" for v
    by (simp_all add: sample_row_def dget_or_def dget_def)
  have ok: "verify_bound sample_keys ?r sample_memory = Inr True"
    using own by (simp add: verify_bound_def r TRUST_def record_matches_def py_eq_def)
  have st: "snapshot empty_journal = Inr empty_lineage" by (simp add: snapshot_def empty_journal_def journal_records_def event_snapshot_def)
  have "dpop sample_memory ''id'' = []" by (simp add: sample_memory_def dpop_def)
  then obtain c where c: "digest (PDict (dpop sample_memory ''id'')) = Inr c" "is_hash c"
    using small_wire [OF sm(2)] by (simp add: digest_def del: dumps.simps)
  have "receipt_rank ?r = 3" by (simp add: receipt_rank_def r LEVELS_def)
  then have ranks: "ranks_of empty_lineage ?r ''x'' [] = Inr [3]" by (simp add: ranks_of_def empty_lineage_def)
  have level: "level_named 3 = Inr ''operator''" by (simp add: level_named_def LEVELS_def)
  have tx: "fp_text (PStr ''x'') 512 = Inr ''x''" "fp_text (PStr ''o'') 512 = Inr ''o''" "fp_text (PStr ''m'') 512 = Inr ''m''" "fp_text (PStr ''local'') 512 = Inr ''local''"
    by (simp_all add: fp_text_def py_len_def NUL_char)
  have roots: "root_origins empty_lineage ?r [] = Inr [''local'']" by (simp add: root_origins_def r tx)
  have scopes: "dget_or sample_memory ''scopes'' (PList []) = PList []" by (simp add: sample_memory_def dget_or_def)
  have conf: "confidentiality (PList []) (inherited_scopes empty_lineage []) = Inr (PStr ''public'')" by (simp add: confidentiality_def inherited_scopes_def)
  have small: "small 3 (PDict (sample_statement c))" using sample_attestation_small(1) [OF c(2) c(2)] .
  then obtain h where h: "digest (PDict (sample_statement c)) = Inr h" "is_hash h" using small_wire [OF small] by (simp add: digest_def del: dumps.simps)
  let ?s = "dset (sample_statement c) ''lineage_digest'' (PStr h)"
  have s: "committed None (sample_statement c) = Inr ?s" by (simp add: committed_def h(1))
  have att: "attestation ''t'' empty_lineage sample_memory ?r ''x'' [] (PStr ''o'') (PStr ''m'') (PStr []) None = Inr ?s"
    using s by (simp add: attestation_def ranks level roots tx r c(1) scopes conf Let_def sample_statement_def)
  obtain j' row where "journal_append sample_keys ''t'' empty_journal ?s = Inr (j', row)"
    using sample_appended [of 4 ?s empty_journal "''t''"] sample_attestation_small(2) [OF c(2) h(2)] by (auto simp: empty_journal_def MAX_ROWS_def)
  moreover have "dget_or sample_memory ''id'' (PStr []) = PStr ''x''" by (simp add: sample_memory_def dget_or_def)
  ultimately have "attest sample_keys ''t'' None empty_journal sample_memory ?r [] (PStr ''o'') (PStr ''m'') (PStr []) True = Inr (j', ?s)"
    using ok st att by (simp add: attest_def tx count_int_def fp_count_def sorted_set_def)
  then show ?thesis by blast
qed

theorem lineage_never_launders_witness:
  "\<exists>receipt j' s st' level. attest sample_keys ''t'' None empty_journal sample_memory receipt [] (PStr ''o'') (PStr ''m'') (PStr []) True = Inr (j', s)
    \<and> snapshot j' = Inr st' \<and> integrity_of st' ''x'' = PStr level \<and> map_of s ''integrity'' = Some (PStr level)"
proof -
  have st: "snapshot empty_journal = Inr empty_lineage" by (simp add: snapshot_def empty_journal_def journal_records_def event_snapshot_def)
  obtain receipt j' s where a: "attest sample_keys ''t'' None empty_journal sample_memory receipt [] (PStr ''o'') (PStr ''m'') (PStr []) True = Inr (j', s)" using sample_attest by blast
  have "dget_or sample_memory ''id'' (PStr []) = PStr ''x''" by (simp add: sample_memory_def dget_or_def)
  with lineage_never_launders [OF st, THEN conjunct1, THEN mp, OF a] obtain level st' where
    "map_of s ''integrity'' = Some (PStr level)" "snapshot j' = Inr st'" "integrity_of st' ''x'' = PStr level" by auto
  with a show ?thesis by blast
qed

end
