(* ===== verification/Ifc.thy ===== *)
theory Ifc
  imports Lineage PyText
begin

text \<open>
  Labels for readers and aggregation by origin, \<^verbatim>\<open>unimem/memory_ifc.py\<close>: presenting a memory as a procedure or as quoted
  data by its lineage, and answering a question once per origin with a vote whose certificate survives a bounded number of
  corrupted origins. The admission of the identities, which goes through retrieval, and \<^verbatim>\<open>str\<close> of values that
  are not texts are arguments. Corroboration by sensors and the canaries of data egress are not modelled.
\<close>

section \<open>Labels for readers\<close>

definition QUOTE_LIMIT :: nat where
  "QUOTE_LIMIT = 131072"

definition quote_lines :: "nat list \<Rightarrow> nat list" where
  "quote_lines bs = join_lines (map (\<lambda>l. [62, 32] @ l) (lines_from [] bs))"

definition quoted_text :: "string \<Rightarrow> string" where
  "quoted_text content =
     map char_of (quote_lines (filter (\<lambda>b. b \<noteq> 0) (take_points QUOTE_LIMIT (bytes_in content)))
       @ (if QUOTE_LIMIT < py_len content then 10 # bytes_in ''> [truncated]'' else []))"

definition content_of :: "(pv \<Rightarrow> string) \<Rightarrow> dict \<Rightarrow> string" where
  "content_of show item = (case dget_or item ''text'' (dget_or item ''body'' (PStr [])) of PStr s \<Rightarrow> s | v \<Rightarrow> show v)"

definition level_or_unknown :: "pv \<Rightarrow> int result" where
  "level_or_unknown v =
     (case v of
        PStr l \<Rightarrow> Inr (case map_of LEVELS l of None \<Rightarrow> - 1 | Some n \<Rightarrow> n)
      | PList _ \<Rightarrow> Inl TypeError
      | PDict _ \<Rightarrow> Inl TypeError
      | _ \<Rightarrow> Inr (- 1))"

text \<open>\<^verbatim>\<open>identity or str(item.get("id") or item.get("slug") or "")\<close>.\<close>

definition item_identity :: "(pv \<Rightarrow> string) \<Rightarrow> dict \<Rightarrow> string option \<Rightarrow> string" where
  "item_identity show item identity =
     (case identity of
        Some (c # cs) \<Rightarrow> c # cs
      | _ \<Rightarrow>
          (let v = dget_or item ''id'' PNone; w = (if truthy v then v else dget_or item ''slug'' PNone) in
           if \<not> truthy w then [] else case w of PStr s \<Rightarrow> s | _ \<Rightarrow> show w))"

definition label_dict :: "label \<Rightarrow> dict" where
  "label_dict lb =
     [(''integrity'', lb_integrity lb), (''lineage_digest'', lb_digest lb), (''review_required'', PBool (lb_review lb)),
      (''taints'', PList (map (\<lambda>(i, r). PDict [(''id'', i), (''reason'', r)]) (lb_taints lb)))]"

definition updated :: "dict \<Rightarrow> dict \<Rightarrow> dict" where
  "updated d e = foldl (\<lambda>d (k, v). dset d k v) d e"

definition label_item :: "(pv \<Rightarrow> string) \<Rightarrow> lineage \<Rightarrow> dict \<Rightarrow> string option \<Rightarrow> dict result" where
  "label_item show st item identity =
     bind_r (fp_text (PStr (item_identity show item identity)) 512) (\<lambda>x.
     bind_r (labels st x) (\<lambda>lb.
     bind_r (level_or_unknown (lb_integrity lb)) (\<lambda>level.
     let trusted = (2 \<le> level \<and> \<not> lb_review lb);
         result = updated item (label_dict lb @
           [(''confidentiality'', dget_or (object_of st x) ''confidentiality'' (PStr ''unspecified'')), (''procedure'', PBool trusted),
            (''presentation'', PStr (if trusted then ''procedure'' else ''quoted-data''))]) in
     Inr (if trusted then result else dset result ''quoted_text'' (PStr (quoted_text (content_of show item)))))))"

text \<open>\<open>describe\<close> is the text of the exception, cut to 300 characters.\<close>

definition safe_label :: "(exn \<Rightarrow> string) \<Rightarrow> (pv \<Rightarrow> string) \<Rightarrow> lineage result \<Rightarrow> dict \<Rightarrow> string option \<Rightarrow> dict result" where
  "safe_label describe show st item identity =
     (case bind_r st (\<lambda>s. label_item show s item identity) of
        Inr d \<Rightarrow> Inr d
      | Inl e \<Rightarrow>
          if e \<in> {ValueError, OSError, PermissionError, KeyError, TypeError}
          then Inr (updated item
            [(''integrity'', PStr ''unknown''), (''lineage_digest'', PStr []), (''review_required'', PBool True), (''taints'', PList []),
             (''confidentiality'', PStr ''unspecified''), (''procedure'', PBool False), (''presentation'', PStr ''quoted-data''),
             (''quoted_text'', PStr (map char_of (quote_lines (take_points QUOTE_LIMIT (bytes_in (content_of show item)))))),
             (''label_error'', PStr (describe e))])
          else Inl e)"

section \<open>Aggregation by origin\<close>

definition add_member :: "(pv \<Rightarrow> string) \<Rightarrow> lineage \<Rightarrow> (string \<times> dict list) list \<Rightarrow> string \<times> string \<Rightarrow> (string \<times> dict list) list result" where
  "add_member show st groups m =
     bind_r (list_items (dget_or (object_of st (fst m)) ''root_origins'' (PList []))) (\<lambda>roots.
     if length roots \<noteq> 1 then Inr groups
     else bind_r (text_of (hd roots)) (\<lambda>source.
          bind_r (label_item show st [(''id'', PStr (fst m)), (''text'', PStr (snd m))] None) (\<lambda>d.
            Inr (dset groups source ((case map_of groups source of None \<Rightarrow> [] | Some ds \<Rightarrow> ds) @ [d])))))"

definition groups_of :: "(pv \<Rightarrow> string) \<Rightarrow> lineage \<Rightarrow> (string \<times> string) list \<Rightarrow> (string \<times> dict list) list result" where
  "groups_of show st admitted = fold_r (add_member show st) [] admitted"

text \<open>\<^verbatim>\<open>Counter(answers).most_common()\<close>: by falling count, ties in the order of first occurrence.\<close>

definition most_common :: "string list \<Rightarrow> (string \<times> nat) list" where
  "most_common answers = sort_key (\<lambda>p. - int (snd p)) (map (\<lambda>a. (a, count_list answers a)) (rev (remdups (rev answers))))"

record majority =
  vd_answer :: "string option"
  vd_ask_human :: bool
  vd_calls :: nat
  vd_margin :: int
  vd_bound :: int

definition tally :: "int \<Rightarrow> string list \<Rightarrow> majority" where
  "tally f answers =
     (let votes = most_common answers;
          first = (case votes of [] \<Rightarrow> 0 | v # vs \<Rightarrow> int (snd v));
          second = (case votes of v # w # vs \<Rightarrow> int (snd w) | _ \<Rightarrow> 0);
          certified = (2 * f + 1 \<le> int (length answers) \<and> 2 * f < first - second) in
      \<lparr>vd_answer = (if certified then (case votes of [] \<Rightarrow> None | v # vs \<Rightarrow> Some (fst v)) else None), vd_ask_human = (\<not> certified),
       vd_calls = length answers, vd_margin = first - second, vd_bound = f\<rparr>)"

datatype aggregated = Skipped | OverBudget | Verdict majority

definition aggregate ::
  "(pv \<Rightarrow> string) \<Rightarrow> lineage \<Rightarrow> (string \<times> string) list \<Rightarrow> pv list \<Rightarrow> (dict list \<Rightarrow> pv result) \<Rightarrow> bool \<Rightarrow> pv \<Rightarrow> pv \<Rightarrow> aggregated result" where
  "aggregate show st admitted identities answer high_consequence poisoned max_calls =
     bind_r (count_int (int (length identities)) 1 128) (\<lambda>_.
     bind_r (fp_count poisoned 0 3) (\<lambda>f.
     bind_r (fp_count max_calls 1 8) (\<lambda>calls.
     if \<not> high_consequence then Inr Skipped
     else
       bind_r (groups_of show st admitted) (\<lambda>groups.
       if calls < int (length groups) then Inr OverBudget
       else
         bind_r (map_r (\<lambda>source. bind_r (answer (the (map_of groups source))) (\<lambda>v. fp_text v 4096)) (sort (map fst groups))) (\<lambda>answers.
           Inr (Verdict (tally f answers)))))))"

section \<open>A certified answer survives\<close>

lemma most_common_set: "set (most_common answers) = (\<lambda>a. (a, count_list answers a)) ` set answers"
  by (simp add: most_common_def)

lemma most_common_sorted: "sorted (map (\<lambda>p. - int (snd p)) (most_common answers))"
  by (simp add: most_common_def)

lemma most_common_distinct: "distinct (map fst (most_common answers))"
  by (simp add: most_common_def distinct_map inj_on_def)

text \<open>The margin bounds the votes of every other answer.\<close>

lemma tally_Some:
  assumes "vd_answer (tally f answers) = Some a"
  shows "b \<noteq> a \<Longrightarrow> 2 * f < int (count_list answers a) - int (count_list answers b)"
proof -
  let ?v = "most_common answers"
  from assms obtain n vs where v: "?v = (a, n) # vs" and m: "2 * f < int n - (case vs of [] \<Rightarrow> 0 | w # ws \<Rightarrow> int (snd w))"
    by (auto simp: tally_def Let_def split: if_split_asm list.split_asm)
  have n: "n = count_list answers a" using most_common_set [of answers] v by auto
  assume "b \<noteq> a"
  show "2 * f < int (count_list answers a) - int (count_list answers b)"
  proof (cases "b \<in> set answers")
    case True
    then have "(b, count_list answers b) \<in> set vs" using most_common_set [of answers] v \<open>b \<noteq> a\<close> by auto
    then obtain w ws where vs: "vs = w # ws" "(b, count_list answers b) = w \<or> (b, count_list answers b) \<in> set ws" by (cases vs) auto
    have "int (count_list answers b) \<le> int (snd w)" using most_common_sorted [of answers] vs(2) by (auto simp: v vs(1))
    with m n show ?thesis by (simp add: vs(1))
  next
    case False
    then have "count_list answers b = 0" by (simp add: count_list_0_iff)
    moreover have "0 \<le> (case vs of [] \<Rightarrow> 0 | w # ws \<Rightarrow> int (snd w))" by (simp split: list.split)
    ultimately show ?thesis using m n by linarith
  qed
qed

lemma tally_winner:
  assumes "vd_answer (tally f answers) = Some b" "\<And>c. c \<noteq> a \<Longrightarrow> count_list answers c < count_list answers a" "0 \<le> f"
  shows "b = a"
proof (rule ccontr)
  assume "b \<noteq> a"
  with tally_Some [OF assms(1), of a] assms(2) [of b] assms(3) show False by simp
qed

lemma count_differ:
  assumes "length xs = length ys"
  shows "count_list xs a \<le> count_list ys a + card {i. i < length xs \<and> xs ! i \<noteq> ys ! i}"
  using assms
proof (induction xs ys rule: list_induct2)
  case (Cons x xs y ys)
  let ?D = "{i. i < length xs \<and> xs ! i \<noteq> ys ! i}"
  have "{i. i < length (x # xs) \<and> (x # xs) ! i \<noteq> (y # ys) ! i} = (if x \<noteq> y then {0} else {}) \<union> Suc ` ?D"
    by (auto simp: image_iff less_Suc_eq_0_disj nth_Cons')
  moreover have "card (Suc ` ?D) = card ?D" by (simp add: card_image)
  ultimately have "card {i. i < length (x # xs) \<and> (x # xs) ! i \<noteq> (y # ys) ! i} = (if x \<noteq> y then Suc (card ?D) else card ?D)" by auto
  with Cons.IH show ?case by auto
qed simp

lemma answers_differ:
  assumes "map_r f ks = Inr xs" "map_r g ks = Inr ys" "distinct ks"
  shows "card {i. i < length xs \<and> xs ! i \<noteq> ys ! i} \<le> card {k \<in> set ks. f k \<noteq> g k}"
proof -
  have l: "length xs = length ks" "length ys = length ks" using assms by (auto dest: map_r_length)
  have n: "f (ks ! i) = Inr (xs ! i)" "g (ks ! i) = Inr (ys ! i)" if "i < length ks" for i
    using assms(1,2) that by (auto simp: map_r_Inr list_all2_conv_all_nth)
  have "inj_on ((!) ks) {i. i < length xs \<and> xs ! i \<noteq> ys ! i}" using assms(3) l by (auto simp: inj_on_def nth_eq_iff_index_eq)
  moreover have "(!) ks ` {i. i < length xs \<and> xs ! i \<noteq> ys ! i} \<subseteq> {k \<in> set ks. f k \<noteq> g k}" using n l by auto
  ultimately show ?thesis by (intro card_inj_on_le) simp_all
qed

lemma add_member_keys: "add_member show st groups m = Inr groups' \<Longrightarrow> distinct (map fst groups) \<Longrightarrow> distinct (map fst groups')"
  by (auto simp: add_member_def bind_r_Inr distinct_dset split: if_split_asm)

lemma groups_distinct: "groups_of show st admitted = Inr groups \<Longrightarrow> distinct (map fst groups)"
proof -
  have "fold_r (add_member show st) gs ms = Inr groups \<Longrightarrow> distinct (map fst gs) \<Longrightarrow> distinct (map fst groups)" for gs ms
    by (induction ms arbitrary: gs) (auto simp: bind_r_Inr dest: add_member_keys)
  from this [of "[]"] show "groups_of show st admitted = Inr groups \<Longrightarrow> distinct (map fst groups)" by (simp add: groups_of_def)
qed

lemma aggregate_Verdict:
  assumes "aggregate show st admitted ids answer high poisoned calls = Inr (Verdict v)" "groups_of show st admitted = Inr groups"
  obtains f answers where "poisoned = PInt f" "0 \<le> f" "v = tally f answers"
    "map_r (\<lambda>source. bind_r (answer (the (map_of groups source))) (\<lambda>v. fp_text v 4096)) (sort (map fst groups)) = Inr answers"
  using assms unfolding aggregate_def by (auto simp: bind_r_Inr fp_count_Inr split: if_split_asm)

lemma tally_asks: "0 \<le> f \<Longrightarrow> vd_ask_human (tally f xs) \<longleftrightarrow> vd_answer (tally f xs) = None"
  by (cases "most_common xs") (auto simp: tally_def Let_def)

lemma tally_stable:
  assumes "vd_answer (tally f xs) = Some a" "length xs = length ys" "int (card {i. i < length xs \<and> xs ! i \<noteq> ys ! i}) \<le> f"
  shows "b \<noteq> a \<Longrightarrow> count_list ys b < count_list ys a"
proof -
  let ?d = "card {i. i < length xs \<and> xs ! i \<noteq> ys ! i}"
  have "{i. i < length ys \<and> ys ! i \<noteq> xs ! i} = {i. i < length xs \<and> xs ! i \<noteq> ys ! i}" using assms(2) by auto
  then have "count_list ys b \<le> count_list xs b + ?d" "count_list xs a \<le> count_list ys a + ?d"
    using count_differ [OF assms(2) [symmetric], of b] count_differ [OF assms(2), of a] by simp_all
  moreover assume "b \<noteq> a"
  ultimately show "count_list ys b < count_list ys a" using tally_Some [OF assms(1) \<open>b \<noteq> a\<close>] assms(3) by linarith
qed

section \<open>The properties\<close>

text \<open>
  C34: A certified answer survives corrupted origins. When the vote over the origins of one run is certified for a bound
  of \<open>f\<close> corrupted origins, then in every run over the same origins in which at most \<open>f\<close> groups hold other memories,
  the answer still has strictly more votes than every other, and the run returns that answer or asks a human, never
  another answer. A human is asked exactly when there is no certified answer.
\<close>

theorem certified_answer_survives:
  assumes "aggregate show st admitted ids answer high (PInt f) calls = Inr (Verdict v)" "vd_answer v = Some a" "groups_of show st admitted = Inr groups"
    and "aggregate show st' admitted' ids' answer high' (PInt f) calls' = Inr (Verdict v')" "groups_of show st' admitted' = Inr groups'"
    and "set (map fst groups') = set (map fst groups)" "int (card {s \<in> set (map fst groups). map_of groups s \<noteq> map_of groups' s}) \<le> f"
  shows "vd_answer v' \<in> {None, Some a} \<and> (vd_ask_human v' \<longleftrightarrow> vd_answer v' = None)
    \<and> (\<exists>answers. v' = tally f answers \<and> length answers = length groups \<and> (\<forall>b. b \<noteq> a \<longrightarrow> count_list answers b < count_list answers a))"
proof -
  let ?ask = "\<lambda>gs source. bind_r (answer (the (map_of gs source))) (\<lambda>v. fp_text v 4096)"
  obtain xs where x: "0 \<le> f" "v = tally f xs" "map_r (?ask groups) (sort (map fst groups)) = Inr xs"
    using aggregate_Verdict [OF assms(1,3)] by blast
  obtain ys where y: "v' = tally f ys" "map_r (?ask groups') (sort (map fst groups')) = Inr ys"
    using aggregate_Verdict [OF assms(4,5)] by blast
  have d: "distinct (map fst groups)" "distinct (map fst groups')" using groups_distinct assms(3,5) by auto
  have k: "sort (map fst groups') = sort (map fst groups)" by (rule sorted_distinct_set_unique) (use d assms(6) in auto)
  have l: "length xs = length ys" "length ys = length groups" using map_r_length [OF x(3)] map_r_length [OF y(2)] k by simp_all
  have "{s \<in> set (sort (map fst groups)). ?ask groups s \<noteq> ?ask groups' s} \<subseteq> {s \<in> set (map fst groups). map_of groups s \<noteq> map_of groups' s}" by auto
  then have "card {s \<in> set (sort (map fst groups)). ?ask groups s \<noteq> ?ask groups' s} \<le> card {s \<in> set (map fst groups). map_of groups s \<noteq> map_of groups' s}"
    by (rule card_mono [rotated]) simp
  with answers_differ [OF x(3) y(2) [unfolded k]] d(1) assms(7) have "int (card {i. i < length xs \<and> xs ! i \<noteq> ys ! i}) \<le> f" by simp
  from tally_stable [OF assms(2) [unfolded x(2)] l(1) this] have w: "b \<noteq> a \<Longrightarrow> count_list ys b < count_list ys a" for b .
  have "vd_answer (tally f ys) \<in> {None, Some a}"
  proof (cases "vd_answer (tally f ys)")
    case (Some b)
    with tally_winner [OF Some w x(1)] show ?thesis by simp
  qed simp
  moreover have "\<forall>b. b \<noteq> a \<longrightarrow> count_list ys b < count_list ys a" using w by simp
  ultimately show ?thesis unfolding y(1) using tally_asks [OF x(1), of ys] l(2) by (intro conjI exI [of _ ys]) auto
qed

definition sample_sources :: lineage where
  "sample_sources = empty_lineage \<lparr>ln_objects := [(''x'', [(''root_origins'', PList [PStr ''o''])]), (''y'', [(''root_origins'', PList [PStr ''p''])]), (''z'', [(''root_origins'', PList [PStr ''q''])])]\<rparr>"

lemma sample_label:
  "x \<in> {''x'', ''y'', ''z''} \<Longrightarrow> \<exists>d. label_item show sample_sources [(''id'', PStr x), (''text'', PStr t)] None = Inr d"
  by (auto simp: label_item_def item_identity_def dget_or_def truthy_def fp_text_def py_len_def NUL_char labels_def sample_sources_def empty_lineage_def Let_def
      taints_of_def integrity_of_def object_of_def level_or_unknown_def LEVELS_def)

lemma sample_groups:
  "\<exists>a b c. groups_of show sample_sources [(''x'', t), (''y'', u), (''z'', v)] = Inr [(''o'', [a]), (''p'', [b]), (''q'', [c])]
    \<and> Inr a = label_item show sample_sources [(''id'', PStr ''x''), (''text'', PStr t)] None
    \<and> Inr b = label_item show sample_sources [(''id'', PStr ''y''), (''text'', PStr u)] None
    \<and> Inr c = label_item show sample_sources [(''id'', PStr ''z''), (''text'', PStr v)] None"
proof -
  obtain a b c where l: "label_item show sample_sources [(''id'', PStr ''x''), (''text'', PStr t)] None = Inr a"
    "label_item show sample_sources [(''id'', PStr ''y''), (''text'', PStr u)] None = Inr b" "label_item show sample_sources [(''id'', PStr ''z''), (''text'', PStr v)] None = Inr c"
    using sample_label by (metis insertCI)
  have "object_of sample_sources ''x'' = [(''root_origins'', PList [PStr ''o''])]" "object_of sample_sources ''y'' = [(''root_origins'', PList [PStr ''p''])]"
    "object_of sample_sources ''z'' = [(''root_origins'', PList [PStr ''q''])]" by (simp_all add: object_of_def sample_sources_def)
  then have "groups_of show sample_sources [(''x'', t), (''y'', u), (''z'', v)] = Inr [(''o'', [a]), (''p'', [b]), (''q'', [c])]"
    by (simp add: groups_of_def add_member_def dget_or_def list_items_def text_of_def l)
  with l show ?thesis by auto
qed

lemma sample_run:
  "aggregate show sample_sources [(''x'', t), (''y'', u), (''z'', v)] [PStr ''x''] (\<lambda>_. Inr (PStr ''yes'')) True (PInt 1) (PInt 8) = Inr (Verdict (tally 1 [''yes'', ''yes'', ''yes'']))"
  using sample_groups [of "show" t u v] by (auto simp: aggregate_def count_int_def fp_count_def fp_text_def py_len_def NUL_char)

theorem certified_answer_survives_witness:
  "vd_answer (tally 1 [''yes'', ''yes'', ''yes'']) = Some ''yes''
    \<and> (\<exists>v. aggregate (\<lambda>_. []) sample_sources [(''x'', ''t''), (''y'', ''u''), (''z'', ''other'')] [PStr ''x''] (\<lambda>_. Inr (PStr ''yes'')) True (PInt 1) (PInt 8) = Inr (Verdict v)
        \<and> vd_answer v \<in> {None, Some ''yes''})"
proof -
  have a: "vd_answer (tally 1 [''yes'', ''yes'', ''yes'']) = Some ''yes''" by (simp add: tally_def most_common_def Let_def)
  obtain p q r where g: "groups_of (\<lambda>_. []) sample_sources [(''x'', ''t''), (''y'', ''u''), (''z'', ''v'')] = Inr [(''o'', [p]), (''p'', [q]), (''q'', [r])]"
    "Inr p = label_item (\<lambda>_. []) sample_sources [(''id'', PStr ''x''), (''text'', PStr ''t'')] None"
    "Inr q = label_item (\<lambda>_. []) sample_sources [(''id'', PStr ''y''), (''text'', PStr ''u'')] None"
    using sample_groups [of "\<lambda>_. []" "''t''" "''u''" "''v''"] by blast
  obtain p' q' s where h: "groups_of (\<lambda>_. []) sample_sources [(''x'', ''t''), (''y'', ''u''), (''z'', ''other'')] = Inr [(''o'', [p']), (''p'', [q']), (''q'', [s])]"
    "Inr p' = label_item (\<lambda>_. []) sample_sources [(''id'', PStr ''x''), (''text'', PStr ''t'')] None"
    "Inr q' = label_item (\<lambda>_. []) sample_sources [(''id'', PStr ''y''), (''text'', PStr ''u'')] None"
    using sample_groups [of "\<lambda>_. []" "''t''" "''u''" "''other''"] by blast
  have "p' = p" "q' = q" using g(2,3) h(2,3) by (metis sum.inject(2))+
  then have "{x \<in> set (map fst [(''o'', [p]), (''p'', [q]), (''q'', [r])]). map_of [(''o'', [p]), (''p'', [q]), (''q'', [r])] x \<noteq> map_of [(''o'', [p']), (''p'', [q']), (''q'', [s])] x} \<subseteq> {''q''}"
    by auto
  from card_mono [OF _ this] have d: "int (card {x \<in> set (map fst [(''o'', [p]), (''p'', [q]), (''q'', [r])]).
      map_of [(''o'', [p]), (''p'', [q]), (''q'', [r])] x \<noteq> map_of [(''o'', [p']), (''p'', [q']), (''q'', [s])] x}) \<le> 1" by simp
  from certified_answer_survives [OF sample_run a g(1) sample_run h(1) _ d] a sample_run show ?thesis by auto
qed

section \<open>Untrusted memories are quoted\<close>

lemma map_of_updated:
  "distinct (map fst e) \<Longrightarrow> map_of (updated d e) k = (case map_of e k of None \<Rightarrow> map_of d k | Some v \<Rightarrow> Some v)"
proof (induction e arbitrary: d)
  case (Cons p e)
  then have "map_of (updated (dset d (fst p) (snd p)) e) k = (case map_of e k of None \<Rightarrow> map_of (dset d (fst p) (snd p)) k | Some v \<Rightarrow> Some v)" by simp
  moreover have "map_of e k = None" if "k = fst p" using Cons.prems that by (simp add: map_of_eq_None_iff flip: image_set)
  ultimately show ?case by (auto simp: updated_def case_prod_unfold split: option.split)
qed (simp add: updated_def)

lemma lines_bytes: "l \<in> set (lines_from line bs) \<Longrightarrow> set l \<subseteq> set line \<union> set bs"
proof (induction line bs rule: lines_from.induct)
  case (1 line bs)
  show ?case
  proof (cases "bs = []")
    case True
    with 1(3) show ?thesis by (simp add: lines_from.simps [of line "[]"] split: if_split_asm)
  next
    case ne: False
    show ?thesis
    proof (cases "break_at bs = 0")
      case True
      with 1(3) ne have "l \<in> set (lines_from (line @ [hd bs]) (tl bs))" by (simp add: lines_from.simps [of line bs])
      from 1(1) [OF ne True this] ne show ?thesis by (cases bs) auto
    next
      case False
      with 1(3) ne consider "l = line" | "l \<in> set (lines_from [] (drop (break_at bs) bs))" by (auto simp: lines_from.simps [of line bs])
      then show ?thesis
      proof cases
        case 2
        from 1(2) [OF ne False this] show ?thesis using set_drop_subset [of "break_at bs" bs] by auto
      qed simp
    qed
  qed
qed

lemma bytes_of_chars: "\<forall>b \<in> set bs. b < 256 \<Longrightarrow> bytes_in (map char_of bs) = bs"
  by (induction bs) (auto simp: bytes_in_def of_char_of_small)

lemma join_bytes: "set (join_lines ls) \<subseteq> insert 10 (\<Union> (set ` set ls))"
  by (induction ls rule: join_lines.induct) auto

lemma join_snoc: "ls \<noteq> [] \<Longrightarrow> join_lines (ls @ [l]) = join_lines ls @ 10 # l"
  by (induction ls rule: join_lines.induct) (auto simp: neq_Nil_conv)

definition marked :: "nat list \<Rightarrow> bool" where
  "marked l \<longleftrightarrow> l = [] \<or> take 2 l = [62, 32]"

lemma quote_mark [simp]: "break_at (62 # 32 # l) = 0" "break_at (32 # l) = 0"
  by (auto simp: break_at_def)

lemma quoted_unbroken: "unbroken l \<Longrightarrow> unbroken ([62, 32] @ l)"
  by simp

lemma marked_lines:
  assumes "l \<in> set (lines_from [] (quote_lines bs))"
  shows "marked l"
proof -
  let ?ls = "map (\<lambda>l. [62, 32] @ l) (lines_from [] bs)"
  have "unbroken l" if "l \<in> set (lines_from [] bs)" for l using lines_unbroken [OF _ that] by simp
  then have "lines_from [] (quote_lines bs) = ?ls" unfolding quote_lines_def by (intro lines_of_join) (auto simp: quoted_unbroken)
  with assms show ?thesis by (auto simp: marked_def)
qed

lemma marked_truncated:
  assumes "l \<in> set (lines_from [] (quote_lines bs @ 10 # bytes_in ''> [truncated]''))"
  shows "marked l"
proof (cases "lines_from [] bs = []")
  case True
  then have "l \<in> set (lines_from [] (10 # bytes_in ''> [truncated]''))" using assms by (simp add: quote_lines_def)
  moreover have "lines_from [] (10 # bytes_in ''> [truncated]'') = [[], bytes_in ''> [truncated]'']"
    using lines_of_unbroken(1) [of "[]" "[]" "bytes_in ''> [truncated]''"] lines_of_unbroken(2) [of "bytes_in ''> [truncated]''" "[]"]
    by (simp add: bytes_in_def break_at_def)
  ultimately show ?thesis by (auto simp: marked_def bytes_in_def)
next
  case False
  let ?ls = "map (\<lambda>l. [62, 32] @ l) (lines_from [] bs)" and ?t = "bytes_in ''> [truncated]''"
  have u: "unbroken l" if "l \<in> set (lines_from [] bs)" for l using lines_unbroken [OF _ that] by simp
  have "quote_lines bs @ 10 # ?t = join_lines (?ls @ [?t])" unfolding quote_lines_def by (rule join_snoc [symmetric]) (use False in simp)
  moreover have "lines_from [] (join_lines (?ls @ [?t])) = ?ls @ [?t]"
    by (rule lines_of_join) (use u in \<open>auto simp: quoted_unbroken bytes_in_def break_at_def\<close>)
  ultimately have "l \<in> set (?ls @ [?t])" using assms by simp
  then show ?thesis by (auto simp: marked_def bytes_in_def)
qed

lemma small_quotes:
  assumes "\<forall>b \<in> set bs. b < 256"
  shows "\<forall>b \<in> set (quote_lines bs). b < 256"
proof -
  have "set (quote_lines bs) \<subseteq> {10, 62, 32} \<union> set bs"
    using join_bytes [of "map (\<lambda>l. [62, 32] @ l) (lines_from [] bs)"] lines_bytes [of _ "[]" bs] unfolding quote_lines_def by fastforce
  with assms show ?thesis by auto
qed

lemma take_points_subset: "set (take_points n bs) \<subseteq> set bs"
  by (induction n bs rule: take_points.induct) (auto split: if_split_asm nat.split_asm)

lemma quoted_text_marked:
  assumes "l \<in> set (split_lines (quoted_text content))"
  shows "l = [] \<or> take 2 l = ''> ''"
proof -
  let ?b = "filter (\<lambda>b. b \<noteq> 0) (take_points QUOTE_LIMIT (bytes_in content))"
  let ?q = "quote_lines ?b @ (if QUOTE_LIMIT < py_len content then 10 # bytes_in ''> [truncated]'' else [])"
  have "\<forall>b \<in> set ?b. b < 256" using take_points_subset [of QUOTE_LIMIT "bytes_in content"] by (auto simp: bytes_in_def of_char_lt)
  from small_quotes [OF this] have "\<forall>b \<in> set ?q. b < 256" by (auto simp: bytes_in_def of_char_lt simp del: set_filter)
  then have "bytes_in (quoted_text content) = ?q" unfolding quoted_text_def by (rule bytes_of_chars)
  with assms obtain m where m: "m \<in> set (lines_from [] ?q)" "l = map char_of m" unfolding split_lines_def by auto
  have "marked m" using m(1) marked_lines marked_truncated by (auto split: if_split_asm)
  moreover have "char_of (62 :: nat) = CHR ''>''" "char_of (32 :: nat) = CHR '' ''" by (simp_all add: char_of_def bit_iff_odd)
  ultimately show ?thesis unfolding m(2) marked_def by (auto simp: take_map)
qed

lemma label_item_Inr:
  assumes "label_item show st item identity = Inr d"
  obtains x lb level where "fp_text (PStr (item_identity show item identity)) 512 = Inr x" "labels st x = Inr lb" "level_or_unknown (lb_integrity lb) = Inr level"
    "map_of d ''procedure'' = Some (PBool (2 \<le> level \<and> \<not> lb_review lb))"
    "\<not> (2 \<le> level \<and> \<not> lb_review lb) \<longrightarrow> map_of d ''presentation'' = Some (PStr ''quoted-data'') \<and> map_of d ''quoted_text'' = Some (PStr (quoted_text (content_of show item)))"
proof -
  from assms obtain x lb level where k: "fp_text (PStr (item_identity show item identity)) 512 = Inr x" "labels st x = Inr lb" "level_or_unknown (lb_integrity lb) = Inr level"
    and d: "d = (let trusted = (2 \<le> level \<and> \<not> lb_review lb);
         result = updated item (label_dict lb @
           [(''confidentiality'', dget_or (object_of st x) ''confidentiality'' (PStr ''unspecified'')), (''procedure'', PBool trusted),
            (''presentation'', PStr (if trusted then ''procedure'' else ''quoted-data''))]) in
       if trusted then result else dset result ''quoted_text'' (PStr (quoted_text (content_of show item))))"
    unfolding label_item_def bind_r_Inr Let_def by blast
  have "map_of d ''procedure'' = Some (PBool (2 \<le> level \<and> \<not> lb_review lb))"
    "\<not> (2 \<le> level \<and> \<not> lb_review lb) \<longrightarrow> map_of d ''presentation'' = Some (PStr ''quoted-data'') \<and> map_of d ''quoted_text'' = Some (PStr (quoted_text (content_of show item)))"
    unfolding d Let_def by (auto simp: map_of_updated label_dict_def)
  with k that show thesis by blast
qed



end
