(* ===== verification/Approval.thy ===== *)
theory Approval
  imports Journal PyText
begin

text \<open>
  Who may activate a lesson, \<^verbatim>\<open>unimem/approval.py\<close>: the policy file with its strict reading, the recorded authors
  of a lesson and the check of an approver. A policy file is read as written or refused, and a two-person policy lets
  nobody approve what they wrote. \<^verbatim>\<open>str\<close> of values that are not texts is an argument; PolicyError is a ValueError and
  ApprovalDenied a PermissionError.
\<close>

section \<open>The policy\<close>

record approval_policy =
  ap_mode :: string
  ap_require_human :: bool
  ap_auto_approve_drafts :: bool
  ap_require_integrity :: bool

definition POLICIES :: "string list" where
  "POLICIES = [''single'', ''two-person'']"

definition default_policy :: approval_policy where
  "default_policy = \<lparr>ap_mode = ''single'', ap_require_human = False, ap_auto_approve_drafts = False, ap_require_integrity = False\<rparr>"

definition separation_required :: "approval_policy \<Rightarrow> bool" where
  "separation_required p \<longleftrightarrow> ap_mode p = ''two-person''"

definition ALLOWED_KEYS :: "string list" where
  "ALLOWED_KEYS = [''mode'', ''require_human'', ''auto_approve_drafts'', ''require_integrity'']"

definition TRUE_BOOL_STRINGS :: "string list" where
  "TRUE_BOOL_STRINGS = [''true'', ''yes'', ''1'']"

definition VALID_BOOL_STRINGS :: "string list" where
  "VALID_BOOL_STRINGS = [''true'', ''yes'', ''1'', ''false'', ''no'', ''0'']"

definition clean_word :: "string \<Rightarrow> string" where
  "clean_word s = ascii_lower (strip_text s)"

definition as_bool :: "pv \<Rightarrow> bool" where
  "as_bool v = (case v of PStr s \<Rightarrow> clean_word s \<in> set TRUE_BOOL_STRINGS | _ \<Rightarrow> truthy v)"

definition mode_of :: "(pv \<Rightarrow> string) \<Rightarrow> pv \<Rightarrow> string" where
  "mode_of show v = clean_word (case v of PStr s \<Rightarrow> s | _ \<Rightarrow> show v)"

definition bool_ok :: "dict \<Rightarrow> string \<Rightarrow> bool" where
  "bool_ok raw key \<longleftrightarrow> (case map_of raw key of None \<Rightarrow> True | Some (PStr s) \<Rightarrow> clean_word s \<in> set VALID_BOOL_STRINGS | Some (PBool b) \<Rightarrow> True | Some v \<Rightarrow> False)"

definition validate_policy :: "(pv \<Rightarrow> string) \<Rightarrow> dict \<Rightarrow> unit result" where
  "validate_policy show raw =
     guard_r (set (map fst raw) \<subseteq> set ALLOWED_KEYS) ValueError (
     guard_r (case map_of raw ''mode'' of None \<Rightarrow> True | Some v \<Rightarrow> mode_of show v \<in> set POLICIES) ValueError (
     guard_r (list_all (bool_ok raw) [''require_human'', ''auto_approve_drafts'', ''require_integrity'']) ValueError (
     guard_r (\<not> (as_bool (dget_or raw ''require_human'' (PBool False)) \<and> as_bool (dget_or raw ''auto_approve_drafts'' (PBool False)))) ValueError (
       Inr ()))))"

section \<open>The file\<close>

definition quote_char :: "char \<Rightarrow> bool" where
  "quote_char c \<longleftrightarrow> of_char c \<in> {34 :: nat, 39}"

definition strip_quotes :: "string \<Rightarrow> string" where
  "strip_quotes s = rev (dropWhile quote_char (rev (dropWhile quote_char s)))"

definition before :: "char \<Rightarrow> string \<Rightarrow> string" where
  "before c s = takeWhile (\<lambda>d. d \<noteq> c) s"

definition after :: "char \<Rightarrow> string \<Rightarrow> string" where
  "after c s = tl (dropWhile (\<lambda>d. d \<noteq> c) s)"

definition parse_line :: "dict \<Rightarrow> string \<Rightarrow> dict result" where
  "parse_line out line =
     (let stripped = strip_text (before (CHR ''#'') line) in
      if stripped = [] then Inr out
      else
        guard_r (CHR '':'' \<in> set stripped) ValueError (
        let key = strip_quotes (strip_text (before (CHR '':'') stripped)) in
        guard_r (key \<noteq> []) ValueError (
        guard_r (map_of out key = None) ValueError (
          Inr (dset out key (PStr (strip_quotes (strip_text (after (CHR '':'') stripped)))))))))"

definition parse_policy_yaml :: "string \<Rightarrow> dict result" where
  "parse_policy_yaml content = fold_r parse_line [] (split_lines content)"

definition policy_of :: "(pv \<Rightarrow> string) \<Rightarrow> dict \<Rightarrow> approval_policy" where
  "policy_of show raw =
     \<lparr>ap_mode = mode_of show (dget_or raw ''mode'' (PStr ''single'')), ap_require_human = as_bool (dget_or raw ''require_human'' (PBool False)),
      ap_auto_approve_drafts = as_bool (dget_or raw ''auto_approve_drafts'' (PBool False)), ap_require_integrity = as_bool (dget_or raw ''require_integrity'' (PBool False))\<rparr>"

text \<open>\<open>file\<close> is the content of the policy file, if there is one.\<close>

definition load_policy :: "(pv \<Rightarrow> string) \<Rightarrow> string option \<Rightarrow> approval_policy result" where
  "load_policy show file =
     (case file of
        None \<Rightarrow> Inr default_policy
      | Some content \<Rightarrow>
          bind_r (parse_policy_yaml content) (\<lambda>raw. bind_r (validate_policy show raw) (\<lambda>_. Inr (policy_of show raw))))"

section \<open>Approvers\<close>

definition is_agent :: "string \<Rightarrow> bool" where
  "is_agent actor \<longleftrightarrow> take 4 actor = ''mcp:''"

definition add_author :: "string list \<Rightarrow> string \<Rightarrow> string list" where
  "add_author seen raw = (let actor = strip_text raw in if actor \<noteq> [] \<and> actor \<noteq> ''unknown'' \<and> actor \<notin> set seen then seen @ [actor] else seen)"

text \<open>The argument lists the recorded actors of the lesson's history, the empty text where a record has none.\<close>

definition authors_of :: "string list \<Rightarrow> string list" where
  "authors_of actors = foldl add_author [] actors"

definition approval_check :: "approval_policy \<Rightarrow> string \<Rightarrow> string list \<Rightarrow> unit result" where
  "approval_check pol approver authors =
     (let who = strip_text approver in
      guard_r (\<not> (ap_require_human pol \<and> is_agent who)) PermissionError (
      if \<not> separation_required pol then Inr ()
      else guard_r (authors \<noteq> []) PermissionError (guard_r (who \<notin> set authors) PermissionError (Inr ()))))"

section \<open>Reading is strict\<close>

lemma authors_of_set: "set (authors_of actors) = {strip_text x |x. x \<in> set actors \<and> strip_text x \<noteq> [] \<and> strip_text x \<noteq> ''unknown''}"
proof -
  have "set (foldl add_author seen xs) = set seen \<union> {strip_text x |x. x \<in> set xs \<and> strip_text x \<noteq> [] \<and> strip_text x \<noteq> ''unknown''}" for seen xs
    by (induction xs arbitrary: seen) (auto simp: add_author_def Let_def)
  then show ?thesis by (simp add: authors_of_def)
qed

text \<open>What a line of the file says: nothing, or the value of a key.\<close>

definition blank_line :: "string \<Rightarrow> bool" where
  "blank_line line \<longleftrightarrow> strip_text (before (CHR ''#'') line) = []"

definition line_key :: "string \<Rightarrow> string" where
  "line_key line = strip_quotes (strip_text (before (CHR '':'') (strip_text (before (CHR ''#'') line))))"

definition line_value :: "string \<Rightarrow> string" where
  "line_value line = strip_quotes (strip_text (after (CHR '':'') (strip_text (before (CHR ''#'') line))))"

lemma parse_line_Inr:
  "parse_line out line = Inr out' \<longleftrightarrow>
     (if blank_line line then out' = out
      else CHR '':'' \<in> set (strip_text (before (CHR ''#'') line)) \<and> line_key line \<noteq> [] \<and> map_of out (line_key line) = None
        \<and> out' = dset out (line_key line) (PStr (line_value line)))"
  by (auto simp: parse_line_def blank_line_def line_key_def line_value_def Let_def guard_r_Inr)

lemma parse_lines:
  assumes "fold_r parse_line out lines = Inr raw"
  shows "map_of raw k = (case map_of out k of Some v \<Rightarrow> Some v | None \<Rightarrow> map_option (\<lambda>l. PStr (line_value l)) (find (\<lambda>l. \<not> blank_line l \<and> line_key l = k) lines))
    \<and> (\<forall>l \<in> set lines. \<not> blank_line l \<longrightarrow> map_of out (line_key l) = None) \<and> distinct (map line_key (filter (\<lambda>l. \<not> blank_line l) lines))"
  using assms
proof (induction lines arbitrary: out)
  case (Cons l lines)
  then obtain out' where o: "parse_line out l = Inr out'" "fold_r parse_line out' lines = Inr raw" by (auto simp: bind_r_Inr)
  note ih = Cons.IH [OF o(2)]
  show ?case
  proof (cases "blank_line l")
    case True
    with o(1) have "out' = out" by (simp add: parse_line_Inr)
    with ih True show ?thesis by (simp split: option.split)
  next
    case False
    with o(1) have n: "map_of out (line_key l) = None" "out' = dset out (line_key l) (PStr (line_value l))" by (simp_all add: parse_line_Inr)
    have d: "\<forall>l' \<in> set lines. \<not> blank_line l' \<longrightarrow> map_of out (line_key l') = None \<and> line_key l' \<noteq> line_key l" using ih by (auto simp: n(2) split: if_split_asm)
    then have "line_key l \<notin> set (map line_key (filter (\<lambda>l. \<not> blank_line l) lines))" by auto
    with ih False d n show ?thesis by (auto split: option.split_asm option.split)
  qed
qed (simp split: option.split)

lemma policy_settings:
  assumes "parse_policy_yaml content = Inr raw"
  shows "map_of raw k = map_option (\<lambda>l. PStr (line_value l)) (find (\<lambda>l. \<not> blank_line l \<and> line_key l = k) (split_lines content))"
    "distinct (map line_key (filter (\<lambda>l. \<not> blank_line l) (split_lines content)))"
  using parse_lines [OF assms [unfolded parse_policy_yaml_def], of k] by simp_all

lemma validate_policy_Inr:
  assumes "validate_policy show raw = Inr u"
  shows "set (map fst raw) \<subseteq> set ALLOWED_KEYS" "ap_mode (policy_of show raw) \<in> set POLICIES"
    "\<not> (ap_require_human (policy_of show raw) \<and> ap_auto_approve_drafts (policy_of show raw))"
    "map_of raw k = Some (PStr v) \<Longrightarrow> k \<in> {''require_human'', ''auto_approve_drafts'', ''require_integrity''} \<Longrightarrow> clean_word v \<in> set VALID_BOOL_STRINGS"
proof -
  have s: "mode_of show (PStr ''single'') = ''single''"
    by (simp add: mode_of_def clean_word_def strip_text_def strip_bytes_def bytes_in_def lstrip_by_idle space_at_def space_end_def SPACE1_def SPACE2_def SPACE3_def ascii_lower_def char_of_def bit_iff_odd)
  from assms show "set (map fst raw) \<subseteq> set ALLOWED_KEYS" "\<not> (ap_require_human (policy_of show raw) \<and> ap_auto_approve_drafts (policy_of show raw))"
    by (auto simp: validate_policy_def guard_r_Inr policy_of_def)
  from assms s show "ap_mode (policy_of show raw) \<in> set POLICIES"
    by (auto simp: validate_policy_def guard_r_Inr policy_of_def dget_or_def POLICIES_def split: option.split)
  show "map_of raw k = Some (PStr v) \<Longrightarrow> k \<in> {''require_human'', ''auto_approve_drafts'', ''require_integrity''} \<Longrightarrow> clean_word v \<in> set VALID_BOOL_STRINGS"
    using assms by (auto simp: validate_policy_def guard_r_Inr bool_ok_def)
qed

text \<open>The three switches of a policy, by the key that sets them.\<close>

definition switches :: "string list" where
  "switches = [''require_human'', ''auto_approve_drafts'', ''require_integrity'']"

definition switch :: "approval_policy \<Rightarrow> string \<Rightarrow> bool" where
  "switch p k = (if k = ''require_human'' then ap_require_human p else if k = ''auto_approve_drafts'' then ap_auto_approve_drafts p else ap_require_integrity p)"

lemma switch_of: "k \<in> set switches \<Longrightarrow> switch (policy_of show raw) k \<longleftrightarrow> as_bool (dget_or raw k (PBool False))"
  by (auto simp: switch_def switches_def policy_of_def)

lemma line_sets:
  assumes "parse_policy_yaml content = Inr raw" "l \<in> set (split_lines content)" "\<not> blank_line l"
  shows "map_of raw (line_key l) = Some (PStr (line_value l))"
proof -
  let ?P = "\<lambda>l'. \<not> blank_line l' \<and> line_key l' = line_key l"
  have "find ?P (split_lines content) \<noteq> None" unfolding find_None_iff using assms by blast
  then obtain m where m: "find ?P (split_lines content) = Some m" by blast
  then have "m \<in> set (split_lines content)" "\<not> blank_line m" "line_key m = line_key l" by (auto simp: find_Some_iff)
  then have "m = l" using policy_settings(2) [OF assms(1)] assms by (auto simp: distinct_map inj_on_def)
  with policy_settings(1) [OF assms(1), of "line_key l"] m show ?thesis by simp
qed

lemma unset_key:
  assumes "parse_policy_yaml content = Inr raw" "\<forall>l \<in> set (split_lines content). \<not> blank_line l \<longrightarrow> line_key l \<noteq> k"
  shows "map_of raw k = None"
proof -
  have "find (\<lambda>l'. \<not> blank_line l' \<and> line_key l' = k) (split_lines content) = None" unfolding find_None_iff using assms(2) by blast
  then show ?thesis using policy_settings(1) [OF assms(1), of k] by simp
qed

section \<open>The property\<close>

text \<open>
  C36: Approval keeps what the policy says. A policy that was loaded has a known mode and never requires a human and
  approves automatically at once; when it comes from a file, every line of it that is not blank sets an allowed key, no two
  lines set the same key, the mode and the switches have the values written and a switch that is not written is off. An
  approval passes exactly when no agent approves where a human is required and, under separation of duties, somebody is
  recorded as an author and the approver is not one of them.
\<close>

theorem approval_follows_policy:
  assumes "load_policy show file = Inr p"
  shows "ap_mode p \<in> {''single'', ''two-person''} \<and> \<not> (ap_require_human p \<and> ap_auto_approve_drafts p)
    \<and> (\<forall>content. file = Some content \<longrightarrow>
        (\<forall>l \<in> set (split_lines content). \<not> blank_line l \<longrightarrow> line_key l \<in> set ALLOWED_KEYS
          \<and> (line_key l = ''mode'' \<longrightarrow> ap_mode p = clean_word (line_value l))
          \<and> (line_key l \<in> set switches \<longrightarrow> clean_word (line_value l) \<in> set VALID_BOOL_STRINGS \<and> (switch p (line_key l) \<longleftrightarrow> clean_word (line_value l) \<in> set TRUE_BOOL_STRINGS)))
        \<and> (\<forall>k \<in> set switches. (\<forall>l \<in> set (split_lines content). \<not> blank_line l \<longrightarrow> line_key l \<noteq> k) \<longrightarrow> \<not> switch p k)
        \<and> distinct (map line_key (filter (\<lambda>l. \<not> blank_line l) (split_lines content))))
    \<and> (approval_check p approver (authors_of actors) = Inr () \<longleftrightarrow>
        (ap_require_human p \<longrightarrow> take 4 (strip_text approver) \<noteq> ''mcp:'')
        \<and> (ap_mode p = ''two-person'' \<longrightarrow>
            (\<exists>x \<in> set actors. strip_text x \<notin> {[], ''unknown''}) \<and> (\<forall>x \<in> set actors. strip_text x \<notin> {[], ''unknown''} \<longrightarrow> strip_text x \<noteq> strip_text approver)))"
proof -
  have c: "approval_check p approver (authors_of actors) = Inr () \<longleftrightarrow>
        (ap_require_human p \<longrightarrow> take 4 (strip_text approver) \<noteq> ''mcp:'')
        \<and> (ap_mode p = ''two-person'' \<longrightarrow>
            (\<exists>x \<in> set actors. strip_text x \<notin> {[], ''unknown''}) \<and> (\<forall>x \<in> set actors. strip_text x \<notin> {[], ''unknown''} \<longrightarrow> strip_text x \<noteq> strip_text approver))"
    using authors_of_set [of actors] by (auto simp: approval_check_def Let_def guard_r_Inr is_agent_def separation_required_def set_empty [symmetric] simp del: set_empty)
  show ?thesis
  proof (cases "file")
    case None
    with assms have "p = default_policy" by (simp add: load_policy_def)
    with None c show ?thesis by (simp add: default_policy_def)
  next
    case (Some content)
    with assms obtain raw where r: "parse_policy_yaml content = Inr raw" "validate_policy show raw = Inr ()" "p = policy_of show raw"
      by (auto simp: load_policy_def bind_r_Inr)
    note v = validate_policy_Inr [OF r(2)]
    have "line_key l \<in> set ALLOWED_KEYS" "line_key l = ''mode'' \<Longrightarrow> ap_mode p = clean_word (line_value l)"
      "line_key l \<in> set switches \<Longrightarrow> clean_word (line_value l) \<in> set VALID_BOOL_STRINGS \<and> (switch p (line_key l) \<longleftrightarrow> clean_word (line_value l) \<in> set TRUE_BOOL_STRINGS)"
      if "l \<in> set (split_lines content)" "\<not> blank_line l" for l
    proof -
      note k = line_sets [OF r(1) that]
      from map_of_SomeD [OF k] v(1) show "line_key l \<in> set ALLOWED_KEYS" by force
      show "ap_mode p = clean_word (line_value l)" if "line_key l = ''mode''" using k that by (simp add: r(3) policy_of_def dget_or_def mode_of_def)
      show "clean_word (line_value l) \<in> set VALID_BOOL_STRINGS \<and> (switch p (line_key l) \<longleftrightarrow> clean_word (line_value l) \<in> set TRUE_BOOL_STRINGS)" if "line_key l \<in> set switches"
        using v(4) [OF k] that k by (simp add: r(3) switch_of dget_or_def as_bool_def) (auto simp: switches_def)
    qed
    moreover have "\<not> switch p k" if "k \<in> set switches" "\<forall>l \<in> set (split_lines content). \<not> blank_line l \<longrightarrow> line_key l \<noteq> k" for k
      using unset_key [OF r(1) that(2)] that(1) by (simp add: r(3) switch_of dget_or_def as_bool_def truthy_def)
    moreover have "ap_mode p \<in> {''single'', ''two-person''}" "\<not> (ap_require_human p \<and> ap_auto_approve_drafts p)" using v(2,3) by (simp_all add: r(3) POLICIES_def)
    ultimately show ?thesis using c policy_settings(2) [OF r(1)] Some by blast
  qed
qed

text \<open>An approver without a name is nobody's author, so separation of duties does not stop it.\<close>

lemma blank_approver_passes:
  assumes "strip_text approver = []" "\<exists>x \<in> set actors. strip_text x \<notin> {[], ''unknown''}"
  shows "approval_check p approver (authors_of actors) = Inr ()"
proof -
  have "[] \<notin> set (authors_of actors)" "authors_of actors \<noteq> []" using assms(2) authors_of_set [of actors] by force+
  then show ?thesis by (simp add: approval_check_def Let_def is_agent_def assms(1))
qed

definition sample_policy :: string where
  "sample_policy = ''mode: two-person''"

lemmas strip_eval = strip_text_def strip_bytes_def bytes_in_def lstrip_by.simps space_at_def space_end_def SPACE1_def SPACE2_def SPACE3_def

lemma sample_lines: "split_lines sample_policy = [sample_policy]"
proof -
  have "unbroken (bytes_in sample_policy)" by (simp add: sample_policy_def bytes_in_def break_at_def)
  from lines_of_unbroken(2) [OF this, of "[]"] show ?thesis by (simp add: split_lines_def bytes_in_def sample_policy_def char_of_def bit_iff_odd)
qed

lemma sample_policy_loads: "\<exists>p. load_policy (\<lambda>_. []) (Some sample_policy) = Inr p \<and> ap_mode p = ''two-person''"
proof -
  have w: "strip_text ''mode: two-person'' = ''mode: two-person''" "strip_text ''mode'' = ''mode''" "strip_text '' two-person'' = ''two-person''" "strip_text ''two-person'' = ''two-person''"
    by (simp_all add: strip_eval char_of_def bit_iff_odd)
  have "parse_policy_yaml sample_policy = Inr [(''mode'', PStr ''two-person'')]"
    unfolding parse_policy_yaml_def sample_lines by (simp add: parse_line_def sample_policy_def before_def after_def w Let_def strip_quotes_def quote_char_def)
  moreover have m: "mode_of (\<lambda>_. []) (PStr ''two-person'') = ''two-person''"
    by (simp add: mode_of_def clean_word_def w ascii_lower_def)
  ultimately show ?thesis
    by (simp add: load_policy_def validate_policy_def ALLOWED_KEYS_def POLICIES_def bool_ok_def dget_or_def as_bool_def truthy_def policy_of_def)
qed

theorem approval_follows_policy_witness:
  "\<exists>p. load_policy (\<lambda>_. []) (Some sample_policy) = Inr p \<and> approval_check p ''ann'' (authors_of [''bob'']) = Inr () \<and> approval_check p ''ann'' (authors_of [''ann'']) \<noteq> Inr ()"
proof -
  obtain p where p: "load_policy (\<lambda>_. []) (Some sample_policy) = Inr p" "ap_mode p = ''two-person''" using sample_policy_loads by blast
  have w: "strip_text ''ann'' = ''ann''" "strip_text ''bob'' = ''bob''" by (simp_all add: strip_eval char_of_def bit_iff_odd)
  have "approval_check p ''ann'' (authors_of [''bob'']) = Inr ()" using approval_follows_policy [OF p(1), of "''ann''" "[''bob'']"] by (simp add: w)
  moreover have "approval_check p ''ann'' (authors_of [''ann'']) \<noteq> Inr ()" using approval_follows_policy [OF p(1), of "''ann''" "[''ann'']"] p(2) by (simp add: w)
  ultimately show ?thesis using p(1) by blast
qed

end
