(* ===== verification/Stem.thy ===== *)
theory Stem
  imports Prelude
begin

text \<open>
  The English stemmer of lexical retrieval, \<^verbatim>\<open>unimem/_stem.py\<close>, whole: the Porter measure by its two scanning loops, the
  conditions on stems, the suffix tables and the seven steps. The measure counts the changes from vowel to consonant, and
  stemming shortens a word without emptying it. The cache around \<^verbatim>\<open>stem\<close> does not change its results.
\<close>

section \<open>Vowels, consonants and the measure\<close>

fun is_consonant :: "string \<Rightarrow> nat \<Rightarrow> bool" where
  "is_consonant w 0 = (w ! 0 \<notin> set ''aeiou'')"
| "is_consonant w (Suc i) = (if w ! Suc i \<in> set ''aeiou'' then False else if w ! Suc i = CHR ''y'' then \<not> is_consonant w i else True)"

text \<open>\<^verbatim>\<open>while i < n and _is_consonant(stem, i) == c: i += 1\<close>.\<close>

function skip :: "bool \<Rightarrow> string \<Rightarrow> nat \<Rightarrow> nat" where
  "skip c w i = (if i < length w \<and> is_consonant w i = c then skip c w (Suc i) else i)"
  by pat_completeness auto
termination by (relation "measure (\<lambda>(c, w, i). length w - i)") auto

declare skip.simps [simp del] is_consonant.simps [simp del]

lemma skip_ge: "i \<le> skip c w i"
proof (induction c w i rule: skip.induct)
  case (1 c w i)
  then show ?case by (cases "i < length w \<and> is_consonant w i = c") (auto simp: skip.simps [of c w i])
qed

lemma skip_stops: "skip c w i < length w \<Longrightarrow> is_consonant w (skip c w i) \<noteq> c"
proof (induction c w i rule: skip.induct)
  case (1 c w i)
  then show ?case by (cases "i < length w \<and> is_consonant w i = c") (auto simp: skip.simps [of c w i])
qed

function measure_loop :: "string \<Rightarrow> nat \<Rightarrow> nat \<Rightarrow> nat" where
  "measure_loop w i m =
     (if i < length w then
        (let j = skip False w i in
         if length w \<le> j then m else measure_loop w (skip True w j) (Suc m))
      else m)"
  by pat_completeness auto
termination
proof (relation "measure (\<lambda>(w, i, m). length w - i)")
  fix w :: string and i m j
  assume a: "i < length w" "j = skip False w i" "\<not> length w \<le> j"
  then have "is_consonant w j" using skip_stops [of False w i] by simp
  then have "skip True w j = skip True w (Suc j)" using a(3) by (simp add: skip.simps [of True w j])
  then have "Suc j \<le> skip True w j" using skip_ge [of "Suc j" True w] by simp
  then show "((w, skip True w j, Suc m), w, i, m) \<in> measure (\<lambda>(w, i, m). length w - i)" using a skip_ge [of i False w] by simp
qed simp

declare measure_loop.simps [simp del]

definition porter_measure :: "string \<Rightarrow> nat" where
  "porter_measure w = measure_loop w (skip True w 0) 0"

section \<open>Conditions on stems\<close>

definition has_vowel :: "string \<Rightarrow> bool" where
  "has_vowel w \<longleftrightarrow> list_ex (\<lambda>i. \<not> is_consonant w i) [0..<length w]"

definition ends_double_consonant :: "string \<Rightarrow> bool" where
  "ends_double_consonant w \<longleftrightarrow> 2 \<le> length w \<and> last w = last (butlast w) \<and> is_consonant w (length w - 1)"

definition cvc :: "string \<Rightarrow> bool" where
  "cvc w \<longleftrightarrow> 3 \<le> length w \<and> is_consonant w (length w - 3) \<and> \<not> is_consonant w (length w - 2) \<and> is_consonant w (length w - 1) \<and> last w \<notin> set ''wxy''"

definition ends_with :: "string \<Rightarrow> string \<Rightarrow> bool" where
  "ends_with w s \<longleftrightarrow> length s \<le> length w \<and> drop (length w - length s) w = s"

text \<open>\<^verbatim>\<open>w[:-n]\<close> for a positive \<open>n\<close>.\<close>

definition chop :: "nat \<Rightarrow> string \<Rightarrow> string" where
  "chop n w = take (length w - n) w"

definition replace_suffix :: "string \<Rightarrow> string \<Rightarrow> string \<Rightarrow> nat \<Rightarrow> string option" where
  "replace_suffix w suf replacement min_measure =
     (if \<not> ends_with w suf then None
      else let s = chop (length suf) w in Some (if min_measure < porter_measure s then s @ replacement else w))"

section \<open>The steps\<close>

definition step1a :: "string \<Rightarrow> string" where
  "step1a w =
     (if ends_with w ''sses'' then chop 2 w
      else if ends_with w ''ies'' then chop 2 w
      else if ends_with w ''ss'' then w
      else if ends_with w ''s'' then chop 1 w
      else w)"

definition step1b_rest :: "string \<Rightarrow> string \<Rightarrow> string" where
  "step1b_rest w s =
     (if \<not> has_vowel s then w
      else if ends_with s ''at'' \<or> ends_with s ''bl'' \<or> ends_with s ''iz'' then s @ ''e''
      else if ends_double_consonant s \<and> last s \<notin> set ''lsz'' then chop 1 s
      else if porter_measure s = 1 \<and> cvc s then s @ ''e''
      else s)"

definition step1b :: "string \<Rightarrow> string" where
  "step1b w =
     (if ends_with w ''eed'' then (let s = chop 3 w in if 0 < porter_measure s then s @ ''ee'' else w)
      else if ends_with w ''ed'' then step1b_rest w (chop 2 w)
      else if ends_with w ''ing'' then step1b_rest w (chop 3 w)
      else w)"

definition step1c :: "string \<Rightarrow> string" where
  "step1c w = (if ends_with w ''y'' \<and> has_vowel (chop 1 w) then chop 1 w @ ''i'' else w)"

definition STEP2 :: "(string \<times> string) list" where
  "STEP2 = [(''ational'', ''ate''), (''tional'', ''tion''), (''enci'', ''ence''), (''anci'', ''ance''),
     (''izer'', ''ize''), (''abli'', ''able''), (''alli'', ''al''), (''entli'', ''ent''), (''eli'', ''e''),
     (''ousli'', ''ous''), (''ization'', ''ize''), (''ation'', ''ate''), (''ator'', ''ate''),
     (''alism'', ''al''), (''iveness'', ''ive''), (''fulness'', ''ful''), (''ousness'', ''ous''),
     (''aliti'', ''al''), (''iviti'', ''ive''), (''biliti'', ''ble'')]"

definition STEP3 :: "(string \<times> string) list" where
  "STEP3 = [(''icate'', ''ic''), (''ative'', ''''), (''alize'', ''al''), (''iciti'', ''ic''), (''ical'', ''ic''), (''ful'', ''''), (''ness'', '''')]"

definition STEP4 :: "string list" where
  "STEP4 = [''al'', ''ance'', ''ence'', ''er'', ''ic'', ''able'', ''ible'', ''ant'', ''ement'', ''ment'', ''ent'',
     ''ion'', ''ou'', ''ism'', ''ate'', ''iti'', ''ous'', ''ive'', ''ize'']"

fun table_loop :: "string \<Rightarrow> (string \<times> string) list \<Rightarrow> string" where
  "table_loop w [] = w"
| "table_loop w ((suf, replacement) # rest) = (case replace_suffix w suf replacement 0 of None \<Rightarrow> table_loop w rest | Some out \<Rightarrow> out)"

definition step_table :: "string \<Rightarrow> (string \<times> string) list \<Rightarrow> string" where
  "step_table w table = table_loop w (sort_key (\<lambda>p. - int (length (fst p))) table)"

text \<open>\<^verbatim>\<open>sorted(_STEP4, key=len, reverse=True)\<close> keeps the order of equal lengths too.\<close>

fun step4_loop :: "string \<Rightarrow> string list \<Rightarrow> string" where
  "step4_loop w [] = w"
| "step4_loop w (suf # rest) =
     (if \<not> ends_with w suf then step4_loop w rest
      else let s = chop (length suf) w in
           if suf = ''ion'' \<and> \<not> (ends_with s ''s'' \<or> ends_with s ''t'') then w
           else if 1 < porter_measure s then s else w)"

definition step4 :: "string \<Rightarrow> string" where
  "step4 w = step4_loop w (sort_key (\<lambda>s. - int (length s)) STEP4)"

definition drop_e :: "string \<Rightarrow> string" where
  "drop_e w =
     (if ends_with w ''e'' then
        (let s = chop 1 w; m = porter_measure s in if 1 < m \<or> m = 1 \<and> \<not> cvc s then s else w)
      else w)"

definition step5 :: "string \<Rightarrow> string" where
  "step5 w =
     (let w1 = drop_e w in
      if 1 < porter_measure w1 \<and> ends_double_consonant w1 \<and> ends_with w1 ''l'' then chop 1 w1 else w1)"

definition ascii_letter :: "char \<Rightarrow> bool" where
  "ascii_letter c \<longleftrightarrow> (let n = (of_char c :: nat) in 65 \<le> n \<and> n \<le> 90 \<or> 97 \<le> n \<and> n \<le> 122)"

text \<open>A word that is alphabetic and ASCII consists of ASCII letters; its length is its number of bytes.\<close>

definition stem :: "string \<Rightarrow> string" where
  "stem word =
     (if length word \<le> 2 \<or> \<not> list_all ascii_letter word then word
      else step5 (step4 (step_table (step_table (step1c (step1b (step1a word))) STEP2) STEP3)))"

section \<open>The measure counts transitions\<close>

lemma skip_run: "i \<le> p \<Longrightarrow> p < skip c w i \<Longrightarrow> p < length w \<and> is_consonant w p = c"
proof (induction c w i rule: skip.induct)
  case (1 c w i)
  show ?case
  proof (cases "i < length w \<and> is_consonant w i = c")
    case True
    with 1 show ?thesis by (cases "i = p") (simp_all add: skip.simps [of c w i])
  next
    case False
    with 1(2,3) show ?thesis by (simp add: skip.simps [of c w i])
  qed
qed

text \<open>The places where a vowel is followed by a consonant, from position \<open>i\<close> on.\<close>

definition transitions :: "string \<Rightarrow> nat \<Rightarrow> nat set" where
  "transitions w i = {j. i \<le> j \<and> Suc j < length w \<and> \<not> is_consonant w j \<and> is_consonant w (Suc j)}"

lemma finite_transitions [simp]: "finite (transitions w i)"
  by (rule finite_subset [of _ "{..<length w}"]) (auto simp: transitions_def)

lemma skip_consonants: "transitions w (skip True w i) = transitions w i"
proof -
  have "skip True w i \<le> p" if "i \<le> p" "\<not> is_consonant w p" for p using skip_run [of i p True w] that by (meson not_le)
  then show ?thesis using skip_ge [of i True w] by (fastforce simp: transitions_def)
qed

lemma skip_vowels:
  assumes "i < length w" "\<not> is_consonant w i"
  shows "card (transitions w i) = (if length w \<le> skip False w i then 0 else Suc (card (transitions w (skip False w i))))"
proof -
  let ?j = "skip False w i"
  have "skip False w i = skip False w (Suc i)" using assms by (simp add: skip.simps [of False w i])
  then have ij: "i < ?j" using skip_ge [of "Suc i" False w] by simp
  have v: "\<not> is_consonant w p" if "i \<le> p" "p < ?j" for p using skip_run [OF that] by simp
  show ?thesis
  proof (cases "length w \<le> ?j")
    case True
    have "transitions w i = {}" using v True by (auto simp: transitions_def)
    with True show ?thesis by simp
  next
    case False
    then have c: "is_consonant w ?j" using skip_stops [of False w i] by simp
    have "transitions w i = insert (?j - 1) (transitions w ?j)"
    proof (intro set_eqI iffI)
      fix p assume p: "p \<in> transitions w i"
      then have "\<not> Suc p < ?j" using v [of "Suc p"] by (auto simp: transitions_def)
      with p show "p \<in> insert (?j - 1) (transitions w ?j)" by (auto simp: transitions_def)
    next
      fix p assume "p \<in> insert (?j - 1) (transitions w ?j)"
      moreover have "\<not> is_consonant w (?j - 1)" "i \<le> ?j - 1" "Suc (?j - 1) = ?j" using v [of "?j - 1"] ij by simp_all
      ultimately show "p \<in> transitions w i" using ij False c by (auto simp: transitions_def)
    qed
    moreover have "?j - 1 \<notin> transitions w ?j" using ij by (auto simp: transitions_def)
    ultimately show ?thesis using False by simp
  qed
qed

lemma measure_loop_counts: "i < length w \<longrightarrow> \<not> is_consonant w i \<Longrightarrow> measure_loop w i m = m + card (transitions w i)"
proof (induction w i m rule: measure_loop.induct)
  case (1 w i m)
  show ?case
  proof (cases "i < length w")
    case i: True
    let ?j = "skip False w i"
    show ?thesis
    proof (cases "length w \<le> ?j")
      case True
      with i 1(2) skip_vowels [of i w] show ?thesis by (simp add: measure_loop.simps [of w i m] Let_def)
    next
      case False
      have "skip True w ?j < length w \<longrightarrow> \<not> is_consonant w (skip True w ?j)" using skip_stops [of True w ?j] by simp
      from 1(1) [OF i refl False this] have "measure_loop w (skip True w ?j) (Suc m) = Suc m + card (transitions w ?j)" by (simp add: skip_consonants)
      with i 1(2) False skip_vowels [of i w] show ?thesis by (simp add: measure_loop.simps [of w i m] Let_def)
    qed
  next
    case False
    then have "transitions w i = {}" by (auto simp: transitions_def)
    with False show ?thesis by (simp add: measure_loop.simps [of w i m])
  qed
qed

lemma porter_measure_counts: "porter_measure w = card (transitions w 0)"
  using measure_loop_counts [of "skip True w 0" w 0] skip_stops [of True w 0] by (simp add: porter_measure_def skip_consonants)

lemma measure_Nil [simp]: "porter_measure [] = 0"
  by (simp add: porter_measure_counts transitions_def)

section \<open>Stems are shorter words\<close>

lemma ends_with_chop: "ends_with w s \<Longrightarrow> w = chop (length s) w @ s"
  unfolding ends_with_def chop_def by (metis append_take_drop_id)

lemma length_chop [simp]: "length (chop n w) = length w - n"
  by (simp add: chop_def)

lemma set_chop: "set (chop n w) \<subseteq> set w"
  by (simp add: chop_def set_take_subset)

text \<open>What each step keeps of a word that is not empty.\<close>

definition shortens :: "string \<Rightarrow> string \<Rightarrow> bool" where
  "shortens w v \<longleftrightarrow> v \<noteq> [] \<and> length v \<le> length w \<and> (list_all ascii_letter w \<longrightarrow> list_all ascii_letter v)"

lemma shortens_refl: "w \<noteq> [] \<Longrightarrow> shortens w w"
  by (simp add: shortens_def)

lemma shortens_trans: "shortens u v \<Longrightarrow> shortens v w \<Longrightarrow> shortens u w"
  by (auto simp: shortens_def)

lemma letters [simp]:
  "ascii_letter CHR ''e''" "ascii_letter CHR ''i''"
  by (simp_all add: ascii_letter_def)

lemma shortens_chop: "n < length w \<Longrightarrow> shortens w (chop n w)"
  using set_chop [of n w] by (auto simp: shortens_def list_all_iff simp flip: length_greater_0_conv)

lemma shortens_suffix:
  assumes "n + length r \<le> length w + length r" "chop n w \<noteq> [] \<or> r \<noteq> []" "length r \<le> n" "list_all ascii_letter r" "n \<le> length w"
  shows "shortens w (chop n w @ r)"
  using assms set_chop [of n w] by (auto simp: shortens_def list_all_iff)

lemma shortens_step1a: "2 < length w \<Longrightarrow> shortens w (step1a w)"
  by (auto simp: step1a_def intro!: shortens_chop shortens_refl)

lemma shortens_rest:
  assumes "w \<noteq> []" "n \<le> length w" "2 \<le> n"
  shows "shortens w (step1b_rest w (chop n w))"
proof (cases "has_vowel (chop n w)")
  case True
  then have ne: "n < length w" by (auto simp: has_vowel_def list_ex_iff)
  have "shortens w (chop n w @ ''e'')" using assms ne by (intro shortens_suffix) auto
  moreover have "shortens w (chop 1 (chop n w))" if "ends_double_consonant (chop n w)"
    using that by (intro shortens_trans [OF shortens_chop [OF ne]] shortens_chop) (auto simp: ends_double_consonant_def)
  ultimately show ?thesis using shortens_chop [OF ne] shortens_refl [OF assms(1)] by (auto simp: step1b_rest_def)
qed (use shortens_refl [OF assms(1)] in \<open>simp add: step1b_rest_def\<close>)

lemma ends_with_length: "ends_with w s \<Longrightarrow> length s \<le> length w"
  by (simp add: ends_with_def)

lemma shortens_step1b: "w \<noteq> [] \<Longrightarrow> shortens w (step1b w)"
  using ends_with_length [of w "''eed''"] ends_with_length [of w "''ed''"] ends_with_length [of w "''ing''"]
  by (auto simp: step1b_def Let_def intro!: shortens_refl shortens_rest shortens_suffix)

lemma shortens_step1c: "w \<noteq> [] \<Longrightarrow> shortens w (step1c w)"
  using ends_with_length [of w "''y''"] by (auto simp: step1c_def intro!: shortens_refl shortens_suffix)

lemma shortens_table_loop:
  assumes "w \<noteq> []" "\<forall>(s, r) \<in> set table. length r \<le> length s \<and> list_all ascii_letter r"
  shows "shortens w (table_loop w table)"
  using assms
proof (induction w table rule: table_loop.induct)
  case (2 w suf r rest)
  show ?case
  proof (cases "ends_with w suf")
    case True
    then have l: "length suf \<le> length w" by (rule ends_with_length)
    have "shortens w (chop (length suf) w @ r)" if "0 < porter_measure (chop (length suf) w)"
    proof -
      have "chop (length suf) w \<noteq> []" using that by (metis less_irrefl measure_Nil)
      with 2(3) l show ?thesis by (intro shortens_suffix) auto
    qed
    with True 2(2) show ?thesis by (simp add: replace_suffix_def Let_def shortens_refl)
  next
    case False
    with 2 show ?thesis by (simp add: replace_suffix_def)
  qed
qed (simp add: shortens_refl)

lemma shortens_table:
  assumes "w \<noteq> []" "\<forall>(s, r) \<in> set table. length r \<le> length s \<and> list_all ascii_letter r"
  shows "shortens w (step_table w table)"
  unfolding step_table_def by (rule shortens_table_loop) (use assms in auto)

lemma tables_shorten:
  "\<forall>(s, r) \<in> set STEP2. length r \<le> length s \<and> list_all ascii_letter r" "\<forall>(s, r) \<in> set STEP3. length r \<le> length s \<and> list_all ascii_letter r"
  by (simp_all add: STEP2_def STEP3_def ascii_letter_def)

lemma shortens_step4: "w \<noteq> [] \<Longrightarrow> shortens w (step4 w)"
proof -
  have "w \<noteq> [] \<Longrightarrow> shortens w (step4_loop w sufs)" for sufs
  proof (induction w sufs rule: step4_loop.induct)
    case (2 w suf rest)
    have "shortens w (chop (length suf) w)" if "1 < porter_measure (chop (length suf) w)"
    proof (rule shortens_chop)
      have "chop (length suf) w \<noteq> []" using that by (metis measure_Nil not_less_zero)
      then show "length suf < length w" by (simp add: chop_def)
    qed
    with 2 show ?case by (simp add: Let_def shortens_refl)
  qed (simp add: shortens_refl)
  then show "w \<noteq> [] \<Longrightarrow> shortens w (step4 w)" by (simp add: step4_def)
qed

lemma shortens_step5:
  assumes "w \<noteq> []"
  shows "shortens w (step5 w)"
proof -
  have "shortens w (drop_e w)"
  proof (cases "chop 1 w = []")
    case True
    then show ?thesis using shortens_refl [OF assms] by (simp add: drop_e_def Let_def)
  next
    case False
    then have "1 < length w" by (simp add: chop_def)
    then show ?thesis using shortens_chop [of 1 w] shortens_refl [OF assms] by (simp add: drop_e_def Let_def)
  qed
  moreover have "shortens (drop_e w) (chop 1 (drop_e w))" if "ends_double_consonant (drop_e w)"
    using that by (intro shortens_chop) (simp add: ends_double_consonant_def)
  ultimately show ?thesis by (auto simp: step5_def Let_def intro: shortens_trans)
qed

section \<open>The property\<close>

text \<open>
  The stemmer is total and only shortens. Its measure, computed by two scanning loops, is the number of places where
  a vowel is followed by a consonant. Every word has a stem that is not empty when the word is not, is no longer than
  the word and consists of ASCII letters when the word does; words of at most two characters and words with any
  other character are their own stem.
\<close>

theorem stem_shortens:
  shows "porter_measure w = card {j. Suc j < length w \<and> \<not> is_consonant w j \<and> is_consonant w (Suc j)}
    \<and> length (stem w) \<le> length w \<and> (stem w = [] \<longleftrightarrow> w = []) \<and> (list_all ascii_letter w \<longrightarrow> list_all ascii_letter (stem w))
    \<and> (length w \<le> 2 \<or> \<not> list_all ascii_letter w \<longrightarrow> stem w = w)"
proof -
  have s: "shortens w (stem w)" if "2 < length w"
  proof (cases "list_all ascii_letter w")
    case True
    let ?a = "step1a w" let ?b = "step1b ?a" let ?c = "step1c ?b" let ?d = "step_table ?c STEP2" let ?e = "step_table ?d STEP3"
    have a: "shortens w ?a" by (rule shortens_step1a [OF that])
    have b: "shortens ?a ?b" by (rule shortens_step1b) (use a in \<open>simp add: shortens_def\<close>)
    have c: "shortens ?b ?c" by (rule shortens_step1c) (use b in \<open>simp add: shortens_def\<close>)
    have d: "shortens ?c ?d" by (rule shortens_table [OF _ tables_shorten(1)]) (use c in \<open>simp add: shortens_def\<close>)
    have e: "shortens ?d ?e" by (rule shortens_table [OF _ tables_shorten(2)]) (use d in \<open>simp add: shortens_def\<close>)
    have f: "shortens ?e (step4 ?e)" by (rule shortens_step4) (use e in \<open>simp add: shortens_def\<close>)
    have g: "shortens (step4 ?e) (step5 (step4 ?e))" by (rule shortens_step5) (use f in \<open>simp add: shortens_def\<close>)
    from shortens_trans [OF shortens_trans [OF shortens_trans [OF shortens_trans [OF shortens_trans [OF shortens_trans [OF a b] c] d] e] f] g] that True
    show ?thesis by (simp add: stem_def)
  next
    case False
    moreover have "w \<noteq> []" using that by auto
    ultimately show ?thesis by (simp add: stem_def shortens_refl)
  qed
  have small: "stem w = w" if "\<not> 2 < length w" using that by (simp add: stem_def)
  have "transitions w 0 = {j. Suc j < length w \<and> \<not> is_consonant w j \<and> is_consonant w (Suc j)}" by (simp add: transitions_def)
  then show ?thesis using s small porter_measure_counts [of w] by (cases "2 < length w") (auto simp: shortens_def stem_def)
qed

theorem stem_shortens_witness:
  "stem ''caresses'' = ''caress'' \<and> length (stem ''caresses'') \<le> length ''caresses'' \<and> stem ''by'' = ''by''"
proof -
  have "stem ''caresses'' = ''caress''" by code_simp
  with stem_shortens [of "''caresses''"] stem_shortens [of "''by''"] show ?thesis by simp
qed

end
