(* ===== verification/Logs.thy ===== *)
theory Logs
  imports Complex_Main
begin

text \<open>
  Upper bounds of logarithms over the reals, proved from partial sums of the exponential series. They justify the tables
  of rounded logarithms of \<^verbatim>\<open>unimem/zk_effect.py\<close>.
\<close>

section \<open>Logarithms\<close>

text \<open>A partial sum of the exponential series is a lower bound, which turns a table entry into a check of rationals.\<close>

lemma exp_ge_series: assumes "0 \<le> (x :: real)" shows "(\<Sum>m<n. x ^ m / fact m) \<le> exp x"
proof -
  obtain t where t: "exp x = (\<Sum>m<n. x ^ m / fact m) + (exp t / fact n) * x ^ n" using Maclaurin_exp_le [of x n] by blast
  have "0 \<le> (exp t / fact n) * x ^ n" using assms by simp
  with t show ?thesis by linarith
qed

lemma ln_le_series: assumes "0 < y" "0 \<le> (x :: real)" "y \<le> (\<Sum>m<n. x ^ m / fact m)" shows "ln y \<le> x"
proof -
  have "y \<le> exp x" using assms(3) exp_ge_series [OF assms(2), of n] by linarith
  then show ?thesis using assms(1) by (metis exp_gt_zero ln_exp ln_le_cancel_iff)
qed

text \<open>The terms of the series are bounded from below by integers in units of \<open>1 / c\<close>; \<open>f\<close> and \<open>p\<close> are the running denominator and power.\<close>

fun terms_below :: "nat \<Rightarrow> nat \<Rightarrow> nat \<Rightarrow> nat \<Rightarrow> nat \<Rightarrow> nat \<Rightarrow> nat list \<Rightarrow> bool" where
  "terms_below b x c k f p [] = True"
| "terms_below b x c k f p (d # ds) \<longleftrightarrow> d * f \<le> p * c \<and> terms_below b x c (k + 1) (f * k * b) (p * x) ds"

lemma terms_below_nth:
  "terms_below b x c (m + 1) (fact m * b ^ m) (x ^ m) ds \<Longrightarrow> i < length ds \<Longrightarrow> ds ! i * (fact (m + i) * b ^ (m + i)) \<le> x ^ (m + i) * c"
proof (induction ds arbitrary: m i)
  case (Cons d ds)
  have s: "terms_below b x c (Suc m + 1) (fact (Suc m) * b ^ Suc m) (x ^ Suc m) ds" using Cons.prems(1) by (simp add: algebra_simps)
  show ?case
  proof (cases i)
    case 0
    then show ?thesis using Cons.prems(1) by simp
  next
    case (Suc j)
    with Cons.prems(2) Cons.IH [OF s, of j] show ?thesis by simp
  qed
qed simp

lemma ln_le_terms:
  assumes "terms_below b x c 1 1 1 ds" "y * real c \<le> real (sum_list ds)" "0 < y" "0 < b" "0 < c"
  shows "ln y \<le> real x / real b"
proof (rule ln_le_series [where n = "length ds"])
  let ?x = "real x / real b"
  have t: "real (ds ! m) / real c \<le> ?x ^ m / fact m" if "m < length ds" for m
  proof -
    have "ds ! m * (fact m * b ^ m) \<le> x ^ m * c" using terms_below_nth [of b x c 0 ds m] assms(1) that by simp
    then have "real (ds ! m * (fact m * b ^ m)) \<le> real (x ^ m * c)" by (simp only: of_nat_le_iff)
    then show ?thesis using assms(4,5) by (simp add: power_divide field_simps)
  qed
  have "y \<le> real (sum_list ds) / real c" using assms(2,5) by (simp add: field_simps)
  also have "\<dots> = (\<Sum>m<length ds. real (ds ! m) / real c)" by (simp add: sum_list_sum_nth atLeast0LessThan sum_divide_distrib)
  also have "\<dots> \<le> (\<Sum>m<length ds. ?x ^ m / fact m)" using t by (intro sum_mono) simp
  finally show "y \<le> (\<Sum>m<length ds. ?x ^ m / fact m)" .
qed (use assms in auto)

lemma ln_2: "ln (2) \<le> (real 693147181 / real 1000000000)"
  by (rule ln_le_terms [where c = 10000000000000 and ds = "[10000000000000, 6931471810000, 2402265072641, 555041087705, 96181291320, 13333558188, 1540353045, 152527338, 13215486, 1017808, 70549, 4445, 256, 13]"]) simp_all

lemma ln_5: "ln (5) \<le> (real 1609437913 / real 1000000000)"
  by (rule ln_le_terms [where c = 10000000000000 and ds = "[10000000000000, 16094379130000, 12951451979008, 6948185947805, 2795668472742, 899890966442, 241386439826, 55499498277, 11165374584, 1996664129, 321350695, 47017635, 6305997, 780700, 89749, 9629, 968, 91, 8, 0]"]) simp_all

lemma ln_5_3: "ln (5 / 3) \<le> (real 510826 / real 1000000)"
  by (rule ln_le_terms [where c = 10000000000000 and ds = "[10000000000000, 5108260000000, 1304716011380, 222160953743, 28371397839, 2898569534, 246777446, 18008619, 1149908, 65267, 3334, 154]"]) simp_all

lemma ln_10_9: "ln (10 / 9) \<le> (real 105361 / real 1000000)"
  by (rule ln_le_terms [where c = 10000000000000 and ds = "[10000000000000, 1053610000000, 55504701605, 1949343621, 51346198, 1081977, 18999, 285]"]) simp_all

lemma ln_100_99: "ln (100 / 99) \<le> (real 10051 / real 1000000)"
  by (rule ln_le_terms [where c = 10000000000000 and ds = "[10000000000000, 100510000000, 505113005, 1692296, 4252, 8]"]) simp_all

lemma ln_smooth: "ln (2 ^ i * 5 ^ j :: real) \<le> (real i * 693147181 + real j * 1609437913) / 1000000000"
proof -
  have "ln (2 ^ i * 5 ^ j :: real) = real i * ln 2 + real j * ln 5" by (simp add: ln_mult ln_realpow)
  moreover have "real i * ln 2 \<le> real i * (693147181 / 1000000000)" "real j * ln 5 \<le> real j * (1609437913 / 1000000000)"
    using ln_2 ln_5 by (simp_all add: mult_left_mono del: times_divide_eq_right)
  ultimately show ?thesis by (simp add: add_divide_distrib)
qed

end
