(* ===== verification/Effects.thy ===== *)
theory Effects
  imports Merkle Journal Logs
begin

text \<open>
  The integer effect statements of \<^verbatim>\<open>unimem/zk_effect.py\<close>: preregistered cohorts, assignments drawn from a verifier's
  nonce, the inverse-propensity estimate with its confidence radius, and the noisy release. All of it is integer
  arithmetic in units of a millionth. The lemmas bound every rounding against the exact rational estimate, show the
  radius to be at least that of Hoeffding's inequality over the reals, and the finite noise to be
  differentially private when its draw is uniform. Chunked proofs of external backends are modelled up to the backend, which is
  an argument; that outcomes are true and nonces random is outside the program.
\<close>

section \<open>Constants and arithmetic\<close>

definition SCALE :: int where "SCALE = 1000000"
definition COHORT_ROWS :: int where "COHORT_ROWS = 30000"
definition MIN_PROPENSITY :: int where "MIN_PROPENSITY = 50000"
definition MAX_I128 :: int where "MAX_I128 = 2 ^ 127 - 1"
definition QUANTUM :: int where "QUANTUM = 1000"
definition DP_RANDOM_BITS :: nat where "DP_RANDOM_BITS = 14256"

definition LOG_UPPER :: "(int \<times> int \<times> int) list" where
  "LOG_UPPER = [(50000, 3688880, 4382027), (10000, 5298318, 5991465), (1000, 7600903, 8294050), (1, 14508658, 15201805)]"

definition DP_LOG_UPPER :: "((int \<times> int) \<times> int) list" where
  "DP_LOG_UPPER = [((3, 5), 510826), ((9, 10), 105361), ((99, 100), 10051)]"

definition hex_text :: "pv \<Rightarrow> string result" where
  "hex_text value = (case value of PStr s \<Rightarrow> guard_r (is_hash s) ValueError (Inr s) | _ \<Rightarrow> Inl ValueError)"

definition proof_char :: "char \<Rightarrow> bool" where
  "proof_char c \<longleftrightarrow> (let n = (of_char c :: nat) in 48 \<le> n \<and> n < 58 \<or> 65 \<le> n \<and> n < 91 \<or> 97 \<le> n \<and> n < 123) \<or> c \<in> set ''_.:/-''"

definition proof_id :: "pv \<Rightarrow> string result" where
  "proof_id value = (case value of PStr s \<Rightarrow> guard_r (1 \<le> length s \<and> length s \<le> 128 \<and> list_all proof_char s) ValueError (Inr s) | _ \<Rightarrow> Inl ValueError)"

definition i128 :: "int \<Rightarrow> int result" where
  "i128 value = guard_r (\<bar>value\<bar> \<le> MAX_I128) ValueError (Inr value)"

definition ceil_div :: "int \<Rightarrow> int \<Rightarrow> int" where
  "ceil_div numerator denominator = - ((- numerator) div denominator)"

text \<open>\<^verbatim>\<open>math.isqrt\<close>, and \<^verbatim>\<open>struct.pack\<close> of an unsigned number of \<open>n\<close> bytes, little end first.\<close>

function isqrt :: "nat \<Rightarrow> nat" where
  "isqrt n = (if n = 0 then 0 else let s = 2 * isqrt (n div 4) in if (s + 1) * (s + 1) \<le> n then s + 1 else s)"
  by auto
termination by (relation "measure id") auto

declare isqrt.simps [simp del]

definition le_chars :: "nat \<Rightarrow> nat \<Rightarrow> string" where
  "le_chars n v = map (\<lambda>i. char_of (v div 256 ^ i)) [0..<n]"

definition from_bytes :: "string \<Rightarrow> nat" where
  "from_bytes bs = foldl (\<lambda>a c. 256 * a + of_char c) 0 bs"

definition sqrt_ceil :: "int \<Rightarrow> int" where
  "sqrt_ceil value = (let root = int (isqrt (nat value)) in root + (if root * root \<noteq> value then 1 else 0))"

definition packed_id :: "string \<Rightarrow> string result" where
  "packed_id value = bind_r (proof_id (PStr value)) (\<lambda>raw. Inr (le_chars 2 (length raw) @ raw))"

section \<open>Cohorts and plans\<close>

text \<open>\<^verbatim>\<open>set(value) == keys\<close>, for keys of more than one character: iterating a text gives its characters.\<close>

definition keys_match :: "pv \<Rightarrow> string list \<Rightarrow> bool result" where
  "keys_match value keys =
     (case value of
        PDict d \<Rightarrow> Inr (keys_are d keys)
      | PStr s \<Rightarrow> Inr False
      | PList xs \<Rightarrow> guard_r (\<not> list_ex (\<lambda>x. is_list x \<or> is_dict x) xs) TypeError (Inr (set xs = set (map PStr keys)))
      | _ \<Rightarrow> Inl TypeError)"

definition cohort_entry :: "pv \<Rightarrow> (string \<times> int) result" where
  "cohort_entry entry =
     bind_r (keys_match entry [''episode'', ''propensity'']) (\<lambda>ok. guard_r ok ValueError (
     bind_r (bind_r (row_field entry ''episode'') proof_id) (\<lambda>e.
     bind_r (bind_r (row_field entry ''propensity'') (\<lambda>v. fp_count v MIN_PROPENSITY (SCALE - MIN_PROPENSITY))) (\<lambda>p. Inr (e, p)))))"

definition cohort :: "pv list \<Rightarrow> (string \<times> int) list result" where
  "cohort entries =
     bind_r (count_int (int (length entries)) 2 COHORT_ROWS) (\<lambda>_.
     bind_r (map_r cohort_entry entries) (\<lambda>result.
     guard_r (distinct (map fst result)) ValueError (Inr (sort_key fst result))))"

definition entry_of :: "string \<times> int \<Rightarrow> pv" where
  "entry_of p = PDict [(''episode'', PStr (fst p)), (''propensity'', PInt (snd p))]"

definition cohort_leaf :: "string \<times> int \<Rightarrow> string result" where
  "cohort_leaf row = bind_r (packed_id (fst row)) (\<lambda>raw. Inr (sha256_hex (char_of (2 :: nat) # raw @ le_chars 4 (nat (snd row)))))"

definition cohort_root :: "pv list \<Rightarrow> string result" where
  "cohort_root entries = bind_r (cohort entries) (\<lambda>selected. bind_r (map_r cohort_leaf selected) tree_hash)"

record plan =
  pn_study :: string
  pn_count :: int
  pn_cohort_root :: string
  pn_propensity_min :: int
  pn_alpha :: int
  pn_harm :: bool
  pn_harm_limit :: "int option"
  pn_commitment_key :: string
  pn_dp :: pv

definition kind_text :: "bool \<Rightarrow> string" where
  "kind_text harm = (if harm then ''harm'' else ''effect'')"

definition plan_dict :: "plan \<Rightarrow> dict" where
  "plan_dict p =
     [(''schema'', PStr ''unimem.effect-plan.v1''), (''study'', PStr (pn_study p)), (''scale'', PInt SCALE), (''count'', PInt (pn_count p)),
      (''cohort_root'', PStr (pn_cohort_root p)), (''propensity_min'', PInt (pn_propensity_min p)), (''alpha_ppm'', PInt (pn_alpha p)),
      (''kind'', PStr (kind_text (pn_harm p))), (''harm_limit_ppm'', (case pn_harm_limit p of None \<Rightarrow> PNone | Some n \<Rightarrow> PInt n)),
      (''commitment_key'', PStr (pn_commitment_key p)), (''dp'', pn_dp p)]"

definition sensitivity :: "plan \<Rightarrow> int" where
  "sensitivity p = (if pn_harm p then ceil_div SCALE (pn_count p) + 1 else ceil_div (SCALE * SCALE) (pn_count p * pn_propensity_min p) + 2)"

definition grid :: "bool \<Rightarrow> int" where
  "grid harm = (if harm then SCALE div QUANTUM else 2 * SCALE div QUANTUM)"

definition buckets :: "plan \<Rightarrow> int" where
  "buckets p = min (grid (pn_harm p)) (ceil_div (sensitivity p) QUANTUM)"

definition dp_fraction :: "dict \<Rightarrow> ((int \<times> int) \<times> int) result" where
  "dp_fraction dp =
     bind_r (dget dp ''numerator'') (\<lambda>a. bind_r (dget dp ''denominator'') (\<lambda>b.
       (case (a, b) of
          (PInt m, PInt n) \<Rightarrow> (case map_of DP_LOG_UPPER (m, n) of None \<Rightarrow> Inl ValueError | Some l \<Rightarrow> Inr ((m, n), l))
        | _ \<Rightarrow> Inl ValueError)))"

definition dp_parameters :: "plan \<Rightarrow> (int \<times> int \<times> int) result" where
  "dp_parameters p =
     (case pn_dp p of
        PDict dp \<Rightarrow>
          guard_r (keys_are dp [''numerator'', ''denominator'', ''noise_key'']) ValueError (
          bind_r (dp_fraction dp) (\<lambda>((m, n), l).
          bind_r (bind_r (dget dp ''noise_key'') hex_text) (\<lambda>_.
          let epsilon = 2 * buckets p * l in
          guard_r (\<not> 20 * SCALE < epsilon) ValueError (Inr (m, n, epsilon)))))
      | _ \<Rightarrow> Inl ValueError)"

definition least_propensity :: "(string \<times> int) list \<Rightarrow> int" where
  "least_propensity rows = (let ps = map (\<lambda>r. min (snd r) (SCALE - snd r)) rows in foldl min (hd ps) (tl ps))"

definition alpha_of :: "pv \<Rightarrow> int result" where
  "alpha_of alpha = (case alpha of PInt a \<Rightarrow> guard_r (map_of LOG_UPPER a \<noteq> None) ValueError (Inr a) | _ \<Rightarrow> Inl ValueError)"

definition kind_of :: "pv \<Rightarrow> bool result" where
  "kind_of knd =
     (if is_list knd \<or> is_dict knd then Inl TypeError
      else guard_r (knd = PStr ''effect'' \<or> knd = PStr ''harm'') ValueError (Inr (knd = PStr ''harm'')))"

definition harm_limit_of :: "bool \<Rightarrow> pv \<Rightarrow> int option result" where
  "harm_limit_of harm limit =
     (if harm then guard_r (limit \<noteq> PNone) ValueError (bind_r (fp_count limit 0 SCALE) (\<lambda>n. Inr (Some n)))
      else guard_r (limit = PNone) ValueError (Inr None))"

definition make_plan :: "pv \<Rightarrow> pv list \<Rightarrow> pv \<Rightarrow> pv \<Rightarrow> pv \<Rightarrow> pv \<Rightarrow> pv \<Rightarrow> plan result" where
  "make_plan study entries key alpha knd limit dp =
     bind_r (cohort entries) (\<lambda>selected.
     bind_r (alpha_of alpha) (\<lambda>a.
     bind_r (kind_of knd) (\<lambda>harm.
     bind_r (harm_limit_of harm limit) (\<lambda>l.
     bind_r (proof_id study) (\<lambda>s.
     bind_r (cohort_root (map entry_of selected)) (\<lambda>r.
     bind_r (hex_text key) (\<lambda>k.
     let result = \<lparr>pn_study = s, pn_count = int (length selected), pn_cohort_root = r, pn_propensity_min = least_propensity selected,
                    pn_alpha = a, pn_harm = harm, pn_harm_limit = l, pn_commitment_key = k, pn_dp = dp\<rparr> in
     if dp = PNone then Inr result else bind_r (dp_parameters result) (\<lambda>_. Inr result))))))))"

definition seed_key :: "pv \<Rightarrow> bool \<Rightarrow> string result" where
  "seed_key seed noise =
     bind_r (hex_text seed) (\<lambda>s.
       Inr (sha256_hex ((if noise then ''unimem-effect-noise-v1'' else ''unimem-effect-hiding-v1'') @ NUL # unhex_bytes s)))"

definition challenge :: "dict \<Rightarrow> pv \<Rightarrow> dict result" where
  "challenge plan_value nonce =
     bind_r (digest (PDict plan_value)) (\<lambda>h. bind_r (hex_text nonce) (\<lambda>n. Inr [(''plan_hash'', PStr h), (''nonce'', PStr n)]))"

section \<open>Assignments and witnesses\<close>

fun assign_loop :: "string \<Rightarrow> int \<Rightarrow> nat list \<Rightarrow> bool result" where
  "assign_loop start propensity [] = Inl ValueError"
| "assign_loop start propensity (counter # rest) =
     (let value = int (from_bytes (sha256 (start @ le_chars 4 counter))) in
      if value < 2 ^ 256 div SCALE * SCALE then Inr (value mod SCALE < propensity) else assign_loop start propensity rest)"

definition assignment :: "dict \<Rightarrow> pv \<Rightarrow> string \<Rightarrow> pv \<Rightarrow> bool result" where
  "assignment plan_value challenge_value episode propensity =
     bind_r (keys_match challenge_value [''plan_hash'', ''nonce'']) (\<lambda>ok. guard_r ok ValueError (
     bind_r (row_field challenge_value ''plan_hash'') (\<lambda>h.
     bind_r (digest (PDict plan_value)) (\<lambda>d. guard_r (h = PStr d) ValueError (
     bind_r (fp_count propensity MIN_PROPENSITY (SCALE - MIN_PROPENSITY)) (\<lambda>p.
     bind_r (bind_r (row_field challenge_value ''nonce'') hex_text) (\<lambda>n.
     bind_r (hex_text h) (\<lambda>ph.
     bind_r (packed_id episode) (\<lambda>raw.
       assign_loop (''unimem-effect-assignment-v1'' @ NUL # unhex_bytes n @ unhex_bytes ph @ raw) p [0..<16])))))))))"

record effect_row =
  rw_episode :: string
  rw_propensity :: int
  rw_assigned :: bool
  rw_outcome :: int

definition as_entry :: "pv \<Rightarrow> pv result" where
  "as_entry r = bind_r (row_field r ''episode'') (\<lambda>e. bind_r (row_field r ''propensity'') (\<lambda>p. Inr (PDict [(''episode'', e), (''propensity'', p)])))"

definition episode_of :: "pv \<Rightarrow> string" where
  "episode_of r = str_of (dget_or (dict_of r) ''episode'' PNone)"

definition check_row :: "dict \<Rightarrow> pv \<Rightarrow> string \<Rightarrow> nat \<times> pv \<Rightarrow> (effect_row \<times> string) result" where
  "check_row submitted chal seed ir =
     (let (index, r) = ir in
     bind_r (keys_match r [''episode'', ''propensity'', ''assigned'', ''outcome'']) (\<lambda>ok. guard_r ok ValueError (
     bind_r (row_field r ''assigned'') (\<lambda>a.
       (case a of
          PBool b \<Rightarrow>
            bind_r (bind_r (row_field r ''outcome'') (\<lambda>v. fp_count v 0 SCALE)) (\<lambda>y.
            bind_r (row_field r ''propensity'') (\<lambda>pp.
            bind_r (assignment submitted chal (episode_of r) pp) (\<lambda>drawn. guard_r (b = drawn) ValueError (
            bind_r (packed_id (episode_of r)) (\<lambda>raw.
            bind_r (fp_count pp MIN_PROPENSITY (SCALE - MIN_PROPENSITY)) (\<lambda>p.
              Inr (\<lparr>rw_episode = episode_of r, rw_propensity = p, rw_assigned = b, rw_outcome = y\<rparr>,
                   sha256_hex (NUL # unhex_bytes seed @ le_chars 4 index @ raw
                     @ char_of (if b then 1 else 0 :: nat) # le_chars 4 (nat p) @ le_chars 4 (nat y)))))))))
        | _ \<Rightarrow> Inl ValueError)))))"

definition rows_of :: "dict \<Rightarrow> dict \<Rightarrow> pv list \<Rightarrow> (plan \<times> effect_row list \<times> string) result" where
  "rows_of witness submitted supplied =
     bind_r (count_int (int (length supplied)) 2 COHORT_ROWS) (\<lambda>_.
     bind_r (map_r as_entry supplied) (\<lambda>entries.
     bind_r (cohort entries) (\<lambda>selected.
     bind_r (dget submitted ''study'') (\<lambda>study. bind_r (dget submitted ''commitment_key'') (\<lambda>key.
     bind_r (dget submitted ''alpha_ppm'') (\<lambda>alpha. bind_r (dget submitted ''kind'') (\<lambda>knd.
     bind_r (dget submitted ''harm_limit_ppm'') (\<lambda>limit. bind_r (dget submitted ''dp'') (\<lambda>dp.
     bind_r (make_plan study (map entry_of selected) key alpha knd limit dp) (\<lambda>rebuilt.
     bind_r (wire (PDict (plan_dict rebuilt))) (\<lambda>w1. bind_r (wire (PDict submitted)) (\<lambda>w2. guard_r (w1 = w2) ValueError (
     bind_r (bind_r (dget witness ''commitment_seed'') hex_text) (\<lambda>seed.
     bind_r (seed_key (PStr seed) False) (\<lambda>k1. guard_r (PStr k1 = key) ValueError (
     bind_r (dget witness ''noise_seed'') (\<lambda>ns.
     bind_r (if dp = PNone then guard_r (ns = PNone) ValueError (Inr ())
             else bind_r (seed_key ns True) (\<lambda>k2. bind_r (row_field dp ''noise_key'') (\<lambda>nk. guard_r (PStr k2 = nk) ValueError (Inr ())))) (\<lambda>_.
     bind_r (dget witness ''challenge'') (\<lambda>chal.
     bind_r (map_r (check_row submitted chal seed) (enumerate 0 (sort_key episode_of supplied))) (\<lambda>checked.
     bind_r (tree_hash (map snd checked)) (\<lambda>rt. Inr (rebuilt, map fst checked, rt))))))))))))))))))))))"

definition witness_rows :: "dict \<Rightarrow> (plan \<times> effect_row list \<times> string) result" where
  "witness_rows witness =
     guard_r (keys_are witness [''plan'', ''challenge'', ''rows'', ''commitment_seed'', ''noise_seed'']) ValueError (
     bind_r (dget witness ''plan'') (\<lambda>pl. bind_r (dget witness ''rows'') (\<lambda>rs.
       (case (pl, rs) of (PDict submitted, PList supplied) \<Rightarrow> rows_of witness submitted supplied | _ \<Rightarrow> Inl ValueError))))"

section \<open>Statements\<close>

definition log_upper :: "plan \<Rightarrow> bool \<Rightarrow> int" where
  "log_upper p dp = (case map_of LOG_UPPER (pn_alpha p) of None \<Rightarrow> 0 | Some (a, b) \<Rightarrow> if dp then b else a)"

definition width :: "plan \<Rightarrow> int" where
  "width p =
     (if pn_harm p then SCALE
      else ceil_div (SCALE * SCALE) (pn_propensity_min p) + ceil_div (SCALE * SCALE) (SCALE - pn_propensity_min p))"

definition radius :: "plan \<Rightarrow> bool \<Rightarrow> int result" where
  "radius p dp = bind_r (i128 (width p * width p * log_upper p dp)) (\<lambda>numerator. Inr (sqrt_ceil (ceil_div numerator (2 * pn_count p * SCALE))))"

definition floor_of :: "bool \<Rightarrow> int" where
  "floor_of harm = (if harm then 0 else - SCALE)"

definition clamp :: "int \<Rightarrow> int \<Rightarrow> int" where
  "clamp low value = max low (min SCALE value)"

definition center_of :: "bool \<Rightarrow> int \<Rightarrow> nat" where
  "center_of harm value = nat ((clamp (floor_of harm) value - floor_of harm) div QUANTUM)"

definition gap :: "nat \<Rightarrow> nat \<Rightarrow> nat" where
  "gap i j = nat \<bar>int i - int j\<bar>"

definition weights :: "nat \<Rightarrow> nat \<Rightarrow> nat \<Rightarrow> nat \<Rightarrow> nat list" where
  "weights numerator denominator maximum center =
     map (\<lambda>i. numerator ^ gap i center * denominator ^ (maximum - gap i center)) [0..<maximum + 1]"

text \<open>The first position whose weight exceeds what is left of the draw; position 0 when none does.\<close>

fun pick_from :: "nat \<Rightarrow> nat \<Rightarrow> nat list \<Rightarrow> nat" where
  "pick_from i draw [] = 0"
| "pick_from i draw (w # ws) = (if draw < w then i else pick_from (i + 1) (draw - w) ws)"

fun tail_from :: "int \<Rightarrow> int \<Rightarrow> int \<Rightarrow> nat \<Rightarrow> nat list \<Rightarrow> nat" where
  "tail_from alpha m n maximum [] = maximum"
| "tail_from alpha m n maximum (d # ds) =
     (if 8 * SCALE * m ^ (d + 1) * n \<le> alpha * (n - m) * n ^ (d + 1) then d else tail_from alpha m n maximum ds)"

definition raw_draw :: "string \<Rightarrow> nat" where
  "raw_draw start =
     from_bytes (concat (map (\<lambda>i. sha256 (start @ le_chars 4 i)) [0..<nat (ceil_div (int DP_RANDOM_BITS) 256)])) mod 2 ^ DP_RANDOM_BITS"

definition noise :: "plan \<Rightarrow> int \<Rightarrow> pv \<Rightarrow> (int \<times> int \<times> int) result" where
  "noise p value seed =
     bind_r (dp_parameters p) (\<lambda>(m, n, epsilon).
     let low = floor_of (pn_harm p);
         maximum = nat ((SCALE - low) div QUANTUM);
         ws = weights (nat m) (nat n) maximum (center_of (pn_harm p) value) in
     guard_r (\<not> 14000 < nat_bits (sum_list ws)) ValueError (
     bind_r (hex_text seed) (\<lambda>s.
     bind_r (digest (PDict (plan_dict p))) (\<lambda>h.
     let draw = raw_draw (''unimem-effect-dp-draw-v1'' @ NUL # unhex_bytes s @ unhex_bytes h) mod sum_list ws;
         selected = pick_from 0 draw ws;
         tail = tail_from (pn_alpha p) m n maximum [0..<maximum] in
     Inr (low + int selected * QUANTUM, int tail * QUANTUM + QUANTUM, epsilon)))))"

definition score :: "bool \<Rightarrow> effect_row \<Rightarrow> int" where
  "score harm r =
     (if harm then rw_outcome r
      else if rw_assigned r then rw_outcome r * SCALE div rw_propensity r
      else - (rw_outcome r * SCALE div (SCALE - rw_propensity r)))"

definition arm_total :: "bool \<Rightarrow> effect_row list \<Rightarrow> int" where
  "arm_total treated rows = sum_list (map (\<lambda>r. rw_outcome r * SCALE div (if treated then rw_propensity r else SCALE - rw_propensity r)) (filter (\<lambda>r. rw_assigned r = treated) rows))"

definition arm_weight :: "bool \<Rightarrow> effect_row list \<Rightarrow> int" where
  "arm_weight treated rows = sum_list (map (\<lambda>r. SCALE * SCALE div (if treated then rw_propensity r else SCALE - rw_propensity r)) (filter (\<lambda>r. rw_assigned r = treated) rows))"

definition hajek_of :: "bool \<Rightarrow> effect_row list \<Rightarrow> int option" where
  "hajek_of harm rows =
     (if \<not> harm \<and> arm_weight True rows \<noteq> 0 \<and> arm_weight False rows \<noteq> 0
      then Some (SCALE * arm_total True rows div arm_weight True rows - SCALE * arm_total False rows div arm_weight False rows)
      else None)"

record statement =
  sm_plan_hash :: string
  sm_challenge_hash :: string
  sm_rows_root :: string
  sm_count :: nat
  sm_harm :: bool
  sm_alpha :: int
  sm_estimate :: int
  sm_hajek :: "int option"
  sm_lower :: int
  sm_upper :: int
  sm_rounding :: int
  sm_harm_limit :: "int option"
  sm_epsilon :: "int option"

definition figures :: "plan \<Rightarrow> effect_row list \<Rightarrow> pv \<Rightarrow> (int \<times> int option \<times> int \<times> int \<times> int option) result" where
  "figures p rows seed =
     (let harm = pn_harm p in
      bind_r (i128 (sum_list (map (score harm) rows))) (\<lambda>total.
      let exact = total div int (length rows);
          rounding = (if harm then 1 else 2) in
      bind_r (radius p False) (\<lambda>r0.
      bind_r (if pn_dp p = PNone then Inr (exact, hajek_of harm rows, r0, None)
              else bind_r (noise p exact seed) (\<lambda>(released, spread, epsilon).
                   bind_r (radius p True) (\<lambda>r1. Inr (released, None, r1 + spread, Some epsilon))))
        (\<lambda>(estimate, hajek, rad, eps).
          Inr (estimate, hajek, clamp (floor_of harm) (estimate - rad - rounding), clamp (floor_of harm) (estimate + rad + rounding), eps)))))"

definition make_statement :: "dict \<Rightarrow> statement result" where
  "make_statement witness =
     bind_r (witness_rows witness) (\<lambda>(registered, rows, root).
     bind_r (dget witness ''noise_seed'') (\<lambda>seed.
     bind_r (figures registered rows seed) (\<lambda>(estimate, hajek, lower, upper, eps).
     bind_r (digest (PDict (plan_dict registered))) (\<lambda>ph.
     bind_r (bind_r (dget witness ''challenge'') digest) (\<lambda>ch.
       Inr \<lparr>sm_plan_hash = ph, sm_challenge_hash = ch, sm_rows_root = root, sm_count = length rows, sm_harm = pn_harm registered, sm_alpha = pn_alpha registered,
            sm_estimate = estimate, sm_hajek = hajek, sm_lower = lower, sm_upper = upper, sm_rounding = (if pn_harm registered then 1 else 2),
            sm_harm_limit = pn_harm_limit registered, sm_epsilon = eps\<rparr>)))))"

definition opt_int :: "int option \<Rightarrow> pv" where
  "opt_int n = (case n of None \<Rightarrow> PNone | Some i \<Rightarrow> PInt i)"

definition noise_dict :: "int option \<Rightarrow> pv" where
  "noise_dict eps =
     (case eps of
        None \<Rightarrow> PNone
      | Some e \<Rightarrow> PDict [(''mechanism'', PStr ''finite-grid exponential''), (''epsilon_upper_ppm'', PInt e), (''delta_upper_power_of_two'', PInt (- 224)),
          (''quantum_ppm'', PInt QUANTUM),
          (''conditions'', PStr ''secret independent seeds, cryptographic hiding/PRG assumptions and one release'')])"

definition harm_claim :: "statement \<Rightarrow> pv" where
  "harm_claim s = (case sm_harm_limit s of Some l \<Rightarrow> if sm_harm s then PBool (sm_upper s \<le> l) else PNone | None \<Rightarrow> PNone)"

definition statement_dict :: "statement \<Rightarrow> dict" where
  "statement_dict s =
     [(''schema'', PStr ''unimem.effect-statement.v1''), (''plan_hash'', PStr (sm_plan_hash s)), (''challenge_hash'', PStr (sm_challenge_hash s)),
      (''rows_root'', PStr (sm_rows_root s)), (''count'', PInt (int (sm_count s))), (''kind'', PStr (kind_text (sm_harm s))), (''scale'', PInt SCALE),
      (''alpha_ppm'', PInt (sm_alpha s)), (''estimate_ppm'', PInt (sm_estimate s)), (''hajek_ppm'', opt_int (sm_hajek s)),
      (''hajek_rounding_error_ppm'', (if sm_hajek s = None then PNone else PInt 6)), (''lower_ppm'', PInt (sm_lower s)), (''upper_ppm'', PInt (sm_upper s)),
      (''rounding_error_ppm'', PInt (sm_rounding s)),
      (''confidence'', PStr ''bounded fixed-cohort Hoeffding; assignment and sampling assumptions required''),
      (''harm_limit_ppm'', opt_int (sm_harm_limit s)), (''harm_claim'', harm_claim s), (''noise'', noise_dict (sm_epsilon s)), (''execution_attested'', PBool False)]"

definition transparent :: "dict \<Rightarrow> dict result" where
  "transparent witness =
     bind_r (make_statement witness) (\<lambda>s.
       Inr [(''backend'', PStr ''transparent''), (''statement'', PDict (statement_dict s)), (''private_rows'', PBool False),
            (''verification'', PStr ''complete witness disclosure and audited recomputation; no input privacy'')])"

definition verify_transparent :: "dict \<Rightarrow> dict \<Rightarrow> pv \<Rightarrow> bool result" where
  "verify_transparent proof_value witness expected =
     (case bind_r (bind_r (dget witness ''challenge'') digest) (\<lambda>c. bind_r (hex_text expected) (\<lambda>e.
             if c \<noteq> e then Inr False
             else bind_r (wire (PDict proof_value)) (\<lambda>w1. bind_r (transparent witness) (\<lambda>t. bind_r (wire (PDict t)) (\<lambda>w2. Inr (w1 = w2)))))) of
        Inr b \<Rightarrow> Inr b
      | Inl x \<Rightarrow> if x \<in> {ValueError, TypeError, KeyError} then Inr False else Inl x)"

text \<open>\<^verbatim>\<open>len\<close> of a value.\<close>

definition len_of :: "pv \<Rightarrow> nat result" where
  "len_of v = (case v of PList xs \<Rightarrow> Inr (length xs) | PDict d \<Rightarrow> Inr (length d) | PStr s \<Rightarrow> Inr (py_len s) | _ \<Rightarrow> Inl TypeError)"

fun cover_chunks :: "int \<Rightarrow> pv list \<Rightarrow> int result" where
  "cover_chunks covered [] = Inr covered"
| "cover_chunks covered (chunk # rest) =
     bind_r (keys_match chunk [''start'', ''rows'']) (\<lambda>ok. guard_r ok ValueError (
     bind_r (row_field chunk ''start'') (\<lambda>v. guard_r (num_eq v covered) ValueError (
     bind_r (bind_r (row_field chunk ''rows'') len_of) (\<lambda>n.
     bind_r (count_int (int n) 1 COHORT_ROWS) (\<lambda>_. cover_chunks (covered + int n) rest))))))"

text \<open>A provider is its two operations.\<close>

type_synonym provider = "(dict \<Rightarrow> dict \<Rightarrow> pv list \<Rightarrow> dict result) \<times> (dict \<Rightarrow> string \<Rightarrow> bool result)"

definition same_challenge :: "dict \<Rightarrow> dict \<Rightarrow> bool" where
  "same_challenge given expected \<longleftrightarrow> keys_are given [''plan_hash'', ''nonce''] \<and> map_of given ''plan_hash'' = map_of expected ''plan_hash'' \<and> map_of given ''nonce'' = map_of expected ''nonce''"

definition prove_chunked :: "dict \<Rightarrow> dict \<Rightarrow> pv list \<Rightarrow> provider option \<Rightarrow> dict result" where
  "prove_chunked plan_value challenge_value chunk_list prov =
     (case prov of
        None \<Rightarrow> Inl RuntimeError
      | Some (prove_chunks, verify) \<Rightarrow>
          bind_r (bind_r (dget plan_value ''count'') (\<lambda>v. fp_count v (COHORT_ROWS + 1) 1000000)) (\<lambda>n.
          bind_r (count_int (int (length chunk_list)) 2 64) (\<lambda>_.
          bind_r (bind_r (dget challenge_value ''nonce'') (challenge plan_value)) (\<lambda>expected.
          guard_r (same_challenge challenge_value expected) ValueError (
          bind_r (cover_chunks 0 chunk_list) (\<lambda>covered.
          guard_r (covered = n) ValueError (
          bind_r (prove_chunks plan_value expected chunk_list) (\<lambda>proof_value.
          bind_r (digest (PDict expected)) (\<lambda>h.
            (case dget_or proof_value ''statement'' (PDict []) of
               PDict s \<Rightarrow>
                 guard_r (num_eq (dget_or s ''count'' PNone) covered \<and> Some (dget_or s ''plan_hash'' PNone) = map_of expected ''plan_hash''
                   \<and> dget_or s ''challenge_hash'' PNone = PStr h) ValueError (
                 bind_r (verify proof_value h) (\<lambda>ok. guard_r ok ValueError (Inr proof_value)))
             | _ \<Rightarrow> Inl ValueError)))))))))) "

section \<open>Rounding\<close>

lemma ceil_div_ge: "0 < d \<Longrightarrow> real_of_int n / real_of_int d \<le> real_of_int (ceil_div n d)"
  unfolding ceil_div_def floor_divide_of_int_eq [of "- n" d, where 'a = real, symmetric] by simp linarith

lemma ceil_div_mono: "0 < d \<Longrightarrow> a \<le> b \<Longrightarrow> ceil_div a d \<le> ceil_div b d"
  by (simp add: ceil_div_def zdiv_mono1)

lemma ceil_div_nonneg: "0 < d \<Longrightarrow> 0 \<le> n \<Longrightarrow> 0 \<le> ceil_div n d"
  by (simp add: ceil_div_def div_nonpos_pos_le0)

lemma div_real: "real_of_int a / real_of_int b - 1 < real_of_int (a div b)" "real_of_int (a div b) \<le> real_of_int a / real_of_int b"
  unfolding floor_divide_of_int_eq [where 'a = real, symmetric] by linarith+

lemma div_gap:
  assumes "0 < d" "\<bar>a - b\<bar> \<le> e"
  shows "\<bar>a div d - b div d\<bar> \<le> ceil_div e d"
proof -
  have "real_of_int \<bar>a - b\<bar> \<le> real_of_int e" using assms(2) by (simp only: of_int_le_iff)
  then have "real_of_int \<bar>a - b\<bar> / real_of_int d \<le> real_of_int e / real_of_int d" using assms(1) by (intro divide_right_mono) simp_all
  also have "\<dots> \<le> real_of_int (ceil_div e d)" by (rule ceil_div_ge [OF assms(1)])
  finally have g: "\<bar>real_of_int a / real_of_int d - real_of_int b / real_of_int d\<bar> \<le> real_of_int (ceil_div e d)"
    using assms(1) by (simp add: diff_divide_distrib [symmetric])
  have "real_of_int (a div d) - real_of_int (b div d) < real_of_int (ceil_div e d) + 1" "real_of_int (b div d) - real_of_int (a div d) < real_of_int (ceil_div e d) + 1"
    using g div_real [of a d] div_real [of b d] by linarith+
  then show ?thesis by linarith
qed

lemma isqrt_bounds: "isqrt n * isqrt n \<le> n \<and> n < (isqrt n + 1) * (isqrt n + 1)"
proof (induction n rule: isqrt.induct)
  case (1 n)
  show ?case
  proof (cases "n = 0")
    case True
    then show ?thesis by (simp add: isqrt.simps)
  next
    case False
    let ?r = "isqrt (n div 4)"
    have "?r * ?r \<le> n div 4" "n div 4 < (?r + 1) * (?r + 1)" using 1 [OF False] by auto
    then have "4 * (?r * ?r) \<le> n" "n < 4 * ((?r + 1) * (?r + 1))" by linarith+
    with False show ?thesis by (simp add: isqrt.simps [of n] Let_def algebra_simps)
  qed
qed

lemma sqrt_ceil_ge: assumes "0 \<le> v" shows "v \<le> sqrt_ceil v * sqrt_ceil v" "0 \<le> sqrt_ceil v"
proof -
  let ?r = "isqrt (nat v)"
  have "nat v < (?r + 1) * (?r + 1)" using isqrt_bounds [of "nat v"] by blast
  then have "int (nat v) < int ((?r + 1) * (?r + 1))" by (simp only: of_nat_less_iff)
  then have "v < (int ?r + 1) * (int ?r + 1)" using assms by (simp add: algebra_simps)
  then show "v \<le> sqrt_ceil v * sqrt_ceil v" by (auto simp: sqrt_ceil_def Let_def)
  show "0 \<le> sqrt_ceil v" by (simp add: sqrt_ceil_def Let_def)
qed

section \<open>The tables of logarithms\<close>

lemma LOG_UPPER_sound:
  assumes "map_of LOG_UPPER a = Some (l1, l2)"
  shows "0 < a" "a \<le> 50000" "real_of_int SCALE * ln (2 * SCALE / a) \<le> l1" "real_of_int SCALE * ln (4 * SCALE / a) \<le> l2" "0 < l1" "0 < l2" "l1 \<le> 15201805" "l2 \<le> 15201805"
proof -
  have c: "a = 50000 \<and> l1 = 3688880 \<and> l2 = 4382027 \<or> a = 10000 \<and> l1 = 5298318 \<and> l2 = 5991465 \<or> a = 1000 \<and> l1 = 7600903 \<and> l2 = 8294050 \<or> a = 1 \<and> l1 = 14508658 \<and> l2 = 15201805"
    using assms by (auto simp: LOG_UPPER_def split: if_split_asm)
  note b = ln_smooth [of 3 1] ln_smooth [of 4 1] ln_smooth [of 3 2] ln_smooth [of 4 2] ln_smooth [of 4 3] ln_smooth [of 5 3] ln_smooth [of 7 6] ln_smooth [of 8 6]
  show "real_of_int SCALE * ln (2 * SCALE / a) \<le> l1" "real_of_int SCALE * ln (4 * SCALE / a) \<le> l2"
    using c b by (auto simp: SCALE_def)
  show "0 < a" "a \<le> 50000" "0 < l1" "0 < l2" "l1 \<le> 15201805" "l2 \<le> 15201805" using c by auto
qed

lemma DP_LOG_UPPER_sound:
  assumes "map_of DP_LOG_UPPER (m, n) = Some l"
  shows "0 < m" "m < n" "n \<le> 100" "real_of_int SCALE * ln (real_of_int n / real_of_int m) \<le> l" "0 < l"
proof -
  have c: "m = 3 \<and> n = 5 \<and> l = 510826 \<or> m = 9 \<and> n = 10 \<and> l = 105361 \<or> m = 99 \<and> n = 100 \<and> l = 10051"
    using assms by (auto simp: DP_LOG_UPPER_def split: if_split_asm)
  show "real_of_int SCALE * ln (real_of_int n / real_of_int m) \<le> l" using c ln_5_3 ln_10_9 ln_100_99 by (auto simp: SCALE_def)
  show "0 < m" "m < n" "n \<le> 100" "0 < l" using c by auto
qed

section \<open>What a witness guarantees\<close>

lemma proof_id_Inr: "proof_id v = Inr s \<longleftrightarrow> v = PStr s \<and> 1 \<le> length s \<and> length s \<le> 128 \<and> list_all proof_char s"
  by (auto simp: proof_id_def guard_r_Inr split: pv.splits)

lemma cohort_entry_Inr:
  "cohort_entry e = Inr (x, p) \<Longrightarrow>
     row_field e ''episode'' = Inr (PStr x) \<and> proof_id (PStr x) = Inr x \<and> row_field e ''propensity'' = Inr (PInt p) \<and> MIN_PROPENSITY \<le> p \<and> p \<le> SCALE - MIN_PROPENSITY"
  by (auto simp: cohort_entry_def result_simps proof_id_Inr)

lemma cohort_entry_of:
  "proof_id (PStr x) = Inr x \<Longrightarrow> MIN_PROPENSITY \<le> p \<Longrightarrow> p \<le> SCALE - MIN_PROPENSITY \<Longrightarrow> cohort_entry (entry_of (x, p)) = Inr (x, p)"
  by (simp add: cohort_entry_def entry_of_def keys_match_def keys_are_def row_field_def dget_def fp_count_def)

lemma cohort_Inr:
  "cohort es = Inr sel \<longleftrightarrow>
     2 \<le> length es \<and> int (length es) \<le> COHORT_ROWS \<and> (\<exists>res. map_r cohort_entry es = Inr res \<and> distinct (map fst res) \<and> sel = sort_key fst res)"
  by (auto simp: cohort_def bind_r_Inr guard_r_Inr count_int_Inr)

lemma cohort_rows:
  assumes "cohort es = Inr sel" "(x, p) \<in> set sel"
  shows "proof_id (PStr x) = Inr x" "MIN_PROPENSITY \<le> p" "p \<le> SCALE - MIN_PROPENSITY"
proof -
  from assms obtain res where r: "map_r cohort_entry es = Inr res" "(x, p) \<in> set res" by (auto simp: cohort_Inr)
  then obtain e where "cohort_entry e = Inr (x, p)" by (force simp: map_r_Inr list_all2_conv_all_nth in_set_conv_nth)
  from cohort_entry_Inr [OF this] show "proof_id (PStr x) = Inr x" "MIN_PROPENSITY \<le> p" "p \<le> SCALE - MIN_PROPENSITY" by auto
qed

lemma sort_key_sorted: "sorted (map f xs) \<Longrightarrow> sort_key f xs = xs"
  by (induction xs) (auto simp: insort_is_Cons)

lemma cohort_again: assumes "cohort es = Inr sel" shows "cohort (map entry_of sel) = Inr sel"
proof -
  from assms obtain res where r: "2 \<le> length es" "int (length es) \<le> COHORT_ROWS" "map_r cohort_entry es = Inr res" "distinct (map fst res)" "sel = sort_key fst res"
    by (auto simp: cohort_Inr)
  have l: "length sel = length es" using map_r_length [OF r(3)] r(5) by simp
  have "map_r cohort_entry (map entry_of sel) = Inr sel"
  proof -
    have "cohort_entry (entry_of y) = Inr y" if "y \<in> set sel" for y
      using cohort_rows [OF assms, of "fst y" "snd y"] that cohort_entry_of by (cases y) simp
    then show ?thesis by (auto simp: map_r_Inr list_all2_conv_all_nth)
  qed
  moreover have "distinct (map fst sel)"
  proof -
    have "mset (map fst sel) = mset (map fst res)" by (simp add: r(5))
    then show ?thesis using r(4) by (metis mset_eq_imp_distinct_iff)
  qed
  moreover have "sort_key fst sel = sel" using sort_key_sorted [of fst sel] r(5) by simp
  ultimately show ?thesis using r l by (auto simp: cohort_Inr)
qed

lemma foldl_min: "foldl min a xs \<le> (a :: int) \<and> (\<forall>x \<in> set xs. foldl min a xs \<le> x) \<and> foldl min a xs \<in> insert a (set xs)"
proof (induction xs arbitrary: a)
  case (Cons x xs)
  from Cons [of "min a x"] show ?case by (auto simp: min_def split: if_split_asm)
qed simp

lemma least_propensity_bounds:
  assumes "rows \<noteq> []" "\<And>x p. (x, p) \<in> set rows \<Longrightarrow> MIN_PROPENSITY \<le> p \<and> p \<le> SCALE - MIN_PROPENSITY"
  shows "MIN_PROPENSITY \<le> least_propensity rows" "2 * least_propensity rows \<le> SCALE" "(x, p) \<in> set rows \<Longrightarrow> least_propensity rows \<le> p \<and> p \<le> SCALE - least_propensity rows"
proof -
  let ?ps = "map (\<lambda>r. min (snd r) (SCALE - snd r)) rows"
  have e: "insert (hd ?ps) (set (tl ?ps)) = set ?ps" using assms(1) by (cases rows) auto
  have l: "least_propensity rows = foldl min (hd ?ps) (tl ?ps)" by (simp add: least_propensity_def Let_def)
  have i: "least_propensity rows \<in> set ?ps" using foldl_min [of "hd ?ps" "tl ?ps"] unfolding l e [symmetric] by blast
  then obtain y q where xp: "(y, q) \<in> set rows" "least_propensity rows = min q (SCALE - q)" by auto
  then show "MIN_PROPENSITY \<le> least_propensity rows" "2 * least_propensity rows \<le> SCALE" using assms(2) [OF xp(1)] by (auto simp: min_def)
  have b: "least_propensity rows \<le> y" if "y \<in> set ?ps" for y
    using foldl_min [of "hd ?ps" "tl ?ps"] that unfolding l e [symmetric] by blast
  show "least_propensity rows \<le> p \<and> p \<le> SCALE - least_propensity rows" if "(x, p) \<in> set rows"
    using b [of "min p (SCALE - p)"] that by force
qed

text \<open>What the later computations rely on.\<close>

definition fits :: "plan \<Rightarrow> effect_row list \<Rightarrow> bool" where
  "fits p rows \<longleftrightarrow> pn_count p = int (length rows) \<and> 2 \<le> length rows \<and> int (length rows) \<le> COHORT_ROWS
    \<and> MIN_PROPENSITY \<le> pn_propensity_min p \<and> 2 * pn_propensity_min p \<le> SCALE \<and> map_of LOG_UPPER (pn_alpha p) \<noteq> None
    \<and> list_all (\<lambda>r. pn_propensity_min p \<le> rw_propensity r \<and> rw_propensity r \<le> SCALE - pn_propensity_min p \<and> 0 \<le> rw_outcome r \<and> rw_outcome r \<le> SCALE) rows
    \<and> (pn_dp p \<noteq> PNone \<longrightarrow> (\<exists>r. dp_parameters p = Inr r)) \<and> (pn_harm p \<longleftrightarrow> pn_harm_limit p \<noteq> None)"

lemma make_plan_Inr:
  assumes "make_plan study es key alpha knd limit dp = Inr p"
  shows "\<exists>sel. cohort es = Inr sel \<and> pn_count p = int (length sel) \<and> pn_propensity_min p = least_propensity sel \<and> map_of LOG_UPPER (pn_alpha p) \<noteq> None
    \<and> (pn_dp p \<noteq> PNone \<longrightarrow> (\<exists>r. dp_parameters p = Inr r)) \<and> (pn_harm p \<longleftrightarrow> pn_harm_limit p \<noteq> None) \<and> pn_dp p = dp"
proof -
  have a: "alpha_of v = Inr a \<Longrightarrow> map_of LOG_UPPER a \<noteq> None" for v a by (auto simp: alpha_of_def guard_r_Inr split: pv.splits)
  have h: "harm_limit_of hm v = Inr l \<Longrightarrow> hm \<longleftrightarrow> l \<noteq> None" for hm v l by (auto simp: harm_limit_of_def result_simps split: if_splits)
  from assms show ?thesis
    by (auto simp: make_plan_def bind_r_Inr Let_def dest!: a h split: if_splits)
qed

lemma check_row_Inr:
  assumes "check_row submitted chal seed (i, r) = Inr (row, leaf)"
  shows "rw_episode row = episode_of r" "row_field r ''propensity'' = Inr (PInt (rw_propensity row))" "0 \<le> rw_outcome row" "rw_outcome row \<le> SCALE"
    "assignment submitted chal (rw_episode row) (PInt (rw_propensity row)) = Inr (rw_assigned row)" "is_hash leaf"
proof -
  from assms obtain a where a: "row_field r ''assigned'' = Inr a" by (auto simp: check_row_def bind_r_Inr guard_r_Inr)
  with assms obtain b where b: "a = PBool b" by (cases a) (auto simp: check_row_def result_simps)
  from assms a b show "rw_episode row = episode_of r" "row_field r ''propensity'' = Inr (PInt (rw_propensity row))" "0 \<le> rw_outcome row" "rw_outcome row \<le> SCALE"
    "assignment submitted chal (rw_episode row) (PInt (rw_propensity row)) = Inr (rw_assigned row)" "is_hash leaf"
    by (auto simp: check_row_def result_simps)
qed

lemma cohort_member:
  assumes "map_r as_entry supplied = Inr entries" "cohort entries = Inr sel" "r \<in> set supplied"
  shows "\<exists>x p. (x, p) \<in> set sel \<and> row_field r ''episode'' = Inr (PStr x) \<and> row_field r ''propensity'' = Inr (PInt p)"
proof -
  from map_r_each [OF assms(1,3)] obtain e where e: "e \<in> set entries" "as_entry r = Inr e" by blast
  from assms(2) obtain res where r: "map_r cohort_entry entries = Inr res" "set sel = set res" by (auto simp: cohort_Inr)
  from map_r_each [OF r(1) e(1)] obtain x p where "(x, p) \<in> set res" "cohort_entry e = Inr (x, p)" by (metis surj_pair)
  with cohort_entry_Inr [OF this(2)] e(2) r(2) show ?thesis by (auto simp: as_entry_def result_simps row_field_def dget_def)
qed

lemma rows_of_Inr:
  assumes "rows_of w submitted supplied = Inr (p, rows, rt)"
  obtains entries sel study key alpha knd limit dp chal seed checked where "map_r as_entry supplied = Inr entries" "cohort entries = Inr sel"
    "make_plan study (map entry_of sel) key alpha knd limit dp = Inr p" "wire (PDict (plan_dict p)) = wire (PDict submitted)"
    "map_of w ''challenge'' = Some chal" "map_r (check_row submitted chal seed) (enumerate 0 (sort_key episode_of supplied)) = Inr checked" "rows = map fst checked"
    "tree_hash (map snd checked) = Inr rt"
proof -
  from assms show ?thesis unfolding rows_of_def by (simp only: result_simps) (elim exE conjE, rule that, (simp only: sum.inject prod.inject | blast)+)
qed

lemma witness_rows_Inr:
  assumes "witness_rows w = Inr r"
  obtains submitted supplied where "map_of w ''plan'' = Some (PDict submitted)" "map_of w ''rows'' = Some (PList supplied)" "rows_of w submitted supplied = Inr r"
  using assms by (auto simp: witness_rows_def result_simps split: pv.split_asm)


lemma witness_fits:
  assumes "witness_rows w = Inr (p, rows, rt)"
  shows "fits p rows"
    "\<exists>submitted chal. map_of w ''plan'' = Some (PDict submitted) \<and> map_of w ''challenge'' = Some chal \<and> wire (PDict (plan_dict p)) = wire (PDict submitted)
      \<and> (\<forall>r \<in> set rows. assignment submitted chal (rw_episode r) (PInt (rw_propensity r)) = Inr (rw_assigned r))"
proof -
  from witness_rows_Inr [OF assms] obtain submitted supplied where s: "map_of w ''plan'' = Some (PDict submitted)" "rows_of w submitted supplied = Inr (p, rows, rt)" by metis
  from rows_of_Inr [OF s(2)] obtain entries sel study key alpha knd limit dp chal seed checked where
    e: "map_r as_entry supplied = Inr entries" and c: "cohort entries = Inr sel" and m: "make_plan study (map entry_of sel) key alpha knd limit dp = Inr p"
    and w: "wire (PDict (plan_dict p)) = wire (PDict submitted)" and ch: "map_of w ''challenge'' = Some chal"
    and k: "map_r (check_row submitted chal seed) (enumerate 0 (sort_key episode_of supplied)) = Inr checked" and r: "rows = map fst checked" by metis
  have n: "2 \<le> length sel" "int (length sel) \<le> COHORT_ROWS" "length sel = length supplied" "length rows = length supplied"
    using c map_r_length [OF e] map_r_length [OF k] by (auto simp: cohort_Inr r dest!: map_r_length)
  have each: "\<exists>i y. y \<in> set supplied \<and> check_row submitted chal seed (i, y) = Inr x" if mem: "x \<in> set checked" for x
  proof -
    obtain z where "z \<in> set (enumerate 0 (sort_key episode_of supplied))" "check_row submitted chal seed z = Inr x"
      using map_r_source [OF k mem] by blast
    moreover have "snd z \<in> set supplied" if "z \<in> set (enumerate 0 (sort_key episode_of supplied))" using that by (metis (no_types) imageI map_snd_enumerate set_map set_sort)
    ultimately show ?thesis by (metis prod.collapse)
  qed
  have row: "\<exists>x. (x, rw_propensity r) \<in> set sel \<and> 0 \<le> rw_outcome r \<and> rw_outcome r \<le> SCALE \<and> assignment submitted chal (rw_episode r) (PInt (rw_propensity r)) = Inr (rw_assigned r)"
    if row_in: "r \<in> set rows" for r
  proof -
    from row_in obtain leaf where "(r, leaf) \<in> set checked" by (auto simp: r)
    from each [OF this] obtain i y where y: "y \<in> set supplied" "check_row submitted chal seed (i, y) = Inr (r, leaf)" by blast
    from cohort_member [OF e c y(1)] obtain x q where "(x, q) \<in> set sel" "row_field y ''propensity'' = Inr (PInt q)" by blast
    with check_row_Inr [OF y(2)] show ?thesis by auto
  qed
  have sel: "MIN_PROPENSITY \<le> q \<and> q \<le> SCALE - MIN_PROPENSITY" if "(x, q) \<in> set sel" for x q using cohort_rows [OF c that] by simp
  have ne: "sel \<noteq> []" using n(1) by auto
  have lb: "MIN_PROPENSITY \<le> least_propensity sel" "2 * least_propensity sel \<le> SCALE"
    "(x, q) \<in> set sel \<Longrightarrow> least_propensity sel \<le> q \<and> q \<le> SCALE - least_propensity sel" for x q
    using least_propensity_bounds [OF ne] sel by blast+
  from make_plan_Inr [OF m] cohort_again [OF c] have p: "pn_count p = int (length sel)" "pn_propensity_min p = least_propensity sel" "map_of LOG_UPPER (pn_alpha p) \<noteq> None"
    "pn_dp p \<noteq> PNone \<longrightarrow> (\<exists>r. dp_parameters p = Inr r)" "pn_harm p \<longleftrightarrow> pn_harm_limit p \<noteq> None" by auto
  have "pn_propensity_min p \<le> rw_propensity r \<and> rw_propensity r \<le> SCALE - pn_propensity_min p \<and> 0 \<le> rw_outcome r \<and> rw_outcome r \<le> SCALE" if "r \<in> set rows" for r
    using row [OF that] lb(3) unfolding p(2) by blast
  with n p lb(1,2) show "fits p rows" by (simp add: fits_def list_all_iff)
  show "\<exists>submitted chal. map_of w ''plan'' = Some (PDict submitted) \<and> map_of w ''challenge'' = Some chal \<and> wire (PDict (plan_dict p)) = wire (PDict submitted)
      \<and> (\<forall>r \<in> set rows. assignment submitted chal (rw_episode r) (PInt (rw_propensity r)) = Inr (rw_assigned r))"
    using s(1) ch w row by blast
qed

section \<open>The exact quantities\<close>

text \<open>The inverse-propensity estimate, the self-normalised one and Hoeffding's radius over the reals, in millionths.\<close>

definition exact_score :: "bool \<Rightarrow> effect_row \<Rightarrow> real" where
  "exact_score harm r =
     (if harm then rw_outcome r
      else if rw_assigned r then rw_outcome r * SCALE / rw_propensity r
      else - (rw_outcome r * SCALE / (SCALE - rw_propensity r)))"

definition exact_mean :: "bool \<Rightarrow> effect_row list \<Rightarrow> real" where
  "exact_mean harm rows = sum_list (map (exact_score harm) rows) / length rows"

definition in_arm :: "bool \<Rightarrow> effect_row \<Rightarrow> int" where
  "in_arm treated r = (if treated then rw_propensity r else SCALE - rw_propensity r)"

definition exact_arm :: "bool \<Rightarrow> effect_row list \<Rightarrow> real" where
  "exact_arm treated rows =
     (let xs = filter (\<lambda>r. rw_assigned r = treated) rows in
      SCALE * sum_list (map (\<lambda>r. rw_outcome r * SCALE / in_arm treated r) xs) / sum_list (map (\<lambda>r. SCALE * SCALE / in_arm treated r) xs))"

definition score_range :: "plan \<Rightarrow> real" where
  "score_range p = (if pn_harm p then SCALE else SCALE * SCALE / pn_propensity_min p + SCALE * SCALE / (SCALE - pn_propensity_min p))"

definition hoeffding :: "plan \<Rightarrow> real" where
  "hoeffding p = score_range p * sqrt (ln (2 * SCALE / pn_alpha p) / (2 * pn_count p))"

lemma fits_row:
  assumes "fits p rows" "r \<in> set rows"
  shows "50000 \<le> rw_propensity r" "rw_propensity r \<le> 950000" "0 \<le> rw_outcome r" "rw_outcome r \<le> SCALE"
    "pn_propensity_min p \<le> rw_propensity r" "rw_propensity r \<le> SCALE - pn_propensity_min p"
  using assms by (auto simp: fits_def list_all_iff MIN_PROPENSITY_def SCALE_def)

lemma sum_list_gap:
  assumes "\<And>x. x \<in> set xs \<Longrightarrow> \<bar>f x - g x\<bar> \<le> (c :: real)"
  shows "\<bar>sum_list (map f xs) - sum_list (map g xs)\<bar> \<le> c * length xs"
  using assms
proof (induction xs)
  case (Cons x xs)
  from Cons.IH Cons.prems have "\<bar>sum_list (map f xs) - sum_list (map g xs)\<bar> \<le> c * length xs" "\<bar>f x - g x\<bar> \<le> c" by auto
  then show ?case by (simp add: algebra_simps)
qed simp

lemma of_int_sum_list: "real_of_int (sum_list (map f xs)) = sum_list (map (\<lambda>x. real_of_int (f x)) xs)"
  by (induction xs) auto

lemma score_error: "\<bar>real_of_int (score harm r) - exact_score harm r\<bar> \<le> (if harm then 0 else 1)"
  using div_real [of "rw_outcome r * SCALE" "rw_propensity r"] div_real [of "rw_outcome r * SCALE" "SCALE - rw_propensity r"]
  by (simp add: score_def exact_score_def)

lemma mean_error:
  assumes "rows \<noteq> []"
  shows "\<bar>real_of_int (sum_list (map (score harm) rows) div int (length rows)) - exact_mean harm rows\<bar> \<le> (if harm then 1 else 2)"
proof -
  let ?t = "sum_list (map (score harm) rows)" and ?e = "sum_list (map (exact_score harm) rows)" and ?n = "real (length rows)" and ?c = "if harm then 0 else 1 :: real"
  have n: "0 < ?n" using assms by simp
  have "\<bar>real_of_int ?t - ?e\<bar> \<le> ?c * ?n" unfolding of_int_sum_list by (rule sum_list_gap) (rule score_error)
  then have "\<bar>real_of_int ?t / ?n - ?e / ?n\<bar> \<le> ?c" using n by (simp add: diff_divide_distrib [symmetric] pos_divide_le_eq split: if_split_asm)
  moreover have "real_of_int ?t / ?n - 1 < real_of_int (?t div int (length rows))" "real_of_int (?t div int (length rows)) \<le> real_of_int ?t / ?n"
    using div_real [of ?t "int (length rows)"] by simp_all
  ultimately have "\<bar>real_of_int (?t div int (length rows)) - ?e / ?n\<bar> \<le> ?c + 1" by linarith
  then show ?thesis by (cases harm) (simp_all add: exact_mean_def)
qed


lemma arm_error:
  fixes q :: "effect_row \<Rightarrow> int"
  assumes "\<And>r. r \<in> set xs \<Longrightarrow> 0 < q r \<and> q r \<le> 950000 \<and> 0 \<le> rw_outcome r \<and> rw_outcome r \<le> SCALE" "xs \<noteq> []"
  shows "\<bar>real_of_int (SCALE * sum_list (map (\<lambda>r. rw_outcome r * SCALE div q r) xs) div sum_list (map (\<lambda>r. SCALE * SCALE div q r) xs))
    - SCALE * sum_list (map (\<lambda>r. rw_outcome r * SCALE / q r) xs) / sum_list (map (\<lambda>r. SCALE * SCALE / q r) xs)\<bar> \<le> 2"
proof -
  let ?T = "sum_list (map (\<lambda>r. rw_outcome r * SCALE div q r) xs)" and ?W = "sum_list (map (\<lambda>r. SCALE * SCALE div q r) xs)"
  let ?t = "sum_list (map (\<lambda>r. real_of_int (rw_outcome r * SCALE) / q r) xs)" and ?w = "sum_list (map (\<lambda>r. real_of_int (SCALE * SCALE) / q r) xs)"
  let ?n = "real (length xs)" and ?S = "real_of_int SCALE"
  have n: "0 < ?n" using assms(2) by simp
  have T: "\<bar>real_of_int ?T - ?t\<bar> \<le> 1 * ?n" "\<bar>real_of_int ?W - ?w\<bar> \<le> 1 * ?n" unfolding of_int_sum_list
    using div_real by (intro sum_list_gap; smt (verit))+
  have le: "real_of_int ?T \<le> ?t" "real_of_int ?W \<le> ?w" unfolding of_int_sum_list by (intro sum_list_mono div_real(2))+
  have tw: "0 \<le> ?t" "?t \<le> ?w"
  proof -
    have "0 \<le> real_of_int (rw_outcome r * SCALE) / q r" "real_of_int (rw_outcome r * SCALE) / q r \<le> real_of_int (SCALE * SCALE) / q r" if "r \<in> set xs" for r
      using assms(1) [OF that] by (auto intro!: divide_right_mono simp: SCALE_def)
    then show "0 \<le> ?t" "?t \<le> ?w" by (auto intro!: sum_list_nonneg sum_list_mono)
  qed
  have "?n * (?S + 1) \<le> ?w"
  proof -
    have "real_of_int SCALE + 1 \<le> real_of_int (SCALE * SCALE) / q r" if "r \<in> set xs" for r
      using assms(1) [OF that] by (simp add: SCALE_def pos_le_divide_eq)
    then have "sum_list (map (\<lambda>r. ?S + 1) xs) \<le> ?w" by (intro sum_list_mono) auto
    then show ?thesis by (simp add: sum_list_triv algebra_simps)
  qed
  then have W: "?n * ?S \<le> real_of_int ?W" "?n * ?S \<le> ?w" using T(2) n by (simp_all add: algebra_simps SCALE_def)
  have S: "0 < ?S" by (simp add: SCALE_def)
  have W0: "0 < real_of_int ?W" "0 < ?w" using W n S by (smt (verit) mult_pos_pos)+
  have up: "?S * ?T / ?W \<le> ?S * ?t / ?w + 1"
  proof -
    have "?S * ?T / ?W \<le> ?S * ?t / ?W" using le(1) S W0 by (intro divide_right_mono mult_left_mono) auto
    also have "\<dots> \<le> ?S * ?t / ?w + 1"
    proof -
      have "?t * (?w - ?W) \<le> ?w * ?n" using tw T(2) le(2) by (intro mult_mono) auto
      then have "?S * (?t * (?w - ?W)) \<le> ?S * (?w * ?n)" using S by simp
      also have "\<dots> \<le> ?w * ?W" using W(1) W0 by (simp add: algebra_simps mult_left_mono)
      finally show ?thesis using W0 by (simp add: field_simps)
    qed
    finally show ?thesis .
  qed
  have down: "?S * ?t / ?w - 1 \<le> ?S * ?T / ?W"
  proof -
    have "?S * ?t / ?w - 1 \<le> ?S * (?t - ?n) / ?w" using W(2) W0 by (simp add: field_simps)
    also have "\<dots> \<le> ?S * ?T / ?w" using T(1) S W0 by (intro divide_right_mono mult_left_mono) auto
    also have "\<dots> \<le> ?S * ?T / ?W"
    proof -
      have "0 \<le> ?T" using assms(1) by (intro sum_list_nonneg) (force simp: SCALE_def pos_imp_zdiv_nonneg_iff)
      then show ?thesis using le(2) S W0 by (intro divide_left_mono) auto
    qed
    finally show ?thesis .
  qed
  from up down div_real [of "SCALE * ?T" ?W] show ?thesis by simp
qed

lemma hajek_error:
  assumes "fits p rows" "hajek_of harm rows = Some h"
  shows "\<bar>real_of_int h - (exact_arm True rows - exact_arm False rows)\<bar> \<le> 6"
proof -
  have h: "h = SCALE * arm_total True rows div arm_weight True rows - SCALE * arm_total False rows div arm_weight False rows"
    and w: "arm_weight True rows \<noteq> 0" "arm_weight False rows \<noteq> 0" using assms(2) by (auto simp: hajek_of_def split: if_split_asm)
  have arm: "\<bar>real_of_int (SCALE * arm_total b rows div arm_weight b rows) - exact_arm b rows\<bar> \<le> 2" if "arm_weight b rows \<noteq> 0" for b
  proof -
    let ?xs = "filter (\<lambda>r. rw_assigned r = b) rows"
    have "?xs \<noteq> []" using that by (auto simp: arm_weight_def)
    moreover have "0 < in_arm b r \<and> in_arm b r \<le> 950000 \<and> 0 \<le> rw_outcome r \<and> rw_outcome r \<le> SCALE" if "r \<in> set ?xs" for r
      using fits_row [OF assms(1), of r] that by (simp add: in_arm_def SCALE_def)
    ultimately have "\<bar>real_of_int (SCALE * sum_list (map (\<lambda>r. rw_outcome r * SCALE div in_arm b r) ?xs) div sum_list (map (\<lambda>r. SCALE * SCALE div in_arm b r) ?xs))
      - SCALE * sum_list (map (\<lambda>r. rw_outcome r * SCALE / in_arm b r) ?xs) / sum_list (map (\<lambda>r. SCALE * SCALE / in_arm b r) ?xs)\<bar> \<le> 2" by (intro arm_error) auto
    then show ?thesis by (simp add: arm_total_def arm_weight_def exact_arm_def Let_def in_arm_def)
  qed
  show ?thesis using arm [OF w(1)] arm [OF w(2)] unfolding h by simp
qed

lemma ceil_div_le: "0 < d \<Longrightarrow> 0 \<le> n \<Longrightarrow> ceil_div n d \<le> n"
proof -
  assume a: "0 < d" "0 \<le> n"
  then have "real_of_int n * 1 \<le> real_of_int n * real_of_int d" by (intro mult_left_mono) auto
  then have "real_of_int (- n) \<le> real_of_int (- n) / real_of_int d" using a by (simp add: pos_le_divide_eq pos_divide_le_eq)
  then have "- n \<le> - n div d" unfolding floor_divide_of_int_eq [where 'a = real, symmetric] le_floor_iff .
  then show ?thesis by (simp add: ceil_div_def)
qed

lemma width_bounds:
  assumes "fits p rows"
  shows "score_range p \<le> width p" "0 < score_range p" "0 \<le> width p" "width p \<le> 2000000000000"
proof -
  have m: "50000 \<le> pn_propensity_min p" "2 * pn_propensity_min p \<le> 1000000" using assms by (auto simp: fits_def MIN_PROPENSITY_def SCALE_def)
  have a: "real_of_int (SCALE * SCALE) / d \<le> ceil_div (SCALE * SCALE) d" "0 < real_of_int (SCALE * SCALE) / d" "0 \<le> ceil_div (SCALE * SCALE) d" "ceil_div (SCALE * SCALE) d \<le> 1000000000000" if "0 < d" for d
    using ceil_div_ge [OF that, of "SCALE * SCALE"] ceil_div_nonneg [OF that, of "SCALE * SCALE"] ceil_div_le [OF that, of "SCALE * SCALE"] that by (simp_all add: SCALE_def)
  have d: "0 < pn_propensity_min p" "0 < SCALE - pn_propensity_min p" using m by (simp_all add: SCALE_def)
  show "score_range p \<le> width p" "0 \<le> width p" "width p \<le> 2000000000000"
    using a [OF d(1)] a [OF d(2)] by (auto simp: score_range_def width_def SCALE_def)
  show "0 < score_range p" using d by (auto simp: score_range_def SCALE_def intro!: add_pos_pos)
qed

lemma radius_sound:
  assumes "fits p rows"
  shows "\<exists>r. radius p False = Inr r \<and> hoeffding p \<le> real_of_int r" "\<exists>r. radius p True = Inr r \<and> 0 \<le> r"
proof -
  obtain l1 l2 where l: "map_of LOG_UPPER (pn_alpha p) = Some (l1, l2)" using assms by (auto simp: fits_def)
  note u = LOG_UPPER_sound [OF l] and w = width_bounds [OF assms]
  have n: "0 < pn_count p" using assms by (auto simp: fits_def)
  have lu: "log_upper p False = l1" "log_upper p True = l2" by (simp_all add: log_upper_def l)
  have num: "0 \<le> width p * width p * log_upper p b" "width p * width p * log_upper p b \<le> MAX_I128" for b
  proof -
    have k: "0 \<le> log_upper p b" "log_upper p b \<le> 15201805" using lu u by (cases b; simp)+
    show "0 \<le> width p * width p * log_upper p b" using w(3) k(1) by simp
    have "width p * width p * log_upper p b \<le> 2000000000000 * 2000000000000 * 15201805" using w(3,4) k by (intro mult_mono) simp_all
    then show "width p * width p * log_upper p b \<le> MAX_I128" by (simp add: MAX_I128_def)
  qed
  let ?d = "2 * pn_count p * SCALE"
  have d: "0 < ?d" using n by (simp add: SCALE_def)
  have r: "radius p b = Inr (sqrt_ceil (ceil_div (width p * width p * log_upper p b) ?d))" for b using num [of b] by (simp add: radius_def i128_def)
  have c: "0 \<le> ceil_div (width p * width p * log_upper p b) ?d" for b by (rule ceil_div_nonneg [OF d num(1)])
  show "\<exists>r. radius p True = Inr r \<and> 0 \<le> r" using r sqrt_ceil_ge(2) [OF c] by blast
  let ?r = "sqrt_ceil (ceil_div (width p * width p * l1) ?d)"
  have "hoeffding p \<le> real_of_int ?r"
  proof (rule power2_le_imp_le)
    have q: "0 \<le> ln (2 * real_of_int SCALE / real_of_int (pn_alpha p)) / (2 * real_of_int (pn_count p))"
      using u(1,2) n by (intro divide_nonneg_nonneg ln_ge_zero) (simp_all add: SCALE_def pos_le_divide_eq)
    have e: "hoeffding p = score_range p * sqrt (ln (2 * real_of_int SCALE / real_of_int (pn_alpha p)) / (2 * real_of_int (pn_count p)))" by (simp add: hoeffding_def)
    have "(hoeffding p)\<^sup>2 = score_range p * score_range p * (ln (2 * real_of_int SCALE / real_of_int (pn_alpha p)) / (2 * real_of_int (pn_count p)))"
      unfolding e power_mult_distrib real_sqrt_pow2 [OF q] by (simp add: power2_eq_square)
    also have "\<dots> \<le> real_of_int (width p) * real_of_int (width p) * ((real_of_int l1 / real_of_int SCALE) / (2 * real_of_int (pn_count p)))"
      using w u(3) n q by (intro mult_mono divide_right_mono) (auto simp: pos_le_divide_eq SCALE_def algebra_simps)
    also have "\<dots> = real_of_int (width p * width p * l1) / real_of_int ?d" by (simp add: SCALE_def)
    also have "\<dots> \<le> real_of_int (ceil_div (width p * width p * l1) ?d)" by (rule ceil_div_ge [OF d])
    also have "\<dots> \<le> real_of_int (?r * ?r)" using sqrt_ceil_ge(1) [OF c [of False]] lu(1) by (simp only: of_int_le_iff)
    finally show "(hoeffding p)\<^sup>2 \<le> (real_of_int ?r)\<^sup>2" by (simp add: power2_eq_square)
    show "0 \<le> real_of_int ?r" using sqrt_ceil_ge(2) [OF c [of False]] lu(1) by simp
  qed
  then show "\<exists>r. radius p False = Inr r \<and> hoeffding p \<le> real_of_int r" using r [of False] lu(1) by auto
qed

section \<open>The finite noise\<close>

lemma pick_range: "d < sum_list ws \<Longrightarrow> k \<le> pick_from k d ws \<and> pick_from k d ws < k + length ws"
proof (induction ws arbitrary: k d)
  case (Cons w ws)
  show ?case
  proof (cases "d < w")
    case False
    with Cons.prems have "d - w < sum_list ws" by simp
    from Cons.IH [OF this, of "k + 1"] False show ?thesis by simp
  qed simp
qed simp

lemma pick_card: "i < length ws \<Longrightarrow> card {d. d < sum_list ws \<and> pick_from k d ws = k + i} = ws ! i"
proof (induction ws arbitrary: k i)
  case (Cons w ws)
  show ?case
  proof (cases i)
    case 0
    have "pick_from (k + 1) (d - w) ws \<noteq> k" if "d < w + sum_list ws" "\<not> d < w" for d
      using pick_range [of "d - w" ws "k + 1"] that by force
    then have "{d. d < sum_list (w # ws) \<and> pick_from k d (w # ws) = k + i} = {..<w}" using 0 by (auto split: if_split_asm)
    with 0 show ?thesis by simp
  next
    case (Suc j)
    let ?A = "{d. d < sum_list ws \<and> pick_from (k + 1) d ws = (k + 1) + j}"
    have "{d. d < sum_list (w # ws) \<and> pick_from k d (w # ws) = k + i} = (\<lambda>d. d + w) ` ?A"
    proof (intro equalityI subsetI)
      fix d assume d: "d \<in> {d. d < sum_list (w # ws) \<and> pick_from k d (w # ws) = k + i}"
      with Suc have "\<not> d < w" by (auto split: if_split_asm)
      with d Suc have "d - w \<in> ?A" "d = (d - w) + w" by auto
      then show "d \<in> (\<lambda>d. d + w) ` ?A" by blast
    qed (use Suc in auto)
    then have "card {d. d < sum_list (w # ws) \<and> pick_from k d (w # ws) = k + i} = card ?A" by (simp add: card_image inj_on_def)
    also have "\<dots> = ws ! j" using Cons.IH [of j "k + 1"] Cons.prems Suc by simp
    finally show ?thesis using Suc by simp
  qed
qed simp

lemma pick_none: "\<not> i < length ws \<Longrightarrow> {d. d < sum_list ws \<and> pick_from 0 d ws = i} = {}"
  using pick_range [of _ ws 0] by auto

lemma gap_triangle: "gap i c' \<le> gap i c + gap c c'"
  by (auto simp: gap_def)

lemma weight_shift:
  assumes "(m :: nat) \<le> n" "g' \<le> g + k" "g \<le> M" "g' \<le> M"
  shows "m ^ g * n ^ (M - g) * m ^ k \<le> m ^ g' * n ^ (M - g') * n ^ k"
proof -
  have "m ^ g * n ^ (M - g) * m ^ k = m ^ g' * (m ^ (g + k - g') * n ^ (M - g))" using assms(2) by (simp flip: power_add)
  also have "\<dots> \<le> m ^ g' * (n ^ (g + k - g') * n ^ (M - g))" using assms(1) by (intro mult_le_mono) (simp_all add: power_mono)
  also have "\<dots> = m ^ g' * n ^ (M - g') * n ^ k" using assms by (simp flip: power_add) (simp add: add.commute)
  finally show ?thesis .
qed

lemma weights_shift:
  assumes "m \<le> n" "c \<le> M" "c' \<le> M" "gap c c' \<le> k" "i < M + 1"
  shows "weights m n M c ! i * m ^ k \<le> weights m n M c' ! i * n ^ k"
proof -
  have "gap i c' \<le> gap i c + k" using gap_triangle [of i c' c] assms(4) by simp
  moreover have "gap i c \<le> M" "gap i c' \<le> M" using assms by (auto simp: gap_def)
  ultimately show ?thesis using weight_shift [OF assms(1)] assms(5) by (simp add: weights_def del: upt_Suc)
qed

lemma weights_sum_shift:
  assumes "m \<le> n" "c \<le> M" "c' \<le> M" "gap c c' \<le> k"
  shows "sum_list (weights m n M c) * m ^ k \<le> sum_list (weights m n M c') * n ^ k"
proof -
  have l: "length (weights m n M c) = M + 1" "length (weights m n M c') = M + 1" by (simp_all add: weights_def)
  have "(\<Sum>i<M + 1. weights m n M c ! i * m ^ k) \<le> (\<Sum>i<M + 1. weights m n M c' ! i * n ^ k)" using weights_shift [OF assms] by (intro sum_mono) simp
  then show ?thesis by (simp add: sum_list_sum_nth l atLeast0LessThan sum_distrib_right del: sum.lessThan_Suc)
qed

lemma weights_private:
  assumes "0 < m" "m \<le> n" "c \<le> M" "c' \<le> M" "gap c c' \<le> k"
  shows "real (card {d. d < sum_list (weights m n M c) \<and> pick_from 0 d (weights m n M c) = out}) * sum_list (weights m n M c')
    \<le> (real n / real m) ^ (2 * k) * (card {d. d < sum_list (weights m n M c') \<and> pick_from 0 d (weights m n M c') = out} * sum_list (weights m n M c))"
proof (cases "out < M + 1")
  case True
  let ?w = "weights m n M c" and ?w' = "weights m n M c'"
  have l: "length ?w = M + 1" "length ?w' = M + 1" by (simp_all add: weights_def)
  have "gap c' c \<le> k" using assms(5) by (simp add: gap_def abs_minus_commute)
  then have "?w ! out * m ^ k * (sum_list ?w' * m ^ k) \<le> ?w' ! out * n ^ k * (sum_list ?w * n ^ k)"
    using weights_shift [OF assms(2-5) True] weights_sum_shift [OF assms(2,4,3)] by (simp only: mult_le_mono)
  then have "real (?w ! out * m ^ k * (sum_list ?w' * m ^ k)) \<le> real (?w' ! out * n ^ k * (sum_list ?w * n ^ k))" by (simp only: of_nat_le_iff)
  then have "real (?w ! out) * sum_list ?w' \<le> (real n / real m) ^ (2 * k) * (?w' ! out * sum_list ?w)"
    using assms(1) by (simp add: power_divide field_simps) (simp add: power_mult power2_eq_square power_mult_distrib algebra_simps)
  with pick_card [of out ?w 0] pick_card [of out ?w' 0] l True show ?thesis by simp
next
  case False
  moreover have "length (weights m n M c) = M + 1" by (simp add: weights_def)
  ultimately have "{d. d < sum_list (weights m n M c) \<and> pick_from 0 d (weights m n M c) = out} = {}" by (intro pick_none) simp
  then show ?thesis unfolding \<open>{d. d < sum_list (weights m n M c) \<and> pick_from 0 d (weights m n M c) = out} = {}\<close> by simp
qed

section \<open>Sensitivity\<close>

lemma ceil_div_less: "real_of_int (ceil_div n d) < real_of_int n / real_of_int d + 1"
  using div_real(1) [of "- n" d] by (simp add: ceil_div_def)

lemma clamp_gap: "\<bar>clamp low v - clamp low w\<bar> \<le> \<bar>v - w\<bar>"
  by (simp add: clamp_def max_def min_def)

lemma center_range: "center_of harm v \<le> nat (grid harm)"
  by (auto simp: center_of_def clamp_def floor_of_def grid_def SCALE_def QUANTUM_def max_def min_def)

lemma center_gap:
  assumes "\<bar>v - w\<bar> \<le> sensitivity p"
  shows "gap (center_of (pn_harm p) v) (center_of (pn_harm p) w) \<le> nat (buckets p)"
proof -
  let ?c = "\<lambda>v. (clamp (floor_of (pn_harm p)) v - floor_of (pn_harm p)) div QUANTUM"
  have "\<bar>?c v - ?c w\<bar> \<le> ceil_div (sensitivity p) QUANTUM"
    by (rule div_gap) (use clamp_gap [of "floor_of (pn_harm p)" v w] assms in \<open>simp_all add: QUANTUM_def\<close>)
  moreover have "0 \<le> ?c x" for x by (simp add: clamp_def QUANTUM_def pos_imp_zdiv_nonneg_iff)
  ultimately have "int (gap (center_of (pn_harm p) v) (center_of (pn_harm p) w)) \<le> ceil_div (sensitivity p) QUANTUM" by (simp add: gap_def center_of_def)
  moreover have "int (gap (center_of (pn_harm p) v) (center_of (pn_harm p) w)) \<le> grid (pn_harm p)"
    using center_range [of "pn_harm p" v] center_range [of "pn_harm p" w] by (auto simp: gap_def grid_def SCALE_def QUANTUM_def)
  ultimately show ?thesis by (simp add: buckets_def)
qed

text \<open>One participant's outcome, replaced.\<close>

definition replaced :: "effect_row list \<Rightarrow> nat \<Rightarrow> int \<Rightarrow> effect_row list" where
  "replaced rows i y = rows[i := (rows ! i)\<lparr>rw_outcome := y\<rparr>]"

lemma replaced_fits: assumes "fits p rows" "i < length rows" "0 \<le> y" "y \<le> SCALE" shows "fits p (replaced rows i y)"
proof -
  let ?P = "\<lambda>r. pn_propensity_min p \<le> rw_propensity r \<and> rw_propensity r \<le> SCALE - pn_propensity_min p \<and> 0 \<le> rw_outcome r \<and> rw_outcome r \<le> SCALE"
  have "list_all ?P rows" using assms(1) by (simp add: fits_def)
  then have "list_all ?P (replaced rows i y)" using assms(2-) by (auto simp: list_all_length replaced_def nth_list_update)
  then show ?thesis using assms(1) by (simp add: fits_def) (simp add: replaced_def)
qed

lemma score_gap:
  assumes "fits p rows" "r \<in> set rows" "0 \<le> y" "y \<le> SCALE"
  shows "\<bar>score harm (r\<lparr>rw_outcome := y\<rparr>) - score harm r\<bar> \<le> (if harm then SCALE else ceil_div (SCALE * SCALE) (in_arm (rw_assigned r) r))"
proof -
  note f = fits_row [OF assms(1,2)]
  have "\<bar>y * SCALE - rw_outcome r * SCALE\<bar> \<le> SCALE * SCALE" using f assms(3,4) by (simp add: SCALE_def)
  moreover have "0 < in_arm (rw_assigned r) r" using f by (simp add: in_arm_def SCALE_def)
  ultimately have "\<bar>y * SCALE div in_arm (rw_assigned r) r - rw_outcome r * SCALE div in_arm (rw_assigned r) r\<bar> \<le> ceil_div (SCALE * SCALE) (in_arm (rw_assigned r) r)"
    by (intro div_gap)
  then show ?thesis using f assms(3,4) by (auto simp: score_def in_arm_def)
qed

lemma estimate_gap:
  assumes "fits p rows" "i < length rows" "0 \<le> y" "y \<le> SCALE"
  shows "\<bar>sum_list (map (score (pn_harm p)) (replaced rows i y)) div int (length (replaced rows i y)) - sum_list (map (score (pn_harm p)) rows) div int (length rows)\<bar> \<le> sensitivity p"
proof -
  let ?h = "pn_harm p" and ?n = "int (length rows)" and ?r = "rows ! i"
  let ?q = "in_arm (rw_assigned ?r) ?r"
  let ?D = "if ?h then SCALE else ceil_div (SCALE * SCALE) ?q"
  have n: "pn_count p = ?n" "2 \<le> ?n" using assms(1) by (auto simp: fits_def)
  have r: "?r \<in> set rows" using assms(2) by simp
  have "\<bar>sum_list (map (score ?h) (replaced rows i y)) - sum_list (map (score ?h) rows)\<bar> \<le> ?D"
    unfolding replaced_def sum_list_replaced [OF assms(2)] by (rule score_gap [OF assms(1) r assms(3,4)])
  then have g: "\<bar>sum_list (map (score ?h) (replaced rows i y)) div ?n - sum_list (map (score ?h) rows) div ?n\<bar> \<le> ceil_div ?D ?n"
    using n by (intro div_gap) auto
  have "ceil_div ?D ?n \<le> sensitivity p"
  proof (cases ?h)
    case True
    then show ?thesis by (simp add: sensitivity_def n)
  next
    case False
    have m: "0 < pn_propensity_min p" "pn_propensity_min p \<le> ?q" using fits_row [OF assms(1) r] assms(1) by (auto simp: in_arm_def fits_def MIN_PROPENSITY_def)
    have "real_of_int (SCALE * SCALE) / ?q \<le> real_of_int (SCALE * SCALE) / pn_propensity_min p" using m by (intro divide_left_mono) (auto simp: SCALE_def)
    then have "real_of_int (ceil_div (SCALE * SCALE) ?q) \<le> real_of_int (SCALE * SCALE) / pn_propensity_min p + 1" using ceil_div_less [of "SCALE * SCALE" ?q] by linarith
    then have "real_of_int (ceil_div (SCALE * SCALE) ?q) / ?n \<le> (real_of_int (SCALE * SCALE) / pn_propensity_min p + 1) / ?n" using n by (intro divide_right_mono) auto
    also have "\<dots> = real_of_int (SCALE * SCALE) / real_of_int (?n * pn_propensity_min p) + 1 / ?n" by (simp add: add_divide_distrib mult.commute)
    also have "\<dots> \<le> real_of_int (ceil_div (SCALE * SCALE) (?n * pn_propensity_min p)) + 1"
    proof (rule add_mono)
      have "0 < ?n * pn_propensity_min p" by (rule mult_pos_pos [OF _ m(1)]) (use n(2) in linarith)
      from ceil_div_ge [OF this] show "real_of_int (SCALE * SCALE) / real_of_int (?n * pn_propensity_min p) \<le> real_of_int (ceil_div (SCALE * SCALE) (?n * pn_propensity_min p))" .
      have "1 \<le> real_of_int ?n" using n(2) by linarith
      then show "1 / real_of_int ?n \<le> 1" by (metis divide_le_eq_1 linorder_not_less less_le_trans zero_less_one)
    qed
    finally have "real_of_int (ceil_div ?D ?n) < real_of_int (ceil_div (SCALE * SCALE) (?n * pn_propensity_min p)) + 2"
      using ceil_div_less [of "ceil_div (SCALE * SCALE) ?q" ?n] False by simp
    then show ?thesis using False by (simp add: sensitivity_def n)
  qed
  with g show ?thesis by (simp add: replaced_def)
qed

section \<open>The properties\<close>

lemma total_fits: assumes "fits p rows" shows "i128 (sum_list (map (score harm) rows)) = Inr (sum_list (map (score harm) rows))"
proof -
  have s: "\<bar>real_of_int (score harm r) - 0\<bar> \<le> 1000000000000" if "r \<in> set rows" for r
  proof -
    note f = fits_row [OF assms that]
    have "0 \<le> rw_outcome r * SCALE div q \<and> rw_outcome r * SCALE div q \<le> 1000000000000" if "0 < q" for q
    proof -
      have "rw_outcome r * SCALE div q \<le> rw_outcome r * SCALE" using zdiv_mono2 [of "rw_outcome r * SCALE" 1 q] f that by (simp add: SCALE_def)
      with f that show ?thesis by (simp add: SCALE_def pos_imp_zdiv_nonneg_iff)
    qed
    from this [of "rw_propensity r"] this [of "SCALE - rw_propensity r"] f show ?thesis by (simp add: score_def SCALE_def)
  qed
  have "\<bar>real_of_int (sum_list (map (score harm) rows)) - sum_list (map (\<lambda>_. 0) rows)\<bar> \<le> 1000000000000 * real (length rows)"
    unfolding of_int_sum_list by (rule sum_list_gap) (rule s)
  moreover have "real (length rows) \<le> 30000" using assms by (simp add: fits_def COHORT_ROWS_def)
  ultimately have "\<bar>real_of_int (sum_list (map (score harm) rows))\<bar> \<le> 30000000000000000" by (simp add: sum_list_0 del: abs_of_nonneg)
  then have "\<bar>sum_list (map (score harm) rows)\<bar> \<le> 30000000000000000" by linarith
  then show ?thesis by (simp add: i128_def MAX_I128_def)
qed

lemma clamp_covers:
  assumes "real_of_int low \<le> x" "x \<le> real_of_int SCALE"
  shows "real_of_int v \<le> x \<Longrightarrow> real_of_int (clamp low v) \<le> x" "x \<le> real_of_int v \<Longrightarrow> x \<le> real_of_int (clamp low v)"
  using assms by (auto simp: clamp_def max_def min_def)

lemma range_covers:
  assumes "fits p rows" "r \<in> set rows" "\<not> pn_harm p"
  shows "real_of_int (SCALE * SCALE) / rw_propensity r + real_of_int (SCALE * SCALE) / (SCALE - rw_propensity r) \<le> score_range p"
proof -
  note f = fits_row [OF assms(1,2)]
  let ?S = "real_of_int SCALE" and ?p = "real_of_int (rw_propensity r)" and ?m = "real_of_int (pn_propensity_min p)"
  have m: "50000 \<le> pn_propensity_min p" "2 * pn_propensity_min p \<le> 1000000" using assms(1) by (auto simp: fits_def MIN_PROPENSITY_def SCALE_def)
  have split: "?S * ?S / x + ?S * ?S / (?S - x) = ?S * ?S * ?S / (x * (?S - x))" if "0 < x" "x < ?S" for x using that by (simp add: field_simps)
  have pos: "0 < ?p" "?p < ?S" "0 < ?m" "?m < ?S" using f m by (simp_all add: SCALE_def)
  have "0 \<le> (?p - ?m) * (?S - ?m - ?p)" using f by (intro mult_nonneg_nonneg) (simp_all add: SCALE_def)
  then have le: "?m * (?S - ?m) \<le> ?p * (?S - ?p)" by (simp add: algebra_simps)
  have "?S * ?S * ?S / (?p * (?S - ?p)) \<le> ?S * ?S * ?S / (?m * (?S - ?m))" using le pos by (intro divide_left_mono mult_pos_pos) (simp_all add: SCALE_def)
  then show ?thesis using split [OF pos(1,2)] split [OF pos(3,4)] assms(3) by (simp add: score_range_def)
qed

lemma figures_plain:
  assumes "fits p rows" "pn_dp p = PNone"
  shows "\<exists>estimate hajek lower upper. figures p rows seed = Inr (estimate, hajek, lower, upper, None)
    \<and> \<bar>real_of_int estimate - exact_mean (pn_harm p) rows\<bar> \<le> (if pn_harm p then 1 else 2)
    \<and> (\<forall>h. hajek = Some h \<longrightarrow> \<bar>real_of_int h - (exact_arm True rows - exact_arm False rows)\<bar> \<le> 6)
    \<and> (\<forall>x :: real. floor_of (pn_harm p) \<le> x \<longrightarrow> x \<le> SCALE \<longrightarrow> \<bar>x - exact_mean (pn_harm p) rows\<bar> \<le> hoeffding p \<longrightarrow> lower \<le> x \<and> x \<le> upper)"
proof -
  let ?h = "pn_harm p" let ?e = "sum_list (map (score ?h) rows) div int (length rows)" and ?k = "if ?h then 1 else 2 :: int"
  obtain r where r: "radius p False = Inr r" "hoeffding p \<le> real_of_int r" using radius_sound(1) [OF assms(1)] by blast
  have m: "\<bar>real_of_int ?e - exact_mean ?h rows\<bar> \<le> real_of_int ?k"
  proof -
    have "rows \<noteq> []" using assms(1) by (auto simp: fits_def)
    from mean_error [OF this, of ?h] show ?thesis by (cases ?h) simp_all
  qed
  have "figures p rows seed = Inr (?e, hajek_of ?h rows, clamp (floor_of ?h) (?e - r - ?k), clamp (floor_of ?h) (?e + r + ?k), None)"
    by (simp add: figures_def Let_def total_fits [OF assms(1)] r(1) assms(2))
  moreover have "real_of_int (clamp (floor_of ?h) (?e - r - ?k)) \<le> x \<and> x \<le> real_of_int (clamp (floor_of ?h) (?e + r + ?k))"
    if x: "floor_of ?h \<le> x" "x \<le> SCALE" "\<bar>x - exact_mean ?h rows\<bar> \<le> hoeffding p" for x :: real
  proof -
    have "real_of_int (?e - r - ?k) \<le> x" "x \<le> real_of_int (?e + r + ?k)" using m x(3) r(2) unfolding of_int_add of_int_diff by linarith+
    then show ?thesis using clamp_covers [OF x(1,2)] by blast
  qed
  ultimately show ?thesis using m hajek_error [OF assms(1)] by (intro exI conjI) (assumption | simp split: if_split_asm)+
qed

lemma dp_parameters_Inr:
  assumes "dp_parameters p = Inr (m, n, eps)"
  shows "pn_dp p \<noteq> PNone" "\<exists>l. map_of DP_LOG_UPPER (m, n) = Some l \<and> eps = 2 * buckets p * l" "eps \<le> 20 * SCALE"
proof -
  have f: "dp_fraction d = Inr ((a, b), l) \<Longrightarrow> map_of DP_LOG_UPPER (a, b) = Some l" for d a b l
  proof -
    assume "dp_fraction d = Inr ((a, b), l)"
    then obtain x y where "(case (x, y) of (PInt m, PInt n) \<Rightarrow> (case map_of DP_LOG_UPPER (m, n) of None \<Rightarrow> Inl ValueError | Some l \<Rightarrow> Inr ((m, n), l)) | _ \<Rightarrow> Inl ValueError) = Inr ((a, b), l)"
      unfolding dp_fraction_def by (simp only: bind_r_Inr) blast
    then show "map_of DP_LOG_UPPER (a, b) = Some l" by (cases x; cases y) (auto split: option.split_asm)
  qed
  from assms obtain dp where dp: "pn_dp p = PDict dp" by (auto simp: dp_parameters_def split: pv.split_asm)
  with assms f show "pn_dp p \<noteq> PNone" "\<exists>l. map_of DP_LOG_UPPER (m, n) = Some l \<and> eps = 2 * buckets p * l" "eps \<le> 20 * SCALE"
    by (auto simp: dp_parameters_def result_simps Let_def)
qed

definition noise_weights :: "plan \<Rightarrow> int \<Rightarrow> int \<Rightarrow> effect_row list \<Rightarrow> nat list" where
  "noise_weights p m n rows =
     weights (nat m) (nat n) (nat (grid (pn_harm p))) (center_of (pn_harm p) (sum_list (map (score (pn_harm p)) rows) div int (length rows)))"

text \<open>The probability of a released position when the draw is uniform.\<close>

definition chance :: "plan \<Rightarrow> int \<Rightarrow> int \<Rightarrow> effect_row list \<Rightarrow> nat \<Rightarrow> real" where
  "chance p m n rows out =
     real (card {d. d < sum_list (noise_weights p m n rows) \<and> pick_from 0 d (noise_weights p m n rows) = out}) / sum_list (noise_weights p m n rows)"

lemma weights_bounds:
  assumes "0 < m" "m \<le> n" "n \<le> 100" "M \<le> 2000" "c \<le> M"
  shows "0 < sum_list (weights m n M c)" "nat_bits (sum_list (weights m n M c)) \<le> 14000"
proof -
  have l: "length (weights m n M c) = M + 1" by (simp add: weights_def)
  have w: "0 < x \<and> x \<le> n ^ M" if "x \<in> set (weights m n M c)" for x
  proof -
    from that obtain i where i: "i < M + 1" "x = m ^ gap i c * n ^ (M - gap i c)" by (auto simp: weights_def simp del: upt_Suc)
    have g: "gap i c \<le> M" using i assms by (auto simp: gap_def)
    have "x \<le> n ^ gap i c * n ^ (M - gap i c)" unfolding i(2) using assms by (intro mult_le_mono power_mono) auto
    with g show ?thesis using assms by (simp add: i(2) flip: power_add)
  qed
  have "sum_list (weights m n M c) \<le> sum_list (map (\<lambda>_. n ^ M) (weights m n M c))" using w sum_list_mono [of "weights m n M c" id "\<lambda>_. n ^ M"] by simp
  also have "\<dots> = (M + 1) * n ^ M" by (simp add: sum_list_triv l)
  also have "\<dots> \<le> 2 ^ 11 * 2 ^ (20 * 667)"
  proof (rule mult_le_mono)
    have "n ^ M \<le> 100 ^ M" using assms(3) by (rule power_mono) simp
    also have "\<dots> \<le> (100 :: nat) ^ (3 * 667)" by (rule power_increasing) (use assms(4) in simp_all)
    also have "\<dots> = (100 ^ 3) ^ 667" by (rule power_mult)
    also have "\<dots> \<le> (2 ^ 20) ^ 667" by (rule power_mono) simp_all
    also have "\<dots> = (2 :: nat) ^ (20 * 667)" by (rule power_mult [symmetric])
    finally show "n ^ M \<le> 2 ^ (20 * 667)" .
  qed (use assms in simp)
  also have "\<dots> = 2 ^ (11 + 20 * 667)" by (rule power_add [symmetric])
  finally have s: "sum_list (weights m n M c) \<le> 2 ^ (11 + 20 * 667)" .
  have "weights m n M c ! 0 \<in> set (weights m n M c)" using l by (intro nth_mem) simp
  from w [OF this] member_le_sum_list [OF this] show p: "0 < sum_list (weights m n M c)" by linarith
  from nat_bits_bounds [OF p] s have "(2 :: nat) ^ (nat_bits (sum_list (weights m n M c)) - 1) \<le> 2 ^ (11 + 20 * 667)" using le_trans by blast
  from power_le_imp_le_exp [OF _ this] have "nat_bits (sum_list (weights m n M c)) - 1 \<le> 11 + 20 * 667" by simp
  then show "nat_bits (sum_list (weights m n M c)) \<le> 14000" by simp
qed

lemma figures_noisy:
  assumes "fits p rows" "dp_parameters p = Inr (m, n, eps)" "hex_text seed = Inr s" "digest (PDict (plan_dict p)) = Inr h"
  shows "\<exists>d lower upper. d < sum_list (noise_weights p m n rows)
    \<and> figures p rows seed = Inr (floor_of (pn_harm p) + int (pick_from 0 d (noise_weights p m n rows)) * QUANTUM, None, lower, upper, Some eps)"
proof -
  let ?h = "pn_harm p" let ?ws = "noise_weights p m n rows" and ?e = "sum_list (map (score (pn_harm p)) rows) div int (length rows)"
  obtain l where l: "map_of DP_LOG_UPPER (m, n) = Some l" using dp_parameters_Inr(2) [OF assms(2)] by blast
  note b = DP_LOG_UPPER_sound [OF l]
  have g: "grid ?h = (SCALE - floor_of ?h) div QUANTUM" by (simp add: grid_def floor_of_def SCALE_def)
  have "nat (grid ?h) \<le> 2000" by (simp add: grid_def SCALE_def QUANTUM_def)
  then have w: "0 < sum_list ?ws" "nat_bits (sum_list ?ws) \<le> 14000" unfolding noise_weights_def
    using b by (intro weights_bounds center_range; simp)+
  obtain r0 r1 where r: "radius p False = Inr r0" "radius p True = Inr r1" using radius_sound [OF assms(1)] by blast
  let ?d = "raw_draw (''unimem-effect-dp-draw-v1'' @ NUL # unhex_bytes s @ unhex_bytes h) mod sum_list ?ws"
  have "\<exists>spread. noise p ?e seed = Inr (floor_of ?h + int (pick_from 0 ?d ?ws) * QUANTUM, spread, eps)"
    using w(2) by (simp add: noise_def assms(2-4) Let_def g [symmetric] noise_weights_def [symmetric])
  then obtain spread where "noise p ?e seed = Inr (floor_of ?h + int (pick_from 0 ?d ?ws) * QUANTUM, spread, eps)" by blast
  then show ?thesis using w(1) dp_parameters_Inr(1) [OF assms(2)]
    by (intro exI [of _ ?d]) (simp add: figures_def Let_def total_fits [OF assms(1)] r)
qed

lemma ratio_exp:
  fixes eps :: int
  assumes "0 < m" "m < n" "real_of_int SCALE * ln (real_of_int n / real_of_int m) \<le> real_of_int l" "0 \<le> k" "eps = 2 * k * l"
  shows "(real (nat n) / real (nat m)) ^ (2 * nat k) \<le> exp (eps / SCALE)"
proof -
  let ?x = "real_of_int n / real_of_int m"
  have x: "0 < ?x" using assms(1,2) by simp
  have "ln ?x \<le> l / SCALE" using assms(3) by (simp add: SCALE_def)
  then have "real (2 * nat k) * ln ?x \<le> real (2 * nat k) * (l / SCALE)" by (intro mult_left_mono) auto
  then have "exp (real (2 * nat k) * ln ?x) \<le> exp (eps / SCALE)" using assms(4,5) by simp
  moreover have "exp (real (2 * nat k) * ln ?x) = ?x ^ (2 * nat k)" using x unfolding exp_of_nat_mult by simp
  ultimately have "?x ^ (2 * nat k) \<le> exp (eps / SCALE)" by (simp only:)
  then show ?thesis using assms(1,2) by simp
qed

text \<open>
  C37: An effect statement is accurate. A witness that is accepted has rows that fit its preregistered plan, with every assignment the
  one that the verifier's nonce draws, and its statement reports the figures computed from them. Without noise the computation
  never fails: the integer estimate is within its stated rounding error of the exact inverse-propensity estimate, the self-normalised
  estimate within six millionths of the exact one, and the interval contains every admissible effect that Hoeffding's
  radius over the reals allows, for score ranges that cover those of all rows.
\<close>

theorem statement_accurate:
  "(\<forall>w rt. witness_rows w = Inr (p, rows, rt) \<longrightarrow> fits p rows
      \<and> (\<exists>submitted chal. map_of w ''plan'' = Some (PDict submitted) \<and> map_of w ''challenge'' = Some chal
          \<and> (\<forall>r \<in> set rows. assignment submitted chal (rw_episode r) (PInt (rw_propensity r)) = Inr (rw_assigned r)))
      \<and> (\<forall>s. make_statement w = Inr s \<longrightarrow> sm_rows_root s = rt \<and> (\<exists>seed. figures p rows seed = Inr (sm_estimate s, sm_hajek s, sm_lower s, sm_upper s, sm_epsilon s))))
    \<and> (fits p rows \<longrightarrow> pn_dp p = PNone \<longrightarrow>
        (\<exists>estimate hajek lower upper. figures p rows seed = Inr (estimate, hajek, lower, upper, None)
          \<and> \<bar>real_of_int estimate - exact_mean (pn_harm p) rows\<bar> \<le> (if pn_harm p then 1 else 2)
          \<and> (\<forall>h. hajek = Some h \<longrightarrow> \<bar>real_of_int h - (exact_arm True rows - exact_arm False rows)\<bar> \<le> 6)
          \<and> (\<forall>x :: real. floor_of (pn_harm p) \<le> x \<longrightarrow> x \<le> SCALE \<longrightarrow> \<bar>x - exact_mean (pn_harm p) rows\<bar> \<le> hoeffding p \<longrightarrow> lower \<le> x \<and> x \<le> upper)
          \<and> (\<forall>r \<in> set rows. \<not> pn_harm p \<longrightarrow> real_of_int (SCALE * SCALE) / rw_propensity r + real_of_int (SCALE * SCALE) / (SCALE - rw_propensity r) \<le> score_range p)))"
proof (intro conjI allI impI)
  fix w rt assume a: "witness_rows w = Inr (p, rows, rt)"
  show "fits p rows" by (rule witness_fits(1) [OF a])
  show "\<exists>submitted chal. map_of w ''plan'' = Some (PDict submitted) \<and> map_of w ''challenge'' = Some chal
          \<and> (\<forall>r \<in> set rows. assignment submitted chal (rw_episode r) (PInt (rw_propensity r)) = Inr (rw_assigned r))"
    using witness_fits(2) [OF a] by blast
  fix s assume "make_statement w = Inr s"
  with a show "sm_rows_root s = rt" "\<exists>seed. figures p rows seed = Inr (sm_estimate s, sm_hajek s, sm_lower s, sm_upper s, sm_epsilon s)"
    by (auto simp: make_statement_def bind_r_Inr)
next
  assume "fits p rows" "pn_dp p = PNone"
  from figures_plain [OF this, of seed] range_covers [OF this(1)]
  show "\<exists>estimate hajek lower upper. figures p rows seed = Inr (estimate, hajek, lower, upper, None)
          \<and> \<bar>real_of_int estimate - exact_mean (pn_harm p) rows\<bar> \<le> (if pn_harm p then 1 else 2)
          \<and> (\<forall>h. hajek = Some h \<longrightarrow> \<bar>real_of_int h - (exact_arm True rows - exact_arm False rows)\<bar> \<le> 6)
          \<and> (\<forall>x :: real. floor_of (pn_harm p) \<le> x \<longrightarrow> x \<le> SCALE \<longrightarrow> \<bar>x - exact_mean (pn_harm p) rows\<bar> \<le> hoeffding p \<longrightarrow> lower \<le> x \<and> x \<le> upper)
          \<and> (\<forall>r \<in> set rows. \<not> pn_harm p \<longrightarrow> real_of_int (SCALE * SCALE) / rw_propensity r + real_of_int (SCALE * SCALE) / (SCALE - rw_propensity r) \<le> score_range p)"
    by blast
qed

definition sample_rows :: "effect_row list" where
  "sample_rows = [\<lparr>rw_episode = ''a'', rw_propensity = 500000, rw_assigned = True, rw_outcome = 1000000\<rparr>,
     \<lparr>rw_episode = ''b'', rw_propensity = 500000, rw_assigned = False, rw_outcome = 0\<rparr>]"

definition sample_plan :: "bool \<Rightarrow> pv \<Rightarrow> plan" where
  "sample_plan harm dp = \<lparr>pn_study = ''s'', pn_count = 2, pn_cohort_root = uniform_hash (CHR ''a''), pn_propensity_min = 500000, pn_alpha = 50000,
     pn_harm = harm, pn_harm_limit = (if harm then Some 0 else None), pn_commitment_key = uniform_hash (CHR ''a''), pn_dp = dp\<rparr>"

definition sample_noise :: pv where
  "sample_noise = PDict [(''numerator'', PInt 99), (''denominator'', PInt 100), (''noise_key'', PStr (uniform_hash (CHR ''a'')))]"

lemma sample_fits: "dp = PNone \<or> (\<exists>r. dp_parameters (sample_plan harm dp) = Inr r) \<Longrightarrow> fits (sample_plan harm dp) sample_rows"
  by (auto simp: fits_def sample_plan_def sample_rows_def COHORT_ROWS_def MIN_PROPENSITY_def SCALE_def LOG_UPPER_def)

theorem statement_accurate_witness:
  "\<exists>estimate hajek lower upper. figures (sample_plan False PNone) sample_rows PNone = Inr (estimate, hajek, lower, upper, None) \<and> \<bar>estimate - 1000000\<bar> \<le> 2"
proof -
  have "fits (sample_plan False PNone) sample_rows" "pn_dp (sample_plan False PNone) = PNone" using sample_fits [of PNone False] by (simp, simp add: sample_plan_def)
  moreover have "exact_mean False sample_rows = 1000000" by (simp add: exact_mean_def exact_score_def sample_rows_def SCALE_def)
  moreover have "pn_harm (sample_plan False PNone) = False" by (simp add: sample_plan_def)
  ultimately obtain estimate hajek lower upper where e: "figures (sample_plan False PNone) sample_rows PNone = Inr (estimate, hajek, lower, upper, None)"
    "\<bar>real_of_int estimate - 1000000\<bar> \<le> 2" using statement_accurate [of "sample_plan False PNone" sample_rows PNone] by auto
  from e(2) have "\<bar>estimate - 1000000\<bar> \<le> 2" by linarith
  with e(1) show ?thesis by blast
qed

text \<open>
  C38: A noisy release is private. Replacing one participant's outcome changes the probability of every released value, for a
  uniform draw, by a factor of at most the exponential of the stated epsilon, which is at most twenty; the release always returns, and
  its value is the grid point that some draw below the total weight selects, with no exact statistic beside it.
\<close>

theorem release_is_private:
  assumes "fits p rows" "dp_parameters p = Inr (m, n, eps)" "i < length rows" "0 \<le> y" "y \<le> SCALE"
  shows "chance p m n rows out \<le> exp (eps / SCALE) * chance p m n (replaced rows i y) out \<and> eps \<le> 20 * SCALE
    \<and> (\<forall>seed s h. hex_text seed = Inr s \<longrightarrow> digest (PDict (plan_dict p)) = Inr h \<longrightarrow>
        (\<exists>d lower upper. d < sum_list (noise_weights p m n rows)
          \<and> figures p rows seed = Inr (floor_of (pn_harm p) + int (pick_from 0 d (noise_weights p m n rows)) * QUANTUM, None, lower, upper, Some eps)))"
proof -
  obtain l where l: "map_of DP_LOG_UPPER (m, n) = Some l" "eps = 2 * buckets p * l" using dp_parameters_Inr(2) [OF assms(2)] by blast
  note b = DP_LOG_UPPER_sound [OF l(1)]
  let ?v = "\<lambda>rows. sum_list (map (score (pn_harm p)) rows) div int (length rows)" and ?r = "replaced rows i y"
  let ?A = "\<lambda>rows. card {d. d < sum_list (noise_weights p m n rows) \<and> pick_from 0 d (noise_weights p m n rows) = out}" and ?T = "\<lambda>rows. sum_list (noise_weights p m n rows)"
  have c: "gap (center_of (pn_harm p) (?v rows)) (center_of (pn_harm p) (?v ?r)) \<le> nat (buckets p)"
    by (rule center_gap) (use estimate_gap [OF assms(1,3-5)] in \<open>simp only: abs_minus_commute\<close>)
  have k: "0 \<le> buckets p"
  proof -
    have "0 < pn_count p" "0 < pn_propensity_min p" using assms(1) by (auto simp: fits_def MIN_PROPENSITY_def)
    then have "0 \<le> sensitivity p" using ceil_div_nonneg [of "pn_count p" SCALE] ceil_div_nonneg [of "pn_count p * pn_propensity_min p" "SCALE * SCALE"] by (simp add: sensitivity_def SCALE_def)
    then show ?thesis using ceil_div_nonneg [of QUANTUM "sensitivity p"] by (simp add: buckets_def grid_def SCALE_def QUANTUM_def)
  qed
  have "nat (grid (pn_harm p)) \<le> 2000" by (simp add: grid_def SCALE_def QUANTUM_def)
  then have pos: "0 < ?T xs" for xs unfolding noise_weights_def using b by (intro weights_bounds(1) center_range; simp)
  have "real (?A rows) * ?T ?r \<le> (real (nat n) / real (nat m)) ^ (2 * nat (buckets p)) * (?A ?r * ?T rows)"
    unfolding noise_weights_def using b by (intro weights_private center_range c; simp)
  also have "\<dots> \<le> exp (eps / SCALE) * (?A ?r * ?T rows)" using ratio_exp [OF b(1,2,4) k l(2)] by (rule mult_right_mono) simp
  finally have "chance p m n rows out \<le> exp (eps / SCALE) * chance p m n ?r out" using pos [of rows] pos [of ?r] by (simp add: chance_def field_simps)
  then show ?thesis using dp_parameters_Inr(3) [OF assms(2)] figures_noisy [OF assms(1,2)] by blast
qed

theorem release_is_private_witness:
  "chance (sample_plan True sample_noise) 99 100 sample_rows 0 \<le> exp (10071102 / 1000000) * chance (sample_plan True sample_noise) 99 100 (replaced sample_rows 1 7) 0"
proof -
  have d: "dp_parameters (sample_plan True sample_noise) = Inr (99, 100, 10071102)"
    by (simp add: dp_parameters_def sample_plan_def sample_noise_def keys_are_def dp_fraction_def dget_def DP_LOG_UPPER_def hex_text_def is_hex_char_def
        buckets_def grid_def sensitivity_def ceil_div_def SCALE_def QUANTUM_def insert_commute)
  have "fits (sample_plan True sample_noise) sample_rows" using sample_fits d by blast
  from release_is_private [OF this d, of 1 7 0] show ?thesis by (simp add: sample_rows_def SCALE_def)
qed

section \<open>Proofs\<close>

lemma transparent_verifies:
  assumes "transparent w = Inr t" "wire (PDict t) = Inr b" "map_of w ''challenge'' = Some c" "digest c = Inr h"
  shows "verify_transparent d w (PStr h) = Inr (wire (PDict d) = Inr b)"
proof -
  have "is_hash h" by (rule digest_is_hash [OF assms(4)])
  moreover have "wire (PDict d) = Inl x \<Longrightarrow> x = ValueError" for x using wire_cases [of "PDict d"] by (simp del: dumps.simps split: if_split_asm)
  ultimately show ?thesis using assms by (cases "wire (PDict d)") (auto simp: verify_transparent_def dget_def hex_text_def)
qed

lemma chunked_only_verified:
  assumes "prove_chunked plan_value chal chunk_list prov = Inr d"
  shows "\<exists>prove_chunks verify h expected. prov = Some (prove_chunks, verify) \<and> verify d h = Inr True \<and> digest (PDict expected) = Inr h \<and> same_challenge chal expected
    \<and> (\<exists>n. map_of plan_value ''count'' = Some (PInt n) \<and> COHORT_ROWS < n \<and> n \<le> 1000000 \<and> cover_chunks 0 chunk_list = Inr n)"
  using assms by (auto simp: prove_chunked_def result_simps split: option.split_asm pv.split_asm) blast

end
