(* ===== verification/Pool.thy ===== *)
theory Pool
  imports Prelude
begin

text \<open>
  The pool of idle SQLite handles of \<^verbatim>\<open>unimem/sqlite_pool.py\<close>. Each operation is the section that runs under the pool's
  lock; the calls outside it, \<^verbatim>\<open>os.stat\<close> and \<^verbatim>\<open>open_connection\<close>, are separate steps, so that the step relation has every
  interleaving of threads that borrow, release, close and fork. Handles are numbered in the order of opening. The lemmas
  show that a handle always has exactly one owner. Paths are canonical already; finalizing the cursors of a closed handle
  is not modelled.
\<close>

section \<open>The pool\<close>

type_synonym pool_key = "string \<times> int \<times> int"

record pool =
  po_limit :: nat
  po_idle :: "(pool_key \<times> nat) list"
  po_generation :: nat

definition pool_init :: "int \<Rightarrow> pool result" where
  "pool_init limit = guard_r (\<not> limit < 1) ValueError (Inr \<lparr>po_limit = nat limit, po_idle = [], po_generation = 0\<rparr>)"

text \<open>Every operation returns the pool and the handles it closed, in order.\<close>

definition pool_close :: "pool \<Rightarrow> string option \<Rightarrow> pool \<times> nat list" where
  "pool_close p canonical =
     (let hit = (\<lambda>e. case canonical of None \<Rightarrow> True | Some path \<Rightarrow> fst (fst e) = path) in
      (p\<lparr>po_idle := filter (\<lambda>e. \<not> hit e) (po_idle p), po_generation := po_generation p + 1\<rparr>, map snd (filter hit (po_idle p))))"

definition before_fork :: "pool \<Rightarrow> pool \<times> nat list" where
  "before_fork p = (p\<lparr>po_idle := [], po_generation := po_generation p + 1\<rparr>, rev (map snd (po_idle p)))"

definition pool_borrow :: "pool \<Rightarrow> pool_key \<Rightarrow> pool \<times> nat list \<times> nat option \<times> nat" where
  "pool_borrow p key =
     (let stale = (\<lambda>e. fst (fst e) = fst key \<and> fst e \<noteq> key);
          kept = filter (\<lambda>e. \<not> stale e) (po_idle p) in
      (p\<lparr>po_idle := dpop kept key\<rparr>, map snd (filter stale (po_idle p)), map_of kept key, po_generation p))"

fun evict :: "nat \<Rightarrow> (pool_key \<times> nat) list \<Rightarrow> (pool_key \<times> nat) list \<times> nat list" where
  "evict limit [] = ([], [])"
| "evict limit (e # es) = (if limit \<le> length (e # es) then let (kept, gone) = evict limit es in (kept, snd e # gone) else (e # es, []))"

definition pool_release :: "pool \<Rightarrow> bool \<Rightarrow> pool_key \<Rightarrow> nat \<Rightarrow> nat \<Rightarrow> pool \<times> nat list" where
  "pool_release p unchanged key conn generation =
     (if \<not> unchanged \<or> generation \<noteq> po_generation p then (p, [conn])
      else
        let previous = (case map_of (po_idle p) key of None \<Rightarrow> [] | Some c \<Rightarrow> [c]);
            (kept, gone) = evict (po_limit p) (dpop (po_idle p) key) in
        (p\<lparr>po_idle := kept @ [(key, conn)]\<rparr>, previous @ gone))"

section \<open>Threads\<close>

text \<open>
  \<open>sy_waiting\<close> are the threads between a borrow that found no idle handle and the end of opening one, \<open>sy_held\<close> the handles
  that threads have borrowed, each with its key and the generation at that time, and \<open>sy_closed\<close> the handles closed so far.
\<close>

record sys =
  sy_pool :: pool
  sy_next :: nat
  sy_waiting :: "(pool_key \<times> nat) list"
  sy_held :: "(pool_key \<times> nat \<times> nat) list"
  sy_closed :: "nat list"

inductive pool_step :: "sys \<Rightarrow> sys \<Rightarrow> bool" where
  reuse: "pool_borrow (sy_pool s) key = (p, gone, Some c, g) \<Longrightarrow>
    pool_step s (s\<lparr>sy_pool := p, sy_held := (key, c, g) # sy_held s, sy_closed := sy_closed s @ gone\<rparr>)"
| miss: "pool_borrow (sy_pool s) key = (p, gone, None, g) \<Longrightarrow>
    pool_step s (s\<lparr>sy_pool := p, sy_waiting := (key, g) # sy_waiting s, sy_closed := sy_closed s @ gone\<rparr>)"
| opened: "sy_waiting s = xs @ (key, g) # ys \<Longrightarrow>
    pool_step s (s\<lparr>sy_next := sy_next s + 1, sy_waiting := xs @ ys, sy_held := (key, sy_next s, g) # sy_held s\<rparr>)"
| failed: "sy_waiting s = xs @ (key, g) # ys \<Longrightarrow> pool_step s (s\<lparr>sy_waiting := xs @ ys\<rparr>)"
| returned: "sy_held s = xs @ (key, c, g) # ys \<Longrightarrow> pool_release (sy_pool s) unchanged key c g = (p, gone) \<Longrightarrow>
    pool_step s (s\<lparr>sy_pool := p, sy_held := xs @ ys, sy_closed := sy_closed s @ gone\<rparr>)"
| closed: "pool_close (sy_pool s) canonical = (p, gone) \<Longrightarrow> pool_step s (s\<lparr>sy_pool := p, sy_closed := sy_closed s @ gone\<rparr>)"
| forked: "before_fork (sy_pool s) = (p, gone) \<Longrightarrow> pool_step s (s\<lparr>sy_pool := p, sy_closed := sy_closed s @ gone\<rparr>)"

definition sys_init :: "pool \<Rightarrow> sys" where
  "sys_init p = \<lparr>sy_pool = p, sy_next = 0, sy_waiting = [], sy_held = [], sy_closed = []\<rparr>"

definition idle_handles :: "sys \<Rightarrow> nat list" where
  "idle_handles s = map snd (po_idle (sy_pool s))"

definition held_handles :: "sys \<Rightarrow> nat list" where
  "held_handles s = map (\<lambda>(key, c, g). c) (sy_held s)"

section \<open>Every operation moves handles\<close>

lemma mset_filter_split: "mset (map f (filter P xs)) + mset (map f (filter (\<lambda>x. \<not> P x) xs)) = mset (map f xs)"
  by (induction xs) auto

lemma mset_dpop:
  "distinct (map fst d) \<Longrightarrow> mset (map snd d) = mset (map snd (dpop d k)) + (case map_of d k of None \<Rightarrow> {#} | Some v \<Rightarrow> {#v#})"
proof (induction d)
  case (Cons e d)
  have n: "fst e \<notin> fst ` set d" using Cons.prems by simp
  have "dpop d (fst e) = d" unfolding dpop_def by (rule filter_True) (metis n image_eqI)
  with Cons show ?case by (cases e) (auto simp: dpop_def)
qed (simp add: dpop_def)

lemma evict_moves: "evict l es = (kept, gone) \<Longrightarrow> mset (map snd es) = mset (map snd kept) + mset gone \<and> suffix kept es \<and> (0 < l \<longrightarrow> length kept < l)"
proof (induction es arbitrary: kept gone)
  case (Cons e es)
  show ?case
  proof (cases "l \<le> length (e # es)")
    case True
    obtain k g where k: "evict l es = (k, g)" by (cases "evict l es")
    from Cons.IH [OF k] Cons.prems True k show ?thesis by (auto intro: suffix_ConsI)
  qed (use Cons.prems in auto)
qed simp

lemma suffix_distinct: "suffix xs ys \<Longrightarrow> distinct (map f ys) \<Longrightarrow> distinct (map f xs)"
  by (auto simp: suffix_def)

definition pool_ok :: "pool \<Rightarrow> bool" where
  "pool_ok p \<longleftrightarrow> 1 \<le> po_limit p \<and> distinct (map fst (po_idle p)) \<and> length (po_idle p) \<le> po_limit p"

lemma close_moves:
  assumes "pool_close p canonical = (p', gone)" "pool_ok p"
  shows "pool_ok p'" "mset (map snd (po_idle p)) = mset (map snd (po_idle p')) + mset gone" "po_generation p' = po_generation p + 1"
proof -
  let ?hit = "\<lambda>e. case canonical of None \<Rightarrow> True | Some path \<Rightarrow> fst (fst e) = path"
  have e: "p' = p\<lparr>po_idle := filter (\<lambda>e. \<not> ?hit e) (po_idle p), po_generation := po_generation p + 1\<rparr>" "gone = map snd (filter ?hit (po_idle p))"
    using assms(1) by (auto simp: pool_close_def Let_def)
  show "pool_ok p'" using assms(2) by (auto simp: e(1) pool_ok_def distinct_map_filter intro: order_trans [OF length_filter_le])
  show "mset (map snd (po_idle p)) = mset (map snd (po_idle p')) + mset gone" using mset_filter_split [of snd ?hit "po_idle p"] by (simp add: e add.commute)
  show "po_generation p' = po_generation p + 1" by (simp add: e)
qed

lemma fork_moves:
  assumes "before_fork p = (p', gone)" "pool_ok p"
  shows "pool_ok p'" "mset (map snd (po_idle p)) = mset (map snd (po_idle p')) + mset gone" "po_generation p' = po_generation p + 1" "po_idle p' = []"
  using assms by (auto simp: before_fork_def pool_ok_def)

lemma borrow_moves:
  assumes "pool_borrow p key = (p', gone, found, g)" "pool_ok p"
  shows "pool_ok p'" "mset (map snd (po_idle p)) = mset (map snd (po_idle p')) + mset gone + (case found of None \<Rightarrow> {#} | Some c \<Rightarrow> {#c#})"
    "po_generation p' = po_generation p" "g = po_generation p"
    "\<forall>(k, c) \<in> set (po_idle p'). fst k \<noteq> fst key" "found = Some c \<Longrightarrow> (key, c) \<in> set (po_idle p)"
proof -
  let ?stale = "\<lambda>e. fst (fst e) = fst key \<and> fst e \<noteq> key" let ?kept = "filter (\<lambda>e. \<not> ?stale e) (po_idle p)"
  have e: "p' = p\<lparr>po_idle := dpop ?kept key\<rparr>" "gone = map snd (filter ?stale (po_idle p))" "found = map_of ?kept key" "g = po_generation p"
    using assms(1) by (auto simp: pool_borrow_def Let_def)
  have d: "distinct (map fst ?kept)" using assms(2) by (simp add: pool_ok_def distinct_map_filter)
  have "length (dpop ?kept key) \<le> length (po_idle p)" unfolding dpop_def by (intro order_trans [OF length_filter_le] length_filter_le)
  then show "pool_ok p'" using assms(2) distinct_dpop [OF d] by (simp add: e(1) pool_ok_def)
  show "mset (map snd (po_idle p)) = mset (map snd (po_idle p')) + mset gone + (case found of None \<Rightarrow> {#} | Some c \<Rightarrow> {#c#})"
    using mset_filter_split [of snd ?stale "po_idle p", symmetric] mset_dpop [OF d, of key] by (simp add: e(1-3) ac_simps)
  show "po_generation p' = po_generation p" "g = po_generation p" by (simp_all add: e)
  show "\<forall>(k, c) \<in> set (po_idle p'). fst k \<noteq> fst key" by (auto simp: e(1) dpop_def)
  show "found = Some c \<Longrightarrow> (key, c) \<in> set (po_idle p)" using map_of_SomeD by (fastforce simp: e(3))
qed

lemma release_moves:
  assumes "pool_release p unchanged key conn g = (p', gone)" "pool_ok p"
  shows "pool_ok p'" "mset (map snd (po_idle p)) + {#conn#} = mset (map snd (po_idle p')) + mset gone" "po_generation p' = po_generation p"
    "\<not> unchanged \<or> g \<noteq> po_generation p \<Longrightarrow> p' = p \<and> gone = [conn]"
    "unchanged \<Longrightarrow> g = po_generation p \<Longrightarrow> map_of (po_idle p') key = Some conn"
proof -
  obtain kept out where k: "evict (po_limit p) (dpop (po_idle p) key) = (kept, out)" by (cases "evict (po_limit p) (dpop (po_idle p) key)")
  note m = evict_moves [OF k]
  have d: "distinct (map fst (po_idle p))" "1 \<le> po_limit p" using assms(2) by (auto simp: pool_ok_def)
  have "key \<notin> fst ` set (dpop (po_idle p) key)" by (auto simp: dpop_def)
  then have f: "key \<notin> fst ` set kept" using m set_mono_suffix [of kept] by blast
  have g: "distinct (map fst kept)" using suffix_distinct [OF _ distinct_dpop [OF d(1)]] m by blast
  show "\<not> unchanged \<or> g \<noteq> po_generation p \<Longrightarrow> p' = p \<and> gone = [conn]" "po_generation p' = po_generation p"
    using assms(1) by (auto simp: pool_release_def Let_def k split: if_split_asm)
  show "pool_ok p'" using assms f g m d by (auto simp: pool_release_def Let_def k pool_ok_def split: if_split_asm)
  show "mset (map snd (po_idle p)) + {#conn#} = mset (map snd (po_idle p')) + mset gone"
    using assms(1) m mset_dpop [OF d(1), of key] by (auto simp: pool_release_def Let_def k split: if_split_asm option.split)
  show "unchanged \<Longrightarrow> g = po_generation p \<Longrightarrow> map_of (po_idle p') key = Some conn"
    using assms(1) f by (auto simp: pool_release_def Let_def k map_add_def split: option.split) (metis fst_conv image_eqI map_of_SomeD)
qed

section \<open>The property\<close>

definition sys_ok :: "sys \<Rightarrow> bool" where
  "sys_ok s \<longleftrightarrow> pool_ok (sy_pool s) \<and> mset (idle_handles s) + mset (held_handles s) + mset (sy_closed s) = mset [0..<sy_next s]
    \<and> (\<forall>(key, c, g) \<in> set (sy_held s). g \<le> po_generation (sy_pool s)) \<and> (\<forall>(key, g) \<in> set (sy_waiting s). g \<le> po_generation (sy_pool s))"

lemmas sys_defs = sys_ok_def idle_handles_def held_handles_def

lemma step_ok: "pool_step s s' \<Longrightarrow> sys_ok s \<Longrightarrow> sys_ok s' \<and> po_generation (sy_pool s) \<le> po_generation (sy_pool s') \<and> (\<exists>more. sy_closed s' = sy_closed s @ more)"
proof (induction rule: pool_step.induct)
  case (reuse s key p gone c g)
  then show ?case using borrow_moves [OF reuse(1)] by (auto simp: sys_defs ac_simps)
next
  case (miss s key p gone g)
  then show ?case using borrow_moves [OF miss(1)] by (auto simp: sys_defs ac_simps)
next
  case (opened s xs key g ys)
  then show ?case by (auto simp: sys_defs ac_simps)
next
  case (failed s xs key g ys)
  then show ?case by (auto simp: sys_defs)
next
  case (returned s xs key c g ys unchanged p gone)
  have "pool_ok (sy_pool s)" using returned(3) by (simp add: sys_ok_def)
  note r = release_moves [OF returned(2) this]
  have "mset (map snd (po_idle (sy_pool s))) + mset (map (\<lambda>(key, c, g). c) (xs @ ys)) + {#c#} + mset (sy_closed s) = mset [0..<sy_next s]"
    using returned(1,3) by (simp add: sys_defs ac_simps)
  then have "mset (map snd (po_idle p)) + mset gone + mset (map (\<lambda>(key, c, g). c) (xs @ ys)) + mset (sy_closed s) = mset [0..<sy_next s]"
    unfolding r(2) [symmetric] by (simp add: ac_simps)
  then show ?case using returned r(1,3) by (auto simp: sys_defs ac_simps)
next
  case (closed s canonical p gone)
  then show ?case using close_moves [OF closed(1)] by (fastforce simp: sys_defs ac_simps)
next
  case (forked s p gone)
  then show ?case using fork_moves [OF forked(1)] by (fastforce simp: sys_defs ac_simps)
qed

lemma reachable_ok: "pool_step\<^sup>*\<^sup>* s s' \<Longrightarrow> sys_ok s \<Longrightarrow> sys_ok s' \<and> po_generation (sy_pool s) \<le> po_generation (sy_pool s')"
  by (induction rule: rtranclp_induct) (auto dest: step_ok)

lemma init_ok: "pool_init limit = Inr p \<Longrightarrow> sys_ok (sys_init p)"
  by (auto simp: pool_init_def guard_r_Inr sys_init_def sys_defs pool_ok_def)

text \<open>
  C39: A database handle has exactly one owner. In every interleaving of borrowing, opening, releasing, closing and forking, each
  handle ever opened is exactly one of idle, held by one thread, or closed: no two threads share a handle and none
  receives a closed one. There are never more idle handles than the limit nor two under one key, a borrow leaves no
  idle handle of another file at its path, and a handle borrowed before a close or a fork is closed on its return.
\<close>

theorem pool_never_shares:
  assumes "pool_init limit = Inr p" "pool_step\<^sup>*\<^sup>* (sys_init p) s"
  shows "distinct (idle_handles s @ held_handles s @ sy_closed s) \<and> set (idle_handles s @ held_handles s @ sy_closed s) = {..<sy_next s}
    \<and> int (length (idle_handles s)) \<le> int (po_limit (sy_pool s)) \<and> distinct (map fst (po_idle (sy_pool s)))
    \<and> (\<forall>key p' gone c g. pool_borrow (sy_pool s) key = (p', gone, Some c, g) \<longrightarrow> (key, c) \<in> set (po_idle (sy_pool s)) \<and> c \<notin> set (held_handles s) \<union> set (sy_closed s))
    \<and> (\<forall>key p' gone found g. pool_borrow (sy_pool s) key = (p', gone, found, g) \<longrightarrow> (\<forall>(k, c) \<in> set (po_idle p'). fst k \<noteq> fst key))
    \<and> (\<forall>t canonical p' gone key c g unchanged. pool_close (sy_pool s) canonical = (p', gone) \<or> before_fork (sy_pool s) = (p', gone) \<longrightarrow>
        (key, c, g) \<in> set (sy_held s) \<longrightarrow> pool_step\<^sup>*\<^sup>* (s\<lparr>sy_pool := p', sy_closed := sy_closed s @ gone\<rparr>) t \<longrightarrow>
        pool_release (sy_pool t) unchanged key c g = (sy_pool t, [c]))"
proof -
  have ok: "sys_ok s" using reachable_ok [OF assms(2) init_ok [OF assms(1)]] by blast
  have pok: "pool_ok (sy_pool s)" using ok by (simp add: sys_ok_def)
  have m: "mset (idle_handles s @ held_handles s @ sy_closed s) = mset [0..<sy_next s]" using ok by (simp add: sys_ok_def ac_simps)
  have d: "distinct (idle_handles s @ held_handles s @ sy_closed s)" using mset_eq_imp_distinct_iff [OF m] by simp
  have e: "set (idle_handles s @ held_handles s @ sy_closed s) = {..<sy_next s}" using mset_eq_setD [OF m] by (auto simp: atLeast0LessThan)
  have lim: "length (idle_handles s) \<le> po_limit (sy_pool s)" "distinct (map fst (po_idle (sy_pool s)))" using pok by (auto simp: pool_ok_def idle_handles_def)
  have b: "(key, c) \<in> set (po_idle (sy_pool s)) \<and> c \<notin> set (held_handles s) \<union> set (sy_closed s)" if "pool_borrow (sy_pool s) key = (p', gone, Some c, g)" for key p' gone c g
  proof -
    have "(key, c) \<in> set (po_idle (sy_pool s))" using borrow_moves(6) [OF that pok] by simp
    moreover from this have "c \<in> set (idle_handles s)" by (force simp: idle_handles_def)
    ultimately show ?thesis using d by auto
  qed
  have r: "pool_release (sy_pool t) unchanged key c g = (sy_pool t, [c])"
    if a: "pool_close (sy_pool s) canonical = (p', gone) \<or> before_fork (sy_pool s) = (p', gone)" "(key, c, g) \<in> set (sy_held s)"
      "pool_step\<^sup>*\<^sup>* (s\<lparr>sy_pool := p', sy_closed := sy_closed s @ gone\<rparr>) t" for t canonical p' gone key c g unchanged
  proof -
    have st: "pool_step s (s\<lparr>sy_pool := p', sy_closed := sy_closed s @ gone\<rparr>)" using a(1) pool_step.closed pool_step.forked by blast
    have "po_generation p' = po_generation (sy_pool s) + 1" using a(1) close_moves(3) [OF _ pok] fork_moves(3) [OF _ pok] by blast
    moreover have "po_generation p' \<le> po_generation (sy_pool t)" using reachable_ok [OF a(3)] step_ok [OF st ok] by simp
    moreover have "g \<le> po_generation (sy_pool s)" using ok a(2) by (auto simp: sys_ok_def)
    ultimately show ?thesis by (simp add: pool_release_def)
  qed
  have u: "\<forall>(k, c) \<in> set (po_idle p'). fst k \<noteq> fst key" if "pool_borrow (sy_pool s) key = (p', gone, found, g)" for key p' gone found g
    by (rule borrow_moves(5) [OF that pok])
  show ?thesis
  proof (intro conjI)
    show "\<forall>t canonical p' gone key c g unchanged. pool_close (sy_pool s) canonical = (p', gone) \<or> before_fork (sy_pool s) = (p', gone) \<longrightarrow>
        (key, c, g) \<in> set (sy_held s) \<longrightarrow> pool_step\<^sup>*\<^sup>* (s\<lparr>sy_pool := p', sy_closed := sy_closed s @ gone\<rparr>) t \<longrightarrow>
        pool_release (sy_pool t) unchanged key c g = (sy_pool t, [c])" using r by blast
  qed (use d e lim b u in \<open>(simp | blast)+\<close>)
qed

definition sample_pool :: pool where
  "sample_pool = \<lparr>po_limit = 1, po_idle = [], po_generation = 0\<rparr>"

definition sample_sys :: sys where
  "sample_sys = \<lparr>sy_pool = sample_pool, sy_next = 1, sy_waiting = [], sy_held = [((''db'', 1, 7), 0, 0)], sy_closed = []\<rparr>"

lemma sample_reached: "pool_step\<^sup>*\<^sup>* (sys_init sample_pool) sample_sys"
proof -
  let ?k = "(''db'', 1, 7) :: pool_key"
  have "pool_borrow sample_pool ?k = (sample_pool, [], None, 0)" by (simp add: pool_borrow_def sample_pool_def dpop_def)
  from pool_step.miss [of "sys_init sample_pool", unfolded sys_init_def sys.simps, OF this]
  have a: "pool_step (sys_init sample_pool) \<lparr>sy_pool = sample_pool, sy_next = 0, sy_waiting = [(?k, 0)], sy_held = [], sy_closed = []\<rparr>" by (simp add: sys_init_def)
  from pool_step.opened [of "\<lparr>sy_pool = sample_pool, sy_next = 0, sy_waiting = [(?k, 0)], sy_held = [], sy_closed = []\<rparr>" "[]" ?k 0 "[]"]
  have "pool_step \<lparr>sy_pool = sample_pool, sy_next = 0, sy_waiting = [(?k, 0)], sy_held = [], sy_closed = []\<rparr> sample_sys" by (simp add: sample_sys_def)
  with a show ?thesis by (meson converse_rtranclp_into_rtranclp rtranclp.rtrancl_refl)
qed

theorem pool_never_shares_witness:
  "distinct (idle_handles sample_sys @ held_handles sample_sys @ sy_closed sample_sys)
    \<and> pool_release (fst (before_fork sample_pool)) True (''db'', 1, 7) 0 0 = (fst (before_fork sample_pool), [0])"
proof -
  have i: "pool_init 1 = Inr sample_pool" by (simp add: pool_init_def sample_pool_def)
  note p = pool_never_shares [OF i sample_reached]
  have f: "before_fork (sy_pool sample_sys) = (fst (before_fork sample_pool), [])" by (simp add: before_fork_def sample_sys_def sample_pool_def)
  have "pool_release (sy_pool (sample_sys\<lparr>sy_pool := fst (before_fork sample_pool), sy_closed := sy_closed sample_sys @ []\<rparr>)) True (''db'', 1, 7) 0 0
      = (sy_pool (sample_sys\<lparr>sy_pool := fst (before_fork sample_pool), sy_closed := sy_closed sample_sys @ []\<rparr>), [0])"
    by (rule p [THEN conjunct2, THEN conjunct2, THEN conjunct2, THEN conjunct2, THEN conjunct2, THEN conjunct2, rule_format, OF disjI2 [OF f]])
      (simp_all add: sample_sys_def)
  then show ?thesis using p [THEN conjunct1] by simp
qed

end
