(* ===== verification/Royalties.thy ===== *)
theory Royalties
  imports Complex_Main Journal "HOL-Library.Product_Lexorder"
begin

text \<open>
  The distribution of royalties of \<^verbatim>\<open>unimem/cleanroom.py\<close> (\<^verbatim>\<open>royalties\<close>, with \<^verbatim>\<open>estimate_jaccard\<close> of \<^verbatim>\<open>unimem/overlap.py\<close>): offers are
  grouped by near-duplicate signatures, the budget goes to the groups by value and within a group to the sellers by stake, both
  times by largest remainders over exact fractions. A float is its exact rational value; the rounded quotient
  of two integers, which is compared with the threshold, is the argument \<open>fdiv\<close>. Trials, escrow, slashing, private releases and
  payments of that module are not modelled.
\<close>

section \<open>Clusters\<close>

record offer =
  of_id :: string
  of_seller :: string
  of_minhash :: "int list"
  of_stake :: pv

definition agreeing :: "int list \<Rightarrow> int list \<Rightarrow> nat" where
  "agreeing a b = length (filter (\<lambda>(x, y). x = y) (zip a b))"

definition estimate_jaccard :: "(nat \<Rightarrow> nat \<Rightarrow> rat) \<Rightarrow> int list \<Rightarrow> int list \<Rightarrow> rat result" where
  "estimate_jaccard fdiv a b = guard_r (a \<noteq> [] \<and> b \<noteq> [] \<and> length a = length b) ValueError (Inr (fdiv (agreeing a b) (length a)))"

definition value_of :: "(string \<times> rat) list \<Rightarrow> offer \<Rightarrow> rat" where
  "value_of values x = (case map_of values (of_id x) of None \<Rightarrow> 0 | Some v \<Rightarrow> v)"

definition int_items :: "pv \<Rightarrow> int list result" where
  "int_items v = (case v of PList xs \<Rightarrow>
     bind_r (count_int (int (length xs)) 16 256) (\<lambda>_. map_r (\<lambda>x. fp_count x 0 (2 ^ 64 - 1)) xs)
      | PStr s \<Rightarrow> Inl ValueError | PDict d \<Rightarrow> Inl ValueError | _ \<Rightarrow> Inl TypeError)"

definition read_offer :: "(string \<times> rat) list \<Rightarrow> dict \<Rightarrow> offer result" where
  "read_offer values d =
     bind_r (bind_r (dget d ''id'') (\<lambda>v. fp_text v 512)) (\<lambda>i.
     bind_r (bind_r (dget d ''seller'') (\<lambda>v. fp_text v 512)) (\<lambda>s.
     bind_r (bind_r (dget d ''minhash'') int_items) (\<lambda>m.
     let x = \<lparr>of_id = i, of_seller = s, of_minhash = m, of_stake = dget_or d ''stake_cents'' (PInt 1)\<rparr> in
     guard_r (- 1 \<le> value_of values x \<and> value_of values x \<le> 1) ValueError (Inr x))))"

fun any_similar :: "(nat \<Rightarrow> nat \<Rightarrow> rat) \<Rightarrow> rat \<Rightarrow> offer \<Rightarrow> offer list \<Rightarrow> bool result" where
  "any_similar fdiv t x [] = Inr False"
| "any_similar fdiv t x (y # ys) =
     bind_r (estimate_jaccard fdiv (of_minhash x) (of_minhash y)) (\<lambda>r. if t \<le> r then Inr True else any_similar fdiv t x ys)"

definition add_offer :: "(nat \<Rightarrow> nat \<Rightarrow> rat) \<Rightarrow> rat \<Rightarrow> (string \<times> rat) list \<Rightarrow> offer list list \<Rightarrow> dict \<Rightarrow> offer list list result" where
  "add_offer fdiv t values groups d =
     bind_r (read_offer values d) (\<lambda>x.
     bind_r (map_r (any_similar fdiv t x) groups) (\<lambda>flags.
     let marked = zip groups flags in
     Inr (map fst (filter (\<lambda>g. \<not> snd g) marked) @ [x # concat (map fst (filter snd marked))])))"

definition group_ids :: "offer list \<Rightarrow> string list" where
  "group_ids g = sort (map of_id g)"

definition group_offers :: "(nat \<Rightarrow> nat \<Rightarrow> rat) \<Rightarrow> rat \<Rightarrow> (string \<times> rat) list \<Rightarrow> dict list \<Rightarrow> offer list list result" where
  "group_offers fdiv t values offers = bind_r (fold_r (add_offer fdiv t values) [] offers) (\<lambda>groups. Inr (sort_key group_ids groups))"

definition group_weight :: "(string \<times> rat) list \<Rightarrow> offer list \<Rightarrow> rat" where
  "group_weight values g = max 0 (case map (value_of values) g of [] \<Rightarrow> 0 | v # vs \<Rightarrow> foldl max v vs)"

section \<open>Largest remainders\<close>

definition bump :: "int list \<Rightarrow> nat list \<Rightarrow> int list" where
  "bump xs order = foldl (\<lambda>r i. r[i := r ! i + 1]) xs order"

text \<open>Every quota rounded down, and what is left one by one to the first positions of the order.\<close>

definition apportion :: "rat list \<Rightarrow> int \<Rightarrow> nat list \<Rightarrow> int list" where
  "apportion quotas amount order =
     (let floors = map floor quotas in bump floors (take (nat (amount - sum_list floors)) order))"

definition cluster_quotas :: "rat list \<Rightarrow> int \<Rightarrow> rat list" where
  "cluster_quotas weights budget = map (\<lambda>w. of_int budget * w / sum_list weights) weights"

definition cluster_order :: "rat list \<Rightarrow> string list list \<Rightarrow> nat list" where
  "cluster_order quotas ids = sort_key (\<lambda>i. (- (quotas ! i - of_int (floor (quotas ! i))), ids ! i)) [0..<length quotas]"

definition cluster_rewards :: "rat list \<Rightarrow> int \<Rightarrow> string list list \<Rightarrow> int list" where
  "cluster_rewards weights budget ids =
     (if 0 < sum_list weights \<and> 0 < budget
      then let quotas = cluster_quotas weights budget in apportion quotas budget (cluster_order quotas ids)
      else map (\<lambda>_. 0) weights)"

definition get_int :: "(string \<times> int) list \<Rightarrow> string \<Rightarrow> int" where
  "get_int d k = (case map_of d k of None \<Rightarrow> 0 | Some v \<Rightarrow> v)"

definition add_stake :: "(string \<times> int) list \<Rightarrow> offer \<Rightarrow> (string \<times> int) list result" where
  "add_stake stakes x = bind_r (fp_count (of_stake x) 1 100000000) (\<lambda>n. Inr (dset stakes (of_seller x) (get_int stakes (of_seller x) + n)))"

definition seller_shares :: "int \<Rightarrow> (string \<times> int) list \<Rightarrow> (string \<times> int) list" where
  "seller_shares reward stakes =
     (let names = sort (map fst stakes);
          held = map (get_int stakes) names;
          quotas = map (\<lambda>n. of_int (reward * n) / of_int (sum_list held)) held;
          order = sort_key (\<lambda>i. (- (quotas ! i - of_int (floor (quotas ! i)) :: rat), - (held ! i), names ! i)) [0..<length names] in
      zip names (apportion quotas reward order))"

definition pay :: "(string \<times> int) list \<Rightarrow> string \<times> int \<Rightarrow> (string \<times> int) list" where
  "pay payouts p = dset payouts (fst p) (get_int payouts (fst p) + snd p)"

record cluster =
  cl_listings :: "string list"
  cl_reward :: int
  cl_value :: rat
  cl_stakes :: "(string \<times> int) list"

definition pay_cluster ::
  "(string \<times> int) list \<times> cluster list \<Rightarrow> offer list \<times> rat \<times> int \<Rightarrow> ((string \<times> int) list \<times> cluster list) result" where
  "pay_cluster st grp =
     (let (payouts, clusters) = st; (g, weight, reward) = grp in
      bind_r (fold_r add_stake [] g) (\<lambda>stakes.
        Inr (if reward \<noteq> 0 then foldl pay payouts (seller_shares reward stakes) else payouts,
             clusters @ [\<lparr>cl_listings = sorted_set (map of_id g), cl_reward = reward, cl_value = weight, cl_stakes = sort_key fst stakes\<rparr>])))"

record royalty_report =
  rr_payouts :: "(string \<times> int) list"
  rr_clusters :: "cluster list"
  rr_paid :: int

definition royalties :: "(nat \<Rightarrow> nat \<Rightarrow> rat) \<Rightarrow> dict list \<Rightarrow> (string \<times> rat) list \<Rightarrow> int \<Rightarrow> rat \<Rightarrow> royalty_report result" where
  "royalties fdiv offers values budget threshold =
     bind_r (count_int (int (length offers)) 0 256) (\<lambda>_.
     bind_r (count_int budget 0 100000000) (\<lambda>_.
     guard_r (1 / 2 \<le> threshold \<and> threshold \<le> 1) ValueError (
     bind_r (group_offers fdiv threshold values offers) (\<lambda>groups.
     let weights = map (group_weight values) groups;
         rewards = cluster_rewards weights budget (map group_ids groups) in
     bind_r (fold_r pay_cluster ([], []) (zip groups (zip weights rewards))) (\<lambda>(payouts, clusters).
       Inr \<lparr>rr_payouts = payouts, rr_clusters = clusters, rr_paid = sum_list (map snd payouts)\<rparr>)))))"

section \<open>Largest remainders are exact\<close>

lemma bump_nth:
  "distinct order \<Longrightarrow> \<forall>i \<in> set order. i < length xs \<Longrightarrow>
     length (bump xs order) = length xs \<and> (\<forall>i < length xs. bump xs order ! i = xs ! i + (if i \<in> set order then 1 else 0))"
  unfolding bump_def by (induction order arbitrary: xs) (auto simp: nth_list_update)

lemma bump_sum: "\<forall>i \<in> set order. i < length xs \<Longrightarrow> sum_list (bump xs order) = sum_list xs + int (length order)"
  unfolding bump_def
proof (induction order arbitrary: xs)
  case (Cons i order)
  have "sum_list (xs[i := xs ! i + 1]) = sum_list xs + 1" using Cons.prems sum_list_replaced [of i xs id "xs ! i + 1"] by simp
  with Cons.IH [of "xs[i := xs ! i + 1]"] Cons.prems show ?case by simp
qed simp

definition remainder :: "rat \<Rightarrow> rat" where
  "remainder q = q - of_int (floor q)"

lemma remainder_bounds: "0 \<le> remainder q" "remainder q < 1"
  by (simp_all add: remainder_def) (simp_all add: frac_def [symmetric] frac_lt_1)

lemma sum_remainders: "sum_list quotas = of_int n \<Longrightarrow> sum_list (map remainder quotas) = of_int (n - sum_list (map floor quotas))"
proof -
  have "sum_list (map remainder xs) = sum_list xs - of_int (sum_list (map floor xs))" for xs by (induction xs) (simp_all add: remainder_def)
  then show "sum_list quotas = of_int n \<Longrightarrow> ?thesis" by simp
qed

lemma remainder_count:
  "sum_list (map remainder quotas) \<le> of_nat (length (filter (\<lambda>q. 0 < remainder q) quotas))" "0 \<le> sum_list (map remainder quotas)"
proof (induction quotas)
  case (Cons q quotas)
  { case 1 show ?case using Cons.IH remainder_bounds [of q] by (auto simp: not_less) }
  { case 2 show ?case using Cons.IH remainder_bounds [of q] by simp }
qed simp_all

lemma apportion_exact:
  assumes "sum_list quotas = of_int n" "mset order = mset [0..<length quotas]" "sorted (map (\<lambda>i. - remainder (quotas ! i)) order)"
  shows "length (apportion quotas n order) = length quotas" "sum_list (apportion quotas n order) = n"
    "i < length quotas \<Longrightarrow> \<bar>of_int (apportion quotas n order ! i) - quotas ! i\<bar> < 1"
    "i < length quotas \<Longrightarrow> quotas ! i = of_int k \<Longrightarrow> apportion quotas n order ! i = k"
proof -
  let ?f = "map floor quotas" let ?l = "nat (n - sum_list ?f)" let ?o = "take ?l order"
  have d: "distinct order" "set order = {..<length quotas}" "length order = length quotas"
    using mset_eq_imp_distinct_iff [OF assms(2)] mset_eq_setD [OF assms(2)] mset_eq_length [OF assms(2)] by (simp, simp add: atLeast0LessThan, simp)
  have pos: "length (filter (\<lambda>q. 0 < remainder q) quotas) = card {i. i < length quotas \<and> 0 < remainder (quotas ! i)}" by (rule length_filter_conv_card)
  have l: "int ?l = n - sum_list ?f" "?l \<le> card {i. i < length quotas \<and> 0 < remainder (quotas ! i)}"
  proof -
    have "(0 :: rat) \<le> of_int (n - sum_list ?f)" using remainder_count(2) [of quotas] unfolding sum_remainders [OF assms(1)] .
    then have z: "0 \<le> n - sum_list ?f" by (simp only: of_int_0_le_iff)
    have "(of_int (n - sum_list ?f) :: rat) \<le> of_int (int (card {i. i < length quotas \<and> 0 < remainder (quotas ! i)}))"
      using remainder_count(1) [of quotas] unfolding sum_remainders [OF assms(1)] pos by simp
    then have "n - sum_list ?f \<le> int (card {i. i < length quotas \<and> 0 < remainder (quotas ! i)})" by (simp only: of_int_le_iff)
    with z show "int ?l = n - sum_list ?f" "?l \<le> card {i. i < length quotas \<and> 0 < remainder (quotas ! i)}" by simp_all
  qed
  have "card {i. i < length quotas \<and> 0 < remainder (quotas ! i)} \<le> card {..<length quotas}" by (intro card_mono) auto
  then have lo: "length ?o = ?l" using l(2) d(3) by simp
  have so: "\<forall>i \<in> set ?o. i < length ?f" "distinct ?o" using d by (auto dest: in_set_takeD)
  have a: "apportion quotas n order = bump ?f ?o" by (simp add: apportion_def Let_def)
  note b = bump_nth [OF so(2,1)]
  show "length (apportion quotas n order) = length quotas" using b by (simp add: a)
  show "sum_list (apportion quotas n order) = n" using bump_sum [OF so(1)] lo l(1) by (simp add: a)
  have v: "apportion quotas n order ! i = floor (quotas ! i) + (if i \<in> set ?o then 1 else 0)" if "i < length quotas" for i using b that by (simp add: a)
  have zero: "i \<notin> set ?o" if "i < length quotas" "remainder (quotas ! i) = 0" for i
  proof
    assume "i \<in> set ?o"
    then obtain j where j: "j < ?l" "j < length order" "order ! j = i" by (metis in_set_conv_nth length_take min_less_iff_conj nth_take)
    have "{i. i < length quotas \<and> 0 < remainder (quotas ! i)} \<subseteq> set (take j order)"
    proof
      fix k assume k: "k \<in> {i. i < length quotas \<and> 0 < remainder (quotas ! i)}"
      then have "k \<in> set order" using d(2) by simp
      then obtain j' where j': "j' < length order" "order ! j' = k" by (auto simp: in_set_conv_nth)
      have "j' < j"
      proof (rule ccontr)
        assume "\<not> j' < j"
        with sorted_nth_mono [OF assms(3), of j j'] j j' have "- remainder (quotas ! i) \<le> - remainder (quotas ! k)" by simp
        with k that(2) show False by simp
      qed
      then show "k \<in> set (take j order)" using j' by (auto simp: in_set_conv_nth)
    qed
    then have "card {i. i < length quotas \<and> 0 < remainder (quotas ! i)} \<le> length (take j order)" by (meson List.finite_set card_length card_mono order_trans)
    with j l(2) show False by simp
  qed
  show "apportion quotas n order ! i = k" if "i < length quotas" "quotas ! i = of_int k"
    using v [OF that(1)] zero [OF that(1)] that(2) by (simp add: remainder_def)
  show "\<bar>of_int (apportion quotas n order ! i) - quotas ! i\<bar> < 1" if i: "i < length quotas"
  proof (cases "remainder (quotas ! i) = 0")
    case True
    then show ?thesis using v [OF i] zero [OF i] by (simp add: remainder_def)
  next
    case False
    then have "0 < remainder (quotas ! i)" using remainder_bounds(1) [of "quotas ! i"] by simp
    with v [OF i] remainder_bounds(2) [of "quotas ! i"] show ?thesis by (auto simp: remainder_def abs_less_iff)
  qed
qed

lemma sorted_fst: "sorted (map (\<lambda>i. (f i :: rat, g i :: 'b::linorder)) xs) \<Longrightarrow> sorted (map f xs)"
  unfolding sorted_map by (erule sorted_wrt_mono_rel [rotated]) (auto simp: less_eq_prod_def)

lemma cluster_rewards_exact:
  assumes "\<forall>w \<in> set weights. 0 \<le> w" "0 \<le> budget"
  shows "length (cluster_rewards weights budget ids) = length weights"
    "sum_list (cluster_rewards weights budget ids) = (if \<exists>w \<in> set weights. 0 < w then budget else 0)"
    "i < length weights \<Longrightarrow> weights ! i = 0 \<Longrightarrow> cluster_rewards weights budget ids ! i = 0"
    "i < length weights \<Longrightarrow> \<bar>of_int (cluster_rewards weights budget ids ! i) - of_int budget * weights ! i / sum_list weights\<bar> < 1"
proof -
  let ?q = "cluster_quotas weights budget" let ?o = "cluster_order ?q ids" let ?s = "sum_list weights"
  have pos: "0 < ?s \<longleftrightarrow> (\<exists>w \<in> set weights. 0 < w)" using assms(1) sum_list_nonneg_eq_0_iff [of weights] sum_list_nonneg [of weights] by (auto simp: less_le)
  have l: "length ?q = length weights" by (simp add: cluster_quotas_def)
  have m: "mset ?o = mset [0..<length ?q]" by (simp add: cluster_order_def)
  have s: "sorted (map (\<lambda>i. - remainder (?q ! i)) ?o)"
    unfolding cluster_order_def remainder_def by (rule sorted_fst [OF sorted_sort_key])
  have q: "sum_list ?q = of_int budget" if "0 < ?s"
  proof -
    have "sum_list (map (\<lambda>w. of_int budget * w / c) xs) = of_int budget * sum_list xs / c" for c :: rat and xs by (induction xs) (simp_all add: add_divide_distrib distrib_left)
    with that show ?thesis by (simp add: cluster_quotas_def)
  qed
  have r: "cluster_rewards weights budget ids = (if 0 < ?s \<and> 0 < budget then apportion ?q budget ?o else map (\<lambda>_. 0) weights)"
    by (simp add: cluster_rewards_def Let_def)
  note a = apportion_exact [OF q m s]
  show "length (cluster_rewards weights budget ids) = length weights" using a(1) l by (simp add: r)
  show "sum_list (cluster_rewards weights budget ids) = (if \<exists>w \<in> set weights. 0 < w then budget else 0)" using a(2) assms(2) by (auto simp: r pos sum_list_triv)
  show "cluster_rewards weights budget ids ! i = 0" if "i < length weights" "weights ! i = 0"
    using a(4) [of i 0] that l by (simp add: r cluster_quotas_def)
  show "\<bar>of_int (cluster_rewards weights budget ids ! i) - of_int budget * weights ! i / ?s\<bar> < 1" if i: "i < length weights"
  proof (cases "0 < ?s \<and> 0 < budget")
    case True
    then show ?thesis using a(3) [of i] i l by (simp add: r cluster_quotas_def)
  next
    case False
    have "?s = 0 \<or> budget = 0" using False assms sum_list_nonneg [of weights] by (auto simp: not_less antisym)
    with False i show ?thesis by (auto simp: r)
  qed
qed

lemma get_int_Some: "distinct (map fst d) \<Longrightarrow> (k, v) \<in> set d \<Longrightarrow> get_int d k = v"
  using map_of_is_SomeI [of d k v] by (simp add: get_int_def)

lemma held_sum:
  assumes "distinct (map fst d)"
  shows "map fst (sort_key fst d) = sort (map fst d)" "map (get_int d) (sort (map fst d)) = map snd (sort_key fst d)"
proof -
  show k: "map fst (sort_key fst d) = sort (map fst d)" by (rule sorted_distinct_set_unique) (use assms in \<open>auto simp: distinct_map\<close>)
  have "map (get_int d) (map fst (sort_key fst d)) = map snd (sort_key fst d)" using get_int_Some [OF assms] by auto
  then show "map (get_int d) (sort (map fst d)) = map snd (sort_key fst d)" unfolding k .
qed

lemma seller_shares_exact:
  assumes "distinct (map fst stakes)" "stakes \<noteq> []" "\<forall>(s, n) \<in> set stakes. 0 < n"
  shows "map fst (seller_shares reward stakes) = sort (map fst stakes)" "sum_list (map snd (seller_shares reward stakes)) = reward"
    "(s, a) \<in> set (seller_shares reward stakes) \<Longrightarrow> \<bar>of_int a - of_int (reward * get_int stakes s) / of_int (sum_list (map snd stakes)) :: rat\<bar> < 1"
proof -
  let ?n = "sort (map fst stakes)" let ?h = "map (get_int stakes) ?n" let ?t = "of_int (sum_list ?h) :: rat"
  let ?q = "map (\<lambda>n. of_int (reward * n) / ?t) ?h"
  let ?o = "sort_key (\<lambda>i. (- (?q ! i - of_int (floor (?q ! i)) :: rat), - (?h ! i), ?n ! i)) [0..<length ?n]"
  have t: "sum_list ?h = sum_list (map snd stakes)" unfolding held_sum(2) [OF assms(1)] by (simp flip: sum_mset_sum_list)
  have nn: "0 \<le> sum_list (map snd xs)" if "\<forall>(s, n) \<in> set xs. 0 < n" for xs :: "(string \<times> int) list" by (rule sum_list_nonneg) (use that in \<open>auto simp: less_imp_le\<close>)
  have "0 < sum_list (map snd stakes)"
  proof (cases stakes)
    case (Cons x xs)
    then show ?thesis using assms(3) nn [of xs] by (cases x) auto
  qed (use assms(2) in simp)
  then have p: "?t \<noteq> 0" unfolding t by simp
  have d: "sum_list (map (\<lambda>n. of_int (reward * n) / c) xs) = of_int (reward * sum_list xs) / c" for c :: rat and xs by (induction xs) (simp_all add: add_divide_distrib distrib_left)
  have "sum_list ?q = of_int (reward * sum_list ?h) / ?t" by (rule d)
  then have q: "sum_list ?q = of_int reward" using p by (simp add: o_def)
  have m: "mset ?o = mset [0..<length ?q]" by simp
  have s: "sorted (map (\<lambda>i. - remainder (?q ! i)) ?o)"
    unfolding remainder_def by (rule sorted_fst [OF sorted_sort_key])
  have e: "seller_shares reward stakes = zip ?n (apportion ?q reward ?o)" by (simp add: seller_shares_def Let_def)
  note a = apportion_exact [OF q m s]
  show "map fst (seller_shares reward stakes) = ?n" unfolding e using a(1) by simp
  have "map snd (seller_shares reward stakes) = apportion ?q reward ?o" unfolding e using a(1) by simp
  then show "sum_list (map snd (seller_shares reward stakes)) = reward" using a(2) by simp
  show "\<bar>of_int a - of_int (reward * get_int stakes s) / of_int (sum_list (map snd stakes)) :: rat\<bar> < 1" if "(s, a) \<in> set (seller_shares reward stakes)"
  proof -
    from that obtain i where i: "i < length ?q" "s = ?n ! i" "a = apportion ?q reward ?o ! i" unfolding e using a(1) by (auto simp: set_zip)
    from a(3) [OF i(1)] i show ?thesis by (simp add: t)
  qed
qed

section \<open>Payouts\<close>

lemma dset_sum: "distinct (map fst d) \<Longrightarrow> sum_list (map snd (dset d k v)) = sum_list (map snd d) - get_int d k + v"
  by (induction d k v rule: dset.induct) (auto simp: get_int_def split: option.split)

lemma dset_distinct: "distinct (map fst d) \<Longrightarrow> distinct (map fst (dset d k v))"
proof -
  have s: "set (map fst (dset d k v)) = insert k (set (map fst d))" for d by (induction d k v rule: dset.induct) auto
  show "distinct (map fst d) \<Longrightarrow> ?thesis" by (induction d k v rule: dset.induct) (use s in auto)
qed

lemma stakes_fold:
  assumes "fold_r add_stake acc g = Inr stakes" "distinct (map fst acc)" "\<forall>(s, n) \<in> set acc. 0 < n"
  shows "distinct (map fst stakes) \<and> (\<forall>(s, n) \<in> set stakes. 0 < n) \<and> set (map fst stakes) = set (map fst acc) \<union> set (map of_seller g)"
  using assms
proof (induction g arbitrary: acc)
  case (Cons x g)
  from Cons.prems(1) obtain n where n: "1 \<le> n" "fold_r add_stake (dset acc (of_seller x) (get_int acc (of_seller x) + n)) g = Inr stakes"
    by (auto simp: add_stake_def [of acc x] result_simps)
  let ?a = "dset acc (of_seller x) (get_int acc (of_seller x) + n)"
  have g: "0 \<le> get_int acc (of_seller x)" using Cons.prems(3) map_of_SomeD [of acc "of_seller x"] by (fastforce simp: get_int_def split: option.split)
  have "set (dset d k v) \<subseteq> insert (k, v) (set d)" for d k and v :: int by (induction d k v rule: dset.induct) auto
  then have "\<forall>(s, n) \<in> set ?a. 0 < n" using Cons.prems(3) n(1) g by (fastforce simp: add_nonneg_pos)
  moreover have "set (map fst ?a) = insert (of_seller x) (set (map fst acc))" for k v by (induction acc "of_seller x" "get_int acc (of_seller x) + n" rule: dset.induct) auto
  ultimately show ?case using Cons.IH [OF n(2) dset_distinct [OF Cons.prems(2)]] by auto
qed simp

lemma pay_fold:
  "distinct (map fst payouts) \<Longrightarrow> distinct (map fst (foldl pay payouts xs)) \<and> sum_list (map snd (foldl pay payouts xs)) = sum_list (map snd payouts) + sum_list (map snd xs)"
proof (induction xs arbitrary: payouts)
  case (Cons x xs)
  have "distinct (map fst (pay payouts x))" "sum_list (map snd (pay payouts x)) = sum_list (map snd payouts) + snd x"
    using Cons.prems by (simp_all add: pay_def dset_distinct dset_sum)
  with Cons.IH [of "pay payouts x"] show ?case by simp
qed simp

lemma clusters_fold:
  assumes "fold_r pay_cluster (payouts, clusters) xs = Inr (payouts', clusters')" "distinct (map fst payouts)" "\<forall>(g, w, r) \<in> set xs. g \<noteq> []"
  shows "sum_list (map snd payouts') = sum_list (map snd payouts) + sum_list (map (\<lambda>(g, w, r). r) xs)
    \<and> (\<exists>more. clusters' = clusters @ more \<and> map cl_reward more = map (\<lambda>(g, w, r). r) xs \<and> map cl_value more = map (\<lambda>(g, w, r). w) xs
        \<and> map cl_listings more = map (\<lambda>(g, w, r). sorted_set (map of_id g)) xs)"
  using assms
proof (induction xs arbitrary: payouts clusters)
  case (Cons x xs)
  obtain g w r where x: "x = (g, w, r)" by (cases x)
  from Cons.prems(1) obtain stakes where s: "fold_r add_stake [] g = Inr stakes"
    and f: "fold_r pay_cluster (if r \<noteq> 0 then foldl pay payouts (seller_shares r stakes) else payouts,
      clusters @ [\<lparr>cl_listings = sorted_set (map of_id g), cl_reward = r, cl_value = w, cl_stakes = sort_key fst stakes\<rparr>]) xs = Inr (payouts', clusters')"
    by (auto simp: x pay_cluster_def [of "(payouts, clusters)" "(g, w, r)"] bind_r_Inr)
  have k: "distinct (map fst stakes)" "\<forall>(s, n) \<in> set stakes. 0 < n" "stakes \<noteq> []" using stakes_fold [OF s] Cons.prems(3) by (auto simp: x)
  let ?p = "if r \<noteq> 0 then foldl pay payouts (seller_shares r stakes) else payouts"
  have p: "distinct (map fst ?p)" "sum_list (map snd ?p) = sum_list (map snd payouts) + r"
    using pay_fold [OF Cons.prems(2), of "seller_shares r stakes"] seller_shares_exact(2) [OF k(1,3,2), of r] Cons.prems(2) by auto
  from Cons.IH [OF f p(1)] Cons.prems(3) p(2) show ?case by (auto simp: x)
qed simp

section \<open>Groups are the components of near-duplicates\<close>

definition near :: "(nat \<Rightarrow> nat \<Rightarrow> rat) \<Rightarrow> rat \<Rightarrow> offer \<Rightarrow> offer \<Rightarrow> bool" where
  "near fdiv t x y \<longleftrightarrow> length (of_minhash x) = length (of_minhash y) \<and> t \<le> fdiv (agreeing (of_minhash x) (of_minhash y)) (length (of_minhash x))"

lemma near_sym: "near fdiv t x y \<Longrightarrow> near fdiv t y x"
proof -
  have a: "agreeing a b = agreeing b a" for a b by (induction a b rule: list_induct2') (auto simp: agreeing_def)
  show "near fdiv t x y \<Longrightarrow> ?thesis" unfolding near_def a [of "of_minhash y" "of_minhash x"] by auto
qed

definition linked :: "(nat \<Rightarrow> nat \<Rightarrow> rat) \<Rightarrow> rat \<Rightarrow> offer set \<Rightarrow> (offer \<times> offer) set" where
  "linked fdiv t A = {(x, y). x \<in> A \<and> y \<in> A \<and> near fdiv t x y}\<^sup>*"

definition components :: "(nat \<Rightarrow> nat \<Rightarrow> rat) \<Rightarrow> rat \<Rightarrow> offer list list \<Rightarrow> bool" where
  "components fdiv t groups \<longleftrightarrow> (\<forall>g \<in> set groups. g \<noteq> [] \<and> (\<forall>x \<in> set g. \<forall>y \<in> set g. (x, y) \<in> linked fdiv t (set g)))
    \<and> (\<forall>g \<in> set groups. \<forall>h \<in> set groups. g \<noteq> h \<longrightarrow> (\<forall>x \<in> set g. \<forall>y \<in> set h. \<not> near fdiv t x y))"

lemma any_similar_Inr: "any_similar fdiv t x ys = Inr b \<Longrightarrow> b \<longleftrightarrow> (\<exists>y \<in> set ys. near fdiv t x y)"
  by (induction ys) (auto simp: estimate_jaccard_def near_def result_simps split: if_split_asm)

lemma linked_mono: "A \<subseteq> B \<Longrightarrow> linked fdiv t A \<subseteq> linked fdiv t B"
  unfolding linked_def by (rule rtrancl_mono) auto

lemma linked_sym: "(x, y) \<in> linked fdiv t A \<Longrightarrow> (y, x) \<in> linked fdiv t A"
proof -
  have "sym {(x, y). x \<in> A \<and> y \<in> A \<and> near fdiv t x y}" using near_sym by (auto intro: symI)
  from sym_rtrancl [OF this] show "(x, y) \<in> linked fdiv t A \<Longrightarrow> ?thesis" unfolding linked_def by (rule symD)
qed

lemma add_offer_Inr:
  assumes "add_offer fdiv t values groups d = Inr groups'"
  obtains x where "read_offer values d = Inr x"
    "groups' = filter (\<lambda>g. \<not> (\<exists>y \<in> set g. near fdiv t x y)) groups @ [x # concat (filter (\<lambda>g. \<exists>y \<in> set g. near fdiv t x y) groups)]"
proof -
  from assms obtain x flags where x: "read_offer values d = Inr x" "map_r (any_similar fdiv t x) groups = Inr flags"
    and g: "groups' = map fst (filter (\<lambda>g. \<not> snd g) (zip groups flags)) @ [x # concat (map fst (filter snd (zip groups flags)))]"
    by (auto simp: add_offer_def bind_r_Inr Let_def)
  have f: "flags = map (\<lambda>g. \<exists>y \<in> set g. near fdiv t x y) groups" by (rule map_r_id [OF x(2)]) (use any_similar_Inr in blast)
  have z: "zip gs (map f gs) = map (\<lambda>g. (g, f g)) gs" for gs :: "offer list list" and f :: "offer list \<Rightarrow> bool" by (induction gs) auto
  show ?thesis by (rule that [OF x(1)]) (simp add: g f z filter_map o_def)
qed


lemma add_offer_components:
  assumes "add_offer fdiv t values groups d = Inr groups'" "components fdiv t groups"
  shows "components fdiv t groups'"
proof -
  obtain x where "read_offer values d = Inr x"
    and g: "groups' = filter (\<lambda>g. \<not> (\<exists>y \<in> set g. near fdiv t x y)) groups @ [x # concat (filter (\<lambda>g. \<exists>y \<in> set g. near fdiv t x y) groups)]" by (rule add_offer_Inr [OF assms(1)])
  let ?m = "filter (\<lambda>g. \<exists>y \<in> set g. near fdiv t x y) groups" let ?new = "x # concat ?m"
  have old: "g \<noteq> []" "u \<in> set g \<Longrightarrow> v \<in> set g \<Longrightarrow> (u, v) \<in> linked fdiv t (set g)" if "g \<in> set groups" for g u v using assms(2) that by (auto simp: components_def)
  have apart: "\<not> near fdiv t u v" if "g \<in> set groups" "h \<in> set groups" "g \<noteq> h" "u \<in> set g" "v \<in> set h" for g h u v using assms(2) that unfolding components_def by blast
  have to_x: "(u, x) \<in> linked fdiv t (set ?new)" if u: "u \<in> set ?new" for u
  proof (cases "u = x")
    case False
    with u obtain g y where m: "g \<in> set groups" "y \<in> set g" "near fdiv t x y" "u \<in> set g" by auto
    then have sub: "set g \<subseteq> set ?new" by auto
    have "(u, y) \<in> linked fdiv t (set ?new)" using linked_mono [OF sub] old(2) [OF m(1) m(4) m(2)] by blast
    moreover have "(y, x) \<in> {(x, y). x \<in> set ?new \<and> y \<in> set ?new \<and> near fdiv t x y}" using sub m near_sym by auto
    ultimately show ?thesis unfolding linked_def by (rule rtrancl_into_rtrancl)
  qed (simp add: linked_def)
  have new: "(u, v) \<in> linked fdiv t (set ?new)" if "u \<in> set ?new" "v \<in> set ?new" for u v
    using to_x [OF that(1)] linked_sym [OF to_x [OF that(2)]] unfolding linked_def by (rule rtrancl_trans)
  have far: "\<not> near fdiv t u v" if g: "g \<in> set groups" "\<not> (\<exists>y \<in> set g. near fdiv t x y)" and uv: "u \<in> set g" "v \<in> set ?new" for g u v
  proof (cases "v = x")
    case True
    then show ?thesis using g uv near_sym by blast
  next
    case False
    with uv obtain h where h: "h \<in> set groups" "\<exists>y \<in> set h. near fdiv t x y" "v \<in> set h" by auto
    then have "g \<noteq> h" using g by blast
    then show ?thesis using apart [OF g(1) h(1)] uv h by blast
  qed
  show ?thesis unfolding components_def g
  proof (intro conjI ballI impI)
    fix h h' u v assume hh: "h \<in> set (filter (\<lambda>g. \<not> (\<exists>y \<in> set g. near fdiv t x y)) groups @ [?new])" "h' \<in> set (filter (\<lambda>g. \<not> (\<exists>y \<in> set g. near fdiv t x y)) groups @ [?new])"
      "h \<noteq> h'" "u \<in> set h" "v \<in> set h'"
    show "\<not> near fdiv t u v"
    proof (cases "h = ?new")
      case True
      with hh have "h' \<in> set groups" "\<not> (\<exists>y \<in> set h'. near fdiv t x y)" by auto
      from far [OF this hh(5)] hh(4) True show ?thesis using near_sym by blast
    next
      case False
      with hh(1) have h: "h \<in> set groups" "\<not> (\<exists>y \<in> set h. near fdiv t x y)" by auto
      show ?thesis
      proof (cases "h' = ?new")
        case True
        then show ?thesis using far [OF h hh(4)] hh(5) by blast
      next
        case False
        with hh(2) have "h' \<in> set groups" by auto
        from apart [OF h(1) this hh(3-5)] show ?thesis .
      qed
    qed
  next
    fix h assume h: "h \<in> set (filter (\<lambda>g. \<not> (\<exists>y \<in> set g. near fdiv t x y)) groups @ [?new])"
    show "h \<noteq> []" using h old(1) by auto
    fix u v assume uv: "u \<in> set h" "v \<in> set h"
    show "(u, v) \<in> linked fdiv t (set h)"
    proof (cases "h = ?new")
      case True
      then show ?thesis using new uv by blast
    next
      case False
      with h have "h \<in> set groups" by auto
      from old(2) [OF this uv] show ?thesis .
    qed
  qed
qed

lemma group_fold:
  assumes "fold_r (add_offer fdiv t values) groups offers = Inr groups'" "components fdiv t groups"
  shows "components fdiv t groups' \<and> (\<exists>xs. map_r (read_offer values) offers = Inr xs \<and> mset (concat groups') = mset (concat groups) + mset xs)"
  using assms
proof (induction offers arbitrary: groups)
  case (Cons d offers)
  from Cons.prems(1) obtain g where g: "add_offer fdiv t values groups d = Inr g" "fold_r (add_offer fdiv t values) g offers = Inr groups'" by (auto simp: bind_r_Inr)
  note ih = Cons.IH [OF g(2) add_offer_components [OF g(1) Cons.prems(2)]]
  obtain x where x: "read_offer values d = Inr x"
    "g = filter (\<lambda>g. \<not> (\<exists>y \<in> set g. near fdiv t x y)) groups @ [x # concat (filter (\<lambda>g. \<exists>y \<in> set g. near fdiv t x y) groups)]" by (rule add_offer_Inr [OF g(1)])
  have "mset (concat (filter P gs)) + mset (concat (filter (\<lambda>g. \<not> P g) gs)) = mset (concat gs)" for P :: "offer list \<Rightarrow> bool" and gs by (induction gs) (auto simp: ac_simps)
  from this [of "\<lambda>g. \<exists>y \<in> set g. near fdiv t x y" groups] have "mset (concat g) = mset (concat groups) + {#x#}" by (simp add: x(2) ac_simps)
  with ih x(1) show ?case by auto
qed simp

lemma group_offers_Inr:
  assumes "group_offers fdiv t values offers = Inr groups"
  shows "components fdiv t groups" "\<exists>xs. map_r (read_offer values) offers = Inr xs \<and> mset (concat groups) = mset xs"
proof -
  from assms obtain gs where g: "fold_r (add_offer fdiv t values) [] offers = Inr gs" "groups = sort_key group_ids gs" by (auto simp: group_offers_def bind_r_Inr)
  have f: "components fdiv t gs \<and> (\<exists>xs. map_r (read_offer values) offers = Inr xs \<and> mset (concat gs) = mset (concat []) + mset xs)"
    by (rule group_fold [OF g(1)]) (simp add: components_def)
  have "mset (concat groups) = mset (concat gs)" unfolding g(2) mset_concat sum_mset_sum_list [symmetric] by simp
  with f show "components fdiv t groups" "\<exists>xs. map_r (read_offer values) offers = Inr xs \<and> mset (concat groups) = mset xs" by (simp_all add: components_def g(2))
qed

section \<open>The property\<close>

lemma foldl_max: "(v :: rat) \<le> foldl max v vs \<and> (\<forall>x \<in> set vs. x \<le> foldl max v vs) \<and> foldl max v vs \<in> insert v (set vs)"
proof (induction vs arbitrary: v)
  case (Cons x vs)
  from Cons [of "max v x"] show ?case by (auto simp: max_def split: if_split_asm)
qed simp

lemma group_weight_pos: "0 \<le> group_weight values g" "0 < group_weight values g \<longleftrightarrow> (\<exists>x \<in> set g. 0 < value_of values x)"
proof -
  show "0 \<le> group_weight values g" by (simp add: group_weight_def)
  show "0 < group_weight values g \<longleftrightarrow> (\<exists>x \<in> set g. 0 < value_of values x)"
  proof (cases g)
    case (Cons x xs)
    have "0 < foldl max v vs \<longleftrightarrow> (\<exists>x \<in> insert v (set vs). 0 < x)" for v :: rat and vs using foldl_max [of v vs] by (auto intro: less_le_trans)
    then show ?thesis by (simp add: group_weight_def Cons less_max_iff_disj)
  qed (simp add: group_weight_def)
qed

lemma zip3_parts:
  "length as = length bs \<Longrightarrow> length bs = length cs \<Longrightarrow>
     map (\<lambda>(g, w, r). r) (zip as (zip bs cs)) = cs \<and> map (\<lambda>(g, w, r). w) (zip as (zip bs cs)) = bs \<and> map (\<lambda>(g, w, r). f g) (zip as (zip bs cs)) = map f as"
  by (induction as bs cs rule: list_induct3) auto

text \<open>
  C40: Royalties pay the budget exactly and once per cluster of near-duplicates. The clusters partition the offers into the connected
  components of the near-duplicate relation. What is paid to sellers is in total the sum of the cluster rewards, which is the whole
  budget when some offer has a positive value and nothing otherwise; every cluster's reward differs by less than a cent from
  its proportional part, and a cluster without positive value gets nothing.
\<close>

theorem royalties_split_budget:
  assumes "royalties fdiv offers values budget t = Inr rep"
  shows "\<exists>groups xs. group_offers fdiv t values offers = Inr groups \<and> map_r (read_offer values) offers = Inr xs \<and> mset (concat groups) = mset xs \<and> components fdiv t groups
    \<and> map cl_listings (rr_clusters rep) = map (\<lambda>g. sorted_set (map of_id g)) groups \<and> map cl_value (rr_clusters rep) = map (group_weight values) groups
    \<and> rr_paid rep = sum_list (map cl_reward (rr_clusters rep)) \<and> rr_paid rep = (if \<exists>x \<in> set xs. 0 < value_of values x then budget else 0)
    \<and> (\<forall>c \<in> set (rr_clusters rep). \<bar>of_int (cl_reward c) - of_int budget * cl_value c / sum_list (map cl_value (rr_clusters rep))\<bar> < 1 \<and> (cl_value c = 0 \<longrightarrow> cl_reward c = 0))"
proof -
  from assms obtain groups payouts clusters where b: "0 \<le> budget" and g: "group_offers fdiv t values offers = Inr groups"
    and f: "fold_r pay_cluster ([], []) (zip groups (zip (map (group_weight values) groups) (cluster_rewards (map (group_weight values) groups) budget (map group_ids groups)))) = Inr (payouts, clusters)"
    and r: "rep = \<lparr>rr_payouts = payouts, rr_clusters = clusters, rr_paid = sum_list (map snd payouts)\<rparr>"
    by (auto simp: royalties_def result_simps Let_def)
  let ?w = "map (group_weight values) groups" let ?r = "cluster_rewards ?w budget (map group_ids groups)"
  have nn: "\<forall>w \<in> set ?w. 0 \<le> w" using group_weight_pos(1) by auto
  note c = cluster_rewards_exact [OF nn b, where ids = "map group_ids groups"]
  obtain xs where xs: "map_r (read_offer values) offers = Inr xs" "mset (concat groups) = mset xs" using group_offers_Inr(2) [OF g] by blast
  have comp: "components fdiv t groups" by (rule group_offers_Inr(1) [OF g])
  have "\<forall>(g, w, r) \<in> set (zip groups (zip ?w ?r)). g \<noteq> []" using comp by (auto simp: components_def dest!: set_zip_leftD)
  from clusters_fold [OF f _ this] have k: "sum_list (map snd payouts) = sum_list ?r" "map cl_reward clusters = ?r" "map cl_value clusters = ?w"
    "map cl_listings clusters = map (\<lambda>g. sorted_set (map of_id g)) groups"
    using zip3_parts [of groups ?w ?r "\<lambda>g. sorted_set (map of_id g)"] c(1) by auto
  have "(\<exists>w \<in> set ?w. 0 < w) \<longleftrightarrow> (\<exists>x \<in> set (concat groups). 0 < value_of values x)" using group_weight_pos(2) by auto
  then have p: "(\<exists>w \<in> set ?w. 0 < w) \<longleftrightarrow> (\<exists>x \<in> set xs. 0 < value_of values x)" unfolding mset_eq_setD [OF xs(2)] .
  have each: "\<bar>of_int (cl_reward y) - of_int budget * cl_value y / sum_list (map cl_value clusters)\<bar> < 1 \<and> (cl_value y = 0 \<longrightarrow> cl_reward y = 0)" if "y \<in> set clusters" for y
  proof -
    from that obtain i where i: "i < length clusters" "y = clusters ! i" by (auto simp: in_set_conv_nth)
    have l: "length clusters = length ?w" using k(3) by (metis length_map)
    have "cl_reward y = ?r ! i" "cl_value y = ?w ! i" using k(2,3) i by (metis nth_map)+
    with c(3,4) [of i] i l show ?thesis unfolding k(3) by simp
  qed
  show ?thesis using g xs comp k c(2) p each by (intro exI conjI) (simp_all add: r)
qed


definition sample_offer :: "string \<Rightarrow> int \<Rightarrow> dict" where
  "sample_offer i h = [(''id'', PStr i), (''seller'', PStr (''s'' @ i)), (''minhash'', PList (replicate 16 (PInt h)))]"

definition exact_quotient :: "nat \<Rightarrow> nat \<Rightarrow> rat" where
  "exact_quotient a b = of_nat a / of_nat b"

lemma sample_read:
  assumes "i \<in> {''a'', ''b''}" "h \<in> {0, 1}"
  shows "read_offer [(''a'', 1 / 2)] (sample_offer i h) = Inr \<lparr>of_id = i, of_seller = ''s'' @ i, of_minhash = replicate 16 h, of_stake = PInt 1\<rparr>"
proof -
  have "map_r (\<lambda>x. fp_count x 0 (2 ^ 64 - 1)) (replicate n (PInt h)) = Inr (replicate n h)" for n using assms(2) by (induction n) (auto simp: fp_count_def)
  then have "int_items (PList (replicate 16 (PInt h))) = Inr (replicate 16 h)" by (simp add: int_items_def count_int_def fp_count_def)
  moreover have "fp_text (PStr i) 512 = Inr i" "fp_text (PStr (''s'' @ i)) 512 = Inr (''s'' @ i)" using assms(1) by (auto simp: fp_text_Inr py_len_def NUL_char)
  ultimately show ?thesis using assms(1) by (auto simp: read_offer_def sample_offer_def dget_def dget_or_def value_of_def)
qed

theorem royalties_split_budget_witness:
  "\<exists>rep. royalties exact_quotient [sample_offer ''a'' 0, sample_offer ''b'' 1] [(''a'', 1 / 2)] 5 (4 / 5) = Inr rep \<and> rr_paid rep = 5"
proof -
  let ?o = "[sample_offer ''a'' 0, sample_offer ''b'' 1]" and ?v = "[(''a'', 1 / 2)] :: (string \<times> rat) list"
  let ?a = "\<lparr>of_id = ''a'', of_seller = ''sa'', of_minhash = replicate 16 0, of_stake = PInt 1\<rparr> :: offer"
  let ?b = "\<lparr>of_id = ''b'', of_seller = ''sb'', of_minhash = replicate 16 1, of_stake = PInt 1\<rparr> :: offer"
  have r: "read_offer ?v (sample_offer ''a'' 0) = Inr ?a" "read_offer ?v (sample_offer ''b'' 1) = Inr ?b" using sample_read [of "''a''" 0] sample_read [of "''b''" 1] by simp_all
  have "agreeing (replicate 16 1) (replicate 16 0) = 0" by (simp add: agreeing_def)
  then have n: "any_similar exact_quotient (4 / 5) ?b [?a] = Inr False" by (simp add: estimate_jaccard_def exact_quotient_def)
  have g: "group_offers exact_quotient (4 / 5) ?v ?o = Inr [[?a], [?b]]" by (simp add: group_offers_def add_offer_def r n [simplified] group_ids_def)
  have l: "length (cluster_rewards (map (group_weight ?v) [[?a], [?b]]) 5 (map group_ids [[?a], [?b]])) = 2"
    by (subst cluster_rewards_exact(1)) (auto simp: group_weight_pos(1))
  then obtain u u' where u: "cluster_rewards (map (group_weight ?v) [[?a], [?b]]) 5 (map group_ids [[?a], [?b]]) = [u, u']"
    by (auto simp: length_Suc_conv numeral_2_eq_2)
  have "\<exists>rep. royalties exact_quotient ?o ?v 5 (4 / 5) = Inr rep"
    by (simp add: royalties_def count_int_def fp_count_def g Let_def u [simplified] pay_cluster_def add_stake_def)
  then obtain rep where rep: "royalties exact_quotient ?o ?v 5 (4 / 5) = Inr rep" by blast
  from royalties_split_budget [OF rep] obtain xs where "map_r (read_offer ?v) ?o = Inr xs" "rr_paid rep = (if \<exists>x \<in> set xs. 0 < value_of ?v x then 5 else 0)" by blast
  with r have "rr_paid rep = 5" by (auto simp: value_of_def)
  with rep show ?thesis by blast
qed

end
