(* ===== verification/Spec2Isabelle.thy ===== *)
theory Spec2Isabelle
  imports Policy SqlGuard Runtime GraphSearch Household Mesh Edge Subject Roles Oblivious CorpusBin Agents Ifc Approval Stem Effects Pool Royalties
begin

text \<open>
  A verification library for UniMem, a memory store for software agents and robots (Python, under
  \<^verbatim>\<open>src/unimem\<close>), with the role tables of its hub (\<^verbatim>\<open>src/hub\<close>). It models the parts whose correctness other
  parts rest on: canonical encoding and digests, signed receipts and journals, the transparency log, delegated
  capabilities, policies, the knowledge graph, the runtime guards around providers, and the robotics
  protocols built from these.

  \<^bold>\<open>How the program is put together.\<close> Every record that is signed, logged or compared goes through one bounded
  canonical encoding. Receipts sign encodings; journals are files of receipts, each naming the digest of the one
  before; the transparency log is two journals, of leaves and of signed heads, with a Merkle tree over the
  leaves. Capability tokens, activated policies, household consents, the robot mesh, the edge cache and
  the outcome queue keep their state in journals or hand out receipts of the log. The graph, the
  circuit breaker, the cache and the parsers stand beside this.

  \<^bold>\<open>Conventions.\<close> Python values are the datatype \<open>pv\<close>, texts their UTF-8 bytes, dictionaries association lists in
  insertion order, floats the text that \<^verbatim>\<open>repr\<close> gives. A function that may raise returns \<open>exn + 'a\<close>, and every raise
  and early return is a branch. State is a record passed in and returned; operations whose partial effects
  survive an exception return the state beside the result. Ed25519, the ISO-8601 clock, \<^verbatim>\<open>str.lower\<close> and the
  identity resolver are arguments; what is relied on of them is a named hypothesis. SHA-256 and HMAC are executable
  functions; where a property needs that a hash does not collide, the hypothesis says so of the values at
  hand only. Signing time is the argument \<open>now\<close>. Files, locks and process-wide caches are outside the model: a
  journal is the list of its rows, and an operation holds its lock throughout.

  \<^bold>\<open>The theories.\<close>

  \<^item> \<open>Prelude\<close>: exceptions, results, values, dictionaries, sorted sets; the locale \<open>narrowing\<close> of chains
    along which permissions only shrink. \<open>Sha256\<close>: SHA-256, HMAC and hexadecimal.

  \<^item> \<open>Frontier\<close> (\<^verbatim>\<open>frontier_protocol.py\<close>): field validators, the bounded tree check, \<^verbatim>\<open>wire\<close> and \<^verbatim>\<open>digest\<close>. The tree check
    is exact (C1), the encoding is unambiguous (C2), and a digest names one record.

  \<^item> \<open>Merkle\<close> (first half of \<^verbatim>\<open>transparency_log.py\<close>): tree hashes, the incremental frontier, inclusion and consistency
    proofs; the optimised routines equal the recursive definition (C3), proofs are complete and sound
    (C4, C5). The locale \<open>committed_encoding\<close> is what hashing needs of an encoding.

  \<^item> \<open>Origin\<close> (\<^verbatim>\<open>origin.py\<close>): binding, verifying and counting receipts (C6).

  \<^item> \<open>Capabilities\<close> (\<^verbatim>\<open>capabilities.py\<close>): grants, attenuation, verification of chains and proofs of possession (C7 to
    C9), the chain argument through an interpretation of \<open>narrowing\<close>.

  \<^item> \<open>Policy\<close> (\<^verbatim>\<open>policy_proof.py\<close>, \<^verbatim>\<open>policy_io.py\<close>): finite policies, their exhaustive difference, normal forms and
    activation (C10 to C12).

  \<^item> \<open>Media\<close> (\<^verbatim>\<open>ingest/multimodal.py\<close>): text splitting, PDF strings and headers of PNG, JPEG, WAV, MP3, Ogg and FLAC (C13). \<open>SqlGuard\<close> (\<^verbatim>\<open>sql_guard.py\<close>): the scanner of comments and literals.

  \<^item> \<open>Runtime\<close> (\<^verbatim>\<open>retry.py\<close>, \<^verbatim>\<open>circuit_breaker.py\<close>, \<^verbatim>\<open>overload.py\<close>, \<^verbatim>\<open>runtime_cache.py\<close>): bounded retries (C14), the breaker
    as an interleaving step relation that refines a view of three states (C15, C16), and the single-flight cache
    with its budgets under every interleaving (C17, C18).

  \<^item> \<open>Ontology\<close>, \<open>Graph\<close>, \<open>GraphSearch\<close> (\<^verbatim>\<open>ontology.py\<close>, \<^verbatim>\<open>graph.py\<close>): updates with validity intervals and queries;
    the bounded path search returns a shortest walk or says rightly why not (C19).

  \<^item> \<open>Journal\<close> (\<^verbatim>\<open>frontier_protocol.py\<close>, \<^verbatim>\<open>memory_authority.py\<close>): the signed chain, its verification against a retained
    checkpoint, append, rotation and reading; appends keep the chain and a checkpoint pins the history (C20, C21).
    The locale \<open>record_log\<close> is what clients use of a journal.

  \<^item> \<open>Household\<close> (\<^verbatim>\<open>household.py\<close>): rooms, consents and the gate on observed scenes (C22).

  \<^item> \<open>Mesh\<close> (\<^verbatim>\<open>mesh_crdt.py\<close>): registered robots, signed operations and their merge, which does not depend on the
    order of arrival (C23); whatever a batch does, only vouched operations are recorded (C24).

  \<^item> \<open>LogStore\<close> (second half of \<^verbatim>\<open>transparency_log.py\<close>): the stored log; the receipts it hands out verify (C25).

  \<^item> \<open>Site\<close> (\<^verbatim>\<open>robotics/vda5050.py\<close>, \<^verbatim>\<open>robotics/site_memory.py\<close>): messages of fleets are of the type the schemas say, or
    refused with ValueError, and are then accepted by site memory (C26).

  \<^item> \<open>Edge\<close> (\<^verbatim>\<open>robotics/edge.py\<close>): the offline cache keeps every hazard through appends and compaction (C27), and the
    outcome queue loses nothing it did not post (C28). The locale \<open>rotating_log\<close> extends \<open>record_log\<close> by rotation.

  \<^item> \<open>Lineage\<close> (\<^verbatim>\<open>lineage.py\<close>, parts of \<^verbatim>\<open>memory_authority.py\<close>): attestations of derived records, the walk over ancestors,
    taints and labels; trust never rises along a derivation and a taint reaches every descendant (C30). The walk
    gives up only where there are at least 2000 reachable objects.

  \<^item> \<open>Subject\<close> (\<^verbatim>\<open>subject_policy.py\<close>): compiled bindings, source tags and the decision on a write as a function of
    the rules that apply (C29). \<open>Roles\<close> (\<^verbatim>\<open>hub/rbac.py\<close>, \<^verbatim>\<open>hub/scopes.py\<close>): the tables of roles and which calls they let through.

  \<^item> \<open>Ifc\<close> (\<^verbatim>\<open>memory_ifc.py\<close>): labels of retrieved memories on top of lineage, quoting of what is not trusted
    (C35), and the vote over isolated origins, whose certificate holds against the corruption it names (C34).

  \<^item> \<open>Oblivious\<close> (\<^verbatim>\<open>oblivious.py\<close>): private retrieval from two servers. Provisioned blocks respect the clearance, are
    reconstructed exactly, and each server's query is independent of the index (C31).

  \<^item> \<open>CorpusBin\<close> (\<^verbatim>\<open>corpus_bin.py\<close>): the binary file of the lexical index, with the layouts of Python's \<^verbatim>\<open>struct\<close>; the
    locale \<open>codec\<close> is a writer with its reader, interpreted on packed fields and on postings, and the file round-trips
    or is refused (C32). \<open>Stem\<close> (\<^verbatim>\<open>_stem.py\<close>): the stemmer of that index; it is total and only shortens.

  \<^item> \<open>Agents\<close> (\<^verbatim>\<open>agent_registry.py\<close>): registered agents and their tokens, as the refinement of one live token per agent
    over all histories of calls (C33). \<open>Approval\<close> (\<^verbatim>\<open>approval.py\<close>): the policy file and who may approve (C36).
    \<open>PyText\<close>: the operations on text that these use, \<^verbatim>\<open>strip\<close>, \<^verbatim>\<open>splitlines\<close> and ASCII lower case.

  \<^item> \<open>Effects\<close> (\<^verbatim>\<open>zk_effect.py\<close>): measured effects as bounded integer statements over committed rows. The estimate, the interval and the
    tables of logarithms are sound over the reals (C37, with the bounds of \<open>Logs\<close>), and the noisy release is differentially private
    for a uniform draw (C38).

  \<^item> \<open>Pool\<close> (\<^verbatim>\<open>sqlite_pool.py\<close>): idle database handles under every interleaving of threads (C39). \<open>Royalties\<close> (\<^verbatim>\<open>royalties\<close> of
    \<^verbatim>\<open>cleanroom.py\<close>): clusters of near-duplicate offers and exact apportionment by largest remainders (C40).

  \<^bold>\<open>Bounds and termination.\<close> The limits are the program's: 1 MiB per record, 64 levels and 200000 nodes per tree,
    100000 rows and 64 MiB per journal, trees of at most \<open>MAX_TREE_LEAVES\<close> leaves. Every loop is a total function with
    its own measure, so nothing is said up to fuel. Numbers are integers as in Python; where the program compares floats
    with integer bounds, the decimal text is compared, and equality of integers with floats is exact below 16 digits.

  \<^bold>\<open>Not modelled.\<close> The HTTP gateway, the MCP server, the command line and the hub's services are transport, database
  and presentation around the components above. Retrieval, ranking and most statistics of experiments are floating-point
  computations; extraction and distillation call language models. Of the partly modelled components, what is left out
  is named in the text that opens each theory: file access and locking, YAML and RDF input, Unicode regular
  expressions, the Automerge branch of the mesh, publishing of edge updates, attesting under a
  delegated capability, and the enforcement of subject
  policies and capabilities inside the store.
\<close>

end
